(* ===== verification/EbPrelude.thy ===== *)
theory EbPrelude
  imports Main "HOL-Library.Word"
begin

text \<open>
  Shared vocabulary of the development: bytes and fixed-width machine words, the little-endian
  codec every packed struct of the engine uses, the collections of rewrite rules the component
  theories extend, the engine's \<open>Status\<close> type, and the generic interface of a packed struct
  (a fixed-size encoder with its decoder), from which the round trips of whole record files follow.
\<close>

unbundle bit_operations_syntax

section \<open>Types and rule collections\<close>

type_synonym byte = "8 word"
type_synonym u16 = "16 word"
type_synonym u32 = "32 word"
type_synonym u64 = "64 word"
type_synonym bytes = "8 word list"

named_theorems codec_simps \<open>lengths and round trips of fixed-width encodings\<close>
named_theorems step_defs \<open>definitions unfolded when one operation of a component is analysed\<close>

section \<open>Status (common/status.h)\<close>

datatype StatusCode =
    kOk | kInvalidArgument | kNotFound | kCorrupt | kIoError | kInternal | kConflict

record Status =
  code :: StatusCode
  message :: string

definition Status_Ok :: Status where
  "Status_Ok = \<lparr>code = kOk, message = ''''\<rparr>"

definition InvalidArgument :: "string \<Rightarrow> Status" where
  "InvalidArgument msg = \<lparr>code = kInvalidArgument, message = msg\<rparr>"

definition NotFound :: "string \<Rightarrow> Status" where
  "NotFound msg = \<lparr>code = kNotFound, message = msg\<rparr>"

definition Corrupt :: "string \<Rightarrow> Status" where
  "Corrupt msg = \<lparr>code = kCorrupt, message = msg\<rparr>"

definition IoError :: "string \<Rightarrow> Status" where
  "IoError msg = \<lparr>code = kIoError, message = msg\<rparr>"

definition Internal :: "string \<Rightarrow> Status" where
  "Internal msg = \<lparr>code = kInternal, message = msg\<rparr>"

definition Conflict :: "string \<Rightarrow> Status" where
  "Conflict msg = \<lparr>code = kConflict, message = msg\<rparr>"

definition status_ok :: "Status \<Rightarrow> bool" where
  "status_ok s \<longleftrightarrow> code s = kOk"

lemmas status_defs =
  Status_Ok_def InvalidArgument_def NotFound_def Corrupt_def IoError_def Internal_def Conflict_def

lemma status_ok_simps [simp]:
  "status_ok Status_Ok"
  "\<not> status_ok (InvalidArgument m)" "\<not> status_ok (NotFound m)" "\<not> status_ok (Corrupt m)"
  "\<not> status_ok (IoError m)" "\<not> status_ok (Internal m)" "\<not> status_ok (Conflict m)"
  by (simp_all add: status_ok_def status_defs)

lemma status_code_simps [simp]:
  "code Status_Ok = kOk" "code (InvalidArgument m) = kInvalidArgument"
  "code (NotFound m) = kNotFound" "code (Corrupt m) = kCorrupt"
  "code (IoError m) = kIoError" "code (Internal m) = kInternal" "code (Conflict m) = kConflict"
  by (simp_all add: status_defs)

text \<open>
  A function of the source that returns a \<open>Status\<close> and fills an out parameter is modelled with
  the result type \<open>Status + 'a\<close>: \<open>Inl\<close> carries the failing status, \<open>Inr\<close> the value written.
\<close>

section \<open>Little-endian bytes\<close>

primrec le_enc :: "nat \<Rightarrow> nat \<Rightarrow> bytes" where
  "le_enc 0 x = []"
| "le_enc (Suc n) x = word_of_nat x # le_enc n (x div 256)"

primrec le_dec :: "bytes \<Rightarrow> nat" where
  "le_dec [] = 0"
| "le_dec (b # bs) = unat b + 256 * le_dec bs"

lemma length_le_enc [simp, codec_simps]: "length (le_enc n x) = n"
  by (induction n arbitrary: x) auto

lemma unat_byte_of_nat: "unat (word_of_nat x :: byte) = x mod 256"
  by (simp add: unat_of_nat)

lemma le_dec_le_enc [codec_simps]: "le_dec (le_enc n x) = x mod 256 ^ n"
proof (induction n arbitrary: x)
  case (Suc n)
  have "x mod (256 * 256 ^ n) = 256 * (x div 256 mod 256 ^ n) + x mod 256"
    by (rule mod_mult2_eq)
  with Suc show ?case by (simp add: unat_byte_of_nat)
qed simp

lemma le_dec_bound: "le_dec bs < 256 ^ length bs"
proof (induction bs)
  case (Cons b bs)
  have "unat b < 256" using unsigned_less [of b] by simp
  moreover have "256 * le_dec bs + 256 \<le> 256 * 256 ^ length bs"
    using Cons by (metis Suc_leI mult_Suc_right mult_le_mono2 add.commute)
  ultimately show ?case by simp
qed simp

lemma le_enc_le_dec [codec_simps]: "le_enc (length bs) (le_dec bs) = bs"
proof (induction bs)
  case (Cons b bs)
  have lt: "unat b < 256" using unsigned_less [of b] by simp
  have "word_of_nat (unat b + 256 * le_dec bs) = b"
    using lt by (simp add: word_unat_eq_iff unat_byte_of_nat del: of_nat_add)
  moreover have "(unat b + 256 * le_dec bs) div 256 = le_dec bs"
    using lt by simp
  ultimately show ?case using Cons by simp
qed simp

lemma le_enc_inj:
  assumes "le_enc n x = le_enc n y" and "x < 256 ^ n" and "y < 256 ^ n"
  shows "x = y"
  using arg_cong [OF assms(1), of le_dec] assms(2,3) by (simp add: le_dec_le_enc)

definition put_u16 :: "u16 \<Rightarrow> bytes" where "put_u16 w = le_enc 2 (unat w)"
definition put_u32 :: "u32 \<Rightarrow> bytes" where "put_u32 w = le_enc 4 (unat w)"
definition put_u64 :: "u64 \<Rightarrow> bytes" where "put_u64 w = le_enc 8 (unat w)"
definition get_u16 :: "bytes \<Rightarrow> u16" where "get_u16 bs = word_of_nat (le_dec bs)"
definition get_u32 :: "bytes \<Rightarrow> u32" where "get_u32 bs = word_of_nat (le_dec bs)"
definition get_u64 :: "bytes \<Rightarrow> u64" where "get_u64 bs = word_of_nat (le_dec bs)"

lemma length_put [simp, codec_simps]:
  "length (put_u16 a) = 2" "length (put_u32 b) = 4" "length (put_u64 c) = 8"
  by (simp_all add: put_u16_def put_u32_def put_u64_def)

lemma get_put [simp, codec_simps]:
  "get_u16 (put_u16 a) = a" "get_u32 (put_u32 b) = b" "get_u64 (put_u64 c) = c"
proof -
  have "unat a < 256 ^ 2" "unat b < 256 ^ 4" "unat c < 256 ^ 8"
    using unsigned_less [of a] unsigned_less [of b] unsigned_less [of c] by simp_all
  then show "get_u16 (put_u16 a) = a" "get_u32 (put_u32 b) = b" "get_u64 (put_u64 c) = c"
    by (simp_all only: get_u16_def put_u16_def get_u32_def put_u32_def get_u64_def put_u64_def
        le_dec_le_enc mod_less of_nat_unat ucast_id)
qed

lemma put_get_u32 [codec_simps]: "length bs = 4 \<Longrightarrow> put_u32 (get_u32 bs) = bs"
proof -
  assume l: "length bs = 4"
  with le_dec_bound [of bs] have "le_dec bs < 2 ^ 32" by simp
  then have "unat (word_of_nat (le_dec bs) :: u32) = le_dec bs"
    by (simp add: unat_of_nat)
  with l show ?thesis
    by (metis put_u32_def get_u32_def le_enc_le_dec)
qed

lemma put_get_u64 [codec_simps]: "length bs = 8 \<Longrightarrow> put_u64 (get_u64 bs) = bs"
proof -
  assume l: "length bs = 8"
  with le_dec_bound [of bs] have "le_dec bs < 2 ^ 64" by simp
  then have "unat (word_of_nat (le_dec bs) :: u64) = le_dec bs"
    by (simp add: unat_of_nat)
  with l show ?thesis
    by (metis put_u64_def get_u64_def le_enc_le_dec)
qed

lemma put_u32_eq_iff: "length bs = 4 \<Longrightarrow> put_u32 w = bs \<longleftrightarrow> w = get_u32 bs"
  by (auto simp: put_get_u32)

lemma put_u64_eq_iff: "length bs = 8 \<Longrightarrow> put_u64 w = bs \<longleftrightarrow> w = get_u64 bs"
  by (auto simp: put_get_u64)

lemma xor_right_cancel: "a XOR c = b XOR c \<Longrightarrow> a = b" for a b c :: "'a::len word"
  by (metis xor.assoc xor.right_neutral xor_self_eq)

lemma xor_left_cancel: "c XOR a = c XOR b \<Longrightarrow> a = b" for a b c :: "'a::len word"
  by (metis xor.assoc xor.left_neutral xor_self_eq)

section \<open>Byte slices\<close>

definition slice_at :: "nat \<Rightarrow> nat \<Rightarrow> 'a list \<Rightarrow> 'a list" where
  "slice_at off n xs = take n (drop off xs)"

lemma length_slice_at [simp]: "length (slice_at off n xs) = min n (length xs - off)"
  by (simp add: slice_at_def)

lemma slice_at_append:
  "slice_at off n (xs @ ys) =
     (if length xs \<le> off then slice_at (off - length xs) n ys
      else if off + n \<le> length xs then slice_at off n xs
      else slice_at off n xs @ take (n - (length xs - off)) ys)"
  by (auto simp: slice_at_def)

lemma slice_at_0_length [simp]: "n = length xs \<Longrightarrow> slice_at 0 n xs = xs"
  by (simp add: slice_at_def)

definition zeros :: "nat \<Rightarrow> bytes" where
  "zeros n = replicate n 0"

lemma length_zeros [simp]: "length (zeros n) = n"
  by (simp add: zeros_def)

lemma zeros_add: "zeros (a + b) = zeros a @ zeros b"
  by (simp add: zeros_def replicate_add)

lemma le_enc_0: "le_enc n 0 = zeros n"
  by (induction n) (simp_all add: zeros_def)

lemma put_u32_0: "put_u32 0 = zeros 4"
  by (simp add: put_u32_def le_enc_0)

section \<open>Packed structs\<close>

text \<open>
  The interface of a packed struct: an encoder, a decoder and the number of bytes. Everything the
  engine stores as an array of such structs is read by \<open>read_records\<close>, the loop of the loaders.
\<close>

fun read_records :: "nat \<Rightarrow> (bytes \<Rightarrow> 'a) \<Rightarrow> nat \<Rightarrow> bytes \<Rightarrow> ('a list \<times> bytes) option" where
  "read_records sz dec 0 bs = Some ([], bs)"
| "read_records sz dec (Suc n) bs =
     (if length bs < sz then None
      else case read_records sz dec n (drop sz bs) of
             None \<Rightarrow> None
           | Some (xs, rest) \<Rightarrow> Some (dec (take sz bs) # xs, rest))"

lemma read_records_short:
  "length bs < n * sz \<Longrightarrow> read_records sz dec n bs = None"
proof (induction n arbitrary: bs)
  case (Suc n)
  then show ?case by (cases "length bs < sz") (auto simp: Suc.IH)
qed simp

lemma read_records_length:
  "read_records sz dec n bs = Some (xs, rest) \<Longrightarrow>
     length xs = n \<and> length bs = n * sz + length rest"
  by (induction n arbitrary: bs xs) (auto split: if_splits option.splits, fastforce+)

locale packed_struct =
  fixes enc :: "'a \<Rightarrow> bytes"
    and dec :: "bytes \<Rightarrow> 'a"
    and sz :: nat
    and wf :: "'a \<Rightarrow> bool"
  assumes enc_length: "wf x \<Longrightarrow> length (enc x) = sz"
    and dec_enc: "wf x \<Longrightarrow> dec (enc x) = x"
begin

lemma enc_inj: "wf x \<Longrightarrow> wf y \<Longrightarrow> enc x = enc y \<Longrightarrow> x = y"
  by (metis dec_enc)

lemma read_records_enc:
  "(\<And>x. x \<in> set xs \<Longrightarrow> wf x) \<Longrightarrow>
     read_records sz dec (length xs) (concat (map enc xs) @ rest) = Some (xs, rest)"
proof (induction xs)
  case (Cons x xs)
  then have "length (enc x) = sz" "dec (enc x) = x" by (simp_all add: enc_length dec_enc)
  with Cons show ?case by simp
qed simp

lemma length_concat_enc:
  "(\<And>x. x \<in> set xs \<Longrightarrow> wf x) \<Longrightarrow> length (concat (map enc xs)) = length xs * sz"
  by (induction xs) (simp_all add: enc_length)

end

end
