(* ===== verification/Crc32.thy ===== *)
theory Crc32
  imports EbPrelude
begin

text \<open>
  The CRC-32 of \<open>common/crc32.h\<close>, bit by bit as the header computes it, and what the engine relies
  on it for: any corruption of a stored block that is confined to four consecutive bytes changes
  the checksum.
\<close>

section \<open>The routine\<close>

definition crc_poly :: u32 where
  "crc_poly = 0xEDB88320"

definition crc_bit :: "u32 \<Rightarrow> u32" where
  "crc_bit c = (if c AND 1 \<noteq> 0 then drop_bit 1 c XOR crc_poly else drop_bit 1 c)"

definition crc_byte :: "u32 \<Rightarrow> byte \<Rightarrow> u32" where
  "crc_byte c b = (crc_bit ^^ 8) (c XOR ucast b)"

definition Crc32 :: "bytes \<Rightarrow> u32" where
  "Crc32 data = NOT (foldl crc_byte 0xFFFFFFFF data)"

section \<open>One bit step is a bijection\<close>

lemma bit_crc_bit_top: "bit (crc_bit c) 31 \<longleftrightarrow> bit c 0"
proof -
  have top: "bit crc_poly 31" by (simp add: crc_poly_def)
  have "\<not> bit (drop_bit 1 c) 31"
    using bit_imp_le_length [of c 32] by (auto simp: bit_drop_bit_eq)
  with top show ?thesis
    by (auto simp: crc_bit_def bit_xor_iff and_one_eq bit_0 odd_iff_mod_2_eq_one)
qed

lemma crc_bit_inj: "crc_bit c = crc_bit d \<Longrightarrow> c = d"
proof -
  assume eq: "crc_bit c = crc_bit d"
  then have b0: "bit c 0 \<longleftrightarrow> bit d 0"
    by (metis bit_crc_bit_top)
  have "drop_bit 1 c = drop_bit 1 d"
  proof (cases "bit c 0")
    case True
    with b0 eq have "drop_bit 1 c XOR crc_poly = drop_bit 1 d XOR crc_poly"
      by (simp add: crc_bit_def and_one_eq bit_0 odd_iff_mod_2_eq_one)
    then show ?thesis by (rule xor_right_cancel)
  next
    case False
    with b0 eq show ?thesis
      by (simp add: crc_bit_def and_one_eq bit_0 odd_iff_mod_2_eq_one)
  qed
  then have "bit c (Suc n) = bit d (Suc n)" for n
    by (metis bit_drop_bit_eq comp_apply plus_1_eq_Suc)
  with b0 show "c = d"
    by (metis bit_eqI not0_implies_Suc)
qed

lemma crc_bits_inj: "(crc_bit ^^ n) c = (crc_bit ^^ n) d \<Longrightarrow> c = d"
  by (induction n arbitrary: c d) (auto simp: funpow_Suc_right dest: crc_bit_inj simp del: funpow.simps)

section \<open>Linearity, and bursts of up to four bytes\<close>

lemma crc_bit_xor: "crc_bit (a XOR b) = crc_bit a XOR crc_bit b"
proof -
  have d: "drop_bit 1 (a XOR b) = drop_bit 1 a XOR drop_bit 1 b"
    by (rule bit_eqI) (simp add: bit_drop_bit_eq bit_xor_iff)
  show ?thesis
    by (cases "bit a 0"; cases "bit b 0")
      (simp_all add: crc_bit_def d and_one_eq bit_0 [symmetric] odd_iff_mod_2_eq_one [symmetric]
        bit_xor_iff xor.assoc xor.left_commute xor.commute)
qed

lemma crc_bits_xor: "(crc_bit ^^ n) (a XOR b) = (crc_bit ^^ n) a XOR (crc_bit ^^ n) b"
  by (induction n) (simp_all add: crc_bit_xor)

lemma crc_bits_push:
  "(\<And>i. 32 - n \<le> i \<Longrightarrow> \<not> bit w i) \<Longrightarrow> n \<le> 32 \<Longrightarrow> (crc_bit ^^ n) (push_bit n w) = w"
proof (induction n arbitrary: w)
  case (Suc n)
  have "crc_bit (push_bit (Suc n) w) = drop_bit 1 (push_bit (Suc n) w)"
    by (simp add: crc_bit_def and_one_eq odd_iff_mod_2_eq_one [symmetric])
  also have "\<dots> = push_bit n w"
  proof (rule bit_word_eqI)
    fix i assume "i < LENGTH(32)"
    with Suc.prems(1) [of "Suc i - Suc n"] Suc.prems(1) [of "31 - n"] Suc.prems(2)
    show "bit (drop_bit 1 (push_bit (Suc n) w)) i = bit (push_bit n w) i"
      by (cases "i < n"; cases "i = 31")
        (simp_all add: bit_drop_bit_eq bit_push_bit_iff Suc_diff_le del: push_bit_Suc)
  qed
  finally show ?case
    using Suc by (simp add: funpow_Suc_right del: funpow.simps)
qed simp

primrec burst_word :: "bytes \<Rightarrow> u32" where
  "burst_word [] = 0"
| "burst_word (b # bs) = ucast b XOR push_bit 8 (burst_word bs)"

lemma bit_burst_word_high: "8 * length bs \<le> i \<Longrightarrow> \<not> bit (burst_word bs) i"
proof (induction bs arbitrary: i)
  case (Cons b bs)
  then have "\<not> bit (burst_word bs) (i - 8)" by simp
  moreover have "\<not> bit b i" using Cons.prems bit_imp_le_length [of b i] by auto
  ultimately show ?case by (auto simp: bit_xor_iff bit_push_bit_iff bit_ucast_iff)
qed simp

lemma foldl_crc_byte_burst:
  "length bs \<le> 4 \<Longrightarrow>
     foldl crc_byte c bs = (crc_bit ^^ (8 * length bs)) (c XOR burst_word bs)"
proof (induction bs arbitrary: c)
  case (Cons b bs)
  let ?W = "burst_word bs" and ?n = "8 * length bs"
  have high: "\<not> bit ?W i" if "24 \<le> i" for i
    using Cons.prems that by (intro bit_burst_word_high) simp
  have push: "(crc_bit ^^ 8) (push_bit 8 ?W) = ?W"
    by (rule crc_bits_push) (simp_all add: high)
  have "foldl crc_byte c (b # bs) = (crc_bit ^^ ?n) (crc_byte c b XOR ?W)"
    using Cons by simp
  also have "crc_byte c b XOR ?W = (crc_bit ^^ 8) (c XOR burst_word (b # bs))"
    by (simp only: crc_byte_def burst_word.simps crc_bits_xor push xor.assoc)
  finally show ?case
    by (simp add: funpow_add [symmetric, THEN fun_cong, unfolded comp_apply] add.commute)
qed simp

lemma burst_word_inj:
  "length xs = length ys \<Longrightarrow> length xs \<le> 4 \<Longrightarrow> burst_word xs = burst_word ys \<Longrightarrow> xs = ys"
proof (induction xs ys rule: list_induct2)
  case (Cons x xs y ys)
  have eq: "bit (ucast x XOR push_bit 8 (burst_word xs) :: u32) i =
            bit (ucast y XOR push_bit 8 (burst_word ys) :: u32) i" for i
    using Cons.prems by simp
  have "x = y"
  proof (rule bit_word_eqI)
    fix i assume "i < LENGTH(8)"
    with eq [of i] show "bit x i = bit y i"
      by (simp add: bit_xor_iff bit_push_bit_iff bit_ucast_iff)
  qed
  moreover have "burst_word xs = burst_word ys"
  proof (rule bit_word_eqI)
    fix i assume i: "i < LENGTH(32)"
    show "bit (burst_word xs) i = bit (burst_word ys) i"
    proof (cases "i < 24")
      case True
      with eq [of "i + 8"] \<open>x = y\<close> show ?thesis
        by (auto simp: bit_xor_iff bit_push_bit_iff bit_ucast_iff)
    next
      case False
      with Cons.prems Cons.hyps show ?thesis
        by (simp add: bit_burst_word_high)
    qed
  qed
  ultimately show ?case using Cons by simp
qed simp

lemma foldl_crc_byte_inj: "foldl crc_byte c bs = foldl crc_byte d bs \<Longrightarrow> c = d"
proof (induction bs arbitrary: c d)
  case (Cons b bs)
  then have "crc_byte c b = crc_byte d b" by simp
  then have "c XOR ucast b = d XOR ucast b"
    unfolding crc_byte_def by (rule crc_bits_inj)
  then show ?case by (rule xor_right_cancel)
qed simp

lemma crc32_burst:
  assumes "length xs = length ys" and "length xs \<le> 4"
    and "Crc32 (p @ xs @ s) = Crc32 (p @ ys @ s)"
  shows "xs = ys"
proof -
  let ?c = "foldl crc_byte 0xFFFFFFFF p"
  have "foldl crc_byte (foldl crc_byte ?c xs) s = foldl crc_byte (foldl crc_byte ?c ys) s"
    using assms(3) by (simp add: Crc32_def bit.compl_eq_compl_iff)
  then have "foldl crc_byte ?c xs = foldl crc_byte ?c ys"
    by (rule foldl_crc_byte_inj)
  then have "?c XOR burst_word xs = ?c XOR burst_word ys"
    unfolding foldl_crc_byte_burst [OF assms(2)]
      foldl_crc_byte_burst [OF assms(2) [unfolded assms(1)]] assms(1)
    by (rule crc_bits_inj)
  then have "burst_word xs = burst_word ys"
    by (rule xor_left_cancel)
  with assms(1,2) show ?thesis by (rule burst_word_inj)
qed

section \<open>The residue: a message followed by its own checksum\<close>

lemma unat_burst_word: "length bs \<le> 4 \<Longrightarrow> unat (burst_word bs) = le_dec bs"
proof (induction bs)
  case (Cons b bs)
  let ?W = "burst_word bs"
  have disj: "(ucast b :: u32) AND push_bit 8 ?W = 0"
  proof (rule bit_word_eqI)
    fix i assume "i < LENGTH(32)"
    show "bit ((ucast b :: u32) AND push_bit 8 ?W) i = bit (0 :: u32) i"
      using bit_imp_le_length [of b i] by (auto simp: bit_and_iff bit_ucast_iff bit_push_bit_iff)
  qed
  have lt: "unat b < 256" using unsigned_less [of b] by simp
  have "le_dec bs < 256 ^ length bs" by (rule le_dec_bound)
  also have "\<dots> \<le> 256 ^ 3" using Cons.prems by (intro power_increasing) simp_all
  finally have W: "unat ?W < 2 ^ 24" using Cons by simp
  have "burst_word (b # bs) = ucast b + push_bit 8 ?W"
    by (simp add: disjunctive_add_eq_xor [OF disj])
  also have "\<dots> = word_of_nat (unat b + 256 * unat ?W)"
    by (simp add: push_bit_eq_mult)
  finally have "unat (burst_word (b # bs)) = (unat b + 256 * unat ?W) mod 2 ^ 32"
    by (simp only: unat_of_nat) simp
  also have "\<dots> = unat b + 256 * unat ?W" using lt W by (intro mod_less) simp
  finally show ?case using Cons by simp
qed simp

lemma burst_word_put_u32: "burst_word (put_u32 w) = w"
proof -
  have "unat w < 256 ^ 4" using unsigned_less [of w] by simp
  then have "unat (burst_word (put_u32 w)) = unat w"
    by (simp add: unat_burst_word) (simp add: put_u32_def le_dec_le_enc)
  then show ?thesis by (simp add: word_unat_eq_iff)
qed

lemma xor_ones_iff: "x XOR c = 0xFFFFFFFF \<longleftrightarrow> NOT x = c" for x c :: u32
proof -
  have "(0xFFFFFFFF :: u32) = - 1" by simp
  then have ones: "x XOR 0xFFFFFFFF = NOT x" by (simp only: bit.xor_one_right)
  have "x XOR NOT x = 0xFFFFFFFF"
    by (simp only: ones [symmetric] xor.assoc [symmetric] xor_self_eq xor.left_neutral)
  then show ?thesis by (metis xor_left_cancel)
qed

definition crc_residue :: u32 where
  "crc_residue = (crc_bit ^^ 32) 0xFFFFFFFF"

lemma crc_residue_iff:
  "foldl crc_byte 0xFFFFFFFF (m @ put_u32 c) = crc_residue \<longleftrightarrow> Crc32 m = c"
proof -
  let ?s = "foldl crc_byte 0xFFFFFFFF m"
  have "foldl crc_byte 0xFFFFFFFF (m @ put_u32 c) = (crc_bit ^^ 32) (?s XOR c)"
    using foldl_crc_byte_burst [of "put_u32 c" ?s] by (simp add: burst_word_put_u32)
  then have "foldl crc_byte 0xFFFFFFFF (m @ put_u32 c) = crc_residue \<longleftrightarrow> ?s XOR c = 0xFFFFFFFF"
    unfolding crc_residue_def by (metis crc_bits_inj)
  also have "\<dots> \<longleftrightarrow> NOT ?s = c"
    by (rule xor_ones_iff)
  finally show ?thesis by (simp add: Crc32_def)
qed

end
