(* ===== verification/SuperBlock.thy ===== *)
theory SuperBlock
  imports Crc32
begin

text \<open>
  The dual-slot superblock (\<open>state/superblock.h\<close>, \<open>state/superblock.cc\<close>): the packed layout of
  the 4096-byte block with its two checksums, reading and writing a slot, \<open>Load\<close>, \<open>Commit\<close>, and
  the promise of the store: whatever a crash leaves in the slot being written, the repository
  always reopens at the last committed block. The proofs read the packed layout through the
  \<open>packed_struct\<close> interface.
\<close>

section \<open>Layout\<close>

definition kBackupMagic :: u64 where "kBackupMagic = 0xEBBA0001"
definition kBackupSuperBlockFormatV2 :: u32 where "kBackupSuperBlockFormatV2 = 2"
definition kBackupSuperBlockSize :: nat where "kBackupSuperBlockSize = 4096"
definition kBackupSuperBlockCriticalSize :: nat where "kBackupSuperBlockCriticalSize = 512"

record BackupSuperBlockCritical =
  magic :: u64
  epoch :: u64
  phase :: byte
  reserved_phase :: bytes
  txn_id :: u64
  manifest_offset :: u64
  chunks_written :: u64
  bytes_processed :: u64
  crc32 :: u32
  padding :: bytes

record BackupSuperBlockExtension =
  next_txn_id :: u64
  last_manifest_crc32 :: u32
  merkle_root :: bytes
  default_codec :: byte
  backup_features :: u32
  gtcdc_table_seed :: u32
  gtcdc_nc_level :: byte
  gtcdc_reserved :: bytes
  topo_table_seed :: u32
  topo_variant :: byte
  topo_reserved :: bytes
  ext_padding :: bytes

record BackupSuperBlock =
  critical :: BackupSuperBlockCritical
  format_version :: u32
  ext :: BackupSuperBlockExtension
  block_crc32 :: u64

definition default_critical :: BackupSuperBlockCritical where
  "default_critical = \<lparr>magic = kBackupMagic, epoch = 0, phase = 0, reserved_phase = zeros 7,
     txn_id = 0, manifest_offset = 0, chunks_written = 0, bytes_processed = 0, crc32 = 0,
     padding = zeros 452\<rparr>"

definition default_extension :: BackupSuperBlockExtension where
  "default_extension = \<lparr>next_txn_id = 1, last_manifest_crc32 = 0, merkle_root = zeros 32,
     default_codec = 0, backup_features = 0, gtcdc_table_seed = 0, gtcdc_nc_level = 0,
     gtcdc_reserved = zeros 3, topo_table_seed = 0, topo_variant = 0, topo_reserved = zeros 3,
     ext_padding = zeros 3507\<rparr>"

definition default_superblock :: BackupSuperBlock where
  "default_superblock = \<lparr>critical = default_critical, format_version = kBackupSuperBlockFormatV2,
     ext = default_extension, block_crc32 = 0\<rparr>"

text \<open>The memory images: packed, little-endian, in field order.\<close>

definition critical_bytes :: "BackupSuperBlockCritical \<Rightarrow> bytes" where
  "critical_bytes c = put_u64 (magic c) @ put_u64 (epoch c) @ [phase c] @ reserved_phase c @
     put_u64 (txn_id c) @ put_u64 (manifest_offset c) @ put_u64 (chunks_written c) @
     put_u64 (bytes_processed c) @ put_u32 (crc32 c) @ padding c"

definition extension_bytes :: "BackupSuperBlockExtension \<Rightarrow> bytes" where
  "extension_bytes e = put_u64 (next_txn_id e) @ put_u32 (last_manifest_crc32 e) @
     merkle_root e @ [default_codec e] @ put_u32 (backup_features e) @
     put_u32 (gtcdc_table_seed e) @ [gtcdc_nc_level e] @ gtcdc_reserved e @
     put_u32 (topo_table_seed e) @ [topo_variant e] @ topo_reserved e @ ext_padding e"

definition superblock_body :: "BackupSuperBlock \<Rightarrow> bytes" where
  "superblock_body b = critical_bytes (critical b) @ put_u32 (format_version b) @
     extension_bytes (ext b)"

definition superblock_bytes :: "BackupSuperBlock \<Rightarrow> bytes" where
  "superblock_bytes b = superblock_body b @ put_u64 (block_crc32 b)"

definition critical_of :: "bytes \<Rightarrow> BackupSuperBlockCritical" where
  "critical_of bs = \<lparr>magic = get_u64 (slice_at 0 8 bs), epoch = get_u64 (slice_at 8 8 bs),
     phase = bs ! 16, reserved_phase = slice_at 17 7 bs, txn_id = get_u64 (slice_at 24 8 bs),
     manifest_offset = get_u64 (slice_at 32 8 bs), chunks_written = get_u64 (slice_at 40 8 bs),
     bytes_processed = get_u64 (slice_at 48 8 bs), crc32 = get_u32 (slice_at 56 4 bs),
     padding = slice_at 60 452 bs\<rparr>"

definition extension_of :: "bytes \<Rightarrow> BackupSuperBlockExtension" where
  "extension_of bs = \<lparr>next_txn_id = get_u64 (slice_at 0 8 bs),
     last_manifest_crc32 = get_u32 (slice_at 8 4 bs), merkle_root = slice_at 12 32 bs,
     default_codec = bs ! 44, backup_features = get_u32 (slice_at 45 4 bs),
     gtcdc_table_seed = get_u32 (slice_at 49 4 bs), gtcdc_nc_level = bs ! 53,
     gtcdc_reserved = slice_at 54 3 bs, topo_table_seed = get_u32 (slice_at 57 4 bs),
     topo_variant = bs ! 61, topo_reserved = slice_at 62 3 bs, ext_padding = slice_at 65 3507 bs\<rparr>"

definition superblock_of :: "bytes \<Rightarrow> BackupSuperBlock" where
  "superblock_of bs = \<lparr>critical = critical_of (slice_at 0 512 bs),
     format_version = get_u32 (slice_at 512 4 bs), ext = extension_of (slice_at 516 3572 bs),
     block_crc32 = get_u64 (slice_at 4088 8 bs)\<rparr>"

definition critical_wf :: "BackupSuperBlockCritical \<Rightarrow> bool" where
  "critical_wf c \<longleftrightarrow> length (reserved_phase c) = 7 \<and> length (padding c) = 452"

definition extension_wf :: "BackupSuperBlockExtension \<Rightarrow> bool" where
  "extension_wf e \<longleftrightarrow> length (merkle_root e) = 32 \<and> length (gtcdc_reserved e) = 3 \<and>
     length (topo_reserved e) = 3 \<and> length (ext_padding e) = 3507"

definition superblock_wf :: "BackupSuperBlock \<Rightarrow> bool" where
  "superblock_wf b \<longleftrightarrow> critical_wf (critical b) \<and> extension_wf (ext b)"

section \<open>The packed layout round-trips\<close>

lemmas slice_codec = slice_at_append nth_append slice_at_def

interpretation critical_layout: packed_struct critical_bytes critical_of 512 critical_wf
proof unfold_locales
  fix c assume "critical_wf c"
  then show "length (critical_bytes c) = 512" "critical_of (critical_bytes c) = c"
    by (simp_all add: critical_wf_def critical_bytes_def critical_of_def slice_codec)
qed

interpretation extension_layout: packed_struct extension_bytes extension_of 3572 extension_wf
proof unfold_locales
  fix e assume "extension_wf e"
  then show "length (extension_bytes e) = 3572" "extension_of (extension_bytes e) = e"
    by (simp_all add: extension_wf_def extension_bytes_def extension_of_def slice_codec)
qed

lemma length_superblock_body: "superblock_wf b \<Longrightarrow> length (superblock_body b) = 4088"
  by (simp add: superblock_wf_def superblock_body_def critical_layout.enc_length
      extension_layout.enc_length)

interpretation superblock_layout: packed_struct superblock_bytes superblock_of 4096 superblock_wf
proof unfold_locales
  fix b assume wf: "superblock_wf b"
  then show len: "length (superblock_bytes b) = 4096"
    by (simp add: superblock_bytes_def length_superblock_body)
  from wf show "superblock_of (superblock_bytes b) = b"
    by (simp add: superblock_wf_def superblock_of_def superblock_bytes_def superblock_body_def
        slice_codec critical_layout.enc_length critical_layout.dec_enc
        extension_layout.enc_length extension_layout.dec_enc)
qed

text \<open>The other direction: a 4096-byte image is the image of the block it decodes to.\<close>

lemma slice_glue:
  "b = a + n \<Longrightarrow> b + m \<le> length xs \<Longrightarrow> slice_at a n xs @ slice_at b m xs = slice_at a (n + m) xs"
  by (simp add: slice_at_def take_add add.commute [of n a])

lemma slice_cons:
  "b = Suc a \<Longrightarrow> a < length xs \<Longrightarrow> (xs ! a) # slice_at b m xs = slice_at a (Suc m) xs"
  by (simp add: slice_at_def Cons_nth_drop_Suc [symmetric])

lemma critical_bytes_of: "length bs = 512 \<Longrightarrow> critical_bytes (critical_of bs) = bs"
  by (simp add: critical_bytes_def critical_of_def put_get_u64 put_get_u32 slice_glue slice_cons)

lemma extension_bytes_of: "length bs = 3572 \<Longrightarrow> extension_bytes (extension_of bs) = bs"
  by (simp add: extension_bytes_def extension_of_def put_get_u64 put_get_u32 slice_glue slice_cons)

lemma superblock_body_of: "length bs = 4096 \<Longrightarrow> superblock_body (superblock_of bs) = take 4088 bs"
  by (simp add: superblock_body_def superblock_of_def critical_bytes_of extension_bytes_of
      put_get_u32 slice_glue) (simp add: slice_at_def)

lemma superblock_bytes_of: "length bs = 4096 \<Longrightarrow> superblock_bytes (superblock_of bs) = bs"
  by (simp only: superblock_bytes_def superblock_body_of)
    (simp add: superblock_of_def put_get_u64 slice_at_def)

lemma superblock_of_wf: "length bs = 4096 \<Longrightarrow> superblock_wf (superblock_of bs)"
  by (simp add: superblock_wf_def superblock_of_def critical_wf_def extension_wf_def
      critical_of_def extension_of_def)

section \<open>Operations\<close>

text \<open>
  The superblock file is its bytes, \<open>None\<close> when it does not exist. The environment decides every file
  operation of \<open>WriteSlot\<close>: whether an existing file can be opened for update, whether the file can be
  created, how much of the initial content reaches it, whether it can be opened again, whether the slot
  write completes, and what \<open>FsyncPath\<close> answers. A slot write that is interrupted leaves an image
  that depends on the old and the new image of the slot.
\<close>

record write_env =
  open_ok :: bool
  create_ok :: bool
  create_torn :: "nat option"
  reopen_ok :: bool
  torn_slot :: "(bytes \<Rightarrow> bytes \<Rightarrow> bytes) option"
  fsync_status :: Status

definition ZeroPadding :: "BackupSuperBlock \<Rightarrow> BackupSuperBlock" where
  "ZeroPadding b = b\<lparr>
     critical := (critical b)\<lparr>padding := zeros 452, reserved_phase := zeros 7\<rparr>,
     ext := (ext b)\<lparr>ext_padding := zeros 3507\<rparr>\<rparr>"

definition ValidateCritical :: "BackupSuperBlockCritical \<Rightarrow> bool" where
  "ValidateCritical c \<longleftrightarrow>
     (if magic c \<noteq> kBackupMagic then False
      else Crc32 (critical_bytes (c\<lparr>crc32 := 0\<rparr>)) = crc32 c)"

definition MigrateLoadedBlock :: "BackupSuperBlock \<Rightarrow> BackupSuperBlock" where
  "MigrateLoadedBlock b =
     (if format_version b \<ge> kBackupSuperBlockFormatV2 then b
      else b\<lparr>ext := (ext b)\<lparr>next_txn_id := max (txn_id (critical b)) (epoch (critical b)) + 1\<rparr>,
             format_version := kBackupSuperBlockFormatV2\<rparr>)"

definition FinalizeCritical :: "BackupSuperBlock \<Rightarrow> BackupSuperBlock" where
  "FinalizeCritical b0 =
     (let b1 = (ZeroPadding b0)\<lparr>format_version := kBackupSuperBlockFormatV2\<rparr>;
          b2 = b1\<lparr>critical := (critical b1)\<lparr>crc32 := 0\<rparr>\<rparr>;
          b3 = b2\<lparr>critical := (critical b2)\<lparr>crc32 := Crc32 (critical_bytes (critical b2))\<rparr>\<rparr>
      in b3\<lparr>block_crc32 := ucast (Crc32 (take (4096 - 8) (superblock_bytes b3)))\<rparr>)"

definition ReadSlot :: "string \<Rightarrow> bytes option \<Rightarrow> nat \<Rightarrow> Status + BackupSuperBlock" where
  "ReadSlot path file slot =
     (case file of
        None \<Rightarrow> Inl (IoError (''cannot open superblock: '' @ path))
      | Some bs \<Rightarrow>
          let image = slice_at (slot * kBackupSuperBlockSize) kBackupSuperBlockSize bs in
          if length image < kBackupSuperBlockSize then Inl (IoError ''superblock read short'')
          else
            let out = superblock_of image;
                stored = block_crc32 out;
                zeroed = out\<lparr>block_crc32 := 0\<rparr>
            in if ucast (Crc32 (take (4096 - 8) (superblock_bytes zeroed))) \<noteq> stored
               then Inl (Corrupt ''superblock outer crc32 mismatch'')
               else if \<not> ValidateCritical (critical out)
               then Inl (Corrupt ''superblock critical crc32 mismatch'')
               else Inr (MigrateLoadedBlock out))"

definition overwrite_at :: "nat \<Rightarrow> bytes \<Rightarrow> bytes \<Rightarrow> bytes" where
  "overwrite_at off new bs = take off (bs @ zeros (off - length bs)) @ new @ drop (off + length new) bs"

definition initial_file :: "write_env \<Rightarrow> bytes" where
  "initial_file env =
     (let zero = superblock_bytes default_superblock
      in case create_torn env of None \<Rightarrow> zero @ zero | Some k \<Rightarrow> take k (zero @ zero))"

definition write_opened :: "write_env \<Rightarrow> nat \<Rightarrow> BackupSuperBlock \<Rightarrow> bytes \<Rightarrow> Status \<times> bytes option" where
  "write_opened env slot block bs =
     (let off = slot * kBackupSuperBlockSize; image = superblock_bytes block
      in case torn_slot env of
           Some tear \<Rightarrow> (IoError ''superblock write failed'',
                         Some (overwrite_at off (tear (slice_at off kBackupSuperBlockSize bs) image) bs))
         | None \<Rightarrow> (fsync_status env, Some (overwrite_at off image bs)))"

text \<open>A file that exists but cannot be opened for update is created anew, which empties it.\<close>

definition WriteSlot ::
  "write_env \<Rightarrow> string \<Rightarrow> bytes option \<Rightarrow> nat \<Rightarrow> BackupSuperBlock \<Rightarrow> Status \<times> bytes option" where
  "WriteSlot env path file slot block =
     (if file \<noteq> None \<and> open_ok env then write_opened env slot block (the file)
      else if \<not> create_ok env then (IoError (''cannot create superblock: '' @ path), file)
      else if \<not> reopen_ok env then (IoError ''superblock write failed'', Some (initial_file env))
      else write_opened env slot block (initial_file env))"

definition Load :: "string \<Rightarrow> bytes option \<Rightarrow> Status + BackupSuperBlock" where
  "Load path file =
     (case file of
        None \<Rightarrow> Inr default_superblock
      | Some _ \<Rightarrow>
          (case (ReadSlot path file 0, ReadSlot path file 1) of
             (Inl sa, Inl sb) \<Rightarrow> if code sa = kIoError then Inl sa else Inl (Corrupt ''CorruptSuperBlock'')
           | (Inr a, Inl sb) \<Rightarrow> Inr a
           | (Inl sa, Inr b) \<Rightarrow> Inr b
           | (Inr a, Inr b) \<Rightarrow> if epoch (critical a) \<ge> epoch (critical b) then Inr a else Inr b))"

definition loaded_or_default :: "string \<Rightarrow> bytes option \<Rightarrow> BackupSuperBlock" where
  "loaded_or_default path file = (case Load path file of Inl _ \<Rightarrow> default_superblock | Inr b \<Rightarrow> b)"

definition next_block :: "BackupSuperBlock \<Rightarrow> BackupSuperBlock \<Rightarrow> BackupSuperBlock" where
  "next_block current b = FinalizeCritical (b\<lparr>critical := (critical b)\<lparr>epoch :=
      max (epoch (critical current)) (epoch (critical b)) + 1\<rparr>\<rparr>)"

definition inactive_slot :: "BackupSuperBlock \<Rightarrow> nat" where
  "inactive_slot current = (if epoch (critical current) mod 2 = 0 then 1 else 0)"

definition Commit ::
  "write_env \<Rightarrow> string \<Rightarrow> bytes option \<Rightarrow> BackupSuperBlock \<Rightarrow> Status \<times> bytes option" where
  "Commit env path file b =
     (let current = loaded_or_default path file
      in WriteSlot env path file (inactive_slot current) (next_block current b))"

definition GetNextTxnId :: "BackupSuperBlock \<Rightarrow> u64" where
  "GetNextTxnId b =
     (if format_version b \<ge> kBackupSuperBlockFormatV2 then next_txn_id (ext b)
      else max (txn_id (critical b)) (epoch (critical b)) + 1)"

definition SetNextTxnId :: "BackupSuperBlock \<Rightarrow> u64 \<Rightarrow> BackupSuperBlock" where
  "SetNextTxnId b i = b\<lparr>ext := (ext b)\<lparr>next_txn_id := i\<rparr>, format_version := kBackupSuperBlockFormatV2\<rparr>"

section \<open>What a finalized block is worth\<close>

lemma FinalizeCritical_wf: "superblock_wf b \<Longrightarrow> superblock_wf (FinalizeCritical b)"
  by (simp add: superblock_wf_def FinalizeCritical_def ZeroPadding_def critical_wf_def
      extension_wf_def Let_def)

lemma FinalizeCritical_fields [simp]:
  "epoch (critical (FinalizeCritical b)) = epoch (critical b)"
  "magic (critical (FinalizeCritical b)) = magic (critical b)"
  "phase (critical (FinalizeCritical b)) = phase (critical b)"
  "txn_id (critical (FinalizeCritical b)) = txn_id (critical b)"
  "chunks_written (critical (FinalizeCritical b)) = chunks_written (critical b)"
  "format_version (FinalizeCritical b) = kBackupSuperBlockFormatV2"
  "next_txn_id (ext (FinalizeCritical b)) = next_txn_id (ext b)"
  "backup_features (ext (FinalizeCritical b)) = backup_features (ext b)"
  "merkle_root (ext (FinalizeCritical b)) = merkle_root (ext b)"
  by (simp_all add: FinalizeCritical_def ZeroPadding_def Let_def)

text \<open>A block is sealed when its checksums, magic and format are those \<open>FinalizeCritical\<close> writes.\<close>

definition sealed :: "BackupSuperBlock \<Rightarrow> bool" where
  "sealed b \<longleftrightarrow> superblock_wf b \<and> ValidateCritical (critical b) \<and>
     format_version b = kBackupSuperBlockFormatV2 \<and>
     block_crc32 b = ucast (Crc32 (superblock_body b))"

lemma take_body: "superblock_wf b \<Longrightarrow> take 4088 (superblock_bytes b) = superblock_body b"
  by (simp add: superblock_bytes_def length_superblock_body)

lemma superblock_body_crc: "superblock_body (b\<lparr>block_crc32 := c\<rparr>) = superblock_body b"
  by (simp add: superblock_body_def)

lemma superblock_wf_crc: "superblock_wf (b\<lparr>block_crc32 := c\<rparr>) = superblock_wf b"
  by (simp add: superblock_wf_def)

lemma sealed_FinalizeCritical:
  assumes "superblock_wf b" and "magic (critical b) = kBackupMagic"
  shows "sealed (FinalizeCritical b)"
proof -
  let ?f = "FinalizeCritical b"
  have wf: "superblock_wf ?f" by (rule FinalizeCritical_wf [OF assms(1)])
  have "ValidateCritical (critical ?f)"
    using assms(2) by (simp add: ValidateCritical_def FinalizeCritical_def ZeroPadding_def Let_def)
  moreover have "block_crc32 ?f = ucast (Crc32 (take 4088 (superblock_bytes (?f\<lparr>block_crc32 := 0\<rparr>))))"
    using wf by (simp add: FinalizeCritical_def Let_def take_body superblock_wf_crc
        superblock_body_crc)
  ultimately show ?thesis
    using wf by (simp add: sealed_def take_body superblock_wf_crc superblock_body_crc)
qed

lemma MigrateLoadedBlock_current [simp]:
  "format_version b = kBackupSuperBlockFormatV2 \<Longrightarrow> MigrateLoadedBlock b = b"
  by (simp add: MigrateLoadedBlock_def)

section \<open>Slots of a file\<close>

definition slot_image :: "bytes \<Rightarrow> nat \<Rightarrow> bytes" where
  "slot_image bs slot = slice_at (slot * 4096) 4096 bs"

text \<open>The image-level reader: what \<open>ReadSlot\<close> answers depends on the slot's image only.\<close>

definition read_image :: "bytes \<Rightarrow> BackupSuperBlock option" where
  "read_image im =
     (let b = superblock_of im in
      if length im = 4096 \<and> ucast (Crc32 (take 4088 im)) = block_crc32 b \<and>
         ValidateCritical (critical b)
      then Some (MigrateLoadedBlock b) else None)"

lemma ReadSlot_image:
  "(case ReadSlot path (Some bs) slot of Inl _ \<Rightarrow> None | Inr b \<Rightarrow> Some b) =
     read_image (slot_image bs slot)"
proof (cases "length (slot_image bs slot) = 4096")
  case True
  let ?im = "slot_image bs slot"
  have "take 4088 (superblock_bytes ((superblock_of ?im)\<lparr>block_crc32 := 0\<rparr>)) = take 4088 ?im"
    using True by (simp add: take_body superblock_wf_crc superblock_of_wf superblock_body_crc
        superblock_body_of)
  with True show ?thesis
    by (simp add: ReadSlot_def read_image_def Let_def slot_image_def kBackupSuperBlockSize_def
        del: length_slice_at)
next
  case False
  then have "length (slot_image bs slot) < 4096"
    by (simp add: slot_image_def min_def split: if_splits)
  with False show ?thesis
    by (simp add: ReadSlot_def read_image_def Let_def slot_image_def kBackupSuperBlockSize_def
        del: length_slice_at)
qed

lemma read_image_sealed: "sealed b \<Longrightarrow> read_image (superblock_bytes b) = Some b"
  by (simp add: sealed_def read_image_def Let_def superblock_layout.dec_enc
      superblock_layout.enc_length take_body)

definition load_images :: "bytes \<Rightarrow> bytes \<Rightarrow> BackupSuperBlock option" where
  "load_images ia ib =
     (case (read_image ia, read_image ib) of
        (None, None) \<Rightarrow> None
      | (Some a, None) \<Rightarrow> Some a
      | (None, Some b) \<Rightarrow> Some b
      | (Some a, Some b) \<Rightarrow> Some (if epoch (critical a) \<ge> epoch (critical b) then a else b))"

lemma Load_images:
  "(case Load path (Some bs) of Inl _ \<Rightarrow> None | Inr b \<Rightarrow> Some b) =
     load_images (slot_image bs 0) (slot_image bs 1)"
  unfolding load_images_def ReadSlot_image [of path, symmetric]
  by (auto simp: Load_def split: sum.splits)

section \<open>Any burst of four bytes is detected\<close>

lemma le_enc_split: "le_enc (m + n) x = le_enc m x @ le_enc n (x div 256 ^ m)"
  by (induction m arbitrary: x) (simp_all add: div_mult2_eq)

lemma put_u64_ucast: "put_u64 (ucast c) = put_u32 c @ zeros 4" for c :: u32
proof -
  have lt: "unat c < 256 ^ 4" using unsigned_less [of c] by simp
  have "unat (ucast c :: u64) = unat c"
    using lt by (simp add: unsigned_ucast_eq take_bit_nat_eq_self)
  then show ?thesis
    using le_enc_split [of 4 4 "unat c"] lt by (simp add: put_u64_def put_u32_def le_enc_0)
qed

text \<open>The outer checksum in residue form: the last eight bytes are the checksum and four zeros.\<close>

definition outer_ok :: "bytes \<Rightarrow> bool" where
  "outer_ok im \<longleftrightarrow> ucast (Crc32 (take 4088 im)) = block_crc32 (superblock_of im)"

lemma outer_ok_residue:
  assumes "length im = 4096"
  shows "outer_ok im \<longleftrightarrow>
    foldl crc_byte 0xFFFFFFFF (take 4092 im) = crc_residue \<and> drop 4092 im = zeros 4"
proof -
  let ?c = "Crc32 (take 4088 im)"
  have tail: "drop 4088 im = slice_at 4088 4 im @ drop 4092 im"
    using append_take_drop_id [of 4 "drop 4088 im"] by (simp add: slice_at_def)
  have "outer_ok im \<longleftrightarrow> put_u64 (ucast ?c) = drop 4088 im"
    using assms by (simp add: put_u64_eq_iff outer_ok_def superblock_of_def slice_at_def)
  also have "\<dots> \<longleftrightarrow> put_u32 ?c = slice_at 4088 4 im \<and> zeros 4 = drop 4092 im"
    unfolding put_u64_ucast tail using assms by (intro append_eq_append_conv) simp
  also have "put_u32 ?c = slice_at 4088 4 im \<longleftrightarrow> ?c = get_u32 (slice_at 4088 4 im)"
    using assms by (intro put_u32_eq_iff) simp
  also have "?c = get_u32 (slice_at 4088 4 im) \<longleftrightarrow>
      foldl crc_byte 0xFFFFFFFF (take 4088 im @ slice_at 4088 4 im) = crc_residue"
    using crc_residue_iff [of "take 4088 im" "get_u32 (slice_at 4088 4 im)"] assms
    by (simp add: put_get_u32)
  also have "take 4088 im @ slice_at 4088 4 im = take 4092 im"
    by (simp add: slice_at_def take_add [symmetric])
  finally show ?thesis by auto
qed

lemma foldl_crc_burst:
  assumes "length xs = length ys" and "length xs \<le> 4"
    and "foldl crc_byte c (p @ xs @ s) = foldl crc_byte c (p @ ys @ s)"
  shows "xs = ys"
proof -
  let ?c = "foldl crc_byte c p"
  have "foldl crc_byte ?c xs = foldl crc_byte ?c ys"
    using assms(3) by (simp add: foldl_crc_byte_inj)
  then have "?c XOR burst_word xs = ?c XOR burst_word ys"
    unfolding foldl_crc_byte_burst [OF assms(2)]
      foldl_crc_byte_burst [OF assms(2) [unfolded assms(1)]] assms(1)
    by (rule crc_bits_inj)
  then show ?thesis using assms(1,2) burst_word_inj xor_left_cancel by blast
qed

lemma outer_ok_burst:
  assumes ok: "outer_ok (p @ xs @ s)" "outer_ok (p @ ys @ s)"
    and len: "length (p @ xs @ s) = 4096" "length xs = length ys" "length xs \<le> 4"
  shows "xs = ys"
proof -
  let ?im = "p @ xs @ s" and ?im' = "p @ ys @ s"
  let ?k = "4092 - length p"
  have res: "foldl crc_byte 0xFFFFFFFF (take 4092 ?im) = foldl crc_byte 0xFFFFFFFF (take 4092 ?im')"
    and tl: "drop 4092 ?im = drop 4092 ?im'"
    using ok len by (simp_all only: outer_ok_residue length_append)
  have split: "take 4092 ?im = take 4092 p @ take ?k xs @ take (?k - length xs) s"
    "take 4092 ?im' = take 4092 p @ take ?k ys @ take (?k - length xs) s"
    using len(2) by simp_all
  have "take ?k xs = take ?k ys"
    by (rule foldl_crc_burst [of "take ?k xs" "take ?k ys" _ "take 4092 p" "take (?k - length xs) s"])
      (use res split len in simp_all)
  moreover have "drop ?k xs = drop ?k ys"
    using tl len by simp
  ultimately show ?thesis by (metis append_take_drop_id)
qed

lemma read_image_burst:
  assumes "read_image (p @ xs @ s) = Some b" and "length xs = length ys" and "length xs \<le> 4"
    and "xs \<noteq> ys"
  shows "read_image (p @ ys @ s) = None"
proof (rule ccontr)
  assume "\<not> ?thesis"
  then have "outer_ok (p @ xs @ s)" "outer_ok (p @ ys @ s)" "length (p @ xs @ s) = 4096"
    using assms(1) by (auto simp: read_image_def outer_ok_def Let_def split: if_splits)
  with assms outer_ok_burst show False by blast
qed

section \<open>The store is an atomic register\<close>

lemma slot_image_overwrite:
  assumes "length bs = 8192" and "length new = 4096" and "slot \<le> 1" and "slot' \<le> 1"
  shows "slot_image (overwrite_at (slot * 4096) new bs) slot' =
           (if slot' = slot then new else slot_image bs slot')"
    and "length (overwrite_at (slot * 4096) new bs) = 8192"
  using assms by (auto simp: slot_image_def overwrite_at_def slice_at_def zeros_def le_Suc_eq)

text \<open>
  The invariant of the file: two slots, and a readable slot holds an epoch of its own parity, so
  the slot \<open>Commit\<close> picks is never the one that holds the newest block.
\<close>

definition parity_ok :: "bytes \<Rightarrow> bool" where
  "parity_ok bs \<longleftrightarrow> length bs = 8192 \<and>
     (\<forall>slot \<le> 1. \<forall>b. read_image (slot_image bs slot) = Some b \<longrightarrow>
        unat (epoch (critical b)) mod 2 = slot)"

definition register :: "bytes \<Rightarrow> BackupSuperBlock \<Rightarrow> bool" where
  "register bs b \<longleftrightarrow> parity_ok bs \<and> load_images (slot_image bs 0) (slot_image bs 1) = Some b"

lemma inactive_slot_parity: "inactive_slot b = 1 - unat (epoch (critical b)) mod 2"
  by (auto simp: inactive_slot_def word_unat_eq_iff unat_mod)

lemma register_slots:
  assumes "register bs b"
  shows "read_image (slot_image bs (unat (epoch (critical b)) mod 2)) = Some b"
    and "read_image (slot_image bs (inactive_slot b)) = Some c \<Longrightarrow>
           epoch (critical c) \<le> epoch (critical b)"
proof -
  have par: "\<And>c. read_image (slot_image bs 0) = Some c \<Longrightarrow> unat (epoch (critical c)) mod 2 = 0"
    "\<And>c. read_image (slot_image bs 1) = Some c \<Longrightarrow> unat (epoch (critical c)) mod 2 = 1"
    using assms by (force simp: register_def parity_ok_def)+
  show "read_image (slot_image bs (unat (epoch (critical b)) mod 2)) = Some b"
    using assms par
    by (auto simp: register_def load_images_def split: option.splits if_splits)
  show "read_image (slot_image bs (inactive_slot b)) = Some c \<Longrightarrow>
      epoch (critical c) \<le> epoch (critical b)"
    using assms par unfolding inactive_slot_parity
    by (auto simp: register_def load_images_def split: option.splits if_splits)
qed

lemma registerI:
  assumes "length bs = 8192" and "slot = unat (epoch (critical b)) mod 2"
    and "read_image (slot_image bs slot) = Some b"
    and "\<And>c. read_image (slot_image bs (1 - slot)) = Some c \<Longrightarrow>
           unat (epoch (critical c)) mod 2 = 1 - slot \<and> epoch (critical c) \<le> epoch (critical b)"
  shows "register bs b"
proof -
  have "slot = 0 \<or> slot = 1" using assms(2) by auto
  then show ?thesis
  proof
    assume "slot = 0"
    with assms show ?thesis
      by (auto simp: register_def parity_ok_def load_images_def le_Suc_eq split: option.splits)
  next
    assume "slot = 1"
    with assms show ?thesis
      by (fastforce simp: register_def parity_ok_def load_images_def le_Suc_eq
          split: option.splits dest: order.antisym)
  qed
qed

lemma register_commit:
  assumes reg: "register bs cur" and new: "sealed b" "epoch (critical b) = epoch (critical cur) + 1"
    and "unat (epoch (critical cur)) + 1 < 2 ^ 64"
  shows "register (overwrite_at (inactive_slot cur * 4096) (superblock_bytes b) bs) b"
proof -
  have ep: "unat (epoch (critical b)) = unat (epoch (critical cur)) + 1"
    using assms by (simp add: unat_word_ariths)
  have len: "length bs = 8192" "length (superblock_bytes b) = 4096"
    using reg new by (auto simp: register_def parity_ok_def sealed_def superblock_layout.enc_length)
  have sl: "inactive_slot cur = unat (epoch (critical b)) mod 2" "inactive_slot cur \<le> 1"
    "1 - inactive_slot cur = unat (epoch (critical cur)) mod 2"
    unfolding inactive_slot_parity ep by presburger+
  have other: "1 - inactive_slot cur \<noteq> inactive_slot cur" using sl(2) by arith
  show ?thesis
    by (rule registerI [of _ "inactive_slot cur"])
      (use len sl other new ep register_slots(1) [OF reg] read_image_sealed [OF new(1)] in
        \<open>auto simp: slot_image_overwrite word_le_nat_alt\<close>)
qed

lemma register_torn:
  assumes reg: "register bs cur" and junk: "length junk = 4096"
    "read_image junk = None \<or> junk = slot_image bs (inactive_slot cur)"
  shows "register (overwrite_at (inactive_slot cur * 4096) junk bs) cur"
proof -
  have len: "length bs = 8192" using reg by (simp add: register_def parity_ok_def)
  have sl: "inactive_slot cur \<le> 1" "1 - inactive_slot cur = unat (epoch (critical cur)) mod 2"
    unfolding inactive_slot_parity by presburger+
  have other: "1 - (1 - inactive_slot cur) = inactive_slot cur" "1 - inactive_slot cur \<noteq> inactive_slot cur"
    using sl(1) by arith+
  have img: "read_image junk = Some c \<Longrightarrow> read_image (slot_image bs (inactive_slot cur)) = Some c" for c
    using junk(2) by auto
  have low: "unat (epoch (critical c)) mod 2 = inactive_slot cur \<and> epoch (critical c) \<le> epoch (critical cur)"
    if "read_image junk = Some c" for c
    using reg sl(1) register_slots(2) [OF reg] img [OF that] by (auto simp: register_def parity_ok_def)
  show ?thesis
    by (rule registerI [of _ "1 - inactive_slot cur"])
      (use len sl other junk(1) register_slots(1) [OF reg] low in \<open>auto simp: slot_image_overwrite\<close>)
qed

lemma register_Load: "register bs b \<Longrightarrow> Load path (Some bs) = Inr b"
  using Load_images [of path bs] by (auto simp: register_def split: sum.splits)

section \<open>Commits and crashes\<close>

text \<open>
  What is assumed of the storage: an existing file can be opened, and a slot write that is interrupted
  leaves the old image (it did not begin), the new one (nothing was missing), or one that the checksums
  refuse. The first commit of a repository creates the file and completes.
\<close>

definition env_ok :: "write_env \<Rightarrow> bool" where
  "env_ok v \<longleftrightarrow> open_ok v \<and>
     (\<forall>tear old new. torn_slot v = Some tear \<longrightarrow> length old = 4096 \<longrightarrow> length new = 4096 \<longrightarrow>
        length (tear old new) = 4096 \<and> (tear old new \<in> {old, new} \<or> read_image (tear old new) = None))"

definition env_creates :: "write_env \<Rightarrow> bool" where
  "env_creates v \<longleftrightarrow> create_ok v \<and> create_torn v = None \<and> reopen_ok v \<and> torn_slot v = None"

text \<open>
  One step is one call of \<open>Commit\<close>. The caller passes a block it has loaded before, so its epoch is not
  ahead of the file's. The second component is the block whose image was the last to reach its slot.
\<close>

definition committable :: "BackupSuperBlock \<Rightarrow> BackupSuperBlock \<Rightarrow> bool" where
  "committable cur b \<longleftrightarrow> superblock_wf b \<and> magic (critical b) = kBackupMagic \<and>
     epoch (critical b) \<le> epoch (critical cur) \<and> unat (epoch (critical cur)) + 1 < 2 ^ 64"

definition after_commit :: "BackupSuperBlock \<Rightarrow> BackupSuperBlock \<Rightarrow> bytes \<Rightarrow> BackupSuperBlock" where
  "after_commit cur b bs' =
     (if slot_image bs' (inactive_slot cur) = superblock_bytes (next_block cur b) then next_block cur b else cur)"

inductive sb_step :: "string \<Rightarrow> bytes \<times> BackupSuperBlock \<Rightarrow> bytes \<times> BackupSuperBlock \<Rightarrow> bool"
  for path where
  commit: "committable cur b \<Longrightarrow> env_ok env \<Longrightarrow> Commit env path (Some bs) b = (st, Some bs') \<Longrightarrow>
     sb_step path (bs, cur) (bs', after_commit cur b bs')"

inductive sb_reachable :: "string \<Rightarrow> bytes \<times> BackupSuperBlock \<Rightarrow> bool" for path where
  created: "superblock_wf b \<Longrightarrow> magic (critical b) = kBackupMagic \<Longrightarrow> epoch (critical b) = 0 \<Longrightarrow>
     env_creates env \<Longrightarrow> Commit env path None b = (st, Some bs) \<Longrightarrow>
     sb_reachable path (bs, next_block default_superblock b)"
| later: "sb_reachable path s \<Longrightarrow> sb_step path s s' \<Longrightarrow> sb_reachable path s'"

lemma default_superblock_wf: "superblock_wf default_superblock"
  by (simp add: superblock_wf_def default_superblock_def critical_wf_def extension_wf_def
      default_critical_def default_extension_def)

lemma sealed_next_block:
  "superblock_wf b \<Longrightarrow> magic (critical b) = kBackupMagic \<Longrightarrow> sealed (next_block cur b)"
  unfolding next_block_def
  by (rule sealed_FinalizeCritical) (simp_all add: superblock_wf_def critical_wf_def)

lemma epoch_next_block:
  "epoch (critical b) \<le> epoch (critical cur) \<Longrightarrow>
     epoch (critical (next_block cur b)) = epoch (critical cur) + 1"
  by (simp add: next_block_def max_absorb1)

lemma Commit_register:
  assumes reg: "register bs cur" and b: "committable cur b" and env: "env_ok env"
    and c: "Commit env path (Some bs) b = (st, d)"
  obtains bs' where "d = Some bs'" "register bs' (after_commit cur b bs')"
    "after_commit cur b bs' = next_block cur b \<or> \<not> status_ok st \<and> after_commit cur b bs' = cur"
    "torn_slot env = None \<longrightarrow> st = fsync_status env \<and> after_commit cur b bs' = next_block cur b"
proof -
  let ?n = "next_block cur b" and ?i = "inactive_slot cur"
  have len: "length bs = 8192" using reg by (simp add: register_def parity_ok_def)
  have sn: "sealed ?n" using b by (intro sealed_next_block) (simp_all add: committable_def)
  then have ln: "length (superblock_bytes ?n) = 4096" by (simp add: sealed_def superblock_layout.enc_length)
  have sl: "?i \<le> 1" unfolding inactive_slot_parity by presburger
  have new: "register (overwrite_at (?i * 4096) (superblock_bytes ?n) bs) ?n"
    by (rule register_commit [OF reg sn]) (use b in \<open>simp_all add: committable_def epoch_next_block\<close>)
  have "loaded_or_default path (Some bs) = cur" by (simp add: loaded_or_default_def register_Load [OF reg])
  then have w: "write_opened env ?i ?n bs = (st, d)"
    using c env by (simp add: Commit_def WriteSlot_def env_ok_def)
  show thesis
  proof (cases "torn_slot env")
    case None
    let ?bs = "overwrite_at (?i * 4096) (superblock_bytes ?n) bs"
    have "after_commit cur b ?bs = ?n"
      using slot_image_overwrite(1) [OF len ln sl sl] by (simp add: after_commit_def)
    then show thesis
      using that [of ?bs] w None new by (simp add: write_opened_def Let_def kBackupSuperBlockSize_def)
  next
    case (Some tear)
    let ?old = "slot_image bs ?i"
    let ?im = "tear ?old (superblock_bytes ?n)"
    let ?bs = "overwrite_at (?i * 4096) ?im bs"
    have lo: "length ?old = 4096" using len sl by (simp add: slot_image_def)
    have im: "length ?im = 4096" "?im \<in> {?old, superblock_bytes ?n} \<or> read_image ?im = None"
      using env Some lo ln by (auto simp: env_ok_def)
    have d: "st = IoError ''superblock write failed''" "d = Some ?bs"
      using w Some by (simp_all add: write_opened_def Let_def kBackupSuperBlockSize_def slot_image_def)
    have a: "after_commit cur b ?bs = (if ?im = superblock_bytes ?n then ?n else cur)"
      using slot_image_overwrite(1) [OF len im(1) sl sl] by (simp add: after_commit_def)
    have "register ?bs (after_commit cur b ?bs)"
    proof (cases "?im = superblock_bytes ?n")
      case True
      then show ?thesis using a new by simp
    next
      case False
      then have "read_image ?im = None \<or> ?im = ?old" using im(2) by blast
      then show ?thesis using a False register_torn [OF reg im(1)] by simp
    qed
    then show thesis using that [of ?bs] d a Some by auto
  qed
qed

lemma sb_step_register: "sb_step path (bs, cur) (bs', cur') \<Longrightarrow> register bs cur \<Longrightarrow> register bs' cur'"
  by (erule sb_step.cases) (auto elim: Commit_register)

lemma read_image_epoch:
  "superblock_wf b \<Longrightarrow> read_image (superblock_bytes b) = Some c \<Longrightarrow>
     epoch (critical c) = epoch (critical b)"
  by (auto simp: read_image_def Let_def superblock_layout.dec_enc MigrateLoadedBlock_def
      split: if_splits)

lemma sb_created_register:
  assumes "superblock_wf b" and "magic (critical b) = kBackupMagic" and "epoch (critical b) = 0"
    and "env_creates env" and "Commit env path None b = (st, Some bs)"
  shows "register bs (next_block default_superblock b)"
proof -
  let ?d = "superblock_bytes default_superblock" and ?n = "next_block default_superblock b"
  have d: "length ?d = 4096" using default_superblock_wf by (rule superblock_layout.enc_length)
  have sn: "sealed ?n" using assms(1,2) by (rule sealed_next_block)
  have "epoch (critical default_superblock) = 0"
    by (simp add: default_superblock_def default_critical_def)
  then have en: "epoch (critical ?n) = 1" and i1: "inactive_slot default_superblock = 1"
    using assms(3) by (simp_all add: epoch_next_block inactive_slot_def)
  have bs: "bs = overwrite_at (1 * 4096) (superblock_bytes ?n) (?d @ ?d)"
    using assms(4,5) i1
    by (auto simp: Commit_def WriteSlot_def write_opened_def initial_file_def env_creates_def Let_def
        loaded_or_default_def Load_def kBackupSuperBlockSize_def split: if_splits)
  have l2: "length (?d @ ?d) = 8192" "length (superblock_bytes ?n) = 4096"
    using d sn by (simp_all add: sealed_def superblock_layout.enc_length)
  have s0: "slot_image (?d @ ?d) 0 = ?d" using d by (simp add: slot_image_def slice_at_def)
  have "epoch (critical c) = 0" if "read_image ?d = Some c" for c
    using read_image_epoch [OF default_superblock_wf that]
    by (simp add: default_superblock_def default_critical_def)
  then show ?thesis
    unfolding bs
    by (intro registerI [of _ 1])
      (use sn en s0 slot_image_overwrite(1) [OF l2, of 1 0] slot_image_overwrite(1) [OF l2, of 1 1]
        slot_image_overwrite(2) [OF l2, of 1 1] in \<open>simp_all add: read_image_sealed\<close>)
qed

lemma sb_reachable_register: "sb_reachable path (bs, cur) \<Longrightarrow> register bs cur"
proof (induction "(bs, cur)" arbitrary: bs cur rule: sb_reachable.induct)
  case (created b env st bs)
  then show ?case by (rule sb_created_register)
next
  case (later s)
  then show ?case by (cases s) (metis sb_step_register)
qed

text \<open>
  C1. Crash consistency of the superblock. Assumptions: the first commit has created the file and
  completed, later ones can open it, the caller's blocks are not ahead of the file's epoch (which has room), and a
  slot write that is interrupted leaves the old image of the slot, the new one, or one that the checksums refuse.
  Then after any sequence of commits, completed or interrupted, loading gives exactly the block whose image was
  the last to reach its slot; one more commit makes its block the loaded one, or reports an error and
  leaves the loaded block, and nothing else is ever loaded. The file of two slots is one atomic register.
\<close>

theorem superblock_atomic_register:
  assumes "sb_reachable path (bs, cur)"
  shows "Load path (Some bs) = Inr cur \<and>
    (\<forall>b env st new. committable cur b \<longrightarrow> env_ok env \<longrightarrow> Commit env path (Some bs) b = (st, new) \<longrightarrow>
       Load path new = Inr (next_block cur b) \<or> \<not> status_ok st \<and> Load path new = Inr cur)"
proof (intro conjI allI impI)
  have reg: "register bs cur" by (rule sb_reachable_register [OF assms])
  then show "Load path (Some bs) = Inr cur" by (rule register_Load)
  fix b env st new
  assume "committable cur b" "env_ok env" "Commit env path (Some bs) b = (st, new)"
  from Commit_register [OF reg this]
  show "Load path new = Inr (next_block cur b) \<or> \<not> status_ok st \<and> Load path new = Inr cur"
  proof cases
    case (1 bs')
    have "Load path (Some bs') = Inr (after_commit cur b bs')" by (rule register_Load [OF 1(2)])
    then show ?thesis using 1(1,3) by auto
  qed
qed

text \<open>
  Without the first assumption the register breaks: when an existing file cannot be opened for update
  once, \<open>WriteSlot\<close> creates it anew, and if its slot write then fails, both blocks are gone.
\<close>

lemma failed_open_erases:
  assumes "\<not> open_ok env" and "create_ok env" and "create_torn env = Some 0" and "\<not> reopen_ok env"
  shows "\<exists>e. Commit env path (Some bs) b = (IoError ''superblock write failed'', Some []) \<and> Load path (Some []) = Inl e"
  using assms by (simp add: Commit_def WriteSlot_def initial_file_def Let_def Load_def ReadSlot_def slice_at_def kBackupSuperBlockSize_def IoError_def)

definition calm_env :: write_env where
  "calm_env = \<lparr>open_ok = True, create_ok = True, create_torn = None, reopen_ok = True, torn_slot = None,
     fsync_status = Status_Ok\<rparr>"

text \<open>A write that is cut in the middle, and one that fails before it begins.\<close>

definition torn_env :: write_env where
  "torn_env = calm_env\<lparr>torn_slot := Some (\<lambda>old new. zeros 4096)\<rparr>"

definition untouched_env :: write_env where
  "untouched_env = calm_env\<lparr>torn_slot := Some (\<lambda>old new. old)\<rparr>"

lemma zero_image_refused: "read_image (zeros 4096) = None"
proof -
  have "take 4 (drop 4 (zeros 4096)) = zeros 4" "slice_at 0 8 (slice_at 0 512 (zeros 4096)) = zeros 8"
    by (simp_all add: zeros_def slice_at_def)
  moreover have "get_u64 (zeros 8) = 0"
    using get_put(3) [of 0] by (simp add: put_u64_def le_enc_0)
  ultimately have "magic (critical (superblock_of (zeros 4096))) = 0"
    by (simp add: superblock_of_def critical_of_def)
  then show ?thesis
    by (simp add: read_image_def Let_def ValidateCritical_def kBackupMagic_def)
qed

lemma default_magic: "magic (critical default_superblock) = kBackupMagic"
  "epoch (critical default_superblock) = 0"
  by (simp_all add: default_superblock_def default_critical_def)

lemma sample_envs: "env_ok calm_env" "env_ok torn_env" "env_ok untouched_env" "env_creates calm_env"
  by (simp_all add: env_ok_def env_creates_def calm_env_def torn_env_def untouched_env_def zero_image_refused)

lemma committable_default: "committable (next_block default_superblock default_superblock) default_superblock"
  by (simp add: committable_def default_superblock_wf default_magic next_block_def)

theorem superblock_atomic_register_witness:
  "\<exists>bs bs' new st. Commit calm_env ''sb'' None default_superblock = (Status_Ok, Some bs) \<and>
     Commit torn_env ''sb'' (Some bs) default_superblock = (IoError ''superblock write failed'', Some bs') \<and>
     Load ''sb'' (Some bs') = Inr (next_block default_superblock default_superblock) \<and>
     Commit untouched_env ''sb'' (Some bs') default_superblock = (st, new) \<and> \<not> status_ok st \<and>
     Load ''sb'' new \<in> {Inr (next_block (next_block default_superblock default_superblock) default_superblock),
       Inr (next_block default_superblock default_superblock)}"
proof -
  let ?n = "next_block default_superblock default_superblock"
  obtain bs where c1: "Commit calm_env ''sb'' None default_superblock = (Status_Ok, Some bs)"
    by (auto simp: Commit_def WriteSlot_def write_opened_def calm_env_def Let_def)
  then have r1: "sb_reachable ''sb'' (bs, ?n)"
    by (intro sb_reachable.created [where env = calm_env]) (auto simp: default_superblock_wf default_magic sample_envs)
  obtain bs' where c2: "Commit torn_env ''sb'' (Some bs) default_superblock =
      (IoError ''superblock write failed'', Some bs')"
    by (auto simp: Commit_def WriteSlot_def write_opened_def torn_env_def calm_env_def Let_def)
  have "sb_reachable ''sb'' (bs', after_commit ?n default_superblock bs')"
    by (rule sb_reachable.later [OF r1 sb_step.commit [OF committable_default sample_envs(2) c2]])
  moreover have "after_commit ?n default_superblock bs' = ?n"
  proof -
    from Commit_register [OF sb_reachable_register [OF r1] committable_default sample_envs(2) c2] obtain
      "register bs' (after_commit ?n default_superblock bs')" by auto
    have "read_image (superblock_bytes (next_block ?n default_superblock)) \<noteq> None"
      using read_image_sealed [OF sealed_next_block [OF default_superblock_wf default_magic(1)]] by simp
    moreover have "slot_image bs' (inactive_slot ?n) = zeros 4096"
      using c2 sb_reachable_register [OF r1] inactive_slot_parity [of ?n]
      by (auto simp: Commit_def WriteSlot_def write_opened_def torn_env_def calm_env_def Let_def loaded_or_default_def
          register_Load register_def parity_ok_def kBackupSuperBlockSize_def slot_image_overwrite)
    ultimately show ?thesis using zero_image_refused by (auto simp: after_commit_def)
  qed
  ultimately have r2: "sb_reachable ''sb'' (bs', ?n)" by simp
  obtain st new where c3: "Commit untouched_env ''sb'' (Some bs') default_superblock = (st, new)"
    and st: "\<not> status_ok st"
    by (auto simp: Commit_def WriteSlot_def write_opened_def untouched_env_def calm_env_def Let_def)
  have "Load ''sb'' new \<in> {Inr (next_block ?n default_superblock), Inr ?n}"
    using superblock_atomic_register [OF r2] committable_default sample_envs(3) c3 by blast
  then show ?thesis
    using superblock_atomic_register [OF r2] c1 c2 c3 st by blast
qed

text \<open>
  C34. Corruption of a slot is detected: if a slot can be read, then changing up to four consecutive
  bytes anywhere inside its 4096-byte image makes \<open>ReadSlot\<close> refuse it as corrupt.
\<close>

theorem superblock_burst_detected:
  assumes "ReadSlot path (Some (pre @ p @ xs @ s @ post)) slot = Inr b"
    and "length pre = slot * 4096" and "length (p @ xs @ s) = 4096"
    and "length xs = length ys" and "length xs \<le> 4" and "xs \<noteq> ys"
  shows "\<exists>m. ReadSlot path (Some (pre @ p @ ys @ s @ post)) slot = Inl (Corrupt m)"
proof -
  have im: "slot_image (pre @ p @ zs @ s @ post) slot = p @ zs @ s"
    if "length zs = length xs" for zs
    using assms(2,3) that by (simp add: slot_image_def slice_at_def)
  have "read_image (p @ xs @ s) = Some b"
    using assms(1) ReadSlot_image [of path "pre @ p @ xs @ s @ post" slot] im [of xs] by simp
  then have "read_image (p @ ys @ s) = None"
    by (rule read_image_burst) fact+
  then have "read_image (slot_image (pre @ p @ ys @ s @ post) slot) = None"
    and l: "length (slice_at (slot * 4096) 4096 (pre @ p @ ys @ s @ post)) = 4096"
    using im [of ys] assms(3,4) by (simp_all add: slot_image_def del: length_slice_at)
  then obtain st where "ReadSlot path (Some (pre @ p @ ys @ s @ post)) slot = Inl st"
    using ReadSlot_image [of path "pre @ p @ ys @ s @ post" slot] by (auto split: sum.splits)
  with l show ?thesis
    by (auto simp: ReadSlot_def Let_def kBackupSuperBlockSize_def split: if_splits
        simp del: length_slice_at)
qed

lemma ReadSlot_sealed:
  assumes "sealed b"
  shows "ReadSlot path (Some (superblock_bytes b)) 0 = Inr b"
proof -
  have "slot_image (superblock_bytes b) 0 = superblock_bytes b"
    using assms by (simp add: slot_image_def sealed_def superblock_layout.enc_length)
  then show ?thesis
    using ReadSlot_image [of path "superblock_bytes b" 0] read_image_sealed [OF assms]
    by (auto split: sum.splits)
qed

theorem superblock_burst_detected_witness:
  "let im = superblock_bytes (next_block default_superblock default_superblock)
   in \<exists>m. ReadSlot ''sb'' (Some (take 16 im @ [7] @ drop 17 im)) 0 = Inl (Corrupt m)"
proof -
  let ?b = "next_block default_superblock default_superblock"
  let ?im = "superblock_bytes ?b"
  have sn: "sealed ?b"
    by (rule sealed_next_block) (simp_all add: default_superblock_wf default_magic)
  then have len: "length ?im = 4096" by (simp add: sealed_def superblock_layout.enc_length)
  have "?im ! 16 = phase (critical ?b)"
    by (simp add: superblock_bytes_def superblock_body_def critical_bytes_def nth_append)
  also have "\<dots> = 0"
    by (simp add: next_block_def default_superblock_def default_critical_def)
  finally have split: "?im = [] @ take 16 ?im @ [0] @ drop 17 ?im @ []"
    using len id_take_nth_drop [of 16 ?im] by simp
  have "\<exists>m. ReadSlot ''sb'' (Some ([] @ take 16 ?im @ [7] @ drop 17 ?im @ [])) 0 = Inl (Corrupt m)"
  proof (rule superblock_burst_detected [where xs = "[0]" and b = ?b])
    show "ReadSlot ''sb'' (Some ([] @ take 16 ?im @ [0] @ drop 17 ?im @ [])) 0 = Inr ?b"
      unfolding split [symmetric] by (rule ReadSlot_sealed [OF sn])
  qed (use len in simp_all)
  then show ?thesis by simp
qed

end
