(* ===== verification/RepoFormat.thy ===== *)
theory RepoFormat
  imports SuperBlock
begin

text \<open>
  What the repository's format flags say (\<open>engine/manifest.h\<close>): the feature bits of the superblock,
  the chunker parameters packed into its reserved bytes, and the data of a manifest (files, chunk
  anchors). The setters of the packed parameters are shown to store what the getters return and to
  leave their neighbours alone; one of them writes outside its array.
\<close>

section \<open>Constants and feature predicates\<close>

datatype FileType = kRegular | kDirectory | kSymlink | kFifo | kBlock | kChar

definition kBackupFeatureMeta :: u32 where "kBackupFeatureMeta = 0x01"
definition kBackupFeatureSpecialFiles :: u32 where "kBackupFeatureSpecialFiles = 0x02"
definition kBackupFeatureEncrypted :: u32 where "kBackupFeatureEncrypted = 0x04"
definition kBackupFeatureDigestStandard :: u32 where "kBackupFeatureDigestStandard = 0x08"
definition kBackupFeaturePersistentIndex :: u32 where "kBackupFeaturePersistentIndex = 0x10"
definition kBackupFeatureManifestBinary :: u32 where "kBackupFeatureManifestBinary = 0x20"
definition kBackupFeatureBalancedDurability :: u32 where "kBackupFeatureBalancedDurability = 0x40"
definition kBackupFeatureEbPack :: u32 where "kBackupFeatureEbPack = 0x100"
definition kBackupFeatureCoalescedMeta :: u32 where "kBackupFeatureCoalescedMeta = 0x200"
definition kBackupFeatureWinMeta :: u32 where "kBackupFeatureWinMeta = 0x400"
definition kBackupFeatureImmutable :: u32 where "kBackupFeatureImmutable = 0x800"
definition kBackupFeatureGtCdc :: u32 where "kBackupFeatureGtCdc = 0x1000"
definition kBackupFeatureGtCdcGear :: u32 where "kBackupFeatureGtCdcGear = 0x2000"
definition kBackupFeatureGtCdcNative :: u32 where "kBackupFeatureGtCdcNative = 0x4000"
definition kBackupFeatureGtCdcAnGear :: u32 where "kBackupFeatureGtCdcAnGear = 0x8000"
definition kBackupFeatureGtCdcTwoFGear :: u32 where "kBackupFeatureGtCdcTwoFGear = 0x10000"
definition kBackupFeatureTopoCdc :: u32 where "kBackupFeatureTopoCdc = 0x20000"
definition kBackupFeatureTopoChain :: u32 where "kBackupFeatureTopoChain = 0x40000"
definition kBackupFeatureTopoPh :: u32 where "kBackupFeatureTopoPh = 0x80000"
definition kBackupFeatureTopoPhNative :: u32 where "kBackupFeatureTopoPhNative = 0x100000"

lemmas feature_bits = kBackupFeatureMeta_def kBackupFeatureSpecialFiles_def
  kBackupFeatureEncrypted_def kBackupFeatureDigestStandard_def kBackupFeaturePersistentIndex_def
  kBackupFeatureManifestBinary_def kBackupFeatureBalancedDurability_def kBackupFeatureEbPack_def
  kBackupFeatureCoalescedMeta_def kBackupFeatureWinMeta_def kBackupFeatureImmutable_def
  kBackupFeatureGtCdc_def kBackupFeatureGtCdcGear_def kBackupFeatureGtCdcNative_def
  kBackupFeatureGtCdcAnGear_def kBackupFeatureGtCdcTwoFGear_def kBackupFeatureTopoCdc_def
  kBackupFeatureTopoChain_def kBackupFeatureTopoPh_def kBackupFeatureTopoPhNative_def

definition RepoUsesCoalescedMeta :: "BackupSuperBlock \<Rightarrow> bool" where
  "RepoUsesCoalescedMeta b \<longleftrightarrow> backup_features (ext b) AND kBackupFeatureCoalescedMeta \<noteq> 0"
definition RepoUsesEbPack :: "BackupSuperBlock \<Rightarrow> bool" where
  "RepoUsesEbPack b \<longleftrightarrow> backup_features (ext b) AND kBackupFeatureEbPack \<noteq> 0"
definition RepoUsesPersistentIndex :: "BackupSuperBlock \<Rightarrow> bool" where
  "RepoUsesPersistentIndex b \<longleftrightarrow> backup_features (ext b) AND kBackupFeaturePersistentIndex \<noteq> 0"
definition RepoUsesManifestBinary :: "BackupSuperBlock \<Rightarrow> bool" where
  "RepoUsesManifestBinary b \<longleftrightarrow> backup_features (ext b) AND kBackupFeatureManifestBinary \<noteq> 0"
definition RepoUsesBalancedDurability :: "BackupSuperBlock \<Rightarrow> bool" where
  "RepoUsesBalancedDurability b \<longleftrightarrow> backup_features (ext b) AND kBackupFeatureBalancedDurability \<noteq> 0"
definition RepoUsesImmutable :: "BackupSuperBlock \<Rightarrow> bool" where
  "RepoUsesImmutable b \<longleftrightarrow> backup_features (ext b) AND kBackupFeatureImmutable \<noteq> 0"
definition RepoUsesGtCdc :: "BackupSuperBlock \<Rightarrow> bool" where
  "RepoUsesGtCdc b \<longleftrightarrow> backup_features (ext b) AND kBackupFeatureGtCdc \<noteq> 0"
definition RepoUsesGtCdcGear :: "BackupSuperBlock \<Rightarrow> bool" where
  "RepoUsesGtCdcGear b \<longleftrightarrow> backup_features (ext b) AND kBackupFeatureGtCdcGear \<noteq> 0"
definition RepoUsesGtCdcNative :: "BackupSuperBlock \<Rightarrow> bool" where
  "RepoUsesGtCdcNative b \<longleftrightarrow> backup_features (ext b) AND kBackupFeatureGtCdcNative \<noteq> 0"
definition RepoUsesGtCdcAnGear :: "BackupSuperBlock \<Rightarrow> bool" where
  "RepoUsesGtCdcAnGear b \<longleftrightarrow> backup_features (ext b) AND kBackupFeatureGtCdcAnGear \<noteq> 0"
definition RepoUsesGtCdcTwoFGear :: "BackupSuperBlock \<Rightarrow> bool" where
  "RepoUsesGtCdcTwoFGear b \<longleftrightarrow> backup_features (ext b) AND kBackupFeatureGtCdcTwoFGear \<noteq> 0"
definition RepoUsesTopoCdc :: "BackupSuperBlock \<Rightarrow> bool" where
  "RepoUsesTopoCdc b \<longleftrightarrow> backup_features (ext b) AND kBackupFeatureTopoCdc \<noteq> 0"
definition RepoUsesTopoChain :: "BackupSuperBlock \<Rightarrow> bool" where
  "RepoUsesTopoChain b \<longleftrightarrow> backup_features (ext b) AND kBackupFeatureTopoChain \<noteq> 0"
definition RepoUsesTopoPh :: "BackupSuperBlock \<Rightarrow> bool" where
  "RepoUsesTopoPh b \<longleftrightarrow> backup_features (ext b) AND kBackupFeatureTopoPh \<noteq> 0"
definition RepoUsesTopoPhNative :: "BackupSuperBlock \<Rightarrow> bool" where
  "RepoUsesTopoPhNative b \<longleftrightarrow> backup_features (ext b) AND kBackupFeatureTopoPhNative \<noteq> 0"
definition RepoUsesStandardDigest :: "BackupSuperBlock \<Rightarrow> bool" where
  "RepoUsesStandardDigest b \<longleftrightarrow> backup_features (ext b) AND kBackupFeatureDigestStandard \<noteq> 0"

definition kDefaultCodecOff :: byte where "kDefaultCodecOff = 0"
definition kDefaultCodecLz4 :: byte where "kDefaultCodecLz4 = 1"
definition kDefaultCodecZstd :: byte where "kDefaultCodecZstd = 2"
definition kDefaultCodecAuto :: byte where "kDefaultCodecAuto = 3"

section \<open>Chunker parameters in the reserved bytes\<close>

text \<open>
  \<open>topo_reserved\<close> has three bytes; in the packed struct the byte after it is the first byte of
  \<open>ext_padding\<close>, which is what \<open>topo_reserved[3]\<close> touches.
\<close>

definition topo_byte :: "nat \<Rightarrow> BackupSuperBlock \<Rightarrow> byte" where
  "topo_byte i b = (if i < 3 then topo_reserved (ext b) ! i else ext_padding (ext b) ! (i - 3))"

definition set_topo_byte :: "nat \<Rightarrow> byte \<Rightarrow> BackupSuperBlock \<Rightarrow> BackupSuperBlock" where
  "set_topo_byte i v b = b\<lparr>ext :=
     (if i < 3 then (ext b)\<lparr>topo_reserved := (topo_reserved (ext b))[i := v]\<rparr>
      else (ext b)\<lparr>ext_padding := (ext_padding (ext b))[i - 3 := v]\<rparr>)\<rparr>"

definition get_topo16 :: "BackupSuperBlock \<Rightarrow> u16" where
  "get_topo16 b = ucast (topo_byte 0 b) OR push_bit 8 (ucast (topo_byte 1 b))"

definition set_topo16 :: "u16 \<Rightarrow> BackupSuperBlock \<Rightarrow> BackupSuperBlock" where
  "set_topo16 s b = set_topo_byte 1 (ucast (drop_bit 8 s AND 0xFF)) (set_topo_byte 0 (ucast (s AND 0xFF)) b)"

definition RepoTopoPhnEventStride :: "BackupSuperBlock \<Rightarrow> u16" where
  "RepoTopoPhnEventStride b = (let s = get_topo16 b in if s = 0 then 64 else s)"
definition SetRepoTopoPhnEventStride :: "u16 \<Rightarrow> BackupSuperBlock \<Rightarrow> BackupSuperBlock" where
  "SetRepoTopoPhnEventStride stride b = set_topo16 stride b"

definition kTopoPhnKPointsMask :: byte where "kTopoPhnKPointsMask = 0x1F"
definition kTopoPhnPersistBit :: byte where "kTopoPhnPersistBit = 0x20"

definition RepoTopoPhnKPoints :: "BackupSuperBlock \<Rightarrow> byte" where
  "RepoTopoPhnKPoints b =
     (let raw = topo_byte 2 b AND kTopoPhnKPointsMask in if raw = 0 then 16 else raw)"
definition SetRepoTopoPhnKPoints :: "byte \<Rightarrow> BackupSuperBlock \<Rightarrow> BackupSuperBlock" where
  "SetRepoTopoPhnKPoints k b =
     (let packed_k = (if k = 0 then 16 else k) AND kTopoPhnKPointsMask;
          persist = topo_byte 2 b AND kTopoPhnPersistBit
      in set_topo_byte 2 (packed_k OR persist) b)"

definition RepoTopoPhnPersistDelta :: "BackupSuperBlock \<Rightarrow> bool" where
  "RepoTopoPhnPersistDelta b \<longleftrightarrow> topo_byte 2 b AND kTopoPhnPersistBit \<noteq> 0"
definition SetRepoTopoPhnPersistDelta :: "bool \<Rightarrow> BackupSuperBlock \<Rightarrow> BackupSuperBlock" where
  "SetRepoTopoPhnPersistDelta enable b =
     (if enable then set_topo_byte 2 (topo_byte 2 b OR kTopoPhnPersistBit) b
      else set_topo_byte 2 (topo_byte 2 b AND NOT kTopoPhnPersistBit) b)"

definition RepoTopoPhCalibPermille :: "BackupSuperBlock \<Rightarrow> u16" where
  "RepoTopoPhCalibPermille b = get_topo16 b"
definition SetRepoTopoPhCalibPermille :: "u16 \<Rightarrow> BackupSuperBlock \<Rightarrow> BackupSuperBlock" where
  "SetRepoTopoPhCalibPermille permille b = set_topo16 permille b"
definition RepoTopoPhKPoints :: "BackupSuperBlock \<Rightarrow> byte" where
  "RepoTopoPhKPoints b = (if topo_byte 2 b = 0 then 16 else topo_byte 2 b)"
definition SetRepoTopoPhKPoints :: "byte \<Rightarrow> BackupSuperBlock \<Rightarrow> BackupSuperBlock" where
  "SetRepoTopoPhKPoints k b = set_topo_byte 2 k b"

definition RepoTopoCalibPermille :: "BackupSuperBlock \<Rightarrow> u16" where
  "RepoTopoCalibPermille b = get_topo16 b"
definition SetRepoTopoCalibPermille :: "u16 \<Rightarrow> BackupSuperBlock \<Rightarrow> BackupSuperBlock" where
  "SetRepoTopoCalibPermille permille b = set_topo16 permille b"
definition RepoTopoChainStrideLog :: "BackupSuperBlock \<Rightarrow> u16" where
  "RepoTopoChainStrideLog b = get_topo16 b"
definition SetRepoTopoChainStrideLog :: "u16 \<Rightarrow> BackupSuperBlock \<Rightarrow> BackupSuperBlock" where
  "SetRepoTopoChainStrideLog stride_log b = set_topo16 stride_log b"
definition RepoTopoChainQuantQ :: "BackupSuperBlock \<Rightarrow> byte" where
  "RepoTopoChainQuantQ b = topo_byte 2 b"
definition SetRepoTopoChainQuantQ :: "byte \<Rightarrow> BackupSuperBlock \<Rightarrow> BackupSuperBlock" where
  "SetRepoTopoChainQuantQ q b = set_topo_byte 2 q b"

definition kChainFeatureBeta1 :: byte where "kChainFeatureBeta1 = 0x01"

definition RepoTopoChainFeatures :: "BackupSuperBlock \<Rightarrow> byte" where
  "RepoTopoChainFeatures b = topo_byte 3 b"
definition SetRepoTopoChainFeatures :: "byte \<Rightarrow> BackupSuperBlock \<Rightarrow> BackupSuperBlock" where
  "SetRepoTopoChainFeatures features b = set_topo_byte 3 features b"
definition RepoTopoChainBeta1 :: "BackupSuperBlock \<Rightarrow> bool" where
  "RepoTopoChainBeta1 b \<longleftrightarrow> RepoTopoChainFeatures b AND kChainFeatureBeta1 \<noteq> 0"
definition SetRepoTopoChainBeta1 :: "bool \<Rightarrow> BackupSuperBlock \<Rightarrow> BackupSuperBlock" where
  "SetRepoTopoChainBeta1 enable b =
     (let f = RepoTopoChainFeatures b
      in SetRepoTopoChainFeatures
           (if enable then f OR kChainFeatureBeta1 else f AND NOT kChainFeatureBeta1) b)"

section \<open>Manifest data\<close>

datatype AnchorStrength = kWeak | kStrong

record ChunkAnchor =
  anchor_offset :: u64
  anchor_length :: u32
  anchor_hash :: bytes
  strength :: AnchorStrength
  rolling_checksum :: u32

type_synonym CfiIndex = "ChunkAnchor list"

definition AnchorEqual :: "ChunkAnchor \<Rightarrow> ChunkAnchor \<Rightarrow> bool" where
  "AnchorEqual a b \<longleftrightarrow> anchor_offset a = anchor_offset b \<and> anchor_length a = anchor_length b \<and>
     strength a = strength b \<and> anchor_hash a = anchor_hash b"

record ManifestFileEntry =
  relative_path :: string
  file_size :: u64
  chunk_hashes_hex :: "string list"
  browse_chunk_count :: u32
  cfi :: CfiIndex
  file_type :: FileType
  file_mode :: u32
  uid :: u32
  gid :: u32
  mtime_unix :: "64 word"
  atime_unix :: "64 word"
  symlink_target :: string
  device_major :: u32
  device_minor :: u32
  security_descriptor_b64 :: string
  inode_id :: u64
  reparse_tag :: u32
  reparse_target :: string
  stream_name :: string
  is_sparse :: bool
  sparse_runs :: "(u64 \<times> u64) list"
  sparse_chunk_offsets :: "u64 list"
  efs_encrypted :: bool
  efs_key_blob_b64 :: string

definition empty_file_entry :: ManifestFileEntry where
  "empty_file_entry = \<lparr>relative_path = '''', file_size = 0, chunk_hashes_hex = [],
     browse_chunk_count = 0, cfi = [], file_type = kRegular, file_mode = 0, uid = 0xFFFFFFFF,
     gid = 0xFFFFFFFF, mtime_unix = 0, atime_unix = 0, symlink_target = '''', device_major = 0,
     device_minor = 0, security_descriptor_b64 = '''', inode_id = 0, reparse_tag = 0,
     reparse_target = '''', stream_name = '''', is_sparse = False, sparse_runs = [],
     sparse_chunk_offsets = [], efs_encrypted = False, efs_key_blob_b64 = ''''\<rparr>"

definition has_extended_meta :: "ManifestFileEntry \<Rightarrow> bool" where
  "has_extended_meta f \<longleftrightarrow> file_type f \<noteq> kRegular \<or> file_mode f \<noteq> 0 \<or> mtime_unix f \<noteq> 0 \<or>
     atime_unix f \<noteq> 0 \<or> uid f \<noteq> 0xFFFFFFFF \<or> gid f \<noteq> 0xFFFFFFFF"
definition has_win_meta :: "ManifestFileEntry \<Rightarrow> bool" where
  "has_win_meta f \<longleftrightarrow> security_descriptor_b64 f \<noteq> [] \<or> inode_id f \<noteq> 0 \<or> reparse_tag f \<noteq> 0 \<or>
     reparse_target f \<noteq> [] \<or> stream_name f \<noteq> []"
definition has_sparse_meta :: "ManifestFileEntry \<Rightarrow> bool" where
  "has_sparse_meta f \<longleftrightarrow> is_sparse f \<and> sparse_runs f \<noteq> []"
definition has_efs_meta :: "ManifestFileEntry \<Rightarrow> bool" where
  "has_efs_meta f \<longleftrightarrow> efs_encrypted f"
definition needs_chunking :: "ManifestFileEntry \<Rightarrow> bool" where
  "needs_chunking f \<longleftrightarrow> file_type f = kRegular \<and> \<not> efs_encrypted f"

record ManifestDocument =
  doc_txn_id :: u64
  doc_files :: "ManifestFileEntry list"

section \<open>The packed parameters\<close>

lemma topo_byte_set:
  assumes "superblock_wf b" and "i \<le> 3" and "j \<le> 3"
  shows "topo_byte i (set_topo_byte j v b) = (if i = j then v else topo_byte i b)"
  using assms by (auto simp: topo_byte_def set_topo_byte_def superblock_wf_def extension_wf_def nth_list_update)

lemma superblock_wf_set_topo [simp]: "superblock_wf (set_topo_byte i v b) = superblock_wf b"
  by (simp add: set_topo_byte_def superblock_wf_def extension_wf_def)

lemma split_u16: "(ucast (ucast (s AND 0xFF) :: byte) :: u16) OR push_bit 8 (ucast (ucast (drop_bit 8 s AND 0xFF) :: byte)) = s"
  for s :: u16
proof -
  have m: "(0xFF :: u16) = mask 8" by (simp add: mask_eq_exp_minus_1)
  show ?thesis
    unfolding m by (rule bit_word_eqI)
      (auto simp: bit_simps dest: bit_imp_le_length)
qed

lemma get_topo16_set: "superblock_wf b \<Longrightarrow> get_topo16 (set_topo16 s b) = s"
  using split_u16 [of s] by (simp add: get_topo16_def set_topo16_def topo_byte_set)

lemma set_topo16_other: "superblock_wf b \<Longrightarrow> topo_byte 2 (set_topo16 s b) = topo_byte 2 b"
  "superblock_wf b \<Longrightarrow> get_topo16 (set_topo_byte 2 v b) = get_topo16 b"
  by (simp_all add: set_topo16_def get_topo16_def topo_byte_set)

lemma byte_masks:
  fixes x k :: byte
  shows "((k AND 0x1F) OR (x AND 0x20)) AND 0x1F = k AND 0x1F"
    and "((k AND 0x1F) OR (x AND 0x20)) AND 0x20 = x AND 0x20"
    and "(x OR 0x20) AND 0x1F = x AND 0x1F" and "(x AND NOT 0x20) AND 0x1F = x AND 0x1F"
    and "(x OR 0x20) AND 0x20 = 0x20" and "(x AND NOT 0x20) AND 0x20 = 0"
proof -
  have z: "(0x20 :: byte) AND 0x1F = 0" by simp
  have a: "(y OR (x AND 0x20)) AND 0x1F = y AND 0x1F" for y :: byte
    by (simp add: bit.conj_disj_distrib2 and.assoc z)
  show "((k AND 0x1F) OR (x AND 0x20)) AND 0x1F = k AND 0x1F" by (simp add: a and.assoc)
  show "((k AND 0x1F) OR (x AND 0x20)) AND 0x20 = x AND 0x20"
    by (simp add: bit.conj_disj_distrib2 and.assoc)
  show "(x OR 0x20) AND 0x1F = x AND 0x1F" by (simp add: bit.conj_disj_distrib2)
  have n: "NOT 0x20 AND (0x1F :: byte) = 0x1F" by (simp add: bit_eq_iff)
  show "(x AND NOT 0x20) AND 0x1F = x AND 0x1F" by (simp only: and.assoc n)
  show "(x OR 0x20) AND 0x20 = 0x20" by (simp add: bit.conj_disj_distrib2)
  show "(x AND NOT 0x20) AND 0x20 = 0" by (simp add: and.assoc)
qed

lemma topo_parameters:
  assumes wf: "superblock_wf b" and k: "unat k < 32"
  shows "RepoTopoPhnEventStride (SetRepoTopoPhnEventStride s b) = (if s = 0 then 64 else s)"
    and "RepoTopoPhCalibPermille (SetRepoTopoPhCalibPermille s b) = s"
    and "RepoTopoCalibPermille (SetRepoTopoCalibPermille s b) = s"
    and "RepoTopoChainStrideLog (SetRepoTopoChainStrideLog s b) = s"
    and "RepoTopoChainQuantQ (SetRepoTopoChainQuantQ q b) = q"
    and "RepoTopoPhnKPoints (SetRepoTopoPhnKPoints k b) = (if k = 0 then 16 else k)"
    and "RepoTopoPhnPersistDelta (SetRepoTopoPhnPersistDelta e b) = e"
    and "RepoTopoPhnPersistDelta (SetRepoTopoPhnKPoints k b) = RepoTopoPhnPersistDelta b"
    and "RepoTopoPhnKPoints (SetRepoTopoPhnPersistDelta e b) = RepoTopoPhnKPoints b"
    and "RepoTopoPhnEventStride (SetRepoTopoPhnKPoints k b) = RepoTopoPhnEventStride b"
    and "RepoTopoPhnKPoints (SetRepoTopoPhnEventStride s b) = RepoTopoPhnKPoints b"
    and "RepoTopoPhnPersistDelta (SetRepoTopoPhnEventStride s b) = RepoTopoPhnPersistDelta b"
proof -
  have m: "k AND 0x1F = k"
  proof -
    have "k = take_bit 5 k" using k by (simp add: word_unat_eq_iff unsigned_take_bit_eq take_bit_nat_eq_self)
    then show ?thesis by (simp add: take_bit_eq_mask mask_eq_exp_minus_1)
  qed
  have nz: "(0x20 :: byte) \<noteq> 0" by simp
  show "RepoTopoPhnKPoints (SetRepoTopoPhnKPoints k b) = (if k = 0 then 16 else k)"
    using wf m by (auto simp: RepoTopoPhnKPoints_def SetRepoTopoPhnKPoints_def topo_byte_set
        kTopoPhnKPointsMask_def kTopoPhnPersistBit_def byte_masks Let_def)
  show "RepoTopoPhnPersistDelta (SetRepoTopoPhnPersistDelta e b) = e"
    "RepoTopoPhnPersistDelta (SetRepoTopoPhnKPoints k b) = RepoTopoPhnPersistDelta b"
    "RepoTopoPhnKPoints (SetRepoTopoPhnPersistDelta e b) = RepoTopoPhnKPoints b"
    using wf by (simp_all add: RepoTopoPhnPersistDelta_def SetRepoTopoPhnPersistDelta_def topo_byte_set
        SetRepoTopoPhnKPoints_def RepoTopoPhnKPoints_def kTopoPhnKPointsMask_def kTopoPhnPersistBit_def
        byte_masks byte_masks [simplified] Let_def)
qed (use wf in \<open>simp_all add: RepoTopoPhnEventStride_def SetRepoTopoPhnEventStride_def
      RepoTopoPhCalibPermille_def SetRepoTopoPhCalibPermille_def RepoTopoCalibPermille_def
      SetRepoTopoCalibPermille_def RepoTopoChainStrideLog_def SetRepoTopoChainStrideLog_def
      RepoTopoChainQuantQ_def SetRepoTopoChainQuantQ_def topo_byte_set get_topo16_set set_topo16_other
      SetRepoTopoPhnKPoints_def RepoTopoPhnKPoints_def RepoTopoPhnPersistDelta_def Let_def\<close>)

text \<open>
  The chunker parameters packed into the reserved bytes round-trip and do not disturb each
  other: the 16-bit fields return what was stored (0 standing for the stride 64), the number of
  points returns for every value below 32 (0 standing for 16), and the persistence flag, which
  shares a byte with it, survives setting it and is kept apart from it.
\<close>

theorem topo_parameters_roundtrip:
  assumes "superblock_wf b" and "unat k < 32"
  shows "RepoTopoPhnEventStride (SetRepoTopoPhnEventStride s b) = (if s = 0 then 64 else s) \<and>
    RepoTopoPhCalibPermille (SetRepoTopoPhCalibPermille s b) = s \<and>
    RepoTopoCalibPermille (SetRepoTopoCalibPermille s b) = s \<and>
    RepoTopoChainStrideLog (SetRepoTopoChainStrideLog s b) = s \<and>
    RepoTopoChainQuantQ (SetRepoTopoChainQuantQ q b) = q \<and>
    RepoTopoPhnKPoints (SetRepoTopoPhnKPoints k b) = (if k = 0 then 16 else k) \<and>
    RepoTopoPhnPersistDelta (SetRepoTopoPhnPersistDelta e b) = e \<and>
    RepoTopoPhnPersistDelta (SetRepoTopoPhnKPoints k b) = RepoTopoPhnPersistDelta b \<and>
    RepoTopoPhnKPoints (SetRepoTopoPhnPersistDelta e b) = RepoTopoPhnKPoints b \<and>
    RepoTopoPhnEventStride (SetRepoTopoPhnKPoints k b) = RepoTopoPhnEventStride b \<and>
    RepoTopoPhnKPoints (SetRepoTopoPhnEventStride s b) = RepoTopoPhnKPoints b \<and>
    RepoTopoPhnPersistDelta (SetRepoTopoPhnEventStride s b) = RepoTopoPhnPersistDelta b"
  by (simp only: topo_parameters [OF assms])

theorem topo_parameters_roundtrip_witness:
  "RepoTopoPhnEventStride (SetRepoTopoPhnEventStride 300 default_superblock) = 300 \<and>
   RepoTopoPhnKPoints (SetRepoTopoPhnKPoints 24 default_superblock) = 24"
  using topo_parameters_roundtrip [OF default_superblock_wf, of 24 300] by simp

section \<open>A flag that no commit keeps\<close>

lemma padding_zeroed: "superblock_wf b \<Longrightarrow> topo_byte 3 (FinalizeCritical b) = 0"
  by (simp add: topo_byte_def FinalizeCritical_def ZeroPadding_def Let_def zeros_def)

lemma topo_byte_finalize: "i < 3 \<Longrightarrow> topo_byte i (FinalizeCritical b) = topo_byte i b"
  by (simp add: topo_byte_def FinalizeCritical_def ZeroPadding_def Let_def)

text \<open>
  The chain chunker's beta1 flag is stored one byte past \<open>topo_reserved\<close>, in the padding, and
  every commit clears the padding: the flag is set in memory, but the block that is loaded after
  committing it never has it, while the byte next to it is kept.
\<close>

theorem chain_beta1_lost_on_commit:
  assumes "sb_reachable path (bs, cur)" and "superblock_wf b" and "magic (critical b) = kBackupMagic"
    and "epoch (critical b) \<le> epoch (critical cur)" and "unat (epoch (critical cur)) + 1 < 2 ^ 64"
    and "Commit calm_env path (Some bs) (SetRepoTopoChainBeta1 True b) = (st, Some bs')"
  shows "RepoTopoChainBeta1 (SetRepoTopoChainBeta1 True b) \<and>
    (\<exists>b'. Load path (Some bs') = Inr b' \<and> \<not> RepoTopoChainBeta1 b' \<and>
       RepoTopoChainQuantQ b' = RepoTopoChainQuantQ b)"
proof -
  let ?b = "SetRepoTopoChainBeta1 True b" and ?n = "next_block cur (SetRepoTopoChainBeta1 True b)"
  have b: "superblock_wf ?b" "magic (critical ?b) = kBackupMagic" "epoch (critical ?b) = epoch (critical b)"
    using assms(2,3) by (simp_all add: SetRepoTopoChainBeta1_def SetRepoTopoChainFeatures_def Let_def)
      (simp_all add: set_topo_byte_def)
  have "committable cur ?b" using b assms(4,5) by (simp add: committable_def)
  from Commit_register [OF sb_reachable_register [OF assms(1)] this sample_envs(1) assms(6)]
  have "register bs' ?n" by cases (auto simp: calm_env_def)
  then have "Load path (Some bs') = Inr ?n" by (rule register_Load)
  moreover have "topo_byte 3 ?n = 0"
    unfolding next_block_def using b(1)
    by (intro padding_zeroed) (simp add: superblock_wf_def critical_wf_def)
  moreover have "topo_byte 2 ?n = topo_byte 2 b"
    using assms(2) unfolding next_block_def topo_byte_finalize [of 2, simplified]
    by (simp add: topo_byte_def SetRepoTopoChainBeta1_def SetRepoTopoChainFeatures_def Let_def
        set_topo_byte_def)
  moreover have "RepoTopoChainBeta1 ?b"
  proof -
    have "(f OR 1) AND 1 = (1 :: byte)" for f by (simp add: bit.conj_disj_distrib2)
    then show ?thesis
      using assms(2) by (simp add: RepoTopoChainBeta1_def SetRepoTopoChainBeta1_def topo_byte_set
          RepoTopoChainFeatures_def SetRepoTopoChainFeatures_def kChainFeatureBeta1_def Let_def)
  qed
  ultimately show ?thesis
    by (simp add: RepoTopoChainBeta1_def RepoTopoChainFeatures_def RepoTopoChainQuantQ_def)
qed

theorem chain_beta1_lost_on_commit_witness:
  "\<exists>bs bs' b'. Commit calm_env ''sb'' None default_superblock = (Status_Ok, Some bs) \<and>
     Commit calm_env ''sb'' (Some bs) (SetRepoTopoChainBeta1 True default_superblock) = (Status_Ok, Some bs') \<and>
     Load ''sb'' (Some bs') = Inr b' \<and> \<not> RepoTopoChainBeta1 b'"
proof -
  obtain bs where c1: "Commit calm_env ''sb'' None default_superblock = (Status_Ok, Some bs)"
    by (auto simp: Commit_def WriteSlot_def write_opened_def calm_env_def Let_def)
  then have r: "sb_reachable ''sb'' (bs, next_block default_superblock default_superblock)"
    by (intro sb_reachable.created [where env = calm_env]) (auto simp: default_superblock_wf default_magic sample_envs)
  obtain bs' where c2: "Commit calm_env ''sb'' (Some bs) (SetRepoTopoChainBeta1 True default_superblock) =
      (Status_Ok, Some bs')"
    by (auto simp: Commit_def WriteSlot_def write_opened_def calm_env_def Let_def)
  have e: "epoch (critical (next_block default_superblock default_superblock)) = 1"
    by (simp add: epoch_next_block default_magic)
  show ?thesis
    using chain_beta1_lost_on_commit [OF r default_superblock_wf default_magic(1) _ _ c2] c1 c2
    by (auto simp: e default_magic)
qed

end
