(* ===== verification/BackupRun.thy ===== *)
theory BackupRun
  imports RepoFormat
begin

text \<open>
  The life of one backup (\<open>state/backup_phase.h\<close>, \<open>state/sync_executor.cc\<close> and the control flow of
  \<open>engine/backup_engine.cc\<close>): the phase machine, the rule executor that drives it, how the engine
  persists its phase in the superblock, the sequence of phases of \<open>RunBackup\<close>, and what \<open>Open\<close>
  makes of a repository a crash left in the middle of it.
\<close>

section \<open>Phases and events (state/backup_phase.h)\<close>

datatype BackupPhase =
    kIdle | kScanning | kChunking | kStoring | kCommittingMeta | kAuditing | kComplete | kAborted
  | kUnnamed byte

datatype BackupEvent =
    kOpen | kScanFile | kChunkFile | kStoreChunk | kCommitManifest | kAppendAudit | kVerify
  | kRecover | kGcOrphans | kCompleteEvent

fun phase_byte :: "BackupPhase \<Rightarrow> byte" where
  "phase_byte kIdle = 0"
| "phase_byte kScanning = 1"
| "phase_byte kChunking = 2"
| "phase_byte kStoring = 3"
| "phase_byte kCommittingMeta = 4"
| "phase_byte kAuditing = 5"
| "phase_byte kComplete = 6"
| "phase_byte kAborted = 0xFF"
| "phase_byte (kUnnamed b) = b"

definition phase_of_byte :: "byte \<Rightarrow> BackupPhase" where
  "phase_of_byte b =
     (if b = 0 then kIdle else if b = 1 then kScanning else if b = 2 then kChunking
      else if b = 3 then kStoring else if b = 4 then kCommittingMeta else if b = 5 then kAuditing
      else if b = 6 then kComplete else if b = 0xFF then kAborted else kUnnamed b)"

fun NextPhase :: "BackupPhase \<Rightarrow> BackupEvent \<Rightarrow> BackupPhase" where
  "NextPhase kIdle kScanFile = kScanning"
| "NextPhase kAborted kScanFile = kScanning"
| "NextPhase kScanning kChunkFile = kChunking"
| "NextPhase kChunking kStoreChunk = kStoring"
| "NextPhase kStoring kCommitManifest = kCommittingMeta"
| "NextPhase kCommittingMeta kCompleteEvent = kIdle"
| "NextPhase kCommittingMeta kAppendAudit = kAuditing"
| "NextPhase kAuditing kCompleteEvent = kIdle"
| "NextPhase _ _ = kAborted"

definition GetPhase :: "BackupSuperBlock \<Rightarrow> BackupPhase" where
  "GetPhase b = phase_of_byte (phase (critical b))"

definition SetPhase :: "BackupSuperBlock \<Rightarrow> BackupPhase \<Rightarrow> BackupSuperBlock" where
  "SetPhase b p = b\<lparr>critical := (critical b)\<lparr>phase := phase_byte p\<rparr>\<rparr>"

section \<open>The rule executor (state/sync_executor.cc)\<close>

text \<open>
  A handler sees the engine's phase (through the pointer the rules capture) and the context it
  may change.
\<close>

record BackupContext =
  ctx_phase :: BackupPhase

type_synonym BackupHandler = "BackupPhase \<Rightarrow> BackupContext \<Rightarrow> Status \<times> BackupContext"
type_synonym rules = "(BackupEvent \<times> BackupHandler) list"

definition Register :: "rules \<Rightarrow> BackupEvent \<Rightarrow> BackupHandler \<Rightarrow> rules" where
  "Register rs ev h = rs @ [(ev, h)]"

fun Dispatch :: "rules \<Rightarrow> BackupPhase \<Rightarrow> BackupEvent \<Rightarrow> BackupContext \<Rightarrow> Status \<times> BackupContext" where
  "Dispatch [] eng ev ctx = (Status_Ok, ctx)"
| "Dispatch ((e, h) # rs) eng ev ctx =
     (if e \<noteq> ev then Dispatch rs eng ev ctx
      else case h eng ctx of
             (st, ctx') \<Rightarrow> if status_ok st then Dispatch rs eng ev ctx' else (st, ctx'))"

definition advance :: "BackupEvent \<Rightarrow> BackupHandler" where
  "advance ev = (\<lambda>_ ctx. (Status_Ok, ctx\<lparr>ctx_phase := NextPhase (ctx_phase ctx) ev\<rparr>))"

definition RegisterBackupSyncRules :: "rules \<Rightarrow> rules" where
  "RegisterBackupSyncRules rs =
     (let r1 = Register rs kOpen (\<lambda>eng ctx. (Status_Ok, ctx\<lparr>ctx_phase := eng\<rparr>));
          r2 = Register r1 kScanFile (advance kScanFile);
          r3 = Register r2 kChunkFile (advance kChunkFile);
          r4 = Register r3 kStoreChunk (advance kStoreChunk);
          r5 = Register r4 kCommitManifest (advance kCommitManifest);
          r6 = Register r5 kAppendAudit (advance kAppendAudit);
          r7 = Register r6 kCompleteEvent (advance kCompleteEvent);
          r8 = Register r7 kVerify (\<lambda>_ ctx.
                 if ctx_phase ctx \<noteq> kIdle \<and> ctx_phase ctx \<noteq> kComplete \<and> ctx_phase ctx \<noteq> kAborted
                 then (Conflict ''verify not allowed in current phase'', ctx)
                 else (Status_Ok, ctx\<lparr>ctx_phase := kIdle\<rparr>));
          r9 = Register r8 kRecover (\<lambda>_ ctx. (Status_Ok, ctx\<lparr>ctx_phase := kAborted\<rparr>))
      in Register r9 kGcOrphans (\<lambda>_ ctx.
           if ctx_phase ctx \<noteq> kIdle \<and> ctx_phase ctx \<noteq> kAborted
           then (Conflict ''gc not allowed during active backup'', ctx)
           else (Status_Ok, ctx)))"

section \<open>The engine's state\<close>

text \<open>
  The superblock file is modelled byte by byte. Of the repository's other files (manifest, packs, encryption
  setup, chunk store) the engine's control flow sees this much: the transaction id of the manifest when it
  parses, whether the file exists, whether a pack file exists, and the answers of opening the chunk store and
  loading the dictionary.
\<close>

record RepoFiles =
  manifest_txn :: "u64 option"
  has_manifest :: bool
  has_pack_file :: bool
  chunk_store_open :: Status
  load_dictionary :: Status

record Engine =
  eng_sb :: BackupSuperBlock
  eng_phase :: BackupPhase
  eng_rules :: rules
  stat_chunks_written :: u64
  stat_bytes_processed :: u64
  orphan_chunks_hint :: u64
  unexpected_transitions :: nat
  eng_manifest_crc32 :: u32
  eng_merkle_root :: bytes
  sb_file :: "bytes option"
  files :: RepoFiles
  commits :: nat

definition superblock_path :: string where
  "superblock_path = ''superblock.bin''"

text \<open>\<open>superblock_store_->Commit(sb_)\<close>: the n-th commit of the run meets the n-th environment.\<close>

definition commit_sb :: "(nat \<Rightarrow> write_env) \<Rightarrow> Engine \<Rightarrow> Status \<times> Engine" where
  "commit_sb envs e =
     (case Commit (envs (commits e)) superblock_path (sb_file e) (eng_sb e) of
        (st, d) \<Rightarrow> (st, e\<lparr>sb_file := d, commits := commits e + 1\<rparr>))"

definition PersistSuperBlock :: "(nat \<Rightarrow> write_env) \<Rightarrow> BackupPhase \<Rightarrow> Engine \<Rightarrow> Status \<times> Engine" where
  "PersistSuperBlock envs p e =
     (let b1 = SetPhase (eng_sb e) p;
          b2 = b1\<lparr>critical := (critical b1)\<lparr>chunks_written := stat_chunks_written e,
                                            bytes_processed := stat_bytes_processed e\<rparr>,
                  ext := (ext b1)\<lparr>last_manifest_crc32 := eng_manifest_crc32 e,
                                  merkle_root := eng_merkle_root e\<rparr>\<rparr>;
          e2 = e\<lparr>eng_sb := b2, eng_phase := p\<rparr>
      in if RepoUsesCoalescedMeta b2 \<and> p \<noteq> kAborted \<and> p \<noteq> kIdle then (Status_Ok, e2)
         else commit_sb envs e2)"

definition DispatchTransition :: "BackupEvent \<Rightarrow> Engine \<Rightarrow> Status \<times> Engine" where
  "DispatchTransition ev e =
     (case Dispatch (eng_rules e) (eng_phase e) ev \<lparr>ctx_phase = eng_phase e\<rparr> of
        (st, ctx) \<Rightarrow>
          if \<not> status_ok st then (st, e)
          else if ctx_phase ctx = kAborted \<and> eng_phase e \<noteq> kAborted
          then (Internal ''invalid state transition'',
                e\<lparr>unexpected_transitions := unexpected_transitions e + 1\<rparr>)
          else (Status_Ok, e\<lparr>eng_phase := ctx_phase ctx\<rparr>))"

definition Recover :: "(nat \<Rightarrow> write_env) \<Rightarrow> Engine \<Rightarrow> Status \<times> Engine" where
  "Recover envs e =
     (case commit_sb envs (e\<lparr>eng_sb := SetPhase (eng_sb e) kAborted\<rparr>) of
        (st, e1) \<Rightarrow>
          if \<not> status_ok st then (st, e1)
          else let e2 = e1\<lparr>eng_phase := kAborted\<rparr>
               in (fst (Dispatch (eng_rules e2) (eng_phase e2) kRecover \<lparr>ctx_phase = eng_phase e2\<rparr>), e2))"

section \<open>RunBackup, from the encryption setup to the final persist\<close>

text \<open>
  The parts of the run that do the work (resolving the options into feature bits and chunker
  parameters, scanning, chunking, storing, committing the manifest, appending the audit entry) are
  parameters here: each is given the transaction id of the run, returns a status and may change the extension
  of the superblock except its transaction counter, the statistics, the manifest checksum, the Merkle root, and
  the repository's files other than the superblock, also when it fails. None of them touches the phase
  or the transaction identifiers, nor writes the superblock. \<open>w_check\<close> stands for the two tests \<open>RunBackup\<close>
  starts with (the source exists, an incremental run finds a prior manifest).
\<close>

record RunData =
  d_ext :: BackupSuperBlockExtension
  d_chunks :: u64
  d_bytes :: u64
  d_crc :: u32
  d_root :: bytes
  d_txn :: u64
  d_files :: RepoFiles

type_synonym work = "RunData \<Rightarrow> Status \<times> RunData"

record Work =
  w_check :: Status
  w_configure :: work
  w_setup_encryption :: work
  w_pre_hook :: work
  w_vss_begin :: work
  w_scan :: work
  w_begin_append :: work
  w_chunk :: work
  w_store_pending :: work
  w_vss_policy :: work
  w_flush :: work
  w_end_append :: work
  w_merge_meta :: work
  w_commit_manifest :: work
  w_append_audit :: work
  w_save_index :: work
  w_finalize :: work
  test_abort_after :: "BackupPhase option"
  use_pipeline :: bool
  persistent_index :: bool

text \<open>The extension is a packed struct: whatever a part stores in an array keeps the array's length.\<close>

definition fit :: "nat \<Rightarrow> bytes \<Rightarrow> bytes" where
  "fit n r = take n (r @ zeros n)"

definition set_ext :: "BackupSuperBlockExtension \<Rightarrow> BackupSuperBlockExtension \<Rightarrow> BackupSuperBlockExtension" where
  "set_ext old new = new\<lparr>next_txn_id := next_txn_id old, last_manifest_crc32 := last_manifest_crc32 old,
     merkle_root := merkle_root old, gtcdc_reserved := fit 3 (gtcdc_reserved new),
     topo_reserved := fit 3 (topo_reserved new), ext_padding := fit 3507 (ext_padding new)\<rparr>"

definition do_work :: "work \<Rightarrow> Engine \<Rightarrow> Status \<times> Engine" where
  "do_work w e =
     (case w \<lparr>d_ext = ext (eng_sb e), d_chunks = stat_chunks_written e,
              d_bytes = stat_bytes_processed e, d_crc = eng_manifest_crc32 e,
              d_root = eng_merkle_root e, d_txn = txn_id (critical (eng_sb e)), d_files = files e\<rparr> of
        (st, d) \<Rightarrow> (st, e\<lparr>eng_sb := (eng_sb e)\<lparr>ext := set_ext (ext (eng_sb e)) (d_ext d)\<rparr>,
                         stat_chunks_written := d_chunks d, stat_bytes_processed := d_bytes d,
                         eng_manifest_crc32 := d_crc d, eng_merkle_root := fit 32 (d_root d),
                         files := d_files d\<rparr>))"

definition MaybeTestAbortAfter :: "BackupPhase option \<Rightarrow> BackupPhase \<Rightarrow> Engine \<Rightarrow> Status \<times> Engine" where
  "MaybeTestAbortAfter target p e =
     (if target = Some p then (Internal ''test abort after phase'', e) else (Status_Ok, e))"

type_synonym run_step = "Engine \<Rightarrow> (Status \<times> Engine) + Engine"

text \<open>\<open>st = f(); if (!st.ok()) { PersistSuperBlock(kAborted); return st; }\<close> and its plain form.\<close>

definition or_abort :: "(nat \<Rightarrow> write_env) \<Rightarrow> (Engine \<Rightarrow> Status \<times> Engine) \<Rightarrow> run_step" where
  "or_abort envs f e =
     (case f e of (st, e1) \<Rightarrow>
        if status_ok st then Inr e1 else Inl (st, snd (PersistSuperBlock envs kAborted e1)))"

definition or_return :: "(Engine \<Rightarrow> Status \<times> Engine) \<Rightarrow> run_step" where
  "or_return f e = (case f e of (st, e1) \<Rightarrow> if status_ok st then Inr e1 else Inl (st, e1))"

fun run_steps :: "run_step list \<Rightarrow> run_step" where
  "run_steps [] e = Inr e"
| "run_steps (s # ss) e = (case s e of Inl r \<Rightarrow> Inl r | Inr e1 \<Rightarrow> run_steps ss e1)"

definition prepare_steps :: "(nat \<Rightarrow> write_env) \<Rightarrow> Work \<Rightarrow> run_step list" where
  "prepare_steps envs w =
     [or_return (do_work (w_configure w)),
      or_return (do_work (w_setup_encryption w)),
      or_abort envs (do_work (w_pre_hook w)),
      or_abort envs (do_work (w_vss_begin w))]"

definition scan_steps :: "(nat \<Rightarrow> write_env) \<Rightarrow> Work \<Rightarrow> run_step list" where
  "scan_steps envs w =
     [or_abort envs (DispatchTransition kScanFile),
      or_return (PersistSuperBlock envs kScanning),
      or_abort envs (MaybeTestAbortAfter (test_abort_after w) kScanning),
      or_abort envs (do_work (w_scan w)),
      or_abort envs (DispatchTransition kChunkFile),
      or_return (PersistSuperBlock envs kChunking),
      or_abort envs (MaybeTestAbortAfter (test_abort_after w) kChunking),
      or_abort envs (do_work (w_begin_append w)),
      or_abort envs (do_work (w_chunk w))]"

definition store_steps :: "(nat \<Rightarrow> write_env) \<Rightarrow> Work \<Rightarrow> run_step list" where
  "store_steps envs w =
     [or_abort envs (DispatchTransition kStoreChunk),
      or_return (PersistSuperBlock envs kStoring),
      or_abort envs (MaybeTestAbortAfter (test_abort_after w) kStoring),
      (if use_pipeline w then Inr else or_abort envs (do_work (w_store_pending w))),
      or_abort envs (do_work (w_vss_policy w)),
      or_abort envs (do_work (w_flush w)),
      or_abort envs (do_work (w_end_append w)),
      or_abort envs (do_work (w_merge_meta w))]"

definition commit_steps :: "(nat \<Rightarrow> write_env) \<Rightarrow> Work \<Rightarrow> run_step list" where
  "commit_steps envs w =
     [or_abort envs (DispatchTransition kCommitManifest),
      or_return (PersistSuperBlock envs kCommittingMeta),
      or_abort envs (MaybeTestAbortAfter (test_abort_after w) kCommittingMeta),
      or_abort envs (do_work (w_commit_manifest w)),
      or_abort envs (DispatchTransition kAppendAudit),
      or_return (PersistSuperBlock envs kAuditing),
      or_abort envs (do_work (w_append_audit w)),
      or_abort envs (DispatchTransition kCompleteEvent),
      (if persistent_index w then or_abort envs (do_work (w_save_index w)) else Inr),
      (\<lambda>e. Inr (e\<lparr>eng_sb := SetNextTxnId (eng_sb e) (txn_id (critical (eng_sb e)) + 1)\<rparr>)),
      or_abort envs (do_work (w_finalize w)),
      or_return (PersistSuperBlock envs kIdle)]"

definition backup_steps :: "(nat \<Rightarrow> write_env) \<Rightarrow> Work \<Rightarrow> run_step list" where
  "backup_steps envs w =
     prepare_steps envs w @ scan_steps envs w @ store_steps envs w @ commit_steps envs w"

definition begin_txn :: "Engine \<Rightarrow> Engine" where
  "begin_txn e = e\<lparr>stat_chunks_written := 0, stat_bytes_processed := 0, orphan_chunks_hint := 0,
     unexpected_transitions := 0,
     eng_sb := (eng_sb e)\<lparr>critical := (critical (eng_sb e))\<lparr>txn_id := GetNextTxnId (eng_sb e)\<rparr>\<rparr>\<rparr>"

definition RunBackup :: "(nat \<Rightarrow> write_env) \<Rightarrow> Work \<Rightarrow> Engine \<Rightarrow> Status \<times> Engine" where
  "RunBackup envs w e =
     (if \<not> status_ok (w_check w) then (w_check w, e)
      else case run_steps (backup_steps envs w) (begin_txn e) of
             Inl r \<Rightarrow> r
           | Inr e1 \<Rightarrow> (Status_Ok, e1))"

section \<open>Opening a repository\<close>

definition in_progress :: "BackupPhase \<Rightarrow> bool" where
  "in_progress p \<longleftrightarrow> p = kScanning \<or> p = kChunking \<or> p = kStoring \<or> p = kCommittingMeta \<or> p = kAuditing"

definition StartupSelfCheck :: "(nat \<Rightarrow> write_env) \<Rightarrow> Engine \<Rightarrow> Status \<times> Engine" where
  "StartupSelfCheck envs e =
     (let sb = eng_sb e;
          abort = (\<lambda>_. commit_sb envs (e\<lparr>orphan_chunks_hint := chunks_written (critical sb),
                                        eng_sb := SetPhase sb kAborted\<rparr>))
      in if in_progress (eng_phase e) then
           (case manifest_txn (files e) of
              Some t \<Rightarrow>
                if t > txn_id (critical sb) then
                  let b1 = sb\<lparr>critical := (critical sb)\<lparr>txn_id := t\<rparr>\<rparr>;
                      b2 = SetPhase (SetNextTxnId b1 (t + 1)) kIdle;
                      b3 = b2\<lparr>critical := (critical b2)\<lparr>chunks_written := 0, bytes_processed := 0\<rparr>\<rparr>
                  in commit_sb envs (e\<lparr>eng_sb := b3\<rparr>)
                else abort ()
            | None \<Rightarrow> abort ())
         else if RepoUsesCoalescedMeta sb \<and> eng_phase e = kIdle \<and> \<not> has_manifest (files e) \<and>
                 RepoUsesEbPack sb \<and> has_pack_file (files e)
         then abort ()
         else (Status_Ok, e))"

definition needs_self_check :: "Engine \<Rightarrow> bool" where
  "needs_self_check e \<longleftrightarrow>
     eng_phase e \<noteq> kIdle \<and> eng_phase e \<noteq> kComplete \<and> eng_phase e \<noteq> kAborted \<or>
     eng_phase e = kIdle \<and> RepoUsesCoalescedMeta (eng_sb e)"

definition load_sb :: "Engine \<Rightarrow> Status + Engine" where
  "load_sb e = (case Load superblock_path (sb_file e) of
                  Inl st \<Rightarrow> Inl st
                | Inr b \<Rightarrow> Inr (e\<lparr>eng_sb := b\<rparr>))"

definition finish_open :: "Engine \<Rightarrow> Status \<times> Engine" where
  "finish_open e =
     (let e1 = (if eng_phase e = kAborted \<and> chunks_written (critical (eng_sb e)) > 0
                then e\<lparr>orphan_chunks_hint := chunks_written (critical (eng_sb e))\<rparr> else e);
          e2 = e1\<lparr>eng_rules := RegisterBackupSyncRules (eng_rules e1)\<rparr>
      in (fst (Dispatch (eng_rules e2) (eng_phase e2) kOpen \<lparr>ctx_phase = eng_phase e2\<rparr>), e2))"

definition Open :: "(nat \<Rightarrow> write_env) \<Rightarrow> Engine \<Rightarrow> Status \<times> Engine" where
  "Open envs e =
     (case load_sb e of
        Inl st \<Rightarrow> (st, e)
      | Inr e1 \<Rightarrow>
          if \<not> status_ok (chunk_store_open (files e1)) then (chunk_store_open (files e1), e1)
          else if \<not> status_ok (load_dictionary (files e1)) then (load_dictionary (files e1), e1)
          else
            let e2 = e1\<lparr>eng_phase := GetPhase (eng_sb e1)\<rparr>
            in if needs_self_check e2 then
                 (case StartupSelfCheck envs e2 of
                    (st, e3) \<Rightarrow>
                      if \<not> status_ok st then (st, e3)
                      else (case load_sb e3 of
                              Inl st' \<Rightarrow> (st', e3)
                            | Inr e4 \<Rightarrow> finish_open (e4\<lparr>eng_phase := GetPhase (eng_sb e4)\<rparr>)))
               else finish_open e2)"

section \<open>The superblock and the engine agree\<close>

lemma phase_of_byte_byte [simp]: "phase_of_byte (phase_byte p) = p" if "\<forall>b. p \<noteq> kUnnamed b"
  using that by (cases p) (simp_all add: phase_of_byte_def)

lemma GetPhase_SetPhase: "\<forall>b. p \<noteq> kUnnamed b \<Longrightarrow> GetPhase (SetPhase b p) = p"
  by (simp add: GetPhase_def SetPhase_def)

lemma SetPhase_simps [simp]:
  "superblock_wf (SetPhase b p) = superblock_wf b"
  "magic (critical (SetPhase b p)) = magic (critical b)"
  "epoch (critical (SetPhase b p)) = epoch (critical b)"
  "txn_id (critical (SetPhase b p)) = txn_id (critical b)"
  "ext (SetPhase b p) = ext b"
  "format_version (SetPhase b p) = format_version b"
  by (simp_all add: SetPhase_def superblock_wf_def critical_wf_def)

text \<open>
  The engine's block is well formed and not ahead of the file, and the file is a register whose
  epoch has room for the given number of commits.
\<close>

definition engine_ok :: "nat \<Rightarrow> Engine \<Rightarrow> bool" where
  "engine_ok n e \<longleftrightarrow> superblock_wf (eng_sb e) \<and> magic (critical (eng_sb e)) = kBackupMagic \<and>
     length (eng_merkle_root e) = 32 \<and>
     (\<exists>bs cur. sb_file e = Some bs \<and> register bs cur \<and> sealed cur \<and>
        epoch (critical (eng_sb e)) \<le> epoch (critical cur) \<and> unat (epoch (critical cur)) + n < 2 ^ 64)"

definition on_disk :: "Engine \<Rightarrow> BackupSuperBlock \<Rightarrow> bool" where
  "on_disk e b \<longleftrightarrow> Load superblock_path (sb_file e) = Inr b"

text \<open>A commit that nothing disturbs.\<close>

definition env_calm :: "write_env \<Rightarrow> bool" where
  "env_calm v \<longleftrightarrow> open_ok v \<and> torn_slot v = None \<and> fsync_status v = Status_Ok"

lemma env_calm_ok: "env_calm v \<Longrightarrow> env_ok v"
  by (simp add: env_calm_def env_ok_def)

lemma on_disk_register: "sb_file e = Some bs \<Longrightarrow> register bs cur \<Longrightarrow> on_disk e b \<longleftrightarrow> b = cur"
  by (auto simp: on_disk_def register_Load)

lemma engine_ok_on_disk: "engine_ok n e \<Longrightarrow> \<exists>cur. on_disk e cur"
  by (auto simp: engine_ok_def on_disk_def register_Load)

lemma engine_ok_mono: "engine_ok n e \<Longrightarrow> m \<le> n \<Longrightarrow> engine_ok m e"
  unfolding engine_ok_def by (meson add_le_mono1 le_less_trans nat_add_left_cancel_le)

lemma sealedD: "sealed b \<Longrightarrow> superblock_wf b \<and> magic (critical b) = kBackupMagic"
  by (auto simp: sealed_def ValidateCritical_def split: if_splits)

text \<open>What one commit of the engine does to the file: nothing readable, or the engine's block.\<close>

definition same_block :: "BackupSuperBlock \<Rightarrow> BackupSuperBlock \<Rightarrow> bool" where
  "same_block b c \<longleftrightarrow> phase (critical b) = phase (critical c) \<and>
     txn_id (critical b) = txn_id (critical c) \<and> next_txn_id (ext b) = next_txn_id (ext c) \<and>
     chunks_written (critical b) = chunks_written (critical c) \<and>
     merkle_root (ext b) = merkle_root (ext c) \<and> backup_features (ext b) = backup_features (ext c)"

lemma same_block_next_block: "same_block (next_block cur b) b"
  by (simp add: same_block_def next_block_def)

lemma commit_sb_file:
  assumes ok: "engine_ok (Suc n) e" and env: "env_ok (envs (commits e))"
    and c: "commit_sb envs e = (st, e')"
  shows "engine_ok n e'"
    and "e' = e\<lparr>sb_file := sb_file e', commits := commits e + 1\<rparr>"
    and "on_disk e b \<Longrightarrow> on_disk e' b \<or> (\<exists>b'. on_disk e' b' \<and> same_block b' (eng_sb e))"
    and "env_calm (envs (commits e)) \<Longrightarrow>
           st = Status_Ok \<and> (\<exists>b'. on_disk e' b' \<and> same_block b' (eng_sb e))"
proof -
  obtain bs cur where bs: "sb_file e = Some bs" "register bs cur" "sealed cur"
    "epoch (critical (eng_sb e)) \<le> epoch (critical cur)" "unat (epoch (critical cur)) + Suc n < 2 ^ 64"
    and wf: "superblock_wf (eng_sb e)" "magic (critical (eng_sb e)) = kBackupMagic"
    "length (eng_merkle_root e) = 32"
    using ok by (auto simp: engine_ok_def)
  obtain d where d: "Commit (envs (commits e)) superblock_path (Some bs) (eng_sb e) = (st, d)"
    and e': "e' = e\<lparr>sb_file := d, commits := commits e + 1\<rparr>"
    using c bs(1) by (auto simp: commit_sb_def split: prod.splits)
  show "e' = e\<lparr>sb_file := sb_file e', commits := commits e + 1\<rparr>" by (simp add: e')
  have room: "unat (epoch (critical cur)) + 1 < 2 ^ 64" using bs(5) by simp
  have ep: "epoch (critical (next_block cur (eng_sb e))) = epoch (critical cur) + 1"
    "unat (epoch (critical cur) + 1) = unat (epoch (critical cur)) + 1"
    using epoch_next_block [OF bs(4)] room by (simp_all add: unat_word_ariths)
  have le: "epoch (critical (eng_sb e)) \<le> epoch (critical cur) + 1"
    using bs(4) ep(2) by (simp add: word_le_nat_alt)
  have cm: "committable cur (eng_sb e)" using wf(1,2) bs(4) room by (simp add: committable_def)
  obtain bs' where c: "d = Some bs'" "register bs' (after_commit cur (eng_sb e) bs')"
    "after_commit cur (eng_sb e) bs' = next_block cur (eng_sb e) \<or> \<not> status_ok st \<and> after_commit cur (eng_sb e) bs' = cur"
    "torn_slot (envs (commits e)) = None \<longrightarrow> st = fsync_status (envs (commits e)) \<and>
       after_commit cur (eng_sb e) bs' = next_block cur (eng_sb e)"
    by (rule Commit_register [OF bs(2) cm env d])
  show "engine_ok n e'"
  proof (cases "after_commit cur (eng_sb e) bs' = next_block cur (eng_sb e)")
    case False
    with c bs wf show ?thesis by (auto simp: engine_ok_def e')
  next
    case True
    with c bs(5) wf ep le sealed_next_block [OF wf(1,2)] show ?thesis
      unfolding engine_ok_def e' by (intro conjI exI [of _ bs'] exI [of _ "next_block cur (eng_sb e)"]) simp_all
  qed
  have "on_disk e' (after_commit cur (eng_sb e) bs')"
    using c(1) register_Load [OF c(2)] by (simp add: on_disk_def e')
  then have new: "on_disk e' cur \<and> \<not> env_calm (envs (commits e)) \<or>
      on_disk e' (next_block cur (eng_sb e)) \<and> (env_calm (envs (commits e)) \<longrightarrow> st = fsync_status (envs (commits e)))"
    using c(3,4) by (auto simp: env_calm_def)
  moreover have "on_disk e b \<Longrightarrow> b = cur"
    using bs by (simp add: on_disk_register)
  ultimately show "on_disk e b \<Longrightarrow> on_disk e' b \<or> (\<exists>b'. on_disk e' b' \<and> same_block b' (eng_sb e))"
    using same_block_next_block by blast
  show "env_calm (envs (commits e)) \<Longrightarrow>
      st = Status_Ok \<and> (\<exists>b'. on_disk e' b' \<and> same_block b' (eng_sb e))"
    using new same_block_next_block by (auto simp: env_calm_def)
qed

section \<open>What every step of a run keeps\<close>

text \<open>The phases a run persists: every named one but \<open>kComplete\<close>.\<close>

fun usual :: "BackupPhase \<Rightarrow> bool" where
  "usual kComplete = False"
| "usual (kUnnamed x) = False"
| "usual _ = True"

definition named :: "BackupSuperBlock \<Rightarrow> bool" where
  "named b \<longleftrightarrow> usual (GetPhase b)"

text \<open>
  A run on a file that held \<open>b0\<close>: the file holds \<open>b0\<close> still, or a block of the run, whose
  transaction counters satisfy \<open>Q\<close>.
\<close>

type_synonym txn_pred = "u64 \<Rightarrow> u64 \<Rightarrow> bool"

definition counters :: "txn_pred \<Rightarrow> BackupSuperBlock \<Rightarrow> bool" where
  "counters Q b \<longleftrightarrow> Q (txn_id (critical b)) (next_txn_id (ext b))"

definition run_inv :: "BackupSuperBlock \<Rightarrow> txn_pred \<Rightarrow> nat \<Rightarrow> Engine \<Rightarrow> bool" where
  "run_inv b0 Q n e \<longleftrightarrow> engine_ok n e \<and> named (eng_sb e) \<and> counters Q (eng_sb e) \<and>
     (\<exists>b. on_disk e b \<and> (b = b0 \<or> named b \<and> counters Q b))"

definition keeps :: "(Engine \<Rightarrow> Status \<times> Engine) \<Rightarrow> bool" where
  "keeps f \<longleftrightarrow> (\<forall>b0 Q n e. run_inv b0 Q n e \<longrightarrow> run_inv b0 Q n (snd (f e)))"

definition aborted_on_disk :: "Engine \<Rightarrow> bool" where
  "aborted_on_disk e \<longleftrightarrow> (\<exists>b. on_disk e b \<and> GetPhase b = kAborted)"

text \<open>One step spends at most one commit and keeps the invariant, whether or not it ends the run.\<close>

definition sound_step :: "txn_pred \<Rightarrow> run_step \<Rightarrow> bool" where
  "sound_step Q s \<longleftrightarrow> (\<forall>b0 n e. run_inv b0 Q (Suc n) e \<longrightarrow>
     (case s e of Inl (st, e') \<Rightarrow> run_inv b0 Q n e' | Inr e' \<Rightarrow> run_inv b0 Q n e'))"

definition fails_aborted :: "txn_pred \<Rightarrow> run_step \<Rightarrow> bool" where
  "fails_aborted Q s \<longleftrightarrow> (\<forall>b0 n e st e'. run_inv b0 Q (Suc n) e \<longrightarrow> s e = Inl (st, e') \<longrightarrow>
     \<not> status_ok st \<and> aborted_on_disk e')"

lemma same_block_phase: "same_block b c \<Longrightarrow> GetPhase b = GetPhase c"
  by (simp add: same_block_def GetPhase_def)

lemma run_inv_mono: "run_inv b0 Q n e \<Longrightarrow> m \<le> n \<Longrightarrow> run_inv b0 Q m e"
  by (auto simp: run_inv_def intro: engine_ok_mono)

lemma keeps_do_work [intro]: "keeps (do_work w)"
proof -
  have "run_inv b0 Q n (snd (do_work w e))" if "run_inv b0 Q n e" for b0 Q n e
    using that
    by (auto simp: run_inv_def engine_ok_def do_work_def on_disk_def named_def GetPhase_def counters_def
        superblock_wf_def extension_wf_def set_ext_def fit_def split: prod.splits)
  then show ?thesis by (simp add: keeps_def)
qed

lemma keeps_DispatchTransition [intro]: "keeps (DispatchTransition ev)"
  by (auto simp: keeps_def run_inv_def engine_ok_def DispatchTransition_def on_disk_def
      split: prod.splits)

lemma keeps_MaybeTestAbortAfter [intro]: "keeps (MaybeTestAbortAfter t p)"
  by (simp add: keeps_def MaybeTestAbortAfter_def)

definition persisted :: "BackupPhase \<Rightarrow> Engine \<Rightarrow> Engine" where
  "persisted p e =
     (let b1 = SetPhase (eng_sb e) p
      in e\<lparr>eng_sb := b1\<lparr>critical := (critical b1)\<lparr>chunks_written := stat_chunks_written e,
                                              bytes_processed := stat_bytes_processed e\<rparr>,
                       ext := (ext b1)\<lparr>last_manifest_crc32 := eng_manifest_crc32 e,
                                       merkle_root := eng_merkle_root e\<rparr>\<rparr>,
           eng_phase := p\<rparr>)"

lemma PersistSuperBlock_persisted:
  "PersistSuperBlock envs p e =
     (if RepoUsesCoalescedMeta (eng_sb (persisted p e)) \<and> p \<noteq> kAborted \<and> p \<noteq> kIdle
      then (Status_Ok, persisted p e) else commit_sb envs (persisted p e))"
  by (simp add: PersistSuperBlock_def persisted_def Let_def)

lemma persisted_simps [simp]:
  "eng_phase (persisted p e) = p" "eng_rules (persisted p e) = eng_rules e"
  "sb_file (persisted p e) = sb_file e" "commits (persisted p e) = commits e"
  "txn_id (critical (eng_sb (persisted p e))) = txn_id (critical (eng_sb e))"
  "next_txn_id (ext (eng_sb (persisted p e))) = next_txn_id (ext (eng_sb e))"
  "merkle_root (ext (eng_sb (persisted p e))) = eng_merkle_root e"
  by (simp_all add: persisted_def Let_def SetPhase_def)

lemma usual_named: "usual p \<Longrightarrow> p \<noteq> kUnnamed x"
  by auto

lemma GetPhase_persisted: "usual p \<Longrightarrow> GetPhase (eng_sb (persisted p e)) = p"
  using usual_named [of p] by (simp add: persisted_def Let_def GetPhase_def SetPhase_def)

lemma run_inv_persisted:
  assumes "run_inv b0 Q n e" and "usual p"
  shows "run_inv b0 Q n (persisted p e)"
proof -
  have "engine_ok n (persisted p e)"
    using assms(1) unfolding run_inv_def engine_ok_def
    by (auto simp: persisted_def Let_def SetPhase_def superblock_wf_def critical_wf_def extension_wf_def)
  then show ?thesis
    using assms GetPhase_persisted [OF assms(2), of e]
    by (auto simp: run_inv_def on_disk_def named_def counters_def)
qed

lemma run_inv_commit:
  assumes inv: "run_inv b0 Q (Suc n) e" and env: "env_ok (envs (commits e))"
    and c: "commit_sb envs e = (st, e')"
  shows "run_inv b0 Q n e'"
proof -
  have ok: "engine_ok (Suc n) e" using inv by (simp add: run_inv_def)
  note upd = commit_sb_file [where envs = envs, OF ok env c]
  have sb: "eng_sb e' = eng_sb e" by (subst upd(2)) simp
  obtain b where "on_disk e b" "b = b0 \<or> named b \<and> counters Q b"
    using inv by (auto simp: run_inv_def)
  with upd(3) [of b] have "\<exists>b. on_disk e' b \<and> (b = b0 \<or> named b \<and> counters Q b)"
    using inv by (auto simp: run_inv_def same_block_def named_def GetPhase_def counters_def)
  then show ?thesis using upd(1) sb inv by (simp add: run_inv_def)
qed

lemma run_inv_PersistSuperBlock:
  assumes inv: "run_inv b0 Q (Suc n) e" and env: "\<forall>i. env_ok (envs i)"
    and p: "usual p" and c: "PersistSuperBlock envs p e = (st, e')"
  shows "run_inv b0 Q n e'"
proof -
  note pinv = run_inv_persisted [OF inv p]
  show ?thesis
  proof (cases "RepoUsesCoalescedMeta (eng_sb (persisted p e)) \<and> p \<noteq> kAborted \<and> p \<noteq> kIdle")
    case True
    then have "e' = persisted p e" using c by (simp add: PersistSuperBlock_persisted)
    then show ?thesis using run_inv_mono [OF pinv, of n] by simp
  next
    case False
    then have "commit_sb envs (persisted p e) = (st, e')"
      using c by (simp add: PersistSuperBlock_persisted split: if_splits)
    then show ?thesis using run_inv_commit [OF pinv] env by blast
  qed
qed

lemma calm_PersistSuperBlock:
  assumes inv: "run_inv b0 Q (Suc n) e" and env: "\<forall>i. env_calm (envs i)"
    and p: "usual p" and c: "PersistSuperBlock envs p e = (st, e')"
  shows "st = Status_Ok" and "eng_phase e' = p" and "eng_rules e' = eng_rules e"
    and "eng_sb e' = eng_sb (persisted p e)"
    and "p = kAborted \<or> p = kIdle \<Longrightarrow> \<exists>b. on_disk e' b \<and> same_block b (eng_sb (persisted p e))"
proof -
  have ok: "engine_ok (Suc n) (persisted p e)"
    using run_inv_persisted [OF inv p] by (simp add: run_inv_def)
  have "st = Status_Ok \<and> eng_phase e' = p \<and> eng_rules e' = eng_rules e \<and>
      eng_sb e' = eng_sb (persisted p e) \<and>
      (p = kAborted \<or> p = kIdle \<longrightarrow> (\<exists>b. on_disk e' b \<and> same_block b (eng_sb (persisted p e))))"
  proof (cases "RepoUsesCoalescedMeta (eng_sb (persisted p e)) \<and> p \<noteq> kAborted \<and> p \<noteq> kIdle")
    case True
    then have "st = Status_Ok" "e' = persisted p e" using c by (simp_all add: PersistSuperBlock_persisted)
    with True show ?thesis by simp
  next
    case False
    then have cs: "commit_sb envs (persisted p e) = (st, e')"
      using c by (simp add: PersistSuperBlock_persisted split: if_splits)
    note upd = commit_sb_file [where envs = envs, OF ok env_calm_ok [OF env [rule_format]] cs]
    have "eng_phase e' = p \<and> eng_rules e' = eng_rules e \<and> eng_sb e' = eng_sb (persisted p e)"
      by (subst (1 2 3) upd(2)) simp
    with upd(4) env show ?thesis by blast
  qed
  then show "st = Status_Ok" "eng_phase e' = p" "eng_rules e' = eng_rules e"
    "eng_sb e' = eng_sb (persisted p e)"
    "p = kAborted \<or> p = kIdle \<Longrightarrow> \<exists>b. on_disk e' b \<and> same_block b (eng_sb (persisted p e))"
    by blast+
qed

section \<open>Every prefix of a run is sound\<close>

lemma sound_return_work: "sound_step Q (or_return (do_work w))"
proof -
  have "run_inv b0 Q n (snd (do_work w e))" if "run_inv b0 Q (Suc n) e" for b0 Q n e
    using keeps_do_work [of w] run_inv_mono [OF that, of n] by (simp add: keeps_def)
  then show ?thesis by (auto simp: sound_step_def or_return_def split: prod.splits) (metis snd_conv)+
qed

lemma sound_or_abort:
  assumes f: "keeps f" and env: "\<forall>i. env_ok (envs i)" shows "sound_step Q (or_abort envs f)"
proof -
  have "case or_abort envs f e of Inl (st, e') \<Rightarrow> run_inv b0 Q n e' | Inr e' \<Rightarrow> run_inv b0 Q n e'"
    if inv: "run_inv b0 Q (Suc n) e" for b0 Q n e
  proof -
    obtain st e1 where fe: "f e = (st, e1)" by (cases "f e")
    have inv1: "run_inv b0 Q (Suc n) e1" using f inv fe by (force simp: keeps_def)
    obtain st2 e2 where pe: "PersistSuperBlock envs kAborted e1 = (st2, e2)"
      by (cases "PersistSuperBlock envs kAborted e1")
    have "run_inv b0 Q n e2" by (rule run_inv_PersistSuperBlock [OF inv1 env _ pe]) simp
    then show ?thesis using fe pe run_inv_mono [OF inv1, of n] by (simp add: or_abort_def)
  qed
  then show ?thesis by (simp add: sound_step_def)
qed

lemma sound_persist:
  assumes env: "\<forall>i. env_ok (envs i)" and p: "usual p"
  shows "sound_step Q (or_return (PersistSuperBlock envs p))"
  unfolding sound_step_def or_return_def
  using run_inv_PersistSuperBlock [OF _ env p] by (auto split: prod.splits)

lemma sound_Inr: "sound_step Q Inr"
  by (auto simp: sound_step_def intro: run_inv_mono)

lemma run_inv_SetNextTxnId:
  "run_inv b0 (\<lambda>i _. P i) n e \<Longrightarrow> run_inv b0 (\<lambda>i _. P i) n (e\<lparr>eng_sb := SetNextTxnId (eng_sb e) t\<rparr>)"
  by (auto simp: run_inv_def engine_ok_def on_disk_def named_def counters_def GetPhase_def SetNextTxnId_def
      superblock_wf_def extension_wf_def)

lemma sound_SetNextTxnId:
  "sound_step (\<lambda>i _. P i) (\<lambda>e. Inr (e\<lparr>eng_sb := SetNextTxnId (eng_sb e) (t e)\<rparr>))"
  by (auto simp: sound_step_def intro: run_inv_SetNextTxnId run_inv_mono)

lemmas sound_steps = sound_or_abort sound_return_work sound_persist sound_Inr
  keeps_do_work keeps_DispatchTransition keeps_MaybeTestAbortAfter

definition before_txn_end :: "(nat \<Rightarrow> write_env) \<Rightarrow> Work \<Rightarrow> run_step list" where
  "before_txn_end envs w =
     prepare_steps envs w @ scan_steps envs w @ store_steps envs w @ take 9 (commit_steps envs w)"

lemmas step_lists = prepare_steps_def scan_steps_def store_steps_def commit_steps_def

lemma before_txn_end_take: "take 30 (backup_steps envs w) = before_txn_end envs w"
  "length (before_txn_end envs w) = 30"
  by (simp_all add: backup_steps_def before_txn_end_def step_lists)

lemma before_txn_end_sound:
  assumes "\<forall>i. env_ok (envs i)" and "s \<in> set (before_txn_end envs w)"
  shows "sound_step Q s"
  using assms(2) unfolding before_txn_end_def step_lists
  by (auto intro!: sound_steps assms(1) split: if_splits)

lemma backup_steps_split:
  "backup_steps envs w = before_txn_end envs w @
     [\<lambda>e. Inr (e\<lparr>eng_sb := SetNextTxnId (eng_sb e) (txn_id (critical (eng_sb e)) + 1)\<rparr>),
      or_abort envs (do_work (w_finalize w)), or_return (PersistSuperBlock envs kIdle)]"
  by (simp add: before_txn_end_def backup_steps_def commit_steps_def)

lemma backup_steps_sound:
  assumes "\<forall>i. env_ok (envs i)" and "s \<in> set (backup_steps envs w)"
  shows "sound_step (\<lambda>i _. P i) s"
proof (cases "s \<in> set (before_txn_end envs w)")
  case True
  then show ?thesis by (rule before_txn_end_sound [OF assms(1)])
next
  case False
  with assms(2) show ?thesis
    unfolding backup_steps_split by (auto intro!: sound_SetNextTxnId sound_steps assms(1))
qed

lemma run_steps_sound:
  assumes "\<forall>s \<in> set ss. sound_step Q s" and "run_inv b0 Q (n + length ss) e"
  shows "case run_steps ss e of Inl (st, e') \<Rightarrow> run_inv b0 Q n e' | Inr e' \<Rightarrow> run_inv b0 Q n e'"
  using assms
proof (induction ss arbitrary: e)
  case (Cons s ss)
  then have st: "case s e of Inl (st, e') \<Rightarrow> run_inv b0 Q (n + length ss) e'
                 | Inr e' \<Rightarrow> run_inv b0 Q (n + length ss) e'"
    by (simp add: sound_step_def)
  show ?case
  proof (cases "s e")
    case (Inl r)
    then show ?thesis using st by (auto split: prod.splits intro: run_inv_mono)
  next
    case (Inr e1)
    then show ?thesis using st Cons by simp
  qed
qed simp

lemma length_backup_steps: "length (backup_steps envs w) = 33"
  by (simp add: backup_steps_def step_lists)

text \<open>An opened engine that may begin a run: its block is the one on disk.\<close>

definition ready :: "nat \<Rightarrow> Engine \<Rightarrow> bool" where
  "ready n e \<longleftrightarrow> engine_ok n e \<and> named (eng_sb e) \<and> on_disk e (eng_sb e)"

lemma engine_ok_sealed: "engine_ok n e \<Longrightarrow> on_disk e b \<Longrightarrow> sealed b"
  by (auto simp: engine_ok_def on_disk_register)

lemma ready_next_txn: "ready n e \<Longrightarrow> GetNextTxnId (eng_sb e) = next_txn_id (ext (eng_sb e))"
  using engine_ok_sealed by (auto simp: ready_def sealed_def GetNextTxnId_def)

lemma run_inv_begin:
  assumes "ready n e" and "Q (GetNextTxnId (eng_sb e)) (next_txn_id (ext (eng_sb e)))"
  shows "run_inv (eng_sb e) Q n (begin_txn e)"
  using assms by (auto simp: ready_def run_inv_def begin_txn_def engine_ok_def on_disk_def named_def
      counters_def GetPhase_def superblock_wf_def critical_wf_def)

text \<open>The engine after a run that was cut before its step number \<open>k\<close>.\<close>

definition crash_after :: "nat \<Rightarrow> (nat \<Rightarrow> write_env) \<Rightarrow> Work \<Rightarrow> Engine \<Rightarrow> Engine" where
  "crash_after k envs w e =
     (case run_steps (take k (backup_steps envs w)) (begin_txn e) of
        Inl (st, e') \<Rightarrow> e' | Inr e' \<Rightarrow> e')"

lemma crash_after_inv:
  assumes "ready (n + 33) e" and "\<forall>i. env_ok (envs i)"
    and "\<forall>s \<in> set (take k (backup_steps envs w)). sound_step Q s"
    and "Q (GetNextTxnId (eng_sb e)) (next_txn_id (ext (eng_sb e)))"
  shows "run_inv (eng_sb e) Q n (crash_after k envs w e)"
proof -
  let ?ss = "take k (backup_steps envs w)"
  have "length ?ss \<le> 33" by (simp add: length_backup_steps)
  then have "run_inv (eng_sb e) Q (n + length ?ss) (begin_txn e)"
    by (intro run_inv_mono [OF run_inv_begin [where Q = Q, OF assms(1,4)]]) simp
  with assms(3) have "case run_steps ?ss (begin_txn e) of
      Inl (st, e') \<Rightarrow> run_inv (eng_sb e) Q n e' | Inr e' \<Rightarrow> run_inv (eng_sb e) Q n e'"
    by (rule run_steps_sound)
  then show ?thesis by (simp add: crash_after_def split: sum.splits prod.splits)
qed

section \<open>Reopening\<close>

text \<open>A process that opens the repository starts from a fresh engine and the files that are there.\<close>

definition fresh_engine :: "bytes option \<Rightarrow> RepoFiles \<Rightarrow> nat \<Rightarrow> Engine" where
  "fresh_engine d fs c = \<lparr>eng_sb = default_superblock, eng_phase = kIdle, eng_rules = [],
     stat_chunks_written = 0, stat_bytes_processed = 0, orphan_chunks_hint = 0,
     unexpected_transitions = 0, eng_manifest_crc32 = 0, eng_merkle_root = zeros 32,
     sb_file = d, files = fs, commits = c\<rparr>"

lemma Dispatch_kOpen:
  "Dispatch (RegisterBackupSyncRules []) p kOpen c = (Status_Ok, c\<lparr>ctx_phase := p\<rparr>)"
  by (simp add: RegisterBackupSyncRules_def Register_def Let_def status_ok_def Status_Ok_def)

lemma load_sb_on_disk: "on_disk e b \<Longrightarrow> load_sb e = Inr (e\<lparr>eng_sb := b\<rparr>)"
  by (simp add: load_sb_def on_disk_def)

lemma engine_ok_loaded:
  assumes "engine_ok n e" and "on_disk e b"
  shows "engine_ok n (e\<lparr>eng_sb := b\<rparr>)"
  using assms sealedD [OF engine_ok_sealed [OF assms]]
  by (auto simp: engine_ok_def on_disk_register)

text \<open>An engine whose phase agrees with its block, which is the one on disk.\<close>

definition settled :: "nat \<Rightarrow> Engine \<Rightarrow> bool" where
  "settled n e \<longleftrightarrow> ready n e \<and> eng_phase e = GetPhase (eng_sb e) \<and>
     (eng_phase e = kIdle \<or> eng_phase e = kAborted) \<and> eng_rules e = RegisterBackupSyncRules []"

lemma finish_open_settled:
  assumes "ready n e" and "eng_phase e = GetPhase (eng_sb e)" and "eng_rules e = []"
    and "eng_phase e = kIdle \<or> eng_phase e = kAborted"
  shows "\<exists>e'. finish_open e = (Status_Ok, e') \<and> settled n e' \<and> eng_sb e' = eng_sb e"
  using assms
  by (auto simp: finish_open_def Let_def Dispatch_kOpen settled_def ready_def engine_ok_def on_disk_def)

lemma usual_cases: "usual p \<Longrightarrow> p = kIdle \<or> p = kAborted \<or> in_progress p"
  by (cases p) (simp_all add: in_progress_def)

text \<open>
  The self check either leaves the engine alone or commits once; without a newer manifest it can
  only abort, and it keeps the transaction counters.
\<close>

definition no_newer_manifest :: "RepoFiles \<Rightarrow> BackupSuperBlock \<Rightarrow> bool" where
  "no_newer_manifest fs b \<longleftrightarrow> (in_progress (GetPhase b) \<longrightarrow>
     (\<forall>t. manifest_txn fs = Some t \<longrightarrow> t \<le> txn_id (critical b)))"

lemma StartupSelfCheck_settles:
  assumes e: "engine_ok (Suc n) e" "named (eng_sb e)" "eng_phase e = GetPhase (eng_sb e)"
    "on_disk e (eng_sb e)" and env: "\<forall>i. env_calm (envs i)"
  shows "\<exists>e' b. StartupSelfCheck envs e = (Status_Ok, e') \<and> engine_ok n e' \<and> on_disk e' b \<and>
    eng_rules e' = eng_rules e \<and> (GetPhase b = kIdle \<or> GetPhase b = kAborted) \<and>
    (no_newer_manifest (files e) (eng_sb e) \<longrightarrow> next_txn_id (ext b) = next_txn_id (ext (eng_sb e)) \<and>
       (in_progress (eng_phase e) \<longrightarrow> GetPhase b = kAborted))"
proof -
  have commit: "\<exists>e' b. commit_sb envs e1 = (Status_Ok, e') \<and> engine_ok n e' \<and> on_disk e' b \<and>
      eng_rules e' = eng_rules e \<and> GetPhase b = GetPhase c \<and> next_txn_id (ext b) = next_txn_id (ext c)"
    if e1: "e1 = e\<lparr>orphan_chunks_hint := h, eng_sb := c\<rparr>" and c: "superblock_wf c"
      "magic (critical c) = kBackupMagic" "epoch (critical c) = epoch (critical (eng_sb e))" for e1 c h
  proof -
    have ok: "engine_ok (Suc n) e1" using e(1) c by (auto simp: engine_ok_def e1)
    obtain st e' where cs: "commit_sb envs e1 = (st, e')" by (cases "commit_sb envs e1")
    note upd = commit_sb_file [where envs = envs, OF ok env_calm_ok [OF env [rule_format]] cs]
    have "eng_rules e' = eng_rules e" by (subst upd(2)) (simp add: e1)
    moreover obtain b where "on_disk e' b" "same_block b c" "st = Status_Ok"
      using upd(4) env by (auto simp: e1)
    moreover have "GetPhase b = GetPhase c" "next_txn_id (ext b) = next_txn_id (ext c)"
      using \<open>same_block b c\<close> by (simp_all add: GetPhase_def same_block_def)
    ultimately show ?thesis using upd(1) cs by blast
  qed
  have wf: "superblock_wf (eng_sb e)" "magic (critical (eng_sb e)) = kBackupMagic"
    using e(1) by (auto simp: engine_ok_def)
  have abort: "\<exists>e' b. commit_sb envs (e\<lparr>orphan_chunks_hint := h, eng_sb := SetPhase (eng_sb e) kAborted\<rparr>) =
      (Status_Ok, e') \<and> engine_ok n e' \<and> on_disk e' b \<and> eng_rules e' = eng_rules e \<and>
      GetPhase b = kAborted \<and> next_txn_id (ext b) = next_txn_id (ext (eng_sb e))" for h
    using commit [OF refl, of "SetPhase (eng_sb e) kAborted" h] wf by (simp add: GetPhase_SetPhase)
  let ?roll = "\<lambda>t. let b = SetPhase (SetNextTxnId ((eng_sb e)\<lparr>critical := (critical (eng_sb e))\<lparr>txn_id := t\<rparr>\<rparr>) (t + 1)) kIdle
     in b\<lparr>critical := (critical b)\<lparr>chunks_written := 0, bytes_processed := 0\<rparr>\<rparr>"
  have roll: "\<exists>e' b. commit_sb envs (e\<lparr>eng_sb := ?roll t\<rparr>) = (Status_Ok, e') \<and> engine_ok n e' \<and>
      on_disk e' b \<and> eng_rules e' = eng_rules e \<and> GetPhase b = kIdle" for t
  proof -
    have "superblock_wf (?roll t)" "magic (critical (?roll t)) = kBackupMagic"
      "epoch (critical (?roll t)) = epoch (critical (eng_sb e))" "GetPhase (?roll t) = kIdle"
      using wf by (simp_all add: Let_def GetPhase_def SetPhase_def SetNextTxnId_def superblock_wf_def
          critical_wf_def extension_wf_def phase_of_byte_def)
    then show ?thesis
      using commit [of "e\<lparr>eng_sb := ?roll t\<rparr>" "?roll t" "orphan_chunks_hint e"] by force
  qed
  show ?thesis
  proof (cases "in_progress (eng_phase e)")
    case True
    show ?thesis
    proof (cases "\<exists>t. manifest_txn (files e) = Some t \<and> t > txn_id (critical (eng_sb e))")
      case newer: True
      then obtain t where t: "manifest_txn (files e) = Some t" "t > txn_id (critical (eng_sb e))" by blast
      then have "StartupSelfCheck envs e = commit_sb envs (e\<lparr>eng_sb := ?roll t\<rparr>)"
        using True by (simp add: StartupSelfCheck_def Let_def)
      moreover have "\<not> no_newer_manifest (files e) (eng_sb e)"
        using t True e(3) by (auto simp: no_newer_manifest_def)
      ultimately show ?thesis using roll [of t] by metis
    next
      case False
      then have "StartupSelfCheck envs e = commit_sb envs
          (e\<lparr>orphan_chunks_hint := chunks_written (critical (eng_sb e)), eng_sb := SetPhase (eng_sb e) kAborted\<rparr>)"
        using True by (auto simp: StartupSelfCheck_def Let_def split: option.splits)
      then show ?thesis using abort by metis
    qed
  next
    case False
    then have idle: "GetPhase (eng_sb e) = kIdle \<or> GetPhase (eng_sb e) = kAborted"
      using e(2,3) usual_cases by (auto simp: named_def)
    from False have "StartupSelfCheck envs e = (Status_Ok, e) \<or> StartupSelfCheck envs e = commit_sb envs
        (e\<lparr>orphan_chunks_hint := chunks_written (critical (eng_sb e)), eng_sb := SetPhase (eng_sb e) kAborted\<rparr>)"
      by (auto simp: StartupSelfCheck_def Let_def)
    then show ?thesis
    proof
      assume "StartupSelfCheck envs e = (Status_Ok, e)"
      then show ?thesis using idle False e(4) engine_ok_mono [OF e(1), of n] by auto
    next
      assume "StartupSelfCheck envs e = commit_sb envs
        (e\<lparr>orphan_chunks_hint := chunks_written (critical (eng_sb e)), eng_sb := SetPhase (eng_sb e) kAborted\<rparr>)"
      then show ?thesis using abort False by metis
    qed
  qed
qed

definition openable :: "RepoFiles \<Rightarrow> bool" where
  "openable fs \<longleftrightarrow> status_ok (chunk_store_open fs) \<and> status_ok (load_dictionary fs)"

lemma fresh_engine_ok:
  assumes "engine_ok n e" and "on_disk e b"
  shows "engine_ok n ((fresh_engine (sb_file e) fs c)\<lparr>eng_sb := b, eng_phase := p\<rparr>)"
  using assms sealedD [OF engine_ok_sealed [OF assms]]
  by (auto simp: engine_ok_def fresh_engine_def on_disk_register)

lemma Open_fresh:
  assumes e: "engine_ok (Suc n) e" "on_disk e b" "named b" and fs: "openable fs"
    and env: "\<forall>i. env_calm (envs i)"
  shows "\<exists>e'. Open envs (fresh_engine (sb_file e) fs c) = (Status_Ok, e') \<and> settled n e' \<and>
    (no_newer_manifest fs b \<longrightarrow> next_txn_id (ext (eng_sb e')) = next_txn_id (ext b) \<and>
       (in_progress (GetPhase b) \<longrightarrow> eng_phase e' = kAborted))"
proof -
  let ?f = "fresh_engine (sb_file e) fs c"
  let ?g = "?f\<lparr>eng_sb := b, eng_phase := GetPhase b\<rparr>"
  have ld: "load_sb ?f = Inr (?f\<lparr>eng_sb := b\<rparr>)"
    using e(2) by (simp add: load_sb_def on_disk_def fresh_engine_def)
  have g: "engine_ok (Suc n) ?g" "named (eng_sb ?g)" "eng_phase ?g = GetPhase (eng_sb ?g)"
    "on_disk ?g (eng_sb ?g)" "eng_rules ?g = []"
    using fresh_engine_ok [OF e(1,2)] e by (simp_all add: on_disk_def fresh_engine_def)
  have fl: "files ?f = fs" "eng_rules ?f = []" by (simp_all add: fresh_engine_def)
  have open': "Open envs ?f =
     (if needs_self_check ?g then
        (case StartupSelfCheck envs ?g of
           (st, e3) \<Rightarrow> if \<not> status_ok st then (st, e3)
             else (case load_sb e3 of Inl st' \<Rightarrow> (st', e3)
                   | Inr e4 \<Rightarrow> finish_open (e4\<lparr>eng_phase := GetPhase (eng_sb e4)\<rparr>)))
      else finish_open ?g)"
    using fs unfolding Open_def ld by (simp add: openable_def Let_def fresh_engine_def)
  show ?thesis
  proof (cases "needs_self_check ?g")
    case True
    obtain e3 b3 where sc: "StartupSelfCheck envs ?g = (Status_Ok, e3)" "engine_ok n e3"
      "on_disk e3 b3" "eng_rules e3 = []" "GetPhase b3 = kIdle \<or> GetPhase b3 = kAborted"
      "no_newer_manifest fs b \<longrightarrow> next_txn_id (ext b3) = next_txn_id (ext b) \<and>
         (in_progress (GetPhase b) \<longrightarrow> GetPhase b3 = kAborted)"
      using StartupSelfCheck_settles [OF g(1-4) env] g(5) fl by auto
    let ?h = "e3\<lparr>eng_sb := b3, eng_phase := GetPhase b3\<rparr>"
    have "ready n ?h"
      using engine_ok_loaded [OF sc(2,3)] sc(3,5)
      by (auto simp: ready_def named_def engine_ok_def on_disk_def)
    then obtain e' where "finish_open ?h = (Status_Ok, e')" "settled n e'" "eng_sb e' = b3"
      using finish_open_settled [of n ?h] sc by auto
    then show ?thesis
      using True sc by (intro exI [of _ e']) (auto simp: open' load_sb_on_disk settled_def)
  next
    case False
    then have "GetPhase b = kIdle \<or> GetPhase b = kAborted" "\<not> in_progress (GetPhase b)"
      using usual_cases [of "GetPhase b"] e(3)
      by (auto simp: named_def needs_self_check_def in_progress_def)
    moreover have "ready n ?g"
      using g engine_ok_mono [OF g(1), of n] by (simp add: ready_def)
    ultimately obtain e' where "finish_open ?g = (Status_Ok, e')" "settled n e'" "eng_sb e' = b"
      using finish_open_settled [of n ?g] g(5) by auto
    then show ?thesis
      using False \<open>\<not> in_progress (GetPhase b)\<close> by (intro exI [of _ e']) (simp add: open')
  qed
qed

lemma crash_after_on_disk:
  assumes "ready (n + 40) e" and "\<forall>i. env_ok (envs i)"
  shows "\<exists>b. engine_ok (Suc n) (crash_after k envs w e) \<and> on_disk (crash_after k envs w e) b \<and> named b"
proof -
  have "ready (Suc n + 33) e"
    using assms(1) engine_ok_mono by (auto simp: ready_def)
  then have "run_inv (eng_sb e) (\<lambda>_ _. True) (Suc n) (crash_after k envs w e)"
    using backup_steps_sound [OF assms(2)]
    by (intro crash_after_inv [OF _ assms(2)]) (auto dest: in_set_takeD)
  then show ?thesis using assms(1) by (auto simp: run_inv_def ready_def)
qed

text \<open>The process that starts after a crash.\<close>

definition restart :: "nat \<Rightarrow> Engine \<Rightarrow> Engine" where
  "restart c e = fresh_engine (sb_file e) (files e) c"

text \<open>
  C2. Crash recovery of the backup state machine: start a run in an opened repository (whose 64-bit epoch has room
  for it) and cut it before any of its 33 steps, where any of its superblock commits may also be interrupted: its
  slot then holds the old image, the new one, or one the checksums refuse (an existing file can be opened). If the new process then finds a
  disk that accepts its commits, and chunk store and dictionary open, opening the repository succeeds, leaves the
  phase idle or aborted both in the engine and on disk, and the engine may begin a new run.
\<close>

theorem reopen_after_crash:
  assumes "ready (n + 40) e" and "\<forall>i. env_ok (envs i)"
    and "\<forall>i. env_calm (envs' i)" and "openable (files (crash_after k envs w e))"
  shows "\<exists>e'. Open envs' (restart c (crash_after k envs w e)) = (Status_Ok, e') \<and>
     ready n e' \<and> GetPhase (eng_sb e') = eng_phase e' \<and>
     (eng_phase e' = kIdle \<or> eng_phase e' = kAborted)"
  using crash_after_on_disk [OF assms(1,2)] Open_fresh [OF _ _ _ assms(4,3)] unfolding restart_def
  by (metis settled_def)

text \<open>
  A property of the repository's other files that every part of the work keeps, given the transaction id of
  the run, is kept by every prefix of a run.
\<close>

definition work_parts :: "Work \<Rightarrow> work list" where
  "work_parts w = [w_configure w, w_setup_encryption w, w_pre_hook w, w_vss_begin w, w_scan w, w_begin_append w, w_chunk w,
     w_store_pending w, w_vss_policy w, w_flush w, w_end_append w, w_merge_meta w, w_commit_manifest w, w_append_audit w,
     w_save_index w, w_finalize w]"

definition files_kept :: "u64 \<Rightarrow> (RepoFiles \<Rightarrow> bool) \<Rightarrow> Work \<Rightarrow> bool" where
  "files_kept N P w \<longleftrightarrow> (\<forall>f \<in> set (work_parts w). \<forall>d. d_txn d = N \<longrightarrow> P (d_files d) \<longrightarrow> P (d_files (snd (f d))))"

definition files_inv :: "u64 \<Rightarrow> (RepoFiles \<Rightarrow> bool) \<Rightarrow> Engine \<Rightarrow> bool" where
  "files_inv N P e \<longleftrightarrow> txn_id (critical (eng_sb e)) = N \<and> P (files e)"

definition tidy :: "u64 \<Rightarrow> (RepoFiles \<Rightarrow> bool) \<Rightarrow> (Engine \<Rightarrow> Status \<times> Engine) \<Rightarrow> bool" where
  "tidy N P f \<longleftrightarrow> (\<forall>e. files_inv N P e \<longrightarrow> files_inv N P (snd (f e)))"

definition tidy_step :: "u64 \<Rightarrow> (RepoFiles \<Rightarrow> bool) \<Rightarrow> run_step \<Rightarrow> bool" where
  "tidy_step N P s \<longleftrightarrow> (\<forall>e. files_inv N P e \<longrightarrow>
     (case s e of Inl (st, e') \<Rightarrow> files_inv N P e' | Inr e' \<Rightarrow> files_inv N P e'))"

lemma tidy_do_work:
  assumes "\<And>d. d_txn d = N \<Longrightarrow> P (d_files d) \<Longrightarrow> P (d_files (snd (f d)))"
  shows "tidy N P (do_work f)"
  unfolding tidy_def
proof (intro allI impI)
  fix e assume e: "files_inv N P e"
  let ?d = "\<lparr>d_ext = ext (eng_sb e), d_chunks = stat_chunks_written e, d_bytes = stat_bytes_processed e,
    d_crc = eng_manifest_crc32 e, d_root = eng_merkle_root e, d_txn = txn_id (critical (eng_sb e)), d_files = files e\<rparr>"
  have "files (snd (do_work f e)) = d_files (snd (f ?d))" "txn_id (critical (eng_sb (snd (do_work f e)))) = txn_id (critical (eng_sb e))"
    by (simp_all add: do_work_def split: prod.split)
  then show "files_inv N P (snd (do_work f e))"
    using e assms [of ?d] by (simp add: files_inv_def)
qed

lemma tidy_persist: "tidy N P (PersistSuperBlock envs p)"
  by (auto simp: tidy_def files_inv_def PersistSuperBlock_def commit_sb_def SetPhase_def Let_def split: prod.split)

lemma tidy_control: "tidy N P (DispatchTransition ev)" "tidy N P (MaybeTestAbortAfter t p)"
  by (auto simp: tidy_def files_inv_def DispatchTransition_def MaybeTestAbortAfter_def split: prod.split)

lemma tidy_or_abort: "tidy N P f \<Longrightarrow> tidy_step N P (or_abort envs f)"
  using tidy_persist [of N P envs kAborted]
  by (fastforce simp: tidy_def tidy_step_def or_abort_def split: prod.split)

lemma tidy_or_return: "tidy N P f \<Longrightarrow> tidy_step N P (or_return f)"
  by (fastforce simp: tidy_def tidy_step_def or_return_def split: prod.split)

lemma tidy_Inr: "tidy_step N P Inr" "tidy_step N P (\<lambda>e. Inr (e\<lparr>eng_sb := SetNextTxnId (eng_sb e) (t e)\<rparr>))"
  by (simp_all add: tidy_step_def files_inv_def SetNextTxnId_def)

lemma backup_steps_tidy:
  assumes "files_kept N P w" and "s \<in> set (backup_steps envs w)"
  shows "tidy_step N P s"
proof -
  have parts: "tidy N P (do_work f)" if "f \<in> set (work_parts w)" for f
    using assms(1) that by (intro tidy_do_work) (auto simp: files_kept_def)
  show ?thesis
    using assms(2) unfolding backup_steps_def step_lists
    by (auto intro!: tidy_or_abort tidy_or_return tidy_persist tidy_control tidy_Inr parts simp: work_parts_def split: if_splits)
qed

lemma run_steps_tidy:
  "\<forall>s \<in> set ss. tidy_step N P s \<Longrightarrow> files_inv N P e \<Longrightarrow>
     (case run_steps ss e of Inl (st, e') \<Rightarrow> files_inv N P e' | Inr e' \<Rightarrow> files_inv N P e')"
proof (induction ss arbitrary: e)
  case (Cons s ss)
  then have "case s e of Inl (st, e') \<Rightarrow> files_inv N P e' | Inr e' \<Rightarrow> files_inv N P e'"
    by (simp add: tidy_step_def)
  then show ?case using Cons by (cases "s e") auto
qed simp

lemma crash_after_files:
  assumes "files_kept (GetNextTxnId (eng_sb e)) P w" and "P (files e)"
  shows "P (files (crash_after k envs w e))"
proof -
  let ?N = "GetNextTxnId (eng_sb e)"
  have "files_inv ?N P (begin_txn e)" using assms(2) by (simp add: files_inv_def begin_txn_def)
  moreover have "\<forall>s \<in> set (take k (backup_steps envs w)). tidy_step ?N P s"
    using backup_steps_tidy [OF assms(1)] by (auto dest: in_set_takeD)
  ultimately have "files_inv ?N P (crash_after k envs w e)"
    using run_steps_tidy [of "take k (backup_steps envs w)" ?N P "begin_txn e"]
    by (auto simp: crash_after_def split: sum.splits)
  then show ?thesis by (simp add: files_inv_def)
qed

text \<open>A manifest that a part of the run writes has the run's transaction id, as \<open>CommitManifestFile\<close> sees to.\<close>

definition publishes_own_txn :: "Work \<Rightarrow> bool" where
  "publishes_own_txn w \<longleftrightarrow> (\<forall>f \<in> set (work_parts w). \<forall>d t.
     manifest_txn (d_files (snd (f d))) = Some t \<longrightarrow> manifest_txn (d_files d) = Some t \<or> t = d_txn d)"

definition no_newer_than :: "u64 \<Rightarrow> RepoFiles \<Rightarrow> bool" where
  "no_newer_than N fs \<longleftrightarrow> (\<forall>t. manifest_txn fs = Some t \<longrightarrow> t \<le> N)"

lemma publishes_files_kept: "publishes_own_txn w \<Longrightarrow> files_kept N (no_newer_than N) w"
  unfolding publishes_own_txn_def files_kept_def no_newer_than_def by fastforce

text \<open>
  C38. A transaction identifier is not burnt by a crash. Take a run that begins in an opened repository, idle or aborted,
  whose epoch has room and whose manifest is not newer than the run's transaction N, and suppose that the run only
  ever writes a manifest with its own transaction. Cut it before any of its first 31 steps,
  publication of the manifest included; its superblock commits may be interrupted, leaving the old image of the slot, the
  new one, or one the checksums refuse. Then no manifest newer than N is left behind, so the branch of the startup check
  that rolls a published manifest forward (it asks for one newer than the superblock's transaction) is not taken:
  if the new process finds a disk that accepts its commits, and chunk store and dictionary open, the repository
  opens with N as the next identifier again, and aborted if the superblock said that the run was in progress.
\<close>

theorem crash_reuses_txn_id:
  assumes "settled (n + 40) e" and "publishes_own_txn w"
    and "no_newer_than (GetNextTxnId (eng_sb e)) (files e)"
    and "\<forall>i. env_ok (envs i)" and "k \<le> 30"
    and "\<forall>i. env_calm (envs' i)" and "openable (files (crash_after k envs w e))"
    and "on_disk (crash_after k envs w e) b"
  shows "no_newer_than (GetNextTxnId (eng_sb e)) (files (crash_after k envs w e)) \<and>
    (\<exists>e'. Open envs' (restart c (crash_after k envs w e)) = (Status_Ok, e') \<and>
       GetNextTxnId (eng_sb e') = GetNextTxnId (eng_sb e) \<and>
       (in_progress (GetPhase b) \<longrightarrow> eng_phase e' = kAborted))"
proof -
  let ?e = "crash_after k envs w e" and ?N = "GetNextTxnId (eng_sb e)"
  let ?Q = "\<lambda>t x. t = ?N \<and> x = ?N"
  have mf: "no_newer_than ?N (files ?e)"
    by (rule crash_after_files [where P = "no_newer_than ?N", OF publishes_files_kept [OF assms(2)] assms(3)])
  have r0: "ready (n + 40) e" and idle: "\<not> in_progress (GetPhase (eng_sb e))"
    using assms(1) by (auto simp: settled_def in_progress_def)
  have r: "ready (Suc n + 33) e"
    using r0 engine_ok_mono by (auto simp: ready_def)
  have "\<forall>s \<in> set (take k (backup_steps envs w)). sound_step ?Q s"
  proof
    fix s assume "s \<in> set (take k (backup_steps envs w))"
    then have "s \<in> set (before_txn_end envs w)"
      using set_take_subset_set_take [OF assms(5), of "backup_steps envs w"]
      by (auto simp: before_txn_end_take [symmetric])
    then show "sound_step ?Q s" by (rule before_txn_end_sound [OF assms(4)])
  qed
  then have inv: "run_inv (eng_sb e) ?Q (Suc n) ?e"
    by (rule crash_after_inv [OF r assms(4)]) (use ready_next_txn [OF r] in simp)
  then have b: "engine_ok (Suc n) ?e" "b = eng_sb e \<or> named b \<and> counters ?Q b"
    using assms(8) by (auto simp: run_inv_def on_disk_def)
  then have nm: "named b" "next_txn_id (ext b) = ?N" "no_newer_manifest (files ?e) b"
    using r ready_next_txn [OF r] idle mf
    by (auto simp: ready_def counters_def no_newer_manifest_def no_newer_than_def)
  obtain e' where e': "Open envs' (restart c ?e) = (Status_Ok, e')" "settled n e'"
    "next_txn_id (ext (eng_sb e')) = ?N" "in_progress (GetPhase b) \<longrightarrow> eng_phase e' = kAborted"
    using Open_fresh [OF b(1) assms(8) nm(1) assms(7,6), of c] nm unfolding restart_def by auto
  then have "GetNextTxnId (eng_sb e') = ?N"
    using ready_next_txn [of n e'] by (simp add: settled_def)
  with e' mf show ?thesis by blast
qed

section \<open>How a run ends\<close>

lemma fails_or_abort:
  assumes "keeps f" and env: "\<forall>i. env_calm (envs i)"
  shows "fails_aborted Q (or_abort envs f)"
proof -
  have "\<not> status_ok st \<and> aborted_on_disk e'"
    if inv: "run_inv b0 Q (Suc n) e" and s: "or_abort envs f e = Inl (st, e')" for b0 n e st e'
  proof -
    obtain e1 where f: "f e = (st, e1)" "\<not> status_ok st" and e': "e' = snd (PersistSuperBlock envs kAborted e1)"
      using s by (auto simp: or_abort_def split: prod.splits if_splits)
    have inv1: "run_inv b0 Q (Suc n) e1" using assms(1) inv f by (force simp: keeps_def)
    obtain st2 where pe: "PersistSuperBlock envs kAborted e1 = (st2, e')"
      using e' by (cases "PersistSuperBlock envs kAborted e1") auto
    have "\<exists>b. on_disk e' b \<and> same_block b (eng_sb (persisted kAborted e1))"
      by (rule calm_PersistSuperBlock(5) [OF inv1 env _ pe]) simp_all
    then show ?thesis
      using f(2) GetPhase_persisted [of kAborted e1] same_block_phase by (auto simp: aborted_on_disk_def)
  qed
  then show ?thesis unfolding fails_aborted_def by blast
qed

lemma fails_persist:
  assumes env: "\<forall>i. env_calm (envs i)" and p: "usual p"
  shows "fails_aborted Q (or_return (PersistSuperBlock envs p))"
proof -
  have "or_return (PersistSuperBlock envs p) e \<noteq> Inl (st, e')" if "run_inv b0 Q (Suc n) e" for b0 n e st e'
    using calm_PersistSuperBlock(1) [OF that env p]
    by (cases "PersistSuperBlock envs p e") (auto simp: or_return_def)
  then show ?thesis unfolding fails_aborted_def by blast
qed

lemma fails_Inr: "fails_aborted Q (\<lambda>e. Inr (g e))"
  by (simp add: fails_aborted_def)

lemma fails_Inr': "fails_aborted Q Inr"
  by (simp add: fails_aborted_def)

lemmas fails_steps = fails_or_abort fails_persist fails_Inr fails_Inr'
  keeps_do_work keeps_DispatchTransition keeps_MaybeTestAbortAfter

lemma run_steps_fails:
  assumes "\<forall>s \<in> set ss. sound_step Q s \<and> fails_aborted Q s" and "run_inv b0 Q (n + length ss) e"
    and "run_steps ss e = Inl (st, e')"
  shows "\<not> status_ok st \<and> aborted_on_disk e'"
  using assms
proof (induction ss arbitrary: e)
  case (Cons s ss)
  show ?case
  proof (cases "s e")
    case (Inl r)
    with Cons have "s e = Inl (st, e')" "fails_aborted Q s" "run_inv b0 Q (Suc (n + length ss)) e" by simp_all
    then show ?thesis unfolding fails_aborted_def by blast
  next
    case (Inr e1)
    then have "run_inv b0 Q (n + length ss) e1" "run_steps ss e1 = Inl (st, e')"
      using Cons by (fastforce simp: sound_step_def)+
    then show ?thesis using Cons by simp
  qed
qed simp

lemma run_steps_append:
  "run_steps (xs @ ys) e = (case run_steps xs e of Inl r \<Rightarrow> Inl r | Inr e1 \<Rightarrow> run_steps ys e1)"
  by (induction xs arbitrary: e) (auto split: sum.splits)

lemma backup_steps_fail:
  assumes "\<forall>i. env_calm (envs i)" and "s \<in> set (drop 2 (backup_steps envs w))"
  shows "fails_aborted Q s"
  using assms(2) unfolding backup_steps_def step_lists
  by (auto intro!: fails_steps assms(1) split: if_splits)

lemma do_work_txn:
  "txn_id (critical (eng_sb (snd (do_work w e)))) = txn_id (critical (eng_sb e))"
  "next_txn_id (ext (eng_sb (snd (do_work w e)))) = next_txn_id (ext (eng_sb e))"
  "sb_file (snd (do_work w e)) = sb_file e"
  by (simp_all add: do_work_def set_ext_def split: prod.splits)

text \<open>The last three steps: the next identifier is counted up and the idle phase is committed.\<close>

lemma last_steps:
  assumes inv: "run_inv b0 (\<lambda>i _. i = N) 4 e" and env: "\<forall>i. env_calm (envs i)"
    and run: "run_steps [\<lambda>e. Inr (e\<lparr>eng_sb := SetNextTxnId (eng_sb e) (txn_id (critical (eng_sb e)) + 1)\<rparr>),
      or_abort envs (do_work fin), or_return (PersistSuperBlock envs kIdle)] e = Inr e'"
  shows "\<exists>b. on_disk e' b \<and> GetPhase b = kIdle \<and> txn_id (critical b) = N \<and>
    next_txn_id (ext b) = N + 1 \<and> merkle_root (ext b) = eng_merkle_root e'"
proof -
  let ?e1 = "e\<lparr>eng_sb := SetNextTxnId (eng_sb e) (txn_id (critical (eng_sb e)) + 1)\<rparr>"
  let ?e2 = "snd (do_work fin ?e1)"
  have N: "txn_id (critical (eng_sb e)) = N" using inv by (simp add: run_inv_def counters_def)
  have inv2: "run_inv b0 (\<lambda>i _. i = N) 4 ?e2"
    using keeps_do_work [of fin] run_inv_SetNextTxnId [OF inv] by (simp add: keeps_def)
  have txn: "txn_id (critical (eng_sb ?e2)) = N" "next_txn_id (ext (eng_sb ?e2)) = N + 1"
    by (simp_all add: do_work_txn SetNextTxnId_def N)
  obtain st where pe: "PersistSuperBlock envs kIdle ?e2 = (st, e')"
    using run by (auto simp: or_abort_def or_return_def split: prod.splits if_splits)
  have u: "usual kIdle" by simp
  have inv2': "run_inv b0 (\<lambda>i _. i = N) (Suc 3) ?e2" using inv2 by simp
  obtain b where b: "on_disk e' b" "same_block b (eng_sb (persisted kIdle ?e2))"
    using calm_PersistSuperBlock(5) [OF inv2' env u pe] by auto
  have "eng_merkle_root e' = eng_merkle_root ?e2"
    using pe by (auto simp: PersistSuperBlock_persisted commit_sb_def persisted_def Let_def
        split: if_splits prod.splits)
  with b txn same_block_phase [OF b(2)] show ?thesis
    by (auto simp: same_block_def GetPhase_persisted)
qed

lemma prepare_untouched:
  "run_steps (take 2 (prepare_steps envs w)) e = Inl (st, e') \<Longrightarrow> \<not> status_ok st \<and> sb_file e' = sb_file e"
  by (auto simp: prepare_steps_def or_return_def do_work_def split: prod.splits if_splits sum.splits)

text \<open>
  C5. How a backup ends, in an opened repository whose epoch has room and when the storage accepts its commits: a
  run that reports success has left the idle phase in the superblock with its own transaction identifier N, N + 1 as the next one and the Merkle
  root it computed; a run that reports an error has left the aborted phase there, unless it failed
  in its first checks, its configuration or the encryption setup: then the superblock file is as it was (other files,
  the envelope of a new key among them, may have been written).
\<close>

theorem backup_outcome_on_disk:
  assumes "ready (n + 40) e" and "\<forall>i. env_calm (envs i)" and "RunBackup envs w e = (st, e')"
  shows "if status_ok st
     then \<exists>b. on_disk e' b \<and> GetPhase b = kIdle \<and> txn_id (critical b) = GetNextTxnId (eng_sb e) \<and>
            next_txn_id (ext b) = GetNextTxnId (eng_sb e) + 1 \<and>
            merkle_root (ext b) = eng_merkle_root e'
     else aborted_on_disk e' \<or>
          sb_file e' = sb_file e \<and> (st = w_check w \<or>
            run_steps (take 2 (prepare_steps envs w)) (begin_txn e) = Inl (st, e'))"
proof (cases "status_ok (w_check w)")
  case False
  then show ?thesis using assms(3) by (auto simp: RunBackup_def)
next
  case check: True
  let ?N = "GetNextTxnId (eng_sb e)" and ?b = "begin_txn e"
  let ?Q = "\<lambda>i (_::u64). i = ?N" and ?pre = "take 2 (prepare_steps envs w)"
  let ?ss = "drop 2 (backup_steps envs w)"
  have ok: "\<forall>i. env_ok (envs i)" using assms(2) env_calm_ok by blast
  have inv: "run_inv (eng_sb e) ?Q (4 + 33) ?b"
    using run_inv_begin [where Q = ?Q, OF assms(1)] by (auto intro: run_inv_mono)
  have sound: "\<forall>s \<in> set (backup_steps envs w). sound_step ?Q s"
    using backup_steps_sound [OF ok, of _ w "\<lambda>i. i = ?N"] by auto
  have pre: "take 2 (backup_steps envs w) = ?pre" by (simp add: backup_steps_def prepare_steps_def)
  have split: "run_steps (backup_steps envs w) ?b =
      (case run_steps ?pre ?b of Inl r \<Rightarrow> Inl r | Inr e1 \<Rightarrow> run_steps ?ss e1)"
    unfolding run_steps_append [symmetric] pre [symmetric] by simp
  show ?thesis
  proof (cases "run_steps (backup_steps envs w) ?b")
    case (Inl r)
    then have r: "run_steps (backup_steps envs w) ?b = Inl (st, e')"
      using assms(3) check by (simp add: RunBackup_def)
    show ?thesis
    proof (cases "run_steps ?pre ?b")
      case (Inl r')
      then have "run_steps ?pre ?b = Inl (st, e')" using r split by simp
      then show ?thesis using prepare_untouched by (auto simp: begin_txn_def)
    next
      case (Inr e1)
      have "\<forall>s \<in> set ?pre. sound_step ?Q s" using sound unfolding pre [symmetric] by (auto dest: in_set_takeD)
      moreover have "run_inv (eng_sb e) ?Q (4 + length ?ss + length ?pre) ?b"
        using inv by (simp add: length_backup_steps prepare_steps_def)
      ultimately have "run_inv (eng_sb e) ?Q (4 + length ?ss) e1"
        using run_steps_sound [of ?pre ?Q "eng_sb e" "4 + length ?ss" ?b] Inr by simp
      moreover have "\<forall>s \<in> set ?ss. sound_step ?Q s \<and> fails_aborted ?Q s"
        using sound backup_steps_fail [OF assms(2), of _ w ?Q] by (auto dest: in_set_dropD)
      moreover have "run_steps ?ss e1 = Inl (st, e')" using r Inr split by simp
      ultimately have "\<not> status_ok st \<and> aborted_on_disk e'" by (intro run_steps_fails)
      then show ?thesis by simp
    qed
  next
    case (Inr e2)
    then have st: "st = Status_Ok" and e2: "e2 = e'" using assms(3) check by (simp_all add: RunBackup_def)
    then obtain e1 where e1: "run_steps (before_txn_end envs w) ?b = Inr e1"
      and fin: "run_steps [\<lambda>e. Inr (e\<lparr>eng_sb := SetNextTxnId (eng_sb e) (txn_id (critical (eng_sb e)) + 1)\<rparr>),
        or_abort envs (do_work (w_finalize w)), or_return (PersistSuperBlock envs kIdle)] e1 = Inr e'"
      using Inr unfolding backup_steps_split run_steps_append by (auto split: sum.splits)
    have "run_inv (eng_sb e) ?Q (4 + length (before_txn_end envs w)) ?b"
      using inv by (rule run_inv_mono) (simp add: before_txn_end_take)
    then have "run_inv (eng_sb e) ?Q 4 e1"
      using run_steps_sound [of "before_txn_end envs w" ?Q "eng_sb e" 4 ?b] before_txn_end_sound [OF ok] e1
      by (auto)
    then show ?thesis using last_steps [OF _ assms(2) fin] st by auto
  qed
qed

section \<open>A backup whose parts succeed succeeds\<close>

definition always_ok :: "work \<Rightarrow> bool" where
  "always_ok w \<longleftrightarrow> (\<forall>d. status_ok (fst (w d)))"

definition all_parts_ok :: "Work \<Rightarrow> bool" where
  "all_parts_ok w \<longleftrightarrow> test_abort_after w = None \<and>
     (\<forall>f \<in> {w_setup_encryption w, w_pre_hook w, w_vss_begin w, w_scan w, w_begin_append w, w_chunk w,
       w_store_pending w, w_vss_policy w, w_flush w, w_end_append w, w_merge_meta w,
       w_commit_manifest w, w_append_audit w, w_save_index w, w_finalize w, w_configure w}. always_ok f) \<and> status_ok (w_check w)"

definition at_phase :: "BackupSuperBlock \<Rightarrow> nat \<Rightarrow> BackupPhase \<Rightarrow> Engine \<Rightarrow> bool" where
  "at_phase b0 n p e \<longleftrightarrow> run_inv b0 (\<lambda>_ _. True) n e \<and> eng_phase e = p \<and>
     eng_rules e = RegisterBackupSyncRules []"

definition leads :: "run_step \<Rightarrow> BackupPhase \<Rightarrow> BackupPhase \<Rightarrow> bool" where
  "leads s p q \<longleftrightarrow> (\<forall>b0 n e. at_phase b0 (Suc n) p e \<longrightarrow> (\<exists>e'. s e = Inr e' \<and> at_phase b0 n q e'))"

inductive path :: "run_step list \<Rightarrow> BackupPhase \<Rightarrow> BackupPhase \<Rightarrow> bool" where
  stay: "path [] p p"
| step: "leads s p q \<Longrightarrow> path ss q r \<Longrightarrow> path (s # ss) p r"

lemma path_runs:
  "path ss p q \<Longrightarrow> at_phase b0 (n + length ss) p e \<Longrightarrow> \<exists>e'. run_steps ss e = Inr e' \<and> at_phase b0 n q e'"
proof (induction arbitrary: e rule: path.induct)
  case (step s p q ss r)
  have "at_phase b0 (Suc (n + length ss)) p e" using step.prems by simp
  then obtain e1 where "s e = Inr e1" "at_phase b0 (n + length ss) q e1"
    using step.hyps(1) unfolding leads_def by blast
  with step.IH show ?case by simp
qed simp

lemma path_append: "path xs p q \<Longrightarrow> path ys q r \<Longrightarrow> path (xs @ ys) p r"
  by (induction rule: path.induct) (auto intro: path.intros)

lemma at_phase_mono: "at_phase b0 n p e \<Longrightarrow> m \<le> n \<Longrightarrow> at_phase b0 m p e"
  by (auto simp: at_phase_def intro: run_inv_mono)

lemma do_work_phase:
  "eng_phase (snd (do_work w e)) = eng_phase e" "eng_rules (snd (do_work w e)) = eng_rules e"
  "always_ok w \<Longrightarrow> status_ok (fst (do_work w e))"
  by (auto simp: do_work_def always_ok_def split: prod.splits) (metis fst_conv)

lemma at_phase_do_work: "at_phase b0 n p e \<Longrightarrow> at_phase b0 n p (snd (do_work w e))"
  using keeps_do_work [of w] by (simp add: at_phase_def keeps_def do_work_phase)

lemma leads_work: "always_ok w \<Longrightarrow> leads (or_abort envs (do_work w)) p p"
  "always_ok w \<Longrightarrow> leads (or_return (do_work w)) p p"
  unfolding leads_def or_abort_def or_return_def
  using at_phase_do_work at_phase_mono do_work_phase(3)
  by (auto split: prod.splits) (metis fst_conv le_add2 plus_1_eq_Suc snd_conv)+

lemma leads_Inr: "leads Inr p p"
  by (auto simp: leads_def intro: at_phase_mono)

lemma leads_SetNextTxnId: "leads (\<lambda>e. Inr (e\<lparr>eng_sb := SetNextTxnId (eng_sb e) (t e)\<rparr>)) p p"
proof -
  have "run_inv b0 (\<lambda>_ _. True) n (e\<lparr>eng_sb := SetNextTxnId (eng_sb e) (t e)\<rparr>)"
    if "run_inv b0 (\<lambda>_ _. True) (Suc n) e" for b0 n e
    by (rule run_inv_SetNextTxnId [where P = "\<lambda>_. True", OF run_inv_mono [OF that]]) simp
  then show ?thesis by (auto simp: leads_def at_phase_def)
qed

lemma leads_abort_test: "leads (or_abort envs (MaybeTestAbortAfter None x)) p p"
  by (auto simp: leads_def or_abort_def MaybeTestAbortAfter_def intro: at_phase_mono)

lemma leads_persist:
  assumes env: "\<forall>i. env_calm (envs i)" and p: "usual q"
  shows "leads (or_return (PersistSuperBlock envs q)) p q"
proof -
  have "\<exists>e'. or_return (PersistSuperBlock envs q) e = Inr e' \<and> at_phase b0 n q e'"
    if a: "at_phase b0 (Suc n) p e" for b0 n e
  proof -
    have inv: "run_inv b0 (\<lambda>_ _. True) (Suc n) e" using a by (simp add: at_phase_def)
    obtain st e' where pe: "PersistSuperBlock envs q e = (st, e')" by (cases "PersistSuperBlock envs q e")
    have ok: "\<forall>i. env_ok (envs i)" using env env_calm_ok by blast
    note c = calm_PersistSuperBlock [OF inv env p pe]
    have "at_phase b0 n q e'"
      using c a run_inv_PersistSuperBlock [OF inv ok p pe] by (simp add: at_phase_def)
    then show ?thesis using c(1) pe by (simp add: or_return_def)
  qed
  then show ?thesis unfolding leads_def by blast
qed

lemma Dispatch_advance:
  assumes "ev \<in> {kScanFile, kChunkFile, kStoreChunk, kCommitManifest, kAppendAudit, kCompleteEvent}"
  shows "Dispatch (RegisterBackupSyncRules []) p ev \<lparr>ctx_phase = p\<rparr> =
    (Status_Ok, \<lparr>ctx_phase = NextPhase p ev\<rparr>)"
  using assms by (auto simp: RegisterBackupSyncRules_def Register_def advance_def)

lemma leads_dispatch:
  assumes "ev \<in> {kScanFile, kChunkFile, kStoreChunk, kCommitManifest, kAppendAudit, kCompleteEvent}"
    and "NextPhase p ev = q" and "q \<noteq> kAborted"
  shows "leads (or_abort envs (DispatchTransition ev)) p q"
proof -
  have "\<exists>e'. or_abort envs (DispatchTransition ev) e = Inr e' \<and> at_phase b0 n q e'"
    if a: "at_phase b0 (Suc n) p e" for b0 n e
  proof -
    have r: "eng_rules e = RegisterBackupSyncRules []" "eng_phase e = p"
      "run_inv b0 (\<lambda>_ _. True) (Suc n) e" using a by (simp_all add: at_phase_def)
    have d: "DispatchTransition ev e = (Status_Ok, e\<lparr>eng_phase := q\<rparr>)"
      unfolding DispatchTransition_def r(1,2) Dispatch_advance [OF assms(1)] using assms(2,3) by simp
    have "run_inv b0 (\<lambda>_ _. True) (Suc n) (e\<lparr>eng_phase := q\<rparr>)"
      using keeps_DispatchTransition [of ev] r(3) unfolding keeps_def by (metis d snd_conv)
    then show ?thesis using r(1) run_inv_mono by (auto simp: or_abort_def d at_phase_def)
  qed
  then show ?thesis unfolding leads_def by blast
qed

lemma path_work:
  "always_ok w \<Longrightarrow> path ss p r \<Longrightarrow> path (or_abort envs (do_work w) # ss) p r"
  "always_ok w \<Longrightarrow> path ss p r \<Longrightarrow> path (or_return (do_work w) # ss) p r"
  "path ss p r \<Longrightarrow> path (Inr # ss) p r"
  "path ss p r \<Longrightarrow> path (or_abort envs (MaybeTestAbortAfter None x) # ss) p r"
  "path ss p r \<Longrightarrow> path ((\<lambda>e. Inr (e\<lparr>eng_sb := SetNextTxnId (eng_sb e) (t e)\<rparr>)) # ss) p r"
  by (blast intro: path.step leads_work leads_Inr leads_abort_test leads_SetNextTxnId)+

lemma path_control:
  "\<forall>i. env_calm (envs i) \<Longrightarrow> usual q \<Longrightarrow> path ss q r \<Longrightarrow>
     path (or_return (PersistSuperBlock envs q) # ss) p r"
  "ev \<in> {kScanFile, kChunkFile, kStoreChunk, kCommitManifest, kAppendAudit, kCompleteEvent} \<Longrightarrow>
     NextPhase p ev \<noteq> kAborted \<Longrightarrow> path ss (NextPhase p ev) r \<Longrightarrow>
     path (or_abort envs (DispatchTransition ev) # ss) p r"
  by (rule path.step, rule leads_persist, assumption+)
    (rule path.step, rule leads_dispatch [OF _ refl], assumption+)

lemma backup_path:
  assumes env: "\<forall>i. env_calm (envs i)" and w: "all_parts_ok w" and p: "p = kIdle \<or> p = kAborted"
  shows "path (backup_steps envs w) p kIdle"
proof -
  have t: "test_abort_after w = None" and ok: "always_ok (w_setup_encryption w)"
    "always_ok (w_pre_hook w)" "always_ok (w_vss_begin w)" "always_ok (w_scan w)"
    "always_ok (w_begin_append w)" "always_ok (w_chunk w)" "always_ok (w_store_pending w)"
    "always_ok (w_vss_policy w)" "always_ok (w_flush w)" "always_ok (w_end_append w)"
    "always_ok (w_merge_meta w)" "always_ok (w_commit_manifest w)" "always_ok (w_append_audit w)"
    "always_ok (w_save_index w)" "always_ok (w_finalize w)" "always_ok (w_configure w)"
    using w by (simp_all add: all_parts_ok_def)
  have start: "NextPhase p kScanFile \<noteq> kAborted" using p by auto
  show ?thesis
    unfolding backup_steps_def step_lists append_Cons append_Nil t
    by (cases "use_pipeline w"; cases "persistent_index w"; simp only: if_True if_False)
      (intro path_work path_control env ok path.stay start; simp)+
qed

text \<open>
  C6. A backup completes: started in an opened repository, with every part of the work succeeding
  and every commit accepted, \<open>RunBackup\<close> drives the phase machine through its whole sequence
  without an invalid transition and reports success with the engine idle again.
\<close>

theorem backup_completes:
  assumes "settled (n + 40) e" and "\<forall>i. env_calm (envs i)" and "all_parts_ok w"
  shows "\<exists>e'. RunBackup envs w e = (Status_Ok, e') \<and> eng_phase e' = kIdle"
proof -
  have r: "ready (n + 40) e" and p: "eng_phase e = kIdle \<or> eng_phase e = kAborted"
    and rl: "eng_rules e = RegisterBackupSyncRules []" using assms(1) by (auto simp: settled_def)
  have "run_inv (eng_sb e) (\<lambda>_ _. True) (4 + length (backup_steps envs w)) (begin_txn e)"
    using run_inv_begin [OF r, of "\<lambda>_ _. True"] by (auto simp: length_backup_steps intro: run_inv_mono)
  then have "at_phase (eng_sb e) (4 + length (backup_steps envs w)) (eng_phase e) (begin_txn e)"
    using rl by (simp add: at_phase_def begin_txn_def)
  from path_runs [OF backup_path [OF assms(2,3) p] this]
  show ?thesis using assms(3) by (auto simp: RunBackup_def at_phase_def all_parts_ok_def)
qed

section \<open>The properties apply to a new repository\<close>

definition new_repo_file :: "bytes option" where
  "new_repo_file = snd (Commit calm_env superblock_path None default_superblock)"

definition quiet_files :: RepoFiles where
  "quiet_files = \<lparr>manifest_txn = Some 0, has_manifest = True, has_pack_file = False,
     chunk_store_open = Status_Ok, load_dictionary = Status_Ok\<rparr>"

definition new_engine :: Engine where
  "new_engine = (fresh_engine new_repo_file quiet_files 0)\<lparr>
     eng_sb := next_block default_superblock default_superblock,
     eng_rules := RegisterBackupSyncRules []\<rparr>"

definition idle_work :: Work where
  "idle_work = (let ok = (\<lambda>d. (Status_Ok, d)) in
     \<lparr>w_check = Status_Ok, w_configure = ok, w_setup_encryption = ok, w_pre_hook = ok, w_vss_begin = ok, w_scan = ok, w_begin_append = ok,
      w_chunk = ok, w_store_pending = ok, w_vss_policy = ok, w_flush = ok, w_end_append = ok,
      w_merge_meta = ok, w_commit_manifest = ok, w_append_audit = ok, w_save_index = ok,
      w_finalize = ok, test_abort_after = None, use_pipeline = True, persistent_index = True\<rparr>)"

lemma new_engine_settled: "settled 200 new_engine"
proof -
  let ?n = "next_block default_superblock default_superblock"
  obtain st bs where c: "Commit calm_env superblock_path None default_superblock = (st, Some bs)"
    by (auto simp: Commit_def WriteSlot_def write_opened_def calm_env_def Let_def)
  have reg: "register bs ?n"
    by (rule sb_created_register [OF default_superblock_wf default_magic sample_envs(4) c])
  have sn: "sealed ?n"
    by (rule sealed_next_block) (simp_all add: default_superblock_wf default_magic)
  have ep: "epoch (critical ?n) = 1" "phase (critical ?n) = 0"
    by (simp_all add: next_block_def default_superblock_def default_critical_def)
  have d: "sb_file new_engine = Some bs" "eng_sb new_engine = ?n" "eng_merkle_root new_engine = zeros 32"
    "eng_phase new_engine = kIdle" "eng_rules new_engine = RegisterBackupSyncRules []"
    using c by (simp_all add: new_engine_def fresh_engine_def new_repo_file_def)
  have ph: "GetPhase ?n = kIdle" using ep by (simp add: GetPhase_def phase_of_byte_def)
  show ?thesis
    using sealedD [OF sn] reg sn ep ph
    by (auto simp: settled_def ready_def engine_ok_def named_def d on_disk_def register_Load)
qed

lemma new_engine_ready: "ready (n + 40) new_engine" if "n \<le> 160"
  using new_engine_settled that engine_ok_mono [of 200 new_engine "n + 40"]
  by (simp add: settled_def ready_def)

lemma new_engine_block:
  "GetPhase (eng_sb new_engine) = kIdle" "GetNextTxnId (eng_sb new_engine) = 1"
  by (simp_all add: new_engine_def next_block_def default_superblock_def default_critical_def
      default_extension_def GetPhase_def GetNextTxnId_def phase_of_byte_def)

lemma calm_env_env: "env_calm calm_env"
  by (simp add: calm_env_def env_calm_def)

lemma quiet_files_openable: "openable quiet_files"
  by (simp add: openable_def quiet_files_def)

text \<open>A run that publishes its manifest and otherwise does nothing.\<close>

definition publishing_work :: Work where
  "publishing_work = idle_work\<lparr>w_commit_manifest := (\<lambda>d. (Status_Ok, d\<lparr>d_files := (d_files d)\<lparr>manifest_txn := Some (d_txn d)\<rparr>\<rparr>))\<rparr>"

lemma publishing_work_ok: "publishes_own_txn publishing_work"
  by (auto simp: publishes_own_txn_def work_parts_def publishing_work_def idle_work_def Let_def)

lemma publishing_work_opens: "openable (files (crash_after k envs publishing_work new_engine))"
  by (rule crash_after_files)
    (auto simp: files_kept_def work_parts_def publishing_work_def idle_work_def openable_def new_engine_def
      fresh_engine_def quiet_files_def Let_def)

theorem reopen_after_crash_witness:
  "\<exists>e'. Open (\<lambda>_. calm_env) (restart 0
       (crash_after 9 (\<lambda>i. if i < 2 then untouched_env else torn_env) publishing_work new_engine)) = (Status_Ok, e') \<and>
     ready 0 e' \<and> GetPhase (eng_sb e') = eng_phase e' \<and> (eng_phase e' = kIdle \<or> eng_phase e' = kAborted)"
  by (rule reopen_after_crash [OF _ _ _ publishing_work_opens])
    (use new_engine_ready [of 0] in \<open>simp_all add: calm_env_env sample_envs\<close>)

theorem crash_reuses_txn_id_witness:
  "manifest_txn (files (crash_after 25 (\<lambda>_. calm_env) publishing_work new_engine)) \<in> {None, Some 0, Some 1} \<and>
   (\<exists>e'. Open (\<lambda>_. calm_env) (restart 0 (crash_after 25 (\<lambda>_. calm_env) publishing_work new_engine)) = (Status_Ok, e') \<and>
     GetNextTxnId (eng_sb e') = 1)"
proof -
  let ?x = "crash_after 25 (\<lambda>_. calm_env) publishing_work new_engine"
  have "settled (0 + 40) new_engine"
    using new_engine_settled new_engine_ready [of 0] unfolding settled_def by auto
  note c = crash_reuses_txn_id [OF this publishing_work_ok _ _ _ _ publishing_work_opens, of "\<lambda>_. calm_env" 25 "\<lambda>_. calm_env"]
  obtain b where b: "on_disk ?x b"
    using crash_after_on_disk [OF new_engine_ready [of 0], of "\<lambda>_. calm_env" 25 publishing_work]
    by (auto simp: sample_envs)
  have m: "no_newer_than (GetNextTxnId (eng_sb new_engine)) (files new_engine)"
    by (simp add: no_newer_than_def new_engine_block) (simp add: new_engine_def fresh_engine_def quiet_files_def)
  have "no_newer_than 1 (files ?x) \<and> (\<exists>e'. Open (\<lambda>_. calm_env) (restart 0 ?x) = (Status_Ok, e') \<and> GetNextTxnId (eng_sb e') = 1)"
    using c [OF m _ _ _ b, of 0] by (auto simp: calm_env_env sample_envs new_engine_block)
  moreover have "t = 0 \<or> t = 1" if "t \<le> 1" for t :: u64
    using that by (simp add: word_le_nat_alt word_unat_eq_iff le_Suc_eq)
  ultimately show ?thesis
    by (cases "manifest_txn (files ?x)") (auto simp: no_newer_than_def)
qed

theorem backup_outcome_on_disk_witness:
  "(let (st, e') = RunBackup (\<lambda>_. calm_env) idle_work new_engine
    in if status_ok st
       then \<exists>b. on_disk e' b \<and> GetPhase b = kIdle \<and> txn_id (critical b) = 1 \<and>
              next_txn_id (ext b) = 2 \<and> merkle_root (ext b) = eng_merkle_root e'
       else aborted_on_disk e' \<or>
          sb_file e' = sb_file new_engine \<and> (st = w_check idle_work \<or>
            run_steps (take 2 (prepare_steps (\<lambda>_. calm_env) idle_work)) (begin_txn new_engine) = Inl (st, e')))"
proof -
  obtain st e' where r: "RunBackup (\<lambda>_. calm_env) idle_work new_engine = (st, e')"
    by (cases "RunBackup (\<lambda>_. calm_env) idle_work new_engine")
  show ?thesis
    using backup_outcome_on_disk [OF new_engine_ready [of 0] _ r]
    by (simp add: r calm_env_env new_engine_block split: if_splits)
qed

theorem backup_completes_witness:
  "\<exists>e'. RunBackup (\<lambda>_. calm_env) idle_work new_engine = (Status_Ok, e') \<and> eng_phase e' = kIdle"
  by (rule backup_completes [where n = 160])
    (use new_engine_settled in \<open>simp_all add: calm_env_env all_parts_ok_def idle_work_def always_ok_def Let_def\<close>)

end
