(* ===== verification/Digest.thy ===== *)
theory Digest
  imports EbPrelude
begin

text \<open>
  The digests of the engine: the streaming SHA-256 of \<open>common/digest_standard.cc\<close> (and its frozen
  copy \<open>digest_legacy.cc\<close>), HMAC and PBKDF2 on top of it, and the hexadecimal form of
  \<open>common/digest.cc\<close>. The lemmas show that the streaming context computes the padded,
  block-by-block function whatever the stack memory held before, that hexadecimal strings
  round-trip, and that the two PBKDF2 variants agree where both are defined.
\<close>

section \<open>SHA-256 context and block transform\<close>

record Sha256Ctx =
  state :: "u32 list"
  bitlen :: u64
  data :: bytes
  datalen :: nat

text \<open>The round constants of the source, in decimal.\<close>

definition kSha256K :: "u32 list" where
  "kSha256K = [
    1116352408, 1899447441, 3049323471, 3921009573, 961987163, 1508970993,
    2453635748, 2870763221, 3624381080, 310598401, 607225278, 1426881987,
    1925078388, 2162078206, 2614888103, 3248222580, 3835390401, 4022224774,
    264347078, 604807628, 770255983, 1249150122, 1555081692, 1996064986,
    2554220882, 2821834349, 2952996808, 3210313671, 3336571891, 3584528711,
    113926993, 338241895, 666307205, 773529912, 1294757372, 1396182291,
    1695183700, 1986661051, 2177026350, 2456956037, 2730485921, 2820302411,
    3259730800, 3345764771, 3516065817, 3600352804, 4094571909, 275423344,
    430227734, 506948616, 659060556, 883997877, 958139571, 1322822218,
    1537002063, 1747873779, 1955562222, 2024104815, 2227730452, 2361852424,
    2428436474, 2756734187, 3204031479, 3329325298]"

definition RoR :: "u32 \<Rightarrow> nat \<Rightarrow> u32" where
  "RoR x n = drop_bit n x OR push_bit (32 - n) x"

definition Ch :: "u32 \<Rightarrow> u32 \<Rightarrow> u32 \<Rightarrow> u32" where
  "Ch x y z = (x AND y) XOR (NOT x AND z)"

definition Maj :: "u32 \<Rightarrow> u32 \<Rightarrow> u32 \<Rightarrow> u32" where
  "Maj x y z = (x AND y) XOR (x AND z) XOR (y AND z)"

definition Sig0 :: "u32 \<Rightarrow> u32" where
  "Sig0 x = RoR x 2 XOR RoR x 13 XOR RoR x 22"

definition Sig1 :: "u32 \<Rightarrow> u32" where
  "Sig1 x = RoR x 6 XOR RoR x 11 XOR RoR x 25"

definition sig0 :: "u32 \<Rightarrow> u32" where
  "sig0 x = RoR x 7 XOR RoR x 18 XOR drop_bit 3 x"

definition sig1 :: "u32 \<Rightarrow> u32" where
  "sig1 x = RoR x 17 XOR RoR x 19 XOR drop_bit 10 x"

definition be_word :: "bytes \<Rightarrow> nat \<Rightarrow> u32" where
  "be_word bs i = push_bit 24 (ucast (bs ! (i * 4))) OR push_bit 16 (ucast (bs ! (i * 4 + 1)))
     OR push_bit 8 (ucast (bs ! (i * 4 + 2))) OR ucast (bs ! (i * 4 + 3))"

primrec schedule_ext :: "nat \<Rightarrow> u32 list \<Rightarrow> u32 list" where
  "schedule_ext 0 m = m"
| "schedule_ext (Suc n) m =
     (let i = length m in
      schedule_ext n (m @ [sig1 (m ! (i - 2)) + m ! (i - 7) + sig0 (m ! (i - 15)) + m ! (i - 16)]))"

definition message_schedule :: "bytes \<Rightarrow> u32 list" where
  "message_schedule bs = schedule_ext 48 (map (be_word bs) [0..<16])"

type_synonym work = "u32 \<times> u32 \<times> u32 \<times> u32 \<times> u32 \<times> u32 \<times> u32 \<times> u32"

fun sha_round :: "work \<Rightarrow> u32 \<times> u32 \<Rightarrow> work" where
  "sha_round (a, b, c, d, e, f, g, h) (k, m) =
     (let t1 = h + Sig1 e + Ch e f g + k + m;
          t2 = Sig0 a + Maj a b c
      in (t1 + t2, a, b, c, d + t1, e, f, g))"

definition sha_compress :: "u32 list \<Rightarrow> bytes \<Rightarrow> u32 list" where
  "sha_compress st bs =
     (let w0 = (st ! 0, st ! 1, st ! 2, st ! 3, st ! 4, st ! 5, st ! 6, st ! 7);
          (a, b, c, d, e, f, g, h) = foldl sha_round w0 (zip kSha256K (message_schedule bs))
      in [st ! 0 + a, st ! 1 + b, st ! 2 + c, st ! 3 + d,
          st ! 4 + e, st ! 5 + f, st ! 6 + g, st ! 7 + h])"

definition Sha256Transform :: "Sha256Ctx \<Rightarrow> bytes \<Rightarrow> Sha256Ctx" where
  "Sha256Transform ctx bs = ctx\<lparr>state := sha_compress (state ctx) bs\<rparr>"

definition sha_iv :: "u32 list" where
  "sha_iv = [0x6a09e667, 0xbb67ae85, 0x3c6ef372, 0xa54ff53a,
             0x510e527f, 0x9b05688c, 0x1f83d9ab, 0x5be0cd19]"

definition Sha256Init :: "Sha256Ctx \<Rightarrow> Sha256Ctx" where
  "Sha256Init ctx = ctx\<lparr>datalen := 0, bitlen := 0, state := sha_iv\<rparr>"

definition Sha256UpdateByte :: "Sha256Ctx \<Rightarrow> byte \<Rightarrow> Sha256Ctx" where
  "Sha256UpdateByte ctx b =
     (let c1 = ctx\<lparr>data := (data ctx)[datalen ctx := b], datalen := datalen ctx + 1\<rparr>
      in if datalen c1 = 64
         then (Sha256Transform c1 (data c1))\<lparr>bitlen := bitlen c1 + 512, datalen := 0\<rparr>
         else c1)"

definition Sha256Update :: "Sha256Ctx \<Rightarrow> bytes \<Rightarrow> Sha256Ctx" where
  "Sha256Update ctx bs = foldl Sha256UpdateByte ctx bs"

definition be64 :: "u64 \<Rightarrow> bytes" where
  "be64 w = map (\<lambda>j. ucast (drop_bit (8 * (7 - j)) w)) [0..<8]"

definition fill_zero :: "nat \<Rightarrow> nat \<Rightarrow> bytes \<Rightarrow> bytes" where
  "fill_zero lo hi bs = take lo bs @ zeros (hi - lo) @ drop hi bs"

definition hash_bytes :: "u32 list \<Rightarrow> bytes" where
  "hash_bytes st = concat (map (\<lambda>k. map (\<lambda>j. ucast (drop_bit (24 - j * 8) (st ! k))) [0..<4]) [0..<8])"

definition Sha256Final :: "Sha256Ctx \<Rightarrow> bytes" where
  "Sha256Final ctx =
     (let i = datalen ctx;
          d0 = (data ctx)[i := 0x80];
          c1 = (if i < 56 then ctx\<lparr>data := fill_zero (i + 1) 56 d0\<rparr>
                else let d1 = fill_zero (i + 1) 64 d0;
                         c' = Sha256Transform (ctx\<lparr>data := d1\<rparr>) d1
                     in c'\<lparr>data := fill_zero 0 56 (data c')\<rparr>);
          c2 = c1\<lparr>bitlen := bitlen c1 + word_of_nat (datalen c1 * 8)\<rparr>;
          c3 = c2\<lparr>data := take 56 (data c2) @ be64 (bitlen c2)\<rparr>
      in hash_bytes (state (Sha256Transform c3 (data c3))))"

definition Sha256Core :: "Sha256Ctx \<Rightarrow> bytes \<Rightarrow> bytes" where
  "Sha256Core stack bs = Sha256Final (Sha256Update (Sha256Init stack) bs)"

text \<open>
  \<open>Sha256Core\<close> declares its context on the stack without initialising it; \<open>stack\<close> is what that
  memory holds. \<open>stack_ctx\<close> is one such content.
\<close>

definition stack_ctx :: Sha256Ctx where
  "stack_ctx = \<lparr>state = [], bitlen = 0, data = zeros 64, datalen = 0\<rparr>"

definition Sha256Standard :: "bytes \<Rightarrow> bytes" where
  "Sha256Standard bs = Sha256Core stack_ctx bs"

definition Sha256Legacy :: "bytes \<Rightarrow> bytes" where
  "Sha256Legacy bs = Sha256Core stack_ctx bs"

section \<open>The block-by-block specification\<close>

fun sha_blocks :: "u32 list \<Rightarrow> bytes \<Rightarrow> u32 list" where
  "sha_blocks st bs =
     (if length bs < 64 then st else sha_blocks (sha_compress st (take 64 bs)) (drop 64 bs))"

declare sha_blocks.simps [simp del]

definition sha_pad :: "bytes \<Rightarrow> bytes" where
  "sha_pad m = m @ [0x80] @ zeros ((119 - length m mod 64) mod 64)
                 @ be64 (word_of_nat (8 * length m))"

definition sha256_spec :: "bytes \<Rightarrow> bytes" where
  "sha256_spec m = hash_bytes (sha_blocks sha_iv (sha_pad m))"

section \<open>The streaming context computes the specification\<close>

lemma sha_blocks_short: "length bs < 64 \<Longrightarrow> sha_blocks st bs = st"
  by (simp add: sha_blocks.simps)

lemma sha_blocks_one: "length bs = 64 \<Longrightarrow> sha_blocks st (bs @ r) = sha_blocks (sha_compress st bs) r"
  by (subst sha_blocks.simps) simp

lemma sha_blocks_append:
  "64 dvd length a \<Longrightarrow> sha_blocks st (a @ b) = sha_blocks (sha_blocks st a) b"
proof (induction st a rule: sha_blocks.induct)
  case (1 st a)
  show ?case
  proof (cases "length a < 64")
    case True
    with 1 have "a = []" by (metis dvd_imp_le length_greater_0_conv not_le)
    then show ?thesis by (simp add: sha_blocks_short)
  next
    case False
    with 1 have "64 dvd length (drop 64 a)" by (simp add: dvd_diff_nat)
    with 1 False have IH: "sha_blocks (sha_compress st (take 64 a)) (drop 64 a @ b) =
        sha_blocks (sha_blocks (sha_compress st (take 64 a)) (drop 64 a)) b"
      by blast
    from False have "sha_blocks st (a @ b) = sha_blocks (sha_compress st (take 64 a)) (drop 64 a @ b)"
      by (simp add: sha_blocks.simps [of st "a @ b"])
    also note IH
    also have "sha_blocks (sha_compress st (take 64 a)) (drop 64 a) = sha_blocks st a"
      using False by (simp add: sha_blocks.simps [of st a])
    finally show ?thesis .
  qed
qed

definition ctx_holds :: "bytes \<Rightarrow> Sha256Ctx \<Rightarrow> bool" where
  "ctx_holds m ctx \<longleftrightarrow>
     (\<exists>a r q. m = a @ r \<and> length a = 64 * q \<and> length r < 64 \<and>
        state ctx = sha_blocks sha_iv a \<and> bitlen ctx = word_of_nat (512 * q) \<and>
        datalen ctx = length r \<and> length (data ctx) = 64 \<and> take (length r) (data ctx) = r)"

lemma ctx_holdsE:
  assumes "ctx_holds m ctx"
  obtains a r q where "m = a @ r" "length a = 64 * q" "length r < 64"
    "state ctx = sha_blocks sha_iv a" "bitlen ctx = word_of_nat (512 * q)"
    "datalen ctx = length r" "length (data ctx) = 64" "take (length r) (data ctx) = r"
  using assms by (auto simp: ctx_holds_def)

lemma ctx_holds_init: "length (data stack) = 64 \<Longrightarrow> ctx_holds [] (Sha256Init stack)"
  by (simp add: ctx_holds_def Sha256Init_def sha_blocks_short)

lemma take_Suc_update:
  "i < length xs \<Longrightarrow> take (Suc i) (xs[i := b]) = take i xs @ [b]"
  by (simp add: take_Suc_conv_app_nth)

lemma ctx_holds_byte:
  assumes "ctx_holds m ctx"
  shows "ctx_holds (m @ [b]) (Sha256UpdateByte ctx b)"
proof -
  from assms obtain a r q where m: "m = a @ r" and la: "length a = 64 * q" and lr: "length r < 64"
    and st: "state ctx = sha_blocks sha_iv a" and bl: "bitlen ctx = word_of_nat (512 * q)"
    and dl: "datalen ctx = length r" and ld: "length (data ctx) = 64"
    and td: "take (length r) (data ctx) = r" by (rule ctx_holdsE)
  let ?d = "(data ctx)[length r := b]"
  have tk: "take (Suc (length r)) ?d = r @ [b]"
    using lr ld td by (simp add: take_Suc_update)
  show ?thesis
  proof (cases "length r = 63")
    case True
    with tk ld have d: "?d = r @ [b]" by simp
    have "sha_blocks sha_iv (a @ (r @ [b]) @ []) = sha_compress (state ctx) (r @ [b])"
      using True la by (simp only: sha_blocks_append [of a] sha_blocks_one st)
        (simp add: sha_blocks_append sha_blocks_one [of "r @ [b]" _ "[]", simplified] sha_blocks_short)
    moreover have "Sha256UpdateByte ctx b = ctx\<lparr>data := r @ [b], datalen := 0,
        bitlen := bitlen ctx + 512, state := sha_compress (state ctx) (r @ [b])\<rparr>"
      using True d by (simp add: Sha256UpdateByte_def Let_def dl Sha256Transform_def)
    ultimately show ?thesis
      unfolding ctx_holds_def using True la m bl
      by (intro exI [of _ "a @ r @ [b]"] exI [of _ "[]"] exI [of _ "Suc q"]) (simp add: algebra_simps)
  next
    case False
    then have "Sha256UpdateByte ctx b = ctx\<lparr>data := ?d, datalen := Suc (length r)\<rparr>"
      using lr by (simp add: Sha256UpdateByte_def Let_def dl)
    with False show ?thesis
      unfolding ctx_holds_def using la m bl lr st ld tk
      by (intro exI [of _ a] exI [of _ "r @ [b]"] exI [of _ q]) simp
  qed
qed

lemma ctx_holds_update: "ctx_holds m ctx \<Longrightarrow> ctx_holds (m @ bs) (Sha256Update ctx bs)"
  unfolding Sha256Update_def
proof (induction bs arbitrary: m ctx)
  case (Cons b bs)
  from Cons.IH [OF ctx_holds_byte [OF Cons.prems]] show ?case by simp
qed simp

lemma length_be64 [simp]: "length (be64 w) = 8"
  by (simp add: be64_def)

lemma sha_blocks_last: "length bs = 64 \<Longrightarrow> sha_blocks st bs = sha_compress st bs"
  using sha_blocks_one [of bs st "[]"] by (simp add: sha_blocks_short)

lemma Sha256Final_spec:
  assumes "ctx_holds m ctx"
  shows "Sha256Final ctx = sha256_spec m"
proof -
  from assms obtain a r q where m: "m = a @ r" and la: "length a = 64 * q" and lr: "length r < 64"
    and st: "state ctx = sha_blocks sha_iv a" and bl: "bitlen ctx = word_of_nat (512 * q)"
    and dl: "datalen ctx = length r" and ld: "length (data ctx) = 64"
    and td: "take (length r) (data ctx) = r" by (rule ctx_holdsE)
  define L where "L = be64 (word_of_nat (8 * length m))"
  have bits: "bitlen ctx + word_of_nat (length r * 8) = word_of_nat (8 * length m)"
    unfolding bl of_nat_add [symmetric] by (simp add: m la algebra_simps)
  have dvd: "64 dvd length a" by (simp add: la)
  have mm: "length m mod 64 = length r" using m la lr by simp
  have t1: "take (Suc (length r)) ((data ctx)[length r := 0x80]) = r @ [0x80]"
    using lr ld td by (simp add: take_Suc_update)
  have lL: "length L = 8" by (simp add: L_def)
  show ?thesis
  proof (cases "length r < 56")
    case True
    define blk where "blk = r @ [0x80] @ zeros (55 - length r) @ L"
    have lb: "length blk = 64" using True lL by (simp add: blk_def)
    have "119 - length r = (55 - length r) + 64" using True by simp
    then have "(119 - length r) mod 64 = 55 - length r"
      by (simp only: mod_add_self2) simp
    then have "sha_pad m = a @ blk" unfolding sha_pad_def mm blk_def L_def by (simp add: m)
    then have spec: "sha256_spec m = hash_bytes (sha_compress (state ctx) blk)"
      by (simp add: sha256_spec_def sha_blocks_append [OF dvd] sha_blocks_last lb st)
    have "take 56 (fill_zero (Suc (length r)) 56 ((data ctx)[length r := 0x80])) @ L = blk"
      using True t1 Suc_diff_le [of "length r" 55] by (simp add: fill_zero_def blk_def)
    with True show ?thesis
      by (simp add: spec Sha256Final_def Let_def dl Sha256Transform_def bits [simplified] L_def)
  next
    case False
    define b1 where "b1 = r @ [0x80] @ zeros (63 - length r)"
    define b2 where "b2 = zeros 56 @ L"
    have l1: "length b1 = 64" and l2: "length b2 = 64" using lr lL by (simp_all add: b1_def b2_def)
    have k: "(119 - length r) mod 64 = (63 - length r) + 56" using False lr by simp
    have "sha_pad m = a @ b1 @ b2"
      unfolding sha_pad_def mm k zeros_add b1_def b2_def L_def by (simp only: m append_assoc)
    then have spec: "sha256_spec m = hash_bytes (sha_compress (sha_compress (state ctx) b1) b2)"
      by (simp add: sha256_spec_def sha_blocks_append [OF dvd] sha_blocks_one l1 sha_blocks_last l2 st)
    have d1: "fill_zero (Suc (length r)) 64 ((data ctx)[length r := 0x80]) = b1"
      using t1 ld by (simp add: fill_zero_def b1_def)
    have "take 56 (fill_zero 0 56 b1) @ L = b2"
      by (simp add: fill_zero_def b2_def)
    with False show ?thesis
      by (simp add: spec Sha256Final_def Let_def dl Sha256Transform_def d1 bits [simplified] L_def)
  qed
qed

lemma Sha256Core_spec:
  assumes "length (data stack) = 64"
  shows "Sha256Core stack bs = sha256_spec bs"
  using Sha256Final_spec [OF ctx_holds_update [OF ctx_holds_init [OF assms]]]
  by (simp add: Sha256Core_def)

lemma Sha256Standard_spec: "Sha256Standard bs = sha256_spec bs"
  by (simp add: Sha256Standard_def Sha256Core_spec stack_ctx_def)

lemma Sha256Legacy_eq: "Sha256Legacy bs = Sha256Standard bs"
  by (simp add: Sha256Legacy_def Sha256Standard_def)

lemma length_hash_bytes [simp]: "length (hash_bytes st) = 32"
  by (simp add: hash_bytes_def length_concat comp_def upt_rec)

lemma length_sha256 [simp]: "length (Sha256Standard bs) = 32" "length (Sha256Legacy bs) = 32"
  by (simp_all add: Sha256Legacy_eq Sha256Standard_spec sha256_spec_def)

section \<open>HMAC and PBKDF2\<close>

definition xor_all :: "byte \<Rightarrow> bytes \<Rightarrow> bytes" where
  "xor_all v k = map (\<lambda>b. b XOR v) k"

text \<open>The key block: longer keys are hashed into the first 32 of 64 zeroed bytes.\<close>

definition hmac_key :: "bytes \<Rightarrow> bytes" where
  "hmac_key key =
     (if length key > 64 then Sha256Core stack_ctx key @ zeros 32
      else key @ zeros (64 - length key))"

definition HmacSha256Core :: "bytes \<Rightarrow> bytes \<Rightarrow> bytes" where
  "HmacSha256Core key msg =
     (let k = xor_all 0x36 (hmac_key key);
          inner = Sha256Final (Sha256Update (Sha256Update (Sha256Init stack_ctx) k) msg);
          k' = xor_all (0x36 XOR 0x5c) k
      in Sha256Final (Sha256Update (Sha256Update (Sha256Init stack_ctx) k') inner))"

definition HmacSha256Legacy :: "bytes \<Rightarrow> bytes \<Rightarrow> bytes" where
  "HmacSha256Legacy key msg =
     (let k = xor_all 0x36 (if length key > 64 then Sha256Core stack_ctx key @ zeros 32
                            else key @ zeros (64 - length key));
          inner = Sha256Final (Sha256Update (Sha256Update (Sha256Init stack_ctx) k) msg);
          k' = xor_all (0x36 XOR 0x5c) k
      in Sha256Final (Sha256Update (Sha256Update (Sha256Init stack_ctx) k') inner))"

text \<open>The iterated block: \<open>u\<close> is re-keyed in place and folded into \<open>t\<close>.\<close>

fun pbkdf2_iterate :: "(bytes \<Rightarrow> bytes) \<Rightarrow> nat \<Rightarrow> bytes \<Rightarrow> bytes \<Rightarrow> bytes" where
  "pbkdf2_iterate prf 0 u t = t"
| "pbkdf2_iterate prf (Suc n) u t =
     (let u' = prf u in pbkdf2_iterate prf n u' (map2 (\<lambda>x y. x XOR y) t u'))"

definition block_index_be :: "nat \<Rightarrow> bytes" where
  "block_index_be b = [word_of_nat (b div 2 ^ 24), word_of_nat (b div 2 ^ 16),
                       word_of_nat (b div 2 ^ 8), word_of_nat b]"

text \<open>
  The loop of \<open>Pbkdf2Sha256Core\<close> over the blocks; a salt that does not fit the 128-byte stack
  buffer makes it return with the rest of \<open>out\<close> untouched.
\<close>

fun pbkdf2_blocks :: "bytes \<Rightarrow> bytes \<Rightarrow> nat \<Rightarrow> nat \<Rightarrow> nat \<Rightarrow> nat \<Rightarrow> bytes \<Rightarrow> bytes" where
  "pbkdf2_blocks pw salt iters dk_len block 0 out = out"
| "pbkdf2_blocks pw salt iters dk_len block (Suc n) out =
     (if length salt + 4 > 128 then out
      else let u = HmacSha256Core pw (salt @ block_index_be block);
               t = pbkdf2_iterate (HmacSha256Core pw) (iters - 1) u u;
               offset = (block - 1) * 32;
               copy_len = (if offset + 32 \<le> dk_len then 32 else dk_len - offset)
           in pbkdf2_blocks pw salt iters dk_len (block + 1) n
                (take offset out @ take copy_len t @ drop (offset + copy_len) out))"

definition Pbkdf2Sha256Core :: "bytes \<Rightarrow> bytes \<Rightarrow> nat \<Rightarrow> nat \<Rightarrow> bytes \<Rightarrow> bytes" where
  "Pbkdf2Sha256Core pw salt iters dk_len out =
     pbkdf2_blocks pw salt iters dk_len 1 ((dk_len + 31) div 32) out"

definition Pbkdf2Sha256Standard :: "bytes \<Rightarrow> bytes \<Rightarrow> nat \<Rightarrow> bytes \<Rightarrow> bytes" where
  "Pbkdf2Sha256Standard pw salt iters out = Pbkdf2Sha256Core pw salt iters 32 out"

text \<open>
  The legacy variant copies the salt into a 36-byte stack buffer without a check: a salt of more
  than 32 bytes writes past it, which the model reports as \<open>None\<close> (undefined behaviour).
\<close>

definition Pbkdf2Sha256Legacy :: "bytes \<Rightarrow> bytes \<Rightarrow> nat \<Rightarrow> bytes option" where
  "Pbkdf2Sha256Legacy pw salt iters =
     (if length salt + 4 > 36 then None
      else let u = HmacSha256Legacy pw (salt @ [0, 0, 0, 1])
           in Some (pbkdf2_iterate (HmacSha256Legacy pw) (iters - 1) u u))"

definition hmac_spec :: "bytes \<Rightarrow> bytes \<Rightarrow> bytes" where
  "hmac_spec key msg =
     (let k = (if length key > 64 then sha256_spec key @ zeros 32 else key @ zeros (64 - length key))
      in sha256_spec (xor_all 0x5c k @ sha256_spec (xor_all 0x36 k @ msg)))"

lemma stack_ctx_data [simp]: "length (data stack_ctx) = 64"
  by (simp add: stack_ctx_def)

lemma Sha256_two_updates:
  "Sha256Final (Sha256Update (Sha256Update (Sha256Init stack_ctx) x) y) = sha256_spec (x @ y)"
  using Sha256Final_spec [OF ctx_holds_update [OF ctx_holds_update [OF ctx_holds_init
        [OF stack_ctx_data]]]] by simp

lemma xor_all_twice: "xor_all (0x36 XOR 0x5c) (xor_all 0x36 k) = xor_all 0x5c k"
  by (simp add: xor_all_def xor.assoc)

lemma HmacSha256Core_spec: "HmacSha256Core key msg = hmac_spec key msg"
  by (simp only: HmacSha256Core_def Let_def Sha256_two_updates xor_all_twice hmac_spec_def
      hmac_key_def Sha256Core_spec [OF stack_ctx_data])

lemma HmacSha256Legacy_eq: "HmacSha256Legacy key msg = HmacSha256Core key msg"
  by (simp add: HmacSha256Legacy_def HmacSha256Core_def hmac_key_def)

lemma length_hmac [simp]: "length (HmacSha256Core key msg) = 32"
  by (simp add: HmacSha256Core_spec hmac_spec_def Let_def sha256_spec_def)

lemma length_pbkdf2_iterate:
  "(\<And>u. length (prf u) = l) \<Longrightarrow> length t = l \<Longrightarrow> length (pbkdf2_iterate prf n u t) = l"
  by (induction n arbitrary: u t) (simp_all add: Let_def)

lemma Pbkdf2_variants_agree:
  assumes "length salt \<le> 32" and "length out = 32"
  shows "Pbkdf2Sha256Legacy pw salt iters = Some (Pbkdf2Sha256Standard pw salt iters out)"
proof -
  have eq: "HmacSha256Legacy pw = HmacSha256Core pw"
    by (rule ext) (rule HmacSha256Legacy_eq)
  have "length (pbkdf2_iterate (HmacSha256Core pw) n u (HmacSha256Core pw v)) = 32" for n u v
    by (rule length_pbkdf2_iterate) simp_all
  then have len: "length (pbkdf2_iterate (HmacSha256Core pw) (iters - 1)
      (HmacSha256Core pw v) (HmacSha256Core pw v)) = 32" for v .
  have one: "(32 + 31) div 32 = Suc 0" by simp
  have idx: "block_index_be 1 = [0, 0, 0, 1]" by (simp add: block_index_be_def)
  show ?thesis
    using assms len
    by (simp only: Pbkdf2Sha256Legacy_def Pbkdf2Sha256Standard_def Pbkdf2Sha256Core_def eq one
        pbkdf2_blocks.simps idx Let_def) simp
qed

section \<open>Algorithm dispatch and hexadecimal strings (common/digest.cc)\<close>

datatype DigestAlgo = kLegacy | kStandard

text \<open>
  \<open>Sha256ShaNi\<close> is the hardware path of the same function (intrinsics); the portable routine
  stands for both.
\<close>

definition ContentHash :: "DigestAlgo \<Rightarrow> bytes \<Rightarrow> bytes" where
  "ContentHash algo bs = (if algo = kStandard then Sha256Standard bs else Sha256Legacy bs)"

text \<open>\<open>None\<close> is the overflow of the stack buffer in the legacy variant.\<close>

definition Pbkdf2Sha256 :: "DigestAlgo \<Rightarrow> bytes \<Rightarrow> bytes \<Rightarrow> nat \<Rightarrow> bytes \<Rightarrow> bytes option" where
  "Pbkdf2Sha256 algo pw salt iters out =
     (if algo = kStandard then Some (Pbkdf2Sha256Standard pw salt iters out) else Pbkdf2Sha256Legacy pw salt iters)"

lemma length_Pbkdf2Sha256Standard:
  assumes "length salt \<le> 32" and "length out = 32"
  shows "length (Pbkdf2Sha256Standard pw salt iters out) = 32"
proof -
  have "length (pbkdf2_iterate (HmacSha256Legacy pw) n (HmacSha256Legacy pw v) (HmacSha256Legacy pw v)) = 32" for n v
    by (rule length_pbkdf2_iterate) (simp_all add: HmacSha256Legacy_eq)
  then show ?thesis
    using Pbkdf2_variants_agree [OF assms, of pw iters] assms(1) by (simp add: Pbkdf2Sha256Legacy_def Let_def del: One_nat_def) (metis One_nat_def)
qed

definition HmacSha256 :: "DigestAlgo \<Rightarrow> bytes \<Rightarrow> bytes \<Rightarrow> bytes" where
  "HmacSha256 algo key msg = (if algo = kStandard then HmacSha256Core key msg else HmacSha256Legacy key msg)"

lemma Pbkdf2Sha256_algo:
  "length salt \<le> 32 \<Longrightarrow> length out = 32 \<Longrightarrow>
     Pbkdf2Sha256 algo pw salt iters out = Some (Pbkdf2Sha256Standard pw salt iters out)"
  using Pbkdf2_variants_agree by (simp add: Pbkdf2Sha256_def)

definition kHex :: string where
  "kHex = ''0123456789abcdef''"

definition BytesToHex :: "bytes \<Rightarrow> string" where
  "BytesToHex bs = concat (map (\<lambda>b. [kHex ! unat (drop_bit 4 b AND 0xF), kHex ! unat (b AND 0xF)]) bs)"

definition nibble :: "char \<Rightarrow> int" where
  "nibble c =
     (let n = int (of_char c) in
      if 48 \<le> n \<and> n \<le> 57 then n - 48
      else if 97 \<le> n \<and> n \<le> 102 then n - 97 + 10
      else if 65 \<le> n \<and> n \<le> 70 then n - 65 + 10
      else - 1)"

fun hex_pairs :: "string \<Rightarrow> bytes option" where
  "hex_pairs [] = Some []"
| "hex_pairs [c] = None"
| "hex_pairs (h # l # cs) =
     (if nibble h < 0 \<or> nibble l < 0 then None
      else map_option (Cons (word_of_int (nibble h * 16 + nibble l))) (hex_pairs cs))"

definition HexToBytes :: "string \<Rightarrow> nat \<Rightarrow> bytes option" where
  "HexToBytes hex out_len = (if length hex \<noteq> out_len * 2 then None else hex_pairs hex)"

definition Sha256Hex :: "bytes \<Rightarrow> string" where
  "Sha256Hex bs = BytesToHex (ContentHash kLegacy bs)"

definition string_bytes :: "string \<Rightarrow> bytes" where
  "string_bytes s = map of_char s"

definition Sha256HexString :: "string \<Rightarrow> string" where
  "Sha256HexString s = Sha256Hex (string_bytes s)"

lemma length_BytesToHex [simp]: "length (BytesToHex bs) = 2 * length bs"
  by (induction bs) (simp_all add: BytesToHex_def)

lemma nibble_kHex:
  assumes "n < 16"
  shows "nibble (kHex ! n) = int n"
proof -
  have "\<forall>n \<in> set [0..<16]. nibble (kHex ! n) = int n" by code_simp
  with assms show ?thesis by simp
qed

lemma unat_low_nibble: "unat (b AND 0xF) = unat b mod 16" for b :: byte
proof -
  have "b AND 0xF = take_bit 4 b" by (simp add: take_bit_eq_mask mask_eq_exp_minus_1)
  then show ?thesis by (simp add: take_bit_eq_mod unat_mod)
qed

lemma unat_high_nibble: "unat (drop_bit 4 b AND 0xF) = unat b div 16" for b :: byte
proof -
  have "unat b < 256" using unsigned_less [of b] by simp
  then have "unat b div 16 < 16" by simp
  then show ?thesis
    by (simp add: unat_low_nibble drop_bit_eq_div unat_div)
qed

lemma set_BytesToHex: "set (BytesToHex bs) \<subseteq> set kHex"
proof -
  have "unat b div 16 < 16" "unat b mod 16 < 16" "length kHex = 16" for b :: byte
  proof -
    have "unat b < 256" using unsigned_less [of b] by simp
    then show "unat b div 16 < 16" "unat b mod 16 < 16" "length kHex = 16" by (simp_all add: kHex_def)
  qed
  then show ?thesis by (auto simp: BytesToHex_def unat_high_nibble unat_low_nibble)
qed

lemma hex_byte: "hex_pairs (BytesToHex [b] @ cs) = map_option (Cons b) (hex_pairs cs)"
proof -
  have lt: "unat b < 256" using unsigned_less [of b] by simp
  have "word_of_int (int n * 16 + int m) = (word_of_nat (n * 16 + m) :: byte)" for n m
    by simp
  then have "word_of_int (int (unat b div 16) * 16 + int (unat b mod 16)) = b"
    by (simp only: div_mult_mod_eq of_nat_unat ucast_id)
  with lt show ?thesis
    unfolding BytesToHex_def list.map unat_high_nibble
    by (simp add: unat_low_nibble nibble_kHex)
qed

lemma BytesToHex_Cons: "BytesToHex (b # bs) = BytesToHex [b] @ BytesToHex bs"
  by (simp add: BytesToHex_def)

lemma hex_pairs_BytesToHex: "hex_pairs (BytesToHex bs) = Some bs"
proof (induction bs)
  case Nil
  show ?case by (simp add: BytesToHex_def)
next
  case (Cons b bs)
  show ?case by (simp only: BytesToHex_Cons [of b bs] hex_byte Cons.IH) simp
qed

lemma HexToBytes_BytesToHex [codec_simps]: "HexToBytes (BytesToHex bs) (length bs) = Some bs"
  by (simp add: HexToBytes_def hex_pairs_BytesToHex mult.commute)

lemma BytesToHex_inj: "BytesToHex a = BytesToHex b \<Longrightarrow> a = b"
  by (metis hex_pairs_BytesToHex option.inject)

lemma HexToBytes_length: "HexToBytes hex n = Some bs \<Longrightarrow> length bs = n"
proof -
  have "hex_pairs cs = Some bs \<Longrightarrow> length cs = 2 * length bs" for cs bs
    by (induction cs arbitrary: bs rule: hex_pairs.induct) (auto split: if_splits)
  then show "HexToBytes hex n = Some bs \<Longrightarrow> length bs = n"
    by (fastforce simp: HexToBytes_def split: if_splits)
qed

lemma char_of_byte: "char_of (unat (of_char c :: byte)) = c"
proof -
  have "unat (word_of_nat (of_char c) :: byte) = (of_char c :: nat)" by (simp add: unat_of_nat)
  then have "unat (of_char c :: byte) = (of_char c :: nat)" by (simp only: of_nat_of_char)
  then show ?thesis by simp
qed

lemma string_until_zero:
  assumes "CHR 0x00 \<notin> set name"
  shows "takeWhile (\<lambda>b. b \<noteq> 0) (string_bytes name @ zeros (Suc k)) = string_bytes name"
proof -
  have "b \<noteq> 0" if "b \<in> set (string_bytes name)" for b
  proof
    assume "b = 0"
    with that obtain c where c: "c \<in> set name" "of_char c = (0 :: byte)" unfolding string_bytes_def set_map by auto
    then have "c = char_of (0 :: nat)" using char_of_byte [of c] by simp
    then have "c = CHR 0x00" by (simp add: char_of_def)
    then show False using c(1) assms by simp
  qed
  then show ?thesis unfolding zeros_def replicate_Suc by (subst takeWhile_append2) simp_all
qed

lemma length_ContentHash [simp]: "length (ContentHash algo bs) = 32"
  by (simp add: ContentHash_def)

section \<open>What the digest layer promises\<close>

text \<open>
  C26. The streaming implementation (a context with a 64-byte buffer, fed byte by byte and finished
  with one or two padded blocks) computes SHA-256 of the whole message, on every length, in both the
  standard and the legacy variant; and the keyed hash built on it is HMAC-SHA-256.
\<close>

theorem sha256_and_hmac_functional:
  "Sha256Standard bs = sha256_spec bs \<and> Sha256Legacy bs = sha256_spec bs \<and>
   HmacSha256Core key msg = hmac_spec key msg \<and> HmacSha256Legacy key msg = hmac_spec key msg"
  by (simp add: Sha256Legacy_eq Sha256Standard_spec HmacSha256Legacy_eq HmacSha256Core_spec)

text \<open>
  For a salt of at most 32 bytes the legacy and the standard key derivation give the same 32-byte
  key, so a repository encrypted by one can be read by the other; for a longer salt the legacy
  variant writes past its buffer, and from 125 bytes on the standard one silently leaves the caller's
  output as it was.
\<close>

theorem pbkdf2_variants:
  assumes "length out = 32"
  shows "Pbkdf2Sha256Legacy pw salt iters =
      (if length salt \<le> 32 then Some (Pbkdf2Sha256Standard pw salt iters out) else None) \<and>
    (124 < length salt \<longrightarrow> Pbkdf2Sha256Standard pw salt iters out = out)"
proof -
  have "Pbkdf2Sha256Standard pw salt iters out = out" if "124 < length salt"
    using that assms by (simp add: Pbkdf2Sha256Standard_def Pbkdf2Sha256Core_def)
  then show ?thesis
    using Pbkdf2_variants_agree [OF _ assms, of salt pw iters] by (simp add: Pbkdf2Sha256Legacy_def)
qed

theorem pbkdf2_variants_witness:
  "Pbkdf2Sha256Legacy [0x70] (replicate 125 1) 1 = None \<and>
   Pbkdf2Sha256Standard [0x70] (replicate 125 1) 1 (replicate 32 0) = replicate 32 0"
  using pbkdf2_variants [of "replicate 32 0" "[0x70]" "replicate 125 1" 1] by simp

text \<open>
  Printing bytes as lower-case hexadecimal and parsing them back gives the same bytes; parsing
  with a count accepts only texts of twice that many characters.
\<close>

theorem hex_roundtrip:
  "HexToBytes (BytesToHex bs) n = (if n = length bs then Some bs else None)"
  by (simp add: HexToBytes_def hex_pairs_BytesToHex mult.commute)

end
