(* ===== verification/Merkle.thy ===== *)
theory Merkle
  imports Digest RepoFormat "HOL-Library.Char_ord" "HOL-Library.List_Lexorder"
begin

text \<open>
  The Merkle tree over the chunk hashes of a snapshot (\<open>audit/merkle.cc\<close>), its inclusion proofs
  (\<open>audit/merkle_proof.cc\<close>) and the check of restored files against it. Proofs of every leaf verify;
  a proof that verifies for another leaf at the same position hands over a collision of the hash
  function, computed by \<open>proof_collision\<close>.
\<close>

section \<open>The tree (audit/merkle.cc)\<close>

definition HashPair :: "DigestAlgo \<Rightarrow> bytes \<Rightarrow> bytes \<Rightarrow> bytes" where
  "HashPair algo left right = ContentHash algo (take 32 left @ take 32 right)"

definition BuildLeavesFromFiles :: "ManifestFileEntry list \<Rightarrow> string list" where
  "BuildLeavesFromFiles fs = concat (map chunk_hashes_hex (sort_key relative_path fs))"

definition BuildLeaves :: "ManifestDocument \<Rightarrow> string list" where
  "BuildLeaves doc = concat (map chunk_hashes_hex (sort_key relative_path (doc_files doc)))"

text \<open>One pass over a level: an odd last node is paired with itself.\<close>

fun merkle_level :: "DigestAlgo \<Rightarrow> bytes list \<Rightarrow> bytes list" where
  "merkle_level algo [] = []"
| "merkle_level algo [x] = [HashPair algo x x]"
| "merkle_level algo (x # y # r) = HashPair algo x y # merkle_level algo r"

lemma length_merkle_level [simp]: "length (merkle_level algo xs) = (length xs + 1) div 2"
  by (induction algo xs rule: merkle_level.induct) simp_all

function merkle_reduce :: "DigestAlgo \<Rightarrow> bytes list \<Rightarrow> bytes list" where
  "merkle_reduce algo level =
     (if length level > 1 then merkle_reduce algo (merkle_level algo level) else level)"
  by auto
termination by (relation "measure (\<lambda>(algo, level). length level)") auto

declare merkle_reduce.simps [simp del]

definition MerkleFromLeafBytes :: "DigestAlgo \<Rightarrow> bytes list \<Rightarrow> bytes" where
  "MerkleFromLeafBytes algo leaves =
     (if leaves = [] then zeros 32 else take 32 (hd (merkle_reduce algo leaves)))"

fun HexLeavesToBytes :: "string list \<Rightarrow> Status + bytes list" where
  "HexLeavesToBytes [] = Inr []"
| "HexLeavesToBytes (hex # r) =
     (if length hex \<noteq> 64 then Inl (Corrupt ''invalid leaf hash length'')
      else case HexToBytes hex 32 of
             None \<Rightarrow> Inl (Corrupt ''invalid leaf hash hex'')
           | Some h \<Rightarrow> (case HexLeavesToBytes r of Inl e \<Rightarrow> Inl e | Inr hs \<Rightarrow> Inr (h # hs)))"

definition ComputeMerkleRootFromHashes :: "string list \<Rightarrow> DigestAlgo \<Rightarrow> Status + bytes" where
  "ComputeMerkleRootFromHashes leaf_hex algo =
     (case HexLeavesToBytes leaf_hex of
        Inl e \<Rightarrow> Inl e
      | Inr leaves \<Rightarrow> Inr (MerkleFromLeafBytes algo leaves))"

definition ComputeMerkleRoot :: "ManifestDocument \<Rightarrow> DigestAlgo \<Rightarrow> Status + bytes" where
  "ComputeMerkleRoot doc algo = ComputeMerkleRootFromHashes (BuildLeaves doc) algo"

definition ComputeMerkleRootForFiles :: "ManifestFileEntry list \<Rightarrow> DigestAlgo \<Rightarrow> Status + bytes" where
  "ComputeMerkleRootForFiles fs algo = ComputeMerkleRootFromHashes (BuildLeavesFromFiles fs) algo"

text \<open>
  The check of a restored file reads it chunk by chunk; \<open>get\<close> is the chunk store's \<open>Get\<close>. The
  state is the unread rest of the file and the number of bytes read so far.
\<close>

fun verify_chunks ::
  "DigestAlgo \<Rightarrow> (bytes \<Rightarrow> Status + bytes) \<Rightarrow> string list \<Rightarrow> bytes \<Rightarrow> nat \<Rightarrow> Status + nat" where
  "verify_chunks algo get [] rest off = Inr off"
| "verify_chunks algo get (hex # r) rest off =
     (if length hex \<noteq> 64 then Inl (Corrupt ''invalid chunk hash length'')
      else case HexToBytes hex 32 of
             None \<Rightarrow> Inl (Corrupt ''invalid chunk hash hex'')
           | Some expected \<Rightarrow>
               (case get expected of
                  Inl e \<Rightarrow> Inl e
                | Inr payload \<Rightarrow>
                    let n = length payload; segment = take n rest in
                    if length segment \<noteq> n
                    then Inl (Corrupt ''restored file shorter than manifest chunks'')
                    else if ContentHash algo segment \<noteq> expected
                    then Inl (Corrupt ''restored chunk hash mismatch'')
                    else verify_chunks algo get r (drop n rest) (off + n)))"

definition VerifyRestoredFileChunks ::
  "DigestAlgo \<Rightarrow> (bytes \<Rightarrow> Status + bytes) \<Rightarrow> bytes option \<Rightarrow> string \<Rightarrow> ManifestFileEntry \<Rightarrow> Status" where
  "VerifyRestoredFileChunks algo get file path f =
     (case file of
        None \<Rightarrow> IoError (''cannot read restored file: '' @ path)
      | Some bs \<Rightarrow>
          (case verify_chunks algo get (chunk_hashes_hex f) bs 0 of
             Inl e \<Rightarrow> e
           | Inr off \<Rightarrow> if word_of_nat off \<noteq> file_size f
                        then Corrupt ''restored file size mismatch'' else Status_Ok))"

section \<open>Inclusion proofs (audit/merkle_proof.cc)\<close>

record MerkleProofStep =
  sibling_hex :: string
  is_right :: int

definition proof_step :: "bytes list \<Rightarrow> nat \<Rightarrow> MerkleProofStep" where
  "proof_step level index =
     (let sibling_index = (if index mod 2 = 0 then index + 1 else index - 1)
      in if sibling_index < length level
         then \<lparr>sibling_hex = BytesToHex (take 32 (level ! sibling_index)),
               is_right = (if index mod 2 = 0 then 1 else 0)\<rparr>
         else \<lparr>sibling_hex = BytesToHex (take 32 (level ! index)), is_right = 1\<rparr>)"

function proof_steps :: "DigestAlgo \<Rightarrow> bytes list \<Rightarrow> nat \<Rightarrow> MerkleProofStep list" where
  "proof_steps algo level index =
     (if length level > 1
      then proof_step level index # proof_steps algo (merkle_level algo level) (index div 2)
      else [])"
  by auto
termination by (relation "measure (\<lambda>(algo, level, index). length level)") auto

declare proof_steps.simps [simp del]

definition GenerateMerkleProof ::
  "string list \<Rightarrow> nat \<Rightarrow> DigestAlgo \<Rightarrow> Status + MerkleProofStep list" where
  "GenerateMerkleProof leaf_hex leaf_index algo =
     (if leaf_hex = [] then Inl (InvalidArgument ''empty leaves'')
      else if leaf_index \<ge> length leaf_hex then Inl (InvalidArgument ''leaf_index out of range'')
      else case HexLeavesToBytes leaf_hex of
             Inl e \<Rightarrow> Inl e
           | Inr level \<Rightarrow> Inr (proof_steps algo level leaf_index))"

definition combine :: "DigestAlgo \<Rightarrow> int \<Rightarrow> bytes \<Rightarrow> bytes \<Rightarrow> bytes" where
  "combine algo right current sibling =
     (if right \<noteq> 0 then HashPair algo current sibling else HashPair algo sibling current)"

fun fold_proof :: "DigestAlgo \<Rightarrow> MerkleProofStep list \<Rightarrow> bytes \<Rightarrow> Status + bytes" where
  "fold_proof algo [] current = Inr current"
| "fold_proof algo (s # r) current =
     (if length (sibling_hex s) \<noteq> 64 then Inl (Corrupt ''invalid proof sibling'')
      else case HexToBytes (sibling_hex s) 32 of
             None \<Rightarrow> Inl (Corrupt ''invalid proof sibling hex'')
           | Some sibling \<Rightarrow> fold_proof algo r (combine algo (is_right s) current sibling))"

definition VerifyMerkleProof ::
  "string \<Rightarrow> string \<Rightarrow> MerkleProofStep list \<Rightarrow> DigestAlgo \<Rightarrow> Status" where
  "VerifyMerkleProof leaf_hex root_hex proof algo =
     (if length leaf_hex \<noteq> 64 \<or> length root_hex \<noteq> 64
      then InvalidArgument ''invalid hash hex length''
      else case HexToBytes leaf_hex 32 of
             None \<Rightarrow> Corrupt ''invalid leaf hex''
           | Some leaf \<Rightarrow>
               (case fold_proof algo proof leaf of
                  Inl e \<Rightarrow> e
                | Inr current \<Rightarrow>
                    (case HexToBytes root_hex 32 of
                       None \<Rightarrow> Corrupt ''invalid root hex''
                     | Some expected \<Rightarrow>
                         if current \<noteq> expected then Corrupt ''merkle proof verification failed''
                         else Status_Ok)))"

section \<open>Lemmas\<close>

lemma length_HashPair [simp]: "length (HashPair algo l r) = 32"
  by (simp add: HashPair_def)

lemma merkle_level_nth:
  "i < length xs \<Longrightarrow> merkle_level algo xs ! (i div 2) =
     HashPair algo (xs ! (2 * (i div 2)))
       (if 2 * (i div 2) + 1 < length xs then xs ! (2 * (i div 2) + 1) else xs ! (2 * (i div 2)))"
proof (induction algo xs arbitrary: i rule: merkle_level.induct)
  case (3 algo x y r)
  show ?case
  proof (cases "i < 2")
    case True
    then have "i div 2 = 0" by simp
    then show ?thesis by simp
  next
    case False
    then obtain j where j: "i = Suc (Suc j)" by (metis add_2_eq_Suc le_Suc_ex not_less)
    then have "j < length r" using 3 by simp
    from 3(1) [OF this] j show ?thesis by simp
  qed
qed simp_all

lemma merkle_level_length32: "\<forall>x \<in> set (merkle_level algo xs). length x = 32"
  by (induction algo xs rule: merkle_level.induct) simp_all

lemma HexLeavesToBytes_length:
  "HexLeavesToBytes hs = Inr bs \<Longrightarrow> length bs = length hs \<and> (\<forall>b \<in> set bs. length b = 32) \<and>
     (\<forall>i < length hs. length (hs ! i) = 64 \<and> HexToBytes (hs ! i) 32 = Some (bs ! i))"
  by (induction hs arbitrary: bs)
    (auto split: if_splits option.splits sum.splits dest: HexToBytes_length simp: nth_Cons split: nat.splits)

lemma combine_proof_step:
  assumes "i < length level" and "length level > 1" and "\<forall>x \<in> set level. length x = 32"
  shows "\<exists>sib. HexToBytes (sibling_hex (proof_step level i)) 32 = Some sib \<and>
    length (sibling_hex (proof_step level i)) = 64 \<and>
    combine algo (is_right (proof_step level i)) (level ! i) sib = merkle_level algo level ! (i div 2)"
proof -
  let ?j = "if i mod 2 = 0 then i + 1 else i - 1"
  have len: "j < length level \<Longrightarrow> length (level ! j) = 32" for j using assms(3) by simp
  have hex: "HexToBytes (BytesToHex (take 32 (level ! j))) 32 = Some (level ! j)"
    if "j < length level" for j
    using HexToBytes_BytesToHex [of "level ! j"] len [OF that] by simp
  consider (even) "i mod 2 = 0" "2 * (i div 2) = i" | (odd) "i mod 2 = 1" "2 * (i div 2) = i - 1" "i \<ge> 1"
    by (cases "even i") (auto elim!: evenE oddE)
  then show ?thesis
  proof cases
    case even
    then show ?thesis
      using assms hex [of i] hex [of "i + 1"] len [of i] len [of "i + 1"] merkle_level_nth [OF assms(1), of algo]
      by (auto simp: proof_step_def Let_def combine_def)
  next
    case odd
    then show ?thesis
      using assms hex [of "i - 1"] len [of "i - 1"] merkle_level_nth [OF assms(1), of algo]
      by (auto simp: proof_step_def Let_def combine_def)
  qed
qed

lemma fold_proof_steps:
  assumes "i < length level" and "\<forall>x \<in> set level. length x = 32"
  shows "fold_proof algo (proof_steps algo level i) (level ! i) = Inr (hd (merkle_reduce algo level))"
  using assms
proof (induction algo level i rule: proof_steps.induct)
  case (1 algo level index)
  show ?case
  proof (cases "length level > 1")
    case False
    then have "length level = 1" "index = 0" using 1 by (auto simp: not_less)
    then show ?thesis
      by (subst proof_steps.simps, subst merkle_reduce.simps) (auto simp: length_Suc_conv)
  next
    case True
    have "index div 2 < length (merkle_level algo level)" using 1 by simp
    then have IH: "fold_proof algo (proof_steps algo (merkle_level algo level) (index div 2))
        (merkle_level algo level ! (index div 2)) = Inr (hd (merkle_reduce algo (merkle_level algo level)))"
      using 1 True merkle_level_length32 by blast
    obtain sib where "HexToBytes (sibling_hex (proof_step level index)) 32 = Some sib"
      "length (sibling_hex (proof_step level index)) = 64"
      "combine algo (is_right (proof_step level index)) (level ! index) sib = merkle_level algo level ! (index div 2)"
      using combine_proof_step [OF "1.prems"(1) True "1.prems"(2)] by blast
    with IH True show ?thesis
      by (subst proof_steps.simps, subst merkle_reduce.simps) simp
  qed
qed

lemma length_root: "\<forall>x \<in> set level. length x = 32 \<Longrightarrow> level \<noteq> [] \<Longrightarrow>
  length (hd (merkle_reduce algo level)) = 32"
proof (induction algo level rule: merkle_reduce.induct)
  case (1 algo level)
  show ?case
  proof (cases "length level > 1")
    case True
    then have ne: "merkle_level algo level \<noteq> []"
      by (cases "(algo, level)" rule: merkle_level.cases) auto
    show ?thesis using "1.IH" [OF True] ne merkle_level_length32 True by (subst merkle_reduce.simps) simp
  next
    case False
    with 1 show ?thesis by (subst merkle_reduce.simps) simp
  qed
qed

section \<open>Properties\<close>

text \<open>
  C25. Inclusion proofs are complete: for a list of valid leaf hashes, whatever its length, the proof
  generated for any of its positions is accepted for that leaf and the root of the list.
\<close>

theorem merkle_proof_complete:
  assumes "ComputeMerkleRootFromHashes leaves algo = Inr root" and "i < length leaves"
  shows "\<exists>proof. GenerateMerkleProof leaves i algo = Inr proof \<and>
    VerifyMerkleProof (leaves ! i) (BytesToHex root) proof algo = Status_Ok"
proof -
  obtain level where lv: "HexLeavesToBytes leaves = Inr level" and root: "root = MerkleFromLeafBytes algo level"
    using assms(1) by (auto simp: ComputeMerkleRootFromHashes_def split: sum.splits)
  note l = HexLeavesToBytes_length [OF lv]
  have ne: "level \<noteq> []" "leaves \<noteq> []" using l assms(2) by auto
  have r: "root = hd (merkle_reduce algo level)" "length root = 32"
    using ne l length_root [of level algo] by (simp_all add: root MerkleFromLeafBytes_def)
  have "fold_proof algo (proof_steps algo level i) (level ! i) = Inr root"
    using fold_proof_steps [of i level algo] l assms(2) r(1) by simp
  moreover have "HexToBytes (BytesToHex root) 32 = Some root"
    using HexToBytes_BytesToHex [of root] r(2) by simp
  ultimately have "VerifyMerkleProof (leaves ! i) (BytesToHex root) (proof_steps algo level i) algo = Status_Ok"
    using l assms(2) r(2) by (simp add: VerifyMerkleProof_def)
  moreover have "GenerateMerkleProof leaves i algo = Inr (proof_steps algo level i)"
    using ne assms(2) lv by (simp add: GenerateMerkleProof_def)
  ultimately show ?thesis by blast
qed

lemma HexLeavesToBytes_BytesToHex:
  "\<forall>b \<in> set bs. length b = 32 \<Longrightarrow> HexLeavesToBytes (map BytesToHex bs) = Inr bs"
proof (induction bs)
  case (Cons b bs)
  then have "HexToBytes (BytesToHex b) 32 = Some b" using HexToBytes_BytesToHex [of b] by simp
  with Cons show ?case by simp
qed simp

definition sample_leaves :: "string list" where
  "sample_leaves = map BytesToHex [zeros 32, replicate 32 1, replicate 32 2]"

theorem merkle_proof_complete_witness:
  "\<exists>root proof. ComputeMerkleRootFromHashes sample_leaves kStandard = Inr root \<and>
     GenerateMerkleProof sample_leaves 2 kStandard = Inr proof \<and>
     VerifyMerkleProof (sample_leaves ! 2) (BytesToHex root) proof kStandard = Status_Ok"
proof -
  have "HexLeavesToBytes sample_leaves = Inr [zeros 32, replicate 32 1, replicate 32 2]"
    unfolding sample_leaves_def by (rule HexLeavesToBytes_BytesToHex) simp
  then obtain root where r: "ComputeMerkleRootFromHashes sample_leaves kStandard = Inr root"
    by (simp add: ComputeMerkleRootFromHashes_def)
  have "2 < length sample_leaves" by (simp add: sample_leaves_def)
  from merkle_proof_complete [OF r this] r show ?thesis by blast
qed

text \<open>The collision a forged proof hands over: the first step where the hashed blocks differ.\<close>

fun proof_collision ::
  "DigestAlgo \<Rightarrow> MerkleProofStep list \<Rightarrow> bytes \<Rightarrow> MerkleProofStep list \<Rightarrow> bytes \<Rightarrow> (bytes \<times> bytes) option" where
  "proof_collision algo (s # r) c (s' # r') c' =
     (let sib = the (HexToBytes (sibling_hex s) 32); sib' = the (HexToBytes (sibling_hex s') 32);
          b = (if is_right s \<noteq> 0 then c @ sib else sib @ c);
          b' = (if is_right s' \<noteq> 0 then c' @ sib' else sib' @ c')
      in if b \<noteq> b' \<and> ContentHash algo b = ContentHash algo b' then Some (b, b')
         else proof_collision algo r (ContentHash algo b) r' (ContentHash algo b'))"
| "proof_collision algo _ _ _ _ = None"

lemma fold_proof_collision:
  assumes "map (\<lambda>s. is_right s \<noteq> 0) p = map (\<lambda>s. is_right s \<noteq> 0) p'"
    and "fold_proof algo p c = Inr root" and "fold_proof algo p' c' = Inr root"
    and "length c = 32" and "length c' = 32" and "c \<noteq> c'"
  shows "\<exists>x y. proof_collision algo p c p' c' = Some (x, y) \<and> x \<noteq> y \<and> length x = 64 \<and> length y = 64 \<and>
    ContentHash algo x = ContentHash algo y"
  using assms
proof (induction algo p c p' c' rule: proof_collision.induct)
  case (1 algo s r c s' r' c')
  obtain sib sib' where sib: "HexToBytes (sibling_hex s) 32 = Some sib" "HexToBytes (sibling_hex s') 32 = Some sib'"
    using "1.prems"(2,3) by (auto split: if_splits option.splits)
  have len: "length sib = 32" "length sib' = 32" using sib HexToBytes_length by auto
  let ?b = "if is_right s \<noteq> 0 then c @ sib else sib @ c"
  let ?b' = "if is_right s' \<noteq> 0 then c' @ sib' else sib' @ c'"
  have same: "(is_right s \<noteq> 0) = (is_right s' \<noteq> 0)" using "1.prems"(1) by simp
  have ne: "?b \<noteq> ?b'" using "1.prems"(4-6) len same by (auto simp: append_eq_append_conv)
  have l64: "length ?b = 64" "length ?b' = 64" using "1.prems"(4,5) len by auto
  have comb: "combine algo (is_right s) c sib = ContentHash algo ?b"
    "combine algo (is_right s') c' sib' = ContentHash algo ?b'"
    using "1.prems"(4,5) len by (simp_all add: combine_def HashPair_def)
  show ?case
  proof (cases "ContentHash algo ?b = ContentHash algo ?b'")
    case True
    then show ?thesis using ne l64 sib by (auto simp: Let_def)
  next
    case False
    have "fold_proof algo r (ContentHash algo ?b) = Inr root" "fold_proof algo r' (ContentHash algo ?b') = Inr root"
      using "1.prems"(2,3) sib comb by (auto split: if_splits)
    then have "\<exists>x y. proof_collision algo r (ContentHash algo ?b) r' (ContentHash algo ?b') = Some (x, y) \<and> x \<noteq> y \<and>
        length x = 64 \<and> length y = 64 \<and> ContentHash algo x = ContentHash algo y"
      using "1.IH" [of sib sib' ?b ?b'] "1.prems"(1) sib False by simp
    then show ?thesis using False sib by (simp add: Let_def)
  qed
qed simp_all

lemma fold_proof_not_ok: "fold_proof algo p c = Inl \<lparr>code = kOk, message = m\<rparr> \<Longrightarrow> False"
  by (induction algo p c rule: fold_proof.induct)
    (auto simp: Corrupt_def split: if_splits option.splits)

text \<open>
  C23. Inclusion proofs are sound up to collisions: if another proof with the directions of position
  i is accepted for a leaf and the root of a list, then that leaf is the i-th of the list, or
  \<open>proof_collision\<close> computes from the two proofs two different 64-byte blocks with the same hash.
\<close>

theorem merkle_proof_sound:
  assumes "ComputeMerkleRootFromHashes leaves algo = Inr root"
    and "GenerateMerkleProof leaves i algo = Inr honest"
    and "VerifyMerkleProof leaf (BytesToHex root) proof algo = Status_Ok"
    and "map (\<lambda>s. is_right s \<noteq> 0) proof = map (\<lambda>s. is_right s \<noteq> 0) honest"
  shows "HexToBytes leaf 32 = HexToBytes (leaves ! i) 32 \<or>
    (\<exists>x y. proof_collision algo proof (the (HexToBytes leaf 32)) honest (the (HexToBytes (leaves ! i) 32)) =
         Some (x, y) \<and> x \<noteq> y \<and> length x = 64 \<and> length y = 64 \<and> ContentHash algo x = ContentHash algo y)"
proof -
  obtain level where lv: "HexLeavesToBytes leaves = Inr level" and root: "root = MerkleFromLeafBytes algo level"
    and i: "i < length leaves" and honest: "honest = proof_steps algo level i"
    using assms(1,2) by (auto simp: ComputeMerkleRootFromHashes_def GenerateMerkleProof_def split: sum.splits if_splits)
  note l = HexLeavesToBytes_length [OF lv]
  have ne: "level \<noteq> []" using l i by auto
  have r: "root = hd (merkle_reduce algo level)" "length root = 32"
    using ne l length_root [of level algo] by (simp_all add: root MerkleFromLeafBytes_def)
  have h: "fold_proof algo honest (level ! i) = Inr root"
    using fold_proof_steps [of i level algo] l i r(1) honest by simp
  have "HexToBytes (BytesToHex root) 32 = Some root"
    using HexToBytes_BytesToHex [of root] r(2) by simp
  with assms(3) obtain b where b: "HexToBytes leaf 32 = Some b" "fold_proof algo proof b = Inr root"
    by (auto simp: VerifyMerkleProof_def Status_Ok_def Corrupt_def InvalidArgument_def
        split: if_splits option.splits sum.splits dest!: fold_proof_not_ok)
  show ?thesis
  proof (cases "b = level ! i")
    case True
    then show ?thesis using b l i by simp
  next
    case False
    then show ?thesis
      using fold_proof_collision [OF assms(4) b(2) h _ _ False] l i b HexToBytes_length [OF b(1)] by simp
  qed
qed

theorem merkle_proof_sound_witness:
  "\<exists>root honest. ComputeMerkleRootFromHashes sample_leaves kStandard = Inr root \<and>
     VerifyMerkleProof (sample_leaves ! 1) (BytesToHex root) honest kStandard = Status_Ok \<and>
     (HexToBytes (sample_leaves ! 1) 32 = HexToBytes (sample_leaves ! 1) 32 \<or>
      (\<exists>x y. proof_collision kStandard honest (the (HexToBytes (sample_leaves ! 1) 32)) honest
           (the (HexToBytes (sample_leaves ! 1) 32)) = Some (x, y) \<and> x \<noteq> y \<and> length x = 64 \<and>
         length y = 64 \<and> ContentHash kStandard x = ContentHash kStandard y))"
proof -
  have lv: "HexLeavesToBytes sample_leaves = Inr [zeros 32, replicate 32 1, replicate 32 2]"
    unfolding sample_leaves_def by (rule HexLeavesToBytes_BytesToHex) simp
  let ?root = "MerkleFromLeafBytes kStandard [zeros 32, replicate 32 1, replicate 32 2]"
  let ?p = "proof_steps kStandard [zeros 32, replicate 32 1, replicate 32 2] 1"
  have r: "ComputeMerkleRootFromHashes sample_leaves kStandard = Inr ?root"
    using lv by (simp add: ComputeMerkleRootFromHashes_def)
  have g: "GenerateMerkleProof sample_leaves 1 kStandard = Inr ?p"
    using lv by (simp add: GenerateMerkleProof_def sample_leaves_def)
  have hx: "HexToBytes (BytesToHex b) 32 = Some b" if "length b = 32" for b
    using that HexToBytes_BytesToHex [of b] by simp
  have "fold_proof kStandard ?p (replicate 32 1) = Inr ?root"
    using fold_proof_steps [of 1 "[zeros 32, replicate 32 1, replicate 32 2]" kStandard]
      length_root [of "[zeros 32, replicate 32 1, replicate 32 2]" kStandard]
    by (simp add: MerkleFromLeafBytes_def)
  moreover have "length ?root = 32"
    using length_root [of "[zeros 32, replicate 32 1, replicate 32 2]" kStandard]
    by (simp add: MerkleFromLeafBytes_def)
  ultimately have v: "VerifyMerkleProof (sample_leaves ! 1) (BytesToHex ?root) ?p kStandard = Status_Ok"
    by (simp add: VerifyMerkleProof_def hx sample_leaves_def)
  show ?thesis using merkle_proof_sound [OF r g v refl] r v by blast
qed

lemma merkle_level_dup_last:
  "odd (length xs) \<Longrightarrow> merkle_level algo (xs @ [last xs]) = merkle_level algo xs"
  by (induction algo xs rule: merkle_level.induct) auto

lemma HexLeavesToBytes_append:
  "HexLeavesToBytes (xs @ ys) =
     (case HexLeavesToBytes xs of Inl e \<Rightarrow> Inl e
      | Inr a \<Rightarrow> (case HexLeavesToBytes ys of Inl e \<Rightarrow> Inl e | Inr b \<Rightarrow> Inr (a @ b)))"
  by (induction xs) (auto split: option.splits sum.splits)

text \<open>
  The root does not determine the number of leaves: an odd last node is paired with itself, so a
  list of three or more leaves of odd length has the root of the same list with its last leaf
  repeated.
\<close>

theorem merkle_root_repeated_leaf:
  assumes "odd (length leaves)" and "length leaves > 1"
  shows "ComputeMerkleRootFromHashes (leaves @ [last leaves]) algo = ComputeMerkleRootFromHashes leaves algo"
proof (cases "HexLeavesToBytes leaves")
  case (Inl e)
  then show ?thesis by (simp add: ComputeMerkleRootFromHashes_def HexLeavesToBytes_append)
next
  case (Inr level)
  note l = HexLeavesToBytes_length [OF Inr]
  have ne: "level \<noteq> []" "leaves \<noteq> []" using assms l by auto
  then have "last leaves = leaves ! (length leaves - 1)" "last level = level ! (length leaves - 1)"
    using l by (simp_all add: last_conv_nth)
  then have "HexLeavesToBytes [last leaves] = Inr [last level]"
    using l ne by (simp add: length_greater_0_conv [symmetric] del: length_greater_0_conv)
  then have app: "HexLeavesToBytes (leaves @ [last leaves]) = Inr (level @ [last level])"
    using Inr by (simp add: HexLeavesToBytes_append)
  have "merkle_reduce algo (level @ [last level]) = merkle_reduce algo level"
    using assms l ne merkle_level_dup_last [of level algo]
    by (subst (1 2) merkle_reduce.simps) simp
  then show ?thesis
    using app Inr ne by (simp add: ComputeMerkleRootFromHashes_def MerkleFromLeafBytes_def)
qed

theorem merkle_root_repeated_leaf_witness:
  "ComputeMerkleRootFromHashes (sample_leaves @ [last sample_leaves]) kLegacy =
     ComputeMerkleRootFromHashes sample_leaves kLegacy"
  by (rule merkle_root_repeated_leaf) (simp_all add: sample_leaves_def)

lemma verify_chunks_segments:
  "verify_chunks algo get hexes rest off = Inr off' \<Longrightarrow>
     \<exists>segs tail. rest = concat segs @ tail \<and> off' = off + length (concat segs) \<and>
       list_all2 (\<lambda>hex seg. HexToBytes hex 32 = Some (ContentHash algo seg)) hexes segs"
proof (induction algo get hexes rest off rule: verify_chunks.induct)
  case (2 algo get hex r rest off)
  then obtain expected payload where p: "HexToBytes hex 32 = Some expected" "get expected = Inr payload"
    "length payload \<le> length rest" "ContentHash algo (take (length payload) rest) = expected"
    and v: "verify_chunks algo get r (drop (length payload) rest) (off + length payload) = Inr off'"
    and hl: "length hex = 64"
    by (auto simp: Let_def split: if_splits option.splits sum.splits)
  obtain segs tail where s: "drop (length payload) rest = concat segs @ tail"
    "off' = off + length payload + length (concat segs)"
    "list_all2 (\<lambda>hex seg. HexToBytes hex 32 = Some (ContentHash algo seg)) r segs"
    using 2 p v hl by fastforce
  have "rest = concat (take (length payload) rest # segs) @ tail"
    using s(1) append_take_drop_id [of "length payload" rest] by simp
  moreover have "off' = off + length (concat (take (length payload) rest # segs))"
    using s(2) p(3) by simp
  moreover have "list_all2 (\<lambda>hex seg. HexToBytes hex 32 = Some (ContentHash algo seg)) (hex # r)
      (take (length payload) rest # segs)"
    using s(3) p by simp
  ultimately show ?case by blast
qed auto

lemma verify_chunks_tail:
  "verify_chunks algo get hexes rest off = Inr off' \<Longrightarrow> verify_chunks algo get hexes (rest @ extra) off = Inr off'"
proof (induction algo get hexes rest off rule: verify_chunks.induct)
  case (2 algo get hex r rest off)
  then obtain expected payload where p: "HexToBytes hex 32 = Some expected" "get expected = Inr payload"
    "length payload \<le> length rest" "ContentHash algo (take (length payload) rest) = expected"
    and v: "verify_chunks algo get r (drop (length payload) rest) (off + length payload) = Inr off'"
    and hl: "length hex = 64"
    by (auto simp: Let_def split: if_splits option.splits sum.splits)
  have "verify_chunks algo get r (drop (length payload) rest @ extra) (off + length payload) = Inr off'"
    by (rule "2.IH" [OF _ p(1,2) refl refl]) (use p v hl in simp_all)
  with p hl show ?case by (simp add: Let_def)
qed simp

lemma verify_chunks_error:
  "verify_chunks algo get hexes rest off = Inl e \<Longrightarrow> (\<And>h e. get h = Inl e \<Longrightarrow> \<not> status_ok e) \<Longrightarrow> \<not> status_ok e"
  by (induction algo get hexes rest off rule: verify_chunks.induct)
    (auto simp: Let_def status_ok_def Corrupt_def split: if_splits option.splits sum.splits)

text \<open>
  C37. What the check of a restored file shows: an accepted file starts with one segment per manifest
  chunk, in order, each hashing to the recorded hash, and the segments add up to the recorded size.
  It shows nothing of what follows them: the same file with any bytes appended is accepted as well.
\<close>

theorem restored_file_check:
  assumes "VerifyRestoredFileChunks algo get (Some bs) path f = Status_Ok"
    and "\<And>h e. get h = Inl e \<Longrightarrow> \<not> status_ok e"
  shows "(\<exists>segs tail. bs = concat segs @ tail \<and> word_of_nat (length (concat segs)) = file_size f \<and>
      list_all2 (\<lambda>hex seg. HexToBytes hex 32 = Some (ContentHash algo seg)) (chunk_hashes_hex f) segs) \<and>
    VerifyRestoredFileChunks algo get (Some (bs @ extra)) path f = Status_Ok"
proof (cases "verify_chunks algo get (chunk_hashes_hex f) bs 0")
  case (Inl e)
  then have "\<not> status_ok e" using verify_chunks_error assms(2) by blast
  then show ?thesis using assms(1) Inl by (auto simp: VerifyRestoredFileChunks_def)
next
  case (Inr off)
  then have "word_of_nat off = file_size f"
    using assms by (auto simp: VerifyRestoredFileChunks_def Corrupt_def Status_Ok_def split: if_splits)
  with verify_chunks_segments [OF Inr] verify_chunks_tail [OF Inr, of extra] show ?thesis
    by (auto simp: VerifyRestoredFileChunks_def)
qed

definition one_chunk_entry :: ManifestFileEntry where
  "one_chunk_entry = empty_file_entry\<lparr>file_size := 3,
     chunk_hashes_hex := [BytesToHex (ContentHash kStandard [1, 2, 3])]\<rparr>"

theorem restored_file_check_witness:
  "(\<exists>segs tail. [1, 2, 3, 9] = concat segs @ tail \<and>
      word_of_nat (length (concat segs)) = file_size one_chunk_entry \<and>
      list_all2 (\<lambda>hex seg. HexToBytes hex 32 = Some (ContentHash kStandard seg))
        (chunk_hashes_hex one_chunk_entry) segs) \<and>
   VerifyRestoredFileChunks kStandard (\<lambda>_. Inr [1, 2, 3]) (Some ([1, 2, 3, 9] @ [8])) ''f'' one_chunk_entry = Status_Ok"
proof -
  have "HexToBytes (BytesToHex (ContentHash kStandard [1, 2, 3])) 32 = Some (ContentHash kStandard [1, 2, 3])"
    using HexToBytes_BytesToHex [of "ContentHash kStandard [1, 2, 3]"] by simp
  then have "VerifyRestoredFileChunks kStandard (\<lambda>_. Inr [1, 2, 3]) (Some [1, 2, 3, 9]) ''f'' one_chunk_entry = Status_Ok"
    by (simp add: VerifyRestoredFileChunks_def one_chunk_entry_def empty_file_entry_def Let_def)
  then show ?thesis by (rule restored_file_check) simp
qed

end
