(* ===== verification/AesGcm.thy ===== *)
theory AesGcm
  imports EbPrelude
begin

unbundle bit_operations_syntax

text \<open>
  The engine's portable AES-256-GCM (\<open>crypto/aes_block.cc\<close>, \<open>crypto/gcm_portable.cc\<close>): key schedule,
  block encryption, multiplication in GF(2^128), GHASH, counter mode, and the authenticated
  encryption of a blob \<open>nonce | ciphertext | tag\<close>. Arrays of 16 bytes are lists. The random device is a
  parameter. On Windows \<open>crypto/aes_gcm.cc\<close> first asks the system library and falls back to this code.
\<close>

section \<open>AES-256 (crypto/aes_block.cc)\<close>

definition kSbox :: "byte list" where
  "kSbox = [
    0x63, 0x7c, 0x77, 0x7b, 0xf2, 0x6b, 0x6f, 0xc5, 0x30, 0x01, 0x67, 0x2b, 0xfe, 0xd7, 0xab, 0x76,
    0xca, 0x82, 0xc9, 0x7d, 0xfa, 0x59, 0x47, 0xf0, 0xad, 0xd4, 0xa2, 0xaf, 0x9c, 0xa4, 0x72, 0xc0,
    0xb7, 0xfd, 0x93, 0x26, 0x36, 0x3f, 0xf7, 0xcc, 0x34, 0xa5, 0xe5, 0xf1, 0x71, 0xd8, 0x31, 0x15,
    0x04, 0xc7, 0x23, 0xc3, 0x18, 0x96, 0x05, 0x9a, 0x07, 0x12, 0x80, 0xe2, 0xeb, 0x27, 0xb2, 0x75,
    0x09, 0x83, 0x2c, 0x1a, 0x1b, 0x6e, 0x5a, 0xa0, 0x52, 0x3b, 0xd6, 0xb3, 0x29, 0xe3, 0x2f, 0x84,
    0x53, 0xd1, 0x00, 0xed, 0x20, 0xfc, 0xb1, 0x5b, 0x6a, 0xcb, 0xbe, 0x39, 0x4a, 0x4c, 0x58, 0xcf,
    0xd0, 0xef, 0xaa, 0xfb, 0x43, 0x4d, 0x33, 0x85, 0x45, 0xf9, 0x02, 0x7f, 0x50, 0x3c, 0x9f, 0xa8,
    0x51, 0xa3, 0x40, 0x8f, 0x92, 0x9d, 0x38, 0xf5, 0xbc, 0xb6, 0xda, 0x21, 0x10, 0xff, 0xf3, 0xd2,
    0xcd, 0x0c, 0x13, 0xec, 0x5f, 0x97, 0x44, 0x17, 0xc4, 0xa7, 0x7e, 0x3d, 0x64, 0x5d, 0x19, 0x73,
    0x60, 0x81, 0x4f, 0xdc, 0x22, 0x2a, 0x90, 0x88, 0x46, 0xee, 0xb8, 0x14, 0xde, 0x5e, 0x0b, 0xdb,
    0xe0, 0x32, 0x3a, 0x0a, 0x49, 0x06, 0x24, 0x5c, 0xc2, 0xd3, 0xac, 0x62, 0x91, 0x95, 0xe4, 0x79,
    0xe7, 0xc8, 0x37, 0x6d, 0x8d, 0xd5, 0x4e, 0xa9, 0x6c, 0x56, 0xf4, 0xea, 0x65, 0x7a, 0xae, 0x08,
    0xba, 0x78, 0x25, 0x2e, 0x1c, 0xa6, 0xb4, 0xc6, 0xe8, 0xdd, 0x74, 0x1f, 0x4b, 0xbd, 0x8b, 0x8a,
    0x70, 0x3e, 0xb5, 0x66, 0x48, 0x03, 0xf6, 0x0e, 0x61, 0x35, 0x57, 0xb9, 0x86, 0xc1, 0x1d, 0x9e,
    0xe1, 0xf8, 0x98, 0x11, 0x69, 0xd9, 0x8e, 0x94, 0x9b, 0x1e, 0x87, 0xe9, 0xce, 0x55, 0x28, 0xdf,
    0x8c, 0xa1, 0x89, 0x0d, 0xbf, 0xe6, 0x42, 0x68, 0x41, 0x99, 0x2d, 0x0f, 0xb0, 0x54, 0xbb, 0x16]"

definition kRcon :: "u32 list" where
  "kRcon = [0x01000000, 0x02000000, 0x04000000, 0x08000000, 0x10000000, 0x20000000, 0x40000000, 0x80000000]"

definition SubWord :: "u32 \<Rightarrow> u32" where
  "SubWord w =
     push_bit 24 (ucast (kSbox ! unat (drop_bit 24 w AND 0xFF))) OR
     push_bit 16 (ucast (kSbox ! unat (drop_bit 16 w AND 0xFF))) OR
     push_bit 8 (ucast (kSbox ! unat (drop_bit 8 w AND 0xFF))) OR
     ucast (kSbox ! unat (w AND 0xFF))"

definition RotWord :: "u32 \<Rightarrow> u32" where
  "RotWord w = push_bit 8 w OR drop_bit 24 w"

fun gmul_loop :: "nat \<Rightarrow> byte \<Rightarrow> byte \<Rightarrow> byte \<Rightarrow> byte" where
  "gmul_loop 0 a b p = p"
| "gmul_loop (Suc n) a b p =
     (let p1 = (if b AND 1 \<noteq> 0 then p XOR a else p);
          a1 = push_bit 1 a;
          a2 = (if a AND 0x80 \<noteq> 0 then a1 XOR 0x1b else a1)
      in gmul_loop n a2 (drop_bit 1 b) p1)"

definition Gmul :: "byte \<Rightarrow> byte \<Rightarrow> byte" where
  "Gmul a b = gmul_loop 8 a b 0"

definition SubBytes :: "bytes \<Rightarrow> bytes" where
  "SubBytes st = map (\<lambda>b. kSbox ! unat b) st"

definition ShiftRows :: "bytes \<Rightarrow> bytes" where
  "ShiftRows st =
     [st ! 0, st ! 5, st ! 10, st ! 15, st ! 4, st ! 9, st ! 14, st ! 3,
      st ! 8, st ! 13, st ! 2, st ! 7, st ! 12, st ! 1, st ! 6, st ! 11]"

definition mix_column :: "byte \<Rightarrow> byte \<Rightarrow> byte \<Rightarrow> byte \<Rightarrow> bytes" where
  "mix_column a0 a1 a2 a3 =
     [Gmul a0 2 XOR Gmul a1 3 XOR a2 XOR a3,
      a0 XOR Gmul a1 2 XOR Gmul a2 3 XOR a3,
      a0 XOR a1 XOR Gmul a2 2 XOR Gmul a3 3,
      Gmul a0 3 XOR a1 XOR a2 XOR Gmul a3 2]"

definition MixColumns :: "bytes \<Rightarrow> bytes" where
  "MixColumns st = concat (map (\<lambda>c. mix_column (st ! (c * 4)) (st ! (c * 4 + 1)) (st ! (c * 4 + 2)) (st ! (c * 4 + 3))) [0..<4])"

definition AddRoundKey :: "bytes \<Rightarrow> u32 list \<Rightarrow> bytes" where
  "AddRoundKey st rk = concat (map (\<lambda>i.
     [st ! (i * 4) XOR ucast (drop_bit 24 (rk ! i) AND 0xFF),
      st ! (i * 4 + 1) XOR ucast (drop_bit 16 (rk ! i) AND 0xFF),
      st ! (i * 4 + 2) XOR ucast (drop_bit 8 (rk ! i) AND 0xFF),
      st ! (i * 4 + 3) XOR ucast (rk ! i AND 0xFF)]) [0..<4])"

fun expand_from :: "nat \<Rightarrow> u32 list \<Rightarrow> u32 list" where
  "expand_from 0 rk = rk"
| "expand_from (Suc n) rk =
     (let i = length rk; temp = rk ! (i - 1);
          temp1 = (if i mod 8 = 0 then SubWord (RotWord temp) XOR kRcon ! (i div 8 - 1)
                   else if i mod 8 = 4 then SubWord temp else temp)
      in expand_from n (rk @ [rk ! (i - 8) XOR temp1]))"

definition Aes256KeyExpand :: "bytes \<Rightarrow> u32 list" where
  "Aes256KeyExpand key = expand_from 52
     (map (\<lambda>i. push_bit 24 (ucast (key ! (4 * i))) OR push_bit 16 (ucast (key ! (4 * i + 1))) OR
               push_bit 8 (ucast (key ! (4 * i + 2))) OR ucast (key ! (4 * i + 3))) [0..<8])"

fun aes_rounds :: "u32 list \<Rightarrow> nat list \<Rightarrow> bytes \<Rightarrow> bytes" where
  "aes_rounds rk [] st = st"
| "aes_rounds rk (r # rs) st = aes_rounds rk rs (AddRoundKey (MixColumns (ShiftRows (SubBytes st))) (drop (r * 4) rk))"

definition Aes256EncryptBlock :: "u32 list \<Rightarrow> bytes \<Rightarrow> bytes" where
  "Aes256EncryptBlock rk inp =
     AddRoundKey (ShiftRows (SubBytes (aes_rounds rk [1..<14] (AddRoundKey inp rk)))) (drop 56 rk)"

section \<open>GCM (crypto/gcm_portable.cc)\<close>

definition kAesGcmNonceSize :: nat where "kAesGcmNonceSize = 12"
definition kAesGcmTagSize :: nat where "kAesGcmTagSize = 16"

definition xor_bytes :: "bytes \<Rightarrow> bytes \<Rightarrow> bytes" where
  "xor_bytes a b = map2 (XOR) a b"

text \<open>One bit to the right across the sixteen bytes, with the reduction.\<close>

definition gf_shift :: "bytes \<Rightarrow> bytes" where
  "gf_shift v =
     (let w = map (\<lambda>j. if j = 0 then drop_bit 1 (v ! 0)
                       else drop_bit 1 (v ! j) OR push_bit 7 (v ! (j - 1) AND 1)) [0..<16]
      in if v ! 15 AND 1 \<noteq> 0 then w[0 := w ! 0 XOR 0xe1] else w)"

fun gf_loop :: "nat \<Rightarrow> nat \<Rightarrow> bytes \<Rightarrow> bytes \<Rightarrow> bytes \<Rightarrow> bytes" where
  "gf_loop 0 i x v z = z"
| "gf_loop (Suc n) i x v z =
     gf_loop n (i + 1) x (gf_shift v)
       (if drop_bit (7 - i mod 8) (x ! (i div 8)) AND 1 \<noteq> 0 then xor_bytes z v else z)"

definition Gf128Mul :: "bytes \<Rightarrow> bytes \<Rightarrow> bytes" where
  "Gf128Mul x y = gf_loop 128 0 x y (zeros 16)"

function GhashUpdate :: "bytes \<Rightarrow> bytes \<Rightarrow> bytes \<Rightarrow> bytes" where
  "GhashUpdate y h bs =
     (if bs = [] then y
      else let block = take 16 bs @ zeros (16 - length bs)
           in GhashUpdate (Gf128Mul (xor_bytes y block) h) h (drop 16 bs))"
  by auto
termination
  by (relation "measure (\<lambda>(y, h, bs). length bs)") auto

declare GhashUpdate.simps [simp del]

text \<open>The last four bytes of the counter block as a big-endian number.\<close>

definition Inc32 :: "bytes \<Rightarrow> bytes" where
  "Inc32 c =
     (let c15 = c[15 := c ! 15 + 1] in
      if c15 ! 15 \<noteq> 0 then c15
      else let c14 = c15[14 := c15 ! 14 + 1] in
      if c14 ! 14 \<noteq> 0 then c14
      else let c13 = c14[13 := c14 ! 13 + 1] in
      if c13 ! 13 \<noteq> 0 then c13
      else c13[12 := c13 ! 12 + 1])"

function Gctr :: "u32 list \<Rightarrow> bytes \<Rightarrow> bytes \<Rightarrow> bytes" where
  "Gctr key counter inp =
     (if inp = [] then []
      else xor_bytes (take 16 inp) (Aes256EncryptBlock key counter) @ Gctr key (Inc32 counter) (drop 16 inp))"
  by auto
termination
  by (relation "measure (\<lambda>(k, c, inp). length inp)") auto

declare Gctr.simps [simp del]

definition be_u64 :: "u64 \<Rightarrow> bytes" where
  "be_u64 w = map (\<lambda>i. ucast (drop_bit ((7 - i) * 8) w AND 0xFF)) [0..<8]"

definition BuildLengthBlock :: "nat \<Rightarrow> nat \<Rightarrow> bytes" where
  "BuildLengthBlock a_len c_len = be_u64 (word_of_nat a_len * 8) @ be_u64 (word_of_nat c_len * 8)"

definition ComputeTag :: "u32 list \<Rightarrow> bytes \<Rightarrow> bytes \<Rightarrow> bytes \<Rightarrow> bytes \<Rightarrow> bytes" where
  "ComputeTag aes j0 h aad cipher =
     (let ghash = GhashUpdate (GhashUpdate (GhashUpdate (zeros 16) h aad) h cipher) h
                    (BuildLengthBlock (length aad) (length cipher))
      in xor_bytes ghash (Aes256EncryptBlock aes j0))"

definition gcm_j0 :: "bytes \<Rightarrow> bytes" where
  "gcm_j0 nonce = nonce @ [0, 0, 0, 1]"

definition Aes256GcmEncryptPortableEx :: "bytes \<Rightarrow> bytes \<Rightarrow> bytes \<Rightarrow> bytes \<Rightarrow> bytes" where
  "Aes256GcmEncryptPortableEx key nonce aad plain =
     (let aes = Aes256KeyExpand key;
          j0 = gcm_j0 nonce;
          h = Aes256EncryptBlock aes (zeros 16);
          cipher = Gctr aes (Inc32 j0) plain
      in nonce @ cipher @ ComputeTag aes j0 h aad cipher)"

definition Aes256GcmDecryptPortableEx :: "bytes \<Rightarrow> bytes \<Rightarrow> bytes \<Rightarrow> Status + bytes" where
  "Aes256GcmDecryptPortableEx key blob aad =
     (if length blob < kAesGcmNonceSize + kAesGcmTagSize then Inl (Corrupt ''encrypted blob too short'')
      else
        let cipher_len = length blob - kAesGcmNonceSize - kAesGcmTagSize;
            nonce = take kAesGcmNonceSize blob;
            cipher = slice_at kAesGcmNonceSize cipher_len blob;
            tag = drop (kAesGcmNonceSize + cipher_len) blob;
            aes = Aes256KeyExpand key;
            j0 = gcm_j0 nonce;
            h = Aes256EncryptBlock aes (zeros 16);
            diff = foldl (OR) 0 (xor_bytes (ComputeTag aes j0 h aad cipher) tag)
        in if diff \<noteq> 0 then Inl (Corrupt ''gcm tag mismatch'')
           else Inr (Gctr aes (Inc32 j0) cipher))"

text \<open>The nonce is twelve draws of the random device.\<close>

definition random_bytes :: "(nat \<Rightarrow> u32) \<Rightarrow> nat \<Rightarrow> bytes" where
  "random_bytes rd n = map (\<lambda>i. ucast (rd i)) [0..<n]"

definition Aes256GcmEncrypt :: "(nat \<Rightarrow> u32) \<Rightarrow> bytes \<Rightarrow> bytes \<Rightarrow> bytes" where
  "Aes256GcmEncrypt rd key plain = Aes256GcmEncryptPortableEx key (random_bytes rd kAesGcmNonceSize) [] plain"

definition Aes256GcmDecrypt :: "bytes \<Rightarrow> bytes \<Rightarrow> Status + bytes" where
  "Aes256GcmDecrypt key blob = Aes256GcmDecryptPortableEx key blob []"

section \<open>Counter mode is its own inverse\<close>

lemma length_xor_bytes [simp]: "length (xor_bytes a b) = min (length a) (length b)"
  by (simp add: xor_bytes_def)

lemma length_AddRoundKey [simp]: "length (AddRoundKey st rk) = 16"
  by (simp add: AddRoundKey_def upt_rec)

lemma length_EncryptBlock [simp]: "length (Aes256EncryptBlock rk b) = 16"
  by (simp add: Aes256EncryptBlock_def)

lemma xor_bytes_twice: "length a \<le> length k \<Longrightarrow> xor_bytes (xor_bytes a k) k = a"
  by (rule nth_equalityI) (simp_all add: xor_bytes_def xor.assoc)

lemma Gctr_Nil [simp]: "Gctr key c [] = []"
  by (simp add: Gctr.simps)

lemma length_Gctr [simp]: "length (Gctr key c inp) = length inp"
proof (induction key c inp rule: Gctr.induct)
  case (1 key c inp)
  then show ?case by (subst Gctr.simps) (auto simp: min_def)
qed

lemma Gctr_Gctr: "Gctr key c (Gctr key c inp) = inp"
proof (induction key c inp rule: Gctr.induct)
  case (1 key c inp)
  show ?case
  proof (cases "inp = []")
    case True
    then show ?thesis by simp
  next
    case False
    let ?k = "Aes256EncryptBlock key c" and ?r = "Gctr key (Inc32 c) (drop 16 inp)"
    let ?b = "xor_bytes (take 16 inp) ?k"
    have g: "Gctr key c inp = ?b @ ?r" using False by (subst Gctr.simps) simp
    have lb: "length ?b = min 16 (length inp)" by simp
    have t: "take 16 (?b @ ?r) = ?b \<and> drop 16 (?b @ ?r) = ?r"
    proof (cases "length inp < 16")
      case True
      then have "?r = []" by simp
      then show ?thesis using lb True by simp
    qed (use lb in simp)
    then have t1: "take 16 (?b @ ?r) = ?b" and t2: "drop 16 (?b @ ?r) = ?r" by blast+
    have "Gctr key c (?b @ ?r) = xor_bytes ?b ?k @ Gctr key (Inc32 c) ?r"
    proof -
      have "0 < length ?b" using False by simp
      then have "?b @ ?r \<noteq> []" by (metis append_is_Nil_conv less_numeral_extra(3) list.size(3))
      then show ?thesis using Gctr.simps [of key c "?b @ ?r"] by (simp only: t1 t2 if_False)
    qed
    also have "\<dots> = take 16 inp @ drop 16 inp"
      using 1 [OF False] by (simp add: xor_bytes_twice)
    finally show ?thesis unfolding g by simp
  qed
qed

lemma foldl_OR_zero: "foldl (OR) a bs = 0 \<longleftrightarrow> a = 0 \<and> (\<forall>b \<in> set bs. b = 0)" for a :: "'a::len word"
  by (induction bs arbitrary: a) (simp_all add: or_eq_0_iff conj_assoc)

lemma xor_eq_0: "a XOR b = 0 \<longleftrightarrow> a = b" for a b :: "'a::len word"
  by (metis xor_left_cancel xor_self_eq)

lemma diff_zero_iff: "length a = length b \<Longrightarrow> foldl (OR) 0 (xor_bytes a b) = 0 \<longleftrightarrow> a = b"
  by (simp add: foldl_OR_zero xor_bytes_def set_zip xor_eq_0 list_eq_iff_nth_eq) blast

text \<open>The block of a blob: nonce, ciphertext and tag.\<close>

lemma blob_parts:
  assumes "28 \<le> length blob"
  shows "take 12 blob @ slice_at 12 (length blob - 28) blob @ drop (length blob - 16) blob = blob"
proof -
  have "12 + (length blob - 28) = length blob - 16" using assms by simp
  then have "drop (length blob - 16) blob = drop (length blob - 28) (drop 12 blob)" by (simp add: add.commute)
  then show ?thesis by (simp only: slice_at_def append_take_drop_id)
qed

lemma length_gf_loop: "length v = 16 \<Longrightarrow> length z = 16 \<Longrightarrow> length (gf_loop n i x v z) = 16"
  by (induction n arbitrary: i v z) (auto simp: gf_shift_def Let_def)

lemma length_Gf128Mul: "length y = 16 \<Longrightarrow> length (Gf128Mul x y) = 16"
  by (simp add: Gf128Mul_def length_gf_loop)

lemma length_GhashUpdate: "length y = 16 \<Longrightarrow> length h = 16 \<Longrightarrow> length (GhashUpdate y h bs) = 16"
proof (induction y h bs rule: GhashUpdate.induct)
  case (1 y h bs)
  then show ?case by (subst GhashUpdate.simps) (simp add: Let_def length_Gf128Mul)
qed

lemma length_ComputeTag: "length h = 16 \<Longrightarrow> length (ComputeTag aes j0 h aad c) = 16"
  by (simp add: ComputeTag_def Let_def length_GhashUpdate)

lemma decrypt_iff:
  "Aes256GcmDecryptPortableEx key blob aad = Inr p \<longleftrightarrow>
     12 \<le> length blob \<and> Aes256GcmEncryptPortableEx key (take 12 blob) aad p = blob"
proof (cases "28 \<le> length blob")
  case False
  then have "length (Aes256GcmEncryptPortableEx key (take 12 blob) aad p) \<noteq> length blob \<or> length blob < 12"
    by (auto simp: Aes256GcmEncryptPortableEx_def Let_def length_ComputeTag)
  then show ?thesis using False
    by (auto simp: Aes256GcmDecryptPortableEx_def kAesGcmNonceSize_def kAesGcmTagSize_def)
next
  case True
  define c where "c = slice_at 12 (length blob - 28) blob"
  define aes where "aes = Aes256KeyExpand key"
  define j0 where "j0 = gcm_j0 (take 12 blob)"
  define tag where "tag = (\<lambda>c. ComputeTag aes j0 (Aes256EncryptBlock aes (zeros 16)) aad c)"
  have len: "length blob - 12 - 16 = length blob - 28" "12 + (length blob - 28) = length blob - 16" using True by auto
  have lt: "length (tag x) = 16" "length (drop (length blob - 16) blob) = 16" for x
    using True by (simp_all add: tag_def length_ComputeTag)
  have d: "Aes256GcmDecryptPortableEx key blob aad =
      (if tag c = drop (length blob - 16) blob then Inr (Gctr aes (Inc32 j0) c) else Inl (Corrupt ''gcm tag mismatch''))"
    using True diff_zero_iff [of "tag c" "drop (length blob - 16) blob"] lt
    by (simp add: Aes256GcmDecryptPortableEx_def Let_def kAesGcmNonceSize_def kAesGcmTagSize_def len
        c_def [symmetric] aes_def [symmetric] j0_def [symmetric] tag_def)
  have e: "Aes256GcmEncryptPortableEx key (take 12 blob) aad p =
      take 12 blob @ Gctr aes (Inc32 j0) p @ tag (Gctr aes (Inc32 j0) p)"
    by (simp add: Aes256GcmEncryptPortableEx_def Let_def aes_def j0_def tag_def)
  have b: "blob = take 12 blob @ c @ drop (length blob - 16) blob"
    using blob_parts [OF True] by (simp add: c_def)
  have "Aes256GcmEncryptPortableEx key (take 12 blob) aad p = blob \<longleftrightarrow>
      Gctr aes (Inc32 j0) p = c \<and> tag c = drop (length blob - 16) blob"
  proof
    assume "Aes256GcmEncryptPortableEx key (take 12 blob) aad p = blob"
    then have "Gctr aes (Inc32 j0) p @ tag (Gctr aes (Inc32 j0) p) = c @ drop (length blob - 16) blob"
      unfolding e using b by (metis same_append_eq)
    then show "Gctr aes (Inc32 j0) p = c \<and> tag c = drop (length blob - 16) blob"
      using lt by (auto simp: append_eq_append_conv)
  next
    assume "Gctr aes (Inc32 j0) p = c \<and> tag c = drop (length blob - 16) blob"
    then show "Aes256GcmEncryptPortableEx key (take 12 blob) aad p = blob"
      unfolding e using b by simp
  qed
  moreover have "Gctr aes (Inc32 j0) p = c \<longleftrightarrow> Gctr aes (Inc32 j0) c = p" using Gctr_Gctr by metis
  ultimately show ?thesis unfolding d using True by auto
qed

lemma gcm_roundtrip: "Aes256GcmDecrypt key (Aes256GcmEncrypt rd key p) = Inr p"
  by (simp add: Aes256GcmDecrypt_def Aes256GcmEncrypt_def decrypt_iff)
    (simp add: Aes256GcmEncryptPortableEx_def Let_def random_bytes_def kAesGcmNonceSize_def)

text \<open>C15. Authenticated encryption: decryption accepts a blob for a key and associated data, and yields a
  plaintext, exactly when the blob is the encryption of that plaintext under the same key and associated
  data with the nonce at its start. So an encrypted payload always comes back, and a blob that is cut,
  extended or changed in ciphertext, tag, nonce or associated data without being such an encryption is
  refused as corrupt.\<close>

theorem gcm_decrypt_accepts_encryptions:
  "(Aes256GcmDecryptPortableEx key blob aad = Inr p \<longleftrightarrow>
      (\<exists>nonce. length nonce = 12 \<and> blob = Aes256GcmEncryptPortableEx key nonce aad p)) \<and>
   Aes256GcmDecrypt key (Aes256GcmEncrypt rd key p) = Inr p"
proof -
  have enc: "12 \<le> length (Aes256GcmEncryptPortableEx key nonce aad p)"
      "take 12 (Aes256GcmEncryptPortableEx key nonce aad p) = nonce" if "length nonce = 12" for nonce aad
    using that by (simp_all add: Aes256GcmEncryptPortableEx_def Let_def)
  have "Aes256GcmDecryptPortableEx key blob aad = Inr p \<longleftrightarrow>
      (\<exists>nonce. length nonce = 12 \<and> blob = Aes256GcmEncryptPortableEx key nonce aad p)"
    unfolding decrypt_iff using enc by (metis length_take min.absorb2)
  then show ?thesis using gcm_roundtrip by blast
qed

section \<open>Multiplication in GF(2^128) on words\<close>

text \<open>
  A block as a 128-bit word, first byte highest; multiplication by x with the reduction polynomial of
  GCM, in which the first bit of a block is the lowest coefficient; and the product as the sum of the
  shifts of one factor that the bits of the other select.
\<close>

type_synonym block = "128 word"

definition gf_word :: "bytes \<Rightarrow> block" where
  "gf_word bs = word_of_nat (le_dec (rev bs))"

definition gf_poly :: block where
  "gf_poly = push_bit 120 0xe1"

definition gf_mulx :: "block \<Rightarrow> block" where
  "gf_mulx v = (if bit v 0 then drop_bit 1 v XOR gf_poly else drop_bit 1 v)"

fun gf_sum :: "nat \<Rightarrow> nat \<Rightarrow> block \<Rightarrow> block \<Rightarrow> block" where
  "gf_sum 0 i x v = 0"
| "gf_sum (Suc n) i x v = (if bit x (127 - i) then v else 0) XOR gf_sum n (i + 1) x (gf_mulx v)"

definition gf_mult :: "block \<Rightarrow> block \<Rightarrow> block" where
  "gf_mult x y = gf_sum 128 0 x y"

lemma bit_unat: "bit (unat b) n \<longleftrightarrow> bit b n" for b :: "'a::len word"
  by (simp add: bit_unsigned_iff bit_imp_le_length)

lemma bit_le_dec: "bit (le_dec bs) n \<longleftrightarrow> n div 8 < length bs \<and> bit (bs ! (n div 8)) (n mod 8)"
proof (induction bs arbitrary: n)
  case (Cons b bs)
  have dis: "\<not> bit (unat b) k \<or> \<not> bit (push_bit 8 (le_dec bs)) k" for k
    using bit_imp_le_length [of b k] by (auto simp: bit_unat bit_push_bit_iff)
  have "le_dec (b # bs) = unat b OR push_bit 8 (le_dec bs)"
    using disjunctive_add [OF dis] by (simp add: push_bit_eq_mult mult.commute)
  then have e: "bit (le_dec (b # bs)) n \<longleftrightarrow> bit b n \<or> (8 \<le> n \<and> bit (le_dec bs) (n - 8))"
    by (simp add: bit_or_iff bit_unat bit_push_bit_iff)
  show ?case
  proof (cases "n < 8")
    case False
    then have "n div 8 = Suc ((n - 8) div 8)" "n mod 8 = (n - 8) mod 8" "\<not> bit b n"
      using bit_imp_le_length [of b n] by (auto simp: le_div_geq le_mod_geq)
    then show ?thesis using e Cons.IH [of "n - 8"] False by simp
  qed (use e in simp)
qed simp

lemma bit_gf_word:
  assumes "length bs = 16"
  shows "bit (gf_word bs) n \<longleftrightarrow> n < 128 \<and> bit (bs ! (15 - n div 8)) (n mod 8)"
proof -
  have "n < 128 \<Longrightarrow> rev bs ! (n div 8) = bs ! (15 - n div 8)"
    using assms by (simp add: rev_nth)
  then show ?thesis using assms
    by (auto simp: gf_word_def bit_of_nat_iff bit_le_dec possible_bit_def)
qed

lemma gf_word_xor:
  assumes "length a = 16" and "length b = 16"
  shows "gf_word (xor_bytes a b) = gf_word a XOR gf_word b"
proof (rule bit_eqI)
  fix n
  show "bit (gf_word (xor_bytes a b)) n \<longleftrightarrow> bit (gf_word a XOR gf_word b) n"
    using assms by (auto simp: bit_gf_word bit_xor_iff xor_bytes_def)
qed

lemma gf_word_zeros: "gf_word (zeros 16) = 0"
  by (rule bit_eqI) (auto simp: bit_gf_word zeros_def)

lemma bit_e1: "bit (0xe1 :: 'a::len word) n \<longleftrightarrow> n < LENGTH('a) \<and> n \<in> {0, 5, 6, 7}"
proof -
  have "bit (0xe1 :: nat) n \<longleftrightarrow> n \<in> {0, 5, 6, 7}"
  proof (cases "n < 8")
    case True
    then have "n \<in> set [0..<8]" by simp
    then show ?thesis by (auto simp: upt_rec bit_simps)
  next
    case False
    have "(2 :: nat) ^ 8 \<le> 2 ^ n" using False by (intro power_increasing) auto
    then have "(0xe1 :: nat) < 2 ^ n" by simp
    then show ?thesis using False by (simp add: bit_iff_odd)
  qed
  moreover have "(0xe1 :: 'a word) = of_nat 0xe1" by simp
  ultimately show ?thesis by (simp only: bit_of_nat_iff possible_bit_word)
qed

lemma and_1_neq_0: "w AND 1 \<noteq> 0 \<longleftrightarrow> bit w 0" for w :: "'a::len word"
  by (simp add: and_one_eq bit_0 odd_iff_mod_2_eq_one)

lemma bit_byte_8: "\<not> bit b 8" for b :: byte
  using bit_imp_le_length [of b 8] by auto

lemma bit_shift_first: "k < 8 \<Longrightarrow> bit (drop_bit 1 b) k \<longleftrightarrow> k \<noteq> 7 \<and> bit b (k + 1)" for b :: byte
  using bit_byte_8 [of b] by (auto simp: bit_drop_bit_eq less_Suc_eq numeral_eq_Suc)

lemma bit_shift_next:
  "k < 8 \<Longrightarrow> bit (drop_bit 1 b OR push_bit 7 (c AND 1)) k \<longleftrightarrow> (if k = 7 then bit c 0 else bit b (k + 1))"
  for b c :: byte
  using bit_shift_first [of k b] by (auto simp: bit_or_iff bit_push_bit_iff bit_and_iff bit_1_iff)

text \<open>Bit \<open>r\<close> of byte \<open>q\<close>, counted from the end of the block.\<close>

lemma byte_bit: "r < 8 \<Longrightarrow> (8 * q + r) div 8 = q \<and> (8 * q + r) mod 8 = r" for q r :: nat
  by simp

lemma bit_gf_word_qr:
  "length bs = 16 \<Longrightarrow> r < 8 \<Longrightarrow> bit (gf_word bs) (8 * q + r) \<longleftrightarrow> q < 16 \<and> bit (bs ! (15 - q)) r"
  using byte_bit [of r q] by (simp add: bit_gf_word) linarith

lemma shifted_bit:
  assumes "length v = 16" and q: "q < 16" and r: "r < 8"
  shows "bit (if 15 - q = 0 then drop_bit 1 (v ! 0)
       else drop_bit 1 (v ! (15 - q)) OR push_bit 7 (v ! (15 - q - 1) AND 1)) r \<longleftrightarrow>
     bit (gf_word v) (8 * q + r + 1)"
proof (cases "r = 7")
  case True
  have e: "8 * q + r + 1 = 8 * (q + 1) + 0" "15 - (q + 1) = 15 - q - 1" using True by auto
  have g: "bit (gf_word v) (8 * q + r + 1) \<longleftrightarrow> q + 1 < 16 \<and> bit (v ! (15 - q - 1)) 0"
    unfolding e(1) using bit_gf_word_qr [OF assms(1), of 0 "q + 1"] e(2) by simp
  show ?thesis
  proof (cases "15 - q = 0")
    case z: True
    then show ?thesis using g q bit_shift_first [OF r] True by simp
  next
    case z: False
    then have "q + 1 < 16" by simp
    then show ?thesis using g bit_shift_next [OF r] True z by (simp only: if_False if_True simp_thms)
  qed
next
  case False
  then have r1: "r + 1 < 8" using r by simp
  have g: "bit (gf_word v) (8 * q + r + 1) \<longleftrightarrow> bit (v ! (15 - q)) (r + 1)"
    using bit_gf_word_qr [OF assms(1) r1, of q] q by (simp only: add.assoc simp_thms)
  show ?thesis
  proof (cases "15 - q = 0")
    case z: True
    then show ?thesis using g q bit_shift_first [OF r] False by (simp only: if_True simp_thms)
  next
    case z: False
    then show ?thesis using g bit_shift_next [OF r] False by (simp only: if_False simp_thms)
  qed
qed

lemma gf_word_shift:
  assumes "length v = 16"
  shows "gf_word (gf_shift v) = gf_mulx (gf_word v)"
proof (rule bit_eqI)
  fix n
  assume "possible_bit TYPE(block) n"
  then have n: "n < 128" by (simp add: possible_bit_def)
  define q r where "q = n div 8" and "r = n mod 8"
  have qr: "n = 8 * q + r" "q < 16" "r < 8" using n by (auto simp: q_def r_def)
  define b where "b = (\<lambda>j. if j = 0 then drop_bit 1 (v ! 0) else drop_bit 1 (v ! j) OR push_bit 7 (v ! (j - 1) AND 1))"
  define w where "w = map b [0..<16]"
  have lw: "length w = 16" by (simp add: w_def)
  have "bit (b (15 - q)) r \<longleftrightarrow> bit (gf_word v) (8 * q + r + 1)"
    unfolding b_def by (rule shifted_bit [OF assms qr(2,3)])
  then have wb: "bit (w ! (15 - q)) r \<longleftrightarrow> bit (gf_word v) (n + 1)" by (simp add: w_def qr(1))
  have c: "bit (gf_word v) 0 \<longleftrightarrow> v ! 15 AND 1 \<noteq> 0"
    using bit_gf_word_qr [OF assms, of 0 0] by (simp only: and_1_neq_0) simp
  have s: "gf_shift v = (if v ! 15 AND 1 \<noteq> 0 then w[0 := w ! 0 XOR 0xe1] else w)"
    by (simp only: gf_shift_def w_def b_def Let_def)
  have top: "120 \<le> n \<longleftrightarrow> q = 15" "q = 15 \<Longrightarrow> n - 120 = r" using qr by auto
  have "bit gf_poly n \<longleftrightarrow> 120 \<le> n \<and> n - 120 \<in> {0, 5, 6, 7}"
    unfolding gf_poly_def bit_push_bit_iff bit_e1 possible_bit_word using n by auto
  then have e1: "bit gf_poly n \<longleftrightarrow> q = 15 \<and> r \<in> {0, 5, 6, 7}"
    using top by auto
  show "bit (gf_word (gf_shift v)) n \<longleftrightarrow> bit (gf_mulx (gf_word v)) n"
  proof (cases "bit (gf_word v) 0")
    case True
    have "bit (gf_word (gf_shift v)) n \<longleftrightarrow> bit (w[0 := w ! 0 XOR 0xe1] ! (15 - q)) r"
      using True c qr bit_gf_word_qr [of "w[0 := w ! 0 XOR 0xe1]" r q] lw by (simp add: s)
    also have "\<dots> \<longleftrightarrow> bit (w ! (15 - q)) r \<noteq> (q = 15 \<and> r \<in> {0, 5, 6, 7})"
    proof (cases "q = 15")
      case True
      have e: "bit (0xe1 :: byte) r \<longleftrightarrow> r \<in> {0, 5, 6, 7}" using qr(3) unfolding bit_e1 by simp
      have u: "w[0 := w ! 0 XOR 0xe1] ! (15 - q) = w ! (15 - q) XOR 0xe1" using True lw by simp
      show ?thesis unfolding u bit_xor_iff e using True by blast
    next
      case False
      then have "15 - q \<noteq> 0" using qr(2) by simp
      then show ?thesis using False by simp
    qed
    also have "\<dots> \<longleftrightarrow> bit (gf_mulx (gf_word v)) n"
      unfolding wb gf_mulx_def using True e1 by (simp add: bit_xor_iff bit_drop_bit_eq add.commute)
    finally show ?thesis .
  next
    case False
    have "bit (gf_word (gf_shift v)) n \<longleftrightarrow> bit (w ! (15 - q)) r"
      using False c qr bit_gf_word_qr [OF lw, of r q] by (simp add: s)
    also have "\<dots> \<longleftrightarrow> bit (gf_mulx (gf_word v)) n"
      unfolding wb gf_mulx_def using False by (simp add: bit_drop_bit_eq add.commute)
    finally show ?thesis .
  qed
qed

lemma gf_loop_word:
  assumes "length x = 16"
  shows "length v = 16 \<Longrightarrow> length z = 16 \<Longrightarrow> n + i = 128 \<Longrightarrow>
     gf_word (gf_loop n i x v z) = gf_word z XOR gf_sum n i (gf_word x) (gf_word v)"
proof (induction n arbitrary: i v z)
  case (Suc n)
  define q r where "q = i div 8" and "r = i mod 8"
  have qr: "i = 8 * q + r" "r < 8" by (simp_all add: q_def r_def)
  then have i: "127 - i = 8 * (15 - q) + (7 - r)" "15 - (15 - q) = q" "q < 16" "15 - q < 16" using Suc.prems(3) by auto
  have b: "drop_bit (7 - i mod 8) (x ! (i div 8)) AND 1 \<noteq> 0 \<longleftrightarrow> bit (gf_word x) (127 - i)"
    unfolding i(1) and_1_neq_0 q_def [symmetric] r_def [symmetric]
    using bit_gf_word_qr [OF assms, of "7 - r" "15 - q"] i(2-4) by (simp add: bit_drop_bit_eq)
  have l: "length (gf_shift v) = 16" "length (xor_bytes z v) = 16"
    using Suc.prems by (auto simp: gf_shift_def Let_def)
  have n: "n + (i + 1) = 128" using Suc.prems(3) by simp
  note w = gf_word_shift [OF Suc.prems(1)] gf_word_xor [OF Suc.prems(2,1)]
  show ?case
  proof (cases "bit (gf_word x) (127 - i)")
    case True
    then show ?thesis
      using Suc.IH [OF l n] b by (simp only: gf_loop.simps gf_sum.simps if_True w xor.assoc simp_thms)
  next
    case False
    then show ?thesis
      using Suc.IH [OF l(1) Suc.prems(2) n] b by (simp only: gf_loop.simps gf_sum.simps if_False w xor.left_neutral simp_thms)
  qed
qed simp

lemma Gf128Mul_word: "length x = 16 \<Longrightarrow> length y = 16 \<Longrightarrow> gf_word (Gf128Mul x y) = gf_mult (gf_word x) (gf_word y)"
  using gf_loop_word [of x y "zeros 16" 128 0] by (simp add: Gf128Mul_def gf_mult_def gf_word_zeros)

text \<open>The blocks of a message, the last one padded with zeros.\<close>

function pad_blocks :: "bytes \<Rightarrow> bytes list" where
  "pad_blocks bs = (if bs = [] then [] else (take 16 bs @ zeros (16 - length bs)) # pad_blocks (drop 16 bs))"
  by auto
termination
  by (relation "measure length") auto

declare pad_blocks.simps [simp del]

lemma gf_mulx_xor: "gf_mulx (a XOR b) = gf_mulx a XOR gf_mulx b"
  by (rule bit_eqI) (auto simp: gf_mulx_def bit_xor_iff bit_drop_bit_eq)

lemma gf_sum_right: "gf_sum n i x (a XOR b) = gf_sum n i x a XOR gf_sum n i x b"
proof (induction n arbitrary: i a b)
  case (Suc n)
  show ?case by (simp add: gf_mulx_xor Suc.IH ac_simps)
qed simp

lemma gf_sum_left: "gf_sum n i (a XOR b) v = gf_sum n i a v XOR gf_sum n i b v"
proof (induction n arbitrary: i v)
  case (Suc n)
  have "(if bit (a XOR b) (127 - i) then v else 0) =
      (if bit a (127 - i) then v else 0) XOR (if bit b (127 - i) then v else 0)" by (simp add: bit_xor_iff)
  then show ?case unfolding gf_sum.simps Suc.IH by (simp only: ac_simps)
qed simp

lemma length_pad_block: "length (take 16 bs @ zeros (16 - length bs)) = 16"
  by simp

lemma GhashUpdate_word:
  "length y = 16 \<Longrightarrow> length h = 16 \<Longrightarrow>
     gf_word (GhashUpdate y h bs) = foldl (\<lambda>acc b. gf_mult (acc XOR gf_word b) (gf_word h)) (gf_word y) (pad_blocks bs)"
proof (induction y h bs rule: GhashUpdate.induct)
  case (1 y h bs)
  show ?case
  proof (cases "bs = []")
    case True
    then show ?thesis by (simp add: GhashUpdate.simps pad_blocks.simps)
  next
    case False
    define b where "b = take 16 bs @ zeros (16 - length bs)"
    have lb: "length b = 16" unfolding b_def by (rule length_pad_block)
    have l: "length (xor_bytes y b) = 16" using 1(2) lb by simp
    have g: "GhashUpdate y h bs = GhashUpdate (Gf128Mul (xor_bytes y b) h) h (drop 16 bs)"
      using False by (subst GhashUpdate.simps) (simp add: b_def Let_def)
    have p: "pad_blocks bs = b # pad_blocks (drop 16 bs)"
      using False by (subst pad_blocks.simps) (simp add: b_def)
    show ?thesis
      unfolding g p foldl.simps
      using 1(1) [OF False b_def length_Gf128Mul [OF 1(3)] 1(3)] Gf128Mul_word [OF l 1(3)] gf_word_xor [OF 1(2) lb]
      by simp
  qed
qed

text \<open>C31. The byte-by-byte GHASH of the engine is the polynomial hash of GCM over 128-bit words: with the
  bits of a block as coefficients, each padded block is added to the accumulator and the sum multiplied by
  the hash key, where the product is the sum of the shifts of the key that the bits select, reduced at each
  shift; and this product is linear in both factors.\<close>

theorem ghash_is_polynomial_hash:
  assumes "length y = 16" and "length h = 16"
  shows "gf_word (GhashUpdate y h bs) =
      foldl (\<lambda>acc b. gf_mult (acc XOR gf_word b) (gf_word h)) (gf_word y) (pad_blocks bs) \<and>
    gf_word (Gf128Mul y h) = gf_mult (gf_word y) (gf_word h) \<and>
    gf_mult (a XOR b) c = gf_mult a c XOR gf_mult b c \<and> gf_mult a (b XOR c) = gf_mult a b XOR gf_mult a c"
  using GhashUpdate_word [OF assms] Gf128Mul_word [OF assms] gf_sum_left gf_sum_right by (simp add: gf_mult_def)

lemma ghash_is_polynomial_hash_witness:
  "gf_word (Gf128Mul (1 # zeros 15) (2 # zeros 15)) = gf_mult (gf_word (1 # zeros 15)) (gf_word (2 # zeros 15))"
proof -
  have "length (1 # zeros 15) = 16" "length (2 # zeros 15) = 16" by simp_all
  then show ?thesis using ghash_is_polynomial_hash [of "1 # zeros 15" "2 # zeros 15"] by blast
qed

end
