(* ===== verification/TextFormat.thy ===== *)
theory TextFormat
  imports EbPrelude
begin

text \<open>
  Numbers as text: what \<open>std::to_string\<close> and the hexadecimal \<open>snprintf\<close> conversions print, and
  reading digits back. Shared by the pack names and the JSON files of the engine.
\<close>

definition digit_chars :: string where
  "digit_chars = ''0123456789abcdef''"

definition digit_char :: "nat \<Rightarrow> char" where
  "digit_char d = digit_chars ! d"

fun digits_of :: "nat \<Rightarrow> nat \<Rightarrow> string" where
  "digits_of b n = (if b < 2 \<or> n < b then [digit_char n] else digits_of b (n div b) @ [digit_char (n mod b)])"

declare digits_of.simps [simp del]

text \<open>\<open>std::to_string\<close> of an unsigned integer, and \<open>%x\<close>.\<close>

definition dec_string :: "nat \<Rightarrow> string" where
  "dec_string n = digits_of 10 n"

definition hex_string :: "nat \<Rightarrow> string" where
  "hex_string n = digits_of 16 n"

definition int_string :: "int \<Rightarrow> string" where
  "int_string i = (if i < 0 then CHR ''-'' # dec_string (nat (- i)) else dec_string (nat i))"

definition pad_zeros :: "nat \<Rightarrow> string \<Rightarrow> string" where
  "pad_zeros w s = replicate (w - length s) (CHR ''0'') @ s"

text \<open>\<open>HexU64\<close> of \<open>common/crc32.h\<close>.\<close>

definition HexU64 :: "u64 \<Rightarrow> string" where
  "HexU64 v = pad_zeros 16 (hex_string (unat v))"

definition digit_value :: "char \<Rightarrow> nat option" where
  "digit_value c =
     (let n = of_char c :: nat in
      if 48 \<le> n \<and> n \<le> 57 then Some (n - 48)
      else if 97 \<le> n \<and> n \<le> 102 then Some (n - 87) else None)"

text \<open>The value of a run of digits, most significant first.\<close>

definition digits_value :: "nat \<Rightarrow> string \<Rightarrow> nat" where
  "digits_value b s = foldl (\<lambda>a c. a * b + (case digit_value c of Some d \<Rightarrow> d | None \<Rightarrow> 0)) 0 s"

definition is_digit :: "char \<Rightarrow> bool" where
  "is_digit c \<longleftrightarrow> CHR ''0'' = c \<or> c \<in> set ''123456789''"

lemma digit_value_char: "d < 16 \<Longrightarrow> digit_value (digit_char d) = Some d"
proof -
  have "\<forall>d \<in> set [0..<16]. digit_value (digit_char d) = Some d" by code_simp
  then show "d < 16 \<Longrightarrow> digit_value (digit_char d) = Some d" by simp
qed

lemma is_digit_char: "d < 10 \<Longrightarrow> is_digit (digit_char d)"
proof -
  have "\<forall>d \<in> set [0..<10]. is_digit (digit_char d)" by code_simp
  then show "d < 10 \<Longrightarrow> is_digit (digit_char d)" by simp
qed

lemma digits_value_append: "digits_value b (s @ [c]) =
    digits_value b s * b + (case digit_value c of Some d \<Rightarrow> d | None \<Rightarrow> 0)"
  by (simp add: digits_value_def)

lemma digits_value_zeros: "digits_value b (replicate k (CHR ''0'') @ s) = digits_value b s"
proof -
  have z: "digit_value (CHR ''0'') = Some 0" by code_simp
  have "foldl (\<lambda>a c. a * b + (case digit_value c of Some d \<Rightarrow> d | None \<Rightarrow> 0)) 0 (replicate k (CHR ''0'')) = 0"
    by (induction k) (simp_all add: z)
  then show ?thesis by (simp add: digits_value_def)
qed

lemma digits_value_digits: "1 < b \<Longrightarrow> b \<le> 16 \<Longrightarrow> digits_value b (digits_of b n) = n"
proof (induction b n rule: digits_of.induct)
  case (1 b n)
  show ?case
  proof (cases "n < b")
    case True
    then show ?thesis using 1 by (subst digits_of.simps) (simp add: digits_value_def digit_value_char)
  next
    case False
    then have "digits_value b (digits_of b (n div b)) = n div b" using 1 by simp
    moreover have "n mod b < 16" using 1 mod_less_divisor [of b n] by linarith
    ultimately show ?thesis
      using False 1 by (subst digits_of.simps) (simp add: digits_value_append digit_value_char)
  qed
qed

lemma digits_of_ne: "digits_of b n \<noteq> []"
  by (subst digits_of.simps) simp

lemma digits_of_is_digit: "c \<in> set (digits_of 10 n) \<Longrightarrow> is_digit c"
proof (induction "10 :: nat" n rule: digits_of.induct)
  case (1 n)
  then show ?case
    by (subst (asm) (2) digits_of.simps) (auto simp: is_digit_char split: if_splits)
qed

lemma digit_char_not_dash: "d < 16 \<Longrightarrow> digit_char d \<noteq> CHR ''-''"
proof -
  have "\<forall>d \<in> set [0..<16]. digit_char d \<noteq> CHR ''-''" by code_simp
  then show "d < 16 \<Longrightarrow> digit_char d \<noteq> CHR ''-''" by simp
qed

lemma digits_of_no_dash: "1 < b \<Longrightarrow> b \<le> 16 \<Longrightarrow> CHR ''-'' \<notin> set (digits_of b n)"
proof (induction b n rule: digits_of.induct)
  case (1 b n)
  have "n mod b < 16" using 1 mod_less_divisor [of b n] by linarith
  then show ?case
    using 1 digit_char_not_dash [of "n mod b"] digit_char_not_dash [of n]
    by (subst digits_of.simps) auto
qed

lemma dec_value: "digits_value 10 (dec_string n) = n"
  by (simp add: dec_string_def digits_value_digits)

lemma hex_value: "digits_value 16 (pad_zeros w (hex_string n)) = n"
  by (simp add: pad_zeros_def digits_value_zeros hex_string_def digits_value_digits)

lemma hex_no_dash: "CHR ''-'' \<notin> set (pad_zeros w (hex_string n))"
  by (simp add: pad_zeros_def hex_string_def digits_of_no_dash)

lemma dec_string_inj: "dec_string a = dec_string b \<Longrightarrow> a = b"
  by (metis dec_value)

lemma dec_string_digits: "c \<in> set (dec_string n) \<Longrightarrow> is_digit c"
  by (simp add: dec_string_def digits_of_is_digit)

lemma dec_string_ne: "dec_string n \<noteq> []"
  by (simp add: dec_string_def digits_of_ne)

lemma pad_hex_inj: "pad_zeros w (hex_string a) = pad_zeros w (hex_string b) \<Longrightarrow> a = b"
  by (metis hex_value)

lemma digits_of_chars: "1 < b \<Longrightarrow> b \<le> 16 \<Longrightarrow> c \<in> set (digits_of b n) \<Longrightarrow> c \<in> digit_char ` {..<16}"
proof (induction b n rule: digits_of.induct)
  case (1 b n)
  have "n mod b < 16" using 1 mod_less_divisor [of b n] by linarith
  then show ?case
    using 1 by (subst (asm) (2) digits_of.simps) (auto split: if_splits)
qed

lemma digit_char_set: "digit_char ` {..<16} = set ''0123456789abcdef''"
proof -
  have "digit_char ` set [0..<16] = set ''0123456789abcdef''" by code_simp
  then show ?thesis by (simp add: lessThan_atLeast0)
qed

lemma length_digits_of: "1 < b \<Longrightarrow> n < b ^ k \<Longrightarrow> 0 < k \<Longrightarrow> length (digits_of b n) \<le> k"
proof (induction k arbitrary: n)
  case (Suc k)
  show ?case
  proof (cases "n < b")
    case True
    then show ?thesis by (subst digits_of.simps) simp
  next
    case False
    then have k: "0 < k" using Suc.prems by (cases k) auto
    have "n div b < b ^ k" using Suc.prems(2) by (simp add: less_mult_imp_div_less mult.commute)
    from Suc.IH [OF Suc.prems(1) this k] show ?thesis using False by (subst digits_of.simps) simp
  qed
qed simp

text \<open>Splitting at a separator that does not occur before it.\<close>

lemma append_sep_eq:
  assumes "xs @ c # ys = xs' @ c # ys'" and "c \<notin> set xs" and "c \<notin> set xs'"
  shows "xs = xs' \<and> ys = ys'"
  using assms
proof (induction xs arbitrary: xs')
  case Nil
  then show ?case by (cases xs') auto
next
  case (Cons x xs)
  then show ?case by (cases xs') auto
qed

end
