(* ===== verification/JsonField.thy ===== *)
theory JsonField
  imports TextFormat
begin

text \<open>
  The field readers of \<open>engine/restore_options_json.cc\<close>, with which the engine reads its own JSON files:
  finding a quoted key in a text, parsing a string value with its escapes, an array of strings, an
  unsigned number and a truth value. A position in the text is the text that is left from there. The
  lemmas say what a reader returns for a text in which the key stands where the writer put it.
\<close>

section \<open>Scanning\<close>

definition isspace :: "char \<Rightarrow> bool" where
  "isspace c \<longleftrightarrow> c \<in> {CHR '' '', CHR 0x09, CHR 0x0A, CHR 0x0B, CHR 0x0C, CHR 0x0D}"

definition SkipWs :: "string \<Rightarrow> string" where
  "SkipWs s = dropWhile isspace s"

text \<open>\<open>std::string::find\<close> from the first argument's position on.\<close>

fun str_find :: "nat \<Rightarrow> string \<Rightarrow> string \<Rightarrow> nat option" where
  "str_find k needle [] = (if needle = [] then Some k else None)"
| "str_find k needle (c # cs) =
     (if take (length needle) (c # cs) = needle then Some k else str_find (k + 1) needle cs)"

definition find_at :: "string \<Rightarrow> string \<Rightarrow> nat \<Rightarrow> nat option" where
  "find_at s needle p = (if p \<le> length s then str_find p needle (drop p s) else None)"

lemma str_find_range: "str_find k needle s = Some q \<Longrightarrow> k \<le> q \<and> q + length needle \<le> k + length s"
proof (induction k needle s rule: str_find.induct)
  case (2 k needle c cs)
  show ?case
  proof (cases "take (length needle) (c # cs) = needle")
    case True
    then have "length needle \<le> length (c # cs)" by (metis length_take min.cobounded1)
    then show ?thesis using 2(2) True by auto
  qed (use 2 in auto)
qed (auto split: if_splits)

lemma find_at_range: "find_at s needle p = Some q \<Longrightarrow> p \<le> q \<and> q + length needle \<le> length s"
  using str_find_range [of p needle "drop p s" q] by (auto simp: find_at_def split: if_splits)

definition json_needle :: "string \<Rightarrow> string" where
  "json_needle key = CHR 0x22 # key @ [CHR 0x22, CHR '':'']"

text \<open>\<open>FindJsonKey\<close>: an occurrence counts only at the start or after a brace, a comma or white space.\<close>

function find_key_from :: "string \<Rightarrow> string \<Rightarrow> nat \<Rightarrow> nat option" where
  "find_key_from s key p =
     (case find_at s (json_needle key) p of
        None \<Rightarrow> None
      | Some q \<Rightarrow>
          if q = 0 \<or> s ! (q - 1) = CHR ''{'' \<or> s ! (q - 1) = CHR '','' \<or> isspace (s ! (q - 1)) then Some q
          else find_key_from s key (q + length (json_needle key)))"
  by auto
termination
proof (relation "measure (\<lambda>(s, key, p). length s + 1 - p)")
  fix s key :: string and p q
  assume "find_at s (json_needle key) p = Some q"
  then have "p \<le> q" "q + length (json_needle key) \<le> length s" "2 < length (json_needle key)"
    using find_at_range [of s "json_needle key" p q] by (simp_all add: json_needle_def)
  then have "length s + 1 - (q + length (json_needle key)) < length s + 1 - p" by linarith
  then show "((s, key, q + length (json_needle key)), s, key, p) \<in> measure (\<lambda>(s, key, p). length s + 1 - p)" by simp
qed simp

declare find_key_from.simps [simp del]

definition FindJsonKey :: "string \<Rightarrow> string \<Rightarrow> nat option" where
  "FindJsonKey s key = find_key_from s key 0"

section \<open>Values\<close>

fun json_string_body :: "string \<Rightarrow> string \<Rightarrow> Status + (string \<times> string)" where
  "json_string_body value [] = Inl (InvalidArgument ''unterminated json string'')"
| "json_string_body value (c # cs) =
     (if c = CHR 0x22 then Inr (value, cs)
      else if c = CHR 0x5C then
        (case cs of
           [] \<Rightarrow> Inl (InvalidArgument ''bad json escape'')
         | e # es \<Rightarrow>
             if e \<in> {CHR 0x22, CHR 0x5C, CHR ''/''} then json_string_body (value @ [e]) es
             else if e = CHR ''n'' then json_string_body (value @ [CHR 0x0A]) es
             else if e = CHR ''r'' then json_string_body (value @ [CHR 0x0D]) es
             else if e = CHR ''t'' then json_string_body (value @ [CHR 0x09]) es
             else Inl (InvalidArgument ''unsupported json escape''))
      else json_string_body (value @ [c]) cs)"

definition ParseJsonString :: "string \<Rightarrow> Status + (string \<times> string)" where
  "ParseJsonString s =
     (case SkipWs s of
        [] \<Rightarrow> Inl (InvalidArgument ''expected string in json'')
      | c # cs \<Rightarrow> if c \<noteq> CHR 0x22 then Inl (InvalidArgument ''expected string in json'') else json_string_body [] cs)"

lemma json_string_body_shorter: "json_string_body v s = Inr (w, rest) \<Longrightarrow> length rest < length s"
  by (induction v s rule: json_string_body.induct) (auto split: if_splits list.splits)

lemma length_SkipWs: "length (SkipWs s) \<le> length s"
  by (simp add: SkipWs_def length_dropWhile_le)

lemma ParseJsonString_shorter: "ParseJsonString s = Inr (w, rest) \<Longrightarrow> length rest < length s"
  using json_string_body_shorter length_SkipWs [of s]
  by (fastforce simp: ParseJsonString_def split: list.splits if_splits)

text \<open>The items of an array after its bracket; the array is what has been pushed when an error stops it.\<close>

function json_items :: "string list \<Rightarrow> string \<Rightarrow> Status \<times> string list" where
  "json_items acc s =
     (if s = [] then (InvalidArgument ''unterminated json array'', acc)
      else case ParseJsonString s of
        Inl e \<Rightarrow> (e, acc)
      | Inr (item, rest) \<Rightarrow>
          (case SkipWs rest of
             [] \<Rightarrow> (InvalidArgument ''bad json array'', acc @ [item])
           | c # cs \<Rightarrow>
               if c = CHR '','' then json_items (acc @ [item]) cs
               else if c = CHR '']'' then (Status_Ok, acc @ [item])
               else (InvalidArgument ''bad json array'', acc @ [item])))"
  by auto
termination
proof (relation "measure (\<lambda>(acc, s). length s)")
  fix acc s item rest c cs and x :: "string \<times> string"
  assume "ParseJsonString s = Inr x" "(item, rest) = x" "SkipWs rest = c # cs" "c = CHR '',''"
  then show "((acc @ [item], cs), acc, s) \<in> measure (\<lambda>(acc, s). length s)"
    using ParseJsonString_shorter [of s item rest] length_SkipWs [of rest] by auto
qed simp

declare json_items.simps [simp del]

definition ParseStringArray :: "string \<Rightarrow> Status \<times> string list" where
  "ParseStringArray s =
     (case SkipWs s of
        [] \<Rightarrow> (InvalidArgument ''expected json array'', [])
      | c # cs \<Rightarrow>
          if c \<noteq> CHR ''['' then (InvalidArgument ''expected json array'', [])
          else (case SkipWs cs of
                  [] \<Rightarrow> (InvalidArgument ''unterminated json array'', [])
                | d # ds \<Rightarrow> if d = CHR '']'' then (Status_Ok, []) else json_items [] (d # ds)))"

section \<open>Fields\<close>

text \<open>A missing field leaves the value empty and is no error.\<close>

definition ReadJsonStringField :: "string \<Rightarrow> string \<Rightarrow> Status + string" where
  "ReadJsonStringField s key =
     (case FindJsonKey s key of
        None \<Rightarrow> Inr []
      | Some pos \<Rightarrow> map_sum id fst (ParseJsonString (drop (pos + length key + 3) s)))"

definition ReadJsonStringArrayField :: "string \<Rightarrow> string \<Rightarrow> Status \<times> string list" where
  "ReadJsonStringArrayField s key =
     (case FindJsonKey s key of
        None \<Rightarrow> (Status_Ok, [])
      | Some pos \<Rightarrow> ParseStringArray (drop (pos + length key + 3) s))"

text \<open>
  \<open>strtoull\<close> in base 10 on a run of digits, dots and signs: an optional sign, then digits; too large a
  value becomes the maximum, and a negated one wraps around.
\<close>

definition strtoull :: "string \<Rightarrow> u64" where
  "strtoull s =
     (let neg = (s \<noteq> [] \<and> hd s = CHR ''-'');
          ds = takeWhile is_digit (if neg then tl s else s);
          n = digits_value 10 ds
      in if n \<ge> 2 ^ 64 then - 1 else if neg then - word_of_nat n else word_of_nat n)"

text \<open>The number reader takes the first occurrence of the key, wherever it is.\<close>

definition ParseU64Field :: "string \<Rightarrow> string \<Rightarrow> u64 option" where
  "ParseU64Field json key =
     (case find_at json (json_needle key) 0 of
        None \<Rightarrow> None
      | Some pos \<Rightarrow>
          Some (strtoull (takeWhile (\<lambda>c. is_digit c \<or> c = CHR ''.'' \<or> c = CHR ''-'')
            (SkipWs (drop (pos + length (json_needle key)) json)))))"

text \<open>The result is the status, which never says that the field is missing, and the value if it was found.\<close>

definition ReadJsonU64Field :: "string \<Rightarrow> string \<Rightarrow> Status \<times> u64 option" where
  "ReadJsonU64Field json key = (Status_Ok, ParseU64Field json key)"

definition ParseBoolField :: "string \<Rightarrow> string \<Rightarrow> bool option" where
  "ParseBoolField json key =
     (case find_at json (json_needle key) 0 of
        None \<Rightarrow> None
      | Some pos \<Rightarrow>
          (let v = SkipWs (drop (pos + length (json_needle key)) json)
           in if take 4 v = ''true'' then Some True else if take 5 v = ''false'' then Some False else None))"

definition ReadJsonBoolField :: "string \<Rightarrow> string \<Rightarrow> Status \<times> bool option" where
  "ReadJsonBoolField json key = (Status_Ok, ParseBoolField json key)"

section \<open>Reading what a writer put there\<close>

text \<open>Text without a quote cannot hold the beginning of a key.\<close>

lemma str_find_skip:
  assumes "CHR 0x22 \<notin> set a"
  shows "str_find k (json_needle key) (a @ b) = str_find (k + length a) (json_needle key) b"
  using assms
proof (induction a arbitrary: k)
  case (Cons c a)
  have "take (length (json_needle key)) (c # a @ b) \<noteq> json_needle key"
    using Cons.prems by (auto simp: json_needle_def)
  then show ?case using Cons by simp
qed simp

lemma str_find_here: "str_find k (json_needle key) (json_needle key @ b) = Some k"
  by (cases "json_needle key @ b") (auto simp: json_needle_def)

text \<open>A quote that is not followed by the key is skipped.\<close>

lemma str_find_quote:
  assumes "take (length key + 2) b \<noteq> key @ [CHR 0x22, CHR '':'']"
  shows "str_find k (json_needle key) (CHR 0x22 # b) = str_find (k + 1) (json_needle key) b"
  using assms by (simp add: json_needle_def)

lemma json_string_body_plain:
  assumes "CHR 0x22 \<notin> set s" and "CHR 0x5C \<notin> set s"
  shows "json_string_body v (s @ CHR 0x22 # rest) = Inr (v @ s, rest)"
  using assms by (induction s arbitrary: v) auto

lemma ParseJsonString_plain:
  assumes "CHR 0x22 \<notin> set s" and "CHR 0x5C \<notin> set s"
  shows "ParseJsonString (CHR '' '' # CHR 0x22 # s @ CHR 0x22 # rest) = Inr (s, rest)"
  using json_string_body_plain [OF assms] by (simp add: ParseJsonString_def SkipWs_def isspace_def)

lemma strtoull_dec: "n < 2 ^ 64 \<Longrightarrow> strtoull (dec_string n) = word_of_nat n"
proof -
  assume n: "n < 2 ^ 64"
  have "hd (dec_string n) \<noteq> CHR ''-''"
    using dec_string_digits [of "hd (dec_string n)" n] dec_string_ne [of n] by (auto simp: is_digit_def)
  moreover have "takeWhile is_digit (dec_string n) = dec_string n"
    unfolding takeWhile_eq_all_conv using dec_string_digits by blast
  ultimately show ?thesis using n by (simp only: strtoull_def Let_def simp_thms if_False dec_value) simp
qed

section \<open>Reading a field behind text that does not hold its key\<close>

definition clear_of :: "string \<Rightarrow> string \<Rightarrow> bool" where
  "clear_of key pre \<longleftrightarrow> (\<forall>k b. str_find k (json_needle key) (pre @ b) = str_find (k + length pre) (json_needle key) b)"

lemma clear_append: "clear_of key a \<Longrightarrow> clear_of key b \<Longrightarrow> clear_of key (a @ b)"
  by (simp add: clear_of_def add.assoc)

lemma clear_plain: "CHR 0x22 \<notin> set a \<Longrightarrow> clear_of key a"
  by (simp add: clear_of_def str_find_skip)

text \<open>A quoted token is no key, unless it is the key and a colon follows.\<close>

lemma clear_quoted:
  assumes "CHR 0x22 \<notin> set w" and "CHR 0x22 \<notin> set key" and "key \<noteq> []" and "c \<noteq> hd key" and "c \<noteq> CHR 0x22"
    and "w \<noteq> key \<or> c \<noteq> CHR '':''"
  shows "clear_of key (CHR 0x22 # w @ [CHR 0x22, c])"
  unfolding clear_of_def
proof (intro allI)
  fix k b
  let ?nd = "json_needle key"
  have "take (length key + 2) (w @ CHR 0x22 # c # b) \<noteq> key @ [CHR 0x22, CHR '':'']"
  proof
    assume "take (length key + 2) (w @ CHR 0x22 # c # b) = key @ [CHR 0x22, CHR '':'']"
    then have "w @ CHR 0x22 # c # b = key @ CHR 0x22 # CHR '':'' # drop (length key + 2) (w @ CHR 0x22 # c # b)"
      by (metis append.assoc append_Cons append_Nil append_take_drop_id)
    from append_sep_eq [OF this assms(1,2)] show False using assms(6) by simp
  qed
  then have "str_find k ?nd (CHR 0x22 # w @ CHR 0x22 # c # b) = str_find (k + 1) ?nd (w @ CHR 0x22 # c # b)"
    by (rule str_find_quote)
  also have "\<dots> = str_find (k + 1 + length w) ?nd (CHR 0x22 # c # b)" by (rule str_find_skip [OF assms(1)])
  also have "\<dots> = str_find (k + 1 + length w + 1) ?nd (c # b)"
    by (rule str_find_quote) (use assms(3,4) in \<open>cases key; auto\<close>)
  also have "\<dots> = str_find (k + 1 + length w + 1 + 1) ?nd b"
    using str_find_skip [of "[c]" _ key b] assms(5) by simp
  finally show "str_find k ?nd ((CHR 0x22 # w @ [CHR 0x22, c]) @ b) =
      str_find (k + length (CHR 0x22 # w @ [CHR 0x22, c])) ?nd b" by (simp add: add.commute add.left_commute)
qed

lemma find_at_clear: "clear_of key pre \<Longrightarrow> find_at (pre @ json_needle key @ rest) (json_needle key) 0 = Some (length pre)"
  unfolding find_at_def clear_of_def using str_find_here by simp

text \<open>What the readers return for a key that the text before it is clear of.\<close>

definition number_char :: "char \<Rightarrow> bool" where
  "number_char c \<longleftrightarrow> is_digit c \<or> c = CHR ''.'' \<or> c = CHR ''-''"

lemma SkipWs_space: "list_all isspace ws \<Longrightarrow> v \<noteq> [] \<Longrightarrow> \<not> isspace (hd v) \<Longrightarrow> SkipWs (ws @ v @ rest) = v @ rest"
  by (cases v) (auto simp: SkipWs_def list_all_iff dropWhile_append)

lemma read_string_field:
  assumes "clear_of key pre" and "pre \<noteq> []" and "isspace (last pre) \<or> last pre \<in> {CHR ''{'', CHR '',''}"
    and "list_all isspace ws" and "CHR 0x22 \<notin> set v" and "CHR 0x5C \<notin> set v"
    and "s = pre @ json_needle key @ ws @ CHR 0x22 # v @ CHR 0x22 # rest"
  shows "ReadJsonStringField s key = Inr v"
proof -
  let ?r = "ws @ CHR 0x22 # v @ CHR 0x22 # rest"
  have f: "find_at s (json_needle key) 0 = Some (length pre)"
    unfolding assms(7) by (rule find_at_clear [OF assms(1)])
  have l: "s ! (length pre - 1) = last pre" using assms(2) unfolding assms(7) by (simp add: nth_append last_conv_nth)
  have c: "length pre = 0 \<or> s ! (length pre - 1) = CHR ''{'' \<or> s ! (length pre - 1) = CHR '','' \<or> isspace (s ! (length pre - 1))"
    using assms(3) unfolding l by blast
  have "FindJsonKey s key = Some (length pre)"
    unfolding FindJsonKey_def by (subst find_key_from.simps) (simp only: f option.case c if_True)
  moreover have "drop (length pre + length (json_needle key)) s = ?r" unfolding assms(7) by simp
  then have "drop (length pre + length key + 3) s = ?r" by (simp add: json_needle_def numeral_3_eq_3)
  moreover have "SkipWs ?r = CHR 0x22 # v @ CHR 0x22 # rest"
    using SkipWs_space [OF assms(4), of "[CHR 0x22]" "v @ CHR 0x22 # rest"] by (simp add: isspace_def)
  ultimately show ?thesis
    using json_string_body_plain [OF assms(5,6)] by (simp add: ReadJsonStringField_def ParseJsonString_def)
qed

lemma parse_u64_field:
  assumes "clear_of key pre" and "list_all isspace ws" and "v \<noteq> []" and "list_all number_char v" and "\<not> number_char c"
    and "s = pre @ json_needle key @ ws @ v @ c # rest"
  shows "ParseU64Field s key = Some (strtoull v)"
proof -
  have f: "find_at s (json_needle key) 0 = Some (length pre)"
    unfolding assms(6) by (rule find_at_clear [OF assms(1)])
  have d: "drop (length pre + length (json_needle key)) s = ws @ v @ c # rest"
    unfolding assms(6) by simp
  have "number_char (hd v)" using assms(3,4) by (cases v) auto
  then have "\<not> isspace (hd v)" by (auto simp: number_char_def is_digit_def isspace_def)
  then have w: "SkipWs (ws @ v @ c # rest) = v @ c # rest" by (rule SkipWs_space [OF assms(2,3)])
  have "takeWhile number_char (v @ c # rest) = v"
    using assms(4,5) by (subst takeWhile_append2) (auto simp: list_all_iff)
  then show ?thesis
    unfolding ParseU64Field_def f option.case d w number_char_def [abs_def] by simp
qed

lemma dec_string_number: "list_all number_char (dec_string n)"
  using dec_string_digits [of _ n] by (auto simp: list_all_iff number_char_def)

end
