(* ===== verification/Envelope.thy ===== *)
theory Envelope
  imports AesGcm Digest JsonField
begin

text \<open>
  The key envelope of an encrypted repository (\<open>crypto/envelope.cc\<close>) and the key functions of
  \<open>crypto/aes_gcm.cc\<close>: a random master key is wrapped under a key derived from the password and under
  one derived from a recovery key, and both wraps are kept in a JSON file. The repository's files
  \<open>crypto.salt\<close> and \<open>crypto.envelope.json\<close> are two optional contents; random bytes and the outcome of
  file operations are parameters. An outer \<open>None\<close> is undefined behaviour of the legacy key derivation.
\<close>

section \<open>Base64 and hexadecimal (crypto/envelope.cc)\<close>

definition base64_table :: string where
  "base64_table = ''ABCDEFGHIJKLMNOPQRSTUVWXYZabcdefghijklmnopqrstuvwxyz0123456789+/''"

definition b64_char :: "nat \<Rightarrow> char" where
  "b64_char n = base64_table ! (n mod 64)"

definition group_value :: "byte \<Rightarrow> nat \<Rightarrow> nat \<Rightarrow> nat" where
  "group_value a b c = unat a * 2 ^ 16 + b * 2 ^ 8 + c"

fun Base64Encode :: "bytes \<Rightarrow> string" where
  "Base64Encode [] = []"
| "Base64Encode [a] =
     (let n = group_value a 0 0 in [b64_char (n div 2 ^ 18), b64_char (n div 2 ^ 12), CHR ''='', CHR ''=''])"
| "Base64Encode [a, b] =
     (let n = group_value a (unat b) 0 in
      [b64_char (n div 2 ^ 18), b64_char (n div 2 ^ 12), b64_char (n div 2 ^ 6), CHR ''=''])"
| "Base64Encode (a # b # c # bs) =
     (let n = group_value a (unat b) (unat c) in
      [b64_char (n div 2 ^ 18), b64_char (n div 2 ^ 12), b64_char (n div 2 ^ 6), b64_char n] @ Base64Encode bs)"

definition b64_val :: "char \<Rightarrow> int" where
  "b64_val c =
     (let n = int (of_char c) in
      if 65 \<le> n \<and> n \<le> 90 then n - 65
      else if 97 \<le> n \<and> n \<le> 122 then n - 97 + 26
      else if 48 \<le> n \<and> n \<le> 57 then n - 48 + 52
      else if n = 43 then 62 else if n = 47 then 63 else - 1)"

text \<open>
  The accumulator is never masked, so it overflows its 32 bits; it is taken modulo 2^32, as compilers do.
\<close>

fun b64_loop :: "string \<Rightarrow> nat \<Rightarrow> nat \<Rightarrow> bytes" where
  "b64_loop [] buf bits = []"
| "b64_loop (c # cs) buf bits =
     (if c = CHR ''='' then []
      else if b64_val c < 0 then b64_loop cs buf bits
      else let buf1 = (buf * 64 + nat (b64_val c)) mod 2 ^ 32; bits1 = bits + 6
           in if bits1 \<ge> 8 then word_of_nat (buf1 div 2 ^ (bits1 - 8) mod 256) # b64_loop cs buf1 (bits1 - 8)
              else b64_loop cs buf1 bits1)"

definition Base64Decode :: "string \<Rightarrow> bytes" where
  "Base64Decode s = b64_loop s 0 0"

section \<open>Keys and salt (crypto/aes_gcm.cc, crypto/envelope.cc)\<close>

definition kMasterKeySize :: nat where "kMasterKeySize = 32"

record crypto_files =
  salt_file :: "bytes option"
  envelope_file :: "string option"

record crypto_io =
  salt_open_ok :: bool
  salt_create_ok :: bool
  salt_write_ok :: bool
  salt_written :: nat
  salt_fsync :: Status
  env_open_ok :: bool
  env_create_ok :: bool
  env_write_ok :: bool
  env_written :: nat
  env_fsync :: Status

definition LoadOrCreateRepoSalt ::
  "crypto_io \<Rightarrow> (nat \<Rightarrow> u32) \<Rightarrow> crypto_files \<Rightarrow> (Status + bytes) \<times> crypto_files" where
  "LoadOrCreateRepoSalt io rd fs =
     (case salt_file fs of
        Some bs \<Rightarrow>
          if \<not> salt_open_ok io then (Inl (IoError ''cannot open salt''), fs)
          else if length bs < 16 then (Inl (Corrupt ''salt read short''), fs)
          else (Inr (take 16 bs), fs)
      | None \<Rightarrow>
          let salt = random_bytes rd 16 in
          if \<not> salt_create_ok io then (Inl (IoError ''cannot create salt''), fs)
          else if \<not> salt_write_ok io
          then (Inl (IoError ''salt write failed''), fs\<lparr>salt_file := Some (take (salt_written io) salt)\<rparr>)
          else (if status_ok (salt_fsync io) then Inr salt else Inl (salt_fsync io), fs\<lparr>salt_file := Some salt\<rparr>))"

definition DeriveContentKey :: "string \<Rightarrow> bytes \<Rightarrow> DigestAlgo \<Rightarrow> (Status + bytes) option" where
  "DeriveContentKey password salt algo =
     (if password = [] then Some (Inl (InvalidArgument ''empty password''))
      else map_option Inr (Pbkdf2Sha256 algo (string_bytes password) salt 100000 (zeros 32)))"

definition DeriveWrapKey :: "string \<Rightarrow> bytes \<Rightarrow> DigestAlgo \<Rightarrow> (Status + bytes) option" where
  "DeriveWrapKey secret salt algo =
     (if secret = [] then Some (Inl (InvalidArgument ''empty wrap secret''))
      else map_option Inr (Pbkdf2Sha256 algo (string_bytes secret) salt 100000 (zeros 32)))"

definition kRecoveryAlphabet :: string where
  "kRecoveryAlphabet = ''ABCDEFGHJKLMNPQRSTUVWXYZ23456789''"

definition GenerateRecoveryKey :: "(nat \<Rightarrow> u32) \<Rightarrow> string" where
  "GenerateRecoveryKey rd = map (\<lambda>i. kRecoveryAlphabet ! (unat (rd i) mod 32)) [0..<26]"

definition WrapMasterKey ::
  "(nat \<Rightarrow> u32) \<Rightarrow> bytes \<Rightarrow> string \<Rightarrow> bytes \<Rightarrow> DigestAlgo \<Rightarrow> (Status + bytes) option" where
  "WrapMasterKey rd master_key secret salt algo =
     map_option (map_sum id (\<lambda>wrap_key. Aes256GcmEncrypt rd wrap_key master_key)) (DeriveWrapKey secret salt algo)"

definition UnwrapMasterKeyBlob :: "bytes \<Rightarrow> string \<Rightarrow> bytes \<Rightarrow> DigestAlgo \<Rightarrow> (Status + bytes) option" where
  "UnwrapMasterKeyBlob blob secret salt algo =
     map_option (\<lambda>dk. case dk of
         Inl e \<Rightarrow> Inl e
       | Inr wrap_key \<Rightarrow>
           (case Aes256GcmDecrypt wrap_key blob of
              Inl e \<Rightarrow> Inl e
            | Inr plain \<Rightarrow>
                if length plain \<noteq> kMasterKeySize then Inl (Corrupt ''invalid master key length'') else Inr plain))
       (DeriveWrapKey secret salt algo)"

section \<open>The envelope file\<close>

record CryptoEnvelope =
  env_version :: u32
  env_salt :: bytes
  wrap_password :: bytes
  wrap_recovery :: bytes

definition qt :: string where "qt = [CHR 0x22]"
definition nl :: string where "nl = [CHR 0x0A]"

definition envelope_text :: "CryptoEnvelope \<Rightarrow> string" where
  "envelope_text env =
     ''{'' @ nl @
     ''  '' @ qt @ ''version'' @ qt @ '': '' @ dec_string (unat (env_version env)) @ '','' @ nl @
     ''  '' @ qt @ ''salt'' @ qt @ '': '' @ qt @ BytesToHex (env_salt env) @ qt @ '','' @ nl @
     ''  '' @ qt @ ''kdf'' @ qt @ '': '' @ qt @ ''pbkdf2-sha256-100000'' @ qt @ '','' @ nl @
     ''  '' @ qt @ ''wrap_password'' @ qt @ '': '' @ qt @ Base64Encode (wrap_password env) @ qt @ '','' @ nl @
     ''  '' @ qt @ ''wrap_recovery'' @ qt @ '': '' @ qt @ Base64Encode (wrap_recovery env) @ qt @ nl @
     ''}'' @ nl"

definition parse_envelope :: "string \<Rightarrow> Status + CryptoEnvelope" where
  "parse_envelope json =
     (case ReadJsonU64Field json ''version'' of (st, ver) \<Rightarrow>
      if \<not> status_ok st then Inl (Corrupt ''envelope version missing'')
      else case ReadJsonStringField json ''salt'' of
        Inl _ \<Rightarrow> Inl (Corrupt ''envelope salt invalid'')
      | Inr salt_hex \<Rightarrow>
      case HexToBytes salt_hex 16 of
        None \<Rightarrow> Inl (Corrupt ''envelope salt invalid'')
      | Some salt \<Rightarrow>
      case (ReadJsonStringField json ''wrap_password'', ReadJsonStringField json ''wrap_recovery'') of
        (Inr wrap_pw, Inr wrap_rk) \<Rightarrow>
          (let env = \<lparr>env_version = ucast (case ver of None \<Rightarrow> 0 | Some v \<Rightarrow> v), env_salt = salt,
                      wrap_password = Base64Decode wrap_pw, wrap_recovery = Base64Decode wrap_rk\<rparr>
           in if wrap_password env = [] \<or> wrap_recovery env = [] then Inl (Corrupt ''envelope wraps invalid'')
              else Inr env)
      | _ \<Rightarrow> Inl (Corrupt ''envelope wraps missing''))"

definition LoadEnvelope :: "crypto_io \<Rightarrow> crypto_files \<Rightarrow> Status + CryptoEnvelope" where
  "LoadEnvelope io fs =
     (case envelope_file fs of
        Some json \<Rightarrow> if env_open_ok io then parse_envelope json else Inl (NotFound ''crypto.envelope.json missing'')
      | None \<Rightarrow> Inl (NotFound ''crypto.envelope.json missing''))"

text \<open>The file is truncated when it is opened; a failing write leaves a part of the text.\<close>

definition SaveEnvelope :: "crypto_io \<Rightarrow> CryptoEnvelope \<Rightarrow> crypto_files \<Rightarrow> Status \<times> crypto_files" where
  "SaveEnvelope io env fs =
     (if \<not> env_create_ok io then (IoError ''cannot write crypto.envelope.json'', fs)
      else if \<not> env_write_ok io
      then (IoError ''envelope write failed'', fs\<lparr>envelope_file := Some (take (env_written io) (envelope_text env))\<rparr>)
      else (env_fsync io, fs\<lparr>envelope_file := Some (envelope_text env)\<rparr>))"

section \<open>Operations on the envelope\<close>

record crypto_random =
  rnd_salt :: "nat \<Rightarrow> u32"
  rnd_master :: "nat \<Rightarrow> u32"
  rnd_recovery :: "nat \<Rightarrow> u32"
  rnd_nonce1 :: "nat \<Rightarrow> u32"
  rnd_nonce2 :: "nat \<Rightarrow> u32"

text \<open>
  The wraps under password and recovery key and the file: the common part of creating an envelope and
  of upgrading a repository to one. On success the recovery key is handed out.
\<close>

definition wrap_and_save ::
  "crypto_io \<Rightarrow> crypto_random \<Rightarrow> DigestAlgo \<Rightarrow> bytes \<Rightarrow> bytes \<Rightarrow> string \<Rightarrow> crypto_files \<Rightarrow>
     ((Status + string) \<times> crypto_files) option" where
  "wrap_and_save io rnd algo salt master_key password fs =
     (let recovery_key = GenerateRecoveryKey (rnd_recovery rnd) in
      case WrapMasterKey (rnd_nonce1 rnd) master_key password salt algo of
        None \<Rightarrow> None
      | Some (Inl e) \<Rightarrow> Some (Inl e, fs)
      | Some (Inr wp) \<Rightarrow>
      case WrapMasterKey (rnd_nonce2 rnd) master_key recovery_key salt algo of
        None \<Rightarrow> None
      | Some (Inl e) \<Rightarrow> Some (Inl e, fs)
      | Some (Inr wr) \<Rightarrow>
          (case SaveEnvelope io \<lparr>env_version = 1, env_salt = salt, wrap_password = wp, wrap_recovery = wr\<rparr> fs of
             (st, fs1) \<Rightarrow> Some (if status_ok st then Inr recovery_key else Inl st, fs1)))"

definition CreateEnvelope ::
  "crypto_io \<Rightarrow> crypto_random \<Rightarrow> string \<Rightarrow> crypto_files \<Rightarrow> ((Status + string \<times> bytes) \<times> crypto_files) option" where
  "CreateEnvelope io rnd password fs =
     (if password = [] then Some (Inl (InvalidArgument ''password required''), fs)
      else if envelope_file fs \<noteq> None then Some (Inl (Conflict ''crypto.envelope.json already exists''), fs)
      else case LoadOrCreateRepoSalt io (rnd_salt rnd) fs of
        (Inl e, fs1) \<Rightarrow> Some (Inl e, fs1)
      | (Inr salt, fs1) \<Rightarrow>
          (let master_key = random_bytes (rnd_master rnd) kMasterKeySize in
           map_option (\<lambda>(r, fs2). (map_sum id (\<lambda>rk. (rk, master_key)) r, fs2))
             (wrap_and_save io rnd kStandard salt master_key password fs1)))"

text \<open>The recovery key is \<open>None\<close> when there is an envelope already.\<close>

definition UpgradeLegacyToEnvelope ::
  "crypto_io \<Rightarrow> crypto_random \<Rightarrow> string \<Rightarrow> crypto_files \<Rightarrow> ((Status + string option) \<times> crypto_files) option" where
  "UpgradeLegacyToEnvelope io rnd password fs =
     (if envelope_file fs \<noteq> None then Some (Inr None, fs)
      else case LoadOrCreateRepoSalt io (rnd_salt rnd) fs of
        (Inl e, fs1) \<Rightarrow> Some (Inl e, fs1)
      | (Inr salt, fs1) \<Rightarrow>
      case DeriveContentKey password salt kLegacy of
        None \<Rightarrow> None
      | Some (Inl e) \<Rightarrow> Some (Inl e, fs1)
      | Some (Inr master_key) \<Rightarrow>
          map_option (\<lambda>(r, fs2). (map_sum id Some r, fs2)) (wrap_and_save io rnd kLegacy salt master_key password fs1))"

definition UnwrapMasterKeyWithPassword ::
  "crypto_io \<Rightarrow> string \<Rightarrow> DigestAlgo \<Rightarrow> crypto_files \<Rightarrow> (Status + bytes) option" where
  "UnwrapMasterKeyWithPassword io password algo fs =
     (case LoadEnvelope io fs of
        Inl e \<Rightarrow> Some (Inl e)
      | Inr env \<Rightarrow> UnwrapMasterKeyBlob (wrap_password env) password (env_salt env) algo)"

definition UnwrapMasterKeyWithRecoveryKey ::
  "crypto_io \<Rightarrow> string \<Rightarrow> DigestAlgo \<Rightarrow> crypto_files \<Rightarrow> (Status + bytes) option" where
  "UnwrapMasterKeyWithRecoveryKey io recovery_key algo fs =
     (case LoadEnvelope io fs of
        Inl e \<Rightarrow> Some (Inl e)
      | Inr env \<Rightarrow> UnwrapMasterKeyBlob (wrap_recovery env) recovery_key (env_salt env) algo)"

definition RotateEnvelopePassword ::
  "crypto_io \<Rightarrow> (nat \<Rightarrow> u32) \<Rightarrow> string \<Rightarrow> string \<Rightarrow> DigestAlgo \<Rightarrow> crypto_files \<Rightarrow> (Status \<times> crypto_files) option" where
  "RotateEnvelopePassword io rd old_password new_password algo fs =
     (if new_password = [] then Some (InvalidArgument ''new password empty'', fs)
      else case LoadEnvelope io fs of
        Inl e \<Rightarrow> Some (e, fs)
      | Inr env \<Rightarrow>
      case UnwrapMasterKeyBlob (wrap_password env) old_password (env_salt env) algo of
        None \<Rightarrow> None
      | Some (Inl e) \<Rightarrow> Some (e, fs)
      | Some (Inr master_key) \<Rightarrow>
      case WrapMasterKey rd master_key new_password (env_salt env) algo of
        None \<Rightarrow> None
      | Some (Inl e) \<Rightarrow> Some (e, fs)
      | Some (Inr wp) \<Rightarrow> Some (SaveEnvelope io (env\<lparr>wrap_password := wp\<rparr>) fs))"

section \<open>Base64 comes back\<close>

lemma b64_char_mod: "b64_val (b64_char n) = int (n mod 64) \<and> b64_char n \<noteq> CHR ''=''"
proof -
  have t: "map b64_val base64_table = map int [0..<64]" "CHR ''='' \<notin> set base64_table" by code_simp+
  have l: "length base64_table = 64" by (simp add: base64_table_def)
  have "n mod 64 < 64" by simp
  then have "b64_val (base64_table ! (n mod 64)) = map b64_val base64_table ! (n mod 64)" "base64_table ! (n mod 64) \<in> set base64_table"
    using l by simp_all
  then show ?thesis using t by (auto simp: b64_char_def)
qed

text \<open>One character of the decoder.\<close>

lemma b64_step:
  "b64_loop (b64_char n # cs) buf bits =
     (let buf1 = (buf * 64 + n mod 64) mod 2 ^ 32; bits1 = bits + 6
      in if bits1 \<ge> 8 then word_of_nat (buf1 div 2 ^ (bits1 - 8) mod 256) # b64_loop cs buf1 (bits1 - 8)
         else b64_loop cs buf1 bits1)"
  using b64_char_mod [of n] by (simp add: Let_def)

lemma low_byte: "k \<le> 24 \<Longrightarrow> x mod 2 ^ 32 div 2 ^ k mod 256 = x div 2 ^ k mod 256" for x :: nat
proof -
  assume k: "k \<le> 24"
  have "take_bit 8 (drop_bit k (take_bit 32 x)) = take_bit 8 (drop_bit k x)"
  proof -
    have "min 8 (32 - k) = 8" using k by simp
    then show ?thesis by (simp only: drop_bit_take_bit take_bit_take_bit)
  qed
  then show ?thesis by (simp add: take_bit_eq_mod drop_bit_eq_div)
qed

lemma sextets:
  assumes "a1 < 64" "a0 < 4" "b1 < 16" "b0 < 16" "c1 < 4" "c0 < (64 :: nat)"
  defines "n \<equiv> (4 * a1 + a0) * 2 ^ 16 + (16 * b1 + b0) * 2 ^ 8 + (64 * c1 + c0)"
  shows "n div 2 ^ 18 mod 64 = a1" and "n div 2 ^ 12 mod 64 = 16 * a0 + b1"
    and "n div 2 ^ 6 mod 64 = 4 * b0 + c1" and "n mod 64 = c0"
proof -
  have "n div 2 ^ 18 = a1" unfolding n_def by (rule div_nat_eqI) (use assms in simp_all)
  then show "n div 2 ^ 18 mod 64 = a1" using assms by simp
  have "n div 2 ^ 12 = 64 * a1 + (16 * a0 + b1)" unfolding n_def by (rule div_nat_eqI) (use assms in simp_all)
  moreover have "16 * a0 + b1 < 64" using assms by simp
  ultimately show "n div 2 ^ 12 mod 64 = 16 * a0 + b1" by simp
  have "n div 2 ^ 6 = 64 * (64 * a1 + 16 * a0 + b1) + (4 * b0 + c1)" unfolding n_def by (rule div_nat_eqI) (use assms in simp_all)
  moreover have "4 * b0 + c1 < 64" using assms by simp
  ultimately show "n div 2 ^ 6 mod 64 = 4 * b0 + c1" by (metis mod_less mod_mult_self4)
  have "n = 64 * ((4 * a1 + a0) * 2 ^ 10 + (16 * b1 + b0) * 2 ^ 2 + c1) + c0" by (simp add: n_def)
  then show "n mod 64 = c0" using assms(6) by (metis mod_less mod_mult_self4)
qed

text \<open>The byte above the lowest \<open>k\<close> bits of the accumulator.\<close>

lemma acc_byte:
  assumes "x = 2 ^ k * (256 * q + y) + r" and "r < 2 ^ k" and "y < 256" and "k \<le> 24"
  shows "x mod 2 ^ 32 div 2 ^ k mod 256 = (y :: nat)"
proof -
  have "x div 2 ^ k = 256 * q + y" unfolding assms(1) using assms(2) by simp
  then show ?thesis using low_byte [OF assms(4), of x] assms(3) by simp
qed

lemma acc_low:
  assumes "x = m * q + r" and "r < m" and "m dvd 2 ^ 32"
  shows "x mod 2 ^ 32 = m * (x mod 2 ^ 32 div m) + (r :: nat)"
proof -
  have "x mod 2 ^ 32 mod m = r" using assms by (simp add: mod_mod_cancel)
  then show ?thesis by (metis mult_div_mod_eq)
qed

text \<open>The bytes that two, three and four characters of a group give.\<close>

lemma group_bytes:
  fixes buf :: nat
  assumes "a1 < 64" "a0 < 4" "b1 < 16" "b0 < 16" "c1 < 4" "c0 < 64"
  defines "x2 \<equiv> ((buf * 64 + a1) * 64 + (16 * a0 + b1)) mod 2 ^ 32"
  defines "x3 \<equiv> (x2 * 64 + (4 * b0 + c1)) mod 2 ^ 32"
  defines "x4 \<equiv> (x3 * 64 + c0) mod 2 ^ 32"
  shows "x2 div 2 ^ 4 mod 256 = 4 * a1 + a0" and "x3 div 2 ^ 2 mod 256 = 16 * b1 + b0" and "x4 div 2 ^ 0 mod 256 = 64 * c1 + c0"
proof -
  have e2: "(buf * 64 + a1) * 64 + (16 * a0 + b1) = 2 ^ 4 * (256 * buf + (4 * a1 + a0)) + b1" by simp
  show "x2 div 2 ^ 4 mod 256 = 4 * a1 + a0"
    unfolding x2_def by (rule acc_byte [OF e2]) (use assms in simp_all)
  have "x2 = 16 * (x2 div 16) + b1"
    unfolding x2_def by (rule acc_low [of _ 16 "256 * buf + (4 * a1 + a0)"]) (use assms(3) in simp_all)
  then have e3: "x2 * 64 + (4 * b0 + c1) = 2 ^ 2 * (256 * (x2 div 16) + (16 * b1 + b0)) + c1" by simp
  show "x3 div 2 ^ 2 mod 256 = 16 * b1 + b0"
    unfolding x3_def by (rule acc_byte [OF e3]) (use assms in simp_all)
  have "x3 = 4 * (x3 div 4) + c1"
    unfolding x3_def by (rule acc_low [of _ 4 "256 * (x2 div 16) + (16 * b1 + b0)"]) (use e3 assms(5) in simp_all)
  then have e4: "x3 * 64 + c0 = 2 ^ 0 * (256 * (x3 div 4) + (64 * c1 + c0)) + 0" by simp
  show "x4 div 2 ^ 0 mod 256 = 64 * c1 + c0"
    unfolding x4_def by (rule acc_byte [OF e4]) (use assms in simp_all)
qed

lemma split_bytes:
  obtains a1 a0 b1 b0 c1 c0 :: nat where "unat (a :: byte) = 4 * a1 + a0" "unat (b :: byte) = 16 * b1 + b0" "unat (c :: byte) = 64 * c1 + c0"
    "a1 < 64" "a0 < 4" "b1 < 16" "b0 < 16" "c1 < 4" "c0 < 64"
proof -
  have "unat a < 256" "unat b < 256" "unat c < 256"
    using unsigned_less [of a] unsigned_less [of b] unsigned_less [of c] by simp_all
  then have "unat a div 4 < 64" "unat b div 16 < 16" "unat c div 64 < 4" by auto
  then show ?thesis
    using that [of "unat a div 4" "unat a mod 4" "unat b div 16" "unat b mod 16" "unat c div 64" "unat c mod 64"] by simp
qed

text \<open>What the decoder yields for the first two, three and four characters of a group.\<close>

lemma b64_group:
  assumes n: "n = group_value a (unat b) (unat c)"
  shows "\<exists>x2 x3 x4. b64_loop (b64_char (n div 2 ^ 18) # b64_char (n div 2 ^ 12) # cs) buf 0 = a # b64_loop cs x2 4 \<and>
    b64_loop (b64_char (n div 2 ^ 6) # ds) x2 4 = b # b64_loop ds x3 2 \<and>
    b64_loop (b64_char n # es) x3 2 = c # b64_loop es x4 0"
proof -
  obtain a1 a0 b1 b0 c1 c0 where s: "unat a = 4 * a1 + a0" "unat b = 16 * b1 + b0" "unat c = 64 * c1 + c0"
    "a1 < 64" "a0 < 4" "b1 < 16" "b0 < 16" "c1 < 4" "c0 < 64" by (rule split_bytes [of a b c])
  have nn: "n = (4 * a1 + a0) * 2 ^ 16 + (16 * b1 + b0) * 2 ^ 8 + (64 * c1 + c0)"
    unfolding n group_value_def s(1-3) ..
  note sx = sextets [OF s(4-9), folded nn]
  define x2 where "x2 = ((buf * 64 + a1) * 64 + (16 * a0 + b1)) mod 2 ^ 32"
  define x3 where "x3 = (x2 * 64 + (4 * b0 + c1)) mod 2 ^ 32"
  define x4 where "x4 = (x3 * 64 + c0) mod 2 ^ 32"
  note gb = group_bytes [OF s(4-9), of buf, folded x2_def, folded x3_def, folded x4_def]
  have m: "((buf * 64 + a1) mod 2 ^ 32 * 64 + (16 * a0 + b1)) mod 2 ^ 32 = x2"
    unfolding x2_def by (metis mod_add_left_eq mod_mult_left_eq)
  have w: "word_of_nat (4 * a1 + a0) = a" "word_of_nat (16 * b1 + b0) = b" "word_of_nat (64 * c1 + c0) = c"
    unfolding s(1-3) [symmetric] by simp_all
  have k: "(6 :: nat) + 6 - 8 = 4" "(4 :: nat) + 6 - 8 = 2" "(2 :: nat) + 6 - 8 = 0" "\<not> (8 :: nat) \<le> 6"
      "(0 :: nat) + 6 = 6" "(8 :: nat) \<le> 6 + 6" "(8 :: nat) \<le> 4 + 6" "(8 :: nat) \<le> 2 + 6" by simp_all
  have "b64_loop (b64_char (n div 2 ^ 18) # b64_char (n div 2 ^ 12) # cs) buf 0 = a # b64_loop cs x2 4"
    by (simp only: b64_step Let_def sx m k if_False if_True gb w)
  moreover have "b64_loop (b64_char (n div 2 ^ 6) # ds) x2 4 = b # b64_loop ds x3 2"
    by (simp only: b64_step Let_def sx x3_def [symmetric] k if_True gb w)
  moreover have "b64_loop (b64_char n # es) x3 2 = c # b64_loop es x4 0"
    by (simp only: b64_step Let_def sx x4_def [symmetric] k if_True gb w)
  ultimately show ?thesis by blast
qed

lemma b64_loop_encode: "b64_loop (Base64Encode bs) buf 0 = bs"
proof (induction bs arbitrary: buf rule: Base64Encode.induct)
  case (2 a)
  have "group_value a 0 0 = group_value a (unat (0 :: byte)) (unat (0 :: byte))" by simp
  from b64_group [OF this, of "[CHR ''='', CHR ''='']" buf] obtain x2 where
    "b64_loop (Base64Encode [a]) buf 0 = a # b64_loop [CHR ''='', CHR ''=''] x2 4"
    unfolding Base64Encode.simps Let_def by blast
  then show ?case by simp
next
  case (3 a b)
  let ?n = "group_value a (unat b) 0"
  have "?n = group_value a (unat b) (unat (0 :: byte))" by simp
  from b64_group [OF this, of "[b64_char (?n div 2 ^ 6), CHR ''='']" buf "[CHR ''='']"] obtain x2 x3 where
    "b64_loop (Base64Encode [a, b]) buf 0 = a # b64_loop [b64_char (?n div 2 ^ 6), CHR ''=''] x2 4"
    "b64_loop [b64_char (?n div 2 ^ 6), CHR ''=''] x2 4 = b # b64_loop [CHR ''=''] x3 2"
    unfolding Base64Encode.simps Let_def by blast
  then show ?case by simp
next
  case (4 a b c bs)
  let ?n = "group_value a (unat b) (unat c)"
  let ?d2 = "b64_char ?n # Base64Encode bs" and ?d1 = "b64_char (?n div 2 ^ 6) # b64_char ?n # Base64Encode bs"
  from b64_group [OF refl, of a b c ?d1 buf ?d2 "Base64Encode bs"] obtain x2 x3 x4 where x:
    "b64_loop (b64_char (?n div 2 ^ 18) # b64_char (?n div 2 ^ 12) # ?d1) buf 0 = a # b64_loop ?d1 x2 4"
    "b64_loop ?d1 x2 4 = b # b64_loop ?d2 x3 2" "b64_loop ?d2 x3 2 = c # b64_loop (Base64Encode bs) x4 0" by blast
  have "Base64Encode (a # b # c # bs) = b64_char (?n div 2 ^ 18) # b64_char (?n div 2 ^ 12) # ?d1"
    by (simp only: Base64Encode.simps Let_def append_Cons append_Nil)
  then show ?case by (simp only: x 4 [OF refl])
qed simp

lemma Base64_roundtrip: "Base64Decode (Base64Encode bs) = bs"
  by (simp add: Base64Decode_def b64_loop_encode)

lemma b64_char_plain [simp]:
  "b64_char n \<noteq> CHR 0x22" "CHR 0x22 \<noteq> b64_char n" "b64_char n \<noteq> CHR 0x5C" "CHR 0x5C \<noteq> b64_char n"
proof -
  have "CHR 0x22 \<notin> set base64_table" "CHR 0x5C \<notin> set base64_table" by code_simp+
  moreover have "length base64_table = 64" by (simp add: base64_table_def)
  then have "b64_char n \<in> set base64_table" by (simp add: b64_char_def)
  ultimately show "b64_char n \<noteq> CHR 0x22" "CHR 0x22 \<noteq> b64_char n" "b64_char n \<noteq> CHR 0x5C" "CHR 0x5C \<noteq> b64_char n"
    by metis+
qed

lemma Base64Encode_plain: "CHR 0x22 \<notin> set (Base64Encode bs) \<and> CHR 0x5C \<notin> set (Base64Encode bs)"
  by (induction bs rule: Base64Encode.induct) (simp_all add: Let_def)

lemma BytesToHex_plain: "CHR 0x22 \<notin> set (BytesToHex bs) \<and> CHR 0x5C \<notin> set (BytesToHex bs)"
proof -
  have "CHR 0x22 \<notin> set kHex" "CHR 0x5C \<notin> set kHex" by code_simp+
  then show ?thesis using set_BytesToHex [of bs] by blast
qed

text \<open>The envelope's fields have a space between key and value.\<close>

lemma ReadJsonStringField_at:
  assumes "clear_of key pre" and "pre \<noteq> []" and "isspace (last pre)" and "CHR 0x22 \<notin> set v" and "CHR 0x5C \<notin> set v"
    and "s = pre @ json_needle key @ CHR '' '' # CHR 0x22 # v @ CHR 0x22 # rest"
  shows "ReadJsonStringField s key = Inr v"
  by (rule read_string_field [of key pre "'' ''"]) (use assms in \<open>simp_all add: isspace_def\<close>)

lemma ParseU64Field_at:
  assumes "clear_of key pre" and "n < 2 ^ 64" and "s = pre @ json_needle key @ CHR '' '' # dec_string n @ CHR '','' # rest"
  shows "ParseU64Field s key = Some (word_of_nat n)"
  using parse_u64_field [of key pre "'' ''" "dec_string n" "CHR '',''" s rest] assms strtoull_dec [of n]
  by (simp add: isspace_def dec_string_number dec_string_ne number_char_def is_digit_def)

section \<open>The envelope file comes back\<close>

definition envelope_wf :: "CryptoEnvelope \<Rightarrow> bool" where
  "envelope_wf env \<longleftrightarrow> length (env_salt env) = 16 \<and> wrap_password env \<noteq> [] \<and> wrap_recovery env \<noteq> []"

lemma dec_string_plain: "CHR 0x22 \<notin> set (dec_string n)"
  using dec_string_digits [of "CHR 0x22" n] by (auto simp: is_digit_def)

lemma parse_envelope_text:
  assumes "envelope_wf env"
  shows "parse_envelope (envelope_text env) = Inr env"
proof -
  let ?q = "CHR 0x22" and ?n = "unat (env_version env)"
  let ?hex = "BytesToHex (env_salt env)" and ?wp = "Base64Encode (wrap_password env)" and ?wr = "Base64Encode (wrap_recovery env)"
  define gap where "gap = nl @ ''  ''"
  define p0 where "p0 = ''{'' @ gap"
  define p1 where "p1 = p0 @ (?q # ''version'' @ [?q, CHR '':'']) @ '' '' @ dec_string ?n @ '','' @ gap"
  define p2 where "p2 = p1 @ (?q # ''salt'' @ [?q, CHR '':'']) @ '' '' @ (?q # ?hex @ [?q, CHR '','']) @ gap @
    (?q # ''kdf'' @ [?q, CHR '':'']) @ '' '' @ (?q # ''pbkdf2-sha256-100000'' @ [?q, CHR '','']) @ gap"
  define p3 where "p3 = p2 @ (?q # ''wrap_password'' @ [?q, CHR '':'']) @ '' '' @ (?q # ?wp @ [?q, CHR '','']) @ gap"
  let ?t = "envelope_text env"
  have gap: "clear_of key gap" "gap \<noteq> []" "isspace (last gap)" "clear_of key '' ''" "clear_of key '',''" "clear_of key ''{''" for key
    by (simp_all add: gap_def nl_def isspace_def clear_plain)
  have pl: "?q \<notin> set ?hex" "?q \<notin> set ?wp" "?q \<notin> set ?wr" "?q \<notin> set (dec_string ?n)"
    using BytesToHex_plain Base64Encode_plain dec_string_plain by blast+
  have c0: "clear_of key p0" for key unfolding p0_def by (intro clear_append gap)
  have c1: "clear_of key p1" if "key \<in> {''salt'', ''wrap_password'', ''wrap_recovery''}" for key
    unfolding p1_def by (intro clear_append gap c0 clear_plain pl clear_quoted) (use that in auto)
  have c2: "clear_of key p2" if "key \<in> {''wrap_password'', ''wrap_recovery''}" for key
    unfolding p2_def by (intro clear_append gap c1 clear_quoted pl) (use that in auto)
  have c3: "clear_of ''wrap_recovery'' p3"
    unfolding p3_def by (intro clear_append gap c2 clear_quoted pl) simp_all
  define r4 where "r4 = nl @ ''}'' @ nl"
  define r3 where "r3 = '','' @ gap @ json_needle ''wrap_recovery'' @ CHR '' '' # ?q # ?wr @ ?q # r4"
  define r2 where "r2 = '','' @ gap @ (?q # ''kdf'' @ [?q, CHR '':'']) @ '' '' @ (?q # ''pbkdf2-sha256-100000'' @ [?q, CHR '','']) @ gap @
    json_needle ''wrap_password'' @ CHR '' '' # ?q # ?wp @ ?q # r3"
  define r1 where "r1 = gap @ json_needle ''salt'' @ CHR '' '' # ?q # ?hex @ ?q # r2"
  have t1: "?t = p0 @ json_needle ''version'' @ CHR '' '' # dec_string ?n @ CHR '','' # r1"
    and t2: "?t = p1 @ json_needle ''salt'' @ CHR '' '' # ?q # ?hex @ ?q # r2"
    and t3: "?t = p2 @ json_needle ''wrap_password'' @ CHR '' '' # ?q # ?wp @ ?q # r3"
    and t4: "?t = p3 @ json_needle ''wrap_recovery'' @ CHR '' '' # ?q # ?wr @ ?q # r4"
    by (simp_all add: envelope_text_def p0_def p1_def p2_def p3_def r1_def r2_def r3_def r4_def gap_def json_needle_def qt_def nl_def)
  have "?n < 2 ^ 32" using unsigned_less [of "env_version env"] by simp
  then have v: "ParseU64Field ?t ''version'' = Some (word_of_nat ?n)"
    by (intro ParseU64Field_at [OF c0 _ t1]) simp
  have ends: "p1 \<noteq> []" "isspace (last p1)" "p2 \<noteq> []" "isspace (last p2)" "p3 \<noteq> []" "isspace (last p3)"
    using gap(2,3) by (simp_all add: p1_def p2_def p3_def)
  have bs: "CHR 0x5C \<notin> set ?hex" "CHR 0x5C \<notin> set ?wp" "CHR 0x5C \<notin> set ?wr"
    using BytesToHex_plain Base64Encode_plain by blast+
  have s: "ReadJsonStringField ?t ''salt'' = Inr ?hex"
    by (rule ReadJsonStringField_at [OF c1 ends(1,2) pl(1) bs(1) t2]) simp
  have p: "ReadJsonStringField ?t ''wrap_password'' = Inr ?wp"
    by (rule ReadJsonStringField_at [OF c2 ends(3,4) pl(2) bs(2) t3]) simp
  have r: "ReadJsonStringField ?t ''wrap_recovery'' = Inr ?wr"
    by (rule ReadJsonStringField_at [OF c3 ends(5,6) pl(3) bs(3) t4])
  have h: "HexToBytes ?hex 16 = Some (env_salt env)"
    using HexToBytes_BytesToHex [of "env_salt env"] assms by (simp add: envelope_wf_def)
  have u: "ucast (word_of_nat ?n :: u64) = env_version env"
    unfolding of_nat_unat by (rule bit_word_eqI) (simp add: bit_ucast_iff)
  show ?thesis
    unfolding parse_envelope_def ReadJsonU64Field_def v s p r
    using h u assms by (simp add: Base64_roundtrip envelope_wf_def)
qed

lemma parse_envelope_wf: "parse_envelope json = Inr env \<Longrightarrow> envelope_wf env"
  by (auto simp: parse_envelope_def envelope_wf_def Let_def HexToBytes_length split: prod.splits sum.splits option.splits if_splits)

lemma LoadEnvelope_Inr:
  "LoadEnvelope io fs = Inr env \<longleftrightarrow> env_open_ok io \<and> (\<exists>json. envelope_file fs = Some json \<and> parse_envelope json = Inr env)"
  by (auto simp: LoadEnvelope_def split: option.splits)

lemma LoadEnvelope_wf: "LoadEnvelope io fs = Inr env \<Longrightarrow> envelope_wf env"
  by (auto simp: LoadEnvelope_Inr intro: parse_envelope_wf)

text \<open>A save that reports success has replaced the file, and a later load yields the envelope.\<close>

lemma SaveEnvelope_load:
  assumes "SaveEnvelope io env fs = (st, fs')" and "status_ok st" and "envelope_wf env" and "env_open_ok io'"
  shows "LoadEnvelope io' fs' = Inr env"
  using assms by (auto simp: SaveEnvelope_def LoadEnvelope_Inr parse_envelope_text split: if_splits)

section \<open>Wrapping and unwrapping\<close>

lemma DeriveWrapKey_algo:
  "length salt = 16 \<Longrightarrow> DeriveWrapKey secret salt algo =
     (if secret = [] then Some (Inl (InvalidArgument ''empty wrap secret''))
      else Some (Inr (Pbkdf2Sha256Standard (string_bytes secret) salt 100000 (zeros 32))))"
  by (simp add: DeriveWrapKey_def Pbkdf2Sha256_algo)

lemma WrapMasterKey_total:
  "length salt = 16 \<Longrightarrow> secret \<noteq> [] \<Longrightarrow> \<exists>blob. WrapMasterKey rd mk secret salt algo = Some (Inr blob)"
  by (simp add: WrapMasterKey_def DeriveWrapKey_algo)

lemma WrapMasterKey_no_error:
  "length salt = 16 \<Longrightarrow> secret \<noteq> [] \<Longrightarrow> WrapMasterKey rd mk secret salt algo \<noteq> Some (Inl e)"
  using WrapMasterKey_total [of salt secret rd mk algo] by auto

text \<open>Both variants of the key derivation give the same key, so a wrap opens under either.\<close>

lemma unwrap_wrap:
  assumes "length salt = 16" and "length mk = 32" and "WrapMasterKey rd mk secret salt algo = Some (Inr blob)"
  shows "UnwrapMasterKeyBlob blob secret salt algo' = Some (Inr mk)" and "blob \<noteq> []"
proof -
  obtain key where k: "DeriveWrapKey secret salt algo = Some (Inr key)" "blob = Aes256GcmEncrypt rd key mk"
    using assms(1,3) by (auto simp: WrapMasterKey_def DeriveWrapKey_algo split: if_splits)
  then have "DeriveWrapKey secret salt algo' = Some (Inr key)"
    using assms(1) by (auto simp: DeriveWrapKey_algo split: if_splits)
  then show "UnwrapMasterKeyBlob blob secret salt algo' = Some (Inr mk)"
    using k(2) assms(2) by (simp add: UnwrapMasterKeyBlob_def gcm_roundtrip kMasterKeySize_def)
  show "blob \<noteq> []"
    unfolding k(2) by (simp add: Aes256GcmEncrypt_def Aes256GcmEncryptPortableEx_def Let_def random_bytes_def kAesGcmNonceSize_def upt_rec)
qed

lemma unwrap_length: "UnwrapMasterKeyBlob blob secret salt algo = Some (Inr mk) \<Longrightarrow> length mk = 32"
  by (cases "DeriveWrapKey secret salt algo")
    (auto simp: UnwrapMasterKeyBlob_def kMasterKeySize_def split: sum.splits if_splits)

lemma length_random_bytes [simp]: "length (random_bytes rd n) = n"
  by (simp add: random_bytes_def)

lemma LoadOrCreateRepoSalt_length:
  "LoadOrCreateRepoSalt io rd fs = (Inr salt, fs') \<Longrightarrow> length salt = 16"
  by (auto simp: LoadOrCreateRepoSalt_def Let_def split: option.splits if_splits)

lemma GenerateRecoveryKey_nonempty: "GenerateRecoveryKey rd \<noteq> []"
  by (simp add: GenerateRecoveryKey_def)

text \<open>Once the wraps are saved, each secret opens the master key.\<close>

lemma wrap_and_save_unlocks:
  assumes "wrap_and_save io rnd algo salt mk password fs = Some (Inr rk, fs')"
    and salt: "length salt = 16" and mk: "length mk = 32" and "env_open_ok io'"
  shows "UnwrapMasterKeyWithPassword io' password algo' fs' = Some (Inr mk)"
    and "UnwrapMasterKeyWithRecoveryKey io' rk algo' fs' = Some (Inr mk)"
proof -
  obtain wp wr st where w: "WrapMasterKey (rnd_nonce1 rnd) mk password salt algo = Some (Inr wp)"
      "WrapMasterKey (rnd_nonce2 rnd) mk rk salt algo = Some (Inr wr)"
    and s: "SaveEnvelope io \<lparr>env_version = 1, env_salt = salt, wrap_password = wp, wrap_recovery = wr\<rparr> fs = (st, fs')" "status_ok st"
    using assms(1) by (auto simp: wrap_and_save_def Let_def split: option.splits sum.splits prod.splits if_splits)
  note u = unwrap_wrap [OF salt mk w(1)] unwrap_wrap [OF salt mk w(2)]
  have "LoadEnvelope io' fs' = Inr \<lparr>env_version = 1, env_salt = salt, wrap_password = wp, wrap_recovery = wr\<rparr>"
    by (rule SaveEnvelope_load [OF s]) (use u salt assms(4) in \<open>simp_all add: envelope_wf_def\<close>)
  then show "UnwrapMasterKeyWithPassword io' password algo' fs' = Some (Inr mk)"
    "UnwrapMasterKeyWithRecoveryKey io' rk algo' fs' = Some (Inr mk)"
    using u by (simp_all add: UnwrapMasterKeyWithPassword_def UnwrapMasterKeyWithRecoveryKey_def)
qed

lemma wrap_and_save_total:
  assumes "length salt = 16" and "password \<noteq> []" and "env_create_ok io" and "env_write_ok io" and "status_ok (env_fsync io)"
  shows "\<exists>rk fs'. wrap_and_save io rnd algo salt mk password fs = Some (Inr rk, fs')"
  using WrapMasterKey_total [OF assms(1,2), of "rnd_nonce1 rnd" mk algo]
    WrapMasterKey_total [OF assms(1) GenerateRecoveryKey_nonempty, of "rnd_nonce2 rnd" mk "rnd_recovery rnd" algo] assms(3-5)
  by (auto simp: wrap_and_save_def Let_def SaveEnvelope_def)

lemma map_sum_Inr_iff: "map_sum id f r = Inr y \<longleftrightarrow> (\<exists>x. r = Inr x \<and> f x = y)"
  by (cases r) auto

lemma DeriveContentKey_algo:
  "length salt = 16 \<Longrightarrow> DeriveContentKey password salt algo =
     (if password = [] then Some (Inl (InvalidArgument ''empty password''))
      else Some (Inr (Pbkdf2Sha256Standard (string_bytes password) salt 100000 (zeros 32))))"
  by (simp add: DeriveContentKey_def Pbkdf2Sha256_algo)

lemma CreateEnvelope_total:
  assumes "password \<noteq> []" and "envelope_file fs = None" and "salt_file fs = None" and "salt_create_ok io" and "salt_write_ok io"
    and "status_ok (salt_fsync io)" and io: "env_create_ok io" "env_write_ok io" "status_ok (env_fsync io)"
  shows "\<exists>rk mk fs'. CreateEnvelope io rnd password fs = Some (Inr (rk, mk), fs')"
proof -
  let ?salt = "random_bytes (rnd_salt rnd) 16"
  obtain rk fs' where w: "wrap_and_save io rnd kStandard ?salt (random_bytes (rnd_master rnd) kMasterKeySize) password (fs\<lparr>salt_file := Some ?salt\<rparr>)
      = Some (Inr rk, fs')"
    using wrap_and_save_total [OF _ assms(1) io] by fastforce
  then show ?thesis
    using assms by (simp add: CreateEnvelope_def LoadOrCreateRepoSalt_def Let_def)
qed

text \<open>Errors of the operations are never the success status.\<close>

lemma LoadEnvelope_error: "LoadEnvelope io fs = Inl e \<Longrightarrow> \<not> status_ok e"
  by (auto simp: LoadEnvelope_def parse_envelope_def Let_def split: option.splits if_splits prod.splits sum.splits)

lemma unwrap_error: "UnwrapMasterKeyBlob blob secret salt algo = Some (Inl e) \<Longrightarrow> \<not> status_ok e"
  by (cases "DeriveWrapKey secret salt algo")
    (auto simp: UnwrapMasterKeyBlob_def DeriveWrapKey_def Aes256GcmDecrypt_def Aes256GcmDecryptPortableEx_def Let_def
      split: sum.splits if_splits)

text \<open>File operations that all succeed, and a repository without key files.\<close>

definition io_ok :: crypto_io where
  "io_ok = \<lparr>salt_open_ok = True, salt_create_ok = True, salt_write_ok = True, salt_written = 0, salt_fsync = Status_Ok,
     env_open_ok = True, env_create_ok = True, env_write_ok = True, env_written = 0, env_fsync = Status_Ok\<rparr>"

definition no_files :: crypto_files where
  "no_files = \<lparr>salt_file = None, envelope_file = None\<rparr>"

lemma fresh_envelope:
  obtains rk mk fs' where
    "CreateEnvelope io_ok \<lparr>rnd_salt = (\<lambda>_. 3), rnd_master = (\<lambda>_. 5), rnd_recovery = of_nat, rnd_nonce1 = of_nat, rnd_nonce2 = of_nat\<rparr>
      ''secret'' no_files = Some (Inr (rk, mk), fs')"
proof -
  have "\<exists>rk mk fs'. CreateEnvelope io_ok \<lparr>rnd_salt = (\<lambda>_. 3), rnd_master = (\<lambda>_. 5), rnd_recovery = of_nat, rnd_nonce1 = of_nat,
      rnd_nonce2 = of_nat\<rparr> ''secret'' no_files = Some (Inr (rk, mk), fs')"
    by (rule CreateEnvelope_total) (simp_all add: no_files_def io_ok_def)
  then show thesis using that by blast
qed

lemma CreateEnvelope_unlocks:
  assumes "CreateEnvelope io rnd password fs = Some (Inr (rk, mk), fs')" and "env_open_ok io'"
  shows "length mk = 32" and "UnwrapMasterKeyWithPassword io' password algo fs' = Some (Inr mk)"
    and "UnwrapMasterKeyWithRecoveryKey io' rk algo fs' = Some (Inr mk)"
proof -
  obtain salt fs1 where s: "LoadOrCreateRepoSalt io (rnd_salt rnd) fs = (Inr salt, fs1)"
    and mk: "mk = random_bytes (rnd_master rnd) 32"
    and w: "wrap_and_save io rnd kStandard salt mk password fs1 = Some (Inr rk, fs')"
    using assms(1)
    by (auto simp: CreateEnvelope_def kMasterKeySize_def Let_def map_sum_Inr_iff split: if_splits prod.splits sum.splits)
  show "length mk = 32" by (simp add: mk)
  then show "UnwrapMasterKeyWithPassword io' password algo fs' = Some (Inr mk)"
    "UnwrapMasterKeyWithRecoveryKey io' rk algo fs' = Some (Inr mk)"
    using wrap_and_save_unlocks [OF w LoadOrCreateRepoSalt_length [OF s] _ assms(2)] by blast+
qed

lemma Rotate_total:
  assumes "UnwrapMasterKeyWithPassword io old_password algo fs = Some (Inr mk)" and "new_password \<noteq> []"
  shows "\<exists>env wp. RotateEnvelopePassword io rd old_password new_password algo fs = Some (SaveEnvelope io (env\<lparr>wrap_password := wp\<rparr>) fs)"
proof -
  obtain env where env: "LoadEnvelope io fs = Inr env"
    and mk: "UnwrapMasterKeyBlob (wrap_password env) old_password (env_salt env) algo = Some (Inr mk)"
    using assms(1) by (auto simp: UnwrapMasterKeyWithPassword_def split: sum.splits)
  obtain wp where "WrapMasterKey rd mk new_password (env_salt env) algo = Some (Inr wp)"
    using WrapMasterKey_total [of "env_salt env" new_password rd mk algo] LoadEnvelope_wf [OF env] assms(2)
    by (auto simp: envelope_wf_def)
  then show ?thesis using env mk assms(2) by (auto simp: RotateEnvelopePassword_def)
qed

section \<open>What the envelope promises\<close>

text \<open>C32. The envelope file comes back: whatever envelope with a 16-byte salt and non-empty wraps is saved
  with success, a later load yields exactly it, version, salt and both wraps, through the decimal,
  hexadecimal, base64 and JSON encodings of its fields; and every envelope that loads is of that shape.\<close>

theorem envelope_file_roundtrip:
  "(SaveEnvelope io env fs = (st, fs') \<longrightarrow> status_ok st \<longrightarrow> env_open_ok io' \<longrightarrow>
      length (env_salt env) = 16 \<longrightarrow> wrap_password env \<noteq> [] \<longrightarrow> wrap_recovery env \<noteq> [] \<longrightarrow>
      LoadEnvelope io' fs' = Inr env) \<and>
   (LoadEnvelope io' fs = Inr env \<longrightarrow> length (env_salt env) = 16 \<and> wrap_password env \<noteq> [] \<and> wrap_recovery env \<noteq> [])"
  using SaveEnvelope_load [of io env fs st fs' io'] LoadEnvelope_wf [of io' fs env] by (auto simp: envelope_wf_def)

lemma envelope_file_roundtrip_witness:
  "LoadEnvelope io_ok (snd (SaveEnvelope io_ok \<lparr>env_version = 7, env_salt = zeros 16, wrap_password = [1], wrap_recovery = [2, 3]\<rparr> no_files))
     = Inr \<lparr>env_version = 7, env_salt = zeros 16, wrap_password = [1], wrap_recovery = [2, 3]\<rparr>"
proof -
  let ?env = "\<lparr>env_version = 7, env_salt = zeros 16, wrap_password = [1], wrap_recovery = [2, 3]\<rparr>"
  have "SaveEnvelope io_ok ?env no_files = (Status_Ok, snd (SaveEnvelope io_ok ?env no_files))"
    by (simp add: SaveEnvelope_def io_ok_def)
  then show ?thesis
    using envelope_file_roundtrip [of io_ok ?env no_files Status_Ok _ io_ok] by (simp add: io_ok_def)
qed

text \<open>C13. A key envelope unlocks: when creating one succeeds, the 32-byte master key that was drawn comes
  back from the file under the password and under the recovery key that was handed out, with the standard
  and with the legacy digest implementation alike; and an upgrade that writes an envelope leaves, under
  both secrets, the very key the repository's content was encrypted with before.\<close>

theorem envelope_unlocks:
  assumes "env_open_ok io'"
  shows "(CreateEnvelope io rnd password fs = Some (Inr (rk, mk), fs') \<longrightarrow>
      length mk = 32 \<and> UnwrapMasterKeyWithPassword io' password algo fs' = Some (Inr mk) \<and>
      UnwrapMasterKeyWithRecoveryKey io' rk algo fs' = Some (Inr mk)) \<and>
    (UpgradeLegacyToEnvelope io rnd password fs = Some (Inr (Some rk), fs') \<longrightarrow>
      (\<exists>salt fs1. LoadOrCreateRepoSalt io (rnd_salt rnd) fs = (Inr salt, fs1) \<and>
         UnwrapMasterKeyWithPassword io' password algo fs' = DeriveContentKey password salt algo \<and>
         UnwrapMasterKeyWithRecoveryKey io' rk algo fs' = DeriveContentKey password salt algo))"
proof (intro conjI impI)
  assume c: "CreateEnvelope io rnd password fs = Some (Inr (rk, mk), fs')"
  show "length mk = 32" "UnwrapMasterKeyWithPassword io' password algo fs' = Some (Inr mk)"
    "UnwrapMasterKeyWithRecoveryKey io' rk algo fs' = Some (Inr mk)"
    by (rule CreateEnvelope_unlocks [OF c assms])+
next
  assume "UpgradeLegacyToEnvelope io rnd password fs = Some (Inr (Some rk), fs')"
  then obtain salt fs1 mk where s: "LoadOrCreateRepoSalt io (rnd_salt rnd) fs = (Inr salt, fs1)"
    and d: "DeriveContentKey password salt kLegacy = Some (Inr mk)"
    and w: "wrap_and_save io rnd kLegacy salt mk password fs1 = Some (Inr rk, fs')"
    by (auto simp: UpgradeLegacyToEnvelope_def map_sum_Inr_iff split: if_splits prod.splits sum.splits option.splits)
  note salt = LoadOrCreateRepoSalt_length [OF s]
  have e: "DeriveContentKey password salt algo = Some (Inr mk)" "length mk = 32"
    using d salt DeriveContentKey_algo [OF salt] length_Pbkdf2Sha256Standard [of salt "zeros 32"] by (auto split: if_splits)
  then show "\<exists>salt fs1. LoadOrCreateRepoSalt io (rnd_salt rnd) fs = (Inr salt, fs1) \<and>
         UnwrapMasterKeyWithPassword io' password algo fs' = DeriveContentKey password salt algo \<and>
         UnwrapMasterKeyWithRecoveryKey io' rk algo fs' = DeriveContentKey password salt algo"
    using s wrap_and_save_unlocks [OF w salt _ assms] by auto
qed

lemma envelope_unlocks_witness:
  "\<exists>rk mk fs'. CreateEnvelope io_ok \<lparr>rnd_salt = (\<lambda>_. 3), rnd_master = (\<lambda>_. 5), rnd_recovery = of_nat, rnd_nonce1 = of_nat, rnd_nonce2 = of_nat\<rparr>
      ''secret'' no_files = Some (Inr (rk, mk), fs') \<and>
     UnwrapMasterKeyWithPassword io_ok ''secret'' kLegacy fs' = Some (Inr mk) \<and>
     UnwrapMasterKeyWithRecoveryKey io_ok rk kLegacy fs' = Some (Inr mk)"
proof -
  obtain rk mk fs' where c: "CreateEnvelope io_ok \<lparr>rnd_salt = (\<lambda>_. 3), rnd_master = (\<lambda>_. 5), rnd_recovery = of_nat, rnd_nonce1 = of_nat,
      rnd_nonce2 = of_nat\<rparr> ''secret'' no_files = Some (Inr (rk, mk), fs')" by (rule fresh_envelope)
  have "env_open_ok io_ok" by (simp add: io_ok_def)
  then show ?thesis using envelope_unlocks [of io_ok io_ok, THEN conjunct1, rule_format, OF _ c] c by blast
qed

text \<open>C14. Changing the password keeps the key: after a successful change the new password opens the
  master key the old one opened, and what the recovery key opens (the same key, or an error) is what it
  opened before, under either digest implementation; the salt stays. A change with an empty new
  password, with a missing or damaged envelope, with an old password that does not open it, or on a file
  that cannot be opened for writing reports an error and leaves the files as they were.\<close>

theorem rotate_keeps_master_key:
  assumes "RotateEnvelopePassword io rd old_password new_password algo fs = Some (st, fs')"
  shows "(status_ok st \<and> env_open_ok io' \<longrightarrow>
      (\<exists>mk. UnwrapMasterKeyWithPassword io old_password algo fs = Some (Inr mk) \<and>
         UnwrapMasterKeyWithPassword io' new_password algo' fs' = Some (Inr mk)) \<and>
      UnwrapMasterKeyWithRecoveryKey io' rk algo' fs' = UnwrapMasterKeyWithRecoveryKey io rk algo' fs \<and>
      salt_file fs' = salt_file fs) \<and>
    (new_password = [] \<or> \<not> env_create_ok io \<or> (\<exists>e. UnwrapMasterKeyWithPassword io old_password algo fs = Some (Inl e)) \<longrightarrow>
      \<not> status_ok st \<and> fs' = fs)"
proof (cases "new_password = [] \<or> (\<exists>e. LoadEnvelope io fs = Inl e) \<or>
    (\<exists>e. UnwrapMasterKeyWithPassword io old_password algo fs = Some (Inl e))")
  case True
  then show ?thesis
    using assms LoadEnvelope_error [of io fs] unwrap_error
    by (auto simp: RotateEnvelopePassword_def UnwrapMasterKeyWithPassword_def split: sum.splits option.splits if_splits)
next
  case False
  then obtain env where env: "LoadEnvelope io fs = Inr env" by (cases "LoadEnvelope io fs") auto
  with False assms obtain mk wp where new: "new_password \<noteq> []"
    and mk: "UnwrapMasterKeyBlob (wrap_password env) old_password (env_salt env) algo = Some (Inr mk)"
    and wp: "WrapMasterKey rd mk new_password (env_salt env) algo = Some (Inr wp)"
    and sv: "SaveEnvelope io (env\<lparr>wrap_password := wp\<rparr>) fs = (st, fs')"
    using WrapMasterKey_no_error [of "env_salt env" new_password rd] LoadEnvelope_wf [OF env]
    by (auto simp: RotateEnvelopePassword_def UnwrapMasterKeyWithPassword_def envelope_wf_def split: sum.splits option.splits)
  have wf: "envelope_wf env" by (rule LoadEnvelope_wf [OF env])
  then have salt: "length (env_salt env) = 16" by (simp add: envelope_wf_def)
  note u = unwrap_wrap [OF salt unwrap_length [OF mk] wp]
  have "LoadEnvelope io' fs' = Inr (env\<lparr>wrap_password := wp\<rparr>)" if "status_ok st" "env_open_ok io'"
    by (rule SaveEnvelope_load [OF sv that(1) _ that(2)]) (use wf u in \<open>simp add: envelope_wf_def\<close>)
  moreover have "salt_file fs' = salt_file fs" "\<not> env_create_ok io \<Longrightarrow> \<not> status_ok st \<and> fs' = fs"
    using sv by (auto simp: SaveEnvelope_def split: if_splits)
  ultimately show ?thesis
    using u mk env new False
    by (auto simp: UnwrapMasterKeyWithPassword_def UnwrapMasterKeyWithRecoveryKey_def)
qed

lemma rotate_keeps_master_key_witness:
  "\<exists>fs mk fs'. RotateEnvelopePassword io_ok of_nat ''secret'' ''better'' kStandard fs = Some (Status_Ok, fs') \<and>
     UnwrapMasterKeyWithPassword io_ok ''secret'' kStandard fs = Some (Inr mk) \<and>
     UnwrapMasterKeyWithPassword io_ok ''better'' kLegacy fs' = Some (Inr mk)"
proof -
  obtain rk mk fs where c: "CreateEnvelope io_ok \<lparr>rnd_salt = (\<lambda>_. 3), rnd_master = (\<lambda>_. 5), rnd_recovery = of_nat, rnd_nonce1 = of_nat,
      rnd_nonce2 = of_nat\<rparr> ''secret'' no_files = Some (Inr (rk, mk), fs)" by (rule fresh_envelope)
  have ok: "env_open_ok io_ok" by (simp add: io_ok_def)
  have "\<exists>fs'. RotateEnvelopePassword io_ok of_nat ''secret'' ''better'' kStandard fs = Some (Status_Ok, fs')"
    using Rotate_total [OF CreateEnvelope_unlocks(2) [OF c ok], of "''better''" of_nat]
    by (auto simp: SaveEnvelope_def io_ok_def)
  then obtain fs' where r: "RotateEnvelopePassword io_ok of_nat ''secret'' ''better'' kStandard fs = Some (Status_Ok, fs')" by blast
  then show ?thesis using rotate_keeps_master_key [OF r, of io_ok kLegacy rk] ok by auto
qed

text \<open>C33. Changing the password is not atomic: the envelope is the only copy of the wrapped master key and
  it is truncated before the new one is written. When that write fails (or the machine stops) before the
  first character is stored, the change reports an error and afterwards the file is corrupt: neither the
  old nor the new password nor the recovery key opens the master key any more.\<close>

theorem failed_rotation_loses_key:
  assumes "UnwrapMasterKeyWithPassword io old_password algo fs = Some (Inr mk)" and "new_password \<noteq> []"
    and "env_create_ok io" and "\<not> env_write_ok io" and "env_written io = 0"
  shows "\<exists>fs'. RotateEnvelopePassword io rd old_password new_password algo fs = Some (IoError ''envelope write failed'', fs') \<and>
     (\<forall>secret algo'. UnwrapMasterKeyWithPassword io_ok secret algo' fs' = Some (Inl (Corrupt ''envelope salt invalid'')) \<and>
        UnwrapMasterKeyWithRecoveryKey io_ok secret algo' fs' = Some (Inl (Corrupt ''envelope salt invalid'')))"
proof -
  obtain fs' where r: "RotateEnvelopePassword io rd old_password new_password algo fs = Some (IoError ''envelope write failed'', fs')"
    and f: "envelope_file fs' = Some []"
    using Rotate_total [OF assms(1,2), of rd] assms(3-5) by (auto simp: SaveEnvelope_def)
  have "parse_envelope [] = Inl (Corrupt ''envelope salt invalid'')" by code_simp
  then have "LoadEnvelope io_ok fs' = Inl (Corrupt ''envelope salt invalid'')"
    using f by (simp add: LoadEnvelope_def io_ok_def)
  then show ?thesis using r by (simp add: UnwrapMasterKeyWithPassword_def UnwrapMasterKeyWithRecoveryKey_def)
qed

lemma failed_rotation_loses_key_witness:
  "\<exists>fs fs'. RotateEnvelopePassword (io_ok\<lparr>env_write_ok := False\<rparr>) of_nat ''secret'' ''better'' kStandard fs
      = Some (IoError ''envelope write failed'', fs') \<and>
     UnwrapMasterKeyWithPassword io_ok ''better'' kStandard fs' = Some (Inl (Corrupt ''envelope salt invalid''))"
proof -
  obtain rk mk fs where c: "CreateEnvelope io_ok \<lparr>rnd_salt = (\<lambda>_. 3), rnd_master = (\<lambda>_. 5), rnd_recovery = of_nat, rnd_nonce1 = of_nat,
      rnd_nonce2 = of_nat\<rparr> ''secret'' no_files = Some (Inr (rk, mk), fs)" by (rule fresh_envelope)
  have "UnwrapMasterKeyWithPassword (io_ok\<lparr>env_write_ok := False\<rparr>) ''secret'' kStandard fs = Some (Inr mk)"
    by (rule CreateEnvelope_unlocks(2) [OF c]) (simp add: io_ok_def)
  then show ?thesis
    using failed_rotation_loses_key [of "io_ok\<lparr>env_write_ok := False\<rparr>" "''secret''" kStandard fs mk "''better''" of_nat]
    by (auto simp: io_ok_def)
qed

end
