(* ===== verification/ChunkIndex.thy ===== *)
theory ChunkIndex
  imports EbPrelude Crc32
begin

text \<open>
  The record headers of the chunk log (\<open>store/chunk_store.h\<close>) and the persistent chunk index
  (\<open>store/chunk_index.h\<close>, \<open>store/chunk_index.cc\<close>): the packed layouts, the header checksums that tell
  the two header versions apart, loading and saving the index file, and rebuilding it by a scan of
  the log that cuts a torn tail off.
\<close>

section \<open>Chunk record headers (store/chunk_store.h)\<close>

definition kChunkHeaderV1Size :: nat where "kChunkHeaderV1Size = 40"
definition kChunkHeaderV2Size :: nat where "kChunkHeaderV2Size = 48"

record ChunkRecordHeaderV1 =
  v1_hash :: bytes
  raw_len :: u32
  v1_record_crc32 :: u32

record ChunkRecordHeader =
  rec_hash :: bytes
  rec_stored_len :: u32
  rec_uncompressed_len :: u32
  rec_codec :: byte
  rec_reserved :: bytes
  record_crc32 :: u32

definition v1_bytes :: "ChunkRecordHeaderV1 \<Rightarrow> bytes" where
  "v1_bytes h = v1_hash h @ put_u32 (raw_len h) @ put_u32 (v1_record_crc32 h)"

definition v1_of :: "bytes \<Rightarrow> ChunkRecordHeaderV1" where
  "v1_of bs = \<lparr>v1_hash = slice_at 0 32 bs, raw_len = get_u32 (slice_at 32 4 bs),
     v1_record_crc32 = get_u32 (slice_at 36 4 bs)\<rparr>"

definition v2_bytes :: "ChunkRecordHeader \<Rightarrow> bytes" where
  "v2_bytes h = rec_hash h @ put_u32 (rec_stored_len h) @ put_u32 (rec_uncompressed_len h) @
     [rec_codec h] @ rec_reserved h @ put_u32 (record_crc32 h)"

definition v2_of :: "bytes \<Rightarrow> ChunkRecordHeader" where
  "v2_of bs = \<lparr>rec_hash = slice_at 0 32 bs, rec_stored_len = get_u32 (slice_at 32 4 bs),
     rec_uncompressed_len = get_u32 (slice_at 36 4 bs), rec_codec = bs ! 40,
     rec_reserved = slice_at 41 3 bs, record_crc32 = get_u32 (slice_at 44 4 bs)\<rparr>"

definition v1_wf :: "ChunkRecordHeaderV1 \<Rightarrow> bool" where
  "v1_wf h \<longleftrightarrow> length (v1_hash h) = 32"

definition v2_wf :: "ChunkRecordHeader \<Rightarrow> bool" where
  "v2_wf h \<longleftrightarrow> length (rec_hash h) = 32 \<and> length (rec_reserved h) = 3"

lemmas record_codec = slice_at_append nth_append slice_at_def

interpretation v1_layout: packed_struct v1_bytes v1_of 40 v1_wf
  by unfold_locales (simp_all add: v1_wf_def v1_bytes_def v1_of_def record_codec)

interpretation v2_layout: packed_struct v2_bytes v2_of 48 v2_wf
  by unfold_locales (simp_all add: v2_wf_def v2_bytes_def v2_of_def record_codec)

definition HeaderCrcV1 :: "ChunkRecordHeaderV1 \<Rightarrow> u32" where
  "HeaderCrcV1 h = Crc32 (v1_bytes (h\<lparr>v1_record_crc32 := 0\<rparr>))"

definition HeaderCrcV2 :: "ChunkRecordHeader \<Rightarrow> u32" where
  "HeaderCrcV2 h = Crc32 (v2_bytes (h\<lparr>record_crc32 := 0\<rparr>))"

text \<open>
  Parsing a header at an offset of a file: the first 40 bytes are tried as a version 1 header, and
  only if that checksum fails, 48 bytes as a version 2 header. The result is the header in version 2
  form and its size.
\<close>

definition ReadParsedHeaderAt :: "bytes \<Rightarrow> nat \<Rightarrow> Status + (ChunkRecordHeader \<times> nat)" where
  "ReadParsedHeaderAt log off =
     (let b1 = slice_at off 40 log in
      if length b1 < 40 then Inl (IoError ''chunk header read short'')
      else
        let v1 = v1_of b1 in
        if HeaderCrcV1 v1 = v1_record_crc32 v1 then
          Inr (\<lparr>rec_hash = v1_hash v1, rec_stored_len = raw_len v1, rec_uncompressed_len = raw_len v1,
                rec_codec = 0, rec_reserved = [0, 0, 0], record_crc32 = v1_record_crc32 v1\<rparr>,
               kChunkHeaderV1Size)
        else
          let b2 = slice_at off 48 log in
          if length b2 < 48 then Inl (IoError ''chunk header read short'')
          else
            let v2 = v2_of b2 in
            if HeaderCrcV2 v2 \<noteq> record_crc32 v2 then Inl (Corrupt ''chunk record header crc mismatch'')
            else Inr (v2, kChunkHeaderV2Size))"

section \<open>The index file (store/chunk_index.h, store/chunk_index.cc)\<close>

definition kChunkIndexMagic :: u32 where "kChunkIndexMagic = 0x44495848"
definition kChunkIndexVersion :: u32 where "kChunkIndexVersion = 1"
definition kChunkIndexVersionEbPack :: u32 where "kChunkIndexVersionEbPack = 2"
definition kChunkStorageLegacy :: byte where "kChunkStorageLegacy = 0"
definition kChunkStorageEbPack :: byte where "kChunkStorageEbPack = 1"

record ChunkIndexEntryV1 =
  e1_hash :: bytes
  e1_offset :: u64
  e1_stored_len :: u32
  e1_uncompressed_len :: u32
  e1_codec :: byte
  e1_reserved :: bytes

record ChunkIndexHeader =
  idx_magic :: u32
  idx_version :: u32
  entry_count :: u64
  chunks_file_size :: u64
  header_crc32 :: u32

record ChunkIndexEntry =
  ent_hash :: bytes
  ent_offset :: u64
  ent_stored_len :: u32
  ent_uncompressed_len :: u32
  ent_codec :: byte
  storage_flags :: byte
  pack_name :: bytes

definition empty_entry :: ChunkIndexEntry where
  "empty_entry = \<lparr>ent_hash = zeros 32, ent_offset = 0, ent_stored_len = 0, ent_uncompressed_len = 0,
     ent_codec = 0, storage_flags = kChunkStorageLegacy, pack_name = zeros 47\<rparr>"

definition index_header_bytes :: "ChunkIndexHeader \<Rightarrow> bytes" where
  "index_header_bytes h = put_u32 (idx_magic h) @ put_u32 (idx_version h) @ put_u64 (entry_count h) @
     put_u64 (chunks_file_size h) @ put_u32 (header_crc32 h)"

definition index_header_of :: "bytes \<Rightarrow> ChunkIndexHeader" where
  "index_header_of bs = \<lparr>idx_magic = get_u32 (slice_at 0 4 bs), idx_version = get_u32 (slice_at 4 4 bs),
     entry_count = get_u64 (slice_at 8 8 bs), chunks_file_size = get_u64 (slice_at 16 8 bs),
     header_crc32 = get_u32 (slice_at 24 4 bs)\<rparr>"

definition entry_v1_bytes :: "ChunkIndexEntryV1 \<Rightarrow> bytes" where
  "entry_v1_bytes e = e1_hash e @ put_u64 (e1_offset e) @ put_u32 (e1_stored_len e) @
     put_u32 (e1_uncompressed_len e) @ [e1_codec e] @ e1_reserved e"

definition entry_v1_of :: "bytes \<Rightarrow> ChunkIndexEntryV1" where
  "entry_v1_of bs = \<lparr>e1_hash = slice_at 0 32 bs, e1_offset = get_u64 (slice_at 32 8 bs),
     e1_stored_len = get_u32 (slice_at 40 4 bs), e1_uncompressed_len = get_u32 (slice_at 44 4 bs),
     e1_codec = bs ! 48, e1_reserved = slice_at 49 3 bs\<rparr>"

definition entry_bytes :: "ChunkIndexEntry \<Rightarrow> bytes" where
  "entry_bytes e = ent_hash e @ put_u64 (ent_offset e) @ put_u32 (ent_stored_len e) @
     put_u32 (ent_uncompressed_len e) @ [ent_codec e, storage_flags e] @ pack_name e"

definition entry_of :: "bytes \<Rightarrow> ChunkIndexEntry" where
  "entry_of bs = \<lparr>ent_hash = slice_at 0 32 bs, ent_offset = get_u64 (slice_at 32 8 bs),
     ent_stored_len = get_u32 (slice_at 40 4 bs), ent_uncompressed_len = get_u32 (slice_at 44 4 bs),
     ent_codec = bs ! 48, storage_flags = bs ! 49, pack_name = slice_at 50 47 bs\<rparr>"

definition entry_v1_wf :: "ChunkIndexEntryV1 \<Rightarrow> bool" where
  "entry_v1_wf e \<longleftrightarrow> length (e1_hash e) = 32 \<and> length (e1_reserved e) = 3"

definition entry_wf :: "ChunkIndexEntry \<Rightarrow> bool" where
  "entry_wf e \<longleftrightarrow> length (ent_hash e) = 32 \<and> length (pack_name e) = 47"

interpretation index_header_layout: packed_struct index_header_bytes index_header_of 28 "\<lambda>_. True"
  by unfold_locales (simp_all add: index_header_bytes_def index_header_of_def record_codec)

interpretation entry_v1_layout: packed_struct entry_v1_bytes entry_v1_of 52 entry_v1_wf
  by unfold_locales (simp_all add: entry_v1_wf_def entry_v1_bytes_def entry_v1_of_def record_codec)

interpretation entry_layout: packed_struct entry_bytes entry_of 97 entry_wf
  by unfold_locales (simp_all add: entry_wf_def entry_bytes_def entry_of_def record_codec)

definition HeaderCrc :: "ChunkIndexHeader \<Rightarrow> u32" where
  "HeaderCrc h = Crc32 (index_header_bytes (h\<lparr>header_crc32 := 0\<rparr>))"

definition entry_of_v1 :: "ChunkIndexEntryV1 \<Rightarrow> ChunkIndexEntry" where
  "entry_of_v1 v = empty_entry\<lparr>ent_hash := e1_hash v, ent_offset := e1_offset v,
     ent_stored_len := e1_stored_len v, ent_uncompressed_len := e1_uncompressed_len v,
     ent_codec := e1_codec v\<rparr>"

definition v1_of_entry :: "ChunkIndexEntry \<Rightarrow> ChunkIndexEntryV1" where
  "v1_of_entry e = \<lparr>e1_hash = ent_hash e, e1_offset = ent_offset e, e1_stored_len = ent_stored_len e,
     e1_uncompressed_len = ent_uncompressed_len e, e1_codec = ent_codec e, e1_reserved = zeros 3\<rparr>"

definition index_Load :: "string \<Rightarrow> bytes option \<Rightarrow> u64 \<Rightarrow> Status + ChunkIndexEntry list" where
  "index_Load path file expected_chunks_size =
     (case file of
        None \<Rightarrow> Inl (NotFound (''chunk index missing: '' @ path))
      | Some bs \<Rightarrow>
          if length bs < 28 then Inl (Corrupt ''chunk index header short'')
          else
            let hdr = index_header_of (take 28 bs); body = drop 28 bs; n = unat (entry_count hdr) in
            if idx_magic hdr \<noteq> kChunkIndexMagic then Inl (Corrupt ''chunk index bad magic/version'')
            else if idx_version hdr \<noteq> kChunkIndexVersion \<and> idx_version hdr \<noteq> kChunkIndexVersionEbPack
            then Inl (Corrupt ''chunk index bad magic/version'')
            else if HeaderCrc hdr \<noteq> header_crc32 hdr
            then Inl (Corrupt ''chunk index header crc mismatch'')
            else if chunks_file_size hdr \<noteq> expected_chunks_size
            then Inl (Corrupt ''chunk index size mismatch with chunks file'')
            else if idx_version hdr = kChunkIndexVersion then
              (case read_records 52 entry_v1_of n body of
                 None \<Rightarrow> Inl (Corrupt ''chunk index entries short'')
               | Some (v1, _) \<Rightarrow> Inr (map entry_of_v1 v1))
            else
              (case read_records 97 entry_of n body of
                 None \<Rightarrow> Inl (Corrupt ''chunk index entries short'')
               | Some (es, _) \<Rightarrow> Inr es))"

text \<open>
  The entries that loading leaves in the caller's list when it fails: none if the header is refused. If the
  entries are short, the list has been resized already; a version 1 file leaves empty entries, a version 2 file
  the bytes it has, the rest empty. (A count that does not fit in memory makes the code throw instead.)
\<close>

definition index_Load_leaves :: "bytes option \<Rightarrow> u64 \<Rightarrow> ChunkIndexEntry list" where
  "index_Load_leaves file expected_chunks_size =
     (case file of
        None \<Rightarrow> []
      | Some bs \<Rightarrow>
          let hdr = index_header_of (take 28 bs); body = drop 28 bs; n = unat (entry_count hdr) in
          if length bs < 28 \<or> idx_magic hdr \<noteq> kChunkIndexMagic \<or>
             (idx_version hdr \<noteq> kChunkIndexVersion \<and> idx_version hdr \<noteq> kChunkIndexVersionEbPack) \<or>
             HeaderCrc hdr \<noteq> header_crc32 hdr \<or> chunks_file_size hdr \<noteq> expected_chunks_size
          then []
          else if idx_version hdr = kChunkIndexVersion then replicate n empty_entry
          else map (\<lambda>i. entry_of (slice_at (97 * i) 97 (body @ zeros (97 * n)))) [0..<n])"

definition index_image :: "u64 \<Rightarrow> ChunkIndexEntry list \<Rightarrow> bytes" where
  "index_image fsize entries =
     (let use_v2 = (\<exists>e \<in> set entries. storage_flags e = kChunkStorageEbPack);
          hdr = \<lparr>idx_magic = kChunkIndexMagic,
                 idx_version = (if use_v2 then kChunkIndexVersionEbPack else kChunkIndexVersion),
                 entry_count = word_of_nat (length entries), chunks_file_size = fsize, header_crc32 = 0\<rparr>
      in index_header_bytes (hdr\<lparr>header_crc32 := HeaderCrc hdr\<rparr>) @
         (if use_v2 then concat (map entry_bytes entries)
          else concat (map (entry_v1_bytes \<circ> v1_of_entry) entries)))"

text \<open>Saving writes a temporary file, syncs it and renames it over the index.\<close>

record save_io =
  open_temp_ok :: bool
  write_temp_ok :: bool
  fsync_temp :: Status
  rename_ok :: bool
  fsync_final :: Status

definition index_Save ::
  "save_io \<Rightarrow> string \<Rightarrow> bytes option \<Rightarrow> u64 \<Rightarrow> ChunkIndexEntry list \<Rightarrow> Status \<times> bytes option" where
  "index_Save io path file fsize entries =
     (if \<not> open_temp_ok io then (IoError (''cannot write chunk index: '' @ path @ ''.new''), file)
      else if \<not> write_temp_ok io then (IoError ''chunk index write failed'', file)
      else if \<not> status_ok (fsync_temp io) then (fsync_temp io, file)
      else if \<not> rename_ok io then (IoError ''chunk index rename failed'', file)
      else (fsync_final io, Some (index_image fsize entries)))"

section \<open>Rebuilding the index from the log\<close>

definition ReadRecordMetaAt :: "bytes \<Rightarrow> nat \<Rightarrow> Status + (ChunkIndexEntry \<times> nat)" where
  "ReadRecordMetaAt log off =
     (case ReadParsedHeaderAt log off of
        Inl e \<Rightarrow> Inl e
      | Inr (h, hsize) \<Rightarrow>
          Inr (empty_entry\<lparr>ent_hash := rec_hash h, ent_offset := word_of_nat off,
                 ent_stored_len := rec_stored_len h, ent_uncompressed_len := rec_uncompressed_len h,
                 ent_codec := rec_codec h\<rparr>, hsize + unat (rec_stored_len h)))"

lemma ReadParsedHeaderAt_size: "ReadParsedHeaderAt log off = Inr (h, n) \<Longrightarrow> n = 40 \<or> n = 48"
  by (auto simp: ReadParsedHeaderAt_def Let_def kChunkHeaderV1Size_def kChunkHeaderV2Size_def
      split: if_splits)

lemma ReadRecordMetaAt_pos: "ReadRecordMetaAt log off = Inr (e, n) \<Longrightarrow> 0 < n"
  using ReadParsedHeaderAt_size by (fastforce simp: ReadRecordMetaAt_def split: sum.splits prod.splits)

text \<open>
  The loop of the scan: the entries found from an offset on, and what ended it, the end of the file
  or an error at some offset.
\<close>

function scan_records :: "bytes \<Rightarrow> nat \<Rightarrow> ChunkIndexEntry list \<times> (Status \<times> nat) option" where
  "scan_records log off =
     (if off < length log then
        (case ReadRecordMetaAt log off of
           Inl e \<Rightarrow> ([], Some (e, off))
         | Inr (entry, n) \<Rightarrow>
             (case scan_records log (off + n) of (es, stop) \<Rightarrow> (entry # es, stop)))
      else ([], None))"
  by auto
termination
  by (relation "measure (\<lambda>(log, off). length log - off)") (auto dest: ReadRecordMetaAt_pos)

declare scan_records.simps [simp del]

text \<open>
  An error at offset 0 is returned; anywhere else the log is cut there (if resizing works) and the
  entries before it are kept. The second component is the log afterwards, the third the size the
  caller is told.
\<close>

definition RebuildFromScan ::
  "bool \<Rightarrow> bytes option \<Rightarrow> (Status \<times> ChunkIndexEntry list) \<times> bytes option \<times> nat" where
  "RebuildFromScan resize_ok log =
     (case log of
        None \<Rightarrow> ((Status_Ok, []), None, 0)
      | Some bs \<Rightarrow>
          (case scan_records bs 0 of
             (es, None) \<Rightarrow> ((Status_Ok, es), Some bs, length bs)
           | (es, Some (e, off)) \<Rightarrow>
               if off = 0 then ((e, es), Some bs, length bs)
               else if \<not> resize_ok
               then ((IoError ''cannot truncate corrupt chunk tail'', es), Some bs, length bs)
               else ((Status_Ok, es), Some (take off bs), off)))"

section \<open>The index round-trips\<close>

text \<open>Entries the store builds: legacy entries carry no pack name.\<close>

definition canonical :: "ChunkIndexEntry \<Rightarrow> bool" where
  "canonical e \<longleftrightarrow> entry_wf e \<and> (storage_flags e \<noteq> kChunkStorageEbPack \<longrightarrow>
     storage_flags e = kChunkStorageLegacy \<and> pack_name e = zeros 47)"

lemma entry_of_v1_of_entry:
  "storage_flags e = kChunkStorageLegacy \<Longrightarrow> pack_name e = zeros 47 \<Longrightarrow> entry_of_v1 (v1_of_entry e) = e"
  by (cases e) (simp add: entry_of_v1_def v1_of_entry_def empty_entry_def)

lemma index_header_simps:
  "length (index_header_bytes h) = 28" "index_header_of (index_header_bytes h) = h"
  by (simp_all add: index_header_layout.enc_length index_header_layout.dec_enc)

lemma index_image_split: "\<exists>h body. index_image fsize es = index_header_bytes h @ body \<and>
    idx_magic h = kChunkIndexMagic \<and> HeaderCrc h = header_crc32 h \<and> chunks_file_size h = fsize \<and>
    entry_count h = word_of_nat (length es) \<and>
    (if \<exists>e \<in> set es. storage_flags e = kChunkStorageEbPack
     then idx_version h = kChunkIndexVersionEbPack \<and> body = concat (map entry_bytes es)
     else idx_version h = kChunkIndexVersion \<and> body = concat (map entry_v1_bytes (map v1_of_entry es)))"
  unfolding index_image_def Let_def
  by (intro exI conjI, rule refl) (auto simp: HeaderCrc_def)

lemma index_Load_image:
  assumes "\<forall>e \<in> set es. canonical e" and "length es < 2 ^ 64"
  shows "index_Load path (Some (index_image fsize es)) fsize = Inr es"
proof -
  obtain h body where h: "index_image fsize es = index_header_bytes h @ body"
    "idx_magic h = kChunkIndexMagic" "HeaderCrc h = header_crc32 h" "chunks_file_size h = fsize"
    "entry_count h = word_of_nat (length es)"
    and v: "if \<exists>e \<in> set es. storage_flags e = kChunkStorageEbPack
     then idx_version h = kChunkIndexVersionEbPack \<and> body = concat (map entry_bytes es)
     else idx_version h = kChunkIndexVersion \<and> body = concat (map entry_v1_bytes (map v1_of_entry es))"
    using index_image_split [of fsize es] by blast
  have n: "unat (entry_count h) = length es" using h(5) assms(2) by (simp add: unat_of_nat)
  have len: "\<not> length (index_header_bytes h @ body) < 28" by (simp add: index_header_layout.enc_length)
  show ?thesis
  proof (cases "\<exists>e \<in> set es. storage_flags e = kChunkStorageEbPack")
    case True
    have "read_records 97 entry_of (length es) (concat (map entry_bytes es) @ []) = Some (es, [])"
      by (rule entry_layout.read_records_enc) (use assms(1) in \<open>simp add: canonical_def\<close>)
    with True v h(2-4) n len show ?thesis
      unfolding index_Load_def h(1)
      by (simp add: index_header_simps Let_def kChunkIndexVersion_def kChunkIndexVersionEbPack_def)
  next
    case False
    have wf: "entry_v1_wf v" if "v \<in> set (map v1_of_entry es)" for v
      using that assms(1) by (auto simp: canonical_def entry_wf_def v1_of_entry_def entry_v1_wf_def)
    have "read_records 52 entry_v1_of (length (map v1_of_entry es))
        (concat (map entry_v1_bytes (map v1_of_entry es)) @ []) = Some (map v1_of_entry es, [])"
      by (rule entry_v1_layout.read_records_enc) (rule wf)
    moreover have "map entry_of_v1 (map v1_of_entry es) = es"
      unfolding map_map using False assms(1)
      by (intro map_idI) (auto simp: canonical_def intro: entry_of_v1_of_entry)
    ultimately show ?thesis
      using False v h(2-4) n len unfolding index_Load_def h(1)
      by (simp add: index_header_simps Let_def)
  qed
qed

text \<open>
  C30. The chunk index round-trips and is replaced atomically: if saving succeeds, loading it for the
  same log size returns exactly the saved entries, in either format, and loading it for any other
  log size refuses it; if saving fails before the rename, the old file is still there.
\<close>

theorem chunk_index_roundtrip:
  assumes "\<forall>e \<in> set entries. canonical e" and "length entries < 2 ^ 64"
    and "index_Save io path file fsize entries = (st, file')"
  shows "(status_ok st \<longrightarrow> index_Load path file' fsize = Inr entries) \<and>
    (status_ok st \<longrightarrow> (\<forall>other. other \<noteq> fsize \<longrightarrow>
       index_Load path file' other = Inl (Corrupt ''chunk index size mismatch with chunks file''))) \<and>
    (\<not> rename_ok io \<longrightarrow> file' = file \<and> \<not> status_ok st)"
proof -
  have stale: "index_Load path (Some (index_image fsize entries)) other =
      Inl (Corrupt ''chunk index size mismatch with chunks file'')" if "other \<noteq> fsize" for other
  proof -
    obtain h body where h: "index_image fsize entries = index_header_bytes h @ body"
      "idx_magic h = kChunkIndexMagic" "HeaderCrc h = header_crc32 h" "chunks_file_size h = fsize"
      "idx_version h = kChunkIndexVersion \<or> idx_version h = kChunkIndexVersionEbPack"
      using index_image_split [of fsize entries] by (auto split: if_splits)
    have "\<not> length (index_header_bytes h @ body) < 28" by (simp add: index_header_layout.enc_length)
    with h(2-5) that show ?thesis
      unfolding index_Load_def h(1) by (auto simp: index_header_simps Let_def)
  qed
  show ?thesis
    using assms(3) index_Load_image [OF assms(1,2)] stale
    by (auto simp: index_Save_def split: if_splits)
qed

definition sample_entry :: ChunkIndexEntry where
  "sample_entry = empty_entry\<lparr>ent_offset := 48, ent_stored_len := 7, ent_uncompressed_len := 9, ent_codec := 1\<rparr>"

definition calm_save :: save_io where
  "calm_save = \<lparr>open_temp_ok = True, write_temp_ok = True, fsync_temp = Status_Ok, rename_ok = True,
     fsync_final = Status_Ok\<rparr>"

theorem chunk_index_roundtrip_witness:
  "\<exists>bs. index_Save calm_save ''i'' None 500 [sample_entry, empty_entry] = (Status_Ok, Some bs) \<and>
     index_Load ''i'' (Some bs) 500 = Inr [sample_entry, empty_entry] \<and>
     index_Load ''i'' (Some bs) 501 = Inl (Corrupt ''chunk index size mismatch with chunks file'')"
proof -
  have c: "\<forall>e \<in> set [sample_entry, empty_entry]. canonical e"
    by (simp add: canonical_def sample_entry_def empty_entry_def entry_wf_def
        kChunkStorageEbPack_def kChunkStorageLegacy_def)
  have s: "index_Save calm_save ''i'' None 500 [sample_entry, empty_entry] =
      (Status_Ok, Some (index_image 500 [sample_entry, empty_entry]))"
    by (simp add: index_Save_def calm_save_def)
  show ?thesis using chunk_index_roundtrip [OF c _ s] s by simp
qed

section \<open>Scanning a log of appended records\<close>

text \<open>A version 2 record as the store appends it: the sealed header and the payload.\<close>

definition seal_v2 :: "ChunkRecordHeader \<Rightarrow> ChunkRecordHeader" where
  "seal_v2 h = h\<lparr>record_crc32 := HeaderCrcV2 h\<rparr>"

definition record_bytes :: "ChunkRecordHeader \<times> bytes \<Rightarrow> bytes" where
  "record_bytes r = v2_bytes (seal_v2 (fst r)) @ snd r"

text \<open>
  A version 2 header is ambiguous if its first 40 bytes pass as a version 1 header, that is if the
  checksum of the hash and the stored length happens to be the uncompressed length.
\<close>

definition unambiguous :: "ChunkRecordHeader \<Rightarrow> bool" where
  "unambiguous h \<longleftrightarrow> Crc32 (rec_hash h @ put_u32 (rec_stored_len h) @ zeros 4) \<noteq> rec_uncompressed_len h"

definition record_wf :: "ChunkRecordHeader \<times> bytes \<Rightarrow> bool" where
  "record_wf r \<longleftrightarrow> v2_wf (fst r) \<and> unambiguous (fst r) \<and> unat (rec_stored_len (fst r)) = length (snd r)"

lemma seal_v2_simps [simp]:
  "v2_wf (seal_v2 h) = v2_wf h" "rec_hash (seal_v2 h) = rec_hash h"
  "rec_stored_len (seal_v2 h) = rec_stored_len h" "rec_codec (seal_v2 h) = rec_codec h"
  "rec_uncompressed_len (seal_v2 h) = rec_uncompressed_len h"
  "HeaderCrcV2 (seal_v2 h) = record_crc32 (seal_v2 h)"
  by (simp_all add: seal_v2_def v2_wf_def HeaderCrcV2_def)

lemma ReadParsedHeaderAt_record:
  assumes "v2_wf h" and "unambiguous h" and "length pre = off"
  shows "ReadParsedHeaderAt (pre @ v2_bytes (seal_v2 h) @ rest) off = Inr (seal_v2 h, 48)"
proof -
  let ?log = "pre @ v2_bytes (seal_v2 h) @ rest"
  have l: "length (v2_bytes (seal_v2 h)) = 48" using assms(1) by (simp add: v2_layout.enc_length)
  have b2: "slice_at off 48 ?log = v2_bytes (seal_v2 h)" using l assms(3) by (simp add: slice_at_def)
  have b1: "slice_at off 40 ?log = rec_hash h @ put_u32 (rec_stored_len h) @ put_u32 (rec_uncompressed_len h)"
    using assms(1,3) by (simp add: slice_at_def v2_bytes_def v2_wf_def)
  have v1: "v1_of (slice_at off 40 ?log) =
      \<lparr>v1_hash = rec_hash h, raw_len = rec_stored_len h, v1_record_crc32 = rec_uncompressed_len h\<rparr>"
    unfolding b1 using assms(1) by (simp add: v1_of_def record_codec v2_wf_def)
  have "HeaderCrcV1 (v1_of (slice_at off 40 ?log)) \<noteq> v1_record_crc32 (v1_of (slice_at off 40 ?log))"
    unfolding v1 using assms(2) by (simp add: HeaderCrcV1_def v1_bytes_def unambiguous_def put_u32_0)
  moreover have "v2_of (v2_bytes (seal_v2 h)) = seal_v2 h" using assms(1) by (simp add: v2_layout.dec_enc)
  moreover have "length (slice_at off 40 ?log) = 40" using l assms(3) by simp
  ultimately show ?thesis
    using l by (simp add: ReadParsedHeaderAt_def Let_def b2 kChunkHeaderV2Size_def del: length_slice_at)
qed

definition record_entry :: "nat \<Rightarrow> ChunkRecordHeader \<times> bytes \<Rightarrow> ChunkIndexEntry" where
  "record_entry off r = empty_entry\<lparr>ent_hash := rec_hash (fst r), ent_offset := word_of_nat off,
     ent_stored_len := rec_stored_len (fst r), ent_uncompressed_len := rec_uncompressed_len (fst r),
     ent_codec := rec_codec (fst r)\<rparr>"

fun record_entries :: "nat \<Rightarrow> (ChunkRecordHeader \<times> bytes) list \<Rightarrow> ChunkIndexEntry list" where
  "record_entries off [] = []"
| "record_entries off (r # rs) = record_entry off r # record_entries (off + length (record_bytes r)) rs"

lemma length_record_bytes: "record_wf r \<Longrightarrow> length (record_bytes r) = 48 + length (snd r)"
  by (simp add: record_wf_def record_bytes_def v2_layout.enc_length)

lemma ReadRecordMetaAt_record:
  assumes "record_wf r" and "length pre = off"
  shows "ReadRecordMetaAt (pre @ record_bytes r @ rest) off =
    Inr (record_entry off r, length (record_bytes r))"
  using ReadParsedHeaderAt_record [OF _ _ assms(2), of "fst r" "snd r @ rest"] assms(1)
    length_record_bytes [OF assms(1)]
  by (auto simp: ReadRecordMetaAt_def record_wf_def record_bytes_def record_entry_def)

lemma scan_records_log:
  assumes "\<forall>r \<in> set rs. record_wf r" and "length pre = off"
  shows "scan_records (pre @ concat (map record_bytes rs) @ tail) off =
    (case scan_records (pre @ concat (map record_bytes rs) @ tail) (off + length (concat (map record_bytes rs))) of
       (es, stop) \<Rightarrow> (record_entries off rs @ es, stop))"
  using assms
proof (induction rs arbitrary: pre off)
  case (Cons r rs)
  let ?log = "pre @ concat (map record_bytes (r # rs)) @ tail"
  have wf: "record_wf r" "\<forall>r \<in> set rs. record_wf r" using Cons.prems by auto
  have e: "ReadRecordMetaAt ?log off = Inr (record_entry off r, length (record_bytes r))"
    using ReadRecordMetaAt_record [OF wf(1) Cons.prems(2), of "concat (map record_bytes rs) @ tail"] by simp
  have "off < length ?log" using Cons.prems(2) length_record_bytes [OF wf(1)] by simp
  with e have s: "scan_records ?log off = (case scan_records ?log (off + length (record_bytes r)) of
      (es, stop) \<Rightarrow> (record_entry off r # es, stop))"
    by (subst scan_records.simps) simp
  have IH: "scan_records ?log (off + length (record_bytes r)) =
     (case scan_records ?log (off + length (record_bytes r) + length (concat (map record_bytes rs))) of
       (es, stop) \<Rightarrow> (record_entries (off + length (record_bytes r)) rs @ es, stop))"
    using Cons.IH [OF wf(2), of "pre @ record_bytes r" "off + length (record_bytes r)"] Cons.prems(2) by simp
  show ?case
    unfolding s IH by (simp add: add.assoc split: prod.splits)
qed simp

text \<open>
  The bytes a crash can leave of a header: fewer than a version 1 header, whatever they are, or the beginning of an
  unambiguous version 2 header. No header is read from them.
\<close>

lemma ReadParsedHeaderAt_torn:
  assumes "length torn < 40 \<or> v2_wf h \<and> unambiguous h \<and> k < 48 \<and> torn = take k (v2_bytes (seal_v2 h))"
  shows "ReadParsedHeaderAt (pre @ torn) (length pre) = Inl (IoError ''chunk header read short'')"
proof (cases "length torn < 40")
  case True
  then show ?thesis by (simp add: ReadParsedHeaderAt_def Let_def)
next
  case False
  then have h: "v2_wf h" "unambiguous h" "k < 48" "torn = take k (v2_bytes (seal_v2 h))" using assms by auto
  have l: "length (v2_bytes (seal_v2 h)) = 48" using h(1) by (simp add: v2_layout.enc_length)
  have k: "40 \<le> k" using False h(4) l by simp
  have "slice_at (length pre) 40 (pre @ torn) = slice_at (length pre) 40 (pre @ v2_bytes (seal_v2 h) @ [])"
    using k by (simp add: slice_at_def h(4) min_def)
  also have "\<dots> = rec_hash h @ put_u32 (rec_stored_len h) @ put_u32 (rec_uncompressed_len h)"
    using h(1) by (simp add: slice_at_def v2_bytes_def v2_wf_def)
  finally have b1: "slice_at (length pre) 40 (pre @ torn) =
      rec_hash h @ put_u32 (rec_stored_len h) @ put_u32 (rec_uncompressed_len h)" .
  have v1: "v1_of (slice_at (length pre) 40 (pre @ torn)) =
      \<lparr>v1_hash = rec_hash h, raw_len = rec_stored_len h, v1_record_crc32 = rec_uncompressed_len h\<rparr>"
    unfolding b1 using h(1) by (simp add: v1_of_def record_codec v2_wf_def)
  have "HeaderCrcV1 (v1_of (slice_at (length pre) 40 (pre @ torn))) \<noteq> v1_record_crc32 (v1_of (slice_at (length pre) 40 (pre @ torn)))"
    unfolding v1 using h(2) by (simp add: HeaderCrcV1_def v1_bytes_def unambiguous_def put_u32_0)
  moreover have "length torn < 48" using h(3,4) l by simp
  ultimately show ?thesis by (simp add: ReadParsedHeaderAt_def Let_def)
qed

text \<open>
  C29. Rebuilding the index from the log: take a log of appended records, any number of them, none with a header
  whose first 40 bytes happen to pass as a version 1 header (\<open>unambiguous\<close>; the chance is one in \<open>2 ^ 32\<close> for a
  record). The scan finds exactly these records, in order, at their offsets. If a crash left a piece of a header
  behind them, fewer than 40 bytes of any kind or the beginning of another such header, the scan finds the same
  records and cuts the log back to them, provided the file can be cut. With nothing but such a piece in the
  log, the scan reports the error and leaves the log alone.
\<close>

theorem rebuild_from_scan:
  assumes "\<forall>r \<in> set rs. record_wf r"
    and "length torn < 40 \<or> v2_wf h \<and> unambiguous h \<and> k < 48 \<and> torn = take k (v2_bytes (seal_v2 h))"
  shows "RebuildFromScan True (Some (concat (map record_bytes rs) @ torn)) =
    (if rs = [] \<and> torn \<noteq> [] then ((IoError ''chunk header read short'', []), Some torn, length torn)
     else ((Status_Ok, record_entries 0 rs), Some (concat (map record_bytes rs)),
           length (concat (map record_bytes rs))))"
proof -
  let ?recs = "concat (map record_bytes rs)"
  have pos: "length ?recs = 0 \<longleftrightarrow> rs = []"
    using assms(1) length_record_bytes by (cases rs) auto
  have scan: "scan_records (?recs @ torn) 0 =
      (case scan_records (?recs @ torn) (length ?recs) of (es, stop) \<Rightarrow> (record_entries 0 rs @ es, stop))"
    using scan_records_log [OF assms(1), of "[]" 0 torn] by simp
  show ?thesis
  proof (cases "torn = []")
    case True
    then have "scan_records (?recs @ torn) (length ?recs) = ([], None)"
      by (subst scan_records.simps) simp
    then show ?thesis using scan True by (simp add: RebuildFromScan_def)
  next
    case False
    have "ReadRecordMetaAt (?recs @ torn) (length ?recs) = Inl (IoError ''chunk header read short'')"
      using ReadParsedHeaderAt_torn [OF assms(2), of ?recs] by (simp add: ReadRecordMetaAt_def)
    then have "scan_records (?recs @ torn) (length ?recs) =
        ([], Some (IoError ''chunk header read short'', length ?recs))"
      using False by (subst scan_records.simps) simp
    then show ?thesis using scan pos False by (auto simp: RebuildFromScan_def)
  qed
qed

definition sample_record :: "ChunkRecordHeader \<times> bytes" where
  "sample_record = (\<lparr>rec_hash = zeros 32, rec_stored_len = 3,
     rec_uncompressed_len = Crc32 (zeros 32 @ put_u32 3 @ zeros 4) + 1, rec_codec = 0,
     rec_reserved = [0, 0, 0], record_crc32 = 0\<rparr>, [1, 2, 3])"

lemma sample_record_wf: "record_wf sample_record"
  by (simp add: record_wf_def sample_record_def v2_wf_def unambiguous_def)

theorem rebuild_from_scan_witness:
  "RebuildFromScan True (Some (concat (map record_bytes [sample_record, sample_record]) @
      take 45 (v2_bytes (seal_v2 (fst sample_record))))) =
    ((Status_Ok, record_entries 0 [sample_record, sample_record]),
     Some (concat (map record_bytes [sample_record, sample_record])),
     length (concat (map record_bytes [sample_record, sample_record]))) \<and>
   RebuildFromScan True (Some [9, 9]) = ((IoError ''chunk header read short'', []), Some [9, 9], 2)"
proof -
  have "v2_wf (fst sample_record)" "unambiguous (fst sample_record)" using sample_record_wf by (simp_all add: record_wf_def)
  then show ?thesis
    using rebuild_from_scan [of "[sample_record, sample_record]" "take 45 (v2_bytes (seal_v2 (fst sample_record)))" "fst sample_record" 45]
      rebuild_from_scan [of "[]" "[9, 9]"] sample_record_wf by simp
qed

lemma record_entries_snoc:
  "record_entries off (xs @ [r]) = record_entries off xs @ [record_entry (off + length (concat (map record_bytes xs))) r]"
  by (induction xs arbitrary: off) (simp_all add: add.assoc)

text \<open>The scan of a log whose last record lost the end of its payload.\<close>

lemma scan_torn_payload:
  assumes "\<forall>r \<in> set rs. record_wf r" and "record_wf (h, payload)" and "n < length payload"
  shows "scan_records (concat (map record_bytes rs) @ v2_bytes (seal_v2 h) @ take n payload) 0 =
    (record_entries 0 (rs @ [(h, payload)]), None)"
proof -
  let ?recs = "concat (map record_bytes rs)" and ?tail = "v2_bytes (seal_v2 h) @ take n payload"
  have h: "v2_wf h" "unambiguous h" "unat (rec_stored_len h) = length payload"
    using assms(2) by (simp_all add: record_wf_def)
  have l: "length (v2_bytes (seal_v2 h)) = 48" using h(1) by (simp add: v2_layout.enc_length)
  have "ReadRecordMetaAt (?recs @ ?tail) (length ?recs) =
      Inr (record_entry (length ?recs) (h, payload), 48 + length payload)"
    using ReadParsedHeaderAt_record [OF h(1,2), of ?recs "length ?recs" "take n payload"] h(3)
    by (simp add: ReadRecordMetaAt_def record_entry_def)
  moreover have "\<not> length ?recs + (48 + length payload) < length (?recs @ ?tail)"
    using l assms(3) by simp
  ultimately have last: "scan_records (?recs @ ?tail) (length ?recs) =
      ([record_entry (length ?recs) (h, payload)], None)"
    using l by (subst scan_records.simps, subst scan_records.simps) simp
  show ?thesis
    using scan_records_log [OF assms(1), of "[]" 0 ?tail] last record_entries_snoc [of 0 rs "(h, payload)"] by simp
qed

text \<open>
  A torn payload is not noticed: if a crash cut the payload of the last record short, the scan
  still lists that record, does not cut the log, and reports success, although the record's bytes end
  beyond the end of the log.
\<close>

theorem torn_payload_is_indexed:
  assumes "\<forall>r \<in> set rs. record_wf r" and "record_wf (h, payload)" and "n < length payload"
  shows "RebuildFromScan resize_ok
      (Some (concat (map record_bytes rs) @ v2_bytes (seal_v2 h) @ take n payload)) =
    ((Status_Ok, record_entries 0 (rs @ [(h, payload)])),
     Some (concat (map record_bytes rs) @ v2_bytes (seal_v2 h) @ take n payload),
     length (concat (map record_bytes rs)) + 48 + n)"
proof -
  have "length (v2_bytes (seal_v2 h)) = 48" using assms(2) by (simp add: record_wf_def v2_layout.enc_length)
  then show ?thesis using scan_torn_payload [OF assms] assms(3) by (simp add: RebuildFromScan_def)
qed

theorem torn_payload_is_indexed_witness:
  "RebuildFromScan True (Some (concat (map record_bytes [sample_record]) @
      v2_bytes (seal_v2 (fst sample_record)) @ take 1 (snd sample_record))) =
    ((Status_Ok, record_entries 0 ([sample_record] @ [(fst sample_record, snd sample_record)])),
     Some (concat (map record_bytes [sample_record]) @ v2_bytes (seal_v2 (fst sample_record)) @
       take 1 (snd sample_record)),
     length (concat (map record_bytes [sample_record])) + 48 + 1)"
  by (rule torn_payload_is_indexed) (use sample_record_wf in \<open>simp_all add: sample_record_def\<close>)

end
