(* ===== verification/EbPack.thy ===== *)
theory EbPack
  imports ChunkIndex TextFormat
begin

text \<open>
  The pack files that hold the chunks of one transaction (\<open>store/eb_pack.h\<close>, \<open>store/eb_pack.cc\<close>) and
  the reader of a record inside a pack (\<open>ReadEbPackRecordAt\<close> of \<open>store/chunk_store.cc\<close>): a writer that
  appends records to an open pack, closes it when it is full and patches its header. Every reference
  the writer hands out can be read back once the open pack is flushed.
\<close>

section \<open>Layout and names\<close>

definition kEbPackMagic :: bytes where
  "kEbPackMagic = [0x45, 0x42, 0x50, 0x41, 0x43, 0x4B, 0x31, 0]"
definition kEbPackHeaderSize :: nat where "kEbPackHeaderSize = 4096"
definition kEbPackTargetBytes :: nat where "kEbPackTargetBytes = 8 * 1024 * 1024"

record EbPackHeader =
  pk_magic :: bytes
  pk_txn_id :: u64
  pk_seq :: u32
  pk_record_count :: u32
  pk_payload_crc32 :: u32
  pk_reserved :: u32
  pack_size :: u64
  pk_padding :: bytes

definition pack_header_bytes :: "EbPackHeader \<Rightarrow> bytes" where
  "pack_header_bytes h = pk_magic h @ put_u64 (pk_txn_id h) @ put_u32 (pk_seq h) @
     put_u32 (pk_record_count h) @ put_u32 (pk_payload_crc32 h) @ put_u32 (pk_reserved h) @
     put_u64 (pack_size h) @ pk_padding h"

definition pack_header_of :: "bytes \<Rightarrow> EbPackHeader" where
  "pack_header_of bs = \<lparr>pk_magic = slice_at 0 8 bs, pk_txn_id = get_u64 (slice_at 8 8 bs),
     pk_seq = get_u32 (slice_at 16 4 bs), pk_record_count = get_u32 (slice_at 20 4 bs),
     pk_payload_crc32 = get_u32 (slice_at 24 4 bs), pk_reserved = get_u32 (slice_at 28 4 bs),
     pack_size = get_u64 (slice_at 32 8 bs), pk_padding = slice_at 40 4056 bs\<rparr>"

definition pack_header_wf :: "EbPackHeader \<Rightarrow> bool" where
  "pack_header_wf h \<longleftrightarrow> length (pk_magic h) = 8 \<and> length (pk_padding h) = 4056"

interpretation pack_header_layout:
  packed_struct pack_header_bytes pack_header_of 4096 pack_header_wf
  by unfold_locales
    (simp_all add: pack_header_wf_def pack_header_bytes_def pack_header_of_def slice_at_append slice_at_def)

record EbPackRecordRef =
  pack_path :: string
  ref_offset :: u64
  ref_stored_len :: u32
  ref_uncompressed_len :: u32
  ref_codec :: byte

definition no_shard :: u32 where "no_shard = 0xFFFFFFFF"

definition MakePackName :: "u64 \<Rightarrow> u32 \<Rightarrow> u32 \<Rightarrow> string" where
  "MakePackName txn seq shard =
     (if shard \<noteq> no_shard
      then ''pack-'' @ pad_zeros 8 (hex_string (unat txn)) @ ''-'' @ pad_zeros 4 (hex_string (unat seq)) @
           ''-s'' @ pad_zeros 2 (hex_string (unat shard)) @ ''.ebpack''
      else ''pack-'' @ pad_zeros 8 (hex_string (unat txn)) @ ''-'' @ pad_zeros 4 (hex_string (unat seq)) @
           ''.ebpack'')"

definition path_join :: "string \<Rightarrow> string \<Rightarrow> string" where
  "path_join dir name = (if dir = [] \<or> last dir = CHR ''/'' then dir @ name else dir @ ''/'' @ name)"

section \<open>The writer\<close>

text \<open>
  The files are a map from paths to contents; the stream \<open>append_fd_\<close> is the file \<open>open_path\<close>. The
  environment says whether a file can be created, whether a write completes (otherwise what the file
  holds afterwards) and what syncing answers.
\<close>

type_synonym files = "string \<Rightarrow> bytes option"

record pack_io =
  can_create :: bool
  torn_write :: "bytes option"
  fsync_path :: "string \<Rightarrow> Status"

record EbPackWriter =
  packs_dir :: string
  pw_txn_id :: u64
  shard_id :: u32
  seq :: u32
  pack_open :: bool
  open_payload_size :: nat
  open_records :: nat
  open_path :: string
  written_paths :: "string list"
  fsynced_paths :: "string set"
  spill_bytes :: nat
  spill_records :: u64

definition new_writer :: "string \<Rightarrow> u64 \<Rightarrow> u32 \<Rightarrow> EbPackWriter" where
  "new_writer dir txn shard = \<lparr>packs_dir = dir, pw_txn_id = txn, shard_id = shard, seq = 0,
     pack_open = False, open_payload_size = 0, open_records = 0, open_path = '''', written_paths = [],
     fsynced_paths = {}, spill_bytes = kEbPackTargetBytes, spill_records = 0xFFFFFFFFFFFFFFFF\<rparr>"

definition SetSpillThresholds :: "nat \<Rightarrow> u64 \<Rightarrow> EbPackWriter \<Rightarrow> EbPackWriter" where
  "SetSpillThresholds max_buffer_bytes max_records w =
     w\<lparr>spill_bytes := max_buffer_bytes, spill_records := max_records\<rparr>"

definition pack_header :: "EbPackWriter \<Rightarrow> EbPackHeader" where
  "pack_header w = \<lparr>pk_magic = kEbPackMagic, pk_txn_id = pw_txn_id w, pk_seq = seq w,
     pk_record_count = 0, pk_payload_crc32 = 0, pk_reserved = 0, pack_size = 0, pk_padding = zeros 4056\<rparr>"

definition EnsureOpenPack :: "pack_io \<Rightarrow> files \<Rightarrow> EbPackWriter \<Rightarrow> Status \<times> EbPackWriter \<times> files" where
  "EnsureOpenPack io fs w =
     (if pack_open w then (Status_Ok, w, fs)
      else
        let path = path_join (packs_dir w) (MakePackName (pw_txn_id w) (seq w) (shard_id w));
            w1 = w\<lparr>open_path := path\<rparr>
        in if \<not> can_create io then (IoError (''cannot create ebpack: '' @ path), w1, fs)
           else case torn_write io of
                  Some junk \<Rightarrow> (IoError (''ebpack header write failed: '' @ path), w1, fs(path \<mapsto> junk))
                | None \<Rightarrow> (Status_Ok, w1\<lparr>pack_open := True, open_payload_size := 0, open_records := 0\<rparr>,
                           fs(path \<mapsto> pack_header_bytes (pack_header w))))"

text \<open>
  The checksum of the payload, read back through the stream of the open pack. After a short read the code returns
  0 and leaves the stream failed: \<open>None\<close>.
\<close>

definition ComputeOpenPayloadCrc32 :: "files \<Rightarrow> EbPackWriter \<Rightarrow> u32 option" where
  "ComputeOpenPayloadCrc32 fs w =
     (if \<not> pack_open w \<or> open_payload_size w = 0 then Some 0
      else let content = (case fs (open_path w) of None \<Rightarrow> [] | Some c \<Rightarrow> c);
               payload = slice_at kEbPackHeaderSize (open_payload_size w) content
           in if length payload < open_payload_size w then None else Some (Crc32 payload))"

text \<open>On a stream that has failed nothing is written, and the patch of the header is reported as failed.\<close>

definition FinalizeOpenPack ::
  "pack_io \<Rightarrow> bool \<Rightarrow> files \<Rightarrow> EbPackWriter \<Rightarrow> Status \<times> EbPackWriter \<times> files" where
  "FinalizeOpenPack io fsync_after fs w =
     (if \<not> pack_open w \<or> open_records w = 0 then
        (Status_Ok, (if pack_open w then w\<lparr>pack_open := False, open_path := '''', open_payload_size := 0\<rparr> else w), fs)
      else
        case ComputeOpenPayloadCrc32 fs w of
          None \<Rightarrow> (IoError (''ebpack header patch failed: '' @ open_path w), w, fs)
        | Some crc \<Rightarrow>
        let hdr = (pack_header w)\<lparr>pk_record_count := word_of_nat (open_records w),
                    pk_payload_crc32 := crc,
                    pack_size := word_of_nat (kEbPackHeaderSize + open_payload_size w)\<rparr>;
            content = (case fs (open_path w) of None \<Rightarrow> [] | Some c \<Rightarrow> c)
        in case torn_write io of
             Some junk \<Rightarrow> (IoError (''ebpack header patch failed: '' @ open_path w), w, fs(open_path w \<mapsto> junk))
           | None \<Rightarrow>
               let fs1 = fs(open_path w \<mapsto> pack_header_bytes hdr @ drop kEbPackHeaderSize content);
                   w1 = w\<lparr>pack_open := False\<rparr>
               in if fsync_after \<and> \<not> status_ok (fsync_path io (open_path w))
                  then (fsync_path io (open_path w), w1, fs1)
                  else (Status_Ok,
                        w1\<lparr>fsynced_paths := (if fsync_after then insert (open_path w) (fsynced_paths w) else fsynced_paths w),
                           written_paths := written_paths w @ [open_path w], open_payload_size := 0,
                           open_records := 0, seq := seq w + 1, open_path := ''''\<rparr>, fs1))"

definition MaybeSpillBeforeAppend ::
  "pack_io \<Rightarrow> nat \<Rightarrow> files \<Rightarrow> EbPackWriter \<Rightarrow> Status \<times> EbPackWriter \<times> files" where
  "MaybeSpillBeforeAppend io record_size fs w =
     (if \<not> pack_open w then (Status_Ok, w, fs)
      else
        let bytes_exceeded = (open_payload_size w \<ge> spill_bytes w \<or>
              open_payload_size w + record_size > spill_bytes w \<and>
              open_payload_size w + record_size > kEbPackTargetBytes);
            records_exceeded = (spill_records w \<noteq> 0xFFFFFFFFFFFFFFFF \<and> open_records w \<ge> unat (spill_records w))
        in if bytes_exceeded \<or> records_exceeded then FinalizeOpenPack io False fs w
           else if open_payload_size w + record_size > kEbPackTargetBytes then FinalizeOpenPack io False fs w
           else (Status_Ok, w, fs))"

text \<open>The record header an append writes.\<close>

definition append_header :: "bytes \<Rightarrow> nat \<Rightarrow> u32 \<Rightarrow> byte \<Rightarrow> ChunkRecordHeader" where
  "append_header hash stored_len uncompressed_len codec =
     seal_v2 \<lparr>rec_hash = hash, rec_stored_len = word_of_nat stored_len,
       rec_uncompressed_len = uncompressed_len, rec_codec = codec, rec_reserved = [0, 0, 0], record_crc32 = 0\<rparr>"

definition AppendRecord ::
  "pack_io \<Rightarrow> bytes \<Rightarrow> bytes \<Rightarrow> u32 \<Rightarrow> byte \<Rightarrow> files \<Rightarrow> EbPackWriter \<Rightarrow>
     (Status + EbPackRecordRef) \<times> EbPackWriter \<times> files" where
  "AppendRecord io hash payload uncompressed_len codec fs w =
     (let rec = append_header hash (length payload) uncompressed_len codec;
          record_size = 48 + length payload
      in case MaybeSpillBeforeAppend io record_size fs w of
           (st, w1, fs1) \<Rightarrow>
             if \<not> status_ok st then (Inl st, w1, fs1)
             else case EnsureOpenPack io fs1 w1 of
                    (st2, w2, fs2) \<Rightarrow>
                      if \<not> status_ok st2 then (Inl st2, w2, fs2)
                      else case torn_write io of
                             Some junk \<Rightarrow> (Inl (IoError (''ebpack record append failed: '' @ open_path w2)), w2,
                                          fs2(open_path w2 \<mapsto> junk))
                           | None \<Rightarrow>
                               let content = (case fs2 (open_path w2) of None \<Rightarrow> [] | Some c \<Rightarrow> c)
                               in (Inr \<lparr>pack_path = open_path w2,
                                        ref_offset = word_of_nat (kEbPackHeaderSize + open_payload_size w2),
                                        ref_stored_len = rec_stored_len rec,
                                        ref_uncompressed_len = uncompressed_len, ref_codec = codec\<rparr>,
                                   w2\<lparr>open_payload_size := open_payload_size w2 + record_size,
                                      open_records := open_records w2 + 1\<rparr>,
                                   fs2(open_path w2 \<mapsto> content @ v2_bytes rec @ payload)))"

definition FlushOpenPack :: "pack_io \<Rightarrow> bool \<Rightarrow> files \<Rightarrow> EbPackWriter \<Rightarrow> Status \<times> EbPackWriter \<times> files" where
  "FlushOpenPack io fsync_after fs w = FinalizeOpenPack io fsync_after fs w"

fun fsync_written :: "pack_io \<Rightarrow> string list \<Rightarrow> EbPackWriter \<Rightarrow> Status \<times> EbPackWriter" where
  "fsync_written io [] w = (Status_Ok, w)"
| "fsync_written io (p # ps) w =
     (if p \<in> fsynced_paths w then fsync_written io ps w
      else if \<not> status_ok (fsync_path io p) then (fsync_path io p, w)
      else fsync_written io ps (w\<lparr>fsynced_paths := insert p (fsynced_paths w)\<rparr>))"

definition FsyncAll :: "pack_io \<Rightarrow> EbPackWriter \<Rightarrow> Status \<times> EbPackWriter" where
  "FsyncAll io w =
     (case fsync_written io (written_paths w) w of
        (st, w1) \<Rightarrow>
          if \<not> status_ok st then (st, w1)
          else if pack_open w1 \<and> open_path w1 \<noteq> [] \<and> open_path w1 \<notin> fsynced_paths w1 then
            (if \<not> status_ok (fsync_path io (open_path w1)) then (fsync_path io (open_path w1), w1)
             else (Status_Ok, w1\<lparr>fsynced_paths := insert (open_path w1) (fsynced_paths w1)\<rparr>))
          else (Status_Ok, w1))"

section \<open>Sixteen shards\<close>

type_synonym EbPackShardSet = "EbPackWriter list"

definition kShardCount :: nat where "kShardCount = 16"

definition new_shard_set :: "string \<Rightarrow> u64 \<Rightarrow> nat \<Rightarrow> u64 \<Rightarrow> EbPackShardSet" where
  "new_shard_set dir txn spill recs =
     map (\<lambda>i. SetSpillThresholds spill recs (new_writer dir txn (word_of_nat i))) [0..<kShardCount]"

definition ShardForHash :: "bytes \<Rightarrow> nat" where
  "ShardForHash hash = unat (hd hash AND 0x0F)"

definition shards_AppendRecord ::
  "pack_io \<Rightarrow> bytes \<Rightarrow> bytes \<Rightarrow> u32 \<Rightarrow> byte \<Rightarrow> files \<Rightarrow> EbPackShardSet \<Rightarrow>
     (Status + EbPackRecordRef) \<times> EbPackShardSet \<times> files" where
  "shards_AppendRecord io hash payload uncompressed_len codec fs ss =
     (let i = ShardForHash hash
      in case AppendRecord io hash payload uncompressed_len codec fs (ss ! i) of
           (r, w, fs') \<Rightarrow> (r, ss[i := w], fs'))"

fun FlushAllOpenPacks :: "pack_io \<Rightarrow> bool \<Rightarrow> files \<Rightarrow> EbPackShardSet \<Rightarrow> Status \<times> EbPackShardSet \<times> files" where
  "FlushAllOpenPacks io fsync_after fs [] = (Status_Ok, [], fs)"
| "FlushAllOpenPacks io fsync_after fs (w # ws) =
     (case FlushOpenPack io fsync_after fs w of
        (st, w1, fs1) \<Rightarrow>
          if \<not> status_ok st then (st, w1 # ws, fs1)
          else case FlushAllOpenPacks io fsync_after fs1 ws of (st2, ws2, fs2) \<Rightarrow> (st2, w1 # ws2, fs2))"

fun shards_FsyncAll :: "pack_io \<Rightarrow> EbPackShardSet \<Rightarrow> Status \<times> EbPackShardSet" where
  "shards_FsyncAll io [] = (Status_Ok, [])"
| "shards_FsyncAll io (w # ws) =
     (case FsyncAll io w of
        (st, w1) \<Rightarrow> if \<not> status_ok st then (st, w1 # ws)
                   else case shards_FsyncAll io ws of (st2, ws2) \<Rightarrow> (st2, w1 # ws2))"

section \<open>Reading a record of a pack (store/chunk_store.cc)\<close>

definition ReadEbPackRecordAt ::
  "files \<Rightarrow> string \<Rightarrow> nat \<Rightarrow> Status + (ChunkRecordHeader \<times> bytes)" where
  "ReadEbPackRecordAt fs path offset =
     (case fs path of
        None \<Rightarrow> Inl (IoError (''cannot open ebpack: '' @ path))
      | Some content \<Rightarrow>
          if length content < kEbPackHeaderSize then Inl (Corrupt ''ebpack header short'')
          else
            let hdr = pack_header_of (take 4096 content) in
            if pk_magic hdr \<noteq> kEbPackMagic then Inl (Corrupt ''ebpack bad magic'')
            else if offset < kEbPackHeaderSize \<or> offset \<ge> unat (pack_size hdr)
            then Inl (Corrupt ''ebpack record offset out of range'')
            else
              let rb = slice_at offset 48 content in
              if length rb < 48 then Inl (IoError ''ebpack record header short'')
              else
                let h = v2_of rb; payload = slice_at (offset + 48) (unat (rec_stored_len h)) content
                in if length payload < unat (rec_stored_len h) then Inl (Corrupt ''ebpack payload read short'')
                   else Inr (h, payload))"

section \<open>Names are distinct\<close>

lemma MakePackName_inj:
  assumes "MakePackName txn s shard = MakePackName txn' s' shard'" and "shard \<noteq> no_shard" and "shard' \<noteq> no_shard"
  shows "txn = txn' \<and> s = s' \<and> shard = shard'"
proof -
  let ?h = "\<lambda>w n. pad_zeros w (hex_string n)"
  have e: "?h 8 (unat txn) @ CHR ''-'' # (?h 4 (unat s) @ CHR ''-'' # (CHR ''s'' # ?h 2 (unat shard) @ ''.ebpack'')) =
      ?h 8 (unat txn') @ CHR ''-'' # (?h 4 (unat s') @ CHR ''-'' # (CHR ''s'' # ?h 2 (unat shard') @ ''.ebpack''))"
    using assms by (simp add: MakePackName_def)
  note a = append_sep_eq [OF e hex_no_dash hex_no_dash]
  note b = append_sep_eq [OF a [THEN conjunct2] hex_no_dash hex_no_dash]
  have "unat txn = unat txn'" using a by (blast intro: pad_hex_inj)
  moreover have "unat s = unat s'" using b by (blast intro: pad_hex_inj)
  moreover have "unat shard = unat shard'" using b by (intro pad_hex_inj [of 2]) simp
  ultimately show ?thesis by (simp add: word_unat_eq_iff)
qed

lemma path_join_inj: "path_join d a = path_join d b \<Longrightarrow> a = b"
  by (auto simp: path_join_def split: if_splits)

lemma MakePackName_seq: "MakePackName txn s shard = MakePackName txn s' shard \<Longrightarrow> s = s'"
proof -
  assume "MakePackName txn s shard = MakePackName txn s' shard"
  then have "pad_zeros 4 (hex_string (unat s)) = pad_zeros 4 (hex_string (unat s'))"
    by (auto simp: MakePackName_def split: if_splits)
  then show ?thesis by (auto dest: pad_hex_inj simp: word_unat_eq_iff)
qed

section \<open>What was appended can be read\<close>

definition calm_pack :: "pack_io \<Rightarrow> bool" where
  "calm_pack io \<longleftrightarrow> can_create io \<and> torn_write io = None"

text \<open>The path of the pack with a given number of a writer.\<close>

definition pack_file :: "EbPackWriter \<Rightarrow> u32 \<Rightarrow> string" where
  "pack_file w s = path_join (packs_dir w) (MakePackName (pw_txn_id w) s (shard_id w))"

lemma pack_file_inj: "pack_file w s = pack_file w s' \<longleftrightarrow> s = s'"
  by (auto simp: pack_file_def dest: path_join_inj MakePackName_seq)

definition same_writer :: "EbPackWriter \<Rightarrow> EbPackWriter \<Rightarrow> bool" where
  "same_writer w w' \<longleftrightarrow> pack_file w' = pack_file w"

definition others_kept :: "EbPackWriter \<Rightarrow> files \<Rightarrow> files \<Rightarrow> bool" where
  "others_kept w fs fs' \<longleftrightarrow> (\<forall>p. p \<notin> range (pack_file w) \<longrightarrow> fs' p = fs p)"

text \<open>A record that was handed out: the reference, the header and the payload.\<close>

type_synonym issued = "EbPackRecordRef \<times> ChunkRecordHeader \<times> bytes"

definition readable :: "files \<Rightarrow> issued \<Rightarrow> bool" where
  "readable fs x = (case x of (r, h, p) \<Rightarrow>
     ReadEbPackRecordAt fs (pack_path r) (unat (ref_offset r)) = Inr (h, p))"

definition in_open :: "files \<Rightarrow> EbPackWriter \<Rightarrow> issued \<Rightarrow> bool" where
  "in_open fs w x = (case x of (r, h, p) \<Rightarrow> pack_open w \<and> pack_path r = open_path w \<and> v2_wf h \<and>
     length p = unat (rec_stored_len h) \<and>
     (\<exists>a b. fs (open_path w) = Some (pack_header_bytes (pack_header w) @ a @ v2_bytes h @ p @ b) \<and>
        unat (ref_offset r) = 4096 + length a))"

definition in_closed :: "files \<Rightarrow> EbPackWriter \<Rightarrow> issued \<Rightarrow> bool" where
  "in_closed fs w x \<longleftrightarrow> (\<exists>s. unat s < unat (seq w) \<and> pack_path (fst x) = pack_file w s) \<and> readable fs x"

definition pack_inv :: "files \<Rightarrow> EbPackWriter \<Rightarrow> issued set \<Rightarrow> nat \<Rightarrow> bool" where
  "pack_inv fs w xs n \<longleftrightarrow>
     (pack_open w \<longrightarrow> open_path w = pack_file w (seq w) \<and> 0 < open_records w \<and> open_payload_size w < 2 ^ 33 \<and>
        (\<exists>c. fs (open_path w) = Some (pack_header_bytes (pack_header w) @ c) \<and> length c = open_payload_size w)) \<and>
     unat (seq w) + (if pack_open w then 1 else 0) \<le> n \<and>
     (\<forall>x\<in>xs. in_closed fs w x \<or> in_open fs w x)"

lemma pack_header_wf_pack_header: "pack_header_wf (pack_header w)"
  by (simp add: pack_header_wf_def pack_header_def kEbPackMagic_def)

lemma readable_patched:
  assumes "in_open fs w (r, h, p)" and "pack_header_wf hd'" and "pk_magic hd' = kEbPackMagic"
    and "fs (open_path w) = Some (pack_header_bytes (pack_header w) @ c)"
    and "unat (pack_size hd') = 4096 + length c"
    and "fs' (open_path w) = Some (pack_header_bytes hd' @ c)"
  shows "readable fs' (r, h, p)"
proof -
  obtain a b where c: "c = a @ v2_bytes h @ p @ b" and o: "unat (ref_offset r) = 4096 + length a"
    and wf: "v2_wf h" and lp: "length p = unat (rec_stored_len h)" and pp: "pack_path r = open_path w"
    using assms(1,4) by (auto simp: in_open_def)
  have l: "length (pack_header_bytes hd') = 4096" using assms(2) by (simp add: pack_header_layout.enc_length)
  have lv: "length (v2_bytes h) = 48" using wf by (simp add: v2_layout.enc_length)
  define d where "d = pack_header_bytes hd' @ c"
  have dec: "pack_header_of (take 4096 d) = hd'"
    using l assms(2) by (simp add: d_def pack_header_layout.dec_enc)
  have sl: "slice_at (4096 + length a) 48 d = v2_bytes h"
    using l lv by (simp add: d_def c slice_at_def)
  have sp: "slice_at (4144 + length a) (unat (rec_stored_len h)) d = p"
    using l lv lp by (simp add: d_def c slice_at_def)
  have ld: "length d = 4096 + length c" "48 + length a + length p \<le> length c"
    using l lv by (simp_all add: d_def c)
  have "fs' (pack_path r) = Some d" using assms(6) by (simp add: pp d_def)
  moreover have "v2_of (v2_bytes h) = h" using wf by (rule v2_layout.dec_enc)
  ultimately show ?thesis
    using ld lp lv assms(3,5)
    by (simp add: readable_def ReadEbPackRecordAt_def Let_def o dec sl sp kEbPackHeaderSize_def
        del: length_slice_at)
qed

text \<open>A pack that holds its payload: its checksum can be computed, and closing any pack keeps that.\<close>

definition filled :: "files \<Rightarrow> EbPackWriter \<Rightarrow> bool" where
  "filled fs w \<longleftrightarrow> (pack_open w \<longrightarrow>
     (\<exists>c. fs (open_path w) = Some c \<and> kEbPackHeaderSize + open_payload_size w \<le> length c))"

lemma pack_inv_filled: "pack_inv fs w xs n \<Longrightarrow> filled fs w"
  by (auto simp: pack_inv_def filled_def kEbPackHeaderSize_def pack_header_layout.enc_length [OF pack_header_wf_pack_header])

lemma filled_crc: "filled fs w \<Longrightarrow> \<exists>crc. ComputeOpenPayloadCrc32 fs w = Some crc"
  by (auto simp: filled_def ComputeOpenPayloadCrc32_def Let_def)

lemma FinalizeOpenPack_filled:
  assumes "torn_write io = None" and "filled fs v" and "FinalizeOpenPack io fsync fs w = (st, w', fs')"
  shows "filled fs' v"
proof -
  have l: "length (pack_header_bytes ((pack_header w)\<lparr>pk_record_count := a, pk_payload_crc32 := b, pack_size := c\<rparr>)) = 4096" for a b c
    by (intro pack_header_layout.enc_length) (simp add: pack_header_wf_def pack_header_def kEbPackMagic_def)
  show ?thesis
    using assms
    by (auto simp: FinalizeOpenPack_def Let_def filled_def l kEbPackHeaderSize_def split: if_splits option.splits)
qed

lemma FinalizeOpenPack_ok:
  assumes "torn_write io = None" and "filled fs w" and "\<forall>p. fsync_path io p = Status_Ok"
  shows "fst (FinalizeOpenPack io fsync fs w) = Status_Ok"
  using filled_crc [OF assms(2)] assms(1,3) by (auto simp: FinalizeOpenPack_def Let_def)

text \<open>Closing a pack, by its own decision or at the end, makes everything in it readable.\<close>

lemma FinalizeOpenPack_step:
  assumes io: "calm_pack io" and inv: "pack_inv fs w xs n" and n: "n < 2 ^ 32"
    and f: "FinalizeOpenPack io fsync fs w = (st, w', fs')"
  shows "(\<forall>x\<in>xs. readable fs' x) \<and> others_kept w fs fs' \<and> same_writer w w' \<and>
    (\<not> fsync \<longrightarrow> st = Status_Ok) \<and> (status_ok st \<longrightarrow> \<not> pack_open w' \<and> pack_inv fs' w' xs n)"
proof (cases "pack_open w")
  case False
  then show ?thesis
    using f inv by (auto simp: FinalizeOpenPack_def pack_inv_def in_closed_def in_open_def others_kept_def same_writer_def)
next
  case True
  then obtain c where op: "open_path w = pack_file w (seq w)" and pos: "0 < open_records w"
    and small: "open_payload_size w < 2 ^ 33" and lc: "length c = open_payload_size w"
    and c: "fs (open_path w) = Some (pack_header_bytes (pack_header w) @ c)"
    and sq: "unat (seq w) + 1 \<le> n"
    and xs: "\<forall>x\<in>xs. in_closed fs w x \<or> in_open fs w x"
    using inv by (auto simp: pack_inv_def)
  obtain crc where crc: "ComputeOpenPayloadCrc32 fs w = Some crc" using filled_crc [OF pack_inv_filled [OF inv]] by blast
  define hd' where "hd' = (pack_header w)\<lparr>pk_record_count := word_of_nat (open_records w),
    pk_payload_crc32 := crc, pack_size := word_of_nat (kEbPackHeaderSize + open_payload_size w)\<rparr>"
  define fs1 where "fs1 = fs(open_path w \<mapsto> pack_header_bytes hd' @ c)"
  have wf: "pack_header_wf hd'" and mg: "pk_magic hd' = kEbPackMagic"
    by (simp_all add: hd'_def pack_header_wf_def pack_header_def kEbPackMagic_def)
  have psz: "unat (pack_size hd') = 4096 + length c"
    using small unat_of_nat [of "4096 + open_payload_size w", where 'a = 64]
    by (simp add: hd'_def kEbPackHeaderSize_def lc)
  have dr: "drop kEbPackHeaderSize (pack_header_bytes (pack_header w) @ c) = c"
    by (simp add: kEbPackHeaderSize_def pack_header_layout.enc_length [OF pack_header_wf_pack_header])
  have fs': "fs' = fs1"
    using f True pos io c crc
    by (auto simp: FinalizeOpenPack_def Let_def calm_pack_def dr fs1_def hd'_def
        simp del: drop_append of_nat_add split: if_splits)
  have rd: "readable fs1 x" if x: "x \<in> xs" for x
  proof (cases "in_open fs w x")
    case True
    obtain r h p where xe: "x = (r, h, p)" by (cases x)
    show ?thesis unfolding xe
      by (rule readable_patched [OF True [unfolded xe] wf mg c psz]) (simp add: fs1_def)
  next
    case False
    then obtain s where "unat s < unat (seq w)" "pack_path (fst x) = pack_file w s" "readable fs x"
      using xs x by (auto simp: in_closed_def)
    then show ?thesis using op
      by (auto simp: fs1_def readable_def ReadEbPackRecordAt_def pack_file_inj)
  qed
  have cl: "unat (seq w + 1) = unat (seq w) + 1" using sq n by (simp add: unat_word_ariths)
  have paths: "\<exists>s. unat s < unat (seq w + 1) \<and> pack_path (fst x) = pack_file w s" if x: "x \<in> xs" for x
  proof (cases "in_open fs w x")
    case True
    then show ?thesis using op cl by (intro exI [of _ "seq w"]) (auto simp: in_open_def)
  next
    case False
    then obtain s where "unat s < unat (seq w)" "pack_path (fst x) = pack_file w s"
      using xs x by (auto simp: in_closed_def)
    then show ?thesis using cl by (intro exI [of _ s]) simp
  qed
  have ok: "others_kept w fs fs1" using op by (auto simp: others_kept_def fs1_def)
  have sw: "same_writer w w'"
    using f True pos io crc
    by (auto simp: FinalizeOpenPack_def Let_def calm_pack_def same_writer_def pack_file_def split: if_splits)
  have st: "st = Status_Ok" if "\<not> fsync"
    using f True pos io crc that
    by (auto simp: FinalizeOpenPack_def Let_def calm_pack_def split: if_splits)
  have plain: "\<not> pack_open w' \<and> seq w' = seq w + 1" if "status_ok st"
    using f True pos io crc that
    by (auto simp: FinalizeOpenPack_def Let_def calm_pack_def split: if_splits)
  have "pack_inv fs1 w' xs n" if "status_ok st"
    using plain [OF that] sq cl rd paths sw
    by (auto simp: pack_inv_def in_closed_def same_writer_def)
  then show ?thesis using rd ok sw plain st by (simp add: fs')
qed

text \<open>After the two preparing calls a pack is open and has room for the record.\<close>

definition append_ready :: "files \<Rightarrow> EbPackWriter \<Rightarrow> issued set \<Rightarrow> nat \<Rightarrow> nat \<Rightarrow> bool" where
  "append_ready fs w xs n len \<longleftrightarrow> pack_open w \<and> open_path w = pack_file w (seq w) \<and>
     open_payload_size w + len < 2 ^ 33 \<and>
     (\<exists>c. fs (open_path w) = Some (pack_header_bytes (pack_header w) @ c) \<and> length c = open_payload_size w) \<and>
     unat (seq w) \<le> n \<and> (\<forall>x\<in>xs. in_closed fs w x \<or> in_open fs w x)"

lemma same_writer_trans: "same_writer a b \<Longrightarrow> same_writer b c \<Longrightarrow> same_writer a c"
  by (simp add: same_writer_def)

lemma others_kept_trans: "others_kept a fs fs1 \<Longrightarrow> same_writer a b \<Longrightarrow> others_kept b fs1 fs2 \<Longrightarrow> others_kept a fs fs2"
  by (simp add: others_kept_def same_writer_def)

lemma MaybeSpill_step:
  assumes io: "calm_pack io" and inv: "pack_inv fs w xs n" and n: "n < 2 ^ 32"
    and f: "MaybeSpillBeforeAppend io len fs w = (st, w', fs')"
  shows "st = Status_Ok \<and> others_kept w fs fs' \<and> same_writer w w' \<and> pack_inv fs' w' xs n \<and>
    (pack_open w' \<longrightarrow> open_payload_size w' + len \<le> kEbPackTargetBytes)"
proof (cases "FinalizeOpenPack io False fs w = (st, w', fs')")
  case True
  then show ?thesis using FinalizeOpenPack_step [OF io inv n True] by simp
next
  case False
  then have "st = Status_Ok \<and> w' = w \<and> fs' = fs \<and> (pack_open w \<longrightarrow> open_payload_size w + len \<le> kEbPackTargetBytes)"
    using f by (auto simp: MaybeSpillBeforeAppend_def Let_def split: if_splits)
  then show ?thesis using inv by (simp add: others_kept_def same_writer_def)
qed

lemma EnsureOpenPack_step:
  assumes io: "calm_pack io" and inv: "pack_inv fs w xs n"
    and room: "pack_open w \<longrightarrow> open_payload_size w + len \<le> kEbPackTargetBytes" and len: "len < 2 ^ 33"
    and f: "EnsureOpenPack io fs w = (st, w', fs')"
  shows "st = Status_Ok \<and> others_kept w fs fs' \<and> same_writer w w' \<and> append_ready fs' w' xs n len"
proof (cases "pack_open w")
  case True
  then show ?thesis using f inv room
    by (auto simp: EnsureOpenPack_def append_ready_def pack_inv_def others_kept_def same_writer_def
        kEbPackTargetBytes_def)
next
  case False
  have closed: "in_closed fs w x" if "x \<in> xs" for x
    using inv that False by (auto simp: pack_inv_def in_open_def)
  have e: "fs' = fs(pack_file w (seq w) \<mapsto> pack_header_bytes (pack_header w))"
      "st = Status_Ok" "w' = w\<lparr>open_path := pack_file w (seq w), pack_open := True, open_payload_size := 0, open_records := 0\<rparr>"
    using f False io by (auto simp: EnsureOpenPack_def calm_pack_def Let_def pack_file_def pack_header_def)
  have "in_closed fs' w' x" if "x \<in> xs" for x
    using closed [OF that]
    by (auto simp: in_closed_def e pack_file_def readable_def ReadEbPackRecordAt_def
        pack_file_inj [unfolded pack_file_def])
  then show ?thesis using inv len False
    by (auto simp: e append_ready_def others_kept_def same_writer_def pack_inv_def pack_file_def pack_header_def)
qed

lemma v2_wf_append_header: "length hash = 32 \<Longrightarrow> v2_wf (append_header hash n u c)"
  by (simp add: append_header_def seal_v2_def v2_wf_def)

lemma AppendRecord_step:
  assumes io: "calm_pack io" and inv: "pack_inv fs w xs n" and n: "n < 2 ^ 32"
    and lh: "length hash = 32" and lp: "length payload < 2 ^ 32"
    and f: "AppendRecord io hash payload u c fs w = (res, w', fs')"
  shows "others_kept w fs fs' \<and> same_writer w w' \<and>
    (\<exists>r. res = Inr r \<and> pack_inv fs' w' (insert (r, append_header hash (length payload) u c, payload) xs) (n + 1))"
proof -
  let ?len = "48 + length payload" and ?h = "append_header hash (length payload) u c"
  obtain st1 w1 fs1 where m: "MaybeSpillBeforeAppend io ?len fs w = (st1, w1, fs1)" by (metis prod_cases3)
  note s1 = MaybeSpill_step [OF io inv n m]
  obtain st2 w2 fs2 where q: "EnsureOpenPack io fs1 w1 = (st2, w2, fs2)" by (metis prod_cases3)
  have s2: "st2 = Status_Ok \<and> others_kept w1 fs1 fs2 \<and> same_writer w1 w2 \<and> append_ready fs2 w2 xs n ?len"
    by (rule EnsureOpenPack_step [OF io _ _ _ q]) (use s1 lp in auto)
  obtain cc where cc: "fs2 (open_path w2) = Some (pack_header_bytes (pack_header w2) @ cc)"
    and lc: "length cc = open_payload_size w2"
    using s2 by (auto simp: append_ready_def)
  define r where "r = \<lparr>pack_path = open_path w2,
    ref_offset = word_of_nat (kEbPackHeaderSize + open_payload_size w2),
    ref_stored_len = rec_stored_len ?h, ref_uncompressed_len = u, ref_codec = c\<rparr>"
  have e: "res = Inr r" "w' = w2\<lparr>open_payload_size := open_payload_size w2 + ?len, open_records := open_records w2 + 1\<rparr>"
      "fs' = fs2(open_path w2 \<mapsto> pack_header_bytes (pack_header w2) @ cc @ v2_bytes ?h @ payload)"
    using f m q s1 s2 io cc by (auto simp: AppendRecord_def Let_def calm_pack_def r_def)
  have hdr: "pack_header w' = pack_header w2" by (simp add: e pack_header_def)
  have off: "unat (ref_offset r) = 4096 + length cc"
    using s2 unat_of_nat [of "4096 + open_payload_size w2", where 'a = 64]
    by (simp add: r_def kEbPackHeaderSize_def append_ready_def lc)
  have new: "in_open fs' w' (r, ?h, payload)"
    using s2 off lp v2_wf_append_header [OF lh]
    unfolding in_open_def hdr prod.case
    by (intro conjI exI [of _ cc] exI [of _ "[]"])
      (auto simp: e append_ready_def r_def append_header_def unat_of_nat kEbPackHeaderSize_def)
  have old: "in_closed fs' w' x \<or> in_open fs' w' x" if "x \<in> xs" for x
  proof (cases "in_open fs2 w2 x")
    case True
    obtain r' h' p' where x: "x = (r', h', p')" by (cases x)
    obtain a b where "cc = a @ v2_bytes h' @ p' @ b" and "unat (ref_offset r') = 4096 + length a"
      using True cc by (auto simp: in_open_def x)
    then have "in_open fs' w' x" using True unfolding in_open_def hdr x prod.case
      by (intro conjI exI [of _ a] exI [of _ "b @ v2_bytes ?h @ payload"]) (auto simp: e)
    then show ?thesis ..
  next
    case False
    then have "in_closed fs2 w2 x" using s2 that by (auto simp: append_ready_def)
    then show ?thesis using s2
      by (auto simp: in_closed_def e append_ready_def pack_file_def readable_def ReadEbPackRecordAt_def
          pack_file_inj [unfolded pack_file_def])
  qed
  have "pack_inv fs' w' (insert (r, ?h, payload) xs) (n + 1)"
    unfolding pack_inv_def
  proof (intro conjI impI ballI)
    fix x assume "x \<in> insert (r, ?h, payload) xs"
    then show "in_closed fs' w' x \<or> in_open fs' w' x" using new old by blast
  qed (use s2 lc v2_wf_append_header [OF lh] in
      \<open>auto simp: append_ready_def e pack_header_def pack_file_def v2_layout.enc_length\<close>)
  moreover have "others_kept w fs fs'"
  proof -
    have "others_kept w2 fs2 fs'" using s2 by (auto simp: others_kept_def e append_ready_def)
    then show ?thesis using s1 s2 by (meson others_kept_trans same_writer_trans)
  qed
  moreover have "same_writer w w'"
  proof -
    have "same_writer w2 w'" by (simp add: e same_writer_def fun_eq_iff pack_file_def)
    then show ?thesis using s1 s2 by (meson same_writer_trans)
  qed
  ultimately show ?thesis using e by blast
qed

section \<open>A whole run of the writer\<close>

type_synonym append_request = "bytes \<times> bytes \<times> u32 \<times> byte"

fun append_all ::
  "pack_io \<Rightarrow> append_request list \<Rightarrow> files \<Rightarrow> EbPackWriter \<Rightarrow> (Status + EbPackRecordRef) list \<times> EbPackWriter \<times> files" where
  "append_all io [] fs w = ([], w, fs)"
| "append_all io ((hash, payload, u, c) # qs) fs w =
     (case AppendRecord io hash payload u c fs w of
        (r, w1, fs1) \<Rightarrow> (case append_all io qs fs1 w1 of (rs, w2, fs2) \<Rightarrow> (r # rs, w2, fs2)))"

definition request_wf :: "append_request \<Rightarrow> bool" where
  "request_wf q = (case q of (hash, payload, u, c) \<Rightarrow> length hash = 32 \<and> length payload < 2 ^ 32)"

text \<open>The answer to a request is a reference at which the request's record can be read.\<close>

definition answered :: "files \<Rightarrow> append_request \<Rightarrow> Status + EbPackRecordRef \<Rightarrow> bool" where
  "answered fs q res = (case q of (hash, payload, u, c) \<Rightarrow> (\<exists>r. res = Inr r \<and>
     ReadEbPackRecordAt fs (pack_path r) (unat (ref_offset r)) =
       Inr (append_header hash (length payload) u c, payload)))"

definition issue_of :: "append_request \<Rightarrow> EbPackRecordRef \<Rightarrow> issued" where
  "issue_of q r = (case q of (hash, payload, u, c) \<Rightarrow> (r, append_header hash (length payload) u c, payload))"

lemma append_all_inv:
  assumes "calm_pack io" and "pack_inv fs w xs n" and "n + length qs \<le> 2 ^ 32"
    and "\<And>q. q \<in> set qs \<Longrightarrow> request_wf q" and "append_all io qs fs w = (rs, w', fs')"
  shows "\<exists>ys. pack_inv fs' w' ys (n + length qs) \<and> xs \<subseteq> ys \<and> others_kept w fs fs' \<and> same_writer w w' \<and>
    list_all2 (\<lambda>q res. \<exists>r. res = Inr r \<and> issue_of q r \<in> ys) qs rs"
  using assms(2-)
proof (induction qs arbitrary: fs w xs n rs)
  case Nil
  then show ?case by (auto simp: others_kept_def same_writer_def)
next
  case (Cons q qs)
  obtain hash payload u c where q: "q = (hash, payload, u, c)" by (cases q)
  obtain res w1 fs1 where a: "AppendRecord io hash payload u c fs w = (res, w1, fs1)" by (metis prod_cases3)
  obtain rs2 where t: "append_all io qs fs1 w1 = (rs2, w', fs')" and rs: "rs = res # rs2"
    using Cons.prems(4) a by (auto simp: q split: prod.splits)
  have "request_wf q" using Cons.prems(3) by simp
  then obtain r where res: "res = Inr r" and inv1: "pack_inv fs1 w1 (insert (issue_of q r) xs) (n + 1)"
    and k: "others_kept w fs fs1" "same_writer w w1"
    using AppendRecord_step [OF assms(1) Cons.prems(1) _ _ _ a] Cons.prems(2)
    by (auto simp: q request_wf_def issue_of_def)
  obtain ys where "pack_inv fs' w' ys (n + 1 + length qs)" "insert (issue_of q r) xs \<subseteq> ys"
      "others_kept w1 fs1 fs'" "same_writer w1 w'"
      "list_all2 (\<lambda>q res. \<exists>r. res = Inr r \<and> issue_of q r \<in> ys) qs rs2"
    using Cons.IH [OF inv1 _ _ t] Cons.prems(2,3) by auto
  then show ?case using k res rs
    by (intro exI [of _ ys]) (auto intro: others_kept_trans same_writer_trans)
qed

lemma new_writer_inv: "pack_inv fs (SetSpillThresholds b n (new_writer dir txn shard)) {} 0"
  by (simp add: pack_inv_def SetSpillThresholds_def new_writer_def)

text \<open>
  C12. Whatever the spill thresholds and whatever the shard, once a writer has appended fewer than
  2^32 records, with no failing creation or write (\<open>calm_pack\<close>; syncing may fail), and its open pack is
  flushed, every reference it handed out reads back exactly the header and the payload that were appended,
  across all the packs it opened and closed on the way; and it has touched no file but the packs of its own
  transaction and shard.
\<close>

theorem pack_records_readable:
  assumes "calm_pack io" and "length qs < 2 ^ 32" and "list_all request_wf qs"
    and "append_all io qs fs (SetSpillThresholds b n (new_writer dir txn shard)) = (rs, w, fs1)"
    and "FlushOpenPack io fsync fs1 w = (st, w2, fs2)"
  shows "list_all2 (answered fs2) qs rs \<and>
    (\<forall>p. (\<forall>s. p \<noteq> path_join dir (MakePackName txn s shard)) \<longrightarrow> fs2 p = fs p)"
proof -
  obtain ys where inv: "pack_inv fs1 w ys (length qs)"
    and k: "others_kept (SetSpillThresholds b n (new_writer dir txn shard)) fs fs1"
      "same_writer (SetSpillThresholds b n (new_writer dir txn shard)) w"
    and l: "list_all2 (\<lambda>q res. \<exists>r. res = Inr r \<and> issue_of q r \<in> ys) qs rs"
    using append_all_inv [OF assms(1) new_writer_inv _ _ assms(4)] assms(2,3) by (auto simp: list_all_iff)
  note f = FinalizeOpenPack_step [OF assms(1) inv assms(2) assms(5) [unfolded FlushOpenPack_def]]
  have "list_all2 (answered fs2) qs rs"
    by (rule list_all2_mono [OF l])
      (use f in \<open>auto simp: answered_def issue_of_def readable_def split: prod.splits\<close>)
  moreover have "others_kept (SetSpillThresholds b n (new_writer dir txn shard)) fs fs2"
    using others_kept_trans k f by blast
  ultimately show ?thesis
    by (auto simp: others_kept_def pack_file_def SetSpillThresholds_def new_writer_def image_iff)
qed

definition calm_io :: pack_io where
  "calm_io = \<lparr>can_create = True, torn_write = None, fsync_path = (\<lambda>p. Status_Ok)\<rparr>"

definition sample_requests :: "append_request list" where
  "sample_requests = [(replicate 32 7, [1, 2, 3], 3, 0), (replicate 32 9, [4, 5], 8, 1)]"

lemma pack_records_readable_witness:
  "case append_all calm_io sample_requests Map.empty
       (SetSpillThresholds 16 1 (new_writer ''packs'' 5 no_shard)) of (rs, w, fs1) \<Rightarrow>
     (case FlushOpenPack calm_io True fs1 w of (st, w2, fs2) \<Rightarrow>
        list_all2 (answered fs2) sample_requests rs \<and> fs2 ''other'' = None)"
proof -
  obtain rs w fs1 where a: "append_all calm_io sample_requests Map.empty
       (SetSpillThresholds 16 1 (new_writer ''packs'' 5 no_shard)) = (rs, w, fs1)" by (metis prod_cases3)
  obtain st w2 fs2 where f: "FlushOpenPack calm_io True fs1 w = (st, w2, fs2)" by (metis prod_cases3)
  have "calm_pack calm_io" "length sample_requests < 2 ^ 32" "list_all request_wf sample_requests"
    by (simp_all add: calm_pack_def calm_io_def sample_requests_def request_wf_def)
  from pack_records_readable [OF this a f]
  have "list_all2 (answered fs2) sample_requests rs \<and> fs2 ''other'' = None"
    by (auto simp: path_join_def)
  then show ?thesis by (simp add: a f)
qed

text \<open>
  A pack is created with truncation under a name made of the transaction, the sequence number and
  the shard only. A second writer for the same transaction (\<open>BackupRun.crash_reuses_txn_id\<close> shows that
  the engine hands the number of an interrupted run out again) destroys the pack of the first with
  its first append: the file holds the header and the new record and nothing else, whatever was in it, and
  until the new pack is closed no record can be read from it at any offset.
\<close>

theorem pack_of_reused_txn_is_truncated:
  assumes "calm_pack io" and "AppendRecord io hash payload u c fs (new_writer dir txn shard) = (res, w, fs')"
  shows "fs' (path_join dir (MakePackName txn 0 shard)) =
      Some (pack_header_bytes (pack_header w) @ v2_bytes (append_header hash (length payload) u c) @ payload) \<and>
    (\<forall>off. \<exists>e. ReadEbPackRecordAt fs' (path_join dir (MakePackName txn 0 shard)) off = Inl e)"
proof -
  let ?w0 = "new_writer dir txn shard" and ?path = "path_join dir (MakePackName txn 0 shard)"
  let ?content = "pack_header_bytes (pack_header w) @ v2_bytes (append_header hash (length payload) u c) @ payload"
  have h: "pack_header (?w0\<lparr>open_path := p, pack_open := True, open_payload_size := 0, open_records := 0\<rparr>) = pack_header ?w0" for p
    by (simp add: pack_header_def)
  have w: "pack_header w = pack_header ?w0" and f: "fs' ?path = Some ?content"
    using assms
    by (auto simp: AppendRecord_def MaybeSpillBeforeAppend_def EnsureOpenPack_def Let_def calm_pack_def
        new_writer_def pack_header_def)
  have l: "length (pack_header_bytes (pack_header w)) = 4096"
    by (simp add: pack_header_layout.enc_length [OF pack_header_wf_pack_header])
  have "pack_header_of (take 4096 ?content) = pack_header w"
    using l by (simp add: pack_header_layout.dec_enc [OF pack_header_wf_pack_header])
  moreover have "pack_size (pack_header w) = 0" by (simp add: pack_header_def)
  ultimately have "\<exists>e. ReadEbPackRecordAt fs' ?path off = Inl e" for off
    using f by (simp add: ReadEbPackRecordAt_def Let_def)
  then show ?thesis using f by blast
qed

lemma pack_of_reused_txn_is_truncated_witness:
  "case AppendRecord calm_io (replicate 32 9) [4, 5] 2 0
       (Map.empty(path_join ''packs'' (MakePackName 5 0 no_shard) \<mapsto> replicate 5000 7))
       (new_writer ''packs'' 5 no_shard) of (res, w, fs') \<Rightarrow>
     \<exists>e. ReadEbPackRecordAt fs' (path_join ''packs'' (MakePackName 5 0 no_shard)) 4096 = Inl e"
proof -
  obtain res w fs' where a: "AppendRecord calm_io (replicate 32 9) [4, 5] 2 0
       (Map.empty(path_join ''packs'' (MakePackName 5 0 no_shard) \<mapsto> replicate 5000 7))
       (new_writer ''packs'' 5 no_shard) = (res, w, fs')" by (metis prod_cases3)
  have "calm_pack calm_io" by (simp add: calm_pack_def calm_io_def)
  from pack_of_reused_txn_is_truncated [OF this a] show ?thesis by (simp add: a)
qed

end
