(* ===== verification/Lz4Format.thy ===== *)
theory Lz4Format
  imports EbPrelude "HOL-Library.Monad_Syntax"
begin

text \<open>
  The LZ4 block format as the vendored library (\<open>lz4-dev/lib/lz4.c\<close>) reads and writes it, and the
  memory operations its two directions share. A buffer is a list of bytes; a pointer into it is an
  index. Every access is checked: an access outside the buffer, or a \<open>memcpy\<close> between two different
  overlapping ranges, has the value \<open>None\<close>, so that a theorem which says that a function returns
  \<open>Some\<close> says that it has no undefined behaviour of these kinds.
\<close>

section \<open>Constants\<close>

definition MINMATCH :: nat where [simp]: "MINMATCH = 4"
definition WILDCOPYLENGTH :: nat where [simp]: "WILDCOPYLENGTH = 8"
definition LASTLITERALS :: nat where [simp]: "LASTLITERALS = 5"
definition MFLIMIT :: nat where [simp]: "MFLIMIT = 12"
definition MATCH_SAFEGUARD_DISTANCE :: nat where [simp]: "MATCH_SAFEGUARD_DISTANCE = 2 * 8 - 4"
definition FASTLOOP_SAFE_DISTANCE :: nat where [simp]: "FASTLOOP_SAFE_DISTANCE = 64"
definition LZ4_minLength :: nat where [simp]: "LZ4_minLength = 12 + 1"
definition LZ4_DISTANCE_MAX :: nat where [simp]: "LZ4_DISTANCE_MAX = 65535"
definition ML_MASK :: nat where [simp]: "ML_MASK = 15"
definition RUN_MASK :: nat where [simp]: "RUN_MASK = 15"

section \<open>Checked memory\<close>

definition mem_read :: "bytes \<Rightarrow> nat \<Rightarrow> nat \<Rightarrow> bytes option" where
  "mem_read m i n = (if i + n \<le> length m then Some (slice_at i n m) else None)"

definition mem_write :: "bytes \<Rightarrow> nat \<Rightarrow> bytes \<Rightarrow> bytes option" where
  "mem_write m i bs = (if i + length bs \<le> length m then Some (take i m @ bs @ drop (i + length bs) m) else None)"

text \<open>
  A copy from one buffer to another, and a \<open>memcpy\<close> within one buffer, which must not be called with ranges
  that overlap. \<open>mem_copy_or_same\<close> is the one that also stands for a \<open>memcpy\<close> of a range onto itself: undefined
  by the C standard, and keeping the bytes on every implementation the library is built for.
\<close>

definition copy_in :: "bytes \<Rightarrow> bytes \<Rightarrow> nat \<Rightarrow> nat \<Rightarrow> nat \<Rightarrow> bytes option" where
  "copy_in src m d s n = do { bs \<leftarrow> mem_read src s n; mem_write m d bs }"

definition mem_copy :: "bytes \<Rightarrow> nat \<Rightarrow> nat \<Rightarrow> nat \<Rightarrow> bytes option" where
  "mem_copy m d s n =
     (if d < s + n \<and> s < d + n then None
      else do { bs \<leftarrow> mem_read m s n; mem_write m d bs })"

definition mem_copy_or_same :: "bytes \<Rightarrow> nat \<Rightarrow> nat \<Rightarrow> nat \<Rightarrow> bytes option" where
  "mem_copy_or_same m d s n = (if d = s then copy_in m m d s n else mem_copy m d s n)"

definition mem_byte :: "bytes \<Rightarrow> nat \<Rightarrow> nat option" where
  "mem_byte m i = (if i < length m then Some (unat (m ! i)) else None)"

definition LZ4_readLE16 :: "bytes \<Rightarrow> nat \<Rightarrow> nat option" where
  "LZ4_readLE16 m i = do { bs \<leftarrow> mem_read m i 2; Some (unat (get_u16 bs)) }"

text \<open>
  The copies that run ahead of their end: chunks of 8 or of twice 16 bytes, at least one of them. The
  first argument is the copy of one chunk (\<open>copy_in src\<close> or \<open>mem_copy\<close>).
\<close>

type_synonym chunk_copy = "bytes \<Rightarrow> nat \<Rightarrow> nat \<Rightarrow> nat \<Rightarrow> bytes option"

function LZ4_wildCopy8 :: "chunk_copy \<Rightarrow> bytes \<Rightarrow> nat \<Rightarrow> nat \<Rightarrow> nat \<Rightarrow> bytes option" where
  "LZ4_wildCopy8 cp m d s e =
     do { m1 \<leftarrow> cp m d s 8; if d + 8 < e then LZ4_wildCopy8 cp m1 (d + 8) (s + 8) e else Some m1 }"
  by auto
termination
  by (relation "measure (\<lambda>(cp, m, d, s, e). e - d)") auto

function LZ4_wildCopy32 :: "chunk_copy \<Rightarrow> bytes \<Rightarrow> nat \<Rightarrow> nat \<Rightarrow> nat \<Rightarrow> bytes option" where
  "LZ4_wildCopy32 cp m d s e =
     do { m1 \<leftarrow> cp m d s 16; m2 \<leftarrow> cp m1 (d + 16) (s + 16) 16;
          if d + 32 < e then LZ4_wildCopy32 cp m2 (d + 32) (s + 32) e else Some m2 }"
  by auto
termination
  by (relation "measure (\<lambda>(cp, m, d, s, e). e - d)") auto

declare LZ4_wildCopy8.simps [simp del] LZ4_wildCopy32.simps [simp del]

section \<open>Lemmas on memory\<close>

lemma nth_slice_at: "i < n \<Longrightarrow> off + i < length m \<Longrightarrow> slice_at off n m ! i = m ! (off + i)"
  by (simp add: slice_at_def)

text \<open>
  \<open>fills m m' d e f\<close>: below \<open>d\<close> nothing has changed, and between \<open>d\<close> and \<open>e\<close> stands what \<open>f\<close> says. A
  copy may also have changed bytes from \<open>e\<close> on.
\<close>

definition fills :: "bytes \<Rightarrow> bytes \<Rightarrow> nat \<Rightarrow> nat \<Rightarrow> (nat \<Rightarrow> byte) \<Rightarrow> bool" where
  "fills m m' d e f \<longleftrightarrow> length m' = length m \<and> (\<forall>j<d. m' ! j = m ! j) \<and> (\<forall>j. d \<le> j \<longrightarrow> j < e \<longrightarrow> m' ! j = f j)"

lemma fills_length: "fills m m' d e f \<Longrightarrow> length m' = length m"
  by (simp add: fills_def)

lemma fills_step:
  assumes "fills m m1 d k f" and "fills m1 m2 k e f" and "d \<le> k"
  shows "fills m m2 d e f"
  unfolding fills_def
proof (intro conjI allI impI)
  fix j assume "d \<le> j" "j < e"
  then show "m2 ! j = f j" using assms by (cases "j < k") (auto simp: fills_def)
qed (use assms in \<open>auto simp: fills_def\<close>)

lemma fills_weaken: "fills m m' d e f \<Longrightarrow> e' \<le> e \<Longrightarrow> (\<And>j. d \<le> j \<Longrightarrow> j < e' \<Longrightarrow> f j = g j) \<Longrightarrow> fills m m' d e' g"
  by (auto simp: fills_def)

lemma mem_write_fills:
  assumes "i + length bs \<le> length m"
  shows "\<exists>m'. mem_write m i bs = Some m' \<and> fills m m' i (i + length bs) (\<lambda>j. bs ! (j - i))"
proof -
  have "fills m (take i m @ bs @ drop (i + length bs) m) i (i + length bs) (\<lambda>j. bs ! (j - i))"
    using assms by (auto simp: fills_def nth_append)
  then show ?thesis using assms by (simp add: mem_write_def)
qed

lemma copy_in_fills:
  assumes "d + n \<le> length m" and "s + n \<le> length src"
  shows "\<exists>m'. copy_in src m d s n = Some m' \<and> fills m m' d (d + n) (\<lambda>j. src ! (s + (j - d)))"
proof -
  obtain m' where m': "mem_write m d (slice_at s n src) = Some m'"
      "fills m m' d (d + n) (\<lambda>j. slice_at s n src ! (j - d))"
    using mem_write_fills [of d "slice_at s n src" m] assms by auto
  have "fills m m' d (d + n) (\<lambda>j. src ! (s + (j - d)))"
    by (rule fills_weaken [OF m'(2)]) (use assms(2) in \<open>auto simp: nth_slice_at\<close>)
  then show ?thesis using m'(1) assms by (simp add: copy_in_def mem_read_def)
qed

lemma mem_copy_fills:
  assumes "d + n \<le> length m" and "s + n \<le> length m" and "s + n \<le> d \<or> d + n \<le> s"
  shows "\<exists>m'. mem_copy m d s n = Some m' \<and> fills m m' d (d + n) (\<lambda>j. m ! (s + (j - d)))"
proof -
  have "mem_copy m d s n = copy_in m m d s n"
    using assms(3) by (auto simp: mem_copy_def copy_in_def)
  then show ?thesis using copy_in_fills [OF assms(1,2)] by simp
qed

text \<open>A wild copy from another buffer puts the right bytes before its end and keeps those before its start.\<close>

lemma wildCopy8_in:
  assumes "d < E" and "e \<le> E" and "E + 7 \<le> length m" and "s + (E - d) + 7 \<le> length src"
  shows "\<exists>m'. LZ4_wildCopy8 (copy_in src) m d s e = Some m' \<and> fills m m' d e (\<lambda>j. src ! (s + (j - d)))"
  using assms
proof (induction "copy_in src" m d s e arbitrary: E rule: LZ4_wildCopy8.induct)
  case (1 m d s e)
  have "d + 8 \<le> length m" "s + 8 \<le> length src" using 1(2-5) by auto
  then obtain m1 where m1: "copy_in src m d s 8 = Some m1" "fills m m1 d (d + 8) (\<lambda>j. src ! (s + (j - d)))"
    using copy_in_fills by blast
  show ?case
  proof (cases "d + 8 < e")
    case True
    then obtain m' where m': "LZ4_wildCopy8 (copy_in src) m1 (d + 8) (s + 8) e = Some m'"
        "fills m1 m' (d + 8) e (\<lambda>j. src ! (s + 8 + (j - (d + 8))))"
      using 1(1) [OF m1(1) True, of E] 1(2-5) fills_length [OF m1(2)] by auto
    have "fills m1 m' (d + 8) e (\<lambda>j. src ! (s + (j - d)))"
      by (rule fills_weaken [OF m'(2)]) auto
    then have "fills m m' d e (\<lambda>j. src ! (s + (j - d)))"
      by (rule fills_step [OF m1(2)]) simp
    then show ?thesis using True m1 m' by (subst LZ4_wildCopy8.simps) simp
  next
    case False
    then show ?thesis using m1 fills_weaken [OF m1(2), of e] by (subst LZ4_wildCopy8.simps) auto
  qed
qed

lemma wildCopy32_in:
  assumes "d < E" and "e \<le> E" and "E + 31 \<le> length m" and "s + (E - d) + 31 \<le> length src"
  shows "\<exists>m'. LZ4_wildCopy32 (copy_in src) m d s e = Some m' \<and> fills m m' d e (\<lambda>j. src ! (s + (j - d)))"
  using assms
proof (induction "copy_in src" m d s e arbitrary: E rule: LZ4_wildCopy32.induct)
  case (1 m d s e)
  let ?f = "\<lambda>j. src ! (s + (j - d))"
  have "d + 16 \<le> length m" "s + 16 \<le> length src" using 1(2-5) by auto
  then obtain m1 where m1: "copy_in src m d s 16 = Some m1" "fills m m1 d (d + 16) ?f"
    using copy_in_fills by blast
  have "d + 16 + 16 \<le> length m1" "s + 16 + 16 \<le> length src" using 1(2-5) fills_length [OF m1(2)] by auto
  then obtain m2 where m2: "copy_in src m1 (d + 16) (s + 16) 16 = Some m2"
      "fills m1 m2 (d + 16) (d + 16 + 16) (\<lambda>j. src ! (s + 16 + (j - (d + 16))))"
    using copy_in_fills by blast
  have "fills m1 m2 (d + 16) (d + 32) ?f" by (rule fills_weaken [OF m2(2)]) auto
  then have m12: "fills m m2 d (d + 32) ?f" by (rule fills_step [OF m1(2)]) simp
  show ?case
  proof (cases "d + 32 < e")
    case True
    then obtain m' where m': "LZ4_wildCopy32 (copy_in src) m2 (d + 32) (s + 32) e = Some m'"
        "fills m2 m' (d + 32) e (\<lambda>j. src ! (s + 32 + (j - (d + 32))))"
      using 1(1) [OF m1(1) m2(1) True, of E] 1(2-5) fills_length [OF m12] by auto
    have "fills m2 m' (d + 32) e ?f" by (rule fills_weaken [OF m'(2)]) auto
    then have "fills m m' d e ?f" by (rule fills_step [OF m12]) simp
    then show ?thesis using True m1 m2 m' by (subst LZ4_wildCopy32.simps) simp
  next
    case False
    then show ?thesis using m1 m2 fills_weaken [OF m12, of e] by (subst LZ4_wildCopy32.simps) auto
  qed
qed

section \<open>Copying a match\<close>

text \<open>
  The meaning of a match: byte after byte from \<open>off\<close> positions back, so that the copy may overlap
  itself. The format forbids an offset of 0; the library writes zero bytes for it.
\<close>

fun lz_copy :: "bytes \<Rightarrow> nat \<Rightarrow> nat \<Rightarrow> bytes" where
  "lz_copy out off 0 = out"
| "lz_copy out off (Suc n) = lz_copy (out @ [if off = 0 then 0 else out ! (length out - off)]) off n"

definition repeats :: "bytes \<Rightarrow> nat \<Rightarrow> nat \<Rightarrow> nat \<Rightarrow> bool" where
  "repeats m op off e \<longleftrightarrow> (\<forall>j. op \<le> j \<longrightarrow> j < e \<longrightarrow> m ! j = (if off = 0 then 0 else m ! (j - off)))"

lemma length_lz_copy [simp]: "length (lz_copy out off n) = length out + n"
  by (induction out off n rule: lz_copy.induct) auto

lemma lz_copy_repeats:
  "repeats m op off (op + n) \<Longrightarrow> op + n \<le> length m \<Longrightarrow> off \<le> op \<Longrightarrow>
     lz_copy (take op m) off n = take (op + n) m"
proof (induction n arbitrary: op)
  case (Suc n)
  have b: "m ! op = (if off = 0 then 0 else m ! (op - off))" using Suc.prems(1) by (simp add: repeats_def)
  have "take op m @ [if off = 0 then 0 else take op m ! (length (take op m) - off)] = take (Suc op) m"
    using Suc.prems(2,3) b by (auto simp: take_Suc_conv_app_nth)
  moreover have "lz_copy (take (Suc op) m) off n = take (Suc op + n) m"
    by (rule Suc.IH) (use Suc.prems in \<open>auto simp: repeats_def\<close>)
  ultimately show ?case by simp
qed simp

text \<open>
  A chunk copied from a distance that is a multiple of the offset goes on with the repetition, if the
  source does not begin before the match.
\<close>

lemma repeats_extend:
  assumes "repeats m op off d" and "fills m m' d e (\<lambda>j. m' ! (j - D))" and "op \<le> d"
    and "D = k * off" and "off = 0 \<longrightarrow> False" and "0 < k" and "off \<le> op" and "D \<le> d" and "op - off \<le> d - D"
  shows "repeats m' op off e"
proof -
  have key: "m' ! j = m' ! (j - off)" if "op \<le> j" "j < e" for j
    using that
  proof (induction j rule: less_induct)
    case (less j)
    show ?case
    proof (cases "j < d")
      case True
      then show ?thesis using assms(1,2,5) less.prems by (auto simp: repeats_def fills_def)
    next
      case False
      have step: "i * off \<le> D - off \<Longrightarrow> m' ! (j - D) = m' ! (j - D + i * off)" for i
      proof (induction i)
        case (Suc i)
        have o: "0 < off" "off + i * off \<le> D - off" using assms(5) Suc.prems by auto
        have le: "j - D + Suc i * off < j" "op \<le> j - D + Suc i * off"
          using o False assms(3,7,8,9) by auto
        have "m' ! (j - D + Suc i * off) = m' ! (j - D + Suc i * off - off)"
          by (rule less.IH) (use le less.prems in auto)
        then show ?case using Suc by simp
      qed simp
      have "(k - 1) * off = D - off" using assms(4) by (simp add: diff_mult_distrib)
      then have "m' ! (j - D) = m' ! (j - D + (D - off))" using step [of "k - 1"] by simp
      moreover have "j - D + (D - off) = j - off"
        using False assms(4,6,8) by (cases k) auto
      moreover have "m' ! j = m' ! (j - D)" using assms(2) False less.prems by (auto simp: fills_def)
      ultimately show ?thesis by simp
    qed
  qed
  then show ?thesis using assms(5) by (auto simp: repeats_def)
qed

lemma repeats_extend_zero:
  assumes "repeats m op 0 d" and "fills m m' d e (\<lambda>j. m' ! (j - D))" and "0 < D" and "op + D \<le> d"
  shows "repeats m' op 0 e"
proof -
  have "m' ! j = 0" if "op \<le> j" "j < e" for j
    using that
  proof (induction j rule: less_induct)
    case (less j)
    show ?case
    proof (cases "j < d")
      case True
      then show ?thesis using assms(1,2) less.prems by (auto simp: repeats_def fills_def)
    next
      case False
      have "m' ! (j - D) = 0" by (rule less.IH) (use False less.prems assms(3,4) in auto)
      then show ?thesis using assms(2) False less.prems by (auto simp: fills_def)
    qed
  qed
  then show ?thesis by (auto simp: repeats_def)
qed

text \<open>A wild copy within the buffer, from at least one chunk back.\<close>

lemma wildCopy8_within:
  assumes "d < E" and "e \<le> E" and "E + 7 \<le> length m" and "s + 8 \<le> d"
  shows "\<exists>m'. LZ4_wildCopy8 mem_copy m d s e = Some m' \<and> fills m m' d e (\<lambda>j. m' ! (j - (d - s)))"
  using assms
proof (induction "mem_copy" m d s e arbitrary: E rule: LZ4_wildCopy8.induct)
  case (1 m d s e)
  have b: "d + 8 \<le> length m" "s + 8 \<le> length m" using 1(2-5) by auto
  obtain m1 where m1: "mem_copy m d s 8 = Some m1" "fills m m1 d (d + 8) (\<lambda>j. m ! (s + (j - d)))"
    using mem_copy_fills [OF b] 1(5) by auto
  have f1: "fills m m1 d (d + 8) (\<lambda>j. m1 ! (j - (d - s)))"
  proof (rule fills_weaken [OF m1(2)])
    fix j assume "d \<le> j" "j < d + 8"
    then have "s + (j - d) = j - (d - s)" "j - (d - s) < d" using 1(5) by auto
    then show "m ! (s + (j - d)) = m1 ! (j - (d - s))" using m1(2) by (simp add: fills_def)
  qed simp
  show ?case
  proof (cases "d + 8 < e")
    case True
    then obtain m' where m': "LZ4_wildCopy8 mem_copy m1 (d + 8) (s + 8) e = Some m'"
        "fills m1 m' (d + 8) e (\<lambda>j. m' ! (j - (d + 8 - (s + 8))))"
      using 1(1) [OF m1(1) True, of E] 1(2-5) fills_length [OF m1(2)] by auto
    have "m1 ! (j - (d - s)) = m' ! (j - (d - s))" if "d \<le> j" "j < d + 8" for j
      using m'(2) that 1(5) by (auto simp: fills_def)
    then have "fills m m1 d (d + 8) (\<lambda>j. m' ! (j - (d - s)))" by (intro fills_weaken [OF f1]) auto
    moreover have "fills m1 m' (d + 8) e (\<lambda>j. m' ! (j - (d - s)))" by (rule fills_weaken [OF m'(2)]) auto
    ultimately have "fills m m' d e (\<lambda>j. m' ! (j - (d - s)))" by (rule fills_step) simp
    then show ?thesis using True m1 m' by (subst LZ4_wildCopy8.simps) simp
  next
    case False
    then show ?thesis using m1 fills_weaken [OF f1, of e] by (subst LZ4_wildCopy8.simps) auto
  qed
qed

lemma wildCopy32_within:
  assumes "d < E" and "e \<le> E" and "E + 31 \<le> length m" and "s + 16 \<le> d"
  shows "\<exists>m'. LZ4_wildCopy32 mem_copy m d s e = Some m' \<and> fills m m' d e (\<lambda>j. m' ! (j - (d - s)))"
  using assms
proof (induction "mem_copy" m d s e arbitrary: E rule: LZ4_wildCopy32.induct)
  case (1 m d s e)
  have b: "d + 16 \<le> length m" "s + 16 \<le> length m" using 1(2-5) by auto
  obtain m1 where m1: "mem_copy m d s 16 = Some m1" "fills m m1 d (d + 16) (\<lambda>j. m ! (s + (j - d)))"
    using mem_copy_fills [OF b] 1(5) by auto
  have b1: "d + 16 + 16 \<le> length m1" "s + 16 + 16 \<le> length m1" "s + 16 + 16 \<le> d + 16 \<or> d + 16 + 16 \<le> s + 16"
    using 1(2-5) fills_length [OF m1(2)] by auto
  obtain m2 where m2: "mem_copy m1 (d + 16) (s + 16) 16 = Some m2"
      "fills m1 m2 (d + 16) (d + 16 + 16) (\<lambda>j. m1 ! (s + 16 + (j - (d + 16))))"
    using mem_copy_fills [OF b1] by auto
  have f1: "fills m m1 d (d + 16) (\<lambda>j. m2 ! (j - (d - s)))"
  proof (rule fills_weaken [OF m1(2)])
    fix j assume "d \<le> j" "j < d + 16"
    then have "s + (j - d) = j - (d - s)" "j - (d - s) < d" using 1(5) by auto
    then show "m ! (s + (j - d)) = m2 ! (j - (d - s))" using m1(2) m2(2) by (simp add: fills_def)
  qed simp
  have f2: "fills m1 m2 (d + 16) (d + 32) (\<lambda>j. m2 ! (j - (d - s)))"
  proof (rule fills_weaken [OF m2(2)])
    fix j assume "d + 16 \<le> j" "j < d + 32"
    then have "s + 16 + (j - (d + 16)) = j - (d - s)" "j - (d - s) < d + 16" using 1(5) by auto
    then show "m1 ! (s + 16 + (j - (d + 16))) = m2 ! (j - (d - s))" using m2(2) by (simp add: fills_def)
  qed simp
  have f12: "fills m m2 d (d + 32) (\<lambda>j. m2 ! (j - (d - s)))" by (rule fills_step [OF f1 f2]) simp
  show ?case
  proof (cases "d + 32 < e")
    case True
    then obtain m' where m': "LZ4_wildCopy32 mem_copy m2 (d + 32) (s + 32) e = Some m'"
        "fills m2 m' (d + 32) e (\<lambda>j. m' ! (j - (d + 32 - (s + 32))))"
      using 1(1) [OF m1(1) m2(1) True, of E] 1(2-5) fills_length [OF f12] by auto
    have "m2 ! (j - (d - s)) = m' ! (j - (d - s))" if "d \<le> j" "j < d + 32" for j
      using m'(2) that 1(5) by (auto simp: fills_def)
    then have "fills m m2 d (d + 32) (\<lambda>j. m' ! (j - (d - s)))" by (intro fills_weaken [OF f12]) auto
    moreover have "fills m2 m' (d + 32) e (\<lambda>j. m' ! (j - (d - s)))" by (rule fills_weaken [OF m'(2)]) auto
    ultimately have "fills m m' d e (\<lambda>j. m' ! (j - (d - s)))" by (rule fills_step) simp
    then show ?thesis using True m1 m2 m' by (subst LZ4_wildCopy32.simps) simp
  next
    case False
    then show ?thesis using m1 m2 fills_weaken [OF f12, of e] by (subst LZ4_wildCopy32.simps) auto
  qed
qed

section \<open>Sequences and blocks\<close>

text \<open>
  A block is a list of sequences (literals, offset, match length) and the literals that end it. A
  length of 15 or more continues after the token in bytes of 255 and one below it. The low half of
  the last token carries no meaning.
\<close>

fun put_ext :: "nat \<Rightarrow> bytes" where
  "put_ext n = (if n < 255 then [word_of_nat n] else 255 # put_ext (n - 255))"

declare put_ext.simps [simp del]

lemma put_ext_step: "put_ext (255 + n) = 255 # put_ext n"
  by (subst put_ext.simps) simp

lemma put_ext_small: "n < 255 \<Longrightarrow> put_ext n = [word_of_nat n]"
  by (simp add: put_ext.simps)

definition len_ext :: "nat \<Rightarrow> bytes" where
  "len_ext n = (if n < 15 then [] else put_ext (n - 15))"

type_synonym lz_seq = "bytes \<times> nat \<times> nat"

definition enc_seq :: "lz_seq \<Rightarrow> bytes" where
  "enc_seq s = (case s of (l, off, m) \<Rightarrow>
     word_of_nat (16 * min 15 (length l) + min 15 (m - 4)) # len_ext (length l) @ l @
     put_u16 (word_of_nat off) @ len_ext (m - 4))"

definition enc_last :: "nat \<Rightarrow> bytes \<Rightarrow> bytes" where
  "enc_last low l = word_of_nat (16 * min 15 (length l) + low) # len_ext (length l) @ l"

definition apply_seq :: "bytes \<Rightarrow> lz_seq \<Rightarrow> bytes" where
  "apply_seq out s = (case s of (l, off, m) \<Rightarrow> lz_copy (out @ l) off m)"

definition lz_block :: "lz_seq list \<Rightarrow> nat \<Rightarrow> bytes \<Rightarrow> bytes" where
  "lz_block ss low l = concat (map enc_seq ss) @ enc_last low l"

definition lz_decoded :: "lz_seq list \<Rightarrow> bytes \<Rightarrow> bytes" where
  "lz_decoded ss l = foldl apply_seq [] ss @ l"

definition seqs_out :: "lz_seq list \<Rightarrow> nat" where
  "seqs_out ss = sum_list (map (\<lambda>(l, off, n). length l + n) ss)"

text \<open>
  The rules for a block that decodes to \<open>d\<close> bytes: no match starts in the last 12 bytes or ends in the last
  5. An offset is below 65536 and reaches no further back than the block. It may be 0: the format calls a block
  with such an offset invalid, the decoder accepts it and fills the match with zeros, as \<open>lz_copy\<close> does.
\<close>

fun rules_ok :: "nat \<Rightarrow> nat \<Rightarrow> lz_seq list \<Rightarrow> bool" where
  "rules_ok d p [] = True"
| "rules_ok d p ((l, off, n) # ss) =
     (4 \<le> n \<and> off < 65536 \<and> off \<le> p + length l \<and> p + length l + 12 \<le> d \<and> p + length l + n + 5 \<le> d \<and>
      rules_ok d (p + length l + n) ss)"

lemma length_apply_seqs: "length (foldl apply_seq out ss) = length out + seqs_out ss"
  by (induction ss arbitrary: out) (auto simp: seqs_out_def apply_seq_def)

lemma rules_ok_end: "rules_ok d p ss \<Longrightarrow> ss \<noteq> [] \<Longrightarrow> p + seqs_out ss + 5 \<le> d"
proof (induction d p ss rule: rules_ok.induct)
  case (2 d p l off n ss)
  then show ?case by (cases ss) (auto simp: seqs_out_def)
qed simp

lemma lz_block_Cons: "lz_block (s # ss) low l = enc_seq s @ lz_block ss low l"
  by (simp add: lz_block_def)

lemma lz_block_Nil: "lz_block [] low l = enc_last low l"
  by (simp add: lz_block_def)

lemma length_lz_block: "length l < length (lz_block ss low l)"
  by (simp add: lz_block_def enc_last_def)

end
