(* ===== verification/Lz4Compress.thy ===== *)
theory Lz4Compress
  imports Lz4Format
begin

unbundle bit_operations_syntax

text \<open>
  \<open>LZ4_compress_fast\<close> of \<open>lz4-dev/lib/lz4.c\<close> with a fresh context and no dictionary, on a 64-bit
  little-endian machine (table types \<open>byU16\<close> and \<open>byU32\<close>), on checked memory: the input is a list, the
  output a buffer whose length is its capacity. Whatever the acceleration, the routine stays inside its
  buffers, always ends, and writes a block that decodes to the input; with the capacity of
  \<open>LZ4_compressBound\<close> it always succeeds.
\<close>

section \<open>Reading words and hashing\<close>

definition LZ4_read32 :: "bytes \<Rightarrow> nat \<Rightarrow> u32 option" where
  "LZ4_read32 m i = map_option get_u32 (mem_read m i 4)"

definition LZ4_read16 :: "bytes \<Rightarrow> nat \<Rightarrow> u16 option" where
  "LZ4_read16 m i = map_option get_u16 (mem_read m i 2)"

definition LZ4_read_ARCH :: "bytes \<Rightarrow> nat \<Rightarrow> u64 option" where
  "LZ4_read_ARCH m i = map_option get_u64 (mem_read m i 8)"

datatype tableType_t = clearedTable | byPtr | byU32 | byU16

datatype limitedOutput_directive = notLimited | limitedOutput | fillOutput

definition LZ4_HASHLOG :: nat where [simp]: "LZ4_HASHLOG = 12"
definition LZ4_skipTrigger :: nat where [simp]: "LZ4_skipTrigger = 6"
definition LZ4_64Klimit :: nat where "LZ4_64Klimit = 65536 + (12 - 1)"
definition LZ4_MAX_INPUT_SIZE :: nat where "LZ4_MAX_INPUT_SIZE = 0x7E000000"

definition LZ4_compressBound :: "nat \<Rightarrow> nat" where
  "LZ4_compressBound isize = (if isize > LZ4_MAX_INPUT_SIZE then 0 else isize + isize div 255 + 16)"

definition LZ4_hash4 :: "u32 \<Rightarrow> tableType_t \<Rightarrow> nat" where
  "LZ4_hash4 sequence tableType =
     (if tableType = byU16 then unat (drop_bit (4 * 8 - (LZ4_HASHLOG + 1)) (sequence * 2654435761))
      else unat (drop_bit (4 * 8 - LZ4_HASHLOG) (sequence * 2654435761)))"

definition LZ4_hash5 :: "u64 \<Rightarrow> tableType_t \<Rightarrow> nat" where
  "LZ4_hash5 sequence tableType =
     (let hashLog = (if tableType = byU16 then LZ4_HASHLOG + 1 else LZ4_HASHLOG)
      in unat (drop_bit (64 - hashLog) (push_bit 24 sequence * 889523592379)))"

definition LZ4_hashPosition :: "bytes \<Rightarrow> nat \<Rightarrow> tableType_t \<Rightarrow> nat option" where
  "LZ4_hashPosition src p tableType =
     (if tableType \<noteq> byU16 then do { w \<leftarrow> LZ4_read_ARCH src p; Some (LZ4_hash5 w tableType) }
      else do { w \<leftarrow> LZ4_read32 src p; Some (LZ4_hash4 w tableType) })"

type_synonym htable = "nat \<Rightarrow> nat"

definition LZ4_putIndexOnHash :: "nat \<Rightarrow> nat \<Rightarrow> htable \<Rightarrow> tableType_t \<Rightarrow> htable" where
  "LZ4_putIndexOnHash idx h table tableType =
     table(h := (if tableType = byU16 then idx mod 65536 else idx mod 4294967296))"

definition LZ4_getIndexOnHash :: "nat \<Rightarrow> htable \<Rightarrow> nat" where
  "LZ4_getIndexOnHash h table = table h"

section \<open>Counting common bytes\<close>

definition ctz64 :: "u64 \<Rightarrow> nat" where
  "ctz64 w = length (takeWhile (\<lambda>i. \<not> bit w i) [0..<64])"

definition LZ4_NbCommonBytes :: "u64 \<Rightarrow> nat" where
  "LZ4_NbCommonBytes val = ctz64 val div 8"

text \<open>
  The rounds that compare eight bytes (the first of them is peeled in the source): where they stop,
  and the match pointer unless a difference has been found.
\<close>

function count_words :: "bytes \<Rightarrow> nat \<Rightarrow> nat \<Rightarrow> nat \<Rightarrow> (nat \<times> nat option) option" where
  "count_words src pIn pMatch pInLimit =
     (if pIn + 7 < pInLimit then do {
        a \<leftarrow> LZ4_read_ARCH src pMatch;
        b \<leftarrow> LZ4_read_ARCH src pIn;
        if a XOR b = 0 then count_words src (pIn + 8) (pMatch + 8) pInLimit
        else Some (pIn + LZ4_NbCommonBytes (a XOR b), None)
      }
      else Some (pIn, Some pMatch))"
  by auto
termination
  by (relation "measure (\<lambda>(src, pIn, pMatch, pInLimit). pInLimit - pIn)") auto

declare count_words.simps [simp del]

definition count_tail :: "bytes \<Rightarrow> nat \<Rightarrow> nat \<Rightarrow> nat \<Rightarrow> nat option" where
  "count_tail src pIn pMatch pInLimit =
     do {
       (pIn, pMatch) \<leftarrow> (if pIn + 3 < pInLimit then do {
           a \<leftarrow> LZ4_read32 src pMatch; b \<leftarrow> LZ4_read32 src pIn;
           Some (if a = b then (pIn + 4, pMatch + 4) else (pIn, pMatch)) } else Some (pIn, pMatch));
       (pIn, pMatch) \<leftarrow> (if pIn + 1 < pInLimit then do {
           a \<leftarrow> LZ4_read16 src pMatch; b \<leftarrow> LZ4_read16 src pIn;
           Some (if a = b then (pIn + 2, pMatch + 2) else (pIn, pMatch)) } else Some (pIn, pMatch));
       (if pIn < pInLimit then do {
           a \<leftarrow> mem_byte src pMatch; b \<leftarrow> mem_byte src pIn;
           Some (if a = b then pIn + 1 else pIn) } else Some pIn)
     }"

definition LZ4_count :: "bytes \<Rightarrow> nat \<Rightarrow> nat \<Rightarrow> nat \<Rightarrow> nat option" where
  "LZ4_count src pIn pMatch pInLimit =
     do {
       (p, m) \<leftarrow> count_words src pIn pMatch pInLimit;
       case m of
         None \<Rightarrow> Some (p - pIn)
       | Some pm \<Rightarrow> do { q \<leftarrow> count_tail src p pm pInLimit; Some (q - pIn) }
     }"

section \<open>Finding a match\<close>

text \<open>
  Whether the candidate is a match for the position: near enough (\<open>byU16\<close> inputs are too short to be
  too far) and equal in four bytes.
\<close>

definition match_at :: "bytes \<Rightarrow> tableType_t \<Rightarrow> nat \<Rightarrow> nat \<Rightarrow> bool option" where
  "match_at src tableType ip matchIndex =
     (if tableType \<noteq> byU16 \<and> matchIndex + LZ4_DISTANCE_MAX < ip then Some False
      else do { a \<leftarrow> LZ4_read32 src matchIndex; b \<leftarrow> LZ4_read32 src ip; Some (a = b) })"

text \<open>
  The search loop of the table types \<open>byU32\<close> and \<open>byU16\<close>: the position and its match, or \<open>None\<close> when
  the search comes too close to the end, with the table.
\<close>

partial_function (option) find_match ::
  "bytes \<Rightarrow> tableType_t \<Rightarrow> nat \<Rightarrow> nat \<Rightarrow> nat \<Rightarrow> nat \<Rightarrow> nat \<Rightarrow> htable \<Rightarrow> ((nat \<times> nat) option \<times> htable) option" where
  "find_match src tableType mflimitPlusOne forwardIp forwardH step searchMatchNb table =
     (if forwardIp + step > mflimitPlusOne then Some (None, table)
      else do {
        forwardH1 \<leftarrow> LZ4_hashPosition src (forwardIp + step) tableType;
        found \<leftarrow> match_at src tableType forwardIp (LZ4_getIndexOnHash forwardH table);
        if found then
          Some (Some (forwardIp, LZ4_getIndexOnHash forwardH table),
                LZ4_putIndexOnHash forwardIp forwardH table tableType)
        else find_match src tableType mflimitPlusOne (forwardIp + step) forwardH1
               (searchMatchNb div 2 ^ LZ4_skipTrigger) (searchMatchNb + 1)
               (LZ4_putIndexOnHash forwardIp forwardH table tableType)
      })"

text \<open>Moving both pointers back over equal bytes; the first step does not look at the anchor.\<close>

fun catch_up_loop :: "bytes \<Rightarrow> nat \<Rightarrow> nat \<Rightarrow> nat \<Rightarrow> (nat \<times> nat) option" where
  "catch_up_loop src anchor ip match =
     (if ip > anchor \<and> match > 0 then do {
        a \<leftarrow> mem_byte src (ip - 1); b \<leftarrow> mem_byte src (match - 1);
        if a = b then catch_up_loop src anchor (ip - 1) (match - 1) else Some (ip, match)
      }
      else Some (ip, match))"

declare catch_up_loop.simps [simp del]

definition catch_up :: "bytes \<Rightarrow> nat \<Rightarrow> nat \<Rightarrow> nat \<Rightarrow> (nat \<times> nat) option" where
  "catch_up src anchor ip match =
     (if match > 0 then do {
        a \<leftarrow> mem_byte src (ip - 1); b \<leftarrow> mem_byte src (match - 1);
        if a = b then catch_up_loop src anchor (ip - 1) (match - 1) else Some (ip, match)
      }
      else Some (ip, match))"

section \<open>Writing a sequence\<close>

text \<open>The inner \<open>None\<close> stands for \<open>return 0\<close>: the limited output would not fit.\<close>

function write_len :: "bytes \<Rightarrow> nat \<Rightarrow> nat \<Rightarrow> (bytes \<times> nat) option" where
  "write_len mem op len =
     (if len \<ge> 255 then do { m \<leftarrow> mem_write mem op [255]; write_len m (op + 1) (len - 255) }
      else do { m \<leftarrow> mem_write mem op [word_of_nat len]; Some (m, op + 1) })"
  by auto
termination
  by (relation "measure (\<lambda>(mem, op, len). len)") auto

declare write_len.simps [simp del]

definition encode_literals ::
  "bool \<Rightarrow> bytes \<Rightarrow> nat \<Rightarrow> nat \<Rightarrow> bytes \<Rightarrow> nat \<Rightarrow> (bytes \<times> nat) option option" where
  "encode_literals limited src anchor ip mem token =
     (let litLength = ip - anchor; op = token + 1; olimit = length mem
      in if limited \<and> op + litLength + (2 + 1 + LASTLITERALS) + litLength div 255 > olimit then Some None
         else do {
           (m1, op1) \<leftarrow> (if litLength \<ge> RUN_MASK then do {
                m \<leftarrow> mem_write mem token [0xF0]; write_len m op (litLength - RUN_MASK) }
              else do { m \<leftarrow> mem_write mem token [push_bit 4 (word_of_nat litLength)]; Some (m, op) });
           m2 \<leftarrow> LZ4_wildCopy8 (copy_in src) m1 op1 anchor (op1 + litLength);
           Some (Some (m2, op1 + litLength))
         })"

text \<open>The match length after its 15 in the token: runs of four 255 bytes written ahead.\<close>

function write_ff :: "bytes \<Rightarrow> nat \<Rightarrow> nat \<Rightarrow> (bytes \<times> nat \<times> nat) option" where
  "write_ff mem op matchCode =
     (if matchCode \<ge> 4 * 255 then do {
        m \<leftarrow> mem_write mem (op + 4) [255, 255, 255, 255]; write_ff m (op + 4) (matchCode - 4 * 255) }
      else Some (mem, op, matchCode))"
  by auto
termination
  by (relation "measure (\<lambda>(mem, op, c). c)") auto

declare write_ff.simps [simp del]

definition encode_match ::
  "bool \<Rightarrow> bytes \<Rightarrow> nat \<Rightarrow> nat \<Rightarrow> nat \<Rightarrow> bytes \<Rightarrow> nat \<Rightarrow> (bytes \<times> nat \<times> nat) option option" where
  "encode_match limited src ip match token mem op =
     (let matchlimit = length src - LASTLITERALS; olimit = length mem
      in do {
        m1 \<leftarrow> mem_write mem op (put_u16 (word_of_nat (ip - match)));
        let op1 = op + 2;
        matchCode \<leftarrow> LZ4_count src (ip + MINMATCH) (match + MINMATCH) matchlimit;
        let ip1 = ip + matchCode + MINMATCH;
        if limited \<and> op1 + (1 + LASTLITERALS) + (matchCode + 240) div 255 > olimit then Some None
        else if matchCode \<ge> ML_MASK then do {
          t \<leftarrow> mem_read m1 token 1;
          m2 \<leftarrow> mem_write m1 token [hd t + 15];
          m3 \<leftarrow> mem_write m2 op1 [255, 255, 255, 255];
          (m4, op2, rest) \<leftarrow> write_ff m3 op1 (matchCode - ML_MASK);
          let op3 = op2 + rest div 255;
          m5 \<leftarrow> mem_write m4 op3 [word_of_nat (rest mod 255)];
          Some (Some (m5, op3 + 1, ip1))
        }
        else do {
          t \<leftarrow> mem_read m1 token 1;
          m2 \<leftarrow> mem_write m1 token [hd t + word_of_nat matchCode];
          Some (Some (m2, op1, ip1))
        }
      })"

definition encode_last :: "bool \<Rightarrow> bytes \<Rightarrow> nat \<Rightarrow> bytes \<Rightarrow> nat \<Rightarrow> (int \<times> bytes) option" where
  "encode_last limited src anchor mem op =
     (let lastRun = length src - anchor; olimit = length mem
      in if limited \<and> op + lastRun + 1 + (lastRun + 255 - RUN_MASK) div 255 > olimit then Some (0, mem)
         else do {
           (m1, op1) \<leftarrow> (if lastRun \<ge> RUN_MASK then do {
                m \<leftarrow> mem_write mem op [0xF0]; write_len m (op + 1) (lastRun - RUN_MASK) }
              else do { m \<leftarrow> mem_write mem op [push_bit 4 (word_of_nat lastRun)]; Some (m, op + 1) });
           m2 \<leftarrow> copy_in src m1 op1 anchor lastRun;
           Some (int (op1 + lastRun), m2)
         })"

section \<open>The main loop\<close>

text \<open>
  The labels of the loop as states: the search for a match from \<open>ip\<close>, \<open>_next_match\<close>, and
  \<open>_last_literals\<close>.
\<close>

datatype cstate =
    Search nat nat nat htable bytes nat
  | NextMatch nat nat nat htable bytes nat
  | LastLiterals nat bytes nat

definition after_match ::
  "bytes \<Rightarrow> tableType_t \<Rightarrow> nat \<Rightarrow> htable \<Rightarrow> bytes \<Rightarrow> nat \<Rightarrow> cstate option" where
  "after_match src tableType ip table mem op =
     (if ip + MFLIMIT \<ge> length src + 1 then Some (LastLiterals ip mem op)
      else do {
        h2 \<leftarrow> LZ4_hashPosition src (ip - 2) tableType;
        let table1 = LZ4_putIndexOnHash (ip - 2) h2 table tableType;
        h \<leftarrow> LZ4_hashPosition src ip tableType;
        let matchIndex = LZ4_getIndexOnHash h table1;
        let table2 = LZ4_putIndexOnHash ip h table1 tableType;
        again \<leftarrow> match_at src tableType ip matchIndex;
        if again then do {
          m \<leftarrow> mem_write mem op [0];
          Some (NextMatch ip matchIndex op table2 m (op + 1))
        }
        else do {
          forwardH \<leftarrow> LZ4_hashPosition src (ip + 1) tableType;
          Some (Search (ip + 1) forwardH ip table2 mem op)
        }
      })"

text \<open>One state: the next one, or the value returned.\<close>

definition compress_step ::
  "bool \<Rightarrow> bytes \<Rightarrow> tableType_t \<Rightarrow> nat \<Rightarrow> cstate \<Rightarrow> (cstate + int \<times> bytes) option" where
  "compress_step limited src tableType acceleration st =
     (case st of
        Search ip forwardH anchor table mem op \<Rightarrow> do {
          (found, table1) \<leftarrow> find_match src tableType (length src - MFLIMIT + 1) ip forwardH 1
            (acceleration * 2 ^ LZ4_skipTrigger) table;
          case found of
            None \<Rightarrow> Some (Inl (LastLiterals anchor mem op))
          | Some (ip1, match1) \<Rightarrow> do {
              (ip2, match2) \<leftarrow> catch_up src anchor ip1 match1;
              r \<leftarrow> encode_literals limited src anchor ip2 mem op;
              case r of
                None \<Rightarrow> Some (Inr (0, mem))
              | Some (m, op1) \<Rightarrow> Some (Inl (NextMatch ip2 match2 op table1 m op1))
            }
        }
      | NextMatch ip match token table mem op \<Rightarrow> do {
          r \<leftarrow> encode_match limited src ip match token mem op;
          case r of
            None \<Rightarrow> Some (Inr (0, mem))
          | Some (m, op1, ip1) \<Rightarrow> map_option Inl (after_match src tableType ip1 table m op1)
        }
      | LastLiterals anchor mem op \<Rightarrow> map_option Inr (encode_last limited src anchor mem op))"

partial_function (option) compress_run ::
  "bool \<Rightarrow> bytes \<Rightarrow> tableType_t \<Rightarrow> nat \<Rightarrow> cstate \<Rightarrow> (int \<times> bytes) option" where
  "compress_run limited src tableType acceleration st =
     do {
       r \<leftarrow> compress_step limited src tableType acceleration st;
       case r of Inl st1 \<Rightarrow> compress_run limited src tableType acceleration st1 | Inr v \<Rightarrow> Some v
     }"

declare find_match.simps [code] compress_run.simps [code]

definition LZ4_compress_generic_validated ::
  "bool \<Rightarrow> bytes \<Rightarrow> bytes \<Rightarrow> tableType_t \<Rightarrow> nat \<Rightarrow> (int \<times> bytes) option" where
  "LZ4_compress_generic_validated limited src mem tableType acceleration =
     (if length src < LZ4_minLength then encode_last limited src 0 mem 0
      else do {
        h \<leftarrow> LZ4_hashPosition src 0 tableType;
        forwardH \<leftarrow> LZ4_hashPosition src 1 tableType;
        compress_run limited src tableType acceleration
          (Search 1 forwardH 0 (LZ4_putIndexOnHash 0 h (\<lambda>_. 0) tableType) mem 0)
      })"

definition LZ4_compress_generic ::
  "limitedOutput_directive \<Rightarrow> bytes \<Rightarrow> bytes \<Rightarrow> tableType_t \<Rightarrow> nat \<Rightarrow> (int \<times> bytes) option" where
  "LZ4_compress_generic outputDirective src dst tableType acceleration =
     (if length src > LZ4_MAX_INPUT_SIZE then Some (0, dst)
      else if length src = 0 then
        (if outputDirective \<noteq> notLimited \<and> length dst = 0 then Some (0, dst)
         else do { m \<leftarrow> mem_write dst 0 [0]; Some (1, m) })
      else LZ4_compress_generic_validated (outputDirective = limitedOutput) src dst tableType acceleration)"

definition LZ4_ACCELERATION_MAX :: int where "LZ4_ACCELERATION_MAX = 65537"

definition LZ4_compress_fast :: "bytes \<Rightarrow> bytes \<Rightarrow> int \<Rightarrow> (int \<times> bytes) option" where
  "LZ4_compress_fast src dest acceleration =
     (let a = (if acceleration < 1 then 1
               else if acceleration > LZ4_ACCELERATION_MAX then LZ4_ACCELERATION_MAX else acceleration);
          tableType = (if length src < LZ4_64Klimit then byU16 else byU32);
          directive = (if length dest \<ge> LZ4_compressBound (length src) then notLimited else limitedOutput)
      in LZ4_compress_generic directive src dest tableType (nat a))"

definition LZ4_compress_default :: "bytes \<Rightarrow> bytes \<Rightarrow> (int \<times> bytes) option" where
  "LZ4_compress_default src dst = LZ4_compress_fast src dst 1"

section \<open>Reading\<close>

lemma le_dec_inj: "length a = length b \<Longrightarrow> le_dec a = le_dec b \<Longrightarrow> a = b"
  by (metis le_enc_le_dec)

lemma le_dec_take: "k \<le> length bs \<Longrightarrow> le_dec (take k bs) = le_dec bs mod 256 ^ k"
proof (induction bs arbitrary: k)
  case (Cons b bs)
  show ?case
  proof (cases k)
    case (Suc j)
    then have "le_dec (take j bs) = le_dec bs mod 256 ^ j" using Cons by simp
    moreover have "(unat b + 256 * x) mod (256 * 256 ^ j) = unat b + 256 * (x mod 256 ^ j)" for x
    proof -
      have u: "unat b < 256" using unsigned_less [of b] by simp
      have "(unat b + 256 * x) mod (256 * 256 ^ j) = 256 * ((unat b + 256 * x) div 256 mod 256 ^ j) + (unat b + 256 * x) mod 256"
        by (rule mod_mult2_eq)
      then show ?thesis using u by simp
    qed
    ultimately show ?thesis using Suc by simp
  qed simp
qed simp

lemma unat_get_u64: "length bs = 8 \<Longrightarrow> unat (get_u64 bs) = le_dec bs"
  using le_dec_bound [of bs] by (simp add: get_u64_def unat_of_nat)

lemma unat_get_u32: "length bs = 4 \<Longrightarrow> unat (get_u32 bs) = le_dec bs"
  using le_dec_bound [of bs] by (simp add: get_u32_def unat_of_nat)

lemma unat_get_u16: "length bs = 2 \<Longrightarrow> unat (get_u16 bs) = le_dec bs"
  using le_dec_bound [of bs] by (simp add: get_u16_def unat_of_nat)

lemma get_u32_inj: "length a = 4 \<Longrightarrow> length b = 4 \<Longrightarrow> get_u32 a = get_u32 b \<longleftrightarrow> a = b"
  by (metis unat_get_u32 le_dec_inj)

lemma get_u16_inj: "length a = 2 \<Longrightarrow> length b = 2 \<Longrightarrow> get_u16 a = get_u16 b \<longleftrightarrow> a = b"
  by (metis unat_get_u16 le_dec_inj)

text \<open>The bytes from two positions on agree for a length.\<close>

definition agree :: "bytes \<Rightarrow> nat \<Rightarrow> nat \<Rightarrow> nat \<Rightarrow> bool" where
  "agree src p q n \<longleftrightarrow> (\<forall>i<n. src ! (p + i) = src ! (q + i))"

lemma agree_add: "agree src p q a \<Longrightarrow> agree src (p + a) (q + a) b \<Longrightarrow> agree src p q (a + b)"
  unfolding agree_def
proof (intro allI impI)
  fix i assume h: "\<forall>i<a. src ! (p + i) = src ! (q + i)" "\<forall>i<b. src ! (p + a + i) = src ! (q + a + i)" "i < a + b"
  show "src ! (p + i) = src ! (q + i)"
  proof (cases "i < a")
    case False
    then have "i - a < b" "p + a + (i - a) = p + i" "q + a + (i - a) = q + i" using h(3) by auto
    then show ?thesis using h(2) by metis
  qed (use h in simp)
qed

lemma agree_slices:
  assumes "p + n \<le> length src" and "q + n \<le> length src"
  shows "slice_at p n src = slice_at q n src \<longleftrightarrow> agree src p q n"
proof
  assume e: "slice_at p n src = slice_at q n src"
  show "agree src p q n" unfolding agree_def
  proof (intro allI impI)
    fix i assume "i < n"
    then show "src ! (p + i) = src ! (q + i)"
      using assms nth_slice_at [of i n p src] nth_slice_at [of i n q src] e by simp
  qed
next
  assume "agree src p q n"
  then show "slice_at p n src = slice_at q n src"
    using assms by (intro nth_equalityI) (auto simp: nth_slice_at agree_def)
qed

lemma read32_eq:
  assumes "p + 4 \<le> length src" and "q + 4 \<le> length src"
  shows "\<exists>a b. LZ4_read32 src p = Some a \<and> LZ4_read32 src q = Some b \<and> (a = b \<longleftrightarrow> agree src p q 4)"
  using assms get_u32_inj [of "slice_at p 4 src" "slice_at q 4 src"] agree_slices [OF assms]
  by (simp add: LZ4_read32_def mem_read_def)

lemma read16_eq:
  assumes "p + 2 \<le> length src" and "q + 2 \<le> length src"
  shows "\<exists>a b. LZ4_read16 src p = Some a \<and> LZ4_read16 src q = Some b \<and> (a = b \<longleftrightarrow> agree src p q 2)"
  using assms get_u16_inj [of "slice_at p 2 src" "slice_at q 2 src"] agree_slices [OF assms]
  by (simp add: LZ4_read16_def mem_read_def)

lemma byte_eq:
  assumes "p + 1 \<le> length src" and "q + 1 \<le> length src"
  shows "\<exists>a b. mem_byte src p = Some a \<and> mem_byte src q = Some b \<and> (a = b \<longleftrightarrow> agree src p q 1)"
  using assms by (simp add: mem_byte_def agree_def word_unat_eq_iff)

lemma hashPosition_ok:
  assumes "p + 8 \<le> length src"
  shows "\<exists>h. LZ4_hashPosition src p tt = Some h"
  using assms by (auto simp: LZ4_hashPosition_def LZ4_read_ARCH_def LZ4_read32_def mem_read_def)

section \<open>Counting common bytes is exact\<close>

lemma ctz64_props:
  assumes "w \<noteq> 0"
  shows "ctz64 w < 64" and "bit w (ctz64 w)" and "\<And>i. i < ctz64 w \<Longrightarrow> \<not> bit w i"
proof -
  let ?P = "\<lambda>i. \<not> bit w i" and ?xs = "[0..<64::nat]"
  have low: "\<not> bit w i" if "i < ctz64 w" for i
  proof -
    have "takeWhile ?P ?xs ! i = ?xs ! i" using that by (intro takeWhile_nth) (simp add: ctz64_def)
    moreover have "length (takeWhile ?P ?xs) \<le> length ?xs" by (rule length_takeWhile_le)
    ultimately have "i \<in> set (takeWhile ?P ?xs)"
      using that unfolding ctz64_def by (metis (no_types, lifting) add_0 diff_zero length_upt less_le_trans nth_mem nth_upt)
    then show ?thesis by (auto dest: set_takeWhileD)
  qed
  then show "\<And>i. i < ctz64 w \<Longrightarrow> \<not> bit w i" .
  show lt: "ctz64 w < 64"
  proof (rule ccontr)
    assume "\<not> ctz64 w < 64"
    then have "\<not> bit w i" for i using low bit_imp_le_length [of w i] by force
    then have "w = 0" by (intro bit_eqI) simp
    then show False using assms by simp
  qed
  have "\<not> ?P (?xs ! length (takeWhile ?P ?xs))"
    by (rule nth_length_takeWhile) (use lt in \<open>simp add: ctz64_def\<close>)
  then show "bit w (ctz64 w)" using lt by (simp add: ctz64_def)
qed

lemma take_bit_unat_eq: "take_bit n a = take_bit n b \<longleftrightarrow> unat a mod 2 ^ n = unat b mod 2 ^ n"
  for a b :: u64
proof -
  have "unat (take_bit n a) = unat a mod 2 ^ n" for a :: u64
    by (simp only: unsigned_take_bit_eq take_bit_nat_eq flip: take_bit_eq_mod)
  then show ?thesis by (simp only: word_unat_eq_iff)
qed

text \<open>Eight bytes from each side: the low equal bits of the two words are equal bytes.\<close>

lemma NbCommonBytes_ok:
  assumes "length bs = 8" and "length cs = 8" and "get_u64 bs XOR get_u64 cs \<noteq> 0"
  defines "k \<equiv> LZ4_NbCommonBytes (get_u64 bs XOR get_u64 cs)"
  shows "k < 8" and "take k bs = take k cs" and "bs ! k \<noteq> cs ! k"
proof -
  let ?a = "get_u64 bs" and ?b = "get_u64 cs"
  let ?c = "ctz64 (?a XOR ?b)"
  note c = ctz64_props [OF assms(3)]
  have k: "k = ?c div 8" by (simp add: k_def LZ4_NbCommonBytes_def)
  show k8: "k < 8" using c(1) k by simp
  have same: "take_bit n ?a = take_bit n ?b \<longleftrightarrow> take j bs = take j cs" if "n = 8 * j" "j \<le> 8" for n j
  proof -
    have "take_bit n ?a = take_bit n ?b \<longleftrightarrow> le_dec bs mod 256 ^ j = le_dec cs mod 256 ^ j"
      using that(1) assms(1,2) by (simp add: take_bit_unat_eq unat_get_u64 power_mult)
    also have "\<dots> \<longleftrightarrow> take j bs = take j cs"
      using le_dec_take [of j bs] le_dec_take [of j cs] le_dec_inj [of "take j bs" "take j cs"] that(2) assms(1,2)
      by auto
    finally show ?thesis .
  qed
  have "take_bit (8 * k) ?a = take_bit (8 * k) ?b"
  proof (rule bit_eqI)
    fix i
    have "8 * k \<le> ?c" by (simp add: k)
    then have "i < 8 * k \<longrightarrow> \<not> bit (?a XOR ?b) i" using c(3) by auto
    then show "bit (take_bit (8 * k) ?a) i = bit (take_bit (8 * k) ?b) i" by (auto simp: bit_simps)
  qed
  then show t: "take k bs = take k cs" using same k8 by simp
  show "bs ! k \<noteq> cs ! k"
  proof
    assume "bs ! k = cs ! k"
    then have "take (Suc k) bs = take (Suc k) cs" using t k8 assms(1,2) by (simp add: take_Suc_conv_app_nth)
    then have "take_bit (8 * Suc k) ?a = take_bit (8 * Suc k) ?b" using same [OF refl, of "Suc k"] k8 by simp
    then have "bit (take_bit (8 * Suc k) ?a) ?c = bit (take_bit (8 * Suc k) ?b) ?c" by simp
    moreover have "?c < 8 * Suc k" using k by (simp add: mult.commute)
    ultimately have "bit ?a ?c = bit ?b ?c" by (simp add: bit_take_bit_iff)
    then show False using c(2) by (simp add: bit_xor_iff)
  qed
qed

lemma count_words_ok:
  assumes "pMatch \<le> pIn" and "pInLimit \<le> length src"
  shows "\<exists>p m. count_words src pIn pMatch pInLimit = Some (p, m) \<and> pIn \<le> p \<and> agree src pIn pMatch (p - pIn) \<and>
    (case m of
       Some pm \<Rightarrow> pm = pMatch + (p - pIn) \<and> pInLimit \<le> p + 7 \<and> (p \<le> pInLimit \<or> p = pIn)
     | None \<Rightarrow> p < pInLimit \<and> src ! p \<noteq> src ! (pMatch + (p - pIn)))"
  using assms
proof (induction src pIn pMatch pInLimit rule: count_words.induct)
  case (1 src pIn pMatch pInLimit)
  show ?case
  proof (cases "pIn + 7 < pInLimit")
    case False
    then show ?thesis by (subst count_words.simps) (simp add: agree_def)
  next
    case True
    let ?a = "slice_at pMatch 8 src" and ?b = "slice_at pIn 8 src"
    have b: "pMatch + 8 \<le> length src" "pIn + 8 \<le> length src" using True 1(2,3) by auto
    have r: "LZ4_read_ARCH src pMatch = Some (get_u64 ?a)" "LZ4_read_ARCH src pIn = Some (get_u64 ?b)"
      using b by (simp_all add: LZ4_read_ARCH_def mem_read_def)
    have l: "length ?a = 8" "length ?b = 8" using b by auto
    show ?thesis
    proof (cases "get_u64 ?a XOR get_u64 ?b = 0")
      case eq: True
      have ab: "?a = ?b"
        using eq unat_get_u64 [OF l(1)] unat_get_u64 [OF l(2)] l le_dec_inj [of ?a ?b]
        by (metis xor_left_cancel xor_self_eq)
      then have ag: "agree src pIn pMatch 8" using agree_slices [OF b(2,1)] by simp
      obtain p m where ih: "count_words src (pIn + 8) (pMatch + 8) pInLimit = Some (p, m)" "pIn + 8 \<le> p"
          "agree src (pIn + 8) (pMatch + 8) (p - (pIn + 8))"
          "case m of Some pm \<Rightarrow> pm = pMatch + 8 + (p - (pIn + 8)) \<and> pInLimit \<le> p + 7 \<and> (p \<le> pInLimit \<or> p = pIn + 8)
           | None \<Rightarrow> p < pInLimit \<and> src ! p \<noteq> src ! (pMatch + 8 + (p - (pIn + 8)))"
        using 1(1) [OF True r eq] 1(2,3) by auto
      have e: "8 + (p - (pIn + 8)) = p - pIn" "pMatch + 8 + (p - (pIn + 8)) = pMatch + (p - pIn)" using ih(2) by auto
      have "agree src pIn pMatch (p - pIn)" using agree_add [OF ag ih(3)] e by simp
      moreover have "count_words src pIn pMatch pInLimit = Some (p, m)"
        using True r eq ih(1) by (subst count_words.simps) simp
      ultimately show ?thesis using ih(2,4) True unfolding e by (auto split: option.splits)
    next
      case False
      define k where "k = LZ4_NbCommonBytes (get_u64 ?a XOR get_u64 ?b)"
      have k: "k < 8" "take k ?a = take k ?b" "?a ! k \<noteq> ?b ! k"
        using NbCommonBytes_ok [OF l False] by (simp_all add: k_def)
      have "src ! (pIn + i) = src ! (pMatch + i)" if "i < k" for i
      proof -
        have "?a ! i = ?b ! i" using k(2) that by (metis nth_take)
        then show ?thesis using that k(1) b by (simp add: nth_slice_at)
      qed
      then have "agree src pIn pMatch k" by (simp add: agree_def)
      moreover have "src ! (pIn + k) \<noteq> src ! (pMatch + k)" using k(1,3) b by (simp add: nth_slice_at)
      moreover have "count_words src pIn pMatch pInLimit = Some (pIn + k, None)"
        using True r False by (subst count_words.simps) (simp add: k_def)
      ultimately show ?thesis using k(1) True by auto
    qed
  qed
qed

text \<open>The tail compares 4, 2 and 1 bytes; with fewer than eight bytes left this finds the exact length.\<close>

lemma agree_le: "agree src p q n \<Longrightarrow> m \<le> n \<Longrightarrow> agree src p q m"
  by (auto simp: agree_def)

lemma agree_1: "agree src p q 1 \<longleftrightarrow> src ! p = src ! q"
  by (simp add: agree_def)

lemma agree_2: "agree src p q 2 \<longleftrightarrow> src ! p = src ! q \<and> src ! (p + 1) = src ! (q + 1)"
  by (auto simp: agree_def less_2_cases_iff)

lemma agree_shift: "agree src p q (a + b) \<Longrightarrow> agree src (p + a) (q + a) b"
  unfolding agree_def by (simp add: add.assoc)

lemma agree_4: "agree src p q 4 \<longleftrightarrow> agree src p q 2 \<and> agree src (p + 2) (q + 2) 2"
proof -
  have "agree src p q (2 + 2) \<Longrightarrow> agree src (p + 2) (q + 2) 2" by (rule agree_shift)
  moreover have "agree src p q (2 + 2) \<Longrightarrow> agree src p q 2" by (erule agree_le) simp
  ultimately show ?thesis using agree_add [of src p q 2 2] by auto
qed

definition exact_count :: "bytes \<Rightarrow> nat \<Rightarrow> nat \<Rightarrow> nat \<Rightarrow> nat \<Rightarrow> bool" where
  "exact_count src p q lim c \<longleftrightarrow> p + c \<le> lim \<and> agree src p q c \<and> (p + c < lim \<longrightarrow> src ! (p + c) \<noteq> src ! (q + c))"

lemma exact_add:
  assumes "agree src p q a" and "exact_count src (p + a) (q + a) lim c"
  shows "exact_count src p q lim (a + c)"
  using agree_add [OF assms(1), of c] assms(2) by (auto simp: exact_count_def add.assoc)

lemma count_tail_1:
  assumes "q \<le> p" and "p \<le> lim" and "lim \<le> length src" and "lim \<le> p + 1 \<or> src ! p \<noteq> src ! q \<or> src ! (p + 1) \<noteq> src ! (q + 1)"
  shows "\<exists>r. (if p < lim then do { a \<leftarrow> mem_byte src q; b \<leftarrow> mem_byte src p; Some (if a = b then p + 1 else p) } else Some p) =
      Some r \<and> p \<le> r \<and> exact_count src p q lim (r - p)"
proof (cases "p < lim")
  case True
  then obtain a b where "mem_byte src q = Some a" "mem_byte src p = Some b" "a = b \<longleftrightarrow> src ! p = src ! q"
    using byte_eq [of q src p] assms(1,3) by (auto simp: agree_def)
  then show ?thesis using True assms by (auto simp: exact_count_def agree_def)
qed (use assms in \<open>simp add: exact_count_def agree_def\<close>)

lemma count_tail_ok:
  assumes "q \<le> p" and "p \<le> lim" and "lim \<le> length src" and "lim \<le> p + 7"
  shows "\<exists>r. count_tail src p q lim = Some r \<and> p \<le> r \<and> exact_count src p q lim (r - p)"
proof -
  define f4 where "f4 \<longleftrightarrow> p + 3 < lim \<and> agree src p q 4"
  define p4 where "p4 = (if f4 then p + 4 else p)"
  define q4 where "q4 = (if f4 then q + 4 else q)"
  have s4: "(if p + 3 < lim then do { a \<leftarrow> LZ4_read32 src q; b \<leftarrow> LZ4_read32 src p;
           Some (if a = b then (p + 4, q + 4) else (p, q)) } else Some (p, q)) = Some (p4, q4)"
  proof (cases "p + 3 < lim")
    case True
    then obtain a b where "LZ4_read32 src q = Some a" "LZ4_read32 src p = Some b" "a = b \<longleftrightarrow> agree src p q 4"
      using read32_eq [of p src q] assms(1,3) by auto
    then show ?thesis using True by (simp add: p4_def q4_def f4_def)
  qed (simp add: p4_def q4_def f4_def)
  define f2 where "f2 \<longleftrightarrow> p4 + 1 < lim \<and> agree src p4 q4 2"
  define p2 where "p2 = (if f2 then p4 + 2 else p4)"
  define q2 where "q2 = (if f2 then q4 + 2 else q4)"
  have b4: "q4 \<le> p4" "p4 \<le> lim" using assms(1,2) by (auto simp: p4_def q4_def f4_def)
  have s2: "(if p4 + 1 < lim then do { a \<leftarrow> LZ4_read16 src q4; b \<leftarrow> LZ4_read16 src p4;
           Some (if a = b then (p4 + 2, q4 + 2) else (p4, q4)) } else Some (p4, q4)) = Some (p2, q2)"
  proof (cases "p4 + 1 < lim")
    case True
    then obtain a b where "LZ4_read16 src q4 = Some a" "LZ4_read16 src p4 = Some b" "a = b \<longleftrightarrow> agree src p4 q4 2"
      using read16_eq [of p4 src q4] assms(3) b4 by auto
    then show ?thesis using True by (simp add: p2_def q2_def f2_def)
  qed (simp add: p2_def q2_def f2_def)
  have b2: "q2 \<le> p2" "p2 \<le> lim" using b4 by (auto simp: p2_def q2_def f2_def)
  have near: "lim \<le> p2 + 1 \<or> src ! p2 \<noteq> src ! q2 \<or> src ! (p2 + 1) \<noteq> src ! (q2 + 1)"
    using assms(4) by (auto simp: p2_def q2_def f2_def p4_def q4_def f4_def agree_2 agree_4)
  obtain r where r: "(if p2 < lim then do { a \<leftarrow> mem_byte src q2; b \<leftarrow> mem_byte src p2;
           Some (if a = b then p2 + 1 else p2) } else Some p2) = Some r" "p2 \<le> r" "exact_count src p2 q2 lim (r - p2)"
    using count_tail_1 [OF b2 assms(3) near] by blast
  have "exact_count src p4 q4 lim (r - p4)"
  proof (cases f2)
    case True
    have "exact_count src p4 q4 lim (2 + (r - p2))"
      by (rule exact_add) (use r(3) True in \<open>simp_all add: p2_def q2_def f2_def\<close>)
    moreover have "2 + (r - p2) = r - p4" using r(2) True by (simp add: p2_def)
    ultimately show ?thesis by simp
  qed (use r(3) in \<open>simp add: p2_def q2_def\<close>)
  moreover have "p4 \<le> r" using r(2) by (auto simp: p2_def split: if_splits)
  ultimately have "exact_count src p q lim (r - p) \<and> p \<le> r"
  proof (cases f4)
    case True
    assume e: "exact_count src p4 q4 lim (r - p4)" and le: "p4 \<le> r"
    have "exact_count src p q lim (4 + (r - p4))"
      by (rule exact_add) (use e True in \<open>simp_all add: p4_def q4_def f4_def\<close>)
    moreover have "4 + (r - p4) = r - p" "p \<le> r" using le True by (simp_all add: p4_def)
    ultimately show ?thesis by simp
  qed (simp add: p4_def q4_def)
  moreover have "count_tail src p q lim = Some r"
    by (simp only: count_tail_def s4 s2 r(1) Option.bind.simps prod.case)
  ultimately show ?thesis by blast
qed

lemma LZ4_count_ok:
  assumes "pMatch \<le> pIn" and "pIn \<le> pInLimit" and "pInLimit \<le> length src"
  shows "\<exists>c. LZ4_count src pIn pMatch pInLimit = Some c \<and> exact_count src pIn pMatch pInLimit c"
proof -
  obtain p m where w: "count_words src pIn pMatch pInLimit = Some (p, m)" "pIn \<le> p" "agree src pIn pMatch (p - pIn)"
      "case m of
         Some pm \<Rightarrow> pm = pMatch + (p - pIn) \<and> pInLimit \<le> p + 7 \<and> (p \<le> pInLimit \<or> p = pIn)
       | None \<Rightarrow> p < pInLimit \<and> src ! p \<noteq> src ! (pMatch + (p - pIn))"
    using count_words_ok [OF assms(1,3)] by blast
  show ?thesis
  proof (cases m)
    case None
    then show ?thesis using w by (simp add: LZ4_count_def exact_count_def)
  next
    case (Some pm)
    then have pm: "pm = pMatch + (p - pIn)" "pInLimit \<le> p + 7" "p \<le> pInLimit" "pm \<le> p"
      using w(2,4) assms(1,2) by auto
    obtain r where r: "count_tail src p pm pInLimit = Some r" "p \<le> r" "exact_count src p pm pInLimit (r - p)"
      using count_tail_ok [OF pm(4,3) assms(3) pm(2)] by blast
    have "exact_count src pIn pMatch pInLimit ((p - pIn) + (r - p))"
      by (rule exact_add [OF w(3)]) (use r(3) w(2) pm(1) in simp)
    moreover have "(p - pIn) + (r - p) = r - pIn" using w(2) r(2) by simp
    ultimately show ?thesis using w(1) Some r(1) by (simp add: LZ4_count_def)
  qed
qed

section \<open>Writing is appending\<close>

lemma mem_write_take:
  assumes "op + length bs \<le> length m"
  shows "\<exists>m'. mem_write m op bs = Some m' \<and> length m' = length m \<and> take (op + length bs) m' = take op m @ bs"
  using assms by (simp add: mem_write_def)

lemma mem_write_ahead: "mem_write m i bs = Some m' \<Longrightarrow> op \<le> i \<Longrightarrow> take op m' = take op m"
  by (auto simp: mem_write_def min_def split: if_splits)

lemma mem_write_token:
  assumes "token < op" and "op \<le> length m"
  shows "mem_write m token [b] = Some (m[token := b])" and "mem_read m token 1 = Some [m ! token]"
  using assms by (auto simp: mem_write_def mem_read_def slice_at_def upd_conv_take_nth_drop
      take_Suc hd_drop_conv_nth)

lemma put_ext_replicate: "put_ext n = replicate (n div 255) 255 @ [word_of_nat (n mod 255)]"
proof (induction n rule: put_ext.induct)
  case (1 n)
  show ?case
  proof (cases "n < 255")
    case False
    then have "n div 255 = Suc ((n - 255) div 255)" "n mod 255 = (n - 255) mod 255"
      by (simp_all add: le_div_geq le_mod_geq)
    then show ?thesis using 1 [OF False] False by (simp add: put_ext.simps [of n])
  qed (simp add: put_ext_small)
qed

lemma length_put_ext: "length (put_ext n) = n div 255 + 1"
  by (simp add: put_ext_replicate)

lemma length_len_ext: "length (len_ext n) = (if n < 15 then 0 else (n - 15) div 255 + 1)"
  by (simp add: len_ext_def length_put_ext)

lemma write_len_ok:
  assumes "op + length (put_ext n) \<le> length m"
  shows "\<exists>m'. write_len m op n = Some (m', op + length (put_ext n)) \<and> length m' = length m \<and>
    take (op + length (put_ext n)) m' = take op m @ put_ext n"
  using assms
proof (induction m op n rule: write_len.induct)
  case (1 m op n)
  show ?case
  proof (cases "n \<ge> 255")
    case True
    have p: "put_ext n = 255 # put_ext (n - 255)" using True by (simp add: put_ext.simps)
    then obtain m1 where m1: "mem_write m op [255] = Some m1" "length m1 = length m" "take (op + 1) m1 = take op m @ [255]"
      using mem_write_take [of op "[255]" m] 1(2) by auto
    have "op + 1 + length (put_ext (n - 255)) \<le> length m1" using 1(2) p m1(2) by simp
    then obtain m' where m': "write_len m1 (op + 1) (n - 255) = Some (m', op + 1 + length (put_ext (n - 255)))"
        "length m' = length m1" "take (op + 1 + length (put_ext (n - 255))) m' = take (op + 1) m1 @ put_ext (n - 255)"
      using 1(1) [OF True m1(1)] by blast
    then show ?thesis using True m1 p by (subst write_len.simps) simp
  next
    case False
    then show ?thesis using mem_write_take [of op "[word_of_nat n]" m] 1(2)
      by (subst write_len.simps) (auto simp: put_ext_small)
  qed
qed

text \<open>The token with the length of the literals, and the bytes that continue it.\<close>

lemma write_lit_len_ok:
  fixes lit :: nat
  assumes "token + 1 + length (len_ext lit) \<le> length mem"
  shows "\<exists>m1. (if lit \<ge> RUN_MASK then do {
                m \<leftarrow> mem_write mem token [0xF0]; write_len m (token + 1) (lit - RUN_MASK) }
              else do { m \<leftarrow> mem_write mem token [push_bit 4 (word_of_nat lit)]; Some (m, token + 1) }) =
        Some (m1, token + 1 + length (len_ext lit)) \<and>
      length m1 = length mem \<and>
      take (token + 1 + length (len_ext lit)) m1 = take token mem @ word_of_nat (16 * min 15 lit) # len_ext lit"
proof -
  let ?t = "word_of_nat (16 * min 15 lit) :: byte" and ?op1 = "token + 1 + length (len_ext lit)"
  obtain m0 where m0: "mem_write mem token [?t] = Some m0" "length m0 = length mem" "take (token + 1) m0 = take token mem @ [?t]"
    using mem_write_take [of token "[?t]" mem] assms by auto
  show ?thesis
  proof (cases "lit < 15")
    case True
    have "push_bit 4 (word_of_nat lit :: byte) = ?t" using True by (simp add: push_bit_eq_mult)
    then show ?thesis using True m0 by (simp add: len_ext_def)
  next
    case False
    then have t: "?t = 0xF0" by simp
    have e: "len_ext lit = put_ext (lit - 15)" using False by (simp add: len_ext_def)
    have "token + 1 + length (put_ext (lit - 15)) \<le> length m0" using assms e m0(2) by simp
    from write_len_ok [OF this] obtain m1 where
      "write_len m0 (token + 1) (lit - 15) = Some (m1, token + 1 + length (put_ext (lit - 15)))" "length m1 = length m0"
      "take (token + 1 + length (put_ext (lit - 15))) m1 = take (token + 1) m0 @ put_ext (lit - 15)" by blast
    then show ?thesis using False m0 e unfolding t by simp
  qed
qed

text \<open>The literals: token, length, and a wild copy that may run over the end of the input's literals.\<close>

lemma encode_literals_ok:
  fixes lit :: nat
  assumes "anchor \<le> ip" and "ip + 12 \<le> length src" and lit: "lit = ip - anchor"
    and fits: "token + 1 + length (len_ext lit) + max lit 1 + 7 \<le> length mem"
    and "\<not> (limited \<and> token + 1 + lit + 8 + lit div 255 > length mem)"
  shows "\<exists>m. encode_literals limited src anchor ip mem token =
      Some (Some (m, token + 1 + length (len_ext lit) + lit)) \<and> length m = length mem \<and>
    take (token + 1 + length (len_ext lit) + lit) m =
      take token mem @ word_of_nat (16 * min 15 lit) # len_ext lit @ slice_at anchor lit src"
proof -
  let ?t = "word_of_nat (16 * min 15 lit) :: byte" and ?op1 = "token + 1 + length (len_ext lit)"
  obtain m1 where m1: "(if lit \<ge> RUN_MASK then do {
                m \<leftarrow> mem_write mem token [0xF0]; write_len m (token + 1) (lit - RUN_MASK) }
              else do { m \<leftarrow> mem_write mem token [push_bit 4 (word_of_nat lit)]; Some (m, token + 1) }) = Some (m1, ?op1)"
      "length m1 = length mem" "take ?op1 m1 = take token mem @ ?t # len_ext lit"
    using write_lit_len_ok [of token lit mem] fits by auto
  let ?E = "?op1 + max lit 1"
  have E: "?op1 < ?E" "?op1 + lit \<le> ?E" "?E + 7 \<le> length m1" "anchor + (?E - ?op1) + 7 \<le> length src"
    using fits assms(1,2) m1(2) lit by auto
  obtain m2 where m2: "LZ4_wildCopy8 (copy_in src) m1 ?op1 anchor (?op1 + lit) = Some m2"
      "fills m1 m2 ?op1 (?op1 + lit) (\<lambda>j. src ! (anchor + (j - ?op1)))"
    using wildCopy8_in [OF E] by blast
  have l2: "length m2 = length mem" using fills_length [OF m2(2)] m1(2) by simp
  have "take (?op1 + lit) m2 = take ?op1 m1 @ slice_at anchor lit src"
  proof (rule nth_equalityI)
    show "length (take (?op1 + lit) m2) = length (take ?op1 m1 @ slice_at anchor lit src)"
      using fits l2 m1(2) assms(1,2) lit by auto
    fix i assume "i < length (take (?op1 + lit) m2)"
    then have i: "i < ?op1 + lit" by simp
    have "?op1 \<le> length m1" "anchor + lit \<le> length src" using E assms(1,2) lit by auto
    then show "take (?op1 + lit) m2 ! i = (take ?op1 m1 @ slice_at anchor lit src) ! i"
      using m2(2) i by (auto simp: fills_def nth_append nth_slice_at)
  qed
  then have "take (?op1 + lit) m2 = take token mem @ ?t # len_ext lit @ slice_at anchor lit src"
    using m1(3) by simp
  moreover have "encode_literals limited src anchor ip mem token = Some (Some (m2, ?op1 + lit))"
    unfolding encode_literals_def Let_def lit [symmetric]
    using assms(5) m1(1) m2(1) by (simp del: LZ4_skipTrigger_def)
  ultimately show ?thesis using l2 by blast
qed

lemma write_ff_ok:
  assumes "take (op + 4) m = out @ replicate 4 255" and "length out = op" and "op + 4 * (c div 1020) + 4 \<le> length m"
  shows "\<exists>m'. write_ff m op c = Some (m', op + 4 * (c div 1020), c mod 1020) \<and> length m' = length m \<and>
    take (op + 4 * (c div 1020) + 4) m' = out @ replicate (4 * (c div 1020) + 4) 255"
  using assms
proof (induction m op c arbitrary: out rule: write_ff.induct)
  case (1 m op c)
  show ?case
  proof (cases "c \<ge> 4 * 255")
    case True
    have q: "c div 1020 = Suc ((c - 1020) div 1020)" "c mod 1020 = (c - 1020) mod 1020"
      using True by (simp_all add: le_div_geq le_mod_geq)
    have b: "op + 4 + length [255, 255, 255, 255 :: byte] \<le> length m" using 1(4) q(1) by simp
    obtain m1 where m1: "mem_write m (op + 4) [255, 255, 255, 255] = Some m1" "length m1 = length m"
        "take (op + 4 + 4) m1 = take (op + 4) m @ [255, 255, 255, 255]"
      using mem_write_take [OF b] by auto
    have r4: "[255, 255, 255, 255 :: byte] = replicate 4 255" by (simp add: numeral_eq_Suc)
    obtain m' where m': "write_ff m1 (op + 4) (c - 1020) = Some (m', op + 4 + 4 * ((c - 1020) div 1020), (c - 1020) mod 1020)"
        "length m' = length m1"
        "take (op + 4 + 4 * ((c - 1020) div 1020) + 4) m' = (out @ replicate 4 255) @ replicate (4 * ((c - 1020) div 1020) + 4) 255"
      using 1(1) [OF True m1(1), of "out @ replicate 4 255"] m1(2,3) 1(2-4) q(1) r4 by auto
    have e: "op + 4 * (c div 1020) = op + 4 + 4 * ((c - 1020) div 1020)"
      "4 * (c div 1020) + 4 = 4 + (4 * ((c - 1020) div 1020) + 4)" using q(1) by auto
    have "out @ replicate (4 * (c div 1020) + 4) 255 = (out @ replicate 4 255) @ replicate (4 * ((c - 1020) div 1020) + 4) (255 :: byte)"
      unfolding e(2) replicate_add by simp
    moreover have "write_ff m op c = write_ff m1 (op + 4) (c - 1020)"
      using True m1(1) by (subst write_ff.simps) simp
    ultimately show ?thesis using m' m1(2) e(1) q(2) by metis
  next
    case False
    then show ?thesis using 1(2-4) by (subst write_ff.simps) simp
  qed
qed

text \<open>The match length in whole: the 255s written ahead and the byte that ends it are \<open>put_ext\<close>.\<close>

lemma write_ext_ok:
  assumes "op + c div 255 + 4 \<le> length m"
  shows "\<exists>m'. (do { m3 \<leftarrow> mem_write m op [255, 255, 255, 255];
          (m4, op2, rest) \<leftarrow> write_ff m3 op c;
          let op3 = op2 + rest div 255;
          m5 \<leftarrow> mem_write m4 op3 [word_of_nat (rest mod 255)];
          Some (m5, op3 + 1) }) = Some (m', op + length (put_ext c)) \<and> length m' = length m \<and>
    take (op + length (put_ext c)) m' = take op m @ put_ext c"
proof -
  let ?q = "c div 1020" and ?r = "c mod 1020"
  have q: "c div 255 = 4 * ?q + ?r div 255" "c mod 255 = ?r mod 255" "?r div 255 < 4"
  proof -
    have d: "?q = c div 255 div 4" using div_mult2_eq [of c 255 4] by simp
    have m: "?r = 255 * (c div 255 mod 4) + c mod 255" using mod_mult2_eq [of c 255 4] by simp
    have rd: "?r div 255 = c div 255 mod 4" unfolding m by simp
    show "c div 255 = 4 * ?q + ?r div 255" unfolding rd d by simp
    show "c mod 255 = ?r mod 255" unfolding m by simp
    have "?r < 1020" by simp
    then show "?r div 255 < 4" by linarith
  qed
  have r4: "[255, 255, 255, 255 :: byte] = replicate 4 255" by (simp add: numeral_eq_Suc)
  obtain m3 where m3: "mem_write m op [255, 255, 255, 255] = Some m3" "length m3 = length m"
      "take (op + 4) m3 = take op m @ replicate 4 255"
    using mem_write_take [of op "[255, 255, 255, 255]" m] assms r4 by auto
  have lo: "length (take op m) = op" "op + 4 * ?q + 4 \<le> length m3" using assms m3(2) q by auto
  obtain m4 where m4: "write_ff m3 op c = Some (m4, op + 4 * ?q, ?r)" "length m4 = length m3"
      "take (op + 4 * ?q + 4) m4 = take op m @ replicate (4 * ?q + 4) 255"
    using write_ff_ok [OF m3(3) lo] by blast
  define op3 where "op3 = op + 4 * ?q + ?r div 255"
  have "take op3 m4 = take op3 (take (op + 4 * ?q + 4) m4)" using q(3) by (simp add: op3_def min_def)
  also have "\<dots> = take op m @ replicate (c div 255) 255"
    using lo(1) q(1,3) unfolding m4(3) op3_def by (simp add: min_def)
  finally have t3: "take op3 m4 = take op m @ replicate (c div 255) 255" .
  have "op3 + length [word_of_nat (?r mod 255) :: byte] \<le> length m4" using assms m4(2) m3(2) q by (simp add: op3_def)
  then obtain m5 where m5: "mem_write m4 op3 [word_of_nat (?r mod 255)] = Some m5" "length m5 = length m4"
      "take (op3 + 1) m5 = take op3 m4 @ [word_of_nat (?r mod 255)]"
    using mem_write_take [of op3 "[word_of_nat (?r mod 255) :: byte]" m4] by auto
  have l: "op + length (put_ext c) = op3 + 1" using q(1) by (simp add: length_put_ext op3_def)
  have "take (op3 + 1) m5 = take op m @ put_ext c"
    unfolding m5(3) t3 put_ext_replicate q(2) by simp
  moreover have "length m5 = length m" using m5(2) m4(2) m3(2) by simp
  moreover have "(do { m3 \<leftarrow> mem_write m op [255, 255, 255, 255];
          (m4, op2, rest) \<leftarrow> write_ff m3 op c;
          let op3 = op2 + rest div 255;
          m5 \<leftarrow> mem_write m4 op3 [word_of_nat (rest mod 255)];
          Some (m5, op3 + 1) }) = Some (m5, op3 + 1)"
    using m5(1) by (simp add: m3(1) m4(1) Let_def flip: op3_def)
  ultimately show ?thesis unfolding l by blast
qed

lemma encode_match_ok:
  assumes tok: "token < op" and fits: "op + 8 + (mc + 240) div 255 \<le> length mem"
    and pos: "match < ip" "ip + 9 \<le> length src"
    and cnt: "LZ4_count src (ip + 4) (match + 4) (length src - 5) = Some mc"
  shows "\<exists>m. encode_match limited src ip match token mem op =
      Some (Some (m, op + 2 + length (len_ext mc), ip + mc + 4)) \<and> length m = length mem \<and>
    take (op + 2 + length (len_ext mc)) m =
      (take op mem)[token := mem ! token + word_of_nat (min 15 mc)] @ put_u16 (word_of_nat (ip - match)) @ len_ext mc"
proof -
  let ?o = "put_u16 (word_of_nat (ip - match))"
  have lo: "length ?o = 2" by simp
  obtain m1 where m1: "mem_write mem op ?o = Some m1" "length m1 = length mem" "take (op + 2) m1 = take op mem @ ?o"
    using mem_write_take [of op ?o mem] fits lo by auto
  have tk: "m1 ! token = mem ! token"
  proof -
    have "m1 ! token = take (op + 2) m1 ! token" using tok by simp
    then show ?thesis using tok fits unfolding m1(3) by (simp add: nth_append)
  qed
  define b where "b = mem ! token + word_of_nat (min 15 mc)"
  define m2 where "m2 = m1[token := b]"
  have b1: "token < op + 2" "op + 2 \<le> length m1" using tok fits m1(2) by auto
  have rd: "mem_read m1 token 1 = Some [mem ! token]" using mem_write_token(2) [OF b1] tk by simp
  have wr: "mem_write m1 token [b] = Some m2" using mem_write_token(1) [OF b1] by (simp add: m2_def)
  have l2: "length m2 = length mem" using m1(2) by (simp add: m2_def)
  have t2: "take (op + 2) m2 = (take op mem)[token := b] @ ?o"
    using tok fits unfolding m2_def take_update_swap m1(3) by (simp add: list_update_append)
  have nolim: "\<not> (limited \<and> op + 2 + (1 + LASTLITERALS) + (mc + 240) div 255 > length mem)"
    using fits by simp
  show ?thesis
  proof (cases "mc < 15")
    case True
    have e: "len_ext mc = []" using True by (simp add: len_ext_def)
    have bb: "b = mem ! token + word_of_nat mc" using True by (simp add: b_def)
    have "encode_match limited src ip match token mem op = Some (Some (m2, op + 2, ip + mc + 4))"
      using nolim True m1(1) rd wr cnt unfolding bb by (simp add: encode_match_def Let_def)
    then show ?thesis using l2 t2 e b_def by auto
  next
    case False
    have e: "len_ext mc = put_ext (mc - 15)" using False by (simp add: len_ext_def)
    have bb: "b = mem ! token + 15" using False by (simp add: b_def)
    have "(mc + 240) div 255 = (mc - 15) div 255 + 1"
    proof -
      have "mc + 240 = (mc - 15) + 255" using False by simp
      then show ?thesis by (metis div_add_self2 zero_neq_numeral)
    qed
    then have "op + 2 + (mc - 15) div 255 + 4 \<le> length m2" using fits l2 by simp
    from write_ext_ok [OF this] obtain m' where m': "(do { m3 \<leftarrow> mem_write m2 (op + 2) [255, 255, 255, 255];
          (m4, op2, rest) \<leftarrow> write_ff m3 (op + 2) (mc - 15);
          let op3 = op2 + rest div 255;
          m5 \<leftarrow> mem_write m4 op3 [word_of_nat (rest mod 255)];
          Some (m5, op3 + 1) }) = Some (m', op + 2 + length (len_ext mc))" "length m' = length m2"
        "take (op + 2 + length (len_ext mc)) m' = take (op + 2) m2 @ len_ext mc" unfolding e by blast
    have "encode_match limited src ip match token mem op = Some (Some (m', op + 2 + length (len_ext mc), ip + mc + 4))"
      using nolim False m1(1) rd wr [unfolded bb] cnt m'(1)
      by (auto simp: encode_match_def Let_def bind_eq_Some_conv)
    then show ?thesis using l2 t2 m'(2,3) b_def by auto
  qed
qed

lemma encode_match_full:
  assumes "op + 2 \<le> length mem" and "limited" and "op + 8 + (mc + 240) div 255 > length mem"
    and cnt: "LZ4_count src (ip + 4) (match + 4) (length src - 5) = Some mc"
  shows "encode_match limited src ip match token mem op = Some None"
proof -
  obtain m1 where "mem_write mem op (put_u16 (word_of_nat (ip - match))) = Some m1"
    using mem_write_take [of op "put_u16 (word_of_nat (ip - match))" mem] assms(1) by auto
  then show ?thesis using assms by (simp add: encode_match_def Let_def)
qed

text \<open>The block ends with the literals that are left.\<close>

lemma encode_last_ok:
  fixes lit :: nat
  assumes "anchor \<le> length src" and lit: "lit = length src - anchor" and fits: "op + length (enc_last 0 (drop anchor src)) \<le> length mem"
    and "\<not> (limited \<and> op + lit + 1 + (lit + 240) div 255 > length mem)"
  shows "\<exists>m. encode_last limited src anchor mem op = Some (int (op + length (enc_last 0 (drop anchor src))), m) \<and>
    length m = length mem \<and>
    take (op + length (enc_last 0 (drop anchor src))) m = take op mem @ enc_last 0 (drop anchor src)"
proof -
  let ?t = "word_of_nat (16 * min 15 lit) :: byte" and ?op1 = "op + 1 + length (len_ext lit)"
  have ll: "length (drop anchor src) = lit" by (simp add: lit)
  have el: "enc_last 0 (drop anchor src) = ?t # len_ext lit @ drop anchor src" by (simp add: enc_last_def lit)
  obtain m1 where m1: "(if lit \<ge> RUN_MASK then do {
                m \<leftarrow> mem_write mem op [0xF0]; write_len m (op + 1) (lit - RUN_MASK) }
              else do { m \<leftarrow> mem_write mem op [push_bit 4 (word_of_nat lit)]; Some (m, op + 1) }) = Some (m1, ?op1)"
      "length m1 = length mem" "take ?op1 m1 = take op mem @ ?t # len_ext lit"
    using write_lit_len_ok [of op lit mem] fits el by auto
  have f2: "?op1 + length (drop anchor src) \<le> length m1" using fits el m1(2) by simp
  have rd: "mem_read src anchor lit = Some (drop anchor src)" using assms(1) lit by (simp add: mem_read_def slice_at_def)
  obtain m2 where m2: "mem_write m1 ?op1 (drop anchor src) = Some m2" "length m2 = length m1"
      "take (?op1 + length (drop anchor src)) m2 = take ?op1 m1 @ drop anchor src"
    using mem_write_take [OF f2] by blast
  have "encode_last limited src anchor mem op = Some (int (?op1 + lit), m2)"
    unfolding encode_last_def Let_def lit [symmetric]
    using assms(4) m1(1) m2(1) rd by (simp add: copy_in_def add.commute [of 240 lit])
  moreover have e: "op + length (enc_last 0 (drop anchor src)) = ?op1 + lit" unfolding el using ll by simp
  moreover have "take (?op1 + lit) m2 = take op mem @ enc_last 0 (drop anchor src)"
    using m2(3) m1(3) ll el by simp
  ultimately show ?thesis using m2(2) m1(2) unfolding e by auto
qed

section \<open>Matches are matches\<close>

lemma catch_up_loop_ok:
  assumes "match < ip" and "anchor \<le> ip" and "ip \<le> length src" and "agree src ip match k"
  shows "\<exists>i m. catch_up_loop src anchor ip match = Some (i, m) \<and> anchor \<le> i \<and> i \<le> ip \<and> i + match = ip + m \<and>
    agree src i m (ip - i + k)"
  using assms
proof (induction src anchor ip match arbitrary: k rule: catch_up_loop.induct)
  case (1 src anchor ip match)
  show ?case
  proof (cases "anchor < ip \<and> 0 < match")
    case True
    then obtain a b where ab: "mem_byte src (ip - 1) = Some a" "mem_byte src (match - 1) = Some b"
        "a = b \<longleftrightarrow> agree src (ip - 1) (match - 1) 1"
      using byte_eq [of "ip - 1" src "match - 1"] 1(2-4) by auto
    show ?thesis
    proof (cases "a = b")
      case eq: True
      have "agree src (ip - 1) (match - 1) (1 + k)"
        by (rule agree_add) (use ab(3) eq 1(5) True in simp_all)
      then obtain i m where im: "catch_up_loop src anchor (ip - 1) (match - 1) = Some (i, m)" "anchor \<le> i" "i \<le> ip - 1"
          "i + (match - 1) = ip - 1 + m" "agree src i m (ip - 1 - i + (1 + k))"
        using 1(1) [OF True ab(1,2) eq, of "1 + k"] 1(2-4) True by fastforce
      have "ip - 1 - i + (1 + k) = ip - i + k" "i + match = ip + m" using im(3,4) True by auto
      then show ?thesis using True ab(1,2) eq im by (subst catch_up_loop.simps) auto
    next
      case False
      then show ?thesis using True ab(1,2) 1(2-5) by (subst catch_up_loop.simps) auto
    qed
  next
    case False
    then show ?thesis using 1(2-5) by (subst catch_up_loop.simps) auto
  qed
qed

lemma catch_up_ok:
  assumes "match < ip" and "anchor < ip" and "ip \<le> length src" and "agree src ip match k"
  shows "\<exists>i m. catch_up src anchor ip match = Some (i, m) \<and> anchor \<le> i \<and> i \<le> ip \<and> i + match = ip + m \<and>
    agree src i m (ip - i + k)"
proof -
  have "catch_up src anchor ip match = catch_up_loop src anchor ip match"
    using assms(2) by (subst catch_up_loop.simps) (simp add: catch_up_def)
  then show ?thesis using catch_up_loop_ok [of match ip anchor src k] assms by auto
qed

text \<open>The inputs of a table type: every position fits its entries.\<close>

definition tt_ok :: "tableType_t \<Rightarrow> nat \<Rightarrow> bool" where
  "tt_ok tt n \<longleftrightarrow> (tt = byU16 \<and> n < LZ4_64Klimit) \<or> (tt = byU32 \<and> n \<le> LZ4_MAX_INPUT_SIZE)"

lemma putIndex_ok:
  assumes "tt_ok tt n" and "p + 11 \<le> n"
  shows "LZ4_putIndexOnHash p h table tt = table(h := p)"
  using assms by (auto simp: tt_ok_def LZ4_putIndexOnHash_def LZ4_64Klimit_def LZ4_MAX_INPUT_SIZE_def)

lemma match_at_ok:
  assumes "tt_ok tt (length src)" and "ip + 12 \<le> length src" and "m < ip"
  shows "\<exists>b. match_at src tt ip m = Some b \<and> (b \<longrightarrow> ip - m \<le> 65535 \<and> agree src ip m 4)"
proof (cases "tt \<noteq> byU16 \<and> m + 65535 < ip")
  case False
  obtain a b where ab: "LZ4_read32 src m = Some a" "LZ4_read32 src ip = Some b" "a = b \<longleftrightarrow> agree src ip m 4"
    using read32_eq [of ip src m] assms(2,3) by auto
  have "ip - m \<le> 65535" using False assms(1,2) by (auto simp: tt_ok_def LZ4_64Klimit_def)
  then show ?thesis using False ab by (auto simp: match_at_def)
qed (auto simp: match_at_def)

lemma find_match_ok:
  assumes tt: "tt_ok tt (length src)" and n: "12 \<le> length src" and "fw + 11 \<le> length src" and "0 < step" and "64 \<le> nb" and "\<forall>h. table h < fw"
  shows "\<exists>f t. find_match src tt (length src - MFLIMIT + 1) fw fh step nb table = Some (f, t) \<and>
    (case f of None \<Rightarrow> True
     | Some (i, m) \<Rightarrow> fw \<le> i \<and> i + 12 \<le> length src \<and> m < i \<and> i - m \<le> 65535 \<and> agree src i m 4 \<and> (\<forall>h. t h \<le> i))"
  using assms(3-)
proof (induction "length src - fw" arbitrary: fw fh step nb table rule: less_induct)
  case less
  let ?L = "length src - MFLIMIT + 1"
  show ?case
  proof (cases "fw + step > ?L")
    case True
    then show ?thesis by (subst find_match.simps) simp
  next
    case False
    have b: "fw + step + 11 \<le> length src" using False less.prems(1) n by simp
    then obtain h1 where h1: "LZ4_hashPosition src (fw + step) tt = Some h1"
      using hashPosition_ok [of "fw + step" src tt] by auto
    let ?m = "table fh"
    have fw: "fw + 12 \<le> length src" using b less.prems(2) by simp
    have mi: "?m < fw" using less.prems(4) by simp
    obtain found where found: "match_at src tt fw ?m = Some found"
        "found \<longrightarrow> fw - ?m \<le> 65535 \<and> agree src fw ?m 4"
      using match_at_ok [OF tt fw mi] by blast
    have put: "LZ4_putIndexOnHash fw fh table tt = table(fh := fw)"
      by (rule putIndex_ok [OF tt]) (use fw in simp)
    show ?thesis
    proof (cases found)
      case True
      have "find_match src tt ?L fw fh step nb table = Some (Some (fw, ?m), table(fh := fw))"
        using False h1 found(1) True put
        by (subst find_match.simps) (simp add: LZ4_getIndexOnHash_def)
      then show ?thesis using found(2) True fw mi less.prems(4) by (auto intro: less_imp_le)
    next
      case nf: False
      have "find_match src tt ?L fw fh step nb table =
          find_match src tt ?L (fw + step) h1 (nb div 2 ^ LZ4_skipTrigger) (nb + 1) (table(fh := fw))"
        using False h1 found(1) nf put
        by (subst find_match.simps) (simp add: LZ4_getIndexOnHash_def)
      moreover have "\<forall>h. (table(fh := fw)) h < fw + step" using less.prems(2,4) by (auto intro: less_trans)
      moreover have "0 < nb div 2 ^ LZ4_skipTrigger" using less.prems(3) by (simp add: div_greater_zero_iff)
      moreover have "length src - (fw + step) < length src - fw" using b less.prems(2) by simp
      moreover have "fw + step \<le> i" if "fw + step \<le> i" for i using that .
      ultimately obtain f t where "find_match src tt ?L fw fh step nb table = Some (f, t)"
          "case f of None \<Rightarrow> True
           | Some (i, m) \<Rightarrow> fw + step \<le> i \<and> i + 12 \<le> length src \<and> m < i \<and> i - m \<le> 65535 \<and> agree src i m 4 \<and> (\<forall>h. t h \<le> i)"
        using less.hyps [of "fw + step" "nb div 2 ^ LZ4_skipTrigger" "nb + 1" "table(fh := fw)" h1] b less.prems(3)
        by auto
      then show ?thesis by (cases f) auto
    qed
  qed
qed

section \<open>What has been written\<close>

text \<open>The sequences written so far decode to the input up to the anchor and keep the rules.\<close>

definition written :: "bytes \<Rightarrow> bytes \<Rightarrow> lz_seq list \<Rightarrow> nat \<Rightarrow> bool" where
  "written src out ss a \<longleftrightarrow>
     out = concat (map enc_seq ss) \<and> foldl apply_seq [] ss = take a src \<and> rules_ok (length src) 0 ss \<and> a \<le> length src"

lemma rules_ok_snoc: "rules_ok d p (ss @ [s]) \<longleftrightarrow> rules_ok d p ss \<and> rules_ok d (p + seqs_out ss) [s]"
  by (induction d p ss rule: rules_ok.induct) (auto simp: seqs_out_def add.assoc)

lemma written_out: "written src out ss a \<Longrightarrow> seqs_out ss = a"
  using length_apply_seqs [of "[]" ss] by (auto simp: written_def min_def split: if_splits)

text \<open>The size of a sequence against what it stands for, in 255ths.\<close>

lemma ext_255: "255 * length (len_ext n) \<le> (if n < 15 then 0 else n + 240)"
proof (cases "n < 15")
  case False
  have "255 * ((n - 15) div 255) \<le> n - 15" by simp
  then have "15 + 255 * ((n - 15) div 255) \<le> n" using False by linarith
  then show ?thesis by (simp add: length_len_ext)
qed (simp add: length_len_ext)

lemma size_seqs: "rules_ok d p ss \<Longrightarrow> 255 * length (concat (map enc_seq ss)) \<le> 256 * seqs_out ss"
proof (induction d p ss rule: rules_ok.induct)
  case (2 d p l off n ss)
  have "255 * length (enc_seq (l, off, n)) \<le> 256 * (length l + n)"
    using 2(2) ext_255 [of "length l"] ext_255 [of "n - 4"]
    by (simp add: enc_seq_def split: if_splits)
  then show ?case using 2 by (simp add: seqs_out_def)
qed (simp add: seqs_out_def)

lemma written_size: "written src out ss a \<Longrightarrow> 255 * length out \<le> 256 * a"
  using size_seqs written_out by (metis written_def)

lemma apply_match:
  assumes "a + length l = ip" and "l = slice_at a (length l) src" and "match < ip" and "agree src ip match n" and "ip + n \<le> length src"
  shows "apply_seq (take a src) (l, ip - match, n) = take (ip + n) src"
proof -
  have t: "take a src @ l = take ip src"
    using assms(1,2) by (metis slice_at_def take_add)
  have "repeats src ip (ip - match) (ip + n)"
    unfolding repeats_def
  proof (intro allI impI)
    fix j assume j: "ip \<le> j" "j < ip + n"
    have "j - ip < n" using j by linarith
    then have "src ! (ip + (j - ip)) = src ! (match + (j - ip))" using assms(4) unfolding agree_def by blast
    then have "src ! j = src ! (match + (j - ip))" using j(1) by simp
    moreover have "match + (j - ip) = j - (ip - match)" using j assms(3) by simp
    ultimately show "src ! j = (if ip - match = 0 then 0 else src ! (j - (ip - match)))" using j assms(3) by simp
  qed
  then show ?thesis using lz_copy_repeats [of src ip "ip - match" n] assms(5) t by (simp add: apply_seq_def)
qed

lemma written_match:
  assumes w: "written src out ss a" and l: "a + length l = ip" "l = slice_at a (length l) src"
    and m: "match < ip" "ip - match \<le> 65535" "agree src ip match (mc + 4)"
    and e: "ip + 12 \<le> length src" "ip + mc + 9 \<le> length src"
  shows "written src (out @ enc_seq (l, ip - match, mc + 4)) (ss @ [(l, ip - match, mc + 4)]) (ip + mc + 4)"
proof -
  have "apply_seq (take a src) (l, ip - match, mc + 4) = take (ip + (mc + 4)) src"
    by (rule apply_match [OF l m(1,3)]) (use e(2) in simp)
  moreover have "rules_ok (length src) (seqs_out ss) [(l, ip - match, mc + 4)]"
    using written_out [OF w] l(1) m(1,2) e by simp
  ultimately show ?thesis using w e(2) by (simp add: written_def rules_ok_snoc add.assoc)
qed

section \<open>The invariant of the main loop\<close>

definition roomy :: "bool \<Rightarrow> nat \<Rightarrow> nat \<Rightarrow> bool" where
  "roomy limited n cap \<longleftrightarrow> limited \<or> n + n div 255 + 16 \<le> cap"

text \<open>Before a match is written: its token and literals are there, and the match reaches past the last indexed position.\<close>

definition pending :: "bytes \<Rightarrow> nat \<Rightarrow> nat \<Rightarrow> nat \<Rightarrow> htable \<Rightarrow> bytes \<Rightarrow> nat \<Rightarrow> bool" where
  "pending src ip match token table mem op \<longleftrightarrow>
     (\<exists>out ss a l. written src out ss a \<and> a + length l = ip \<and> l = slice_at a (length l) src \<and> length out = token \<and>
        take op mem = out @ word_of_nat (16 * min 15 (length l)) # len_ext (length l) @ l) \<and>
     op + 2 \<le> length mem \<and> match < ip \<and> ip - match \<le> 65535 \<and>
     (\<exists>f. ip \<le> f \<and> f + 12 \<le> length src \<and> agree src ip match (f + 4 - ip) \<and> (\<forall>h. table h \<le> f))"

fun cinv :: "bytes \<Rightarrow> nat \<Rightarrow> cstate \<Rightarrow> bool" where
  "cinv src cap (Search ip forwardH anchor table mem op) \<longleftrightarrow>
     length mem = cap \<and> op \<le> cap \<and> (\<exists>ss. written src (take op mem) ss anchor) \<and> anchor < ip \<and>
     ip + 11 \<le> length src \<and> (\<forall>h. table h < ip)"
| "cinv src cap (NextMatch ip match token table mem op) \<longleftrightarrow>
     length mem = cap \<and> pending src ip match token table mem op"
| "cinv src cap (LastLiterals anchor mem op) \<longleftrightarrow>
     length mem = cap \<and> op \<le> cap \<and> (\<exists>ss. written src (take op mem) ss anchor)"

definition cresult :: "bytes \<Rightarrow> nat \<Rightarrow> bool \<Rightarrow> int \<times> bytes \<Rightarrow> bool" where
  "cresult src cap limited v \<longleftrightarrow> (case v of (r, m) \<Rightarrow> length m = cap \<and>
     (r = 0 \<and> limited \<or>
      (\<exists>ss l. 0 < r \<and> r \<le> int cap \<and> take (nat r) m = lz_block ss 0 l \<and> lz_decoded ss l = src \<and> rules_ok (length src) 0 ss)))"

fun cmeasure :: "nat \<Rightarrow> cstate \<Rightarrow> nat" where
  "cmeasure n (Search ip forwardH anchor table mem op) = 3 * (n - anchor) + 2"
| "cmeasure n (NextMatch ip match token table mem op) = 3 * (n - ip) + 1"
| "cmeasure n (LastLiterals anchor mem op) = 0"

lemma length_enc_last: "length (enc_last low l) = 1 + length (len_ext (length l)) + length l"
  by (simp add: enc_last_def)

lemma step_last:
  assumes inv: "cinv src cap (LastLiterals anchor mem op)" and "roomy limited (length src) cap"
  shows "\<exists>v. compress_step limited src tt acc (LastLiterals anchor mem op) = Some (Inr v) \<and> cresult src cap limited v"
proof -
  obtain ss where c: "length mem = cap" "op \<le> cap" "written src (take op mem) ss anchor" using inv by auto
  have a: "anchor \<le> length src" using c(3) by (simp add: written_def)
  define lit where "lit = length src - anchor"
  let ?e = "enc_last 0 (drop anchor src)"
  have le: "length ?e = 1 + length (len_ext lit) + lit" by (simp add: length_enc_last lit_def)
  show ?thesis
  proof (cases "limited \<and> op + lit + 1 + (lit + 240) div 255 > length mem")
    case True
    then have "encode_last limited src anchor mem op = Some (0, mem)"
      by (simp add: encode_last_def lit_def [symmetric] add.commute [of 240 lit])
    then show ?thesis using True c(1) by (auto simp: compress_step_def cresult_def)
  next
    case False
    have fits: "op + length ?e \<le> length mem"
    proof (cases limited)
      case True
      then show ?thesis using False le ext_255 [of lit] by (auto simp: length_len_ext split: if_splits)
    next
      case nl: False
      have "255 * op \<le> 256 * anchor" using written_size [OF c(3)] c(1,2) by simp
      then show ?thesis using nl assms(2) c(1) le ext_255 [of lit] a
        by (auto simp: roomy_def lit_def split: if_splits)
    qed
    obtain m where m: "encode_last limited src anchor mem op = Some (int (op + length ?e), m)" "length m = length mem"
        "take (op + length ?e) m = take op mem @ ?e"
      using encode_last_ok [OF a lit_def fits False] by blast
    have "take (op + length ?e) m = lz_block ss 0 (drop anchor src)" "lz_decoded ss (drop anchor src) = src"
        "rules_ok (length src) 0 ss"
      using m(3) c(3) by (simp_all add: written_def lz_block_def lz_decoded_def)
    moreover have "0 < op + length ?e" using le by simp
    ultimately have "cresult src cap limited (int (op + length ?e), m)"
      using m(2) c(1) fits unfolding cresult_def by (auto simp del: of_nat_add)
    then show ?thesis using m(1) by (simp add: compress_step_def del: of_nat_add)
  qed
qed

lemma after_match_ok:
  assumes tt: "tt_ok tt (length src)" and op: "op + 6 \<le> length mem" and w: "written src (take op mem) ss ip"
    and f: "\<forall>h. table h + 4 \<le> ip" and ip: "4 \<le> ip" "ip \<le> length src"
  shows "\<exists>st. after_match src tt ip table mem op = Some st \<and> cinv src (length mem) st \<and>
    cmeasure (length src) st \<le> 3 * (length src - ip) + 2"
proof (cases "ip + MFLIMIT \<ge> length src + 1")
  case True
  then show ?thesis using op w by (auto simp: after_match_def)
next
  case False
  then have e: "ip + 12 \<le> length src" by simp
  have "ip - 2 + 8 \<le> length src" "ip + 8 \<le> length src" "ip + 1 + 8 \<le> length src" using e by linarith+
  then obtain h2 h h3 where h: "LZ4_hashPosition src (ip - 2) tt = Some h2" "LZ4_hashPosition src ip tt = Some h"
      "LZ4_hashPosition src (ip + 1) tt = Some h3"
    using hashPosition_ok [of _ src tt] by metis
  define t1 where "t1 = table(h2 := ip - 2)"
  have p1: "LZ4_putIndexOnHash (ip - 2) h2 table tt = t1" unfolding t1_def by (rule putIndex_ok [OF tt]) (use e in simp)
  have p2: "LZ4_putIndexOnHash ip h t1 tt = t1(h := ip)" by (rule putIndex_ok [OF tt]) (use e in simp)
  have t1: "t1 x < ip" for x
    using f [rule_format, of x] ip(1) by (auto simp: t1_def)
  then have t2: "(t1(h := ip)) x \<le> ip" for x by (auto intro: less_imp_le)
  obtain again where ag: "match_at src tt ip (t1 h) = Some again"
      "again \<longrightarrow> ip - t1 h \<le> 65535 \<and> agree src ip (t1 h) 4"
    using match_at_ok [OF tt e t1] by blast
  show ?thesis
  proof (cases again)
    case True
    obtain m where m: "mem_write mem op [0] = Some m" "length m = length mem" "take (op + 1) m = take op mem @ [0]"
      using mem_write_take [of op "[0]" mem] op by auto
    have st: "after_match src tt ip table mem op = Some (NextMatch ip (t1 h) op (t1(h := ip)) m (op + 1))"
      using False h ag(1) True m(1) by (simp add: after_match_def Let_def p1 p2 LZ4_getIndexOnHash_def)
    have "pending src ip (t1 h) op (t1(h := ip)) m (op + 1)"
      unfolding pending_def
    proof (intro conjI)
      show "\<exists>out ss a l. written src out ss a \<and> a + length l = ip \<and> l = slice_at a (length l) src \<and> length out = op \<and>
          take (op + 1) m = out @ word_of_nat (16 * min 15 (length l)) # len_ext (length l) @ l"
        by (rule exI [of _ "take op mem"], rule exI [of _ ss], rule exI [of _ ip], rule exI [of _ "[]"])
          (use w op m(3) in \<open>simp add: len_ext_def slice_at_def\<close>)
      show "\<exists>f. ip \<le> f \<and> f + 12 \<le> length src \<and> agree src ip (t1 h) (f + 4 - ip) \<and> (\<forall>x. (t1(h := ip)) x \<le> f)"
        by (rule exI [of _ ip]) (use e ag(2) True t2 in auto)
    qed (use op m(2) t1 ag(2) True in auto)
    then show ?thesis using st m(2) by auto
  next
    case False
    have st: "after_match src tt ip table mem op = Some (Search (ip + 1) h3 ip (t1(h := ip)) mem op)"
      using \<open>\<not> ip + MFLIMIT \<ge> length src + 1\<close> h ag(1) False
      by (simp add: after_match_def Let_def p1 p2 LZ4_getIndexOnHash_def)
    have "(t1(h := ip)) x < ip + 1" for x using t2 [of x] by simp
    then show ?thesis using st e w op by (auto simp del: fun_upd_apply)
  qed
qed

lemma step_match:
  assumes tt: "tt_ok tt (length src)" and inv: "cinv src cap (NextMatch ip match token table mem op)"
    and room: "roomy limited (length src) cap"
  shows "\<exists>r. compress_step limited src tt acc (NextMatch ip match token table mem op) = Some r \<and>
    (case r of Inl st \<Rightarrow> cinv src cap st \<and> cmeasure (length src) st < cmeasure (length src) (NextMatch ip match token table mem op)
     | Inr v \<Rightarrow> cresult src cap limited v)"
proof -
  obtain out ss a l f where p: "length mem = cap" "written src out ss a" "a + length l = ip" "l = slice_at a (length l) src"
      "length out = token" "take op mem = out @ word_of_nat (16 * min 15 (length l)) # len_ext (length l) @ l"
      "op + 2 \<le> length mem" "match < ip" "ip - match \<le> 65535"
      "ip \<le> f" "f + 12 \<le> length src" "agree src ip match (f + 4 - ip)" "\<forall>h. table h \<le> f"
    using inv unfolding cinv.simps pending_def by blast
  have "match + 4 \<le> ip + 4" "ip + 4 \<le> length src - 5" "length src - 5 \<le> length src" using p(8,10,11) by auto
  from LZ4_count_ok [OF this] obtain mc where mc: "LZ4_count src (ip + 4) (match + 4) (length src - 5) = Some mc"
      "exact_count src (ip + 4) (match + 4) (length src - 5) mc" by blast
  have opl: "op = token + 1 + length (len_ext (length l)) + length l"
  proof -
    have "length (take op mem) = op" using p(7) by simp
    then show ?thesis unfolding p(6) using p(5) by simp
  qed
  have "ip + 4 + mc \<le> length src - 5" using mc(2) by (simp add: exact_count_def)
  then have lim: "ip + mc + 9 \<le> length src" using p(10,11) by linarith
  have "agree src ip match 4" using p(10,12) by (auto intro: agree_le)
  then have "agree src ip match (4 + mc)" using agree_add mc(2) unfolding exact_count_def by blast
  then have ag: "agree src ip match (mc + 4)" by (simp add: add.commute)
  have far: "f \<le> ip + mc"
  proof (rule ccontr)
    assume "\<not> f \<le> ip + mc"
    then have n: "ip + mc < f" by simp
    then have "mc + 4 < f + 4 - ip" by simp
    then have "src ! (ip + (mc + 4)) = src ! (match + (mc + 4))" using p(12) unfolding agree_def by blast
    moreover have "ip + 4 + mc < length src - 5" using n p(11) by simp
    ultimately show False using mc(2) by (simp add: exact_count_def algebra_simps)
  qed
  have ip12: "ip + 12 \<le> length src" using p(10,11) by simp
  show ?thesis
  proof (cases "op + 8 + (mc + 240) div 255 \<le> length mem")
    case True
    let ?op = "op + 2 + length (len_ext mc)"
    have "token < op" "ip + 9 \<le> length src" using opl ip12 by auto
    from encode_match_ok [OF this(1) True p(8) this(2) mc(1)]
    obtain m where m: "encode_match limited src ip match token mem op = Some (Some (m, ?op, ip + mc + 4))" "length m = length mem"
        "take ?op m = (take op mem)[token := mem ! token + word_of_nat (min 15 mc)] @ put_u16 (word_of_nat (ip - match)) @ len_ext mc"
      by blast
    have mt: "mem ! token = word_of_nat (16 * min 15 (length l))"
    proof -
      have "mem ! token = take op mem ! token" using opl by simp
      then show ?thesis unfolding p(6) p(5) [symmetric] by (simp only: nth_append_length)
    qed
    have "take ?op m = out @ enc_seq (l, ip - match, mc + 4)"
      unfolding m(3) mt p(6) using p(5) by (simp add: enc_seq_def list_update_append)
    then have w: "written src (take ?op m) (ss @ [(l, ip - match, mc + 4)]) (ip + mc + 4)"
      using written_match [OF p(2,3,4,8,9) ag ip12 lim] by simp
    have o6: "?op + 6 \<le> length m" using True m(2) ext_255 [of mc] by (auto split: if_splits)
    have "\<forall>h. table h + 4 \<le> ip + mc + 4" using p(13) far by (auto intro: order_trans)
    then obtain st where st: "after_match src tt (ip + mc + 4) table m ?op = Some st" "cinv src (length m) st"
        "cmeasure (length src) st \<le> 3 * (length src - (ip + mc + 4)) + 2"
      using after_match_ok [OF tt o6 w] lim by auto
    have "compress_step limited src tt acc (NextMatch ip match token table mem op) = Some (Inl st)"
      using m(1) st(1) by (simp add: compress_step_def)
    moreover have "cmeasure (length src) st < cmeasure (length src) (NextMatch ip match token table mem op)"
      using st(3) lim by simp
    ultimately show ?thesis using st(2) m(2) p(1) by auto
  next
    case False
    have limited
    proof (rule ccontr)
      assume "\<not> limited"
      then have n: "length src + length src div 255 + 16 \<le> length mem" using room p(1) by (simp add: roomy_def)
      have "255 * token \<le> 256 * a" using written_size [OF p(2)] p(5) by simp
      then show False using n False opl p(3) ext_255 [of "length l"] lim by (auto split: if_splits)
    qed
    then have "encode_match limited src ip match token mem op = Some None"
      using encode_match_full [OF p(7) _ _ mc(1)] False by auto
    then have "compress_step limited src tt acc (NextMatch ip match token table mem op) = Some (Inr (0, mem))"
      by (simp add: compress_step_def)
    then show ?thesis using \<open>limited\<close> p(1) by (auto simp: cresult_def)
  qed
qed

lemma step_search:
  assumes tt: "tt_ok tt (length src)" and n: "13 \<le> length src" and acc: "0 < acc"
    and inv: "cinv src cap (Search ip forwardH anchor table mem op)" and room: "roomy limited (length src) cap"
  shows "\<exists>r. compress_step limited src tt acc (Search ip forwardH anchor table mem op) = Some r \<and>
    (case r of Inl st \<Rightarrow> cinv src cap st \<and> cmeasure (length src) st < cmeasure (length src) (Search ip forwardH anchor table mem op)
     | Inr v \<Rightarrow> cresult src cap limited v)"
proof -
  obtain ss where c: "length mem = cap" "op \<le> cap" "written src (take op mem) ss anchor" "anchor < ip" "ip + 11 \<le> length src"
      "\<forall>h. table h < ip" using inv by auto
  have n12: "12 \<le> length src" and nb: "64 \<le> acc * 2 ^ LZ4_skipTrigger" using n acc by auto
  from find_match_ok [OF tt n12 c(5) zero_less_one nb c(6), of forwardH]
  obtain fnd t where ft: "find_match src tt (length src - MFLIMIT + 1) ip forwardH 1 (acc * 2 ^ LZ4_skipTrigger) table = Some (fnd, t)"
      "case fnd of None \<Rightarrow> True
       | Some (i, m) \<Rightarrow> ip \<le> i \<and> i + 12 \<le> length src \<and> m < i \<and> i - m \<le> 65535 \<and> agree src i m 4 \<and> (\<forall>h. t h \<le> i)" by blast
  show ?thesis
  proof (cases fnd)
    case None
    then have "compress_step limited src tt acc (Search ip forwardH anchor table mem op) = Some (Inl (LastLiterals anchor mem op))"
      using ft(1) by (simp add: compress_step_def)
    then show ?thesis using c by auto
  next
    case (Some im)
    then obtain i0 m0 where im: "fnd = Some (i0, m0)" by (cases im) auto
    then have f: "ip \<le> i0" "i0 + 12 \<le> length src" "m0 < i0" "i0 - m0 \<le> 65535" "agree src i0 m0 4" "\<forall>h. t h \<le> i0"
      using ft(2) by auto
    have "anchor < i0" "i0 \<le> length src" using f(1,2) c(4) by auto
    from catch_up_ok [OF f(3) this f(5)]
    obtain i m where cu: "catch_up src anchor i0 m0 = Some (i, m)" "anchor \<le> i" "i \<le> i0" "i + m0 = i0 + m" "agree src i m (i0 - i + 4)"
      by blast
    define lit where "lit = i - anchor"
    have li: "anchor + lit = i" "i + 12 \<le> length src" using cu(2,3) f(2) by (auto simp: lit_def)
    show ?thesis
    proof (cases "limited \<and> op + 1 + lit + 8 + lit div 255 > length mem")
      case True
      then have "encode_literals limited src anchor i mem op = Some None"
        by (simp add: encode_literals_def lit_def)
      then have "compress_step limited src tt acc (Search ip forwardH anchor table mem op) = Some (Inr (0, mem))"
        using ft(1) cu(1) by (simp add: compress_step_def im)
      then show ?thesis using True c(1) by (simp add: cresult_def)
    next
      case False
      have fits: "op + 1 + length (len_ext lit) + max lit 1 + 7 \<le> length mem"
      proof (cases limited)
        case True
        then have "op + 1 + lit + 8 + lit div 255 \<le> length mem" using False by simp
        moreover have "(lit - 15) div 255 \<le> lit div 255" by (rule div_le_mono) simp
        ultimately show ?thesis by (auto simp: length_len_ext)
      next
        case nl: False
        have "255 * op \<le> 256 * anchor" using written_size [OF c(3)] c(1,2) by simp
        then show ?thesis using nl room c(1) ext_255 [of lit] li
          by (auto simp: roomy_def split: if_splits)
      qed
      let ?op = "op + 1 + length (len_ext lit) + lit"
      obtain m' where m': "encode_literals limited src anchor i mem op = Some (Some (m', ?op))" "length m' = length mem"
          "take ?op m' = take op mem @ word_of_nat (16 * min 15 lit) # len_ext lit @ slice_at anchor lit src"
        using encode_literals_ok [OF cu(2) li(2) lit_def fits False] by blast
      have l: "length (slice_at anchor lit src) = lit" using li by simp
      have "pending src i m op t m' ?op"
        unfolding pending_def
      proof (intro conjI)
        show "\<exists>out ss a l. written src out ss a \<and> a + length l = i \<and> l = slice_at a (length l) src \<and> length out = op \<and>
            take ?op m' = out @ word_of_nat (16 * min 15 (length l)) # len_ext (length l) @ l"
          by (rule exI [of _ "take op mem"], rule exI [of _ ss], rule exI [of _ anchor], rule exI [of _ "slice_at anchor lit src"])
            (use c(1-3) li(1) m'(3) l in simp)
        show "?op + 2 \<le> length m'" using fits m'(2) by simp
        show "m < i" "i - m \<le> 65535" using cu(3,4) f(3,4) by auto
        show "\<exists>f. i \<le> f \<and> f + 12 \<le> length src \<and> agree src i m (f + 4 - i) \<and> (\<forall>h. t h \<le> f)"
          by (rule exI [of _ i0]) (use cu(3,5) f(2,6) in simp)
      qed
      moreover have "compress_step limited src tt acc (Search ip forwardH anchor table mem op) = Some (Inl (NextMatch i m op t m' ?op))"
        using ft(1) cu(1) m'(1) by (simp add: compress_step_def im)
      moreover have "3 * (length src - i) + 1 < 3 * (length src - anchor) + 2" using cu(2) by simp
      ultimately show ?thesis using m'(2) c(1) by simp
    qed
  qed
qed

lemma compress_run_ok:
  assumes tt: "tt_ok tt (length src)" and n: "13 \<le> length src" and acc: "0 < acc" and room: "roomy limited (length src) cap"
  shows "cinv src cap st \<Longrightarrow> \<exists>v. compress_run limited src tt acc st = Some v \<and> cresult src cap limited v"
proof (induction "cmeasure (length src) st" arbitrary: st rule: less_induct)
  case less
  have "\<exists>r. compress_step limited src tt acc st = Some r \<and>
      (case r of Inl st1 \<Rightarrow> cinv src cap st1 \<and> cmeasure (length src) st1 < cmeasure (length src) st
       | Inr v \<Rightarrow> cresult src cap limited v)"
  proof (cases st)
    case (Search ip fh anchor table mem op)
    then show ?thesis using step_search [OF tt n acc _ room] less.prems by blast
  next
    case (NextMatch ip match token table mem op)
    then show ?thesis using step_match [OF tt _ room] less.prems by blast
  next
    case (LastLiterals anchor mem op)
    then obtain v where "compress_step limited src tt acc st = Some (Inr v)" "cresult src cap limited v"
      using step_last [OF _ room] less.prems by blast
    then show ?thesis by auto
  qed
  then obtain r where r: "compress_step limited src tt acc st = Some r"
      "case r of Inl st1 \<Rightarrow> cinv src cap st1 \<and> cmeasure (length src) st1 < cmeasure (length src) st
       | Inr v \<Rightarrow> cresult src cap limited v" by blast
  show ?case
  proof (cases r)
    case (Inl st1)
    then show ?thesis using r less.hyps [of st1] by (subst compress_run.simps) simp
  next
    case (Inr v)
    then show ?thesis using r by (subst compress_run.simps) simp
  qed
qed

lemma generic_validated_ok:
  assumes tt: "tt_ok tt (length src)" and acc: "0 < acc" and room: "roomy limited (length src) (length mem)"
  shows "\<exists>v. LZ4_compress_generic_validated limited src mem tt acc = Some v \<and> cresult src (length mem) limited v"
proof (cases "length src < LZ4_minLength")
  case True
  have w: "cinv src (length mem) (LastLiterals 0 mem 0)"
    by (auto simp: written_def intro: exI [of _ "[]"])
  obtain v where "compress_step limited src tt acc (LastLiterals 0 mem 0) = Some (Inr v)" "cresult src (length mem) limited v"
    using step_last [OF w room] by blast
  then show ?thesis using True by (auto simp: LZ4_compress_generic_validated_def compress_step_def)
next
  case False
  then have n: "13 \<le> length src" by simp
  then have "0 + 8 \<le> length src" "1 + 8 \<le> length src" by auto
  then obtain h h1 where h: "LZ4_hashPosition src 0 tt = Some h" "LZ4_hashPosition src 1 tt = Some h1"
    using hashPosition_ok [of _ src tt] by metis
  have p: "LZ4_putIndexOnHash 0 h (\<lambda>_. 0) tt = (\<lambda>_. 0)"
    using putIndex_ok [OF tt, of 0 h "\<lambda>_. 0"] n by auto
  have "cinv src (length mem) (Search 1 h1 0 (\<lambda>_. 0) mem 0)"
    using n by (auto simp: written_def intro: exI [of _ "[]"])
  from compress_run_ok [OF tt n acc room this] show ?thesis
    using False h p by (simp add: LZ4_compress_generic_validated_def)
qed

section \<open>The whole compressor\<close>

lemma compress_fast_ok:
  "\<exists>v. LZ4_compress_fast src dst acc = Some v \<and>
     cresult src (length dst) (length src > LZ4_MAX_INPUT_SIZE \<or> length dst < LZ4_compressBound (length src)) v"
proof -
  define a where "a = nat (if acc < 1 then 1 else if acc > LZ4_ACCELERATION_MAX then LZ4_ACCELERATION_MAX else acc)"
  define tt where "tt = (if length src < LZ4_64Klimit then byU16 else byU32)"
  define full where "full \<longleftrightarrow> length dst \<ge> LZ4_compressBound (length src)"
  have a: "0 < a" by (simp add: a_def LZ4_ACCELERATION_MAX_def)
  have e: "LZ4_compress_fast src dst acc =
      LZ4_compress_generic (if full then notLimited else limitedOutput) src dst tt a"
    by (simp add: LZ4_compress_fast_def Let_def a_def tt_def full_def)
  show ?thesis
  proof (cases "length src > LZ4_MAX_INPUT_SIZE")
    case True
    then show ?thesis by (simp add: e LZ4_compress_generic_def cresult_def)
  next
    case le: False
    then have lim: "length dst < LZ4_compressBound (length src) \<longleftrightarrow> \<not> full" by (auto simp: full_def)
    have tt: "tt_ok tt (length src)" using le by (simp add: tt_def tt_ok_def)
    have room: "roomy (\<not> full) (length src) (length dst)"
      using le by (auto simp: roomy_def full_def LZ4_compressBound_def)
    show ?thesis
    proof (cases "src = []")
      case True
      have z: "lz_block [] 0 [] = [0]" "lz_decoded [] [] = []" by (simp_all add: lz_block_def enc_last_def len_ext_def lz_decoded_def)
      show ?thesis
      proof (cases "full \<or> dst \<noteq> []")
        case True
        then have "0 + length [0 :: byte] \<le> length dst"
          using \<open>src = []\<close> by (cases dst) (auto simp: full_def LZ4_compressBound_def LZ4_MAX_INPUT_SIZE_def)
        then obtain m where m: "mem_write dst 0 [0] = Some m" "length m = length dst" "take (0 + length [0 :: byte]) m = take 0 dst @ [0]"
          using mem_write_take by blast
        have "LZ4_compress_fast src dst acc = Some (1, m)"
          using True m(1) \<open>src = []\<close> le unfolding e LZ4_compress_generic_def by auto
        moreover have "cresult src (length dst) (\<not> full) (1, m)"
          unfolding cresult_def prod.case
        proof (intro conjI disjI2)
          show "\<exists>ss l. 0 < (1 :: int) \<and> 1 \<le> int (length dst) \<and> take (nat 1) m = lz_block ss 0 l \<and> lz_decoded ss l = src \<and>
              rules_ok (length src) 0 ss"
            by (rule exI [of _ "[]"], rule exI [of _ "[]"]) (use z m \<open>src = []\<close> \<open>0 + length [0 :: byte] \<le> length dst\<close> in simp)
        qed (rule m(2))
        ultimately show ?thesis using lim le by auto
      next
        case False
        then have "LZ4_compress_fast src dst acc = Some (0, dst)"
          using \<open>src = []\<close> unfolding e LZ4_compress_generic_def by simp
        then show ?thesis using False lim by (simp add: cresult_def)
      qed
    next
      case False
      then have "LZ4_compress_fast src dst acc = LZ4_compress_generic_validated (\<not> full) src dst tt a"
        using le by (simp add: e LZ4_compress_generic_def)
      then show ?thesis using generic_validated_ok [OF tt a room] lim le by auto
    qed
  qed
qed

text \<open>A block of strict sequences is never longer than the bound.\<close>

lemma lz_block_bound:
  assumes "rules_ok (length (lz_decoded ss l)) 0 ss"
  shows "length (lz_block ss 0 l) \<le> length (lz_decoded ss l) + length (lz_decoded ss l) div 255 + 16"
proof -
  let ?a = "seqs_out ss" and ?n = "length (lz_decoded ss l)"
  have n: "?n = ?a + length l" by (simp add: lz_decoded_def length_apply_seqs)
  have "255 * length (concat (map enc_seq ss)) \<le> 256 * ?a" by (rule size_seqs [OF assms])
  moreover have "length (lz_block ss 0 l) = length (concat (map enc_seq ss)) + (1 + length (len_ext (length l)) + length l)"
    by (simp add: lz_block_def length_enc_last)
  moreover have "255 * length (len_ext (length l)) \<le> length l + 240" using ext_255 [of "length l"] by (simp split: if_splits)
  ultimately have "255 * length (lz_block ss 0 l) \<le> 256 * ?n + 495" using n by simp
  moreover have "?n = 255 * (?n div 255) + ?n mod 255" "?n mod 255 < 255" by simp_all
  ultimately show ?thesis by linarith
qed

text \<open>C9. \<open>LZ4_compress_fast\<close> always ends without leaving its buffers, for every input, every output
  capacity and every acceleration. What it returns is 0, or the length of a block of strict sequences
  (no match starts in the last 12 bytes or reaches the last 5) that decodes to the input, at the start of
  the output; and it is never 0 for a supported input when the capacity is \<open>LZ4_compressBound\<close>.\<close>

theorem LZ4_compress_fast_total:
  "\<exists>r m. LZ4_compress_fast src dst acc = Some (r, m) \<and> length m = length dst \<and>
     (r = 0 \<and> (length src > LZ4_MAX_INPUT_SIZE \<or> length dst < LZ4_compressBound (length src)) \<or>
      (\<exists>ss l. 0 < r \<and> r \<le> int (length dst) \<and> take (nat r) m = lz_block ss 0 l \<and> lz_decoded ss l = src \<and>
        rules_ok (length src) 0 ss))"
proof -
  obtain v where "LZ4_compress_fast src dst acc = Some v"
      "cresult src (length dst) (length src > LZ4_MAX_INPUT_SIZE \<or> length dst < LZ4_compressBound (length src)) v"
    using compress_fast_ok by blast
  then show ?thesis by (cases v) (simp add: cresult_def)
qed

text \<open>C28. What \<open>LZ4_compress_fast\<close> returns is at most \<open>LZ4_compressBound\<close> of the input's length, whatever
  room the output buffer has.\<close>

theorem LZ4_compress_fast_bound:
  assumes "LZ4_compress_fast src dst acc = Some (r, m)" and "length src \<le> LZ4_MAX_INPUT_SIZE"
  shows "0 \<le> r \<and> r \<le> int (LZ4_compressBound (length src))"
proof -
  have c: "cresult src (length dst) (length src > LZ4_MAX_INPUT_SIZE \<or> length dst < LZ4_compressBound (length src)) (r, m)"
    using compress_fast_ok [of src dst acc] assms(1) by auto
  then consider "r = 0" | ss l where "0 < r" "r \<le> int (length m)" "take (nat r) m = lz_block ss 0 l" "lz_decoded ss l = src"
      "rules_ok (length src) 0 ss"
    by (auto simp: cresult_def)
  then show ?thesis
  proof cases
    case (2 ss l)
    have "nat r = length (take (nat r) m)" using 2(1,2) by simp
    also have "\<dots> \<le> LZ4_compressBound (length src)"
      using lz_block_bound [of ss l] 2(3-5) assms(2) by (simp add: LZ4_compressBound_def)
    finally show ?thesis using 2(1) by simp
  qed simp
qed

lemma LZ4_compress_fast_bound_witness:
  "\<exists>r m. LZ4_compress_fast [1, 2, 3] (replicate 19 0) 1 = Some (r, m) \<and> 0 \<le> r \<and> r \<le> 19"
proof -
  obtain r m where rm: "LZ4_compress_fast [1, 2, 3] (replicate 19 0) 1 = Some (r, m)"
    using compress_fast_ok [of "[1, 2, 3]" "replicate 19 0" 1] by auto
  then have "0 \<le> r \<and> r \<le> int (LZ4_compressBound (length [1 :: byte, 2, 3]))"
    by (rule LZ4_compress_fast_bound) (simp add: LZ4_MAX_INPUT_SIZE_def)
  then show ?thesis using rm by (simp add: LZ4_compressBound_def LZ4_MAX_INPUT_SIZE_def)
qed

text \<open>\<open>LZ4_count\<close>, which compares eight bytes at a time, then four, two and one, and reads the first
  difference out of the exclusive or of two words, computes the length of the longest common prefix of
  the two positions up to the limit.\<close>

theorem LZ4_count_is_common_prefix:
  assumes "pMatch \<le> pIn" and "pIn \<le> pInLimit" and "pInLimit \<le> length src"
  shows "LZ4_count src pIn pMatch pInLimit =
    Some (length (takeWhile (\<lambda>(a, b). a = b) (zip (slice_at pIn (pInLimit - pIn) src) (drop pMatch src))))"
proof -
  obtain c where c: "LZ4_count src pIn pMatch pInLimit = Some c" "exact_count src pIn pMatch pInLimit c"
    using LZ4_count_ok [OF assms] by blast
  let ?z = "zip (slice_at pIn (pInLimit - pIn) src) (drop pMatch src)"
  have lz: "length ?z = pInLimit - pIn" using assms by simp
  have nz: "?z ! i = (src ! (pIn + i), src ! (pMatch + i))" if "i < pInLimit - pIn" for i
    using that assms by (simp add: nth_slice_at)
  have cl: "c \<le> pInLimit - pIn" using c(2) unfolding exact_count_def by linarith
  have "takeWhile (\<lambda>(a, b). a = b) ?z = take c ?z"
  proof (rule takeWhile_eq_take_P_nth)
    fix i assume "i < c" "i < length ?z"
    then show "case ?z ! i of (a, b) \<Rightarrow> a = b"
      using c(2) cl nz [of i] by (simp add: exact_count_def agree_def del: nth_zip)
  next
    assume "c < length ?z"
    then have l: "c < pInLimit - pIn" using lz by simp
    then have "pIn + c < pInLimit" by simp
    then have "src ! (pIn + c) \<noteq> src ! (pMatch + c)" using c(2) by (simp add: exact_count_def)
    then show "\<not> (case ?z ! c of (a, b) \<Rightarrow> a = b)" using nz [OF l] by (simp del: nth_zip)
  qed
  then show ?thesis using c(1) cl lz by simp
qed

lemma LZ4_count_is_common_prefix_witness:
  "LZ4_count ([1, 2, 3] @ replicate 20 7) 4 3 20 = Some 16"
proof -
  have "takeWhile (\<lambda>(a, b). a = b) (zip (slice_at 4 (20 - 4) ([1, 2, 3 :: byte] @ replicate 20 7)) (drop 3 ([1, 2, 3] @ replicate 20 7)))
      = replicate 16 (7, 7)"
    by (simp add: slice_at_def numeral_eq_Suc)
  then show ?thesis using LZ4_count_is_common_prefix [of 3 4 20 "[1, 2, 3] @ replicate 20 7"] by simp
qed

end
