(* ===== verification/Lz4Decompress.thy ===== *)
theory Lz4Decompress
  imports Lz4Format
begin

text \<open>
  \<open>LZ4_decompress_generic\<close> of \<open>lz4-dev/lib/lz4.c\<close> without a dictionary, with its fast loop, its
  shortcuts and its copies that run ahead, on checked memory: for any input it stays within its two
  buffers, it accepts only blocks and decodes them as the format says, and it accepts every block
  that keeps the end-of-block rules. The output buffer is a list whose length is the capacity; the
  input does not overlap it. Pointers are indices, so the tests of the code for the overflow of a
  64-bit pointer, which a length below 2^40 cannot cause, have no counterpart.
\<close>

section \<open>The decoder\<close>

datatype outcome =
    Fin int bytes
  | Cont nat nat bytes

text \<open>\<open>_output_error\<close>: minus the number of bytes read, minus one.\<close>

definition output_error :: "nat \<Rightarrow> bytes \<Rightarrow> outcome" where
  "output_error ip mem = Fin (- int ip - 1) mem"

text \<open>The advanced pointer and the length, or \<open>None\<close> for \<open>rvl_error\<close>.\<close>

function read_variable_length :: "bytes \<Rightarrow> nat \<Rightarrow> nat \<Rightarrow> (nat \<times> nat option) option" where
  "read_variable_length src ip ilimit =
     (if ip \<ge> ilimit then Some (ip, None)
      else do {
        s \<leftarrow> mem_byte src ip;
        if s \<noteq> 255 then Some (ip + 1, Some s)
        else do {
          (ip1, rest) \<leftarrow> read_variable_length src (ip + 1) ilimit;
          Some (ip1, map_option ((+) 255) rest)
        }
      })"
  by auto
termination
  by (relation "measure (\<lambda>(src, ip, ilimit). ilimit - ip)") auto

declare read_variable_length.simps [simp del]

definition inc32table :: "nat list" where "inc32table = [0, 1, 2, 1, 0, 4, 4, 4]"
definition dec64table :: "int list" where "dec64table = [0, 0, 0, -1, -4, 1, 2, 3]"

fun byte_copy :: "bytes \<Rightarrow> nat \<Rightarrow> nat \<Rightarrow> nat \<Rightarrow> bytes option" where
  "byte_copy m d s 0 = Some m"
| "byte_copy m d s (Suc n) = do { b \<leftarrow> mem_read m s 1; m1 \<leftarrow> mem_write m d b; byte_copy m1 (d + 1) (s + 1) n }"

text \<open>The first eight bytes of a match in the safe loop, and the pointer to go on from.\<close>

definition match_head :: "bytes \<Rightarrow> nat \<Rightarrow> nat \<Rightarrow> (bytes \<times> nat) option" where
  "match_head mem op offset =
     (let match = op - offset in
      if offset < 8 then do {
        m1 \<leftarrow> mem_write mem op [0, 0, 0, 0];
        m2 \<leftarrow> byte_copy m1 op match 4;
        let match1 = match + inc32table ! offset;
        m3 \<leftarrow> mem_copy m2 (op + 4) match1 4;
        Some (m3, nat (int match1 - dec64table ! offset))
      }
      else do { m1 \<leftarrow> mem_copy mem op match 8; Some (m1, match + 8) })"

definition safe_match_copy :: "bool \<Rightarrow> nat \<Rightarrow> nat \<Rightarrow> bytes \<Rightarrow> nat \<Rightarrow> nat \<Rightarrow> outcome option" where
  "safe_match_copy partial ip op mem offset len =
     (let oend = length mem; cpy = op + len; match = op - offset in
      if offset > op then Some (output_error ip mem)
      else if partial \<and> cpy + MATCH_SAFEGUARD_DISTANCE > oend then do {
        let mlen = min len (oend - op);
        m1 \<leftarrow> (if match + mlen > op then byte_copy mem op match mlen else mem_copy mem op match mlen);
        Some (if op + mlen = oend then Fin (int (op + mlen)) m1 else Cont ip (op + mlen) m1)
      }
      else do {
        (m1, match1) \<leftarrow> match_head mem op offset;
        let op1 = op + 8;
        if cpy + MATCH_SAFEGUARD_DISTANCE > oend then
          (let oCopyLimit = oend - (WILDCOPYLENGTH - 1) in
           if cpy + LASTLITERALS > oend then Some (output_error ip m1)
           else if op1 < oCopyLimit then do {
             m2 \<leftarrow> LZ4_wildCopy8 mem_copy m1 op1 match1 oCopyLimit;
             m3 \<leftarrow> byte_copy m2 oCopyLimit (match1 + (oCopyLimit - op1)) (cpy - oCopyLimit);
             Some (Cont ip cpy m3)
           }
           else do { m3 \<leftarrow> byte_copy m1 op1 match1 (cpy - op1); Some (Cont ip cpy m3) })
        else do {
          m2 \<leftarrow> mem_copy m1 op1 match1 8;
          m3 \<leftarrow> (if len > 16 then LZ4_wildCopy8 mem_copy m2 (op1 + 8) (match1 + 8) cpy else Some m2);
          Some (Cont ip cpy m3)
        }
      })"

text \<open>\<open>_copy_match\<close>: the length may continue after the offset.\<close>

definition copy_match :: "bool \<Rightarrow> bytes \<Rightarrow> nat \<Rightarrow> nat \<Rightarrow> bytes \<Rightarrow> nat \<Rightarrow> nat \<Rightarrow> outcome option" where
  "copy_match partial src ip op mem offset len =
     (if len = ML_MASK then do {
        (ip1, addl) \<leftarrow> read_variable_length src ip (length src - (1 + LASTLITERALS));
        case addl of
          None \<Rightarrow> Some (output_error ip1 mem)
        | Some a \<Rightarrow> safe_match_copy partial ip1 op mem offset (len + a + MINMATCH)
      }
      else safe_match_copy partial ip op mem offset (len + MINMATCH))"

definition get_offset :: "bool \<Rightarrow> bytes \<Rightarrow> nat \<Rightarrow> nat \<Rightarrow> nat \<Rightarrow> bytes \<Rightarrow> outcome option" where
  "get_offset partial src token ip op mem =
     do { offset \<leftarrow> LZ4_readLE16 src ip; copy_match partial src (ip + 2) op mem offset (token mod 16) }"

definition safe_literal_copy ::
  "bool \<Rightarrow> bytes \<Rightarrow> nat \<Rightarrow> nat \<Rightarrow> nat \<Rightarrow> nat \<Rightarrow> bytes \<Rightarrow> outcome option" where
  "safe_literal_copy partial src token len ip op mem =
     (let iend = length src; oend = length mem; cpy = op + len in
      if cpy + MFLIMIT > oend \<or> ip + len + (2 + 1 + LASTLITERALS) > iend then
        (if partial then
           (let len1 = (if ip + len > iend then iend - ip else len);
                len2 = (if op + len1 > oend then oend - op else len1)
            in do {
              m1 \<leftarrow> copy_in src mem op ip len2;
              if op + len2 = oend \<or> ip + len2 + 2 \<ge> iend then Some (Fin (int (op + len2)) m1)
              else get_offset partial src token (ip + len2) (op + len2) m1
            })
         else if ip + len \<noteq> iend \<or> cpy > oend then Some (output_error ip mem)
         else do { m1 \<leftarrow> copy_in src mem op ip len; Some (Fin (int (op + len)) m1) })
      else do {
        m1 \<leftarrow> LZ4_wildCopy8 (copy_in src) mem op ip cpy;
        get_offset partial src token (ip + len) cpy m1
      })"

text \<open>\<open>safe_literal_copy_early\<close>: the literal length may continue after the token.\<close>

definition safe_literal_copy_early ::
  "bool \<Rightarrow> bytes \<Rightarrow> nat \<Rightarrow> nat \<Rightarrow> nat \<Rightarrow> bytes \<Rightarrow> outcome option" where
  "safe_literal_copy_early partial src token ip op mem =
     (if token div 16 = RUN_MASK then do {
        (ip1, addl) \<leftarrow> read_variable_length src ip (length src - RUN_MASK);
        case addl of
          None \<Rightarrow> Some (output_error ip1 mem)
        | Some a \<Rightarrow> safe_literal_copy partial src token (RUN_MASK + a) ip1 op mem
      }
      else safe_literal_copy partial src token (token div 16) ip op mem)"

text \<open>Eighteen bytes of a match that does not overlap itself within eight bytes.\<close>

definition copy_18 :: "bytes \<Rightarrow> nat \<Rightarrow> nat \<Rightarrow> bytes option" where
  "copy_18 mem op match =
     do { m1 \<leftarrow> mem_copy mem op match 8; m2 \<leftarrow> mem_copy m1 (op + 8) (match + 8) 8;
          mem_copy m2 (op + 16) (match + 16) 2 }"

text \<open>One round of the safe loop.\<close>

definition safe_step :: "bool \<Rightarrow> bytes \<Rightarrow> nat \<Rightarrow> nat \<Rightarrow> bytes \<Rightarrow> outcome option" where
  "safe_step partial src ip op mem =
     (let iend = length src; oend = length mem in
      do {
        token \<leftarrow> mem_byte src ip;
        let len = token div 16;
        if len \<noteq> RUN_MASK \<and> ip + 1 + (14 + 2) < iend \<and> op + (14 + 18) \<le> oend then do {
          m1 \<leftarrow> copy_in src mem op (ip + 1) 16;
          let op1 = op + len;
          offset \<leftarrow> LZ4_readLE16 src (ip + 1 + len);
          let ip1 = ip + 1 + len + 2;
          let mlen = token mod 16;
          if mlen \<noteq> ML_MASK \<and> offset \<ge> 8 \<and> offset \<le> op1 then do {
            m2 \<leftarrow> copy_18 m1 op1 (op1 - offset);
            Some (Cont ip1 (op1 + mlen + MINMATCH) m2)
          }
          else copy_match partial src ip1 op1 m1 offset mlen
        }
        else safe_literal_copy_early partial src token (ip + 1) op mem
      })"

section \<open>The fast loop\<close>

text \<open>
  With offset 0 the first two copies are of a range onto itself; every other copy of the decoder is a \<open>mem_copy\<close>.
\<close>

definition LZ4_memcpy_using_offset_base :: "bytes \<Rightarrow> nat \<Rightarrow> nat \<Rightarrow> nat \<Rightarrow> nat \<Rightarrow> bytes option" where
  "LZ4_memcpy_using_offset_base m dst src dst_end offset =
     (if offset < 8 then do {
        m1 \<leftarrow> mem_write m dst [0, 0, 0, 0];
        m2 \<leftarrow> mem_copy_or_same m1 dst src 2;
        m3 \<leftarrow> mem_copy_or_same m2 (dst + 2) (src + 2) 2;
        let src1 = src + inc32table ! offset;
        m4 \<leftarrow> mem_copy m3 (dst + 4) src1 4;
        LZ4_wildCopy8 mem_copy m4 (dst + 8) (nat (int src1 - dec64table ! offset)) dst_end
      }
      else do {
        m1 \<leftarrow> mem_copy m dst src 8;
        LZ4_wildCopy8 mem_copy m1 (dst + 8) (src + 8) dst_end
      })"

text \<open>The loop that stores an eight-byte pattern until the end is reached.\<close>

function write_pattern :: "bytes \<Rightarrow> bytes \<Rightarrow> nat \<Rightarrow> nat \<Rightarrow> bytes option" where
  "write_pattern m v dst dst_end =
     (if dst < dst_end then do { m1 \<leftarrow> mem_write m dst v; write_pattern m1 v (dst + 8) dst_end } else Some m)"
  by auto
termination
  by (relation "measure (\<lambda>(m, v, dst, e). e - dst)") auto

declare write_pattern.simps [simp del]

definition LZ4_memcpy_using_offset :: "bytes \<Rightarrow> nat \<Rightarrow> nat \<Rightarrow> nat \<Rightarrow> nat \<Rightarrow> bytes option" where
  "LZ4_memcpy_using_offset m dst src dst_end offset =
     (if offset = 1 \<or> offset = 2 \<or> offset = 4 then do {
        p \<leftarrow> mem_read m src offset;
        let v = (if offset = 1 then replicate 8 (hd p) else if offset = 2 then p @ p @ p @ p else p @ p);
        m1 \<leftarrow> mem_write m dst v;
        write_pattern m1 v (dst + 8) dst_end
      }
      else LZ4_memcpy_using_offset_base m dst src dst_end offset)"

text \<open>The match length of a round of the fast loop; \<open>None\<close> for an error.\<close>

definition fast_match_length :: "bytes \<Rightarrow> nat \<Rightarrow> nat \<Rightarrow> (nat \<times> nat option) option" where
  "fast_match_length src token ip =
     (let mlen = token mod 16 in
      if mlen = ML_MASK then do {
        (ip1, addl) \<leftarrow> read_variable_length src ip (length src - (1 + LASTLITERALS));
        Some (ip1, map_option (\<lambda>a. mlen + a + MINMATCH) addl)
      }
      else Some (ip, Some (mlen + MINMATCH)))"

text \<open>
  The second half of a round of the fast loop: offset and match. The flag of the result says whether
  the loop goes on in the fast variant.
\<close>

definition fast_match ::
  "bool \<Rightarrow> bytes \<Rightarrow> nat \<Rightarrow> nat \<Rightarrow> nat \<Rightarrow> bytes \<Rightarrow> (bool \<times> outcome) option" where
  "fast_match partial src token ip op mem =
     (let iend = length src; oend = length mem in
      do {
        offset \<leftarrow> LZ4_readLE16 src ip;
        let ip1 = ip + 2;
        let match = op - offset;
        let mlen = token mod 16;
        (ip2, len) \<leftarrow> fast_match_length src token ip1;
        case len of
          None \<Rightarrow> Some (False, output_error ip2 mem)
        | Some len \<Rightarrow>
            if op + len + FASTLOOP_SAFE_DISTANCE \<ge> oend
            then map_option (Pair False) (safe_match_copy partial ip2 op mem offset len)
            else if mlen \<noteq> ML_MASK \<and> offset \<le> op \<and> offset \<ge> 8 then do {
              m1 \<leftarrow> copy_18 mem op match;
              Some (True, Cont ip2 (op + len) m1)
            }
            else if offset > op then Some (False, output_error ip2 mem)
            else do {
              m1 \<leftarrow> (if offset < 16 then LZ4_memcpy_using_offset mem op match (op + len) offset
                    else LZ4_wildCopy32 mem_copy mem op match (op + len));
              Some (True, Cont ip2 (op + len) m1)
            }
      })"

definition fast_step ::
  "bool \<Rightarrow> bytes \<Rightarrow> nat \<Rightarrow> nat \<Rightarrow> bytes \<Rightarrow> (bool \<times> outcome) option" where
  "fast_step partial src ip op mem =
     (let iend = length src; oend = length mem in
      do {
        token \<leftarrow> mem_byte src ip;
        let ip1 = ip + 1;
        if ip1 + (16 + 1) > iend
        then map_option (Pair False) (safe_literal_copy_early partial src token ip1 op mem)
        else if token div 16 = RUN_MASK then do {
          (ip2, addl) \<leftarrow> read_variable_length src ip1 (iend - RUN_MASK);
          case addl of
            None \<Rightarrow> Some (False, output_error ip2 mem)
          | Some a \<Rightarrow>
              let len = RUN_MASK + a; cpy = op + len in
              if cpy + 32 > oend \<or> ip2 + len + 32 > iend
              then map_option (Pair False) (safe_literal_copy partial src token len ip2 op mem)
              else do {
                m1 \<leftarrow> LZ4_wildCopy32 (copy_in src) mem op ip2 cpy;
                fast_match partial src token (ip2 + len) cpy m1
              }
        }
        else do {
          m1 \<leftarrow> copy_in src mem op ip1 16;
          fast_match partial src token (ip1 + token div 16) (op + token div 16) m1
        }
      })"

text \<open>The two loops; the fuel bounds the number of sequences.\<close>

fun decode_loop :: "nat \<Rightarrow> bool \<Rightarrow> bool \<Rightarrow> bytes \<Rightarrow> nat \<Rightarrow> nat \<Rightarrow> bytes \<Rightarrow> (int \<times> bytes) option" where
  "decode_loop 0 fast partial src ip op mem = None"
| "decode_loop (Suc n) fast partial src ip op mem =
     do {
       (fast1, r) \<leftarrow> (if fast then fast_step partial src ip op mem
                     else map_option (Pair False) (safe_step partial src ip op mem));
       case r of
         Fin k m \<Rightarrow> Some (k, m)
       | Cont ip1 op1 m \<Rightarrow> decode_loop n fast1 partial src ip1 op1 m
     }"

definition LZ4_decompress_generic :: "bool \<Rightarrow> bytes \<Rightarrow> bytes \<Rightarrow> (int \<times> bytes) option" where
  "LZ4_decompress_generic partial src dst =
     (if length dst = 0 then
        Some (if partial then 0 else if length src = 1 \<and> src ! 0 = 0 then 0 else -1, dst)
      else if length src = 0 then Some (-1, dst)
      else decode_loop (length src) (length dst \<ge> FASTLOOP_SAFE_DISTANCE) partial src 0 0 dst)"

definition LZ4_decompress_safe :: "bytes \<Rightarrow> bytes \<Rightarrow> (int \<times> bytes) option" where
  "LZ4_decompress_safe source dest = LZ4_decompress_generic False source dest"

definition LZ4_decompress_safe_partial :: "bytes \<Rightarrow> nat \<Rightarrow> bytes \<Rightarrow> (int \<times> bytes) option" where
  "LZ4_decompress_safe_partial src target dst =
     do { (r, m) \<leftarrow> LZ4_decompress_generic True src (take (min target (length dst)) dst);
          Some (r, m @ drop (min target (length dst)) dst) }"

section \<open>Every way of copying continues the match\<close>

text \<open>
  \<open>matched mem m op off d\<close>: starting from the buffer \<open>mem\<close>, the match with offset \<open>off\<close> at \<open>op\<close> has
  been copied up to \<open>d\<close>.
\<close>

definition matched :: "bytes \<Rightarrow> bytes \<Rightarrow> nat \<Rightarrow> nat \<Rightarrow> nat \<Rightarrow> bool" where
  "matched mem m op off d \<longleftrightarrow> length m = length mem \<and> (\<forall>j<op. m ! j = mem ! j) \<and> repeats m op off d"

text \<open>A distance from which the copy may go on at \<open>d\<close>.\<close>

definition good_dist :: "nat \<Rightarrow> nat \<Rightarrow> nat \<Rightarrow> nat \<Rightarrow> bool" where
  "good_dist off op d D \<longleftrightarrow> op \<le> d \<and> off \<le> op \<and> 0 < D \<and>
     (if off = 0 then op + D \<le> d else (\<exists>k>0. D = k * off) \<and> op + D \<le> d + off)"

lemma matched_start: "matched mem mem op off op"
  by (simp add: matched_def repeats_def)

lemma matched_weaken: "matched mem m op off d \<Longrightarrow> e \<le> d \<Longrightarrow> matched mem m op off e"
  by (auto simp: matched_def repeats_def)

lemma matched_take:
  assumes "matched mem m op off (op + n)" and "op + n \<le> length mem" and "off \<le> op"
  shows "take (op + n) m = lz_copy (take op mem) off n"
proof -
  have "take op m = take op mem"
    using assms by (intro nth_equalityI) (auto simp: matched_def)
  then show ?thesis using lz_copy_repeats [of m op off n] assms by (simp add: matched_def)
qed

lemma matched_fills:
  assumes "matched mem m op off d" and "good_dist off op d D" and "fills m m' d e (\<lambda>j. m' ! (j - D))"
  shows "matched mem m' op off e"
proof -
  have "repeats m' op off e"
  proof (cases "off = 0")
    case True
    then show ?thesis
      using repeats_extend_zero [of m op d m' e D] assms by (auto simp: matched_def good_dist_def)
  next
    case False
    then obtain k where "D = k * off" "0 < k" using assms(2) by (auto simp: good_dist_def)
    then show ?thesis
      using repeats_extend [of m op off d m' e D k] assms False by (auto simp: matched_def good_dist_def)
  qed
  then show ?thesis using assms by (auto simp: matched_def fills_def good_dist_def)
qed

lemma good_dist_le: "good_dist off op d D \<Longrightarrow> D \<le> d"
  by (auto simp: good_dist_def split: if_splits)

lemma mem_copy_matched:
  assumes "matched mem m op off d" and g: "good_dist off op d D" and "s = d - D" and n: "n \<le> D"
    and "d + n \<le> length mem"
  shows "\<exists>m'. mem_copy m d s n = Some m' \<and> matched mem m' op off (d + n)"
proof -
  have D: "D \<le> d" "0 < D" using good_dist_le [OF g] g by (auto simp: good_dist_def)
  have b: "d + n \<le> length m" "s + n \<le> length m" "s + n \<le> d"
    using assms(1,3-5) D by (auto simp: matched_def)
  obtain m' where m': "mem_copy m d s n = Some m'" "fills m m' d (d + n) (\<lambda>j. m ! (s + (j - d)))"
    using mem_copy_fills [of d n m s] b by blast
  have "fills m m' d (d + n) (\<lambda>j. m' ! (j - D))"
  proof (rule fills_weaken [OF m'(2)])
    fix j assume j: "d \<le> j" "j < d + n"
    then have "s + (j - d) = j - D" "j - D < d" using assms(3) D n by auto
    then show "m ! (s + (j - d)) = m' ! (j - D)" using m'(2) by (simp add: fills_def)
  qed simp
  then show ?thesis using matched_fills [OF assms(1) g] m'(1) by blast
qed

lemma wild8_matched:
  assumes "matched mem m op off d" and g: "good_dist off op d D" and "s = d - D" and "8 \<le> D"
    and "d < E" and "e \<le> E" and "E + 7 \<le> length mem"
  shows "\<exists>m'. LZ4_wildCopy8 mem_copy m d s e = Some m' \<and> matched mem m' op off e"
proof -
  have D: "D \<le> d" using good_dist_le [OF g] .
  have "E + 7 \<le> length m" "s + 8 \<le> d" "d - s = D" using assms D by (auto simp: matched_def)
  then show ?thesis
    using wildCopy8_within [of d E e m s] matched_fills [OF assms(1) g] assms(5,6) by auto
qed

lemma wild32_matched:
  assumes "matched mem m op off d" and g: "good_dist off op d D" and "s = d - D" and "16 \<le> D"
    and "d < E" and "e \<le> E" and "E + 31 \<le> length mem"
  shows "\<exists>m'. LZ4_wildCopy32 mem_copy m d s e = Some m' \<and> matched mem m' op off e"
proof -
  have D: "D \<le> d" using good_dist_le [OF g] .
  have "E + 31 \<le> length m" "s + 16 \<le> d" "d - s = D" using assms D by (auto simp: matched_def)
  then show ?thesis
    using wildCopy32_within [of d E e m s] matched_fills [OF assms(1) g] assms(5,6) by auto
qed

lemma byte_copy_fills:
  assumes "s < d" and "d + n \<le> length m"
  shows "\<exists>m'. byte_copy m d s n = Some m' \<and> fills m m' d (d + n) (\<lambda>j. m' ! (j - (d - s)))"
  using assms
proof (induction n arbitrary: m d s)
  case (Suc n)
  have "mem_read m s 1 = Some [m ! s]" using Suc.prems by (auto simp: mem_read_def slice_at_def take_Suc hd_drop_conv_nth)
  moreover obtain m1 where m1: "mem_write m d [m ! s] = Some m1" "fills m m1 d (d + 1) (\<lambda>j. [m ! s] ! (j - d))"
    using mem_write_fills [of d "[m ! s]" m] Suc.prems by auto
  moreover obtain m' where m': "byte_copy m1 (d + 1) (s + 1) n = Some m'"
      "fills m1 m' (d + 1) (d + 1 + n) (\<lambda>j. m' ! (j - (d + 1 - (s + 1))))"
    using Suc.IH [of "s + 1" "d + 1" m1] Suc.prems fills_length [OF m1(2)] by auto
  moreover have "fills m m1 d (d + 1) (\<lambda>j. m' ! (j - (d - s)))"
  proof (rule fills_weaken [OF m1(2)])
    fix j assume "d \<le> j" "j < d + 1"
    then have "j = d" by simp
    then show "[m ! s] ! (j - d) = m' ! (j - (d - s))"
      using m1(2) m'(2) Suc.prems by (simp add: fills_def)
  qed simp
  moreover have "fills m1 m' (d + 1) (d + Suc n) (\<lambda>j. m' ! (j - (d - s)))"
    by (rule fills_weaken [OF m'(2)]) auto
  ultimately show ?case using fills_step [of m m1 d "d + 1" _ m' "d + Suc n"] by auto
qed (simp add: fills_def)

lemma byte_copy_self:
  assumes "d + n \<le> length m"
  shows "byte_copy m d d n = Some m"
  using assms
proof (induction n arbitrary: d)
  case (Suc n)
  have "mem_read m d 1 = Some [m ! d]" using Suc.prems by (auto simp: mem_read_def slice_at_def take_Suc hd_drop_conv_nth)
  moreover have "mem_write m d [m ! d] = Some m"
    using Suc.prems id_take_nth_drop [of d m] by (simp add: mem_write_def)
  ultimately show ?case using Suc by simp
qed simp

lemma byte_copy_matched:
  assumes "matched mem m op off d" and g: "good_dist off op d D" and "s = d - D" and "d + n \<le> length mem"
  shows "\<exists>m'. byte_copy m d s n = Some m' \<and> matched mem m' op off (d + n)"
proof -
  have D: "D \<le> d" "0 < D" using good_dist_le [OF g] g by (auto simp: good_dist_def)
  have "s < d" "d + n \<le> length m" "d - s = D" using assms D by (auto simp: matched_def)
  then show ?thesis using byte_copy_fills [of s d n m] matched_fills [OF assms(1) g] by auto
qed

text \<open>The tables move the source so that its distance becomes a multiple of the offset.\<close>

lemma dec_tables:
  assumes "off < 8" and "off \<le> op"
  shows "\<exists>D4 D8. op - off + inc32table ! off = op + 4 - D4 \<and> 4 \<le> D4 \<and> good_dist off op (op + 4) D4 \<and>
    nat (int (op - off + inc32table ! off) - dec64table ! off) = op + 8 - D8 \<and> 8 \<le> D8 \<and>
    good_dist off op (op + 8) D8"
proof -
  have gd: "good_dist off op (op + n) (k * off)" if "0 < k" "0 < off" "k * off \<le> n + off" for k n
    using that assms(2) by (auto simp: good_dist_def)
  consider "off = 0" | "off = 1" | "off = 2" | "off = 3" | "off = 4" | "off = 5" | "off = 6" | "off = 7"
    using assms(1) by linarith
  then show ?thesis
  proof cases
    case 1 then show ?thesis by - (rule exI [of _ 4], rule exI [of _ 8], simp add: inc32table_def dec64table_def good_dist_def)
  next
    case 2 then show ?thesis using gd [of 4 4] gd [of 8 8] assms(2)
      by - (rule exI [of _ 4], rule exI [of _ 8], simp add: inc32table_def dec64table_def)
  next
    case 3 then show ?thesis using gd [of 2 4] gd [of 4 8] assms(2)
      by - (rule exI [of _ 4], rule exI [of _ 8], simp add: inc32table_def dec64table_def)
  next
    case 4 then show ?thesis using gd [of 2 4] gd [of 3 8] assms(2)
      by - (rule exI [of _ 6], rule exI [of _ 9], simp add: inc32table_def dec64table_def, linarith?)
  next
    case 5 then show ?thesis using gd [of 2 4] gd [of 2 8] assms(2)
      by - (rule exI [of _ 8], rule exI [of _ 8], simp add: inc32table_def dec64table_def)
  next
    case 6 then show ?thesis using gd [of 1 4] gd [of 2 8] assms(2)
      by - (rule exI [of _ 5], rule exI [of _ 10], simp add: inc32table_def dec64table_def)
  next
    case 7 then show ?thesis using gd [of 1 4] gd [of 2 8] assms(2)
      by - (rule exI [of _ 6], rule exI [of _ 12], simp add: inc32table_def dec64table_def)
  next
    case 8 then show ?thesis using gd [of 1 4] gd [of 2 8] assms(2)
      by - (rule exI [of _ 7], rule exI [of _ 14], simp add: inc32table_def dec64table_def)
  qed
qed

lemma good_dist_self: "0 < off \<Longrightarrow> off \<le> op \<Longrightarrow> op \<le> d \<Longrightarrow> good_dist off op d off"
  by (auto simp: good_dist_def intro: exI [of _ 1])

text \<open>Zeros written at the start are overwritten, or are the match if the offset is 0.\<close>

lemma write_zeros_matched:
  assumes "op + 4 \<le> length mem"
  shows "\<exists>m1. mem_write mem op [0, 0, 0, 0] = Some m1 \<and> matched mem m1 op off op \<and> matched mem m1 op 0 (op + 4)"
proof -
  obtain m1 where m1: "mem_write mem op [0, 0, 0, 0] = Some m1"
      "fills mem m1 op (op + 4) (\<lambda>j. [0, 0, 0, 0] ! (j - op))"
    using mem_write_fills [of op "[0, 0, 0, 0]" mem] assms by (auto simp: numeral_eq_Suc)
  have "m1 ! j = 0" if "op \<le> j" "j < op + 4" for j
  proof -
    have "j - op \<in> {0, 1, 2, 3}" using that by auto
    then show ?thesis using m1(2) that by (auto simp: fills_def)
  qed
  then have "matched mem m1 op 0 (op + 4)" using m1(2) by (auto simp: matched_def repeats_def fills_def)
  moreover have "matched mem m1 op off op" using m1(2) by (auto simp: matched_def repeats_def fills_def)
  ultimately show ?thesis using m1(1) by blast
qed

lemma match_head_ok:
  assumes "off \<le> op" and "op + 8 \<le> length mem"
  shows "\<exists>m1 s1 D. match_head mem op off = Some (m1, s1) \<and> matched mem m1 op off (op + 8) \<and>
    good_dist off op (op + 8) D \<and> s1 = op + 8 - D \<and> 8 \<le> D"
proof (cases "off < 8")
  case True
  obtain D4 D8 where D: "op - off + inc32table ! off = op + 4 - D4" "4 \<le> D4" "good_dist off op (op + 4) D4"
      "nat (int (op - off + inc32table ! off) - dec64table ! off) = op + 8 - D8" "8 \<le> D8"
      "good_dist off op (op + 8) D8"
    using dec_tables [OF True assms(1)] by blast
  obtain m1 where m1: "mem_write mem op [0, 0, 0, 0] = Some m1" "matched mem m1 op off op" "matched mem m1 op 0 (op + 4)"
    using write_zeros_matched [of op mem off] assms(2) by auto
  have "\<exists>m2. byte_copy m1 op (op - off) 4 = Some m2 \<and> matched mem m2 op off (op + 4)"
  proof (cases "off = 0")
    case True
    then show ?thesis using byte_copy_self [of op 4 m1] m1(3) assms(2) by (auto simp: matched_def)
  next
    case False
    then show ?thesis
      using byte_copy_matched [OF m1(2) good_dist_self [of off op op] refl, of 4] assms by auto
  qed
  then obtain m2 where m2: "byte_copy m1 op (op - off) 4 = Some m2" "matched mem m2 op off (op + 4)" by blast
  obtain m3 where m3: "mem_copy m2 (op + 4) (op + 4 - D4) 4 = Some m3" "matched mem m3 op off (op + 4 + 4)"
    using mem_copy_matched [OF m2(2) D(3) refl D(2)] assms(2) by auto
  show ?thesis
    using True m1(1) m2(1) m3 D(4-6)
    by - (rule exI [of _ m3], rule exI [of _ "op + 8 - D8"], rule exI [of _ D8],
      simp add: match_head_def Let_def D(1) [symmetric] add.commute)
next
  case False
  then have g: "good_dist off op op off" "good_dist off op (op + 8) off" using assms(1) by (auto intro: good_dist_self)
  obtain m1 where "mem_copy mem op (op - off) 8 = Some m1" "matched mem m1 op off (op + 8)"
    using mem_copy_matched [OF matched_start g(1) refl, of 8] False assms by auto
  then show ?thesis using False g assms(1)
    by - (rule exI [of _ m1], rule exI [of _ "op + 8 - off"], rule exI [of _ off], simp add: match_head_def Let_def)
qed

lemma copy_18_ok:
  assumes "8 \<le> off" and "off \<le> op" and "op + 18 \<le> length mem"
  shows "\<exists>m. copy_18 mem op (op - off) = Some m \<and> matched mem m op off (op + 18)"
proof -
  have g: "good_dist off op op off" "good_dist off op (op + 8) off" "good_dist off op (op + 16) off"
    using assms by (auto intro: good_dist_self)
  obtain m1 where m1: "mem_copy mem op (op - off) 8 = Some m1" "matched mem m1 op off (op + 8)"
    using mem_copy_matched [OF matched_start [of mem] g(1) refl, where n = 8] assms by auto
  obtain m2 where m2: "mem_copy m1 (op + 8) (op + 8 - off) 8 = Some m2" "matched mem m2 op off (op + 16)"
    using mem_copy_matched [OF m1(2) g(2) refl, where n = 8] assms by (auto simp: add.commute)
  obtain m3 where m3: "mem_copy m2 (op + 16) (op + 16 - off) 2 = Some m3" "matched mem m3 op off (op + 18)"
    using mem_copy_matched [OF m2(2) g(3) refl, where n = 2] assms by (auto simp: add.commute)
  have e: "op - off + 8 = op + 8 - off" "op - off + 16 = op + 16 - off" using assms(2) by auto
  show ?thesis using m1 m2 m3 by (simp add: copy_18_def e)
qed

text \<open>The copy of the fast loop for offsets below 16.\<close>

lemma write_pattern_matched:
  assumes lv: "length v = 8" and "matched mem m op off d" and "good_dist off op d 8"
    and "\<And>i. i < 8 \<Longrightarrow> m ! (d - 8 + i) = v ! i" and "e + 7 \<le> length mem"
  shows "\<exists>m'. write_pattern m v d e = Some m' \<and> matched mem m' op off (max d e)"
  using assms
proof (induction m v d e rule: write_pattern.induct)
  case (1 m v d e)
  show ?case
  proof (cases "d < e")
    case True
    have lm: "length m = length mem" using 1(3) by (simp add: matched_def)
    have d8: "8 \<le> d" using good_dist_le [OF 1(4)] .
    obtain m1 where m1: "mem_write m d v = Some m1" "fills m m1 d (d + 8) (\<lambda>j. v ! (j - d))"
      using mem_write_fills [of d v m] 1(2) lm True 1(6) by auto
    have f: "fills m m1 d (d + 8) (\<lambda>j. m1 ! (j - 8))"
    proof (rule fills_weaken [OF m1(2)])
      fix j assume j: "d \<le> j" "j < d + 8"
      then have "m ! (d - 8 + (j - d)) = v ! (j - d)" by (intro 1(5)) auto
      then show "v ! (j - d) = m1 ! (j - 8)" using j d8 m1(2) by (simp add: fills_def)
    qed simp
    have "good_dist off op (d + 8) 8" using 1(4) by (auto simp: good_dist_def split: if_splits)
    moreover have "matched mem m1 op off (d + 8)" by (rule matched_fills [OF 1(3,4) f])
    moreover have "m1 ! (d + 8 - 8 + i) = v ! i" if "i < 8" for i using m1(2) that by (simp add: fills_def)
    ultimately obtain m' where "write_pattern m1 v (d + 8) e = Some m'" "matched mem m' op off (max (d + 8) e)"
      using 1(1) [OF True m1(1) 1(2)] 1(6) by blast
    then show ?thesis using True m1(1) by (subst write_pattern.simps) (auto intro: matched_weaken)
  next
    case False
    then show ?thesis using 1(3) by (subst write_pattern.simps) (simp add: max_def)
  qed
qed

lemma mem_copy_same: "d + n \<le> length m \<Longrightarrow> mem_copy_or_same m d d n = Some m"
  by (simp add: mem_copy_or_same_def copy_in_def mem_read_def mem_write_def slice_at_def)
    (metis append_take_drop_id drop_drop add.commute)

lemma using_offset_base_ok:
  assumes "off \<le> op" and "off \<noteq> 1" and "op + 16 \<le> length mem" and "e + 7 \<le> length mem"
  shows "\<exists>m. LZ4_memcpy_using_offset_base mem op (op - off) e off = Some m \<and> matched mem m op off e"
proof (cases "off < 8")
  have E: "op + 8 < max e (op + 9)" "e \<le> max e (op + 9)" "max e (op + 9) + 7 \<le> length mem"
    using assms(3,4) by auto
  case True
  obtain D4 D8 where D: "op - off + inc32table ! off = op + 4 - D4" "4 \<le> D4" "good_dist off op (op + 4) D4"
      "nat (int (op - off + inc32table ! off) - dec64table ! off) = op + 8 - D8" "8 \<le> D8"
      "good_dist off op (op + 8) D8"
    using dec_tables [OF True assms(1)] by blast
  obtain m1 where m1: "mem_write mem op [0, 0, 0, 0] = Some m1" "matched mem m1 op off op" "matched mem m1 op 0 (op + 4)"
    using write_zeros_matched [of op mem off] assms(3) by auto
  have "\<exists>m2 m3. mem_copy_or_same m1 op (op - off) 2 = Some m2 \<and> mem_copy_or_same m2 (op + 2) (op - off + 2) 2 = Some m3 \<and>
      matched mem m3 op off (op + 4)"
  proof (cases "off = 0")
    case True
    then show ?thesis
      using mem_copy_same [of op 2 m1] mem_copy_same [of "op + 2" 2 m1] m1(3) assms(3) by (auto simp: matched_def)
  next
    case False
    then have g: "good_dist off op op off" "good_dist off op (op + 2) off" "2 \<le> off"
      using assms(1,2) by (auto intro: good_dist_self)
    obtain m2 where m2: "mem_copy m1 op (op - off) 2 = Some m2" "matched mem m2 op off (op + 2)"
      using mem_copy_matched [OF m1(2) g(1) refl g(3)] assms(3) by auto
    obtain m3 where "mem_copy m2 (op + 2) (op + 2 - off) 2 = Some m3" "matched mem m3 op off (op + 2 + 2)"
      using mem_copy_matched [OF m2(2) g(2) refl g(3)] assms(3) by auto
    moreover have "op - off + 2 = op + 2 - off" using assms(1) by simp
    moreover have "op + 2 + 2 = op + 4" by simp
    moreover have "op - off \<noteq> op" "op - off + 2 \<noteq> op + 2" using g(3) assms(1) by simp_all
    ultimately show ?thesis using m2(1) unfolding mem_copy_or_same_def by metis
  qed
  then obtain m2 m3 where m23: "mem_copy_or_same m1 op (op - off) 2 = Some m2" "mem_copy_or_same m2 (op + 2) (op - off + 2) 2 = Some m3"
      "matched mem m3 op off (op + 4)" by blast
  obtain m4 where m4: "mem_copy m3 (op + 4) (op + 4 - D4) 4 = Some m4" "matched mem m4 op off (op + 8)"
    using mem_copy_matched [OF m23(3) D(3) refl D(2)] assms(3) by (auto simp: add.commute)
  obtain m5 where m5: "LZ4_wildCopy8 mem_copy m4 (op + 8) (op + 8 - D8) e = Some m5" "matched mem m5 op off e"
    using wild8_matched [OF m4(2) D(6) refl D(5) E] by auto
  show ?thesis using True m1(1) m23 m4(1) m5 D(4)
    by (simp add: LZ4_memcpy_using_offset_base_def Let_def D(1) [symmetric])
next
  have E: "op + 8 < max e (op + 9)" "e \<le> max e (op + 9)" "max e (op + 9) + 7 \<le> length mem"
    using assms(3,4) by auto
  case False
  then have g: "good_dist off op op off" "good_dist off op (op + 8) off" "8 \<le> off"
    using assms(1) by (auto intro: good_dist_self)
  obtain m1 where m1: "mem_copy mem op (op - off) 8 = Some m1" "matched mem m1 op off (op + 8)"
    using mem_copy_matched [OF matched_start [of mem] g(1) refl g(3)] assms(3) by auto
  obtain m5 where m5: "LZ4_wildCopy8 mem_copy m1 (op + 8) (op + 8 - off) e = Some m5" "matched mem m5 op off e"
    using wild8_matched [OF m1(2) g(2) refl g(3) E] by auto
  moreover have "op - off + 8 = op + 8 - off" using assms(1) by simp
  ultimately show ?thesis using m1(1) False by (simp add: LZ4_memcpy_using_offset_base_def)
qed

text \<open>A pattern of 8 bytes made of the last 1, 2 or 4 bytes repeats with that period.\<close>

lemma pattern_ok:
  assumes "off \<in> {1, 2, 4}" and "off \<le> op" and "length v = 8" and "op + 8 \<le> length mem" and "e + 7 \<le> length mem"
    and "\<And>i. i < 8 \<Longrightarrow> v ! i = mem ! (op - off + i mod off)"
  shows "\<exists>m1 m2. mem_write mem op v = Some m1 \<and> write_pattern m1 v (op + 8) e = Some m2 \<and> matched mem m2 op off e"
proof -
  obtain m1 where m1: "mem_write mem op v = Some m1" "fills mem m1 op (op + 8) (\<lambda>j. v ! (j - op))"
    using mem_write_fills [of op v mem] assms(3,4) by auto
  have v: "m1 ! (op + i) = v ! i" if "i < 8" for i using m1(2) that by (simp add: fills_def)
  have "fills mem m1 op (op + 8) (\<lambda>j. m1 ! (j - off))"
  proof (rule fills_weaken [OF m1(2)])
    fix j assume "op \<le> j" "j < op + 8"
    then obtain i where i: "j = op + i" "i < 8" by (metis le_Suc_ex nat_add_left_cancel_less)
    show "v ! (j - op) = m1 ! (j - off)"
    proof (cases "i < off")
      case True
      then have "m1 ! (op + i - off) = mem ! (op + i - off)" using m1(2) assms(2) by (simp add: fills_def)
      moreover have "v ! i = mem ! (op - off + i)" using assms(6) [OF i(2)] True by simp
      ultimately show ?thesis using i assms(2) by simp
    next
      case False
      then have "v ! (i - off) = v ! i"
        using assms(6) [OF i(2)] assms(6) [of "i - off"] i(2) by (simp add: le_mod_geq)
      moreover have "m1 ! (op + (i - off)) = v ! (i - off)" using v [of "i - off"] i(2) by simp
      ultimately show ?thesis using i False by simp
    qed
  qed simp
  then have m: "matched mem m1 op off (op + 8)"
    using matched_fills [OF matched_start good_dist_self] assms(1,2) by auto
  have "good_dist off op (op + 8) 8"
  proof -
    have "\<exists>k>0. 8 = k * off" using assms(1)
      by (auto intro: exI [of _ 8] exI [of _ 4] exI [of _ 2])
    then show ?thesis using assms(1,2) by (auto simp: good_dist_def)
  qed
  then obtain m2 where "write_pattern m1 v (op + 8) e = Some m2" "matched mem m2 op off (max (op + 8) e)"
    using write_pattern_matched [OF assms(3) m _ _ assms(5)] v by auto
  then show ?thesis using m1(1) by (auto intro: matched_weaken)
qed

lemma using_offset_ok:
  assumes "off \<le> op" and "op + 16 \<le> length mem" and "e + 7 \<le> length mem"
  shows "\<exists>m. LZ4_memcpy_using_offset mem op (op - off) e off = Some m \<and> matched mem m op off e"
proof (cases "off \<in> {1, 2, 4}")
  case True
  define p where "p = slice_at (op - off) off mem"
  define v where "v = (if off = 1 then replicate 8 (hd p) else if off = 2 then p @ p @ p @ p else p @ p)"
  have lp: "length p = off" using assms True by (auto simp: p_def)
  have p: "p ! i = mem ! (op - off + i)" if "i < off" for i
    using that assms by (simp add: p_def nth_slice_at)
  have lv: "length v = 8" using True lp by (auto simp: v_def)
  have v: "v ! i = mem ! (op - off + i mod off)" if "i < 8" for i
  proof -
    have "v ! i = p ! (i mod off)"
    proof -
      have "i \<in> {0, 1, 2, 3, 4, 5, 6, 7}" using that by auto
      moreover have "hd p = p ! 0" using True lp by (intro hd_conv_nth) auto
      ultimately show ?thesis using True lp by (auto simp: v_def nth_append)
    qed
    then show ?thesis using p [of "i mod off"] True by auto
  qed
  obtain m1 m2 where "mem_write mem op v = Some m1" "write_pattern m1 v (op + 8) e = Some m2" "matched mem m2 op off e"
    using pattern_ok [OF True assms(1) lv _ assms(3) v] assms(2) by auto
  moreover have "mem_read mem (op - off) off = Some p" using assms by (simp add: mem_read_def p_def)
  ultimately show ?thesis using True
    by (auto simp: LZ4_memcpy_using_offset_def Let_def v_def)
next
  case False
  then show ?thesis using using_offset_base_ok [OF assms(1) _ assms(2,3)]
    by (auto simp: LZ4_memcpy_using_offset_def)
qed

section \<open>Reading lengths\<close>

lemma unat_byte_lt: "unat (b :: byte) < 256"
  using unsigned_less [of b] by simp

lemma read_variable_length_ok:
  assumes "ilimit \<le> length src"
  shows "\<exists>ip1 r. read_variable_length src ip ilimit = Some (ip1, r) \<and>
    (case r of None \<Rightarrow> True
     | Some n \<Rightarrow> ip < ip1 \<and> ip1 \<le> ilimit \<and> drop ip src = put_ext n @ drop ip1 src)"
  using assms
proof (induction src ip ilimit rule: read_variable_length.induct)
  case (1 src ip ilimit)
  show ?case
  proof (cases "ip \<ge> ilimit")
    case True
    then show ?thesis by (subst read_variable_length.simps) simp
  next
    case False
    then have lt: "ip < length src" using 1(2) by simp
    then have d: "drop ip src = src ! ip # drop (ip + 1) src" by (simp add: Cons_nth_drop_Suc)
    have byt: "mem_byte src ip = Some (unat (src ! ip))" using lt by (simp add: mem_byte_def)
    show ?thesis
    proof (cases "unat (src ! ip) = 255")
      case True
      obtain ip1 r where ih: "read_variable_length src (ip + 1) ilimit = Some (ip1, r)"
          "case r of None \<Rightarrow> True
           | Some n \<Rightarrow> ip + 1 < ip1 \<and> ip1 \<le> ilimit \<and> drop (ip + 1) src = put_ext n @ drop ip1 src"
        using 1(1) [OF False byt] True 1(2) by auto
      have "src ! ip = 255" using True by (simp add: word_unat_eq_iff)
      then show ?thesis using ih False byt True d
        by (subst read_variable_length.simps) (auto simp: put_ext_step split: option.splits)
    next
      case False': False
      have "unat (src ! ip) < 255" using False' unat_byte_lt [of "src ! ip"] by linarith
      then show ?thesis using False False' byt d
        by (subst read_variable_length.simps) (auto simp: put_ext_small)
    qed
  qed
qed

lemma read_variable_length_put:
  assumes "drop ip src = put_ext n @ rest" and "ip + length (put_ext n) \<le> ilimit" and "ilimit \<le> length src"
  shows "read_variable_length src ip ilimit = Some (ip + length (put_ext n), Some n)"
  using assms
proof (induction n arbitrary: ip rule: put_ext.induct)
  case (1 n)
  have pos: "0 < length (put_ext n)" by (subst put_ext.simps) simp
  have lt: "ip < ilimit" "ip < length src" using pos 1(3,4) by linarith+
  then have d: "drop ip src = src ! ip # drop (ip + 1) src" by (simp add: Cons_nth_drop_Suc)
  show ?case
  proof (cases "n < 255")
    case True
    then have "src ! ip = word_of_nat n" using 1(2) d by (simp add: put_ext_small)
    then have "unat (src ! ip) = n" using True by (simp add: unat_of_nat)
    then show ?thesis using lt True by (subst read_variable_length.simps) (simp add: mem_byte_def put_ext_small)
  next
    case False
    then have p: "put_ext n = 255 # put_ext (n - 255)" by (simp add: put_ext.simps)
    then have "src ! ip = 255" "drop (ip + 1) src = put_ext (n - 255) @ rest" using 1(2) d by auto
    moreover from this have "read_variable_length src (ip + 1) ilimit =
        Some (ip + 1 + length (put_ext (n - 255)), Some (n - 255))"
      using 1(1) [OF False] 1(3,4) p by simp
    ultimately show ?thesis using lt False p
      by (subst read_variable_length.simps) (simp add: mem_byte_def)
  qed
qed

section \<open>Copying a match in the safe loop\<close>

lemma good_dist_mono: "good_dist off op d D \<Longrightarrow> d \<le> d' \<Longrightarrow> good_dist off op d' D"
  by (auto simp: good_dist_def split: if_splits)

lemma safe_match_copy_ok:
  assumes "off \<le> op" and "4 \<le> len" and "op + 12 \<le> length mem"
    and np: "\<not> (partial \<and> op + len + 12 > length mem)"
  shows "\<exists>m1. safe_match_copy partial ip op mem off len =
      Some (if op + len + 5 > length mem then output_error ip m1 else Cont ip (op + len) m1) \<and>
    length m1 = length mem \<and> (op + len + 5 \<le> length mem \<longrightarrow> matched mem m1 op off (op + len))"
proof -
  obtain m1 s1 D where h: "match_head mem op off = Some (m1, s1)" and m1: "matched mem m1 op off (op + 8)"
    and g: "good_dist off op (op + 8) D" and s1: "s1 = op + 8 - D" and D: "8 \<le> D"
    using match_head_ok [OF assms(1), of mem] assms(3) by auto
  have Dle: "D \<le> op + 8" by (rule good_dist_le [OF g])
  have lm: "length m = length mem" if "matched mem m op off d" for m d using that by (simp add: matched_def)
  show ?thesis
  proof (cases "op + len + 12 > length mem")
    case near: True
    show ?thesis
    proof (cases "op + len + 5 > length mem")
      case True
      then show ?thesis using near assms(1) np h lm [OF m1]
        by (auto simp: safe_match_copy_def Let_def)
    next
      case fits: False
      let ?L = "length mem - 7"
      have L: "?L + 7 \<le> length mem" using assms(3) by simp
      show ?thesis
      proof (cases "op + 8 < ?L")
        case True
        obtain m2 where m2: "LZ4_wildCopy8 mem_copy m1 (op + 8) s1 ?L = Some m2" "matched mem m2 op off ?L"
          using wild8_matched [OF m1 g s1 D True order_refl L] by blast
        have "s1 + (?L - (op + 8)) = ?L - D" using True Dle s1 by simp
        moreover have gL: "good_dist off op ?L D" using good_dist_mono [OF g] True by simp
        moreover have "?L + (op + len - ?L) \<le> length mem" using fits L by linarith
        ultimately obtain m3 where m3: "byte_copy m2 ?L (s1 + (?L - (op + 8))) (op + len - ?L) = Some m3"
            "matched mem m3 op off (?L + (op + len - ?L))"
          using byte_copy_matched [OF m2(2) gL refl, of "op + len - ?L"] by metis
        have "matched mem m3 op off (op + len)" by (rule matched_weaken [OF m3(2)]) simp
        then show ?thesis using near fits assms(1) np h m2(1) m3(1) True lm
          by (auto simp: safe_match_copy_def Let_def)
      next
        case False
        have "op + 8 + (op + len - (op + 8)) \<le> length mem" using fits assms(3) by linarith
        then obtain m3 where m3: "byte_copy m1 (op + 8) s1 (op + len - (op + 8)) = Some m3"
            "matched mem m3 op off (op + 8 + (op + len - (op + 8)))"
          using byte_copy_matched [OF m1 g s1] by metis
        have "matched mem m3 op off (op + len)" by (rule matched_weaken [OF m3(2)]) simp
        then show ?thesis using near fits assms(1) np h m3(1) False lm
          by (auto simp: safe_match_copy_def Let_def)
      qed
    qed
  next
    case far: False
    obtain m2 where m2: "mem_copy m1 (op + 8) s1 8 = Some m2" "matched mem m2 op off (op + 8 + 8)"
      using mem_copy_matched [OF m1 g s1 D] far assms(2) by auto
    have g16: "good_dist off op (op + 16) D" using good_dist_mono [OF g] by simp
    show ?thesis
    proof (cases "len > 16")
      case True
      have e: "op + 16 < op + len" "op + len + 7 \<le> length mem" "s1 + 8 = op + 16 - D"
        using True far s1 Dle by auto
      have m2': "matched mem m2 op off (op + 16)" using m2(2) by (simp add: add.assoc)
      obtain m3 where "LZ4_wildCopy8 mem_copy m2 (16 + op) (s1 + 8) (op + len) = Some m3" "matched mem m3 op off (op + len)"
        using wild8_matched [OF m2' g16 e(3) D e(1) order_refl e(2)] by (auto simp: add.commute)
      then show ?thesis using far assms(1) h m2(1) True lm
        by (auto simp: safe_match_copy_def Let_def)
    next
      case False
      have "matched mem m2 op off (op + len)" by (rule matched_weaken [OF m2(2)]) (use False in simp)
      then show ?thesis using far assms(1) h m2(1) False lm
        by (auto simp: safe_match_copy_def Let_def)
    qed
  qed
qed

text \<open>Close to the end of the buffer a partial decode stops or continues after a whole match.\<close>

lemma byte_copy_some: "s \<le> d \<Longrightarrow> d + n \<le> length m \<Longrightarrow> \<exists>m'. byte_copy m d s n = Some m' \<and> length m' = length m"
  using byte_copy_fills [of s d n m] byte_copy_self [of d n m] by (cases "s = d") (auto simp: fills_def)

lemma safe_match_copy_partial:
  assumes "off \<le> op" and "op \<le> length mem" and "op + len + 12 > length mem"
  shows "\<exists>m1. length m1 = length mem \<and> (safe_match_copy True ip op mem off len = Some (Fin (int (length mem)) m1) \<or>
    safe_match_copy True ip op mem off len = Some (Cont ip (op + len) m1) \<and> op + len < length mem)"
proof -
  define n where "n = min len (length mem - op)"
  have n: "op + n \<le> length mem" using assms(2) by (simp add: n_def)
  have "\<exists>m1. (if op - off + n > op then byte_copy mem op (op - off) n else mem_copy mem op (op - off) n) = Some m1 \<and>
      length m1 = length mem"
    using byte_copy_some [of "op - off" op n mem] mem_copy_fills [of op n mem "op - off"] n assms(1)
    by (auto simp: fills_def)
  moreover have "op + n = length mem \<or> n = len \<and> op + len < length mem" using assms(2) by (auto simp: n_def)
  ultimately show ?thesis using assms
    by (auto simp: safe_match_copy_def Let_def n_def [symmetric])
qed

section \<open>What one round reads and writes\<close>

text \<open>
  The stages of a round that started at \<open>ip0\<close> and \<open>op0\<close> in the buffer \<open>mem0\<close>: the token and the
  literal length have been read, the literals copied, the offset read, the match length read.
\<close>

definition tok_done :: "bytes \<Rightarrow> nat \<Rightarrow> nat \<Rightarrow> nat \<Rightarrow> nat \<Rightarrow> bool" where
  "tok_done src ip0 ip token len \<longleftrightarrow> ip0 < ip \<and> ip \<le> length src \<and> token = unat (src ! ip0) \<and>
     token div 16 = min 15 len \<and> drop ip0 src = src ! ip0 # len_ext len @ drop ip src"

definition out_is :: "nat \<Rightarrow> bytes \<Rightarrow> nat \<Rightarrow> bytes \<Rightarrow> bytes \<Rightarrow> bool" where
  "out_is op0 mem0 op mem l \<longleftrightarrow> op = op0 + length l \<and> length mem = length mem0 \<and> op \<le> length mem \<and>
     take op mem = take op0 mem0 @ l"

definition lit_done :: "bytes \<Rightarrow> nat \<Rightarrow> nat \<Rightarrow> nat \<Rightarrow> bytes \<Rightarrow> bool" where
  "lit_done src ip0 ip token l \<longleftrightarrow> ip0 < ip \<and> token = unat (src ! ip0) \<and> token div 16 = min 15 (length l) \<and>
     drop ip0 src = src ! ip0 # len_ext (length l) @ l @ drop ip src"

definition off_done :: "bytes \<Rightarrow> nat \<Rightarrow> nat \<Rightarrow> nat \<Rightarrow> bytes \<Rightarrow> nat \<Rightarrow> bool" where
  "off_done src ip0 ip token l off \<longleftrightarrow> ip0 < ip \<and> token = unat (src ! ip0) \<and>
     token div 16 = min 15 (length l) \<and> off < 65536 \<and>
     drop ip0 src = src ! ip0 # len_ext (length l) @ l @ put_u16 (word_of_nat off) @ drop ip src"

definition len_done :: "bytes \<Rightarrow> nat \<Rightarrow> nat \<Rightarrow> bytes \<Rightarrow> nat \<Rightarrow> nat \<Rightarrow> bool" where
  "len_done src ip0 ip l off n \<longleftrightarrow> ip0 < ip \<and> 4 \<le> n \<and> off < 65536 \<and>
     drop ip0 src = enc_seq (l, off, n) @ drop ip src"

text \<open>
  A good result of a round: the next round starts after one whole sequence that has been applied to
  the output, or decoding ends with an error, or with the last literals.
\<close>

definition seq_ok :: "bool \<Rightarrow> bytes \<Rightarrow> nat \<Rightarrow> nat \<Rightarrow> bytes \<Rightarrow> outcome \<Rightarrow> bool" where
  "seq_ok partial src ip0 op0 mem0 r \<longleftrightarrow>
     (case r of
        Fin k m \<Rightarrow> length m = length mem0 \<and>
          (\<not> partial \<longrightarrow> k < 0 \<or>
             (\<exists>low l. low < 16 \<and> drop ip0 src = enc_last low l \<and> k = int (op0 + length l) \<and>
                out_is op0 mem0 (op0 + length l) m l))
      | Cont ip op m \<Rightarrow> length m = length mem0 \<and> ip0 < ip \<and> ip < length src \<and> op \<le> length mem0 \<and>
          (\<not> partial \<longrightarrow>
             (\<exists>l off n. 4 \<le> n \<and> off < 65536 \<and> off \<le> op0 + length l \<and> op = op0 + length l + n \<and>
                drop ip0 src = enc_seq (l, off, n) @ drop ip src \<and>
                take op m = apply_seq (take op0 mem0) (l, off, n))))"

lemma seq_ok_error: "length m = length mem0 \<Longrightarrow> seq_ok partial src ip0 op0 mem0 (output_error ip m)"
  by (simp add: seq_ok_def output_error_def)

lemma matched_apply:
  assumes "matched mem m op off (op + n)" and "out_is op0 mem0 op mem l" and "op + n \<le> length mem" and "off \<le> op"
  shows "take (op + n) m = apply_seq (take op0 mem0) (l, off, n)"
proof -
  have "take op mem = take op0 mem0 @ l" using assms(2) unfolding out_is_def by blast
  then show ?thesis using matched_take [OF assms(1,3,4)] by (simp only: apply_seq_def prod.case)
qed

lemma matched_seq_ok:
  assumes "len_done src ip0 ip l off n" and "out_is op0 mem0 op mem l" and "matched mem m op off (op + n)"
    and "op + n \<le> length mem" and "off \<le> op" and "ip < length src"
  shows "seq_ok partial src ip0 op0 mem0 (Cont ip (op + n) m)"
proof -
  have "take (op + n) m = apply_seq (take op0 mem0) (l, off, n)"
    by (rule matched_apply [OF assms(3,2,4,5)])
  moreover have "length m = length mem0" using assms(2,3) by (simp add: matched_def out_is_def)
  moreover have "4 \<le> n \<and> off < 65536 \<and> drop ip0 src = enc_seq (l, off, n) @ drop ip src \<and> ip0 < ip"
    and "op = op0 + length l" "length mem = length mem0"
    using assms(1,2) by (simp_all add: len_done_def out_is_def)
  ultimately show ?thesis using assms(4-6) unfolding seq_ok_def outcome.case by metis
qed

lemma safe_match_copy_seq:
  assumes d: "len_done src ip0 ip l off n" and o: "out_is op0 mem0 op mem l"
    and "ip < length src" and room: "partial \<or> op + 12 \<le> length mem"
  shows "\<exists>r. safe_match_copy partial ip op mem off n = Some r \<and> seq_ok partial src ip0 op0 mem0 r"
proof (cases "off \<le> op")
  case False
  then show ?thesis using o by (simp add: safe_match_copy_def seq_ok_error out_is_def)
next
  case le: True
  have n: "4 \<le> n" using d by (simp add: len_done_def)
  show ?thesis
  proof (cases "partial \<and> op + n + 12 > length mem")
    case True
    then show ?thesis
      using safe_match_copy_partial [OF le, of mem n ip] assms
      by (auto simp: seq_ok_def out_is_def len_done_def)
  next
    case False
    have "op + 12 \<le> length mem" using False room n by auto
    then obtain m1 where m1: "safe_match_copy partial ip op mem off n =
        Some (if op + n + 5 > length mem then output_error ip m1 else Cont ip (op + n) m1)"
      "length m1 = length mem" "op + n + 5 \<le> length mem \<longrightarrow> matched mem m1 op off (op + n)"
      using safe_match_copy_ok [OF le n _ False] by blast
    show ?thesis
    proof (cases "op + n + 5 > length mem")
      case True
      then show ?thesis using m1 o by (simp add: seq_ok_error out_is_def)
    next
      case False
      then show ?thesis using m1 matched_seq_ok [OF d o _ _ le assms(3)] by auto
    qed
  qed
qed

lemma token_eq: "t = unat (b :: byte) \<Longrightarrow> t div 16 = x \<Longrightarrow> t mod 16 = y \<Longrightarrow> word_of_nat (16 * x + y) = b"
  using div_mult_mod_eq [of t 16] by (simp add: mult.commute) 

lemma len_done_intro:
  assumes "off_done src ip0 ip token l off" and "drop ip src = len_ext (n - 4) @ drop ip1 src"
    and "4 \<le> n" and "token mod 16 = min 15 (n - 4)" and "ip \<le> ip1"
  shows "len_done src ip0 ip1 l off n"
  using assms token_eq [of token "src ! ip0" "min 15 (length l)" "min 15 (n - 4)"]
  by (auto simp: off_done_def len_done_def enc_seq_def)

lemma copy_match_seq:
  assumes d: "off_done src ip0 ip token l off" and o: "out_is op0 mem0 op mem l"
    and "ip < length src" and room: "partial \<or> op + 12 \<le> length mem"
  shows "\<exists>r. copy_match partial src ip op mem off (token mod 16) = Some r \<and> seq_ok partial src ip0 op0 mem0 r"
proof (cases "token mod 16 = 15")
  case True
  obtain ip1 a where rv: "read_variable_length src ip (length src - 6) = Some (ip1, a)"
      "case a of None \<Rightarrow> True
       | Some n \<Rightarrow> ip < ip1 \<and> ip1 \<le> length src - 6 \<and> drop ip src = put_ext n @ drop ip1 src"
    using read_variable_length_ok [of "length src - 6" src ip] by auto
  show ?thesis
  proof (cases a)
    case None
    then show ?thesis using True rv(1) o by (simp add: copy_match_def seq_ok_error out_is_def)
  next
    case (Some n)
    then have r: "ip < ip1" "ip1 \<le> length src - 6" "drop ip src = put_ext n @ drop ip1 src" using rv(2) by auto
    then have "len_done src ip0 ip1 l off (15 + n + 4)"
      using d True by (intro len_done_intro [OF d]) (auto simp: len_ext_def)
    moreover have "ip1 < length src" using r by linarith
    ultimately show ?thesis
      using safe_match_copy_seq [OF _ o _ room] True rv(1) Some by (simp add: copy_match_def)
  qed
next
  case False
  have "token mod 16 < 16" by simp
  then have "token mod 16 < 15" using False by linarith
  then have "len_done src ip0 ip l off (token mod 16 + 4)"
    by (intro len_done_intro [OF d]) (auto simp: len_ext_def)
  then show ?thesis using safe_match_copy_seq [OF _ o assms(3) room] False by (simp add: copy_match_def)
qed

lemma LZ4_readLE16_ok:
  assumes "i + 2 \<le> length src"
  shows "\<exists>off. LZ4_readLE16 src i = Some off \<and> off < 65536 \<and> drop i src = put_u16 (word_of_nat off) @ drop (i + 2) src"
proof -
  let ?bs = "slice_at i 2 src"
  have l: "length ?bs = 2" using assms by simp
  have "le_dec ?bs < 65536" using le_dec_bound [of ?bs] l by simp
  then have "put_u16 (get_u16 ?bs) = ?bs"
    using le_enc_le_dec [of ?bs] l by (simp add: put_u16_def get_u16_def unat_of_nat)
  moreover have "drop i src = ?bs @ drop (i + 2) src"
    by (simp only: slice_at_def add.commute [of i 2] drop_drop [symmetric] append_take_drop_id)
  moreover have "unat (get_u16 ?bs) < 65536" using unsigned_less [of "get_u16 ?bs"] by simp
  ultimately show ?thesis using assms
    by (intro exI [of _ "unat (get_u16 ?bs)"]) (simp add: LZ4_readLE16_def mem_read_def)
qed

lemma get_offset_seq:
  assumes d: "lit_done src ip0 ip token l" and o: "out_is op0 mem0 op mem l"
    and "ip + 2 < length src" and room: "partial \<or> op + 12 \<le> length mem"
  shows "\<exists>r. get_offset partial src token ip op mem = Some r \<and> seq_ok partial src ip0 op0 mem0 r"
proof -
  obtain off where off: "LZ4_readLE16 src ip = Some off" "off < 65536"
      "drop ip src = put_u16 (word_of_nat off) @ drop (ip + 2) src"
    using LZ4_readLE16_ok [of ip src] assms(3) by auto
  have "off_done src ip0 (ip + 2) token l off"
    using d off by (auto simp: lit_done_def off_done_def)
  then show ?thesis using copy_match_seq [OF _ o assms(3) room] off(1) by (simp add: get_offset_def)
qed

text \<open>After the literals have been copied.\<close>

lemma take_fills: "fills m m' d e f \<Longrightarrow> d \<le> length m \<Longrightarrow> take d m' = take d m"
  by (intro nth_equalityI) (auto simp: fills_def)

lemma literals_copied:
  assumes "fills mem m op e (\<lambda>j. src ! (ip + (j - op)))" and "op + len \<le> e" and "op + len \<le> length mem"
    and "ip + len \<le> length src"
  shows "take (op + len) m = take op mem @ slice_at ip len src"
proof (rule nth_equalityI)
  show "length (take (op + len) m) = length (take op mem @ slice_at ip len src)"
    using assms by (simp add: fills_def)
next
  fix i assume "i < length (take (op + len) m)"
  then have i: "i < op + len" by simp
  show "take (op + len) m ! i = (take op mem @ slice_at ip len src) ! i"
    using assms i by (auto simp: fills_def nth_append nth_slice_at)
qed

lemma lit_done_intro:
  assumes t: "tok_done src ip0 ip token len" and "ip + len \<le> length src" and "op \<le> length mem"
    and f: "fills mem m op e (\<lambda>j. src ! (ip + (j - op)))" and "op + len \<le> e" and "op + len \<le> length mem"
  shows "lit_done src ip0 (ip + len) token (slice_at ip len src)"
    and "out_is op mem (op + len) m (slice_at ip len src)"
proof -
  let ?l = "slice_at ip len src"
  have l: "length ?l = len" using assms(2) by simp
  have "drop ip src = ?l @ drop (ip + len) src"
    by (simp only: slice_at_def add.commute [of ip len] drop_drop [symmetric] append_take_drop_id)
  then show "lit_done src ip0 (ip + len) token ?l"
    using t l by (auto simp: tok_done_def lit_done_def)
  show "out_is op mem (op + len) m ?l"
    using literals_copied [OF f assms(5,6,2)] l assms(6) f by (simp add: out_is_def fills_def)
qed

lemma last_literals_ok:
  assumes "lit_done src ip0 ip token l" and "out_is op0 mem0 op m l" and "ip = length src"
  shows "seq_ok partial src ip0 op0 mem0 (Fin (int op) m)"
proof -
  have "drop ip0 src = enc_last (token mod 16) l"
    using assms(1,3) token_eq [of token "src ! ip0" "min 15 (length l)" "token mod 16"]
    by (auto simp: lit_done_def enc_last_def simp del: of_nat_add)
  moreover have "op = op0 + length l" "length m = length mem0" using assms(2) by (simp_all add: out_is_def)
  moreover have "token mod 16 < 16" by simp
  ultimately show ?thesis using assms(2) unfolding seq_ok_def outcome.case by metis
qed

lemma safe_literal_copy_seq:
  assumes t: "tok_done src ip0 ip token len" and op: "op \<le> length mem"
  shows "\<exists>r. safe_literal_copy partial src token len ip op mem = Some r \<and> seq_ok partial src ip0 op mem r"
proof (cases "op + len + 12 > length mem \<or> ip + len + 8 > length src")
  case near: True
  show ?thesis
  proof (cases partial)
    case False
    show ?thesis
    proof (cases "ip + len \<noteq> length src \<or> op + len > length mem")
      case True
      then show ?thesis using near False by (auto simp: safe_literal_copy_def Let_def seq_ok_error)
    next
      case fits: False
      then have b: "op + len \<le> length mem" "ip + len \<le> length src" by auto
      obtain m where m: "copy_in src mem op ip len = Some m" "fills mem m op (op + len) (\<lambda>j. src ! (ip + (j - op)))"
        using copy_in_fills [OF b] by blast
      have "seq_ok False src ip0 op mem (Fin (int (op + len)) m)"
        by (rule last_literals_ok [OF lit_done_intro [OF t b(2) op m(2) order_refl b(1)]]) (use fits in simp)
      then show ?thesis using near False fits m(1) by (simp add: safe_literal_copy_def Let_def)
    qed
  next
    case True
    define len1 where "len1 = (if ip + len > length src then length src - ip else len)"
    define len2 where "len2 = (if op + len1 > length mem then length mem - op else len1)"
    have ip: "ip \<le> length src" using t by (simp add: tok_done_def)
    have b: "op + len2 \<le> length mem" "ip + len2 \<le> length src"
      using op ip by (auto simp: len1_def len2_def)
    obtain m where m: "copy_in src mem op ip len2 = Some m" "fills mem m op (op + len2) (\<lambda>j. src ! (ip + (j - op)))"
      using copy_in_fills [OF b] by blast
    have e: "safe_literal_copy partial src token len ip op mem =
        (if op + len2 = length mem \<or> ip + len2 + 2 \<ge> length src then Some (Fin (int (op + len2)) m)
         else get_offset partial src token (ip + len2) (op + len2) m)"
      using near True m(1)
      by (simp add: safe_literal_copy_def Let_def len1_def [symmetric] len2_def [symmetric])
    show ?thesis
    proof (cases "op + len2 = length mem \<or> ip + len2 + 2 \<ge> length src")
      case True
      then show ?thesis using e \<open>partial\<close> fills_length [OF m(2)] by (auto simp: seq_ok_def)
    next
      case False
      then have "len2 = len" using ip op by (auto simp: len1_def len2_def split: if_splits)
      then have "lit_done src ip0 (ip + len2) token (slice_at ip len2 src)"
          "out_is op mem (op + len2) m (slice_at ip len2 src)"
        using lit_done_intro [OF t _ op m(2)] b by auto
      then show ?thesis using get_offset_seq [of src ip0 "ip + len2" token _ op mem "op + len2" m partial] e False True
        by auto
    qed
  qed
next
  case far: False
  have E: "op < max (op + 1) (op + len)" "op + len \<le> max (op + 1) (op + len)"
      "max (op + 1) (op + len) + 7 \<le> length mem" "ip + (max (op + 1) (op + len) - op) + 7 \<le> length src"
    using far by auto
  obtain m where m: "LZ4_wildCopy8 (copy_in src) mem op ip (op + len) = Some m"
      "fills mem m op (op + len) (\<lambda>j. src ! (ip + (j - op)))"
    using wildCopy8_in [OF E] by blast
  have b: "ip + len \<le> length src" "op + len \<le> length mem" using far by auto
  note l = lit_done_intro [OF t b(1) op m(2) order_refl b(2)]
  have "ip + len + 2 < length src" "partial \<or> op + len + 12 \<le> length m"
    using far fills_length [OF m(2)] by auto
  from get_offset_seq [OF l this] show ?thesis using far m(1) by (simp add: safe_literal_copy_def Let_def)
qed

lemma safe_literal_copy_early_seq:
  assumes "ip0 < length src" and "token = unat (src ! ip0)" and op: "op \<le> length mem"
  shows "\<exists>r. safe_literal_copy_early partial src token (ip0 + 1) op mem = Some r \<and> seq_ok partial src ip0 op mem r"
proof -
  have d: "drop ip0 src = src ! ip0 # drop (ip0 + 1) src" using assms(1) by (simp add: Cons_nth_drop_Suc)
  have t16: "token div 16 < 16" using assms(2) unat_byte_lt [of "src ! ip0"] by simp
  show ?thesis
  proof (cases "token div 16 = 15")
    case True
    obtain ip1 a where rv: "read_variable_length src (ip0 + 1) (length src - 15) = Some (ip1, a)"
        "case a of None \<Rightarrow> True
         | Some n \<Rightarrow> ip0 + 1 < ip1 \<and> ip1 \<le> length src - 15 \<and> drop (ip0 + 1) src = put_ext n @ drop ip1 src"
      using read_variable_length_ok [of "length src - 15" src "ip0 + 1"] by auto
    show ?thesis
    proof (cases a)
      case None
      then show ?thesis using True rv(1) by (simp add: safe_literal_copy_early_def seq_ok_error)
    next
      case (Some n)
      then have "tok_done src ip0 ip1 token (15 + n)"
        using rv(2) True assms(2) d by (auto simp: tok_done_def len_ext_def)
      then show ?thesis using safe_literal_copy_seq [OF _ op] True rv(1) Some
        by (simp add: safe_literal_copy_early_def)
    qed
  next
    case False
    then have "tok_done src ip0 (ip0 + 1) token (token div 16)"
      using t16 assms(1,2) d by (auto simp: tok_done_def len_ext_def)
    then show ?thesis using safe_literal_copy_seq [OF _ op] False by (simp add: safe_literal_copy_early_def)
  qed
qed

lemma safe_step_seq:
  assumes ip: "ip0 < length src" and op: "op \<le> length mem"
  shows "\<exists>r. safe_step partial src ip0 op mem = Some r \<and> seq_ok partial src ip0 op mem r"
proof -
  define token where "token = unat (src ! ip0)"
  define len where "len = token div 16"
  have tk: "mem_byte src ip0 = Some token" using ip by (simp add: mem_byte_def token_def)
  have d: "drop ip0 src = src ! ip0 # drop (ip0 + 1) src" using ip by (simp add: Cons_nth_drop_Suc)
  have l16: "len < 16" using unat_byte_lt [of "src ! ip0"] by (simp add: len_def token_def)
  show ?thesis
  proof (cases "len \<noteq> 15 \<and> ip0 + 1 + 16 < length src \<and> op + 32 \<le> length mem")
    case False
    then show ?thesis using safe_literal_copy_early_seq [OF ip token_def op] tk
      by (auto simp: safe_step_def Let_def len_def [symmetric])
  next
    case short: True
    have t: "tok_done src ip0 (ip0 + 1) token len"
      using l16 short ip d by (auto simp: tok_done_def len_ext_def token_def len_def)
    have b: "op + 16 \<le> length mem" "ip0 + 1 + 16 \<le> length src" using short by auto
    obtain m1 where m1: "copy_in src mem op (ip0 + 1) 16 = Some m1"
        "fills mem m1 op (op + 16) (\<lambda>j. src ! (ip0 + 1 + (j - op)))"
      using copy_in_fills [OF b] by blast
    have b1: "ip0 + 1 + len \<le> length src" "op + len \<le> op + 16" "op + len \<le> length mem"
      using l16 short by auto
    note l = lit_done_intro [OF t b1(1) op m1(2) b1(2,3)]
    let ?l = "slice_at (ip0 + 1) len src"
    have lm: "length m1 = length mem" by (rule fills_length [OF m1(2)])
    have e2: "ip0 + 1 + len + 2 < length src" using short l16 by auto
    then obtain off where off: "LZ4_readLE16 src (ip0 + 1 + len) = Some off" "off < 65536"
        "drop (ip0 + 1 + len) src = put_u16 (word_of_nat off) @ drop (ip0 + 1 + len + 2) src"
      using LZ4_readLE16_ok [of "ip0 + 1 + len" src] by auto
    have od: "off_done src ip0 (ip0 + 1 + len + 2) token ?l off"
      using l(1) off by (auto simp: lit_done_def off_done_def)
    show ?thesis
    proof (cases "token mod 16 \<noteq> 15 \<and> off \<ge> 8 \<and> off \<le> op + len")
      case True
      have n: "token mod 16 < 15" using True mod_less_divisor [of 16 token] by linarith
      have b2: "8 \<le> off" "off \<le> op + len" "op + len + 18 \<le> length m1"
        using True l16 short lm by auto
      obtain m2 where m2: "copy_18 m1 (op + len) (op + len - off) = Some m2" "matched m1 m2 (op + len) off (op + len + 18)"
        using copy_18_ok [OF b2] by blast
      have ld: "len_done src ip0 (ip0 + 1 + len + 2) ?l off (token mod 16 + 4)"
        using n by (intro len_done_intro [OF od]) (auto simp: len_ext_def)
      have "matched m1 m2 (op + len) off (op + len + (token mod 16 + 4))"
        by (rule matched_weaken [OF m2(2)]) (use n in simp)
      from matched_seq_ok [OF ld l(2) this _ b2(2) e2]
      have "seq_ok partial src ip0 op mem (Cont (ip0 + 1 + len + 2) (op + len + (token mod 16 + 4)) m2)"
        using n b2(3) by simp
      then show ?thesis using short True tk m1(1) off(1) m2(1)
        by (simp add: safe_step_def Let_def len_def [symmetric] add.commute add.left_commute)
    next
      case False
      have "partial \<or> op + len + 12 \<le> length m1" using short l16 lm by auto
      from copy_match_seq [OF od l(2) e2 this]
      show ?thesis using short False tk m1(1) off(1)
        by (auto simp: safe_step_def Let_def len_def [symmetric])
    qed
  qed
qed

definition fast_ok :: "bool \<Rightarrow> bytes \<Rightarrow> nat \<Rightarrow> nat \<Rightarrow> bytes \<Rightarrow> bool \<times> outcome \<Rightarrow> bool" where
  "fast_ok partial src ip0 op0 mem0 br \<longleftrightarrow> seq_ok partial src ip0 op0 mem0 (snd br) \<and>
     (fst br \<longrightarrow> (\<forall>ip op m. snd br = Cont ip op m \<longrightarrow> op + 64 \<le> length m))"

lemma fast_ok_safe:
  "\<exists>r. x = Some r \<and> seq_ok partial src ip0 op0 mem0 r \<Longrightarrow>
     \<exists>br. map_option (Pair False) x = Some br \<and> fast_ok partial src ip0 op0 mem0 br"
  by (auto simp: fast_ok_def)

lemma fast_match_seq:
  assumes d: "lit_done src ip0 ip token l" and o: "out_is op0 mem0 op mem l"
    and ip2: "ip + 2 < length src" and room: "op + 12 \<le> length mem"
  shows "\<exists>br. fast_match partial src token ip op mem = Some br \<and> fast_ok partial src ip0 op0 mem0 br"
proof -
  obtain off where off: "LZ4_readLE16 src ip = Some off" "off < 65536"
      "drop ip src = put_u16 (word_of_nat off) @ drop (ip + 2) src"
    using LZ4_readLE16_ok [of ip src] ip2 by auto
  have od: "off_done src ip0 (ip + 2) token l off" using d off by (auto simp: lit_done_def off_done_def)
  have lm: "length mem = length mem0" using o by (simp add: out_is_def)
  define mlen where "mlen = token mod 16"
  let ?rl = "fast_match_length src token (ip + 2)"
  have rl: "\<exists>ip1 a. ?rl = Some (ip1, a) \<and> (case a of None \<Rightarrow> True | Some n \<Rightarrow> len_done src ip0 ip1 l off n \<and>
      ip1 < length src \<and> (mlen \<noteq> 15 \<longrightarrow> n \<le> 18))"
  proof (cases "mlen = 15")
    case True
    obtain ip1 a where rv: "read_variable_length src (ip + 2) (length src - 6) = Some (ip1, a)"
        "case a of None \<Rightarrow> True
         | Some n \<Rightarrow> ip + 2 < ip1 \<and> ip1 \<le> length src - 6 \<and> drop (ip + 2) src = put_ext n @ drop ip1 src"
      using read_variable_length_ok [of "length src - 6" src "ip + 2"] by auto
    have "len_done src ip0 ip1 l off (15 + n + 4) \<and> ip1 < length src" if "a = Some n" for n
      using rv(2) that True by (auto simp: len_ext_def mlen_def intro!: len_done_intro [OF od])
    then show ?thesis using rv(1) True by (auto simp: fast_match_length_def mlen_def [symmetric] split: option.splits)
  next
    case False
    have m16: "mlen < 16" by (simp add: mlen_def)
    then have "len_done src ip0 (ip + 2) l off (mlen + 4)"
      using False by (intro len_done_intro [OF od]) (auto simp: len_ext_def mlen_def)
    then show ?thesis using False ip2 m16 by (auto simp: fast_match_length_def mlen_def [symmetric])
  qed
  then obtain ip1 a where rl1: "?rl = Some (ip1, a)"
    and a: "case a of None \<Rightarrow> True | Some n \<Rightarrow> len_done src ip0 ip1 l off n \<and> ip1 < length src \<and> (mlen \<noteq> 15 \<longrightarrow> n \<le> 18)"
    by blast
  have e: "fast_match partial src token ip op mem =
      (case a of None \<Rightarrow> Some (False, output_error ip1 mem)
       | Some len \<Rightarrow>
            if op + len + FASTLOOP_SAFE_DISTANCE \<ge> length mem
            then map_option (Pair False) (safe_match_copy partial ip1 op mem off len)
            else if mlen \<noteq> ML_MASK \<and> off \<le> op \<and> off \<ge> 8 then do {
              m1 \<leftarrow> copy_18 mem op (op - off);
              Some (True, Cont ip1 (op + len) m1)
            }
            else if off > op then Some (False, output_error ip1 mem)
            else do {
              m1 \<leftarrow> (if off < 16 then LZ4_memcpy_using_offset mem op (op - off) (op + len) off
                    else LZ4_wildCopy32 mem_copy mem op (op - off) (op + len));
              Some (True, Cont ip1 (op + len) m1)
            })"
    using rl1 off(1) by (cases a) (simp_all add: fast_match_def Let_def mlen_def [symmetric])
  show ?thesis
  proof (cases a)
    case None
    then show ?thesis using e lm by (simp add: fast_ok_def seq_ok_error)
  next
    case (Some n)
    then have ld: "len_done src ip0 ip1 l off n" and ip1: "ip1 < length src" and n18: "mlen \<noteq> 15 \<longrightarrow> n \<le> 18"
      using a by auto
    have n4: "4 \<le> n" using ld by (simp add: len_done_def)
    show ?thesis
    proof (cases "op + n + 64 \<ge> length mem")
      case True
      then show ?thesis using e Some fast_ok_safe [OF safe_match_copy_seq [OF ld o ip1, of partial]] room
        by simp
    next
      case far: False
      have good: "fast_ok partial src ip0 op0 mem0 (True, Cont ip1 (op + n) m)"
        if "matched mem m op off (op + n)" "off \<le> op" for m
        using matched_seq_ok [OF ld o that(1) _ that(2) ip1, of partial] far that(1)
        by (simp add: fast_ok_def matched_def)
      show ?thesis
      proof (cases "off \<le> op")
        case False
        then show ?thesis using e Some far lm by (simp add: fast_ok_def seq_ok_error)
      next
        case le: True
        show ?thesis
        proof (cases "mlen \<noteq> 15 \<and> off \<ge> 8")
          case True
          then have "8 \<le> off" "op + 18 \<le> length mem" using far by auto
          then obtain m where m: "copy_18 mem op (op - off) = Some m" "matched mem m op off (op + 18)"
            using copy_18_ok le by blast
          have "matched mem m op off (op + n)" by (rule matched_weaken [OF m(2)]) (use n18 True in simp)
          then show ?thesis using e Some far le True m(1) good by simp
        next
          case slow: False
          have "\<exists>m. (if off < 16 then LZ4_memcpy_using_offset mem op (op - off) (op + n) off
                    else LZ4_wildCopy32 mem_copy mem op (op - off) (op + n)) = Some m \<and> matched mem m op off (op + n)"
          proof (cases "off < 16")
            case True
            then show ?thesis using using_offset_ok [OF le, of mem "op + n"] far by auto
          next
            case False
            then have "good_dist off op op off" using le by (intro good_dist_self) auto
            then show ?thesis
              using wild32_matched [OF matched_start [of mem], of off op off "op - off" "op + n" "op + n"] far n4 False
              by auto
          qed
          then obtain m where m: "(if off < 16 then LZ4_memcpy_using_offset mem op (op - off) (op + n) off
                    else LZ4_wildCopy32 mem_copy mem op (op - off) (op + n)) = Some m" "matched mem m op off (op + n)"
            by blast
          have "fast_match partial src token ip op mem = Some (True, Cont ip1 (op + n) m)"
            using e Some far le slow m(1) by auto
          then show ?thesis using good [OF m(2) le] by blast
        qed
      qed
    qed
  qed
qed

lemma fast_step_seq:
  assumes ip: "ip0 < length src" and op: "op + 64 \<le> length mem"
  shows "\<exists>br. fast_step partial src ip0 op mem = Some br \<and> fast_ok partial src ip0 op mem br"
proof -
  define token where "token = unat (src ! ip0)"
  define len where "len = token div 16"
  have tk: "mem_byte src ip0 = Some token" using ip by (simp add: mem_byte_def token_def)
  have d: "drop ip0 src = src ! ip0 # drop (ip0 + 1) src" using ip by (simp add: Cons_nth_drop_Suc)
  have l16: "len < 16" using unat_byte_lt [of "src ! ip0"] by (simp add: len_def token_def)
  have op': "op \<le> length mem" using op by simp
  show ?thesis
  proof (cases "ip0 + 1 + 17 > length src")
    case True
    then show ?thesis using fast_ok_safe [OF safe_literal_copy_early_seq [OF ip token_def op']] tk
      by (simp add: fast_step_def Let_def)
  next
    case inside: False
    show ?thesis
    proof (cases "len = 15")
      case True
      obtain ip1 a where rv: "read_variable_length src (ip0 + 1) (length src - 15) = Some (ip1, a)"
          "case a of None \<Rightarrow> True
           | Some n \<Rightarrow> ip0 + 1 < ip1 \<and> ip1 \<le> length src - 15 \<and> drop (ip0 + 1) src = put_ext n @ drop ip1 src"
        using read_variable_length_ok [of "length src - 15" src "ip0 + 1"] by auto
      show ?thesis
      proof (cases a)
        case None
        then show ?thesis using True rv(1) inside tk
          by (simp add: fast_step_def Let_def len_def [symmetric] fast_ok_def seq_ok_error)
      next
        case (Some n)
        let ?n = "15 + n"
        have t: "tok_done src ip0 ip1 token ?n"
          using rv(2) Some True d by (auto simp: tok_done_def len_ext_def len_def token_def)
        show ?thesis
        proof (cases "op + ?n + 32 > length mem \<or> ip1 + ?n + 32 > length src")
          case near: True
          have "fast_step partial src ip0 op mem =
              map_option (Pair False) (safe_literal_copy partial src token ?n ip1 op mem)"
            using near True rv(1) Some inside tk by (simp add: fast_step_def Let_def len_def [symmetric])
          then show ?thesis using fast_ok_safe [OF safe_literal_copy_seq [OF t op']] by metis
        next
          case far: False
          have E: "op < op + ?n" "op + ?n + 31 \<le> length mem" "ip1 + (op + ?n - op) + 31 \<le> length src"
            using far by auto
          obtain m where m: "LZ4_wildCopy32 (copy_in src) mem op ip1 (op + ?n) = Some m"
              "fills mem m op (op + ?n) (\<lambda>j. src ! (ip1 + (j - op)))"
            using wildCopy32_in [OF E(1) order_refl E(2,3)] by blast
          have b: "ip1 + ?n \<le> length src" "op + ?n \<le> length mem" using far by auto
          note l = lit_done_intro [OF t b(1) op' m(2) order_refl b(2)]
          have "ip1 + ?n + 2 < length src" "op + ?n + 12 \<le> length m" using far fills_length [OF m(2)] by auto
          from fast_match_seq [OF l this, of partial]
          show ?thesis using far True rv(1) Some inside tk m(1)
            by (simp add: fast_step_def Let_def len_def [symmetric])
        qed
      qed
    next
      case short: False
      have t: "tok_done src ip0 (ip0 + 1) token len"
        using l16 short ip d by (auto simp: tok_done_def len_ext_def token_def len_def)
      have b: "op + 16 \<le> length mem" "ip0 + 1 + 16 \<le> length src" using inside op by auto
      obtain m where m: "copy_in src mem op (ip0 + 1) 16 = Some m"
          "fills mem m op (op + 16) (\<lambda>j. src ! (ip0 + 1 + (j - op)))"
        using copy_in_fills [OF b] by blast
      have b1: "ip0 + 1 + len \<le> length src" "op + len \<le> op + 16" "op + len \<le> length mem"
        using l16 inside op by auto
      note l = lit_done_intro [OF t b1(1) op' m(2) b1(2,3)]
      have "ip0 + 1 + len + 2 < length src" "op + len + 12 \<le> length m"
        using inside short l16 op fills_length [OF m(2)] by auto
      from fast_match_seq [OF l this, of partial]
      show ?thesis using short inside tk m(1)
        by (simp add: fast_step_def Let_def len_def [symmetric])
    qed
  qed
qed

section \<open>The loop\<close>

text \<open>
  The sequences the decoder accepts: a match of at least four bytes, from an offset below 65536 that reaches no
  further back than the output. Offset 0, which the format calls invalid, is one of them.
\<close>

fun seqs_ok :: "nat \<Rightarrow> lz_seq list \<Rightarrow> bool" where
  "seqs_ok p [] = True"
| "seqs_ok p ((l, off, n) # ss) =
     (4 \<le> n \<and> off < 65536 \<and> off \<le> p + length l \<and> seqs_ok (p + length l + n) ss)"

definition round :: "bool \<Rightarrow> bool \<Rightarrow> bytes \<Rightarrow> nat \<Rightarrow> nat \<Rightarrow> bytes \<Rightarrow> (bool \<times> outcome) option" where
  "round fast partial src ip op mem =
     (if fast then fast_step partial src ip op mem else map_option (Pair False) (safe_step partial src ip op mem))"

lemma round_ok:
  assumes "ip < length src" and "op \<le> length mem" and "fast \<Longrightarrow> op + 64 \<le> length mem"
  shows "\<exists>br. round fast partial src ip op mem = Some br \<and> fast_ok partial src ip op mem br"
proof (cases fast)
  case True
  then show ?thesis using fast_step_seq assms by (simp add: round_def)
next
  case False
  then show ?thesis using fast_ok_safe [OF safe_step_seq [OF assms(1,2)]] by (simp add: round_def)
qed

lemma decode_loop_round:
  "decode_loop (Suc n) fast partial src ip op mem =
     do { (fast1, r) \<leftarrow> round fast partial src ip op mem;
          case r of Fin k m \<Rightarrow> Some (k, m) | Cont ip1 op1 m \<Rightarrow> decode_loop n fast1 partial src ip1 op1 m }"
  by (simp add: round_def)

text \<open>A result of the loop that is right: an error, or the decoding of the rest of the input.\<close>

definition decoded_rest :: "bytes \<Rightarrow> nat \<Rightarrow> nat \<Rightarrow> bytes \<Rightarrow> int \<Rightarrow> bytes \<Rightarrow> bool" where
  "decoded_rest src ip op mem k m \<longleftrightarrow> k < 0 \<or>
     (\<exists>ss low l. low < 16 \<and> drop ip src = lz_block ss low l \<and> seqs_ok op ss \<and> k \<le> int (length mem) \<and>
        take (nat k) m = foldl apply_seq (take op mem) ss @ l)"

lemma decode_loop_ok:
  assumes "length src - ip \<le> n" and "ip < length src" and "op \<le> length mem" and "fast \<Longrightarrow> op + 64 \<le> length mem"
  shows "\<exists>k m. decode_loop n fast partial src ip op mem = Some (k, m) \<and> length m = length mem \<and>
    (\<not> partial \<longrightarrow> decoded_rest src ip op mem k m)"
  using assms
proof (induction n arbitrary: fast ip op mem)
  case 0
  then show ?case by simp
next
  case (Suc n)
  obtain fast1 r where rd: "round fast partial src ip op mem = Some (fast1, r)"
    and ok: "fast_ok partial src ip op mem (fast1, r)"
    using round_ok [OF Suc.prems(2,3), where fast = fast and partial = partial] Suc.prems(4) by auto
  show ?case
  proof (cases r)
    case (Fin k m)
    have "seq_ok partial src ip op mem (Fin k m)" using ok Fin by (simp add: fast_ok_def)
    moreover have "decoded_rest src ip op mem k m"
      if "low < 16" "drop ip src = enc_last low l" "k = int (op + length l)" "out_is op mem (op + length l) m l" for low l
    proof -
      have "nat k = op + length l" using that(3) by simp
      then have "low < 16 \<and> drop ip src = lz_block [] low l \<and> seqs_ok op [] \<and> k \<le> int (length mem) \<and>
          take (nat k) m = foldl apply_seq (take op mem) [] @ l"
        using that by (simp add: lz_block_def out_is_def)
      then show ?thesis unfolding decoded_rest_def by blast
    qed
    ultimately show ?thesis using rd Fin
      by (auto simp: decode_loop_round seq_ok_def decoded_rest_def simp del: decode_loop.simps)
  next
    case (Cont ip1 op1 m)
    have s: "seq_ok partial src ip op mem (Cont ip1 op1 m)" and f: "fast1 \<Longrightarrow> op1 + 64 \<le> length m"
      using ok Cont by (auto simp: fast_ok_def)
    then have b: "length m = length mem" "ip < ip1" "ip1 < length src" "op1 \<le> length m" by (auto simp: seq_ok_def)
    have "length src - ip1 \<le> n" using Suc.prems(1) b(2) by linarith
    then obtain k m' where ih: "decode_loop n fast1 partial src ip1 op1 m = Some (k, m')" "length m' = length m"
        "\<not> partial \<longrightarrow> decoded_rest src ip1 op1 m k m'"
      using Suc.IH [of ip1 op1 m fast1] b f by auto
    have "decoded_rest src ip op mem k m'" if p: "\<not> partial"
    proof (cases "k < 0")
      case False
      then obtain ss low l where r: "low < 16" "drop ip1 src = lz_block ss low l" "seqs_ok op1 ss"
          "k \<le> int (length m)" "take (nat k) m' = foldl apply_seq (take op1 m) ss @ l"
        using ih(3) p by (auto simp: decoded_rest_def)
      obtain l1 off j where q: "4 \<le> j" "off < 65536" "off \<le> op + length l1" "op1 = op + length l1 + j"
          "drop ip src = enc_seq (l1, off, j) @ drop ip1 src" "take op1 m = apply_seq (take op mem) (l1, off, j)"
        using s p unfolding seq_ok_def outcome.case by blast
      have "drop ip src = lz_block ((l1, off, j) # ss) low l" using q(5) r(2) by (simp add: lz_block_def)
      moreover have "seqs_ok op ((l1, off, j) # ss)" using q r(3) by simp
      moreover have "take (nat k) m' = foldl apply_seq (take op mem) ((l1, off, j) # ss) @ l" using q(6) r(5) by simp
      ultimately show ?thesis using r(1,4) b(1) unfolding decoded_rest_def by metis
    qed (simp add: decoded_rest_def)
    then show ?thesis using rd Cont ih b by (simp add: decode_loop_round del: decode_loop.simps)
  qed
qed

section \<open>Blocks that keep the end-of-block rules are accepted\<close>

definition is_cont :: "outcome option \<Rightarrow> bool" where
  "is_cont x \<longleftrightarrow> (\<exists>ip op m. x = Some (Cont ip op m))"

text \<open>The input at a pointer: what remains of a sequence, followed by at least six bytes.\<close>

definition seq_tail :: "bytes \<Rightarrow> nat \<Rightarrow> nat \<Rightarrow> nat \<Rightarrow> bool" where
  "seq_tail src ip mcode n \<longleftrightarrow> 4 \<le> n \<and> mcode = min 15 (n - 4) \<and>
     (\<exists>rest. drop ip src = len_ext (n - 4) @ rest \<and> 6 \<le> length rest)"

definition off_tail :: "bytes \<Rightarrow> nat \<Rightarrow> nat \<Rightarrow> nat \<Rightarrow> nat \<Rightarrow> bool" where
  "off_tail src ip off mcode n \<longleftrightarrow> off < 65536 \<and> ip + 2 \<le> length src \<and>
     drop ip src = put_u16 (word_of_nat off) @ drop (ip + 2) src \<and> seq_tail src (ip + 2) mcode n"

text \<open>There is room for a match of length \<open>n\<close> at \<open>op\<close>.\<close>

definition match_fits :: "nat \<Rightarrow> nat \<Rightarrow> nat \<Rightarrow> nat \<Rightarrow> bool" where
  "match_fits cap op off n \<longleftrightarrow> off \<le> op \<and> 4 \<le> n \<and> op + 12 \<le> cap \<and> op + n + 5 \<le> cap"

lemma safe_match_copy_cont:
  "match_fits (length mem) op off n \<Longrightarrow> is_cont (safe_match_copy False ip op mem off n)"
  using safe_match_copy_ok [of off op n mem False ip] by (auto simp: match_fits_def is_cont_def)

lemma seq_tail_len:
  assumes "seq_tail src ip mcode n"
  shows "(if mcode = 15 then \<exists>ip1 a. read_variable_length src ip (length src - 6) = Some (ip1, Some a) \<and> n = 15 + a + 4
          else n = mcode + 4)"
proof (cases "n - 4 < 15")
  case True
  then show ?thesis using assms by (auto simp: seq_tail_def)
next
  case False
  then obtain rest where r: "drop ip src = put_ext (n - 4 - 15) @ rest" "6 \<le> length rest" "mcode = 15"
    using assms by (auto simp: seq_tail_def len_ext_def)
  have "length src - ip = length (put_ext (n - 4 - 15)) + length rest"
    using arg_cong [OF r(1), of length] by simp
  then have "ip + length (put_ext (n - 4 - 15)) \<le> length src - 6" using r(2) by linarith
  then show ?thesis using read_variable_length_put [OF r(1)] r(3) False by auto
qed

lemma copy_match_cont:
  assumes t: "seq_tail src ip mcode n" and f: "match_fits (length mem) op off n"
  shows "is_cont (copy_match False src ip op mem off mcode)"
proof (cases "mcode = 15")
  case True
  then obtain ip1 a where "read_variable_length src ip (length src - 6) = Some (ip1, Some a)" "n = 15 + a + 4"
    using seq_tail_len [OF t] by auto
  then show ?thesis using safe_match_copy_cont [OF f, of ip1] True by (simp add: copy_match_def)
next
  case False
  then show ?thesis using seq_tail_len [OF t] safe_match_copy_cont [OF f, of ip]
    by (simp add: copy_match_def)
qed

lemma off_tail_read: "off_tail src ip off mcode n \<Longrightarrow> LZ4_readLE16 src ip = Some off"
proof -
  assume t: "off_tail src ip off mcode n"
  then have "slice_at ip 2 src = put_u16 (word_of_nat off)" by (simp add: off_tail_def slice_at_def)
  then show ?thesis using t by (simp add: LZ4_readLE16_def mem_read_def off_tail_def unat_of_nat)
qed

lemma get_offset_cont:
  assumes "off_tail src ip off (token mod 16) n" and "match_fits (length mem) op off n"
  shows "is_cont (get_offset False src token ip op mem)"
  using off_tail_read [OF assms(1)] copy_match_cont [OF _ assms(2)] assms(1)
  by (simp add: get_offset_def off_tail_def)

lemma off_tail_room: "off_tail src ip off mcode n \<Longrightarrow> ip + 8 \<le> length src"
proof -
  assume "off_tail src ip off mcode n"
  then obtain rest where "drop (ip + 2) src = len_ext (n - 4) @ rest" "6 \<le> length rest" "ip + 2 \<le> length src"
    by (auto simp: off_tail_def seq_tail_def)
  moreover from this have "length src - (ip + 2) = length (len_ext (n - 4)) + length rest"
    by (metis length_append length_drop)
  ultimately show ?thesis by linarith
qed

lemma safe_literal_copy_cont:
  assumes t: "off_tail src (ip + len) off (token mod 16) n" and f: "match_fits (length mem) (op + len) off n"
  shows "is_cont (safe_literal_copy False src token len ip op mem)"
proof -
  have r: "ip + len + 8 \<le> length src" "op + len + 12 \<le> length mem"
    using off_tail_room [OF t] f by (auto simp: match_fits_def)
  have E: "op < max (op + 1) (op + len)" "op + len \<le> max (op + 1) (op + len)"
      "max (op + 1) (op + len) + 7 \<le> length mem" "ip + (max (op + 1) (op + len) - op) + 7 \<le> length src"
    using r by auto
  obtain m where m: "LZ4_wildCopy8 (copy_in src) mem op ip (op + len) = Some m" "length m = length mem"
    using wildCopy8_in [OF E] fills_length by blast
  then show ?thesis using r get_offset_cont [OF t, of m "op + len"] f
    by (simp add: safe_literal_copy_def Let_def)
qed

text \<open>A whole sequence at \<open>ip\<close> that fits.\<close>

definition seq_at :: "bytes \<Rightarrow> nat \<Rightarrow> lz_seq \<Rightarrow> nat \<Rightarrow> nat \<Rightarrow> bool" where
  "seq_at src ip s op cap = (case s of (l, off, n) \<Rightarrow> off < 65536 \<and> match_fits cap (op + length l) off n \<and>
     (\<exists>rest. drop ip src = enc_seq (l, off, n) @ rest \<and> 6 \<le> length rest))"

lemma drop_split: "drop i src = a @ b \<Longrightarrow> drop (i + length a) src = b"
  by (metis add.commute append_eq_conv_conj drop_drop)

lemma seq_at_parts:
  assumes "seq_at src ip (l, off, n) op cap"
  defines "token \<equiv> unat (src ! ip)"
  shows "ip < length src" and "token div 16 = min 15 (length l)"
    and "drop (ip + 1) src = len_ext (length l) @ drop (ip + 1 + length (len_ext (length l))) src"
    and "off_tail src (ip + 1 + length (len_ext (length l)) + length l) off (token mod 16) n"
    and "match_fits cap (op + length l) off n"
proof -
  obtain rest where d: "drop ip src = enc_seq (l, off, n) @ rest" "6 \<le> length rest"
    and off: "off < 65536" and f: "match_fits cap (op + length l) off n"
    using assms(1) by (auto simp: seq_at_def)
  let ?t = "16 * min 15 (length l) + min 15 (n - 4)"
  have d0: "drop ip src = word_of_nat ?t # len_ext (length l) @ l @ put_u16 (word_of_nat off) @ len_ext (n - 4) @ rest"
    using d(1) by (simp add: enc_seq_def)
  then show ip: "ip < length src" by (metis drop_eq_Nil2 list.distinct(1) not_le)
  have "src ! ip = word_of_nat ?t" using d0 ip by (metis Cons_nth_drop_Suc list.inject)
  moreover have "?t < 256" by linarith
  then have "unat (word_of_nat ?t :: byte) = ?t" by (simp add: unat_of_nat del: of_nat_add of_nat_mult)
  ultimately have t: "token = ?t" by (simp only: token_def)
  show "token div 16 = min 15 (length l)" by (simp add: t)
  have tm: "token mod 16 = min 15 (n - 4)" by (simp add: t)
  have d1: "drop (ip + 1) src = len_ext (length l) @ l @ put_u16 (word_of_nat off) @ len_ext (n - 4) @ rest"
    using drop_split [of ip src "[word_of_nat ?t]"] d0 by simp
  note d2 = drop_split [OF d1]
  note d3 = drop_split [OF d2]
  note d4 = drop_split [OF d3]
  show "drop (ip + 1) src = len_ext (length l) @ drop (ip + 1 + length (len_ext (length l))) src"
    using d1 d2 by simp
  have "ip + 1 + length (len_ext (length l)) + length l + 2 \<le> length src"
    using arg_cong [OF d3, of length] by simp
  then show "off_tail src (ip + 1 + length (len_ext (length l)) + length l) off (token mod 16) n"
    using d3 d4 d(2) off f tm by (auto simp: off_tail_def seq_tail_def match_fits_def)
  show "match_fits cap (op + length l) off n" by (rule f)
qed

lemma literal_length_read:
  assumes "drop ip src = len_ext len @ drop (ip + length (len_ext len)) src"
    and "ip + length (len_ext len) + len \<le> length src"
  shows "if len < 15 then length (len_ext len) = 0
    else read_variable_length src ip (length src - 15) = Some (ip + length (len_ext len), Some (len - 15))"
  using assms read_variable_length_put [of ip src "len - 15"]
  by (auto simp: len_ext_def)

lemma safe_literal_copy_early_cont:
  assumes "seq_at src ip (l, off, n) op (length mem)"
  shows "is_cont (safe_literal_copy_early False src (unat (src ! ip)) (ip + 1) op mem)"
proof -
  note p = seq_at_parts [OF assms]
  have "ip + 1 + length (len_ext (length l)) + length l \<le> length src" using off_tail_room [OF p(4)] by simp
  note r = literal_length_read [OF p(3) this]
  show ?thesis using r p(2) safe_literal_copy_cont [OF p(4,5)]
    by (cases "length l < 15") (auto simp: safe_literal_copy_early_def)
qed

lemma safe_step_cont:
  assumes "seq_at src ip (l, off, n) op (length mem)"
  shows "is_cont (safe_step False src ip op mem)"
proof -
  note p = seq_at_parts [OF assms]
  define token where "token = unat (src ! ip)"
  have tk: "mem_byte src ip = Some token" using p(1) by (simp add: mem_byte_def token_def)
  show ?thesis
  proof (cases "token div 16 \<noteq> 15 \<and> ip + 1 + 16 < length src \<and> op + 32 \<le> length mem")
    case False
    then show ?thesis using safe_literal_copy_early_cont [OF assms] tk
      by (auto simp: safe_step_def Let_def token_def)
  next
    case True
    have len: "token div 16 = length l" "length (len_ext (length l)) = 0"
      using p(2) True by (auto simp: token_def len_ext_def)
    have ll: "length l < 15" using p(2) True by (auto simp: token_def)
    have b: "op + 16 \<le> length mem" "ip + 1 + 16 \<le> length src" using True by auto
    obtain m1 where m1: "copy_in src mem op (ip + 1) 16 = Some m1" "length m1 = length mem"
      using copy_in_fills [OF b] fills_length by blast
    have t: "off_tail src (ip + 1 + length l) off (token mod 16) n" using p(4) len by (simp add: token_def)
    have "is_cont (copy_match False src (ip + 1 + length l + 2) (op + length l) m1 off (token mod 16))"
      using copy_match_cont [of src "ip + 1 + length l + 2" "token mod 16" n m1] t p(5) m1(2)
      by (simp add: off_tail_def)
    moreover have "\<exists>m2. copy_18 m1 (op + length l) (op + length l - off) = Some m2"
      if "8 \<le> off" "off \<le> op + length l"
      using copy_18_ok [OF that, of m1] True m1(2) ll by auto
    ultimately show ?thesis
      using True tk m1(1) off_tail_read [OF t] len(1)
      by (auto simp: safe_step_def Let_def is_cont_def)
  qed
qed

lemma fast_match_length_tail:
  assumes "seq_tail src ip (token mod 16) n"
  shows "\<exists>ip1. fast_match_length src token ip = Some (ip1, Some n)"
  using seq_tail_len [OF assms] by (auto simp: fast_match_length_def Let_def split: if_splits)

lemma fast_match_no_fin:
  assumes t: "off_tail src ip off (token mod 16) n" and f: "match_fits (length mem) op off n"
  shows "fast_match False src token ip op mem \<noteq> Some (b, Fin k m)"
proof -
  obtain ip1 where l: "fast_match_length src token (ip + 2) = Some (ip1, Some n)"
    using fast_match_length_tail [of src "ip + 2" token n] t unfolding off_tail_def by blast
  have "is_cont (safe_match_copy False ip1 op mem off n)" by (rule safe_match_copy_cont [OF f])
  moreover have "off \<le> op" using f by (simp add: match_fits_def)
  ultimately show ?thesis
    using off_tail_read [OF t] l
    by (auto simp: fast_match_def Let_def is_cont_def bind_eq_Some_conv split: if_splits)
qed

lemma fast_step_no_fin:
  assumes "seq_at src ip (l, off, n) op (length mem)"
  shows "fast_step False src ip op mem \<noteq> Some (b, Fin k m)"
proof
  assume e: "fast_step False src ip op mem = Some (b, Fin k m)"
  note p = seq_at_parts [OF assms]
  define token where "token = unat (src ! ip)"
  have tk: "mem_byte src ip = Some token" using p(1) by (simp add: mem_byte_def token_def)
  have ec: "is_cont (safe_literal_copy_early False src token (ip + 1) op mem)"
    using safe_literal_copy_early_cont [OF assms] by (simp add: token_def)
  have room: "ip + 1 + length (len_ext (length l)) + length l \<le> length src" using off_tail_room [OF p(4)] by simp
  note r = literal_length_read [OF p(3) room]
  note lc = safe_literal_copy_cont [OF p(4,5)]
  show False
  proof (cases "ip + 1 + 17 > length src")
    case True
    then show False using e tk ec by (auto simp: fast_step_def Let_def is_cont_def)
  next
    case inside: False
    show False
    proof (cases "length l < 15")
      case True
      then have d: "token div 16 = length l" "length (len_ext (length l)) = 0"
        using p(2) by (simp_all add: token_def len_ext_def)
      obtain m1 where m1: "copy_in src mem op (ip + 1) 16 = Some m1"
          "fast_match False src token (ip + 1 + length l) (op + length l) m1 = Some (b, Fin k m)"
        using e tk inside True d(1) by (auto simp: fast_step_def Let_def bind_eq_Some_conv)
      have "length m1 = length mem"
        using m1(1) by (auto simp: copy_in_def mem_write_def mem_read_def bind_eq_Some_conv split: if_splits)
      then show False using fast_match_no_fin [of src "ip + 1 + length l" off token n m1 "op + length l"]
        p(4,5) m1(2) d by (simp add: token_def)
    next
      case False
      then have d: "token div 16 = 15" using p(2) by (simp add: token_def)
      let ?ip = "ip + 1 + length (len_ext (length l))"
      have rv: "read_variable_length src (ip + 1) (length src - 15) = Some (?ip, Some (length l - 15))"
        using r False by simp
      have l15: "15 + (length l - 15) = length l" using False by simp
      show False
      proof (cases "op + length l + 32 > length mem \<or> ?ip + length l + 32 > length src")
        case True
        then show False using e tk inside d rv lc l15
          by (auto simp: fast_step_def Let_def is_cont_def token_def)
      next
        case far: False
        obtain m1 where m1: "LZ4_wildCopy32 (copy_in src) mem op ?ip (op + length l) = Some m1"
            "fast_match False src token (?ip + length l) (op + length l) m1 = Some (b, Fin k m)"
          using e tk inside d rv far l15 by (auto simp: fast_step_def Let_def bind_eq_Some_conv)
        have "op < op + length l" "op + length l + 31 \<le> length mem" "?ip + (op + length l - op) + 31 \<le> length src"
          using far False by auto
        then have "length m1 = length mem"
          using wildCopy32_in [of op "op + length l" "op + length l" mem ?ip src] m1(1) fills_length by auto
        then show False using fast_match_no_fin [of src "?ip + length l" off token n m1 "op + length l"]
          p(4,5) m1(2) by (simp add: token_def)
      qed
    qed
  qed
qed

text \<open>Sequences can be parsed in one way only.\<close>

lemma put_ext_prefix: "put_ext a @ x = put_ext b @ y \<Longrightarrow> a = b \<and> x = y"
proof (induction a arbitrary: b rule: put_ext.induct)
  case (1 a)
  have b255: "(word_of_nat v :: byte) \<noteq> 255" if "v < 255" for v
  proof
    assume "(word_of_nat v :: byte) = 255"
    then have "unat (word_of_nat v :: byte) = unat (255 :: byte)" by simp
    then show False using that by (simp add: unat_of_nat)
  qed
  have inj: "u = v" if "(word_of_nat u :: byte) = word_of_nat v" "u < 255" "v < 255" for u v
  proof -
    have "unat (word_of_nat u :: byte) = unat (word_of_nat v :: byte)" by (simp only: that(1))
    then show ?thesis using that(2,3) by (simp add: unat_of_nat)
  qed
  show ?case
  proof (cases "a < 255"; cases "b < 255")
    assume "a < 255" "b < 255"
    then show ?thesis using 1(2) inj by (simp add: put_ext_small)
  next
    assume "a < 255" "\<not> b < 255"
    then show ?thesis using 1(2) b255 by (simp add: put_ext_small put_ext.simps [of b])
  next
    assume "\<not> a < 255" "b < 255"
    then show ?thesis using 1(2) b255 [of b] by (simp add: put_ext_small put_ext.simps [of a])
  next
    assume a: "\<not> a < 255" and b: "\<not> b < 255"
    then have "put_ext (a - 255) @ x = put_ext (b - 255) @ y"
      using 1(2) by (simp add: put_ext.simps [of a] put_ext.simps [of b])
    then show ?thesis using 1(1) [OF a, of "b - 255"] a b by auto
  qed
qed

lemma len_ext_prefix:
  assumes "len_ext a @ x = len_ext b @ y" and "min 15 a = min 15 b"
  shows "a = b \<and> x = y"
proof (cases "a < 15")
  case True
  then show ?thesis using assms by (auto simp: len_ext_def split: if_splits)
next
  case False
  then have "put_ext (a - 15) @ x = put_ext (b - 15) @ y" "\<not> b < 15" using assms by (auto simp: len_ext_def split: if_splits)
  then show ?thesis using put_ext_prefix [of "a - 15" x "b - 15" y] False by auto
qed

lemma token_byte_inj:
  assumes "(word_of_nat (16 * a + b) :: byte) = word_of_nat (16 * c + d)" and "a < 16" "b < 16" "c < 16" "d < 16"
  shows "a = c \<and> b = d"
proof -
  have "unat (word_of_nat (16 * a + b) :: byte) = unat (word_of_nat (16 * c + d) :: byte)" using assms(1) by simp
  then have e: "16 * a + b = 16 * c + d" using assms(2-5) by (simp add: unat_of_nat del: of_nat_add of_nat_mult)
  have "(16 * a + b) div 16 = a" "(16 * c + d) div 16 = c" using assms(3,5) by auto
  then have "a = c" using e by simp
  then show ?thesis using e by simp
qed

lemma enc_seq_last: "enc_seq (l, off, n) @ rest \<noteq> enc_last low l'" if "low < 16"
proof
  assume e: "enc_seq (l, off, n) @ rest = enc_last low l'"
  then have "(word_of_nat (16 * min 15 (length l) + min 15 (n - 4)) :: byte) = word_of_nat (16 * min 15 (length l') + low)"
    and t: "len_ext (length l) @ (l @ put_u16 (word_of_nat off) @ len_ext (n - 4) @ rest) = len_ext (length l') @ l'"
    by (simp_all add: enc_seq_def enc_last_def)
  then have "min 15 (length l) = min 15 (length l')" using token_byte_inj that by simp
  from len_ext_prefix [OF t this] have l: "length l = length l'"
    and e2: "l @ put_u16 (word_of_nat off) @ len_ext (n - 4) @ rest = l'" by auto
  have "length (l @ put_u16 (word_of_nat off) @ len_ext (n - 4) @ rest) = length l'" by (simp only: e2)
  then show False using l by simp
qed

lemma round_seq_at:
  assumes s: "seq_at src ip (l, off, n) op (length mem)"
    and r: "round fast False src ip op mem = Some br" and ok: "fast_ok False src ip op mem br"
  shows "\<exists>ip1 op1 m. snd br = Cont ip1 op1 m"
proof (cases "snd br")
  case (Fin k m)
  then have "br = (fst br, Fin k m)" by (metis prod.collapse)
  then have "False" using r fast_step_no_fin [OF s, of "fst br" k m] safe_step_cont [OF s]
    by (auto simp: round_def is_cont_def split: if_splits)
  then show ?thesis ..
qed auto

text \<open>The last literals do not lead to an error.\<close>

definition no_error :: "outcome option \<Rightarrow> bool" where
  "no_error x \<longleftrightarrow> (\<forall>k m. x = Some (Fin k m) \<longrightarrow> 0 \<le> k)"

definition last_at :: "bytes \<Rightarrow> nat \<Rightarrow> nat \<Rightarrow> bytes \<Rightarrow> bool" where
  "last_at src ip low l \<longleftrightarrow> low < 16 \<and> drop ip src = enc_last low l"

lemma last_at_parts:
  assumes "last_at src ip low l"
  defines "token \<equiv> unat (src ! ip)"
  shows "ip < length src" and "token div 16 = min 15 (length l)"
    and "drop (ip + 1) src = len_ext (length l) @ drop (ip + 1 + length (len_ext (length l))) src"
    and "ip + 1 + length (len_ext (length l)) + length l = length src"
proof -
  let ?t = "16 * min 15 (length l) + low"
  have d0: "drop ip src = word_of_nat ?t # len_ext (length l) @ l" and low: "low < 16"
    using assms(1) by (simp_all add: last_at_def enc_last_def)
  then show ip: "ip < length src" by (metis drop_eq_Nil2 list.distinct(1) not_le)
  have "src ! ip = word_of_nat ?t" using d0 ip by (metis Cons_nth_drop_Suc list.inject)
  moreover have "?t < 256" using low by linarith
  then have "unat (word_of_nat ?t :: byte) = ?t" by (simp add: unat_of_nat del: of_nat_add of_nat_mult)
  ultimately have t: "token = ?t" by (simp only: token_def)
  show "token div 16 = min 15 (length l)" using low by (simp add: t)
  have d1: "drop (ip + 1) src = len_ext (length l) @ l"
    using drop_split [of ip src "[word_of_nat ?t]"] d0 by simp
  note d2 = drop_split [OF d1]
  show "drop (ip + 1) src = len_ext (length l) @ drop (ip + 1 + length (len_ext (length l))) src"
    using d1 d2 by simp
  have "length src - ip = 1 + length (len_ext (length l)) + length l"
    using arg_cong [OF d0, of length] by simp
  then show "ip + 1 + length (len_ext (length l)) + length l = length src" using ip by linarith
qed

lemma safe_literal_copy_last:
  assumes "ip + len = length src" and "op + len \<le> length mem"
  shows "no_error (safe_literal_copy False src token len ip op mem)"
proof -
  have b: "op + len \<le> length mem" "ip + len \<le> length src" using assms by auto
  obtain m where "copy_in src mem op ip len = Some m" using copy_in_fills [OF b] by blast
  then show ?thesis using assms by (simp add: safe_literal_copy_def Let_def no_error_def)
qed

lemma safe_literal_copy_early_last:
  assumes "last_at src ip low l" and "op + length l \<le> length mem"
  shows "no_error (safe_literal_copy_early False src (unat (src ! ip)) (ip + 1) op mem)"
proof -
  note p = last_at_parts [OF assms(1)]
  note r = literal_length_read [OF p(3)]
  show ?thesis using r p(2,4) safe_literal_copy_last [OF p(4) assms(2)]
    by (cases "length l < 15") (auto simp: safe_literal_copy_early_def)
qed

lemma round_last_at:
  assumes s: "last_at src ip low l" and f: "op + length l \<le> length mem"
    and r: "round fast False src ip op mem = Some br" and b: "snd br = Fin k m"
  shows "0 \<le> k"
proof -
  note p = last_at_parts [OF s]
  define token where "token = unat (src ! ip)"
  have tk: "mem_byte src ip = Some token" using p(1) by (simp add: mem_byte_def token_def)
  have e: "no_error (safe_literal_copy_early False src token (ip + 1) op mem)"
    using safe_literal_copy_early_last [OF s f] by (simp add: token_def)
  have short: "ip + 1 + length l = length src" if "token div 16 \<noteq> 15"
    using p(2,4) that by (cases "length l < 15") (auto simp: token_def len_ext_def)
  have br: "br = (fst br, Fin k m)" using b by (metis prod.collapse)
  show ?thesis
  proof (cases fast)
    case False
    then have "safe_step False src ip op mem = Some (Fin k m)" using r br by (auto simp: round_def)
    moreover have "safe_step False src ip op mem = safe_literal_copy_early False src token (ip + 1) op mem"
    proof -
      have "\<not> (token div 16 \<noteq> 15 \<and> ip + 1 + 16 < length src)"
        using short p(2) by (cases "length l < 15") (auto simp: token_def)
      then show ?thesis using tk by (auto simp: safe_step_def Let_def)
    qed
    ultimately show ?thesis using e by (simp add: no_error_def)
  next
    case True
    then have fs: "fast_step False src ip op mem = Some (fst br, Fin k m)" using r br by (simp add: round_def)
    show ?thesis
    proof (cases "ip + 1 + 17 > length src")
      case True
      then show ?thesis using fs tk e by (auto simp: fast_step_def Let_def no_error_def)
    next
      case False
      then have t15: "token div 16 = 15" and l15: "\<not> length l < 15"
        using short p(2) by (cases "length l < 15"; auto simp: token_def)+
      let ?ip = "ip + 1 + length (len_ext (length l))"
      have "read_variable_length src (ip + 1) (length src - 15) = Some (?ip, Some (length l - 15))"
        using literal_length_read [OF p(3)] p(4) l15 by simp
      moreover have "15 + (length l - 15) = length l" using l15 by simp
      ultimately have "fast_step False src ip op mem =
          map_option (Pair False) (safe_literal_copy False src token (length l) ?ip op mem)"
        using False tk t15 p(4) by (simp add: fast_step_def Let_def)
      then obtain "safe_literal_copy False src token (length l) ?ip op mem = Some (Fin k m)"
        using fs by (cases "safe_literal_copy False src token (length l) ?ip op mem") auto
      then show ?thesis using safe_literal_copy_last [OF p(4) f, of token] by (simp add: no_error_def)
    qed
  qed
qed

lemma enc_seq_prefix:
  assumes "enc_seq (l, off, n) @ x = enc_seq (l', off', n') @ y"
    and "4 \<le> n" "4 \<le> n'" "off < 65536" "off' < 65536"
  shows "l = l' \<and> off = off' \<and> n = n' \<and> x = y"
proof -
  have t: "(word_of_nat (16 * min 15 (length l) + min 15 (n - 4)) :: byte) =
      word_of_nat (16 * min 15 (length l') + min 15 (n' - 4))"
    and r: "len_ext (length l) @ (l @ put_u16 (word_of_nat off) @ len_ext (n - 4) @ x) =
      len_ext (length l') @ (l' @ put_u16 (word_of_nat off') @ len_ext (n' - 4) @ y)"
    using assms(1) by (simp_all add: enc_seq_def)
  have m: "min 15 (length l) = min 15 (length l')" "min 15 (n - 4) = min 15 (n' - 4)"
    using token_byte_inj [OF t] by auto
  from len_ext_prefix [OF r m(1)] have ll: "length l = length l'"
    and r2: "l @ put_u16 (word_of_nat off) @ len_ext (n - 4) @ x = l' @ put_u16 (word_of_nat off') @ len_ext (n' - 4) @ y"
    by auto
  from r2 ll have l: "l = l'" and r3: "put_u16 (word_of_nat off) @ len_ext (n - 4) @ x =
      put_u16 (word_of_nat off') @ len_ext (n' - 4) @ y" by auto
  from r3 have o: "put_u16 (word_of_nat off) = put_u16 (word_of_nat off')"
    and r4: "len_ext (n - 4) @ x = len_ext (n' - 4) @ y" by auto
  have "unat (get_u16 (put_u16 (word_of_nat off))) = unat (get_u16 (put_u16 (word_of_nat off')))" using o by simp
  then have "off = off'" using assms(4,5) by (simp add: unat_of_nat)
  then show ?thesis using l len_ext_prefix [OF r4 m(2)] assms(2,3) by auto
qed

lemma decode_loop_complete:
  assumes "length src - ip \<le> n" and "drop ip src = lz_block ss low l" and "low < 16"
    and "rules_ok d op ss" and "d = op + seqs_out ss + length l" and "d \<le> length mem"
    and "fast \<Longrightarrow> op + 64 \<le> length mem"
  shows "\<exists>m. decode_loop n fast False src ip op mem = Some (int d, m) \<and> length m = length mem \<and>
    take d m = foldl apply_seq (take op mem) ss @ l"
  using assms
proof (induction ss arbitrary: n fast ip op mem)
  case Nil
  then have la: "last_at src ip low l" and fit: "op + length l \<le> length mem"
    by (auto simp: last_at_def lz_block_Nil seqs_out_def)
  have ip: "ip < length src" by (rule last_at_parts(1) [OF la])
  then obtain n' where n: "n = Suc n'" using Nil.prems(1) by (cases n) auto
  obtain fast1 r where rd: "round fast False src ip op mem = Some (fast1, r)"
    and ok: "fast_ok False src ip op mem (fast1, r)"
    using round_ok [OF ip, where fast = fast and partial = False and op = op and mem = mem] fit Nil.prems(7) by auto
  have sq: "seq_ok False src ip op mem r" using ok by (simp add: fast_ok_def)
  show ?case
  proof (cases r)
    case (Cont ip1 op1 m)
    then obtain l1 off j where "drop ip src = enc_seq (l1, off, j) @ drop ip1 src"
      using sq by (auto simp: seq_ok_def)
    then show ?thesis using enc_seq_last [OF Nil.prems(3)] la by (metis last_at_def)
  next
    case (Fin k m)
    then have "0 \<le> k" using round_last_at [OF la fit rd] by simp
    then obtain low' l' where q: "low' < 16" "drop ip src = enc_last low' l'" "k = int (op + length l')"
        "out_is op mem (op + length l') m l'" "length m = length mem"
      using sq Fin by (auto simp: seq_ok_def)
    have "length l' = length l \<and> l' = l"
    proof -
      have e: "enc_last low' l' = enc_last low l" using q(2) la by (simp add: last_at_def)
      then have t: "(word_of_nat (16 * min 15 (length l') + low') :: byte) = word_of_nat (16 * min 15 (length l) + low)"
        and r: "len_ext (length l') @ l' = len_ext (length l) @ l" by (simp_all add: enc_last_def)
      have "min 15 (length l') = min 15 (length l)" using token_byte_inj [OF t] q(1) Nil.prems(3) by simp
      then show ?thesis using len_ext_prefix [OF r] by simp
    qed
    then show ?thesis using q(3-5) rd Fin Nil.prems(5) n
      by (simp add: decode_loop_round out_is_def seqs_out_def del: decode_loop.simps)
  qed
next
  case (Cons s ss)
  obtain l1 off j where s: "s = (l1, off, j)" by (cases s)
  have r: "4 \<le> j" "off < 65536" "off \<le> op + length l1" "op + length l1 + 12 \<le> d" "op + length l1 + j + 5 \<le> d"
      "rules_ok d (op + length l1 + j) ss"
    using Cons.prems(4) by (auto simp: s)
  have l5: "5 \<le> length l" using rules_ok_end [OF Cons.prems(4)] Cons.prems(5) by simp
  have dr: "drop ip src = enc_seq (l1, off, j) @ lz_block ss low l" using Cons.prems(2) by (simp add: lz_block_Cons s)
  have sa: "seq_at src ip (l1, off, j) op (length mem)"
    using r dr l5 length_lz_block [of l ss low] Cons.prems(6)
    by (auto simp: seq_at_def match_fits_def)
  have ip: "ip < length src" by (rule seq_at_parts(1) [OF sa])
  then obtain n' where n: "n = Suc n'" using Cons.prems(1) by (cases n) auto
  have op: "op \<le> length mem" using r(4) Cons.prems(6) by simp
  obtain fast1 r' where rd: "round fast False src ip op mem = Some (fast1, r')"
    and ok: "fast_ok False src ip op mem (fast1, r')"
    using round_ok [OF ip op, where fast = fast and partial = False] Cons.prems(7) by auto
  obtain ip1 op1 m where c: "r' = Cont ip1 op1 m" using round_seq_at [OF sa rd ok] by auto
  have b: "length m = length mem" "ip < ip1" "fast1 \<Longrightarrow> op1 + 64 \<le> length m"
    using ok c by (auto simp: fast_ok_def seq_ok_def)
  obtain l2 off2 j2 where q: "4 \<le> j2" "off2 < 65536" "op1 = op + length l2 + j2"
      "drop ip src = enc_seq (l2, off2, j2) @ drop ip1 src" "take op1 m = apply_seq (take op mem) (l2, off2, j2)"
  proof -
    have "seq_ok False src ip op mem (Cont ip1 op1 m)" using ok c by (simp add: fast_ok_def)
    then show thesis using that unfolding seq_ok_def outcome.case by blast
  qed
  have eq: "l2 = l1" "off2 = off" "j2 = j" "drop ip1 src = lz_block ss low l"
    using enc_seq_prefix [of l2 off2 j2 "drop ip1 src" l1 off j "lz_block ss low l"] q(1,2,4) r(1,2) dr by auto
  have ds: "d = op1 + seqs_out ss + length l" using Cons.prems(5) q(3) eq by (simp add: s seqs_out_def)
  have "length src - ip1 \<le> n'" using Cons.prems(1) b(2) n by linarith
  then obtain m' where "decode_loop n' fast1 False src ip1 op1 m = Some (int d, m')" "length m' = length m"
      "take d m' = foldl apply_seq (take op1 m) ss @ l"
    using Cons.IH [of ip1 n' op1 m fast1] eq Cons.prems(3,6) r(6) q(3) ds b by auto
  then show ?case using rd c q(5) eq b n by (simp add: decode_loop_round s del: decode_loop.simps)
qed

section \<open>The interface of the decoder\<close>

lemma decompress_safe_sound:
  "(\<exists>k m. LZ4_decompress_safe src dst = Some (k, m) \<and> length m = length dst \<and>
     (k < 0 \<or> (\<exists>ss low l. low < 16 \<and> src = lz_block ss low l \<and> seqs_ok 0 ss \<and>
        k \<le> int (length dst) \<and> take (nat k) m = lz_decoded ss l))) \<and>
   (\<exists>k m. LZ4_decompress_safe_partial src target dst = Some (k, m) \<and> length m = length dst)"
proof
  have full: "\<exists>k m. LZ4_decompress_generic partial src buf = Some (k, m) \<and> length m = length buf \<and>
      (\<not> partial \<longrightarrow> (k < 0 \<or> (\<exists>ss low l. low < 16 \<and> src = lz_block ss low l \<and> seqs_ok 0 ss \<and>
        k \<le> int (length buf) \<and> take (nat k) m = lz_decoded ss l)))" for partial buf
  proof (cases "length buf = 0 \<or> length src = 0")
    case True
    have "src = lz_block [] 0 []" if "length src = 1" "src ! 0 = 0"
      using that by (cases src) (auto simp: lz_block_def enc_last_def len_ext_def)
    moreover have "lz_decoded [] [] = []" by (simp add: lz_decoded_def)
    ultimately show ?thesis using True
      by (auto simp: LZ4_decompress_generic_def intro!: exI [of _ "[]"] exI [of _ 0])
  next
    case False
    then obtain k m where "decode_loop (length src) (length buf \<ge> 64) partial src 0 0 buf = Some (k, m)"
        "length m = length buf" "\<not> partial \<longrightarrow> decoded_rest src 0 0 buf k m"
      using decode_loop_ok [of src 0 "length src" 0 buf "length buf \<ge> 64" partial] by auto
    then show ?thesis using False
      by (auto simp: LZ4_decompress_generic_def decoded_rest_def lz_decoded_def)
  qed
  show "\<exists>k m. LZ4_decompress_safe src dst = Some (k, m) \<and> length m = length dst \<and>
     (k < 0 \<or> (\<exists>ss low l. low < 16 \<and> src = lz_block ss low l \<and> seqs_ok 0 ss \<and>
        k \<le> int (length dst) \<and> take (nat k) m = lz_decoded ss l))"
    using full [of False dst] by (simp add: LZ4_decompress_safe_def)
  show "\<exists>k m. LZ4_decompress_safe_partial src target dst = Some (k, m) \<and> length m = length dst"
    using full [of True "take (min target (length dst)) dst"] by (auto simp: LZ4_decompress_safe_partial_def)
qed

text \<open>
  C8. Whatever the input and whatever the output buffer holds, \<open>LZ4_decompress_safe\<close> reads only inside
  the input and writes only inside the output, and returns. It calls \<open>memcpy\<close> with no overlapping ranges, with one
  exception: for a match with offset 0 \<open>LZ4_memcpy_using_offset_base\<close> copies two times two bytes onto
  themselves. If it returns a size, the input is a list of sequences followed by last literals, every match at
  least four bytes long and from an offset below 65536 inside the output, and the output holds what they
  decode to. The offset may be 0, which the format calls an invalid block: the decoder accepts it, and the match
  decodes to zero bytes, never to what the buffer held. The same memory safety holds for the partial decoder.
\<close>

theorem LZ4_decompress_safe_sound:
  "(\<exists>k m. LZ4_decompress_safe src dst = Some (k, m) \<and> length m = length dst \<and>
     (k < 0 \<or> (\<exists>ss low l. low < 16 \<and> src = lz_block ss low l \<and> seqs_ok 0 ss \<and>
        k \<le> int (length dst) \<and> take (nat k) m = lz_decoded ss l))) \<and>
   (\<exists>k m. LZ4_decompress_safe_partial src target dst = Some (k, m) \<and> length m = length dst)"
  by (rule decompress_safe_sound)

lemma decompress_safe_complete:
  assumes "rules_ok (length (lz_decoded ss l)) 0 ss" and "length (lz_decoded ss l) \<le> length dst"
  shows "\<exists>m. LZ4_decompress_safe (lz_block ss 0 l) dst = Some (int (length (lz_decoded ss l)), m) \<and>
    length m = length dst \<and> take (length (lz_decoded ss l)) m = lz_decoded ss l"
proof -
  have d: "length (lz_decoded ss l) = seqs_out ss + length l" by (simp add: lz_decoded_def length_apply_seqs)
  show ?thesis
  proof (cases "dst = []")
    case True
    then have "seqs_out ss = 0" "l = []" using assms(2) d by auto
    moreover from this have "ss = []" using rules_ok_end [OF assms(1)] d by (cases ss) auto
    ultimately show ?thesis using True
      by (simp add: LZ4_decompress_safe_def LZ4_decompress_generic_def lz_block_def enc_last_def len_ext_def lz_decoded_def)
  next
    case False
    have "0 < length (lz_block ss 0 l)" using length_lz_block [of l ss 0] by linarith
    moreover obtain m where "decode_loop (length (lz_block ss 0 l)) (length dst \<ge> 64) False (lz_block ss 0 l) 0 0 dst =
        Some (int (length (lz_decoded ss l)), m)" "length m = length dst"
        "take (length (lz_decoded ss l)) m = foldl apply_seq (take 0 dst) ss @ l"
      using decode_loop_complete [of "lz_block ss 0 l" 0 "length (lz_block ss 0 l)" ss 0 l
          "length (lz_decoded ss l)" 0 dst "length dst \<ge> 64"] assms d by auto
    ultimately show ?thesis using False
      by (simp add: LZ4_decompress_safe_def LZ4_decompress_generic_def lz_decoded_def)
  qed
qed

text \<open>
  C27. Every block that keeps the end-of-block rules of the format is accepted by
  \<open>LZ4_decompress_safe\<close> and decodes to what its sequences say, in any buffer that is large enough and
  whatever the buffer held before. That includes blocks with a match of offset 0, which the format calls invalid:
  the match decodes to zero bytes.
\<close>

theorem LZ4_decompress_safe_complete:
  assumes "rules_ok (length (lz_decoded ss l)) 0 ss" and "length (lz_decoded ss l) \<le> length dst"
  shows "\<exists>m. LZ4_decompress_safe (lz_block ss 0 l) dst = Some (int (length (lz_decoded ss l)), m) \<and>
    length m = length dst \<and> take (length (lz_decoded ss l)) m = lz_decoded ss l"
  by (rule decompress_safe_complete [OF assms])

lemma LZ4_decompress_safe_complete_witness:
  "\<exists>m. LZ4_decompress_safe (lz_block [([1, 2, 3], 3, 10)] 0 (replicate 12 9)) (replicate 30 7) = Some (25, m) \<and>
    take 25 m = [1, 2, 3, 1, 2, 3, 1, 2, 3, 1, 2, 3, 1] @ replicate 12 9"
proof -
  have e: "lz_decoded [([1, 2, 3], 3, 10)] (replicate 12 9) = [1, 2, 3, 1, 2, 3, 1, 2, 3, 1, 2, 3, 1] @ replicate 12 9"
    by (simp add: lz_decoded_def apply_seq_def numeral_eq_Suc)
  show ?thesis
    using LZ4_decompress_safe_complete [of "[([1, 2, 3], 3, 10)]" "replicate 12 9" "replicate 30 7"]
    unfolding e by auto
qed

end
