(* ===== verification/Lz4Codec.thy ===== *)
theory Lz4Codec
  imports Lz4Compress Lz4Decompress
begin

text \<open>
  The engine's LZ4 codec (\<open>codec/lz4_codec.cc\<close>) over the models of the library's two directions: when a
  payload is stored compressed, what it decodes to, and what happens to lengths that do not fit an
  \<open>int\<close>. A null pointer is \<open>None\<close>; the outer option of a result is \<open>None\<close> where the code has undefined
  behaviour.
\<close>

section \<open>The codec\<close>

record Lz4EncodeResult =
  compressed :: bool
  payload :: bytes
  uncompressed_size :: u32

definition kLz4MinCompressBytes :: nat where "kLz4MinCompressBytes = 64"

text \<open>\<open>static_cast<int>\<close> of a \<open>size_t\<close>.\<close>

definition static_cast_int :: "nat \<Rightarrow> int" where
  "static_cast_int n = sint (word_of_nat n :: u32)"

definition Lz4Compress :: "bytes option \<Rightarrow> Lz4EncodeResult option \<Rightarrow> (Status \<times> Lz4EncodeResult option) option" where
  "Lz4Compress inp out =
     (case out of
        None \<Rightarrow> Some (InvalidArgument ''out is null'', None)
      | Some _ \<Rightarrow>
        (let bs = (case inp of None \<Rightarrow> [] | Some bs \<Rightarrow> bs);
             len = length bs;
             plain = \<lparr>compressed = False, payload = bs, uncompressed_size = word_of_nat len\<rparr>
         in if inp = None \<or> len = 0 then Some (Status_Ok, Some plain)
            else if len < kLz4MinCompressBytes then Some (Status_Ok, Some plain)
            else
              let n = static_cast_int len;
                  bound = (if n < 0 then 0 else LZ4_compressBound (nat n))
              in if bound = 0 then Some (Internal ''lz4 bound failed'', Some plain)
                 else do {
                   (written, buf) \<leftarrow> LZ4_compress_default (take (nat n) bs) (replicate bound 0);
                   Some (if written \<le> 0 then (Internal ''lz4 compress failed'', Some plain)
                         else if nat written \<ge> len then (Status_Ok, Some plain)
                         else (Status_Ok, Some (plain\<lparr>compressed := True, payload := take (nat written) buf\<rparr>)))
                 }))"

definition Lz4Decompress :: "bytes option \<Rightarrow> u32 \<Rightarrow> bytes option \<Rightarrow> (Status \<times> bytes option) option" where
  "Lz4Decompress inp uncompressed_len out =
     (case (inp, out) of
        (Some bs, Some _) \<Rightarrow>
          (let buf = replicate (unat uncompressed_len) 0;
               srcSize = static_cast_int (length bs);
               dstSize = sint uncompressed_len
           in if dstSize < 0 then Some (Corrupt ''lz4 decompress failed'', Some buf)
              else if srcSize < 0 then
                (if dstSize = 0 then Some (Corrupt ''lz4 decompress failed'', Some buf) else None)
              else do {
                (decoded, m) \<leftarrow> LZ4_decompress_safe (take (nat srcSize) bs) buf;
                Some (if decoded < 0 then (Corrupt ''lz4 decompress failed'', Some m)
                      else if word_of_int decoded \<noteq> uncompressed_len then (Corrupt ''lz4 size mismatch'', Some m)
                      else (Status_Ok, Some m))
              })
      | _ \<Rightarrow> Some (InvalidArgument ''null argument'', out))"

section \<open>Lengths that fit\<close>

lemma static_cast_small: "n < 2147483648 \<Longrightarrow> static_cast_int n = int n"
  by (simp add: static_cast_int_def signed_of_nat signed_take_bit_int_eq_self)

lemma sint_small: "n < 2147483648 \<Longrightarrow> sint (word_of_nat n :: u32) = int n"
  using static_cast_small [of n] by (simp add: static_cast_int_def)

lemma max_input_int: "n \<le> LZ4_MAX_INPUT_SIZE \<Longrightarrow> n < 2147483648"
  by (simp add: LZ4_MAX_INPUT_SIZE_def)

lemma bound_pos: "n \<le> LZ4_MAX_INPUT_SIZE \<Longrightarrow> LZ4_compressBound n = n + n div 255 + 16"
  by (simp add: LZ4_compressBound_def)

text \<open>A block of strict sequences that fits an \<open>int\<close> comes back through the engine's decompressor.\<close>

lemma decompress_block:
  assumes r: "rules_ok (length d) 0 ss" and d: "lz_decoded ss l = d" "length d \<le> LZ4_MAX_INPUT_SIZE"
    and b: "lz_block ss 0 l = b" "length b < 2147483648"
  shows "Lz4Decompress (Some b) (word_of_nat (length d)) (Some o0) = Some (Status_Ok, Some d)"
proof -
  have s: "length d < 2147483648" using max_input_int d(2) by simp
  have u: "unat (word_of_nat (length d) :: u32) = length d" using s by (simp add: unat_of_nat)
  obtain m where m: "LZ4_decompress_safe b (replicate (length d) 0) = Some (int (length d), m)"
      "length m = length d" "take (length d) m = d"
    using decompress_safe_complete [of ss l "replicate (length d) 0"] r d(1) b(1) by auto
  have "m = d" using m(2,3) by simp
  then show ?thesis
    using m(1) u sint_small [OF s] static_cast_small [OF b(2)]
    by (simp add: Lz4Decompress_def Let_def)
qed

text \<open>What the library writes for the first \<open>k\<close> bytes of a payload.\<close>

lemma Lz4Compress_ok:
  assumes k: "static_cast_int (length bs) = int k" "k \<le> LZ4_MAX_INPUT_SIZE" "k \<le> length bs" and len: "64 \<le> length bs"
  defines "plain \<equiv> \<lparr>compressed = False, payload = bs, uncompressed_size = word_of_nat (length bs)\<rparr>"
  shows "\<exists>r. Lz4Compress (Some bs) (Some r0) = Some (Status_Ok, Some r) \<and>
    uncompressed_size r = word_of_nat (length bs) \<and>
    (r = plain \<and> length bs \<le> LZ4_compressBound k \<or>
     (\<exists>ss l. compressed r \<and> payload r = lz_block ss 0 l \<and> length (payload r) < length bs \<and>
        length (payload r) \<le> LZ4_compressBound k \<and> lz_decoded ss l = take k bs \<and> rules_ok k 0 ss))"
proof -
  let ?b = "LZ4_compressBound k"
  have lt: "length (take k bs) = k" using k(3) by simp
  obtain v where v: "LZ4_compress_fast (take k bs) (replicate ?b 0) 1 = Some v" "cresult (take k bs) ?b False v"
    using compress_fast_ok [of "take k bs" "replicate ?b 0" 1, unfolded lt length_replicate] k(2) by auto
  obtain r m where rm: "v = (r, m)" by (cases v) auto
  then obtain ss l where w: "length m = ?b" "0 < r" "r \<le> int ?b" "take (nat r) m = lz_block ss 0 l"
      "lz_decoded ss l = take k bs" "rules_ok k 0 ss"
    using v(2) [unfolded rm cresult_def prod.case lt] by auto
  have b: "?b \<noteq> 0" using bound_pos [OF k(2)] by simp
  have lm: "length (take (nat r) m) = nat r" using w(1,3) by simp
  have e: "Lz4Compress (Some bs) (Some r0) =
      Some (Status_Ok, Some (if nat r \<ge> length bs then plain else plain\<lparr>compressed := True, payload := take (nat r) m\<rparr>))"
    using len k(1) b v(1) rm w(2)
    by (auto simp: Lz4Compress_def Let_def kLz4MinCompressBytes_def LZ4_compress_default_def plain_def)
  show ?thesis
  proof (cases "nat r \<ge> length bs")
    case True
    then show ?thesis using e w(3) by (simp add: plain_def)
  next
    case False
    let ?r = "plain\<lparr>compressed := True, payload := take (nat r) m\<rparr>"
    have "compressed ?r \<and> payload ?r = lz_block ss 0 l \<and> length (payload ?r) < length bs \<and>
        length (payload ?r) \<le> ?b \<and> lz_decoded ss l = take k bs \<and> rules_ok k 0 ss"
      using lm w(3-6) False by simp
    moreover have "Lz4Compress (Some bs) (Some r0) = Some (Status_Ok, Some ?r)" using e False by simp
    moreover have "uncompressed_size ?r = word_of_nat (length bs)" by (simp add: plain_def)
    ultimately show ?thesis by blast
  qed
qed

lemma lz_block_not_empty: "lz_block ss low l \<noteq> []"
  by (simp add: lz_block_def enc_last_def Let_def)

lemma Lz4Compress_short:
  "length bs < 64 \<Longrightarrow> Lz4Compress (Some bs) (Some r0) =
     Some (Status_Ok, Some \<lparr>compressed = False, payload = bs, uncompressed_size = word_of_nat (length bs)\<rparr>)"
  by (simp add: Lz4Compress_def Let_def kLz4MinCompressBytes_def)

lemma codec_roundtrip:
  assumes "length bs \<le> LZ4_MAX_INPUT_SIZE"
  shows "\<exists>r. Lz4Compress (Some bs) (Some r0) = Some (Status_Ok, Some r) \<and>
    unat (uncompressed_size r) = length bs \<and>
    (if compressed r
     then length (payload r) < length bs \<and> payload r \<noteq> [] \<and>
       Lz4Decompress (Some (payload r)) (uncompressed_size r) (Some o0) = Some (Status_Ok, Some bs)
     else payload r = bs)"
proof -
  have s: "length bs < 2147483648" using max_input_int assms by simp
  have u: "unat (word_of_nat (length bs) :: u32) = length bs" using s by (simp add: unat_of_nat)
  show ?thesis
  proof (cases "length bs < 64")
    case True
    then show ?thesis using Lz4Compress_short u by simp
  next
    case False
    then obtain r where r: "Lz4Compress (Some bs) (Some r0) = Some (Status_Ok, Some r)" "uncompressed_size r = word_of_nat (length bs)"
        "r = \<lparr>compressed = False, payload = bs, uncompressed_size = word_of_nat (length bs)\<rparr> \<or>
         (\<exists>ss l. compressed r \<and> payload r = lz_block ss 0 l \<and> length (payload r) < length bs \<and>
            lz_decoded ss l = bs \<and> rules_ok (length bs) 0 ss)"
      using Lz4Compress_ok [OF static_cast_small [OF s] assms order_refl, of r0] by auto
    from r(3) show ?thesis
    proof
      assume "r = \<lparr>compressed = False, payload = bs, uncompressed_size = word_of_nat (length bs)\<rparr>"
      then show ?thesis using r(1,2) u by simp
    next
      assume "\<exists>ss l. compressed r \<and> payload r = lz_block ss 0 l \<and> length (payload r) < length bs \<and>
            lz_decoded ss l = bs \<and> rules_ok (length bs) 0 ss"
      then obtain ss l where q: "compressed r" "payload r = lz_block ss 0 l" "length (payload r) < length bs"
          "lz_decoded ss l = bs" "rules_ok (length bs) 0 ss" by blast
      have "Lz4Decompress (Some (payload r)) (word_of_nat (length bs)) (Some o0) = Some (Status_Ok, Some bs)"
        by (rule decompress_block [OF q(5,4) assms q(2) [symmetric]]) (use q(3) s in simp)
      then show ?thesis using r(1,2) u q(1-3) by (simp add: lz_block_not_empty)
    qed
  qed
qed

text \<open>C7. Every payload of at most \<open>LZ4_MAX_INPUT_SIZE\<close> bytes is accepted by the codec and comes back: it is
  stored as it is, or as a shorter block from which \<open>Lz4Decompress\<close> with the recorded size restores
  exactly the payload.\<close>

theorem lz4_codec_roundtrip:
  assumes "length bs \<le> LZ4_MAX_INPUT_SIZE"
  shows "\<exists>r. Lz4Compress (Some bs) (Some r0) = Some (Status_Ok, Some r) \<and>
    unat (uncompressed_size r) = length bs \<and>
    (if compressed r
     then length (payload r) < length bs \<and>
       Lz4Decompress (Some (payload r)) (uncompressed_size r) (Some o0) = Some (Status_Ok, Some bs)
     else payload r = bs)"
  using codec_roundtrip [OF assms, of r0 o0] by (auto split: if_splits)

lemma lz4_codec_roundtrip_witness:
  "\<exists>r. Lz4Compress (Some (replicate 1000 7)) (Some \<lparr>compressed = False, payload = [], uncompressed_size = 0\<rparr>) = Some (Status_Ok, Some r) \<and> unat (uncompressed_size r) = 1000"
  using lz4_codec_roundtrip [of "replicate 1000 7" "\<lparr>compressed = False, payload = [], uncompressed_size = 0\<rparr>"] by (auto simp: LZ4_MAX_INPUT_SIZE_def)

text \<open>\<open>Lz4Decompress\<close> returns, for every stored payload of less than 2 GiB and every claimed size, without
  leaving its buffers; and when it reports success, the stored bytes are a block of the format and the
  output is what that block decodes to, with exactly the claimed size.\<close>

theorem lz4_decompress_sound:
  assumes "length bs < 2147483648"
  shows "\<exists>s m. Lz4Decompress (Some bs) n (Some o0) = Some (s, Some m) \<and> length m = unat n \<and>
    (status_ok s \<longrightarrow> (\<exists>ss low l. low < 16 \<and> bs = lz_block ss low l \<and> seqs_ok 0 ss \<and> m = lz_decoded ss l)) \<and>
    (\<not> status_ok s \<longrightarrow> code s = kCorrupt)"
proof (cases "sint n < 0")
  case True
  then show ?thesis by (simp add: Lz4Decompress_def)
next
  case False
  have "\<not> bit n 31" using False by (simp add: bit_last_iff [of n, simplified])
  then have "sint n = int (unat n)"
    using unsigned_less [where 'a = int, of n]
    by (simp add: sint_uint signed_take_bit_eq_take_bit_minus bit_uint_iff take_bit_int_eq_self)
  obtain k m where km: "LZ4_decompress_safe bs (replicate (unat n) 0) = Some (k, m)" "length m = unat n"
      "k < 0 \<or> (\<exists>ss low l. low < 16 \<and> bs = lz_block ss low l \<and> seqs_ok 0 ss \<and> k \<le> int (unat n) \<and> take (nat k) m = lz_decoded ss l)"
    using conjunct1 [OF decompress_safe_sound [of bs "replicate (unat n) 0"]] unfolding length_replicate by blast
  have e: "Lz4Decompress (Some bs) n (Some o0) =
      Some (if k < 0 then (Corrupt ''lz4 decompress failed'', Some m)
            else if word_of_int k \<noteq> n then (Corrupt ''lz4 size mismatch'', Some m) else (Status_Ok, Some m))"
    using False static_cast_small [OF assms] km(1) by (simp add: Lz4Decompress_def Let_def)
  show ?thesis
  proof (cases "k < 0 \<or> word_of_int k \<noteq> n")
    case True
    then show ?thesis using e km(2) by auto
  next
    case False
    then obtain ss low l where q: "low < 16" "bs = lz_block ss low l" "seqs_ok 0 ss" "k \<le> int (unat n)" "take (nat k) m = lz_decoded ss l"
      using km(3) by auto
    have "0 \<le> k" "k < 2 ^ 32" using False q(4) unsigned_less [where 'a = int, of n] by simp_all
    then have "uint (word_of_int k :: u32) = k" by (simp add: uint_word_of_int_eq take_bit_int_eq_self)
    then have "nat k = unat n" using False by (metis nat_uint_eq)
    then have "m = lz_decoded ss l" using q(5) km(2) by simp
    then show ?thesis using e False km(2) q(1-3) by auto
  qed
qed

lemma lz4_decompress_sound_witness:
  "\<exists>s m. Lz4Decompress (Some [0x10, 65]) 1 (Some []) = Some (s, Some m) \<and> length m = 1"
  using lz4_decompress_sound [of "[0x10, 65]" 1 "[]"] by auto

text \<open>The length of a payload goes through \<open>static_cast<int>\<close>: of a payload that is longer than 4 GiB by
  64 bytes or more (and by no more than the library's limit) the codec compresses only the bytes beyond
  the multiple of 4 GiB, reports success, and restores only these.\<close>

theorem lz4_codec_drops_4GiB:
  assumes "length bs = 4294967296 + k" and "k \<le> LZ4_MAX_INPUT_SIZE"
  shows "\<exists>r. Lz4Compress (Some bs) (Some r0) = Some (Status_Ok, Some r) \<and> compressed r \<and>
    Lz4Decompress (Some (payload r)) (uncompressed_size r) (Some o0) = Some (Status_Ok, Some (take k bs))"
proof -
  have c: "static_cast_int (length bs) = int k"
  proof -
    have "(word_of_nat (length bs) :: u32) = word_of_nat k"
      unfolding assms(1) by (simp add: word_unat_eq_iff unat_of_nat take_bit_eq_mod del: of_nat_add)
    then have "static_cast_int (length bs) = static_cast_int k" by (simp add: static_cast_int_def)
    then show ?thesis using static_cast_small [OF max_input_int [OF assms(2)]] by simp
  qed
  have u: "(word_of_nat (length bs) :: u32) = word_of_nat k"
    unfolding assms(1) by (simp add: word_unat_eq_iff unat_of_nat take_bit_eq_mod del: of_nat_add)
  have b: "LZ4_compressBound k < length bs"
    using bound_pos [OF assms(2)] assms by (simp add: LZ4_MAX_INPUT_SIZE_def)
  have kb: "k \<le> length bs" "64 \<le> length bs" using assms(1) by simp_all
  obtain r ss l where r: "Lz4Compress (Some bs) (Some r0) = Some (Status_Ok, Some r)" "uncompressed_size r = word_of_nat k"
      "compressed r" "payload r = lz_block ss 0 l" "length (payload r) \<le> LZ4_compressBound k" "lz_decoded ss l = take k bs"
      "rules_ok k 0 ss"
    using Lz4Compress_ok [OF c assms(2) kb, of r0] b u by auto
  have lk: "length (take k bs) = k" using kb(1) by simp
  have "Lz4Decompress (Some (payload r)) (word_of_nat (length (take k bs))) (Some o0) = Some (Status_Ok, Some (take k bs))"
  proof (rule decompress_block [OF _ r(6) _ r(4) [symmetric]])
    show "length (payload r) < 2147483648"
      using r(5) bound_pos [OF assms(2)] assms(2) by (simp add: LZ4_MAX_INPUT_SIZE_def)
  qed (use lk r(7) assms(2) in simp_all)
  then show ?thesis using r(1-3) lk by auto
qed

lemma lz4_codec_drops_4GiB_witness:
  "\<exists>r. Lz4Compress (Some (replicate (4294967296 + 100) 7)) (Some \<lparr>compressed = False, payload = [], uncompressed_size = 0\<rparr>) = Some (Status_Ok, Some r) \<and>
    Lz4Decompress (Some (payload r)) (uncompressed_size r) (Some []) =
      Some (Status_Ok, Some (take 100 (replicate (4294967296 + 100) 7)))"
proof -
  have "length (replicate (4294967296 + 100) (7 :: byte)) = 4294967296 + 100" by (rule length_replicate)
  moreover have "100 \<le> LZ4_MAX_INPUT_SIZE" by (simp add: LZ4_MAX_INPUT_SIZE_def)
  ultimately show ?thesis using lz4_codec_drops_4GiB by blast
qed

end
