(* ===== verification/ContentClass.thy ===== *)
theory ContentClass
  imports Lz4Codec Complex_Main
begin

text \<open>
  Choosing how a chunk is stored (\<open>codec/content_class.cc\<close>, \<open>codec/compress_policy.cc\<close>,
  \<open>codec/codec_types.h\<close>) and the wrapper of the Zstandard library (\<open>codec/zstd_codec.cc\<close>). The library
  itself is a parameter: a record of its functions. So is the entropy estimate, which the code computes
  in floating point with \<open>std::log2\<close>; the comparisons of ratios with decimal constants are exact in
  doubles for the lengths at hand and are written over integers. An empty list is a null or empty
  dictionary. The lemmas show that whatever the encoder chooses decodes to the chunk.
\<close>

section \<open>Types (codec/codec_types.h, codec/content_class.h)\<close>

datatype ChunkCodec = kRaw | kLz4 | kEncrypted | kEncryptedLz4 | kZstd | kEncryptedZstd

datatype CompressMode = kModeOff | kModeLz4 | kModeZstd | kModeAuto

datatype CompressTier = kTierFast | kTierBalanced | kTierMax

datatype ContentDataClass = kIncompressible | kFastCompressible | kSlowCompressible

record ContentClassStats =
  incompressible_skips :: u64
  lz4_only :: u64
  zstd_attempts :: u64
  zstd_wins :: u64
  cpu_budget_spent_permille :: u64
  bytes_before_compress :: u64
  bytes_after_compress :: u64
  dict_hits :: u64

record ContentEncodeRequest =
  rq_data :: bytes
  rq_mode :: CompressMode
  rq_tier :: CompressTier
  rq_level :: int
  rq_budget :: u32
  rq_path_hint :: "string option"
  rq_dict :: bytes

record ContentEncodeResult =
  ce_payload :: bytes
  ce_codec :: ChunkCodec
  ce_uncompressed_len :: u32

section \<open>Tiers and the time budget (codec/compress_policy.cc)\<close>

text \<open>The ratio threshold is in thousandths.\<close>

record TierZstdParams =
  fast_class_level :: int
  slow_class_level :: int
  enable_ldm :: bool
  ldm_min_bytes :: nat
  lz4_retry_permille :: nat
  prefer_lz4_for_fast :: bool

definition FastTierDefaults :: TierZstdParams where
  "FastTierDefaults = \<lparr>fast_class_level = 1, slow_class_level = 1, enable_ldm = False, ldm_min_bytes = 128 * 1024,
     lz4_retry_permille = 920, prefer_lz4_for_fast = True\<rparr>"

definition BalancedTierDefaults :: TierZstdParams where
  "BalancedTierDefaults = \<lparr>fast_class_level = 3, slow_class_level = 6, enable_ldm = True, ldm_min_bytes = 128 * 1024,
     lz4_retry_permille = 900, prefer_lz4_for_fast = True\<rparr>"

definition MaxTierDefaults :: TierZstdParams where
  "MaxTierDefaults = \<lparr>fast_class_level = 6, slow_class_level = 15, enable_ldm = True, ldm_min_bytes = 64 * 1024,
     lz4_retry_permille = 1000, prefer_lz4_for_fast = False\<rparr>"

definition ResolveTierParams :: "CompressTier \<Rightarrow> int \<Rightarrow> TierZstdParams" where
  "ResolveTierParams tier level_override =
     (let params = (case tier of kTierBalanced \<Rightarrow> BalancedTierDefaults | kTierMax \<Rightarrow> MaxTierDefaults
                               | kTierFast \<Rightarrow> FastTierDefaults);
          level = max 1 (min level_override 22)
      in if level_override > 0 then params\<lparr>fast_class_level := level, slow_class_level := level\<rparr> else params)"

definition ResolveZstdLevel :: "ContentDataClass \<Rightarrow> TierZstdParams \<Rightarrow> int" where
  "ResolveZstdLevel cls params = (if cls = kSlowCompressible then slow_class_level params else fast_class_level params)"

definition ShouldEnableLdm :: "nat \<Rightarrow> TierZstdParams \<Rightarrow> bool" where
  "ShouldEnableLdm chunk_len params \<longleftrightarrow> enable_ldm params \<and> chunk_len \<ge> ldm_min_bytes params"

definition CpuBudgetZstdCost :: "u64 \<Rightarrow> int \<Rightarrow> u32" where
  "CpuBudgetZstdCost chunk_len level = (ucast (chunk_len * 50 div (1024 * 1024)) + 1) * word_of_int (max 1 level)"

text \<open>Whether the budget suffices, and what is left.\<close>

definition CpuBudgetTrySpend :: "u32 \<Rightarrow> u32 \<Rightarrow> int \<Rightarrow> bool \<times> u32" where
  "CpuBudgetTrySpend chunk_len budget level =
     (let cost = CpuBudgetZstdCost (ucast chunk_len) level
      in if budget < cost then (False, budget) else (True, budget - cost))"

section \<open>Classification (codec/content_class.cc)\<close>

definition kSampleSize :: nat where "kSampleSize = 4096"

definition tolower :: "char \<Rightarrow> char" where
  "tolower c = (if 65 \<le> (of_char c :: nat) \<and> (of_char c :: nat) \<le> 90 then char_of ((of_char c :: nat) + 32) else c)"

definition EndsWithIgnoreCase :: "string \<Rightarrow> string \<Rightarrow> bool" where
  "EndsWithIgnoreCase path suffix \<longleftrightarrow>
     length suffix \<le> length path \<and> map tolower (drop (length path - length suffix) path) = map tolower suffix"

definition kExts :: "string list" where
  "kExts = [''.jpg'', ''.jpeg'', ''.png'', ''.gif'', ''.webp'', ''.mp4'', ''.mkv'', ''.avi'', ''.zip'', ''.gz'',
            ''.bz2'', ''.xz'', ''.7z'', ''.rar'', ''.mp3'', ''.aac'', ''.flac'', ''.wasm'', ''.pdf'', ''.exe'', ''.dll'']"

definition PathHintIncompressible :: "string option \<Rightarrow> bool" where
  "PathHintIncompressible path_hint = (case path_hint of None \<Rightarrow> False | Some p \<Rightarrow> list_ex (EndsWithIgnoreCase p) kExts)"

definition ClassifyContent :: "(bytes \<Rightarrow> real) \<Rightarrow> bytes \<Rightarrow> string option \<Rightarrow> ContentDataClass" where
  "ClassifyContent entropy data path_hint =
     (if PathHintIncompressible path_hint then kIncompressible
      else if data = [] then kIncompressible
      else
        let sample = take kSampleSize data;
            unique = length (remdups sample);
            entropy_permille = entropy sample
        in if 100 * unique > 95 * length sample \<and> entropy_permille > 950 then kIncompressible
           else if entropy_permille > 700 then kSlowCompressible
           else kFastCompressible)"

section \<open>The Zstandard wrapper (codec/zstd_codec.cc)\<close>

text \<open>
  The functions of the library the code calls; \<open>None\<close> is an error code. \<open>zstd_compress2\<close> has the level,
  long-distance matching and the loaded dictionary; a prepared dictionary is the dictionary and its level.
\<close>

record zstd_lib =
  zstd_bound :: "nat \<Rightarrow> nat option"
  zstd_createCCtx :: bool
  zstd_set_level :: "int \<Rightarrow> bool"
  zstd_set_ldm :: bool
  zstd_load_cdict :: "bytes \<Rightarrow> bool"
  zstd_compress2 :: "int \<Rightarrow> bool \<Rightarrow> bytes \<Rightarrow> bytes \<Rightarrow> bytes option"
  zstd_createCDict :: "bytes \<Rightarrow> int \<Rightarrow> bool"
  zstd_compress_usingCDict :: "bytes \<times> int \<Rightarrow> bytes \<Rightarrow> bytes option"
  zstd_createDCtx :: bool
  zstd_createDDict :: "bytes \<Rightarrow> bool"
  zstd_decompress_usingDDict :: "bytes \<Rightarrow> bytes \<Rightarrow> nat \<Rightarrow> bytes option"
  zstd_load_ddict :: "bytes \<Rightarrow> bool"
  zstd_decompressDCtx :: "bytes \<Rightarrow> bytes \<Rightarrow> nat \<Rightarrow> bytes option"

record ZstdCompressOptions =
  opt_level :: int
  opt_ldm :: bool
  opt_dict :: bytes
  opt_cdict :: "(bytes \<times> int) option"

record ZstdEncodeResult =
  z_compressed :: bool
  z_payload :: bytes
  z_uncompressed_size :: u32
  z_used_dictionary :: bool

definition CompressWithCtx ::
  "zstd_lib \<Rightarrow> ZstdCompressOptions \<Rightarrow> bytes \<Rightarrow> ZstdEncodeResult \<Rightarrow> Status \<times> ZstdEncodeResult" where
  "CompressWithCtx lib opts data out =
     (if zstd_bound lib (length data) = None then (Internal ''zstd bound failed'', out)
      else case zstd_compress2 lib (opt_level opts) (opt_ldm opts) (opt_dict opts) data of
        None \<Rightarrow> (Internal ''zstd compress failed'', out)
      | Some w \<Rightarrow>
          if length w \<ge> length data then (Status_Ok, out)
          else (Status_Ok, out\<lparr>z_compressed := True, z_payload := w, z_uncompressed_size := word_of_nat (length data)\<rparr>))"

definition CompressWithCDict ::
  "zstd_lib \<Rightarrow> bytes \<times> int \<Rightarrow> bytes \<Rightarrow> ZstdEncodeResult \<Rightarrow> Status \<times> ZstdEncodeResult" where
  "CompressWithCDict lib cdict data out =
     (if \<not> zstd_createCCtx lib then (Internal ''zstd createCCtx failed'', out)
      else if zstd_bound lib (length data) = None then (Internal ''zstd bound failed'', out)
      else case zstd_compress_usingCDict lib cdict data of
        None \<Rightarrow> (Internal ''zstd cdict compress failed'', out)
      | Some w \<Rightarrow>
          if length w \<ge> length data then (Status_Ok, out)
          else (Status_Ok, \<lparr>z_compressed = True, z_payload = w, z_uncompressed_size = word_of_nat (length data),
                            z_used_dictionary = True\<rparr>))"

definition ZstdCompressEx :: "zstd_lib \<Rightarrow> bytes \<Rightarrow> ZstdCompressOptions \<Rightarrow> Status \<times> ZstdEncodeResult" where
  "ZstdCompressEx lib data opts =
     (let out = \<lparr>z_compressed = False, z_payload = data, z_uncompressed_size = word_of_nat (length data), z_used_dictionary = False\<rparr>
      in if data = [] then (Status_Ok, out)
         else case opt_cdict opts of
           Some cdict \<Rightarrow> CompressWithCDict lib cdict data out
         | None \<Rightarrow>
             if \<not> zstd_createCCtx lib then (Internal ''zstd createCCtx failed'', out)
             else if \<not> zstd_set_level lib (opt_level opts) then (Internal ''zstd set level failed'', out)
             else if opt_ldm opts \<and> \<not> zstd_set_ldm lib then (Internal ''zstd enable ldm failed'', out)
             else if opt_dict opts \<noteq> [] \<and> \<not> zstd_load_cdict lib (opt_dict opts)
             then (Internal ''zstd load dictionary failed'', out)
             else CompressWithCtx lib opts data (out\<lparr>z_used_dictionary := opt_dict opts \<noteq> []\<rparr>))"

text \<open>The data of an empty vector is a null pointer.\<close>

record ZstdDecompressOptions =
  dopt_dict :: bytes
  dopt_ddict :: "bytes option"

definition ZstdDecompressEx :: "zstd_lib \<Rightarrow> bytes \<Rightarrow> u32 \<Rightarrow> ZstdDecompressOptions \<Rightarrow> Status + bytes" where
  "ZstdDecompressEx lib data uncompressed_len opts =
     (let check = (\<lambda>decoded. case decoded of
                     None \<Rightarrow> Inl (Corrupt ''zstd decompress failed'')
                   | Some out \<Rightarrow> if length out \<noteq> unat uncompressed_len then Inl (Corrupt ''zstd size mismatch'') else Inr out)
      in if data = [] then Inl (InvalidArgument ''null argument'')
         else if \<not> zstd_createDCtx lib then Inl (Internal ''zstd createDCtx failed'')
         else case dopt_ddict opts of
           Some ddict \<Rightarrow> check (zstd_decompress_usingDDict lib ddict data (unat uncompressed_len))
         | None \<Rightarrow>
             if dopt_dict opts \<noteq> [] \<and> \<not> zstd_load_ddict lib (dopt_dict opts) then Inl (Corrupt ''zstd load dictionary failed'')
             else check (zstd_decompressDCtx lib (dopt_dict opts) data (unat uncompressed_len)))"

section \<open>Encoding a chunk (codec/content_class.cc, codec/zstd_dict.cc)\<close>

text \<open>
  The result, the statistics and the dictionary trainer's samples, the latter two when the caller gave
  them.
\<close>

record encode_state =
  es_out :: ContentEncodeResult
  es_stats :: "ContentClassStats option"
  es_trainer :: "bytes list option"

definition RecordCompressionStats :: "nat \<Rightarrow> nat \<Rightarrow> ContentClassStats option \<Rightarrow> ContentClassStats option" where
  "RecordCompressionStats before after =
     map_option (\<lambda>st. st\<lparr>bytes_before_compress := bytes_before_compress st + word_of_nat before,
                        bytes_after_compress := bytes_after_compress st + word_of_nat after\<rparr>)"

definition MaybeAddSample :: "bytes \<Rightarrow> ContentDataClass \<Rightarrow> bytes list \<Rightarrow> bytes list" where
  "MaybeAddSample data cls samples =
     (if data = [] \<or> cls = kIncompressible \<or> length samples \<ge> 100 then samples else samples @ [take (16 * 1024) data])"

definition TryZstdEncode ::
  "zstd_lib \<Rightarrow> bytes \<Rightarrow> int \<Rightarrow> bool \<Rightarrow> bytes \<Rightarrow> ContentClassStats option \<Rightarrow>
     Status \<times> ZstdEncodeResult \<times> ContentClassStats option" where
  "TryZstdEncode lib data level ldm dict stats =
     (let opts = \<lparr>opt_level = level, opt_ldm = ldm, opt_dict = [], opt_cdict = None\<rparr>;
          opts1 = (if dict = [] then opts
                   else if zstd_createCDict lib dict level then opts\<lparr>opt_cdict := Some (dict, level)\<rparr>
                   else opts\<lparr>opt_dict := dict\<rparr>)
      in case ZstdCompressEx lib data opts1 of (st, z) \<Rightarrow>
           (st, z, if status_ok st \<and> z_compressed z \<and> z_used_dictionary z
                   then map_option (\<lambda>s. s\<lparr>dict_hits := dict_hits s + 1\<rparr>) stats else stats))"

definition ShouldTryZstdFirst :: "CompressMode \<Rightarrow> ContentDataClass \<Rightarrow> TierZstdParams \<Rightarrow> bool" where
  "ShouldTryZstdFirst mode cls tier_params =
     (if mode = kModeZstd then True else if mode \<noteq> kModeAuto then False
      else if cls = kSlowCompressible then True else \<not> prefer_lz4_for_fast tier_params)"

definition apply_zstd_win :: "bytes \<Rightarrow> ContentDataClass \<Rightarrow> ZstdEncodeResult \<Rightarrow> encode_state \<Rightarrow> encode_state" where
  "apply_zstd_win data cls z s =
     s\<lparr>es_out := \<lparr>ce_payload = z_payload z, ce_codec = kZstd, ce_uncompressed_len = z_uncompressed_size z\<rparr>,
       es_stats := RecordCompressionStats (length data) (length (z_payload z)) (es_stats s),
       es_trainer := map_option (MaybeAddSample data cls) (es_trainer s)\<rparr>"

text \<open>An attempt counts before it is made; a win counts with its cost.\<close>

definition zstd_attempt :: "encode_state \<Rightarrow> encode_state" where
  "zstd_attempt s = s\<lparr>es_stats := map_option (\<lambda>t. t\<lparr>zstd_attempts := zstd_attempts t + 1\<rparr>) (es_stats s)\<rparr>"

definition zstd_win :: "bytes \<Rightarrow> ContentDataClass \<Rightarrow> int \<Rightarrow> ZstdEncodeResult \<Rightarrow> encode_state \<Rightarrow> encode_state" where
  "zstd_win data cls level z s =
     (let s1 = apply_zstd_win data cls z s
      in s1\<lparr>es_stats := map_option (\<lambda>t. t\<lparr>zstd_wins := zstd_wins t + 1,
              cpu_budget_spent_permille := cpu_budget_spent_permille t + ucast (CpuBudgetZstdCost (word_of_nat (length data)) level)\<rparr>)
            (es_stats s1)\<rparr>)"

text \<open>The attempt whose failure is an error: the status, whether it won, and the state.\<close>

definition zstd_block ::
  "zstd_lib \<Rightarrow> bytes \<Rightarrow> int \<Rightarrow> bool \<Rightarrow> bytes \<Rightarrow> ContentDataClass \<Rightarrow> encode_state \<Rightarrow> Status \<times> bool \<times> encode_state" where
  "zstd_block lib data level ldm dict cls s =
     (let s1 = zstd_attempt s in
      case TryZstdEncode lib data level ldm dict (es_stats s1) of (st, z, stats) \<Rightarrow>
        let s2 = s1\<lparr>es_stats := stats\<rparr> in
        if \<not> status_ok st then (st, False, s2)
        else if z_compressed z then (Status_Ok, True, zstd_win data cls level z s2)
        else (Status_Ok, False, s2))"

text \<open>After LZ4 has compressed: the second try in automatic mode, whose errors are ignored.\<close>

definition lz4_retry ::
  "zstd_lib \<Rightarrow> ContentEncodeRequest \<Rightarrow> CompressMode \<Rightarrow> TierZstdParams \<Rightarrow> int \<Rightarrow> bool \<Rightarrow> ContentDataClass \<Rightarrow>
     encode_state \<Rightarrow> encode_state" where
  "lz4_retry lib req mode tp level ldm cls s =
     (let data = rq_data req in
      if mode = kModeAuto \<and> length (ce_payload (es_out s)) * 1000 \<ge> lz4_retry_permille tp * length data \<and>
         rq_budget req > 0 \<and> fst (CpuBudgetTrySpend (word_of_nat (length data)) (rq_budget req) level)
      then
        let s1 = zstd_attempt s in
        case TryZstdEncode lib data level ldm (rq_dict req) (es_stats s1) of (st, z, stats) \<Rightarrow>
          let s2 = s1\<lparr>es_stats := stats\<rparr> in
          if status_ok st \<and> z_compressed z \<and> length (z_payload z) < length (ce_payload (es_out s2))
          then zstd_win data cls level z s2 else s2
      else s)"

text \<open>The LZ4 part: \<open>Inl\<close> when the encoder returns there.\<close>

definition lz4_part ::
  "zstd_lib \<Rightarrow> ContentEncodeRequest \<Rightarrow> CompressMode \<Rightarrow> TierZstdParams \<Rightarrow> int \<Rightarrow> bool \<Rightarrow> ContentDataClass \<Rightarrow>
     encode_state \<Rightarrow> ((Status \<times> encode_state) + encode_state) option" where
  "lz4_part lib req mode tp level ldm cls s =
     (let data = rq_data req in
      if mode = kModeLz4 \<or> mode = kModeAuto \<and> prefer_lz4_for_fast tp then
        (case Lz4Compress (Some data) (Some \<lparr>compressed = False, payload = [], uncompressed_size = 0\<rparr>) of
           Some (st, Some lz4) \<Rightarrow>
             if \<not> status_ok st then Some (Inl (st, s))
             else if compressed lz4 then
               let s1 = s\<lparr>es_out := \<lparr>ce_payload = payload lz4, ce_codec = kLz4, ce_uncompressed_len = uncompressed_size lz4\<rparr>,
                          es_stats := RecordCompressionStats (length data) (length (payload lz4))
                            (map_option (\<lambda>t. t\<lparr>lz4_only := lz4_only t + 1\<rparr>) (es_stats s)),
                          es_trainer := map_option (MaybeAddSample data cls) (es_trainer s)\<rparr>
               in Some (Inl (Status_Ok, lz4_retry lib req mode tp level ldm cls s1))
             else Some (Inr s)
         | _ \<Rightarrow> None)
      else Some (Inr s))"

definition store_raw :: "bytes \<Rightarrow> encode_state \<Rightarrow> encode_state" where
  "store_raw data s =
     s\<lparr>es_out := (es_out s)\<lparr>ce_payload := data, ce_codec := kRaw\<rparr>,
       es_stats := RecordCompressionStats (length data) (length data) (es_stats s)\<rparr>"

definition zstd_part ::
  "zstd_lib \<Rightarrow> ContentEncodeRequest \<Rightarrow> CompressMode \<Rightarrow> int \<Rightarrow> bool \<Rightarrow> ContentDataClass \<Rightarrow> encode_state \<Rightarrow>
     Status \<times> encode_state" where
  "zstd_part lib req mode level ldm cls s =
     (let data = rq_data req in
      if mode = kModeZstd \<or> mode = kModeAuto \<and> cls = kSlowCompressible then
        if mode = kModeAuto \<and> \<not> fst (CpuBudgetTrySpend (word_of_nat (length data)) (rq_budget req) level)
        then (Status_Ok, store_raw data s)
        else case zstd_block lib data level ldm (rq_dict req) cls s of
               (st, won, s1) \<Rightarrow> if \<not> status_ok st \<or> won then (st, s1) else (Status_Ok, store_raw data s1)
      else (Status_Ok, store_raw data s))"

definition ContentClassEncode ::
  "zstd_lib \<Rightarrow> (bytes \<Rightarrow> real) \<Rightarrow> ContentEncodeRequest \<Rightarrow> ContentClassStats option \<Rightarrow> bytes list option \<Rightarrow>
     (Status \<times> encode_state) option" where
  "ContentClassEncode lib entropy req stats trainer =
     (let data = rq_data req; mode = rq_mode req;
          s = \<lparr>es_out = \<lparr>ce_payload = [], ce_codec = kRaw, ce_uncompressed_len = word_of_nat (length data)\<rparr>,
               es_stats = stats, es_trainer = trainer\<rparr>
      in if data = [] then Some (Status_Ok, s)
         else if mode = kModeOff then Some (Status_Ok, s\<lparr>es_out := (es_out s)\<lparr>ce_payload := data\<rparr>\<rparr>)
         else
           let cls = ClassifyContent entropy data (rq_path_hint req);
               tp = ResolveTierParams (rq_tier req) (rq_level req)
           in if mode = kModeAuto \<and> cls = kIncompressible
              then Some (Status_Ok, s\<lparr>es_out := (es_out s)\<lparr>ce_payload := data\<rparr>,
                     es_stats := map_option (\<lambda>t. t\<lparr>incompressible_skips := incompressible_skips t + 1\<rparr>) stats\<rparr>)
              else
                let level = ResolveZstdLevel cls tp; ldm = ShouldEnableLdm (length data) tp;
                    first = (if \<not> ShouldTryZstdFirst mode cls tp then (Status_Ok, False, s, mode)
                             else if mode = kModeAuto \<and> \<not> fst (CpuBudgetTrySpend (word_of_nat (length data)) (rq_budget req) level)
                             then (Status_Ok, False, s, kModeLz4)
                             else case zstd_block lib data level ldm (rq_dict req) cls s of (st, won, s1) \<Rightarrow> (st, won, s1, mode))
                in case first of (st, won, s1, mode1) \<Rightarrow>
                     if \<not> status_ok st \<or> won then Some (st, s1)
                     else case lz4_part lib req mode1 tp level ldm cls s1 of
                            None \<Rightarrow> None
                          | Some (Inl r) \<Rightarrow> Some r
                          | Some (Inr s2) \<Rightarrow> Some (zstd_part lib req mode1 level ldm cls s2))"

section \<open>Whatever is chosen decodes to the chunk\<close>

text \<open>
  What the Zstandard documentation promises: decompressing, with the same dictionary and enough room,
  what the compressor returned gives the input back, and a frame is never empty.
\<close>

definition zstd_law :: "zstd_lib \<Rightarrow> bool" where
  "zstd_law lib \<longleftrightarrow>
     (\<forall>level ldm dict x y. zstd_compress2 lib level ldm dict x = Some y \<longrightarrow> y \<noteq> [] \<and>
        zstd_decompressDCtx lib dict y (length x) = Some x \<and> zstd_decompress_usingDDict lib dict y (length x) = Some x) \<and>
     (\<forall>level dict x y. zstd_compress_usingCDict lib (dict, level) x = Some y \<longrightarrow> y \<noteq> [] \<and>
        zstd_decompressDCtx lib dict y (length x) = Some x \<and> zstd_decompress_usingDDict lib dict y (length x) = Some x)"

text \<open>The options a reader with a given dictionary passes (\<open>ChunkStore::DecodePayload\<close>), and that they can be met.\<close>

definition decompress_options :: "zstd_lib \<Rightarrow> bytes \<Rightarrow> ZstdDecompressOptions" where
  "decompress_options lib dict =
     (if dict \<noteq> [] \<and> zstd_createDDict lib dict then \<lparr>dopt_dict = [], dopt_ddict = Some dict\<rparr>
      else \<lparr>dopt_dict = dict, dopt_ddict = None\<rparr>)"

definition zstd_can_decode :: "zstd_lib \<Rightarrow> bytes \<Rightarrow> bool" where
  "zstd_can_decode lib dict \<longleftrightarrow> zstd_createDCtx lib \<and> (dict \<noteq> [] \<longrightarrow> zstd_createDDict lib dict \<or> zstd_load_ddict lib dict)"

definition decodes :: "zstd_lib \<Rightarrow> bytes \<Rightarrow> bytes \<Rightarrow> ContentEncodeResult \<Rightarrow> bool" where
  "decodes lib dict data r \<longleftrightarrow>
     ce_uncompressed_len r = word_of_nat (length data) \<and> length (ce_payload r) \<le> length data \<and>
     (case ce_codec r of
        kRaw \<Rightarrow> ce_payload r = data
      | kLz4 \<Rightarrow> ce_payload r \<noteq> [] \<and>
          (\<forall>o0. Lz4Decompress (Some (ce_payload r)) (ce_uncompressed_len r) (Some o0) = Some (Status_Ok, Some data))
      | kZstd \<Rightarrow> zstd_can_decode lib dict \<longrightarrow>
          ZstdDecompressEx lib (ce_payload r) (ce_uncompressed_len r) (decompress_options lib dict) = Inr data
      | _ \<Rightarrow> False)"

lemma ZstdDecompressEx_frame:
  assumes "y \<noteq> []" and "zstd_decompressDCtx lib dict y (length x) = Some x"
    and "zstd_decompress_usingDDict lib dict y (length x) = Some x"
    and "zstd_can_decode lib dict" and "length x < 2 ^ 32"
  shows "ZstdDecompressEx lib y (word_of_nat (length x)) (decompress_options lib dict) = Inr x"
proof -
  have "unat (word_of_nat (length x) :: u32) = length x" using assms(5) by (simp add: unat_of_nat)
  then show ?thesis
    using assms(1-4) by (auto simp: ZstdDecompressEx_def Let_def decompress_options_def zstd_can_decode_def)
qed

lemma TryZstdEncode_ok:
  assumes "zstd_law lib" and "TryZstdEncode lib data level ldm dict stats = (st, z, stats')" and "status_ok st"
    and "z_compressed z" and "length data < 2 ^ 32"
  shows "decodes lib dict data \<lparr>ce_payload = z_payload z, ce_codec = kZstd, ce_uncompressed_len = z_uncompressed_size z\<rparr>"
proof -
  have "z_uncompressed_size z = word_of_nat (length data) \<and> length (z_payload z) < length data \<and> z_payload z \<noteq> [] \<and>
      zstd_decompressDCtx lib dict (z_payload z) (length data) = Some data \<and>
      zstd_decompress_usingDDict lib dict (z_payload z) (length data) = Some data"
    using assms(1-4)
    by (auto simp: TryZstdEncode_def ZstdCompressEx_def CompressWithCDict_def CompressWithCtx_def Let_def zstd_law_def
        split: prod.splits option.splits if_splits)
  then show ?thesis
    using ZstdDecompressEx_frame [of "z_payload z" lib dict data] assms(5) by (simp add: decodes_def)
qed

lemma zstd_win_out [simp]:
  "es_out (zstd_win data cls level z s) = \<lparr>ce_payload = z_payload z, ce_codec = kZstd, ce_uncompressed_len = z_uncompressed_size z\<rparr>"
  by (simp add: zstd_win_def apply_zstd_win_def Let_def)

lemma zstd_attempt_out [simp]: "es_out (zstd_attempt s) = es_out s"
  by (simp add: zstd_attempt_def)

lemma zstd_block_ok:
  assumes "zstd_law lib" and "zstd_block lib data level ldm dict cls s = (st, won, s')" and "length data < 2 ^ 32"
  shows "if won then status_ok st \<and> decodes lib dict data (es_out s') else es_out s' = es_out s"
  using assms TryZstdEncode_ok [OF assms(1), of data level ldm dict "es_stats (zstd_attempt s)"]
  by (fastforce simp: zstd_block_def Let_def split: prod.splits if_splits)

lemma store_raw_ok:
  "ce_uncompressed_len (es_out s) = word_of_nat (length data) \<Longrightarrow> decodes lib dict data (es_out (store_raw data s))"
  by (simp add: store_raw_def decodes_def)

lemma lz4_retry_ok:
  assumes "zstd_law lib" and "decodes lib (rq_dict req) (rq_data req) (es_out s)" and "length (rq_data req) < 2 ^ 32"
  shows "decodes lib (rq_dict req) (rq_data req) (es_out (lz4_retry lib req mode tp level ldm cls s))"
  using assms(2) TryZstdEncode_ok [OF assms(1) _ _ _ assms(3)]
  by (auto simp: lz4_retry_def Let_def split: prod.splits)

lemma lz4_part_ok:
  assumes "zstd_law lib" and "length (rq_data req) \<le> LZ4_MAX_INPUT_SIZE"
  shows "(\<exists>s'. lz4_part lib req mode tp level ldm cls s = Some (Inl (Status_Ok, s')) \<and> decodes lib (rq_dict req) (rq_data req) (es_out s')) \<or>
    lz4_part lib req mode tp level ldm cls s = Some (Inr s)"
proof -
  let ?d = "rq_data req" and ?r0 = "\<lparr>compressed = False, payload = [], uncompressed_size = 0\<rparr>"
  have lt: "length ?d < 2 ^ 32" using assms(2) by (simp add: LZ4_MAX_INPUT_SIZE_def)
  obtain r where r: "Lz4Compress (Some ?d) (Some ?r0) = Some (Status_Ok, Some r)" "unat (uncompressed_size r) = length ?d"
      "compressed r \<Longrightarrow> length (payload r) < length ?d \<and> payload r \<noteq> []"
      "\<And>o0. compressed r \<Longrightarrow> Lz4Decompress (Some (payload r)) (uncompressed_size r) (Some o0) = Some (Status_Ok, Some ?d)"
    using codec_roundtrip [OF assms(2), of ?r0] by (metis option.inject prod.inject)
  have "uncompressed_size r = word_of_nat (length ?d)" using r(2) by (metis of_nat_unat ucast_id)
  then have "compressed r \<Longrightarrow> decodes lib (rq_dict req) ?d
      \<lparr>ce_payload = payload r, ce_codec = kLz4, ce_uncompressed_len = uncompressed_size r\<rparr>"
    using r(3,4) by (simp add: decodes_def)
  then show ?thesis
    using r(1) lz4_retry_ok [OF assms(1) _ lt] by (auto simp: lz4_part_def Let_def)
qed

lemma zstd_part_ok:
  assumes "zstd_law lib" and "ce_uncompressed_len (es_out s) = word_of_nat (length (rq_data req))"
    and "length (rq_data req) < 2 ^ 32" and "zstd_part lib req mode level ldm cls s = (st, s')" and "status_ok st"
  shows "decodes lib (rq_dict req) (rq_data req) (es_out s')"
proof -
  obtain st1 won s1 where b: "zstd_block lib (rq_data req) level ldm (rq_dict req) cls s = (st1, won, s1)"
    by (cases "zstd_block lib (rq_data req) level ldm (rq_dict req) cls s") auto
  note k = zstd_block_ok [OF assms(1) b assms(3)]
  show ?thesis
  proof (cases "(mode = kModeZstd \<or> mode = kModeAuto \<and> cls = kSlowCompressible) \<and>
      \<not> (mode = kModeAuto \<and> \<not> fst (CpuBudgetTrySpend (word_of_nat (length (rq_data req))) (rq_budget req) level))")
    case True
    then have e: "zstd_part lib req mode level ldm cls s =
        (if \<not> status_ok st1 \<or> won then (st1, s1) else (Status_Ok, store_raw (rq_data req) s1))"
      using b by (auto simp: zstd_part_def Let_def)
    show ?thesis
    proof (cases won)
      case True
      then show ?thesis using e k assms(4) by simp
    next
      case False
      then have "es_out s1 = es_out s" using k by simp
      then show ?thesis using e assms(2,4,5) False store_raw_ok [of s1 "rq_data req"] by (auto split: if_splits)
    qed
  next
    case False
    then have "zstd_part lib req mode level ldm cls s = (Status_Ok, store_raw (rq_data req) s)"
      by (auto simp: zstd_part_def Let_def)
    then show ?thesis using store_raw_ok [OF assms(2)] assms(4) by simp
  qed
qed

text \<open>Whatever mode, tier, class and budget: the encoder returns, and its choice decodes.\<close>

lemma ContentClassEncode_ok:
  assumes law: "zstd_law lib" and len: "length (rq_data req) \<le> LZ4_MAX_INPUT_SIZE"
  shows "\<exists>st s. ContentClassEncode lib entropy req stats trainer = Some (st, s) \<and>
    (status_ok st \<longrightarrow> decodes lib (rq_dict req) (rq_data req) (es_out s))"
proof -
  let ?d = "rq_data req"
  let ?s = "\<lparr>es_out = \<lparr>ce_payload = [], ce_codec = kRaw, ce_uncompressed_len = word_of_nat (length ?d)\<rparr>, es_stats = stats, es_trainer = trainer\<rparr>"
  let ?cls = "ClassifyContent entropy ?d (rq_path_hint req)" and ?tp = "ResolveTierParams (rq_tier req) (rq_level req)"
  let ?level = "ResolveZstdLevel ?cls ?tp" and ?ldm = "ShouldEnableLdm (length ?d) ?tp"
  have lt: "length ?d < 2 ^ 32" using len by (simp add: LZ4_MAX_INPUT_SIZE_def)
  show ?thesis
  proof (cases "?d = [] \<or> rq_mode req = kModeOff \<or> rq_mode req = kModeAuto \<and> ?cls = kIncompressible")
    case True
    then show ?thesis by (auto simp: ContentClassEncode_def Let_def decodes_def)
  next
    case False
    define first where "first = (if \<not> ShouldTryZstdFirst (rq_mode req) ?cls ?tp then (Status_Ok, False, ?s, rq_mode req)
        else if rq_mode req = kModeAuto \<and> \<not> fst (CpuBudgetTrySpend (word_of_nat (length ?d)) (rq_budget req) ?level)
        then (Status_Ok, False, ?s, kModeLz4)
        else case zstd_block lib ?d ?level ?ldm (rq_dict req) ?cls ?s of (st, won, s1) \<Rightarrow> (st, won, s1, rq_mode req))"
    obtain st won s1 mode1 where f: "first = (st, won, s1, mode1)" by (cases first) auto
    have k: "if won then status_ok st \<and> decodes lib (rq_dict req) ?d (es_out s1) else es_out s1 = es_out ?s"
    proof (cases "zstd_block lib ?d ?level ?ldm (rq_dict req) ?cls ?s")
      case (fields a b c)
      note zb = zstd_block_ok [OF law fields lt]
      show ?thesis using f zb unfolding first_def fields by (auto split: if_splits)
    qed
    have e: "ContentClassEncode lib entropy req stats trainer =
        (if \<not> status_ok st \<or> won then Some (st, s1)
         else case lz4_part lib req mode1 ?tp ?level ?ldm ?cls s1 of
                None \<Rightarrow> None | Some (Inl r) \<Rightarrow> Some r | Some (Inr s2) \<Rightarrow> Some (zstd_part lib req mode1 ?level ?ldm ?cls s2))"
    proof -
      have c: "(?d = []) = False" "(rq_mode req = kModeOff) = False" "(rq_mode req = kModeAuto \<and> ?cls = kIncompressible) = False"
        using False by blast+
      show ?thesis
        unfolding ContentClassEncode_def Let_def c if_False first_def [symmetric] f prod.case ..
    qed
    show ?thesis
    proof (cases "\<not> status_ok st \<or> won")
      case True
      then show ?thesis using e k by auto
    next
      case False
      then have u: "ce_uncompressed_len (es_out s1) = word_of_nat (length ?d)" using k by simp
      obtain st2 s2 where z: "zstd_part lib req mode1 ?level ?ldm ?cls s1 = (st2, s2)"
        by (cases "zstd_part lib req mode1 ?level ?ldm ?cls s1") auto
      show ?thesis
        using lz4_part_ok [OF law len, of mode1 ?tp ?level ?ldm ?cls s1] e False z zstd_part_ok [OF law u lt z] by auto
    qed
  qed
qed

end
