(* ===== verification/ChunkStore.thy ===== *)
theory ChunkStore
  imports EbPack ContentClass AesGcm Digest "HOL-Library.AList"
begin

text \<open>
  The content-addressed chunk store (\<open>store/chunk_store.cc\<close>): an index in sixteen shards over records
  that go either to one append-only log, through a write buffer, or to pack files; deduplication by
  content hash, compression and encryption of payloads, tombstones, and opening a store from its index
  file or by a scan of the log. The members of the class are the record \<open>ChunkStore\<close>, what is on disk is
  the record \<open>repo_files\<close>, and what the file operations answer is the record \<open>store_io\<close>. A function
  returns \<open>None\<close> where the code has undefined behaviour (lengths that do not fit an \<open>int\<close> in the LZ4
  codec). Mutexes are not modelled: every operation is atomic.
\<close>

section \<open>State (store/chunk_store.h)\<close>

datatype DurabilityMode = kStrict | kBalanced

record ChunkLocation =
  loc_offset :: u64
  loc_pack_path :: string
  loc_stored_len :: u32
  loc_uncompressed_len :: u32
  loc_codec :: byte

record ChunkStore =
  cs_path :: string
  cs_file_size :: u64
  shard_index :: "(bytes \<times> ChunkLocation) list list"
  tombstones :: "bytes set"
  index_entries :: "ChunkIndexEntry list"
  cs_content_key :: bytes
  has_content_key :: bool
  cs_digest_algo :: DigestAlgo
  durability_mode :: DurabilityMode
  use_persistent_index :: bool
  defer_persistent_index_save :: bool
  use_ebpack :: bool
  append_txn_id :: u64
  eb_pack_shards :: "EbPackShardSet option"
  pipeline_dedup_trust :: bool
  cs_zstd_dict :: bytes
  append_fd :: bool
  append_session_active :: bool
  write_buffer :: bytes
  pending_records :: u64

record repo_files =
  log_file :: "bytes option"
  idx_file :: "bytes option"
  tomb_file :: "string option"
  pack_files :: files

text \<open>
  A write of the log that fails has stored some of its bytes (\<open>log_torn\<close>), likewise the append of a
  tombstone; \<open>pack_seen\<close> says whether listing the packs directory finds a pack.
\<close>

record store_io =
  log_open_ok :: bool
  log_torn :: "nat option"
  log_fsync :: Status
  log_read_ok :: bool
  log_resize_ok :: bool
  tomb_read_ok :: bool
  tomb_open_ok :: bool
  tomb_torn :: "nat option"
  tomb_fsync :: Status
  pack_seen :: bool
  idx_io :: save_io
  pk_io :: pack_io

definition kIndexShardCount :: nat where "kIndexShardCount = 16"
definition kStrictPackFlushBytes :: nat where "kStrictPackFlushBytes = 4 * 1024 * 1024"
definition kStrictPackFlushRecords :: u64 where "kStrictPackFlushRecords = 32"
definition kBalancedPackFlushBytes :: nat where "kBalancedPackFlushBytes = 16 * 1024 * 1024"
definition kBalancedPackFlushRecords :: u64 where "kBalancedPackFlushRecords = 64"

text \<open>The constructor.\<close>

definition new_store :: "string \<Rightarrow> ChunkStore" where
  "new_store path = \<lparr>cs_path = path, cs_file_size = 0, shard_index = replicate kIndexShardCount [], tombstones = {},
     index_entries = [], cs_content_key = zeros 32, has_content_key = False, cs_digest_algo = kLegacy,
     durability_mode = kStrict, use_persistent_index = False, defer_persistent_index_save = False,
     use_ebpack = False, append_txn_id = 0, eb_pack_shards = None, pipeline_dedup_trust = False,
     cs_zstd_dict = [], append_fd = False, append_session_active = False, write_buffer = [], pending_records = 0\<rparr>"

definition SetContentKey :: "bytes option \<Rightarrow> ChunkStore \<Rightarrow> ChunkStore" where
  "SetContentKey key cs = (case key of None \<Rightarrow> cs | Some k \<Rightarrow> cs\<lparr>cs_content_key := k, has_content_key := True\<rparr>)"

definition ClearContentKey :: "ChunkStore \<Rightarrow> ChunkStore" where
  "ClearContentKey cs = cs\<lparr>cs_content_key := zeros 32, has_content_key := False\<rparr>"

text \<open>\<open>std::filesystem\<close> paths, for a file in a directory.\<close>

definition parent_path :: "string \<Rightarrow> string" where
  "parent_path p = rev (tl (dropWhile (\<lambda>c. c \<noteq> CHR ''/'') (rev p)))"

definition path_filename :: "string \<Rightarrow> string" where
  "path_filename p = rev (takeWhile (\<lambda>c. c \<noteq> CHR ''/'') (rev p))"

definition PacksDir :: "ChunkStore \<Rightarrow> string" where
  "PacksDir cs = path_join (parent_path (cs_path cs)) ''packs''"

definition TombstonePath :: "ChunkStore \<Rightarrow> string" where
  "TombstonePath cs = path_join (parent_path (cs_path cs)) ''tombstones''"

definition PathForStore :: "string \<Rightarrow> string" where
  "PathForStore chunks_path = path_join (parent_path chunks_path) ''chunk.idx''"

definition IndexShardForHash :: "bytes \<Rightarrow> nat" where
  "IndexShardForHash hash = unat (hd hash AND 0x0F)"

definition PackFlushBytes :: "ChunkStore \<Rightarrow> nat" where
  "PackFlushBytes cs = (if durability_mode cs = kBalanced then kBalancedPackFlushBytes else kStrictPackFlushBytes)"

definition PackFlushRecords :: "ChunkStore \<Rightarrow> u64" where
  "PackFlushRecords cs = (if durability_mode cs = kBalanced then kBalancedPackFlushRecords else kStrictPackFlushRecords)"

section \<open>The index\<close>

definition find_loc :: "ChunkStore \<Rightarrow> bytes \<Rightarrow> ChunkLocation option" where
  "find_loc cs hash = map_of (shard_index cs ! IndexShardForHash hash) hash"

definition index_put :: "bytes \<Rightarrow> ChunkLocation \<Rightarrow> (bytes \<times> ChunkLocation) list list \<Rightarrow> (bytes \<times> ChunkLocation) list list" where
  "index_put hash loc shards =
     (let i = IndexShardForHash hash in shards[i := AList.update hash loc (shards ! i)])"

definition record_count :: "ChunkStore \<Rightarrow> nat" where
  "record_count cs = sum_list (map length (shard_index cs))"

definition TrackIndexEntry ::
  "bytes \<Rightarrow> u64 \<Rightarrow> ChunkRecordHeader \<Rightarrow> string \<Rightarrow> ChunkStore \<Rightarrow> ChunkStore" where
  "TrackIndexEntry hash offset hdr pack cs =
     (let entry = empty_entry\<lparr>ent_hash := hash, ent_offset := offset, ent_stored_len := rec_stored_len hdr,
                    ent_uncompressed_len := rec_uncompressed_len hdr, ent_codec := rec_codec hdr\<rparr>;
          name = take 46 (string_bytes (path_filename pack))
      in cs\<lparr>index_entries := index_entries cs @
             [if pack = [] then entry
              else entry\<lparr>storage_flags := kChunkStorageEbPack, pack_name := name @ zeros (47 - length name)\<rparr>]\<rparr>)"

definition Exists :: "ChunkStore \<Rightarrow> bytes \<Rightarrow> bool" where
  "Exists cs hash \<longleftrightarrow> hash \<notin> tombstones cs \<and> find_loc cs hash \<noteq> None"

definition ExistsMany :: "ChunkStore \<Rightarrow> bytes option list \<Rightarrow> bool list" where
  "ExistsMany cs hashes =
     map (\<lambda>h. case h of None \<Rightarrow> False | Some hash \<Rightarrow> hash \<notin> tombstones cs \<and> find_loc cs hash \<noteq> None) hashes"

definition SavePersistentIndex :: "store_io \<Rightarrow> ChunkStore \<Rightarrow> repo_files \<Rightarrow> Status \<times> repo_files" where
  "SavePersistentIndex io cs fs =
     (if \<not> use_persistent_index cs then (Status_Ok, fs)
      else case index_Save (idx_io io) (PathForStore (cs_path cs)) (idx_file fs) (cs_file_size cs) (index_entries cs) of
             (st, idx) \<Rightarrow> (st, fs\<lparr>idx_file := idx\<rparr>))"

section \<open>Writing to the log\<close>

definition append_log :: "bytes \<Rightarrow> repo_files \<Rightarrow> repo_files" where
  "append_log bs fs = fs\<lparr>log_file := Some ((case log_file fs of None \<Rightarrow> [] | Some b \<Rightarrow> b) @ bs)\<rparr>"

definition EnsureAppendSession :: "store_io \<Rightarrow> ChunkStore \<Rightarrow> repo_files \<Rightarrow> Status \<times> ChunkStore \<times> repo_files" where
  "EnsureAppendSession io cs fs =
     (if append_fd cs then (Status_Ok, cs, fs)
      else if \<not> log_open_ok io then (IoError (''cannot open chunk store for append: '' @ cs_path cs), cs, fs)
      else (Status_Ok, cs\<lparr>append_fd := True\<rparr>, append_log [] fs))"

definition BeginAppendSession :: "store_io \<Rightarrow> ChunkStore \<Rightarrow> repo_files \<Rightarrow> Status \<times> ChunkStore \<times> repo_files" where
  "BeginAppendSession io cs fs =
     (if append_session_active cs then (Status_Ok, cs, fs)
      else if use_ebpack cs then
        (Status_Ok, cs\<lparr>eb_pack_shards := Some (new_shard_set (PacksDir cs) (append_txn_id cs) (PackFlushBytes cs) (PackFlushRecords cs)),
                       append_session_active := True\<rparr>, fs)
      else case EnsureAppendSession io cs fs of
        (st, cs1, fs1) \<Rightarrow> if \<not> status_ok st then (st, cs1, fs1) else (Status_Ok, cs1\<lparr>append_session_active := True\<rparr>, fs1))"

definition EndAppendSession :: "ChunkStore \<Rightarrow> ChunkStore" where
  "EndAppendSession cs =
     (if \<not> append_session_active cs then cs
      else cs\<lparr>append_session_active := False, eb_pack_shards := None, append_fd := False\<rparr>)"

text \<open>The two branches write through a stream or through the descriptor; a failing write keeps the buffer.\<close>

definition WriteBufferToSession :: "store_io \<Rightarrow> bool \<Rightarrow> ChunkStore \<Rightarrow> repo_files \<Rightarrow> Status \<times> ChunkStore \<times> repo_files" where
  "WriteBufferToSession io fsync_after cs fs =
     (let written = (if fsync_after then log_fsync io else Status_Ok,
                     cs\<lparr>write_buffer := [], pending_records := 0\<rparr>, append_log (write_buffer cs) fs)
      in if write_buffer cs = [] then (Status_Ok, cs, fs)
         else if \<not> append_fd cs then
           (if \<not> log_open_ok io then (IoError ''cannot flush chunk buffer'', cs, fs)
            else case log_torn io of
                   Some k \<Rightarrow> (IoError ''chunk buffer flush failed'', cs, append_log (take k (write_buffer cs)) fs)
                 | None \<Rightarrow> written)
         else case log_torn io of
                Some k \<Rightarrow> (IoError ''chunk write failed'', cs, append_log (take k (write_buffer cs)) fs)
              | None \<Rightarrow> written)"

definition MaybeFlushPack :: "store_io \<Rightarrow> ChunkStore \<Rightarrow> repo_files \<Rightarrow> Status \<times> ChunkStore \<times> repo_files" where
  "MaybeFlushPack io cs fs =
     (if \<not> append_session_active cs then (Status_Ok, cs, fs)
      else if length (write_buffer cs) < PackFlushBytes cs \<and> pending_records cs < PackFlushRecords cs then (Status_Ok, cs, fs)
      else WriteBufferToSession io False cs fs)"

definition Flush :: "store_io \<Rightarrow> ChunkStore \<Rightarrow> repo_files \<Rightarrow> Status \<times> ChunkStore \<times> repo_files" where
  "Flush io cs fs =
     (case (if use_ebpack cs then eb_pack_shards cs else None) of
        Some ss \<Rightarrow>
          (case FlushAllOpenPacks (pk_io io) True (pack_files fs) ss of
             (st1, ss1, pf) \<Rightarrow>
               let cs1 = cs\<lparr>eb_pack_shards := Some ss1\<rparr>; fs1 = fs\<lparr>pack_files := pf\<rparr> in
               if \<not> status_ok st1 then (st1, cs1, fs1)
               else case shards_FsyncAll (pk_io io) ss1 of
                 (st2, ss2) \<Rightarrow>
                   let cs2 = cs1\<lparr>eb_pack_shards := Some ss2\<rparr> in
                   if \<not> status_ok st2 then (st2, cs2, fs1)
                   else if defer_persistent_index_save cs2 then (Status_Ok, cs2, fs1)
                   else case SavePersistentIndex io cs2 fs1 of (st3, fs2) \<Rightarrow> (st3, cs2, fs2))
      | None \<Rightarrow>
          (case WriteBufferToSession io True cs fs of
             (st, cs1, fs1) \<Rightarrow>
               if \<not> status_ok st then (st, cs1, fs1)
               else if defer_persistent_index_save cs1 then (Status_Ok, cs1, fs1)
               else case SavePersistentIndex io cs1 fs1 of (st2, fs2) \<Rightarrow> (st2, cs1, fs2)))"

section \<open>Appending a record\<close>

text \<open>The byte of a codec, and what a stored byte means.\<close>

definition codec_byte :: "ChunkCodec \<Rightarrow> byte" where
  "codec_byte c = (case c of kRaw \<Rightarrow> 0 | kLz4 \<Rightarrow> 1 | kEncrypted \<Rightarrow> 2 | kEncryptedLz4 \<Rightarrow> 3 | kZstd \<Rightarrow> 4 | kEncryptedZstd \<Rightarrow> 5)"

definition EncryptCodec :: "ChunkCodec \<Rightarrow> ChunkCodec" where
  "EncryptCodec base = (case base of kLz4 \<Rightarrow> kEncryptedLz4 | kZstd \<Rightarrow> kEncryptedZstd | _ \<Rightarrow> kEncrypted)"

definition AppendRecordEbPack ::
  "store_io \<Rightarrow> bytes \<Rightarrow> bytes \<Rightarrow> ChunkCodec \<Rightarrow> u32 \<Rightarrow> ChunkStore \<Rightarrow> repo_files \<Rightarrow> Status \<times> ChunkStore \<times> repo_files" where
  "AppendRecordEbPack io hash chunk codec uncompressed_len cs fs =
     (case eb_pack_shards cs of
        None \<Rightarrow> (Internal ''ebpack shard set not active'', cs, fs)
      | Some ss \<Rightarrow>
          (case shards_AppendRecord (pk_io io) hash chunk uncompressed_len (codec_byte codec) (pack_files fs) ss of
             (r, ss1, pf) \<Rightarrow>
               let cs1 = cs\<lparr>eb_pack_shards := Some ss1\<rparr>; fs1 = fs\<lparr>pack_files := pf\<rparr> in
               case r of
                 Inl e \<Rightarrow> (e, cs1, fs1)
               | Inr ref \<Rightarrow>
                   let hdr = append_header hash (length chunk) uncompressed_len (codec_byte codec);
                       loc = \<lparr>loc_offset = ref_offset ref, loc_pack_path = pack_path ref, loc_stored_len = ref_stored_len ref,
                              loc_uncompressed_len = ref_uncompressed_len ref, loc_codec = ref_codec ref\<rparr>
                   in (Status_Ok,
                       TrackIndexEntry hash (ref_offset ref) hdr (pack_path ref)
                         (cs1\<lparr>shard_index := index_put hash loc (shard_index cs1)\<rparr>), fs1)))"

text \<open>The record in the write buffer and in the index, before anything is written.\<close>

definition buffer_record :: "bytes \<Rightarrow> bytes \<Rightarrow> ChunkCodec \<Rightarrow> u32 \<Rightarrow> ChunkStore \<Rightarrow> ChunkStore" where
  "buffer_record hash chunk codec uncompressed_len cs =
     (let hdr = append_header hash (length chunk) uncompressed_len (codec_byte codec);
          offset = cs_file_size cs;
          loc = \<lparr>loc_offset = offset, loc_pack_path = [], loc_stored_len = rec_stored_len hdr,
                 loc_uncompressed_len = rec_uncompressed_len hdr, loc_codec = rec_codec hdr\<rparr>;
          cs1 = cs\<lparr>write_buffer := write_buffer cs @ v2_bytes hdr @ chunk, pending_records := pending_records cs + 1,
                   shard_index := index_put hash loc (shard_index cs),
                   cs_file_size := cs_file_size cs + 48 + word_of_nat (length chunk)\<rparr>
      in TrackIndexEntry hash offset hdr [] cs1)"

definition AppendRecordInternal ::
  "store_io \<Rightarrow> bytes \<Rightarrow> bytes \<Rightarrow> ChunkCodec \<Rightarrow> u32 \<Rightarrow> ChunkStore \<Rightarrow> repo_files \<Rightarrow> Status \<times> ChunkStore \<times> repo_files" where
  "AppendRecordInternal io hash chunk codec uncompressed_len cs fs =
     (if use_ebpack cs then AppendRecordEbPack io hash chunk codec uncompressed_len cs fs
      else
        let cs1 = buffer_record hash chunk codec uncompressed_len cs in
        if append_session_active cs1 then MaybeFlushPack io cs1 fs
        else case EnsureAppendSession io cs1 fs of
          (st2, cs2, fs2) \<Rightarrow>
            if \<not> status_ok st2 then (st2, cs2, fs2)
            else case WriteBufferToSession io True cs2 fs2 of
              (st3, cs3, fs3) \<Rightarrow>
                if \<not> status_ok st3 then (st3, cs3, fs3)
                else
                  let cs4 = cs3\<lparr>append_fd := False\<rparr> in
                  if defer_persistent_index_save cs4 then (Status_Ok, cs4, fs3)
                  else case SavePersistentIndex io cs4 fs3 of (st5, fs5) \<Rightarrow> (st5, cs4, fs5))"

section \<open>Storing a chunk\<close>

record ChunkStorePutOptions =
  po_use_lz4 :: bool
  po_use_encryption :: bool
  po_content_key :: "bytes option"
  po_compress_mode :: CompressMode
  po_tier :: CompressTier
  po_level :: int
  po_use_zstd_dict :: bool
  po_budget :: u32
  po_path_hint :: "string option"
  po_stats :: "ContentClassStats option"
  po_zstd_dict :: "bytes option"
  po_trainer :: "bytes list option"

definition ResolveCompressMode :: "ChunkStorePutOptions option \<Rightarrow> CompressMode" where
  "ResolveCompressMode options =
     (case options of
        None \<Rightarrow> kModeOff
      | Some opt \<Rightarrow> if po_compress_mode opt \<noteq> kModeOff then po_compress_mode opt
                  else if po_use_lz4 opt then kModeLz4 else kModeOff)"

text \<open>The parts of the environment of a put: the compression library, the entropy estimate, random draws.\<close>

record put_env =
  pe_zstd :: zstd_lib
  pe_entropy :: "bytes \<Rightarrow> real"
  pe_random :: "nat \<Rightarrow> u32"

definition zero_stats :: ContentClassStats where
  "zero_stats = \<lparr>incompressible_skips = 0, lz4_only = 0, zstd_attempts = 0, zstd_wins = 0,
     cpu_budget_spent_permille = 0, bytes_before_compress = 0, bytes_after_compress = 0, dict_hits = 0\<rparr>"

definition put_request :: "ChunkStore \<Rightarrow> bytes \<Rightarrow> ChunkStorePutOptions option \<Rightarrow> ContentEncodeRequest" where
  "put_request cs chunk options =
     \<lparr>rq_data = chunk, rq_mode = ResolveCompressMode options,
      rq_tier = (case options of None \<Rightarrow> kTierFast | Some opt \<Rightarrow> po_tier opt),
      rq_level = (case options of None \<Rightarrow> 0 | Some opt \<Rightarrow> po_level opt),
      rq_budget = (case options of None \<Rightarrow> 1000 | Some opt \<Rightarrow> po_budget opt),
      rq_path_hint = (case options of None \<Rightarrow> None | Some opt \<Rightarrow> po_path_hint opt),
      rq_dict = (case options of
                   None \<Rightarrow> []
                 | Some opt \<Rightarrow> if po_use_zstd_dict opt then (case po_zstd_dict opt of None \<Rightarrow> cs_zstd_dict cs | Some d \<Rightarrow> d) else [])\<rparr>"

definition put_trainer :: "ChunkStorePutOptions option \<Rightarrow> bytes list option" where
  "put_trainer options =
     (case options of None \<Rightarrow> None | Some opt \<Rightarrow> if po_use_zstd_dict opt then po_trainer opt else None)"

text \<open>
  The payload that is stored for a chunk, its codec and its recorded length, and the caller's statistics
  and trainer afterwards. Encrypting cannot fail in the portable cipher.
\<close>

definition encode_payload ::
  "put_env \<Rightarrow> ChunkStore \<Rightarrow> bytes \<Rightarrow> ChunkStorePutOptions option \<Rightarrow>
     ((Status + (bytes \<times> ChunkCodec \<times> u32)) \<times> ContentClassStats option \<times> bytes list option) option" where
  "encode_payload env cs chunk options =
     (let stats = (case options of None \<Rightarrow> Some zero_stats | Some opt \<Rightarrow> po_stats opt);
          trainer = put_trainer options;
          use_encryption = (case options of None \<Rightarrow> False | Some opt \<Rightarrow> po_use_encryption opt);
          key = (case (case options of None \<Rightarrow> None | Some opt \<Rightarrow> po_content_key opt) of
                   Some k \<Rightarrow> Some k
                 | None \<Rightarrow> if has_content_key cs then Some (cs_content_key cs) else None)
      in if use_encryption \<and> key = None
         then Some (Inl (InvalidArgument ''encryption requires content key''), stats, trainer)
         else case ContentClassEncode (pe_zstd env) (pe_entropy env) (put_request cs chunk options) stats trainer of
           None \<Rightarrow> None
         | Some (st, s) \<Rightarrow>
             Some (if \<not> status_ok st then Inl st
                   else
                     let r = es_out s in
                     Inr (if use_encryption
                          then (Aes256GcmEncrypt (pe_random env) (the key) (ce_payload r), EncryptCodec (ce_codec r), ce_uncompressed_len r)
                          else (ce_payload r, ce_codec r, ce_uncompressed_len r)),
                   es_stats s, es_trainer s))"

text \<open>
  The result of a put: whether the chunk was newly written, or an error; then the caller's statistics and
  trainer (unchanged when the chunk was there already), the store and the files.
\<close>

type_synonym put_result =
  "(Status + bool) \<times> (ContentClassStats option \<times> bytes list option) \<times> ChunkStore \<times> repo_files"

definition PutKnownHash ::
  "put_env \<Rightarrow> store_io \<Rightarrow> bytes \<Rightarrow> bytes \<Rightarrow> ChunkStorePutOptions option \<Rightarrow> ChunkStore \<Rightarrow> repo_files \<Rightarrow>
     put_result option" where
  "PutKnownHash env io chunk hash options cs fs =
     (let caller = (case options of None \<Rightarrow> Some zero_stats | Some opt \<Rightarrow> po_stats opt, put_trainer options) in
      if Exists cs hash then Some (Inr False, caller, cs, fs)
      else case encode_payload env cs chunk options of
        None \<Rightarrow> None
      | Some (Inl e, caller1) \<Rightarrow> Some (Inl e, caller1, cs, fs)
      | Some (Inr (stored, codec, ulen), caller1) \<Rightarrow>
          (case AppendRecordInternal io hash stored codec ulen cs fs of
             (st, cs1, fs1) \<Rightarrow> Some (if status_ok st then Inr True else Inl st, caller1, cs1, fs1)))"

definition Put ::
  "put_env \<Rightarrow> store_io \<Rightarrow> bytes \<Rightarrow> ChunkStorePutOptions option \<Rightarrow> ChunkStore \<Rightarrow> repo_files \<Rightarrow>
     (bytes \<times> put_result) option" where
  "Put env io chunk options cs fs =
     (let hash = ContentHash (cs_digest_algo cs) chunk
      in map_option (Pair hash) (PutKnownHash env io chunk hash options cs fs))"

text \<open>The pipeline hands over payloads it has compressed itself; \<open>fail\<close> is the injected test failure.\<close>

definition PutPrecompressed ::
  "bool \<Rightarrow> store_io \<Rightarrow> bytes \<Rightarrow> bytes \<Rightarrow> u32 \<Rightarrow> ChunkCodec \<Rightarrow> bool \<Rightarrow> ChunkStore \<Rightarrow> repo_files \<Rightarrow>
     (Status + bool) \<times> ChunkStore \<times> repo_files" where
  "PutPrecompressed fail io hash pl uncompressed_len codec skip_exists_check cs fs =
     (if fail then (Inl (IoError ''test injected pipeline store failure''), cs, fs)
      else if \<not> skip_exists_check \<and> \<not> pipeline_dedup_trust cs \<and> Exists cs hash then (Inr False, cs, fs)
      else case AppendRecordInternal io hash pl codec uncompressed_len cs fs of
        (st, cs1, fs1) \<Rightarrow> (if status_ok st then Inr True else Inl st, cs1, fs1))"

section \<open>Reading a chunk\<close>

definition ReadRecordAt :: "store_io \<Rightarrow> ChunkStore \<Rightarrow> repo_files \<Rightarrow> u64 \<Rightarrow> Status + (ChunkRecordHeader \<times> bytes)" where
  "ReadRecordAt io cs fs offset =
     (case (if log_read_ok io then log_file fs else None) of
        None \<Rightarrow> Inl (IoError (''cannot open chunk store: '' @ cs_path cs))
      | Some logb \<Rightarrow>
          (case ReadParsedHeaderAt logb (unat offset) of
             Inl e \<Rightarrow> Inl e
           | Inr (hdr, header_size) \<Rightarrow>
               let pl = slice_at (unat offset + header_size) (unat (rec_stored_len hdr)) logb
               in if length pl < unat (rec_stored_len hdr) then Inl (Corrupt ''chunk payload read short'')
                  else Inr (hdr, pl)))"

definition ReadRecordForHash :: "store_io \<Rightarrow> ChunkStore \<Rightarrow> repo_files \<Rightarrow> bytes \<Rightarrow> Status + (ChunkRecordHeader \<times> bytes)" where
  "ReadRecordForHash io cs fs hash =
     (case find_loc cs hash of
        None \<Rightarrow> Inl (NotFound ''chunk not found'')
      | Some loc \<Rightarrow>
          if loc_pack_path loc \<noteq> [] then ReadEbPackRecordAt (pack_files fs) (loc_pack_path loc) (unat (loc_offset loc))
          else ReadRecordAt io cs fs (loc_offset loc))"

text \<open>Decryption, then decompression, by the codec of the record.\<close>

definition decode_decrypt :: "ChunkStore \<Rightarrow> byte \<Rightarrow> bytes \<Rightarrow> Status + bytes" where
  "decode_decrypt cs codec pl =
     (if codec \<in> {codec_byte kEncrypted, codec_byte kEncryptedLz4, codec_byte kEncryptedZstd} then
        if \<not> has_content_key cs then Inl (InvalidArgument ''encrypted chunk requires content key'')
        else Aes256GcmDecrypt (cs_content_key cs) pl
      else Inr pl)"

definition DecodePayload :: "zstd_lib \<Rightarrow> ChunkStore \<Rightarrow> ChunkRecordHeader \<Rightarrow> bytes \<Rightarrow> (Status + bytes) option" where
  "DecodePayload lib cs hdr pl =
     (let codec = rec_codec hdr; ulen = rec_uncompressed_len hdr in
      case decode_decrypt cs codec pl of
        Inl e \<Rightarrow> Some (Inl e)
      | Inr plain \<Rightarrow>
          if codec = codec_byte kLz4 \<or> codec = codec_byte kEncryptedLz4 then
            (case Lz4Decompress (if plain = [] then None else Some plain) ulen (Some []) of
               Some (st, Some out) \<Rightarrow> Some (if status_ok st then Inr out else Inl st)
             | _ \<Rightarrow> None)
          else if codec = codec_byte kZstd \<or> codec = codec_byte kEncryptedZstd then
            Some (ZstdDecompressEx lib plain ulen (decompress_options lib (cs_zstd_dict cs)))
          else Some (Inr plain))"

definition Get :: "zstd_lib \<Rightarrow> store_io \<Rightarrow> ChunkStore \<Rightarrow> repo_files \<Rightarrow> bytes \<Rightarrow> (Status + bytes) option" where
  "Get lib io cs fs hash =
     (if hash \<in> tombstones cs then Some (Inl (NotFound ''chunk tombstoned''))
      else case ReadRecordForHash io cs fs hash of
        Inl e \<Rightarrow> Some (Inl e)
      | Inr (hdr, pl) \<Rightarrow>
          map_option (\<lambda>r. case r of
              Inl e \<Rightarrow> Inl e
            | Inr out \<Rightarrow> if ContentHash (cs_digest_algo cs) out \<noteq> hash then Inl (Corrupt ''chunk hash mismatch'') else Inr out)
            (DecodePayload lib cs hdr pl))"

section \<open>Tombstones\<close>

definition TombstoneHash :: "store_io \<Rightarrow> bytes \<Rightarrow> ChunkStore \<Rightarrow> repo_files \<Rightarrow> Status \<times> ChunkStore \<times> repo_files" where
  "TombstoneHash io hash cs fs =
     (if find_loc cs hash = None then (NotFound ''chunk not in store'', cs, fs)
      else if hash \<in> tombstones cs then (Status_Ok, cs, fs)
      else
        let cs1 = cs\<lparr>tombstones := insert hash (tombstones cs)\<rparr>;
            old = (case tomb_file fs of None \<Rightarrow> [] | Some s \<Rightarrow> s);
            line = BytesToHex hash @ [CHR 0x0A]
        in if \<not> tomb_open_ok io then (IoError ''cannot append tombstone'', cs1, fs)
           else case tomb_torn io of
                  Some k \<Rightarrow> (IoError ''tombstone write failed'', cs1, fs\<lparr>tomb_file := Some (old @ take k line)\<rparr>)
                | None \<Rightarrow> (tomb_fsync io, cs1, fs\<lparr>tomb_file := Some (old @ line)\<rparr>))"

text \<open>\<open>std::getline\<close>: the pieces between newlines, without an empty piece at the end.\<close>

fun text_lines :: "string \<Rightarrow> string \<Rightarrow> string list" where
  "text_lines acc [] = (if acc = [] then [] else [acc])"
| "text_lines acc (c # cs) = (if c = CHR 0x0A then acc # text_lines [] cs else text_lines (acc @ [c]) cs)"

definition LoadTombstones :: "store_io \<Rightarrow> ChunkStore \<Rightarrow> repo_files \<Rightarrow> Status \<times> ChunkStore" where
  "LoadTombstones io cs fs =
     (case tomb_file fs of
        None \<Rightarrow> (Status_Ok, cs\<lparr>tombstones := {}\<rparr>)
      | Some s \<Rightarrow>
          if \<not> tomb_read_ok io then (IoError (''cannot open tombstones: '' @ TombstonePath cs), cs\<lparr>tombstones := {}\<rparr>)
          else (Status_Ok, cs\<lparr>tombstones := set (List.map_filter (\<lambda>l. HexToBytes l 32) (text_lines [] s))\<rparr>))"

section \<open>Opening a store\<close>

text \<open>The location an index entry stands for, and the index of a list of entries (the last one wins).\<close>

definition entry_pack_name :: "ChunkIndexEntry \<Rightarrow> string" where
  "entry_pack_name e = map (\<lambda>b. char_of (unat b)) (takeWhile (\<lambda>b. b \<noteq> 0) (pack_name e))"

definition entry_location :: "ChunkStore \<Rightarrow> ChunkIndexEntry \<Rightarrow> ChunkLocation" where
  "entry_location cs e =
     \<lparr>loc_offset = ent_offset e,
      loc_pack_path = (if storage_flags e = kChunkStorageEbPack then path_join (PacksDir cs) (entry_pack_name e) else []),
      loc_stored_len = ent_stored_len e, loc_uncompressed_len = ent_uncompressed_len e, loc_codec = ent_codec e\<rparr>"

definition index_of_entries :: "ChunkStore \<Rightarrow> ChunkIndexEntry list \<Rightarrow> (bytes \<times> ChunkLocation) list list" where
  "index_of_entries cs es =
     fold (\<lambda>e shards. index_put (ent_hash e) (entry_location cs e) shards) es (replicate kIndexShardCount [])"

text \<open>
  Without an index file to trust, the log is scanned. The scan looks at headers only: after the last
  record its offset, which becomes the size of the store, may lie behind the end of the file. The entries
  found are appended to what a failed loading of the index file has left in the list of entries, while the index
  holds what the scan found.
\<close>

fun scan_end :: "nat \<Rightarrow> bytes \<Rightarrow> ChunkIndexEntry list \<Rightarrow> nat" where
  "scan_end off logb [] = off"
| "scan_end off logb (e # es) =
     (case ReadParsedHeaderAt logb off of Inl _ \<Rightarrow> off | Inr (h, n) \<Rightarrow> scan_end (off + n + unat (rec_stored_len h)) logb es)"

definition LoadIndex_scan :: "store_io \<Rightarrow> ChunkStore \<Rightarrow> repo_files \<Rightarrow> Status \<times> ChunkStore \<times> repo_files" where
  "LoadIndex_scan io cs fs =
     (let logb = (case log_file fs of None \<Rightarrow> [] | Some b \<Rightarrow> b) in
      if logb \<noteq> [] \<and> \<not> log_read_ok io then (IoError (''cannot open chunk store: '' @ cs_path cs), cs, fs)
      else case scan_records logb 0 of
        (es, stop) \<Rightarrow>
          let cs1 = cs\<lparr>shard_index := index_of_entries cs es, index_entries := index_entries cs @ es\<rparr> in
          (case stop of
             None \<Rightarrow> (Status_Ok, cs1\<lparr>cs_file_size := word_of_nat (scan_end 0 logb es)\<rparr>, fs)
           | Some (e, off) \<Rightarrow>
               if off = 0 then (e, cs1, fs)
               else if \<not> log_resize_ok io then (IoError (''cannot truncate corrupt chunk tail: '' @ cs_path cs), cs1, fs)
               else (Status_Ok, cs1\<lparr>cs_file_size := word_of_nat off\<rparr>, fs\<lparr>log_file := Some (take off logb)\<rparr>)))"

definition LoadIndex :: "store_io \<Rightarrow> ChunkStore \<Rightarrow> repo_files \<Rightarrow> Status \<times> ChunkStore \<times> repo_files" where
  "LoadIndex io cs fs =
     (let cs0 = cs\<lparr>shard_index := replicate kIndexShardCount [], index_entries := [],
                   cs_file_size := (case log_file fs of None \<Rightarrow> 0 | Some b \<Rightarrow> word_of_nat (length b))\<rparr>
      in if \<not> use_ebpack cs \<and> log_file fs = None then (Status_Ok, cs0, fs)
         else if use_persistent_index cs \<and> idx_file fs = None then (Status_Ok, cs0, fs)
         else case (if use_persistent_index cs
                    then index_Load (PathForStore (cs_path cs)) (idx_file fs) (cs_file_size cs0) else Inl Status_Ok) of
           Inr es \<Rightarrow> (Status_Ok, cs0\<lparr>index_entries := es, shard_index := index_of_entries cs es\<rparr>, fs)
         | Inl idx_st \<Rightarrow>
             let cs1 = (if use_persistent_index cs
                        then cs0\<lparr>index_entries := index_Load_leaves (idx_file fs) (cs_file_size cs0)\<rparr> else cs0)
             in if use_persistent_index cs \<and> use_ebpack cs then (idx_st, cs1, fs)
                else if use_ebpack cs then (Status_Ok, cs1, fs)
                else LoadIndex_scan io cs1 fs)"

definition Open_store :: "store_io \<Rightarrow> ChunkStore \<Rightarrow> repo_files \<Rightarrow> Status \<times> ChunkStore \<times> repo_files" where
  "Open_store io cs fs =
     (let cs0 = (if idx_file fs \<noteq> None then cs\<lparr>use_persistent_index := True\<rparr> else cs) in
      case LoadIndex io cs0 fs of
        (st, cs1, fs1) \<Rightarrow>
          if \<not> status_ok st then (st, cs1, fs1)
          else
            let packed = use_ebpack cs1 \<or> (\<exists>e \<in> set (index_entries cs1). storage_flags e = kChunkStorageEbPack) \<or> pack_seen io;
                cs2 = cs1\<lparr>use_ebpack := packed\<rparr>
            in case LoadTombstones io cs2 fs1 of (st2, cs3) \<Rightarrow> (st2, cs3, fs1))"

section \<open>What is stored for a chunk decodes to it\<close>

text \<open>
  The store that reads has the key the put used; and if the put ended with a Zstandard frame, it used the
  dictionary of the store. A put without a dictionary in a store with one is fine as long as its payload is stored
  raw or in LZ4: nothing the Zstandard documentation says covers a frame made without a dictionary and read with one.
\<close>

definition same_key :: "ChunkStore \<Rightarrow> ChunkStorePutOptions option \<Rightarrow> bool" where
  "same_key cs options \<longleftrightarrow>
     (case options of
        None \<Rightarrow> True
      | Some opt \<Rightarrow> po_use_encryption opt \<longrightarrow> has_content_key cs \<and>
          (po_content_key opt = None \<or> po_content_key opt = Some (cs_content_key cs)))"

definition same_dict :: "ChunkStore \<Rightarrow> ChunkStorePutOptions option \<Rightarrow> ChunkCodec \<Rightarrow> bool" where
  "same_dict cs options codec \<longleftrightarrow>
     (codec \<in> {kZstd, kEncryptedZstd} \<longrightarrow> rq_dict (put_request cs [] options) = cs_zstd_dict cs)"

lemmas codec_bytes = codec_byte_def EncryptCodec_def

lemma DecodePayload_plain:
  assumes "decodes lib (cs_zstd_dict cs) chunk r" and "zstd_can_decode lib (cs_zstd_dict cs)"
    and "rec_codec hdr = codec_byte (ce_codec r)" and "rec_uncompressed_len hdr = ce_uncompressed_len r"
  shows "DecodePayload lib cs hdr (ce_payload r) = Some (Inr chunk)"
  using assms by (cases "ce_codec r") (auto simp: DecodePayload_def decode_decrypt_def decodes_def codec_bytes Let_def)

lemma DecodePayload_encrypted:
  assumes "decodes lib (cs_zstd_dict cs) chunk r" and "zstd_can_decode lib (cs_zstd_dict cs)" and "has_content_key cs"
    and "rec_codec hdr = codec_byte (EncryptCodec (ce_codec r))" and "rec_uncompressed_len hdr = ce_uncompressed_len r"
  shows "DecodePayload lib cs hdr (Aes256GcmEncrypt rd (cs_content_key cs) (ce_payload r)) = Some (Inr chunk)"
  using assms
  by (cases "ce_codec r") (auto simp: DecodePayload_def decode_decrypt_def gcm_roundtrip decodes_def codec_bytes Let_def)

lemma length_GcmEncrypt: "length (Aes256GcmEncrypt rd key p) = length p + 28"
  by (simp add: Aes256GcmEncrypt_def Aes256GcmEncryptPortableEx_def Let_def random_bytes_def kAesGcmNonceSize_def length_ComputeTag)

lemma encode_payload_total:
  assumes "zstd_law (pe_zstd env)" and "length chunk \<le> LZ4_MAX_INPUT_SIZE"
  shows "\<exists>r. encode_payload env cs chunk options = Some r"
proof -
  let ?stats = "case options of None \<Rightarrow> Some zero_stats | Some opt \<Rightarrow> po_stats opt"
  have "rq_data (put_request cs chunk options) = chunk" by (simp add: put_request_def)
  then obtain st s where "ContentClassEncode (pe_zstd env) (pe_entropy env) (put_request cs chunk options) ?stats (put_trainer options) = Some (st, s)"
    using ContentClassEncode_ok [OF assms(1), of "put_request cs chunk options" "pe_entropy env" ?stats "put_trainer options"] assms(2)
    by auto
  then show ?thesis by (simp add: encode_payload_def Let_def)
qed

lemma encode_payload_decodes:
  assumes law: "zstd_law (pe_zstd env)" and can: "zstd_can_decode (pe_zstd env) (cs_zstd_dict cs)"
    and len: "length chunk \<le> LZ4_MAX_INPUT_SIZE" and same: "same_key cs options" "same_dict cs options codec"
    and e: "encode_payload env cs chunk options = Some (Inr (stored, codec, ulen), caller)"
    and hdr: "rec_codec hdr = codec_byte codec" "rec_uncompressed_len hdr = ulen"
  shows "DecodePayload (pe_zstd env) cs hdr stored = Some (Inr chunk) \<and> length stored \<le> length chunk + 28 \<and>
    ulen = word_of_nat (length chunk)"
proof -
  let ?req = "put_request cs chunk options"
  let ?stats = "case options of None \<Rightarrow> Some zero_stats | Some opt \<Rightarrow> po_stats opt"
  have rq: "rq_data ?req = chunk" "rq_dict (put_request cs [] options) = rq_dict ?req"
    by (simp_all add: put_request_def)
  obtain st s where s: "ContentClassEncode (pe_zstd env) (pe_entropy env) ?req ?stats (put_trainer options) = Some (st, s)"
      "status_ok st \<longrightarrow> decodes (pe_zstd env) (rq_dict ?req) chunk (es_out s)"
    using ContentClassEncode_ok [OF law, of ?req "pe_entropy env" ?stats "put_trainer options"] len unfolding rq(1) by blast
  define r where "r = es_out s"
  have "codec = ce_codec r \<or> codec = EncryptCodec (ce_codec r)"
    using e s(1) by (auto simp: encode_payload_def Let_def r_def split: if_splits)
  then have "ce_codec r = kZstd \<Longrightarrow> rq_dict ?req = cs_zstd_dict cs"
    using same(2) by (auto simp: same_dict_def rq(2) EncryptCodec_def)
  then have c: "ContentClassEncode (pe_zstd env) (pe_entropy env) ?req ?stats (put_trainer options) = Some (st, s)"
      "status_ok st \<longrightarrow> decodes (pe_zstd env) (cs_zstd_dict cs) chunk (es_out s)"
    using s by (auto simp: decodes_def r_def split: ChunkCodec.splits)
  show ?thesis
  proof (cases "case options of None \<Rightarrow> False | Some opt \<Rightarrow> po_use_encryption opt")
    case True
    then obtain opt where o: "options = Some opt" "po_use_encryption opt" by (auto split: option.splits)
    have k: "has_content_key cs" "po_content_key opt = None \<or> po_content_key opt = Some (cs_content_key cs)"
      using same(1) o by (simp_all add: same_key_def)
    have v: "status_ok st" "stored = Aes256GcmEncrypt (pe_random env) (cs_content_key cs) (ce_payload r)"
        "codec = EncryptCodec (ce_codec r)" "ulen = ce_uncompressed_len r"
      using e c(1) k o by (auto simp: encode_payload_def Let_def r_def split: if_splits)
    then show ?thesis
      using DecodePayload_encrypted [OF c(2) [rule_format, folded r_def] can k(1)] hdr c(2)
      by (simp add: length_GcmEncrypt decodes_def r_def)
  next
    case False
    then have v: "status_ok st" "stored = ce_payload r" "codec = ce_codec r" "ulen = ce_uncompressed_len r"
      using e c(1) by (auto simp: encode_payload_def Let_def r_def split: if_splits)
    then show ?thesis
      using DecodePayload_plain [OF c(2) [rule_format, folded r_def] can] hdr c(2)
      by (simp add: decodes_def r_def)
  qed
qed

end
