(* ===== verification/ChunkBackend.thy ===== *)
theory ChunkBackend
  imports ChunkStore
begin

text \<open>
  The contract between the chunk store and the place its records go to: the append-only log with its
  write buffer, or the pack files. What the store holds is, abstractly, a map from content hashes to
  records; the locale says how appending, looking up, flushing and fetching act on that map, and both
  places are proved to implement it. The store's main property, that flushed chunks come back, follows
  for both from the same lemma.
\<close>

section \<open>The interface\<close>

text \<open>A request to append: the hash, the stored payload, its codec and the length it decodes to.\<close>

type_synonym record_request = "bytes \<times> bytes \<times> ChunkCodec \<times> u32"

definition req_hash :: "record_request \<Rightarrow> bytes" where
  "req_hash q = fst q"

text \<open>The record a request becomes.\<close>

definition req_record :: "record_request \<Rightarrow> ChunkRecordHeader \<times> bytes" where
  "req_record q = (case q of (hash, pl, codec, ulen) \<Rightarrow> (append_header hash (length pl) ulen (codec_byte codec), pl))"

definition record_request_wf :: "record_request \<Rightarrow> bool" where
  "record_request_wf q = (case q of (hash, pl, codec, ulen) \<Rightarrow> length hash = 32 \<and> length pl < 2 ^ 32)"

text \<open>
  At most 2^30 appends are considered, so that neither the 64-bit size of the log nor the 32-bit
  numbers of packs wrap around. A place may accept only some headers: in the log a header must not pass
  for one of the old version.
\<close>

locale record_backend =
  fixes present :: "'s \<Rightarrow> bytes \<Rightarrow> bool"
    and add_rec :: "record_request \<Rightarrow> 's \<Rightarrow> Status \<times> 's"
    and flush :: "'s \<Rightarrow> Status \<times> 's"
    and fetch :: "'s \<Rightarrow> bytes \<Rightarrow> Status + (ChunkRecordHeader \<times> bytes)"
    and inv :: "'s \<Rightarrow> (bytes \<Rightarrow> (ChunkRecordHeader \<times> bytes) option) \<Rightarrow> nat \<Rightarrow> bool"
    and accepts :: "ChunkRecordHeader \<Rightarrow> bool"
  assumes present_map: "inv s m n \<Longrightarrow> present s hash \<Longrightarrow> m hash \<noteq> None"
    and append_map: "inv s m n \<Longrightarrow> n < 2 ^ 30 \<Longrightarrow> record_request_wf q \<Longrightarrow> accepts (fst (req_record q)) \<Longrightarrow>
      add_rec q s = (st, s') \<Longrightarrow> status_ok st \<Longrightarrow> inv s' (m(req_hash q \<mapsto> req_record q)) (n + 1)"
    and flush_map: "inv s m n \<Longrightarrow> flush s = (st, s') \<Longrightarrow> status_ok st \<Longrightarrow>
      inv s' m n \<and> (\<forall>hash r. m hash = Some r \<longrightarrow> fetch s' hash = Inr r)"

section \<open>The index of the store\<close>

lemma IndexShardForHash_less: "IndexShardForHash hash < 16"
proof -
  have "unat (hd hash AND 0x0F) \<le> unat (0x0F :: byte)" by (metis word_and_le1 word_le_nat_alt)
  then show ?thesis by (simp add: IndexShardForHash_def)
qed

lemma find_loc_put:
  assumes "length (shard_index cs) = 16" and "shard_index cs' = index_put hash loc (shard_index cs)"
  shows "find_loc cs' h = (if h = hash then Some loc else find_loc cs h)"
proof (cases "IndexShardForHash h = IndexShardForHash hash")
  case True
  then show ?thesis
    using assms IndexShardForHash_less [of hash] by (simp add: find_loc_def index_put_def Let_def update_conv)
next
  case False
  then show ?thesis using assms by (auto simp: find_loc_def index_put_def Let_def)
qed

lemma length_index_put [simp]: "length (index_put hash loc shards) = length shards"
  by (simp add: index_put_def Let_def)

text \<open>The operations on the pair of store and files.\<close>

definition store_present :: "ChunkStore \<times> repo_files \<Rightarrow> bytes \<Rightarrow> bool" where
  "store_present s hash = Exists (fst s) hash"

definition store_append :: "store_io \<Rightarrow> record_request \<Rightarrow> ChunkStore \<times> repo_files \<Rightarrow> Status \<times> ChunkStore \<times> repo_files" where
  "store_append io q s = (case q of (hash, pl, codec, ulen) \<Rightarrow> AppendRecordInternal io hash pl codec ulen (fst s) (snd s))"

definition store_flush :: "store_io \<Rightarrow> ChunkStore \<times> repo_files \<Rightarrow> Status \<times> ChunkStore \<times> repo_files" where
  "store_flush io s = Flush io (fst s) (snd s)"

definition store_fetch :: "store_io \<Rightarrow> ChunkStore \<times> repo_files \<Rightarrow> bytes \<Rightarrow> Status + (ChunkRecordHeader \<times> bytes)" where
  "store_fetch io s hash = ReadRecordForHash io (fst s) (snd s) hash"

text \<open>The members of a store that appending and flushing leave alone.\<close>

definition same_settings :: "ChunkStore \<Rightarrow> ChunkStore \<Rightarrow> bool" where
  "same_settings cs cs' \<longleftrightarrow>
     tombstones cs' = tombstones cs \<and> cs_content_key cs' = cs_content_key cs \<and> has_content_key cs' = has_content_key cs \<and>
     cs_digest_algo cs' = cs_digest_algo cs \<and> cs_zstd_dict cs' = cs_zstd_dict cs \<and> use_ebpack cs' = use_ebpack cs \<and>
     cs_path cs' = cs_path cs \<and> append_txn_id cs' = append_txn_id cs \<and>
     use_persistent_index cs' = use_persistent_index cs \<and> defer_persistent_index_save cs' = defer_persistent_index_save cs"

lemma same_settings_refl [simp]: "same_settings cs cs"
  by (simp add: same_settings_def)

lemma same_settings_trans: "same_settings a b \<Longrightarrow> same_settings b c \<Longrightarrow> same_settings a c"
  by (simp add: same_settings_def)

section \<open>The log as a place for records\<close>

text \<open>What the log holds once the buffer is written.\<close>

definition log_bytes :: "ChunkStore \<Rightarrow> repo_files \<Rightarrow> bytes" where
  "log_bytes cs fs = (case log_file fs of None \<Rightarrow> [] | Some b \<Rightarrow> b) @ write_buffer cs"

definition in_log :: "bytes \<Rightarrow> ChunkLocation \<Rightarrow> ChunkRecordHeader \<times> bytes \<Rightarrow> bool" where
  "in_log bs loc r \<longleftrightarrow> loc_pack_path loc = [] \<and> v2_wf (fst r) \<and> unat (rec_stored_len (fst r)) = length (snd r) \<and>
     (\<exists>h. fst r = seal_v2 h \<and> unambiguous h) \<and>
     (\<exists>pre rest. bs = pre @ v2_bytes (fst r) @ snd r @ rest \<and> unat (loc_offset loc) = length pre)"

definition log_inv :: "store_io \<Rightarrow> ChunkStore \<times> repo_files \<Rightarrow> (bytes \<Rightarrow> (ChunkRecordHeader \<times> bytes) option) \<Rightarrow> nat \<Rightarrow> bool" where
  "log_inv io s m n \<longleftrightarrow> (case s of (cs, fs) \<Rightarrow>
     log_read_ok io \<and> \<not> use_ebpack cs \<and> length (shard_index cs) = 16 \<and>
     unat (cs_file_size cs) = length (log_bytes cs fs) \<and> length (log_bytes cs fs) \<le> n * 2 ^ 33 \<and> n \<le> 2 ^ 30 \<and>
     (\<forall>hash. find_loc cs hash \<noteq> None \<longrightarrow> m hash \<noteq> None) \<and>
     (\<forall>hash r. m hash = Some r \<longrightarrow> (\<exists>loc. find_loc cs hash = Some loc \<and> in_log (log_bytes cs fs) loc r)))"

lemma log_inv_found:
  "log_inv io (cs, fs) m n \<Longrightarrow> m hash = Some r \<Longrightarrow> \<exists>loc. find_loc cs hash = Some loc \<and> in_log (log_bytes cs fs) loc r"
  unfolding log_inv_def prod.case by blast

lemma in_log_append: "in_log bs loc r \<Longrightarrow> in_log (bs @ zs) loc r"
  unfolding in_log_def by (metis append_assoc)

lemma in_log_read:
  assumes "in_log bs loc r" and "log_file fs = Some bs" and "log_read_ok io"
  shows "ReadRecordAt io cs fs (loc_offset loc) = Inr r"
proof -
  obtain hd1 pl where r: "r = (hd1, pl)" by (cases r)
  obtain h pre rest where h: "hd1 = seal_v2 h" "unambiguous h" "v2_wf h" "unat (rec_stored_len hd1) = length pl"
      "bs = pre @ v2_bytes (seal_v2 h) @ pl @ rest" "unat (loc_offset loc) = length pre"
    using assms(1) by (auto simp: in_log_def r)
  have p: "ReadParsedHeaderAt bs (length pre) = Inr (hd1, 48)"
    unfolding h(5) h(1) by (rule ReadParsedHeaderAt_record [OF h(3,2) refl])
  have l: "length (v2_bytes (seal_v2 h)) = 48" using h(3) by (simp add: v2_layout.enc_length)
  have s: "slice_at (length pre + 48) (length pl) bs = pl" unfolding h(5) using l by (simp add: slice_at_def)
  show ?thesis using p s h(4,6) assms(2,3) by (simp add: ReadRecordAt_def r Let_def del: length_slice_at)
qed

text \<open>A write that succeeds only moves the buffer to the file.\<close>

lemma WriteBuffer_ok:
  assumes "WriteBufferToSession io b cs fs = (st, cs', fs')" and "status_ok st"
  shows "log_bytes cs' fs' = log_bytes cs fs" and "write_buffer cs' = []"
    and "log_file fs' = None \<longrightarrow> log_bytes cs fs = []"
  using assms
  by (auto simp: WriteBufferToSession_def Let_def log_bytes_def append_log_def split: if_splits option.splits)

definition moved :: "ChunkStore \<Rightarrow> repo_files \<Rightarrow> ChunkStore \<Rightarrow> repo_files \<Rightarrow> bool" where
  "moved cs fs cs' fs' \<longleftrightarrow> log_bytes cs' fs' = log_bytes cs fs \<and> shard_index cs' = shard_index cs \<and>
     cs_file_size cs' = cs_file_size cs \<and> index_entries cs' = index_entries cs \<and>
     (log_file fs \<noteq> None \<longrightarrow> log_file fs' \<noteq> None) \<and> tomb_file fs' = tomb_file fs \<and> same_settings cs cs'"

lemma moved_trans: "moved a fa b fb \<Longrightarrow> moved b fb c fc \<Longrightarrow> moved a fa c fc"
  by (auto simp: moved_def intro: same_settings_trans)

lemma WriteBuffer_moved: "WriteBufferToSession io b cs fs = (st, cs', fs') \<Longrightarrow> status_ok st \<Longrightarrow> moved cs fs cs' fs'"
proof -
  assume w: "WriteBufferToSession io b cs fs = (st, cs', fs')" and ok: "status_ok st"
  define c1 f1 where "c1 = cs\<lparr>write_buffer := [], pending_records := 0\<rparr>" and "f1 = append_log (write_buffer cs) fs"
  have "cs' = cs \<and> fs' = fs \<or> cs' = c1 \<and> fs' = f1"
    using w ok unfolding WriteBufferToSession_def Let_def c1_def [symmetric] f1_def [symmetric]
    by (cases "log_torn io") (auto split: if_splits)
  then have "cs' = cs \<and> fs' = fs \<or>
      cs' = cs\<lparr>write_buffer := [], pending_records := 0\<rparr> \<and> fs' = append_log (write_buffer cs) fs"
    unfolding c1_def f1_def .
  then show ?thesis by (elim disjE conjE) (simp_all add: moved_def log_bytes_def append_log_def same_settings_def)
qed

lemma EnsureAppend_moved: "EnsureAppendSession io cs fs = (st, cs', fs') \<Longrightarrow> status_ok st \<Longrightarrow> moved cs fs cs' fs'"
proof -
  assume e: "EnsureAppendSession io cs fs = (st, cs', fs')" and ok: "status_ok st"
  have "cs' = cs \<and> fs' = fs \<or> cs' = cs\<lparr>append_fd := True\<rparr> \<and> fs' = append_log [] fs"
    by (cases "append_fd cs"; cases "log_open_ok io") (use e ok in \<open>simp_all add: EnsureAppendSession_def\<close>)
  then show ?thesis by (elim disjE conjE) (simp_all add: moved_def log_bytes_def append_log_def same_settings_def split: option.split)
qed

lemma SaveIndex_log: "SavePersistentIndex io cs fs = (st, fs') \<Longrightarrow> log_file fs' = log_file fs \<and> pack_files fs' = pack_files fs \<and> tomb_file fs' = tomb_file fs"
  by (auto simp: SavePersistentIndex_def split: if_splits prod.splits)

lemma find_loc_moved: "moved cs fs cs' fs' \<Longrightarrow> find_loc cs' hash = find_loc cs hash"
  by (simp add: moved_def find_loc_def)

lemma log_inv_moved: "log_inv io (cs, fs) m n \<Longrightarrow> moved cs fs cs' fs' \<Longrightarrow> log_inv io (cs', fs') m n"
  using find_loc_moved [of cs fs cs' fs'] by (simp add: log_inv_def) (simp add: moved_def same_settings_def)

lemma append_header_eq: "\<exists>h. append_header hash n u c = seal_v2 h \<and> rec_hash h = hash \<and> rec_stored_len h = word_of_nat n \<and>
    rec_uncompressed_len h = u \<and> (unambiguous (append_header hash n u c) \<longrightarrow> unambiguous h)"
  by (rule exI, intro conjI, rule append_header_def) (simp_all add: append_header_def unambiguous_def)

lemma buffer_record_simps:
  "shard_index (buffer_record hash pl codec ulen cs) = index_put hash
     \<lparr>loc_offset = cs_file_size cs, loc_pack_path = [], loc_stored_len = word_of_nat (length pl), loc_uncompressed_len = ulen,
      loc_codec = codec_byte codec\<rparr> (shard_index cs)"
  "cs_file_size (buffer_record hash pl codec ulen cs) = cs_file_size cs + 48 + word_of_nat (length pl)"
  "log_bytes (buffer_record hash pl codec ulen cs) fs =
     log_bytes cs fs @ v2_bytes (append_header hash (length pl) ulen (codec_byte codec)) @ pl"
  "same_settings cs (buffer_record hash pl codec ulen cs)"
  "append_session_active (buffer_record hash pl codec ulen cs) = append_session_active cs"
  by (simp_all add: buffer_record_def TrackIndexEntry_def Let_def log_bytes_def same_settings_def append_header_def)

lemma buffer_record_inv:
  assumes inv: "log_inv io (cs, fs) m n" and n: "n < 2 ^ 30" and wf: "record_request_wf (hash, pl, codec, ulen)"
    and un: "unambiguous (append_header hash (length pl) ulen (codec_byte codec))"
  shows "log_inv io (buffer_record hash pl codec ulen cs, fs) (m(hash \<mapsto> req_record (hash, pl, codec, ulen))) (n + 1)"
proof -
  let ?hdr = "append_header hash (length pl) ulen (codec_byte codec)" and ?cs = "buffer_record hash pl codec ulen cs"
  let ?loc = "\<lparr>loc_offset = cs_file_size cs, loc_pack_path = [], loc_stored_len = word_of_nat (length pl),
      loc_uncompressed_len = ulen, loc_codec = codec_byte codec\<rparr>"
  have q: "length hash = 32" "length pl < 2 ^ 32" "unambiguous ?hdr" using wf un by (simp_all add: record_request_wf_def)
  have s: "length (shard_index cs) = 16" "unat (cs_file_size cs) = length (log_bytes cs fs)" "length (log_bytes cs fs) \<le> n * 2 ^ 33"
      "log_read_ok io" "\<not> use_ebpack cs"
    using inv by (simp_all add: log_inv_def)
  have v2: "v2_wf ?hdr" by (rule v2_wf_append_header [OF q(1)])
  have l: "length (log_bytes ?cs fs) = length (log_bytes cs fs) + 48 + length pl"
    using v2 by (simp add: buffer_record_simps v2_layout.enc_length)
  have "length (log_bytes cs fs) + 48 + length pl < 2 ^ 64" using s(3) n q(2) by simp
  then have size: "unat (cs_file_size ?cs) = length (log_bytes ?cs fs)"
    using s(2) l by (simp add: buffer_record_simps unat_word_ariths unat_of_nat)
  note loc = find_loc_put [OF s(1) buffer_record_simps(1), of hash pl codec ulen]
  have new: "in_log (log_bytes ?cs fs) ?loc (?hdr, pl)"
    unfolding in_log_def fst_conv snd_conv
  proof (intro conjI)
    show "\<exists>h. ?hdr = seal_v2 h \<and> unambiguous h" using append_header_eq q(3) by metis
    show "\<exists>pre rest. log_bytes ?cs fs = pre @ v2_bytes ?hdr @ pl @ rest \<and> unat (loc_offset ?loc) = length pre"
      using s(2) by (intro exI [of _ "log_bytes cs fs"] exI [of _ "[]"]) (simp add: buffer_record_simps)
    show "unat (rec_stored_len ?hdr) = length pl" using q(2) by (simp add: append_header_def unat_of_nat)
  qed (simp_all add: v2)
  have old: "in_log (log_bytes cs fs) l0 r \<Longrightarrow> in_log (log_bytes ?cs fs) l0 r" for l0 r
    by (simp add: buffer_record_simps in_log_append)
  show ?thesis
    unfolding log_inv_def prod.case
  proof (intro conjI allI impI)
    fix h r assume "(m(hash \<mapsto> req_record (hash, pl, codec, ulen))) h = Some r"
    then show "\<exists>loc. find_loc ?cs h = Some loc \<and> in_log (log_bytes ?cs fs) loc r"
      using new old [of _ r] log_inv_found [OF inv, of h r] loc [of h] by (cases r) (auto simp: req_record_def split: if_splits)
  next
    fix h assume "find_loc ?cs h \<noteq> None"
    then show "(m(hash \<mapsto> req_record (hash, pl, codec, ulen))) h \<noteq> None"
      using inv loc by (auto simp: log_inv_def split: if_splits)
  qed (use s q(2) n l size buffer_record_simps in \<open>auto simp: same_settings_def\<close>)
qed

lemma MaybeFlush_moved:
  assumes "MaybeFlushPack io cs fs = (st, cs', fs')" and "status_ok st"
  shows "moved cs fs cs' fs'"
proof (cases "WriteBufferToSession io False cs fs = (st, cs', fs')")
  case True
  then show ?thesis using WriteBuffer_moved assms(2) by blast
next
  case False
  then show ?thesis using assms by (auto simp: MaybeFlushPack_def moved_def split: if_splits)
qed

lemma AppendRecord_log_moved:
  assumes "\<not> use_ebpack cs" and "AppendRecordInternal io hash pl codec ulen cs fs = (st, cs', fs')" and "status_ok st"
  shows "moved (buffer_record hash pl codec ulen cs) fs cs' fs'"
proof -
  let ?cs = "buffer_record hash pl codec ulen cs"
  show ?thesis
  proof (cases "append_session_active ?cs")
    case True
    then show ?thesis using assms MaybeFlush_moved by (simp add: AppendRecordInternal_def Let_def)
  next
    case False
    obtain st2 cs2 fs2 where e: "EnsureAppendSession io ?cs fs = (st2, cs2, fs2)" by (metis prod_cases3)
    obtain st3 cs3 fs3 where w: "WriteBufferToSession io True cs2 fs2 = (st3, cs3, fs3)" by (metis prod_cases3)
    have ok: "status_ok st2" "status_ok st3"
      using assms False e w by (auto simp: AppendRecordInternal_def Let_def split: if_splits)
    note m = moved_trans [OF EnsureAppend_moved [OF e ok(1)] WriteBuffer_moved [OF w ok(2)]]
    have "cs' = cs3\<lparr>append_fd := False\<rparr> \<and> log_file fs' = log_file fs3 \<and> tomb_file fs' = tomb_file fs3"
      using assms False e w ok SaveIndex_log [of io "cs3\<lparr>append_fd := False\<rparr>" fs3]
      by (auto simp: AppendRecordInternal_def Let_def split: if_splits prod.splits)
    then show ?thesis using m by (simp add: moved_def log_bytes_def same_settings_def)
  qed
qed

lemma Flush_log_moved:
  assumes "\<not> use_ebpack cs" and "Flush io cs fs = (st, cs', fs')" and "status_ok st"
  shows "moved cs fs cs' fs'" and "write_buffer cs' = []" and "log_file fs' = None \<longrightarrow> log_bytes cs fs = []"
proof -
  obtain st1 cs1 fs1 where w: "WriteBufferToSession io True cs fs = (st1, cs1, fs1)" by (metis prod_cases3)
  have "status_ok st1 \<and> cs' = cs1 \<and> log_file fs' = log_file fs1 \<and> tomb_file fs' = tomb_file fs1"
    using assms w SaveIndex_log [of io cs1 fs1] by (auto simp: Flush_def split: if_splits prod.splits)
  then show "moved cs fs cs' fs'" "write_buffer cs' = []" "log_file fs' = None \<longrightarrow> log_bytes cs fs = []"
    using WriteBuffer_moved [OF w] WriteBuffer_ok(2,3) [OF w] by (auto simp: moved_def log_bytes_def)
qed

interpretation log_backend:
  record_backend store_present "store_append io" "store_flush io" "store_fetch io" "log_inv io" unambiguous for io
proof unfold_locales
  fix s m n hash
  assume "log_inv io s m n" "store_present s hash"
  then show "m hash \<noteq> None" by (auto simp: log_inv_def store_present_def Exists_def split: prod.splits)
next
  fix s m n q st s'
  assume inv: "log_inv io s m n" and n: "n < 2 ^ 30" and wf: "record_request_wf q"
    and un: "unambiguous (fst (req_record q))" and a: "store_append io q s = (st, s')" and ok: "status_ok st"
  obtain hash pl codec ulen where q: "q = (hash, pl, codec, ulen)" by (cases q)
  obtain cs fs cs' fs' where s: "s = (cs, fs)" "s' = (cs', fs')" by fastforce
  have "\<not> use_ebpack cs" using inv by (simp add: log_inv_def s)
  then have "moved (buffer_record hash pl codec ulen cs) fs cs' fs'"
    by (rule AppendRecord_log_moved [OF _ _ ok]) (use a in \<open>simp add: store_append_def q s\<close>)
  then show "log_inv io s' (m(req_hash q \<mapsto> req_record q)) (n + 1)"
    using buffer_record_inv [OF inv [unfolded s] n wf [unfolded q]] un by (simp add: s q req_hash_def req_record_def log_inv_moved)
next
  fix s m n st s'
  assume inv: "log_inv io s m n" and f: "store_flush io s = (st, s')" and ok: "status_ok st"
  obtain cs fs cs' fs' where s: "s = (cs, fs)" "s' = (cs', fs')" by fastforce
  have ne: "\<not> use_ebpack cs" and rd: "log_read_ok io" using inv by (simp_all add: log_inv_def s)
  note fl = Flush_log_moved [OF ne f [unfolded store_flush_def s fst_conv snd_conv] ok]
  note inv' = log_inv_moved [OF inv [unfolded s] fl(1)]
  have "store_fetch io s' hash = Inr r" if mr: "m hash = Some r" for hash r
  proof -
    obtain loc where loc: "find_loc cs' hash = Some loc" "in_log (log_bytes cs' fs') loc r"
      using log_inv_found [OF inv' mr] by blast
    obtain b where b: "log_file fs' = Some b"
      using loc(2) fl(1,3) by (cases "log_file fs'") (auto simp: moved_def in_log_def v2_layout.enc_length dest!: arg_cong [of _ _ length])
    then have "log_bytes cs' fs' = b" using fl(2) by (simp add: log_bytes_def)
    then show ?thesis
      using loc b rd in_log_read [of b loc r fs' io cs'] by (simp add: store_fetch_def s ReadRecordForHash_def in_log_def)
  qed
  then show "log_inv io s' m n \<and> (\<forall>hash r. m hash = Some r \<longrightarrow> store_fetch io s' hash = Inr r)"
    using inv' by (simp add: s)
qed

section \<open>The packs as a place for records\<close>

text \<open>The names of the packs of one transaction and shard.\<close>

definition pack_names :: "string \<Rightarrow> u64 \<Rightarrow> nat \<Rightarrow> u32 \<Rightarrow> string" where
  "pack_names dir txn i = (\<lambda>s. path_join dir (MakePackName txn s (word_of_nat i)))"

lemma pack_names_disjoint:
  assumes "i < 16" and "j < 16" and "pack_names dir txn i s = pack_names dir txn j s'"
  shows "i = j"
proof -
  have w: "unat (word_of_nat i :: u32) = i" "unat (word_of_nat j :: u32) = j" using assms(1,2) by (simp_all add: unat_of_nat)
  have n: "(word_of_nat i :: u32) \<noteq> no_shard" "(word_of_nat j :: u32) \<noteq> no_shard"
    using w assms(1,2) by (auto simp: no_shard_def word_unat_eq_iff)
  have "MakePackName txn s (word_of_nat i) = MakePackName txn s' (word_of_nat j)"
    using assms(3) path_join_inj unfolding pack_names_def by blast
  then have "(word_of_nat i :: u32) = word_of_nat j" using MakePackName_inj n by blast
  then show ?thesis using w by metis
qed

lemma pack_names_ne: "pack_names dir txn i s \<noteq> []"
  by (simp add: pack_names_def path_join_def MakePackName_def)

lemma pack_inv_files:
  assumes "pack_inv fs w xs n" and "\<forall>p \<in> range (pack_file w). fs' p = fs p" and "n \<le> n'"
  shows "pack_inv fs' w xs n'"
proof -
  have o: "pack_open w \<Longrightarrow> fs' (open_path w) = fs (open_path w)" using assms(1,2) by (auto simp: pack_inv_def)
  have c: "in_closed fs w x \<Longrightarrow> in_closed fs' w x" for x
    using assms(2) by (auto simp: in_closed_def readable_def ReadEbPackRecordAt_def split: prod.splits)
  have p: "in_open fs w x \<Longrightarrow> in_open fs' w x" for x
    using o by (auto simp: in_open_def split: prod.splits)
  show ?thesis using assms(1,3) o c p by (fastforce simp: pack_inv_def)
qed

lemma pack_inv_path:
  assumes "pack_inv fs w xs n" and "x \<in> xs"
  shows "pack_path (fst x) \<in> range (pack_file w)"
proof -
  have "in_closed fs w x \<or> in_open fs w x" "pack_open w \<longrightarrow> open_path w = pack_file w (seq w)"
    using assms unfolding pack_inv_def by blast+
  then show ?thesis by (cases x) (auto simp: in_closed_def in_open_def)
qed

definition packs_inv :: "store_io \<Rightarrow> ChunkStore \<times> repo_files \<Rightarrow> (bytes \<Rightarrow> (ChunkRecordHeader \<times> bytes) option) \<Rightarrow> nat \<Rightarrow> bool" where
  "packs_inv io s m n \<longleftrightarrow> (case s of (cs, fs) \<Rightarrow>
     calm_pack (pk_io io) \<and> use_ebpack cs \<and> length (shard_index cs) = 16 \<and> n \<le> 2 ^ 30 \<and>
     (\<forall>hash. find_loc cs hash \<noteq> None \<longrightarrow> m hash \<noteq> None) \<and>
     (\<exists>ss xs. eb_pack_shards cs = Some ss \<and> length ss = 16 \<and>
        (\<forall>i < 16. pack_file (ss ! i) = pack_names (PacksDir cs) (append_txn_id cs) i \<and> pack_inv (pack_files fs) (ss ! i) (xs i) n) \<and>
        (\<forall>hash r. m hash = Some r \<longrightarrow> (\<exists>loc ref. find_loc cs hash = Some loc \<and> loc_pack_path loc = pack_path ref \<and>
           loc_offset loc = ref_offset ref \<and> pack_path ref \<noteq> [] \<and>
           ((ref, r) \<in> xs (IndexShardForHash hash) \<or>
            readable (pack_files fs) (ref, r) \<and>
            (\<forall>i < 16. pack_path ref \<notin> range (pack_names (PacksDir cs) (append_txn_id cs) i)))))))"

lemma FsyncAll_paths: "FsyncAll io w = (st, w') \<Longrightarrow> \<exists>S. w' = w\<lparr>fsynced_paths := S\<rparr>"
proof -
  have f: "fsync_written io ps v = (st', v') \<Longrightarrow> \<exists>S. v' = v\<lparr>fsynced_paths := S\<rparr>" for ps v st' v'
  proof (induction ps arbitrary: v)
    case Nil
    then show ?case by (auto intro!: exI [of _ "fsynced_paths v"])
  next
    case (Cons p ps)
    show ?case
    proof (cases "p \<in> fsynced_paths v \<or> \<not> status_ok (fsync_path io p)")
      case True
      then show ?thesis using Cons by (auto intro!: exI [of _ "fsynced_paths v"] split: if_splits)
    next
      case False
      then have "fsync_written io ps (v\<lparr>fsynced_paths := insert p (fsynced_paths v)\<rparr>) = (st', v')" using Cons.prems by simp
      from Cons.IH [OF this] show ?thesis by auto
    qed
  qed
  assume a: "FsyncAll io w = (st, w')"
  obtain st1 w1 where w1: "fsync_written io (written_paths w) w = (st1, w1)" by (cases "fsync_written io (written_paths w) w")
  obtain S where S: "w1 = w\<lparr>fsynced_paths := S\<rparr>" using f [OF w1] by blast
  have "w' = w1 \<or> (\<exists>T. w' = w1\<lparr>fsynced_paths := T\<rparr>)" using a w1 by (auto simp: FsyncAll_def split: if_splits)
  then show ?thesis using S by auto
qed

lemma pack_inv_fsynced [simp]:
  "pack_inv fs (w\<lparr>fsynced_paths := S\<rparr>) xs n = pack_inv fs w xs n" "pack_file (w\<lparr>fsynced_paths := S\<rparr>) = pack_file w"
  by (simp_all add: pack_inv_def in_closed_def in_open_def pack_file_def pack_header_def fun_eq_iff)

lemma shards_FsyncAll_inv:
  "shards_FsyncAll io ws = (st, ws') \<Longrightarrow>
     length ws' = length ws \<and> (\<forall>i < length ws. \<exists>S. ws' ! i = (ws ! i)\<lparr>fsynced_paths := S\<rparr>)"
proof (induction ws arbitrary: st ws')
  case (Cons w ws)
  obtain st1 w1 where f: "FsyncAll io w = (st1, w1)" by (cases "FsyncAll io w")
  have refl: "\<exists>S. v = v\<lparr>fsynced_paths := S\<rparr>" for v :: EbPackWriter by (rule exI [of _ "fsynced_paths v"]) simp
  show ?case
  proof (cases "status_ok st1")
    case False
    then have "ws' = w1 # ws" using Cons.prems f by simp
    then show ?thesis using FsyncAll_paths [OF f] refl by (auto simp: nth_Cons split: nat.splits)
  next
    case True
    obtain st2 ws2 where t: "shards_FsyncAll io ws = (st2, ws2)" by (cases "shards_FsyncAll io ws")
    then have "ws' = w1 # ws2" using Cons.prems f True by simp
    then show ?thesis using FsyncAll_paths [OF f] Cons.IH [OF t] by (auto simp: nth_Cons split: nat.splits)
  qed
qed simp

text \<open>Flushing the shards one after the other, none of which touches another's packs.\<close>

lemma FlushAll_step:
  assumes "calm_pack io" and "n < 2 ^ 32"
  shows "\<forall>i < length ws. pack_inv fs (ws ! i) (xs i) n \<Longrightarrow>
    \<forall>i j. i < length ws \<longrightarrow> j < length ws \<longrightarrow> i \<noteq> j \<longrightarrow> range (pack_file (ws ! i)) \<inter> range (pack_file (ws ! j)) = {} \<Longrightarrow>
    FlushAllOpenPacks io True fs ws = (st, ws', fs') \<Longrightarrow> status_ok st \<Longrightarrow>
    length ws' = length ws \<and>
    (\<forall>i < length ws. pack_file (ws' ! i) = pack_file (ws ! i) \<and> pack_inv fs' (ws' ! i) (xs i) n \<and> (\<forall>x \<in> xs i. readable fs' x)) \<and>
    (\<forall>p. (\<forall>i < length ws. p \<notin> range (pack_file (ws ! i))) \<longrightarrow> fs' p = fs p)"
proof (induction ws arbitrary: fs xs st ws' fs')
  case Nil
  then show ?case by simp
next
  case (Cons w ws)
  obtain st1 w1 fs1 where f: "FinalizeOpenPack io True fs w = (st1, w1, fs1)" by (metis prod_cases3)
  obtain st2 ws2 fs2 where t: "FlushAllOpenPacks io True fs1 ws = (st2, ws2, fs2)" by (metis prod_cases3)
  have ok: "status_ok st1" "status_ok st2" "ws' = w1 # ws2" "fs' = fs2"
    using Cons.prems(3,4) f t by (auto simp: FlushOpenPack_def split: if_splits)
  have inv0: "pack_inv fs w (xs 0) n" using Cons.prems(1) by auto
  note s = FinalizeOpenPack_step [OF assms(1) inv0 assms(2) f]
  have dis: "range (pack_file w) \<inter> range (pack_file (ws ! i)) = {}" if "i < length ws" for i
    using Cons.prems(2) that by (metis Suc_less_eq length_Cons nat.distinct(1) nth_Cons_0 nth_Cons_Suc zero_less_Suc)
  have inv1: "\<forall>i < length ws. pack_inv fs1 (ws ! i) (xs (Suc i)) n"
  proof (intro allI impI)
    fix i assume i: "i < length ws"
    then have "pack_inv fs (ws ! i) (xs (Suc i)) n" using Cons.prems(1) by auto
    moreover have "\<forall>p \<in> range (pack_file (ws ! i)). fs1 p = fs p" using s dis [OF i] by (simp add: others_kept_def) blast
    ultimately show "pack_inv fs1 (ws ! i) (xs (Suc i)) n" by (rule pack_inv_files) simp
  qed
  have dis1: "\<forall>i j. i < length ws \<longrightarrow> j < length ws \<longrightarrow> i \<noteq> j \<longrightarrow> range (pack_file (ws ! i)) \<inter> range (pack_file (ws ! j)) = {}"
    using Cons.prems(2) by (metis Suc_less_eq length_Cons nat.inject nth_Cons_Suc)
  have IH: "length ws2 = length ws \<and>
      (\<forall>i < length ws. pack_file (ws2 ! i) = pack_file (ws ! i) \<and> pack_inv fs2 (ws2 ! i) (xs (Suc i)) n \<and> (\<forall>x \<in> xs (Suc i). readable fs2 x)) \<and>
      (\<forall>p. (\<forall>i < length ws. p \<notin> range (pack_file (ws ! i))) \<longrightarrow> fs2 p = fs1 p)"
    by (rule Cons.IH [OF inv1 dis1 t ok(2)])
  have keep: "\<forall>p \<in> range (pack_file w). fs2 p = fs1 p" using IH dis by blast
  have pw: "pack_file w1 = pack_file w" and inv1w: "pack_inv fs1 w1 (xs 0) n" and rd: "\<forall>x \<in> xs 0. readable fs1 x"
    using s ok(1) by (simp_all add: same_writer_def)
  have "pack_inv fs2 w1 (xs 0) n" by (rule pack_inv_files [OF inv1w]) (use keep pw in simp_all)
  moreover have "readable fs2 x" if "x \<in> xs 0" for x
  proof -
    have "fs2 (pack_path (fst x)) = fs1 (pack_path (fst x))" using pack_inv_path [OF inv0 that] keep by blast
    then show ?thesis using rd that by (auto simp: readable_def ReadEbPackRecordAt_def split: prod.splits)
  qed
  ultimately have zero: "pack_file w1 = pack_file w \<and> pack_inv fs2 w1 (xs 0) n \<and> (\<forall>x \<in> xs 0. readable fs2 x)"
    using pw by blast
  have files: "fs2 p = fs p" if p: "\<forall>i < length (w # ws). p \<notin> range (pack_file ((w # ws) ! i))" for p
  proof -
    have "p \<notin> range (pack_file w)" using p by fastforce
    moreover have "\<forall>i < length ws. p \<notin> range (pack_file (ws ! i))" using p by fastforce
    ultimately show ?thesis using IH s by (simp add: others_kept_def)
  qed
  show ?case
    unfolding ok(3,4)
    using zero IH files by (auto simp: nth_Cons split: nat.splits)
qed

text \<open>The shape of the invariant that proofs take apart and put together.\<close>

definition shards_ok ::
  "files \<Rightarrow> EbPackShardSet \<Rightarrow> string \<Rightarrow> u64 \<Rightarrow> (nat \<Rightarrow> issued set) \<Rightarrow> nat \<Rightarrow> bool" where
  "shards_ok fs ss dir txn xs n \<longleftrightarrow> length ss = 16 \<and>
     (\<forall>i < 16. pack_file (ss ! i) = pack_names dir txn i \<and> pack_inv fs (ss ! i) (xs i) n)"

definition settled :: "files \<Rightarrow> string \<Rightarrow> u64 \<Rightarrow> issued \<Rightarrow> bool" where
  "settled fs dir txn x \<longleftrightarrow> readable fs x \<and> (\<forall>i < 16. pack_path (fst x) \<notin> range (pack_names dir txn i))"

definition packs_found ::
  "(bytes \<Rightarrow> (ChunkRecordHeader \<times> bytes) option) \<Rightarrow> ChunkStore \<Rightarrow> repo_files \<Rightarrow> string \<Rightarrow> u64 \<Rightarrow> (nat \<Rightarrow> issued set) \<Rightarrow> bool" where
  "packs_found m cs fs dir txn xs \<longleftrightarrow> (\<forall>hash r. m hash = Some r \<longrightarrow> (
     \<exists>loc ref. find_loc cs hash = Some loc \<and> loc_pack_path loc = pack_path ref \<and>
       loc_offset loc = ref_offset ref \<and> pack_path ref \<noteq> [] \<and>
       ((ref, r) \<in> xs (IndexShardForHash hash) \<or> settled (pack_files fs) dir txn (ref, r))))"

lemma packs_foundD:
  "packs_found m cs fs dir txn xs \<Longrightarrow> m hash = Some r \<Longrightarrow>
     \<exists>loc ref. find_loc cs hash = Some loc \<and> loc_pack_path loc = pack_path ref \<and>
       loc_offset loc = ref_offset ref \<and> pack_path ref \<noteq> [] \<and>
       ((ref, r) \<in> xs (IndexShardForHash hash) \<or> settled (pack_files fs) dir txn (ref, r))"
  unfolding packs_found_def by blast

lemma packs_invD:
  assumes "packs_inv io (cs, fs) m n"
  obtains ss dir txn xs where "eb_pack_shards cs = Some ss" "shards_ok (pack_files fs) ss dir txn xs n"
    "packs_found m cs fs dir txn xs" "dir = PacksDir cs" "txn = append_txn_id cs"
  using assms unfolding packs_inv_def prod.case shards_ok_def settled_def packs_found_def fst_conv by metis

lemma packs_invI:
  assumes "calm_pack (pk_io io)" "use_ebpack cs" "length (shard_index cs) = 16" "n \<le> 2 ^ 30"
    "\<And>hash. find_loc cs hash \<noteq> None \<Longrightarrow> m hash \<noteq> None" "eb_pack_shards cs = Some ss" "shards_ok (pack_files fs) ss dir txn xs n"
    "packs_found m cs fs dir txn xs" "dir = PacksDir cs" "txn = append_txn_id cs"
  shows "packs_inv io (cs, fs) m n"
  unfolding packs_inv_def prod.case
  using assms by (intro conjI exI [of _ ss] exI [of _ xs])
    (simp_all add: shards_ok_def settled_def packs_found_def)

lemma packs_inv_simps:
  assumes "packs_inv io (cs, fs) m n"
  shows "calm_pack (pk_io io)" "use_ebpack cs" "length (shard_index cs) = 16" "n \<le> 2 ^ 30"
    "find_loc cs hash \<noteq> None \<Longrightarrow> m hash \<noteq> None"
  using assms unfolding packs_inv_def prod.case by blast+

lemma settled_files:
  "settled fs dir txn x \<Longrightarrow> \<forall>p. (\<forall>i < 16. p \<notin> range (pack_names dir txn i)) \<longrightarrow> fs' p = fs p \<Longrightarrow> settled fs' dir txn x"
  by (auto simp: settled_def readable_def ReadEbPackRecordAt_def split: prod.splits)

lemma shards_append:
  assumes io: "calm_pack io" and ok: "shards_ok fs ss dir txn xs n" and n: "n < 2 ^ 30"
    and q: "length hash = 32" "length pl < 2 ^ 32"
    and a: "shards_AppendRecord io hash pl u c fs ss = (res, ss', fs')"
  shows "\<exists>ref. res = Inr ref \<and> pack_path ref \<noteq> [] \<and>
    shards_ok fs' ss' dir txn (xs(IndexShardForHash hash := insert (ref, append_header hash (length pl) u c, pl) (xs (IndexShardForHash hash)))) (n + 1) \<and>
    (\<forall>p. (\<forall>i < 16. p \<notin> range (pack_names dir txn i)) \<longrightarrow> fs' p = fs p)"
proof -
  define i where "i = IndexShardForHash hash"
  have i: "i < 16" "ShardForHash hash = i"
    using IndexShardForHash_less [of hash] by (simp_all add: i_def ShardForHash_def IndexShardForHash_def)
  obtain w where w: "AppendRecord io hash pl u c fs (ss ! i) = (res, w, fs')" "ss' = ss[i := w]"
    using a i(2) by (auto simp: shards_AppendRecord_def Let_def split: prod.splits)
  have inv: "pack_inv fs (ss ! i) (xs i) n" "length ss = 16" "pack_file (ss ! i) = pack_names dir txn i"
    using ok i(1) by (simp_all add: shards_ok_def)
  have "n < 2 ^ 32" using n by simp
  from AppendRecord_step [OF io inv(1) this q w(1)] obtain ref where
    r: "others_kept (ss ! i) fs fs'" "same_writer (ss ! i) w" "res = Inr ref"
      "pack_inv fs' w (insert (ref, append_header hash (length pl) u c, pl) (xs i)) (n + 1)"
    by blast
  have pw: "pack_file w = pack_names dir txn i" using r(2) inv(3) by (simp add: same_writer_def)
  have ne: "pack_path ref \<noteq> []" using pack_inv_path [OF r(4), of "(ref, append_header hash (length pl) u c, pl)"] pw pack_names_ne [of dir txn i] by (auto simp: image_iff dest: sym)
  have others: "pack_file (ss ! j) = pack_names dir txn j \<and> pack_inv fs' (ss ! j) (xs j) (n + 1)" if j: "j < 16" "j \<noteq> i" for j
  proof -
    have p: "pack_inv fs (ss ! j) (xs j) n" "pack_file (ss ! j) = pack_names dir txn j" using ok j by (simp_all add: shards_ok_def)
    have "\<forall>p \<in> range (pack_file (ss ! j)). fs' p = fs p"
    proof
      fix q assume "q \<in> range (pack_file (ss ! j))"
      then have "q \<notin> range (pack_file (ss ! i))"
        using pack_names_disjoint [OF i(1) j(1)] j(2) unfolding inv(3) p(2) by blast
      then show "fs' q = fs q" using r(1) unfolding others_kept_def by blast
    qed
    then show ?thesis using pack_inv_files [OF p(1)] p(2) by simp
  qed
  have "shards_ok fs' ss' dir txn (xs(i := insert (ref, append_header hash (length pl) u c, pl) (xs i))) (n + 1)"
    using others r(4) pw inv(2) i(1) by (auto simp: shards_ok_def w(2) nth_list_update)
  moreover have "\<forall>p. (\<forall>i < 16. p \<notin> range (pack_names dir txn i)) \<longrightarrow> fs' p = fs p"
    using r(1) inv(3) i(1) by (auto simp: others_kept_def)
  ultimately show ?thesis using r(3) ne by (auto simp: i_def)
qed

lemma shards_flush:
  assumes io: "calm_pack io" and ok: "shards_ok fs ss dir txn xs n" and n: "n \<le> 2 ^ 30"
    and f: "FlushAllOpenPacks io True fs ss = (st, ss1, fs')" "status_ok st" and y: "shards_FsyncAll io ss1 = (st2, ss2)"
  shows "shards_ok fs' ss2 dir txn xs n \<and> (\<forall>i < 16. \<forall>x \<in> xs i. readable fs' x) \<and>
    (\<forall>p. (\<forall>i < 16. p \<notin> range (pack_names dir txn i)) \<longrightarrow> fs' p = fs p)"
proof -
  have l: "length ss = 16" and p: "\<And>i. i < 16 \<Longrightarrow> pack_file (ss ! i) = pack_names dir txn i" "\<forall>i < length ss. pack_inv fs (ss ! i) (xs i) n"
    using ok by (simp_all add: shards_ok_def)
  have dis: "\<forall>i j. i < length ss \<longrightarrow> j < length ss \<longrightarrow> i \<noteq> j \<longrightarrow> range (pack_file (ss ! i)) \<inter> range (pack_file (ss ! j)) = {}"
    using pack_names_disjoint p(1) l by fastforce
  have "n < 2 ^ 32" using n by simp
  note s = FlushAll_step [OF io this p(2) dis f]
  note t = shards_FsyncAll_inv [OF y]
  have "pack_file (ss2 ! i) = pack_names dir txn i \<and> pack_inv fs' (ss2 ! i) (xs i) n" if i: "i < 16" for i
  proof -
    obtain S where "ss2 ! i = (ss1 ! i)\<lparr>fsynced_paths := S\<rparr>" using t s l i by auto
    then show ?thesis using s p(1) [OF i] l i by simp
  qed
  then show ?thesis using s t l p(1) by (simp add: shards_ok_def)
qed

lemma AppendRecord_packs:
  assumes inv: "packs_inv io (cs, fs) m n" and n: "n < 2 ^ 30" and wf: "record_request_wf (hash, pl, codec, ulen)"
    and a: "AppendRecordInternal io hash pl codec ulen cs fs = (st, cs', fs')"
  shows "packs_inv io (cs', fs') (m(hash \<mapsto> req_record (hash, pl, codec, ulen))) (n + 1) \<and> same_settings cs cs' \<and> st = Status_Ok"
proof -
  note si = packs_inv_simps [OF inv]
  obtain ss dir txn xs where ss: "eb_pack_shards cs = Some ss" "shards_ok (pack_files fs) ss dir txn xs n"
    and found: "packs_found m cs fs dir txn xs" and at: "dir = PacksDir cs" "txn = append_txn_id cs"
    by (rule packs_invD [OF inv])
  let ?hdr = "append_header hash (length pl) ulen (codec_byte codec)"
  obtain res ss1 pf where s: "shards_AppendRecord (pk_io io) hash pl ulen (codec_byte codec) (pack_files fs) ss = (res, ss1, pf)"
    by (metis prod_cases3)
  obtain ref where r: "res = Inr ref" "pack_path ref \<noteq> []"
    "shards_ok pf ss1 dir txn (xs(IndexShardForHash hash := insert (ref, ?hdr, pl) (xs (IndexShardForHash hash)))) (n + 1)"
    "\<forall>p. (\<forall>i < 16. p \<notin> range (pack_names dir txn i)) \<longrightarrow> pf p = pack_files fs p"
    using shards_append [OF si(1) ss(2) n _ _ s] wf by (auto simp: record_request_wf_def)
  let ?xs = "xs(IndexShardForHash hash := insert (ref, ?hdr, pl) (xs (IndexShardForHash hash)))"
  let ?loc = "\<lparr>loc_offset = ref_offset ref, loc_pack_path = pack_path ref, loc_stored_len = ref_stored_len ref,
      loc_uncompressed_len = ref_uncompressed_len ref, loc_codec = ref_codec ref\<rparr>"
  have e: "shard_index cs' = index_put hash ?loc (shard_index cs)" "eb_pack_shards cs' = Some ss1" "pack_files fs' = pf"
      "same_settings cs cs'" "st = Status_Ok"
    using a si(2) ss(1) s r(1)
    by (auto simp: AppendRecordInternal_def AppendRecordEbPack_def Let_def TrackIndexEntry_def same_settings_def)
  note loc = find_loc_put [OF si(3) e(1)]
  have "packs_inv io (cs', fs') (m(hash \<mapsto> req_record (hash, pl, codec, ulen))) (n + 1)"
  proof (rule packs_invI [OF si(1) _ _ _ _ e(2) r(3) [folded e(3)]])
    show "packs_found (m(hash \<mapsto> req_record (hash, pl, codec, ulen))) cs' fs' dir txn ?xs"
      unfolding packs_found_def
    proof (intro allI impI)
    fix h x assume m: "(m(hash \<mapsto> req_record (hash, pl, codec, ulen))) h = Some x"
    show "\<exists>loc ref'. find_loc cs' h = Some loc \<and> loc_pack_path loc = pack_path ref' \<and> loc_offset loc = ref_offset ref' \<and>
        pack_path ref' \<noteq> [] \<and> ((ref', x) \<in> ?xs (IndexShardForHash h) \<or> settled (pack_files fs') dir txn (ref', x))"
    proof (cases "h = hash")
      case True
      then have "x = (?hdr, pl)" using m by (simp add: req_record_def)
      then show ?thesis using loc [of h] True r(2) by (intro exI [of _ ?loc] exI [of _ ref]) simp
    next
      case False
      then obtain l0 ref0 where "find_loc cs h = Some l0" "loc_pack_path l0 = pack_path ref0" "loc_offset l0 = ref_offset ref0"
          "pack_path ref0 \<noteq> []" "(ref0, x) \<in> xs (IndexShardForHash h) \<or> settled (pack_files fs) dir txn (ref0, x)"
        using packs_foundD [OF found, of h x] m by auto
      then show ?thesis
        using loc [of h] False settled_files [of "pack_files fs" dir txn "(ref0, x)" "pack_files fs'"] r(4) e(3)
        by (intro exI [of _ l0] exI [of _ ref0]) auto
    qed
    qed
  next
    fix h assume "find_loc cs' h \<noteq> None"
    then show "(m(hash \<mapsto> req_record (hash, pl, codec, ulen))) h \<noteq> None" using loc [of h] si(5) by (auto split: if_splits)
  qed (use si e n at in \<open>simp_all add: same_settings_def PacksDir_def\<close>)
  then show ?thesis using e(4,5) by simp
qed

lemma Flush_packs:
  assumes inv: "packs_inv io (cs, fs) m n" and f: "Flush io cs fs = (st, cs', fs')" and ok: "status_ok st"
  shows "packs_inv io (cs', fs') m n \<and> (\<forall>hash r. m hash = Some r \<longrightarrow> ReadRecordForHash io cs' fs' hash = Inr r) \<and>
    same_settings cs cs'"
proof -
  note si = packs_inv_simps [OF inv]
  obtain ss dir txn xs where ss: "eb_pack_shards cs = Some ss" "shards_ok (pack_files fs) ss dir txn xs n"
    and found: "packs_found m cs fs dir txn xs" and at: "dir = PacksDir cs" "txn = append_txn_id cs"
    by (rule packs_invD [OF inv])
  obtain st1 ss1 pf where p: "FlushAllOpenPacks (pk_io io) True (pack_files fs) ss = (st1, ss1, pf)" by (metis prod_cases3)
  obtain st2 ss2 where y: "shards_FsyncAll (pk_io io) ss1 = (st2, ss2)" by (cases "shards_FsyncAll (pk_io io) ss1")
  let ?cs = "cs\<lparr>eb_pack_shards := Some ss2\<rparr>" and ?fs = "fs\<lparr>pack_files := pf\<rparr>"
  have F: "Flush io cs fs = (if \<not> status_ok st1 then (st1, cs\<lparr>eb_pack_shards := Some ss1\<rparr>, ?fs)
      else if \<not> status_ok st2 then (st2, ?cs, ?fs) else if defer_persistent_index_save cs then (Status_Ok, ?cs, ?fs)
      else case SavePersistentIndex io ?cs ?fs of (st3, fs2) \<Rightarrow> (st3, ?cs, fs2))"
    using si(2) ss(1) p y by (simp add: Flush_def Let_def)
  obtain st3 fs3 where sv: "SavePersistentIndex io ?cs ?fs = (st3, fs3)" by (cases "SavePersistentIndex io ?cs ?fs")
  have e: "status_ok st1" "cs' = ?cs" "pack_files fs' = pf"
    using f ok SaveIndex_log [OF sv] unfolding F sv prod.case by (simp_all split: if_splits) (auto split: if_splits)
  note fl = shards_flush [OF si(1) ss(2) si(4) p e(1) y]
  have loc: "find_loc cs' h = find_loc cs h" for h by (simp add: find_loc_def e(2))
  have keep: "packs_found m cs' fs' dir txn xs"
    unfolding packs_found_def
  proof (intro allI impI)
    fix h r assume "m h = Some r"
    from packs_foundD [OF found this] obtain l0 ref0 where "find_loc cs h = Some l0" "loc_pack_path l0 = pack_path ref0"
        "loc_offset l0 = ref_offset ref0" "pack_path ref0 \<noteq> []"
        "(ref0, r) \<in> xs (IndexShardForHash h) \<or> settled (pack_files fs) dir txn (ref0, r)" by blast
    then show "\<exists>loc ref. find_loc cs' h = Some loc \<and> loc_pack_path loc = pack_path ref \<and> loc_offset loc = ref_offset ref \<and>
        pack_path ref \<noteq> [] \<and> ((ref, r) \<in> xs (IndexShardForHash h) \<or> settled (pack_files fs') dir txn (ref, r))"
      using settled_files [of "pack_files fs" dir txn "(ref0, r)" "pack_files fs'"] conjunct2 [OF conjunct2 [OF fl]]
      unfolding loc e(3) by blast
  qed
  have "packs_inv io (cs', fs') m n"
    by (rule packs_invI [where ss = ss2 and dir = dir and txn = txn and xs = xs])
      (use si fl keep loc e at in \<open>simp_all add: find_loc_def PacksDir_def\<close>)
  moreover have "ReadRecordForHash io cs' fs' h = Inr r" if mr: "m h = Some r" for h r
  proof -
    obtain loc ref where l: "find_loc cs' h = Some loc" "loc_pack_path loc = pack_path ref" "loc_offset loc = ref_offset ref"
        "pack_path ref \<noteq> []" "(ref, r) \<in> xs (IndexShardForHash h) \<or> settled (pack_files fs') dir txn (ref, r)"
      using packs_foundD [OF keep mr] by blast
    then have "readable (pack_files fs') (ref, r)"
      using fl IndexShardForHash_less [of h] e(3) by (auto simp: settled_def)
    then show ?thesis using l by (cases r) (simp add: ReadRecordForHash_def readable_def)
  qed
  ultimately show ?thesis using e(2) by (simp add: same_settings_def)
qed

interpretation packs_backend:
  record_backend store_present "store_append io" "store_flush io" "store_fetch io" "packs_inv io" "\<lambda>_. True" for io
proof unfold_locales
  fix s m n hash
  assume "packs_inv io s m n" "store_present s hash"
  then show "m hash \<noteq> None"
    using packs_inv_simps(5) [of io "fst s" "snd s" m n hash] by (simp add: store_present_def Exists_def)
next
  fix s m n q st s'
  assume "packs_inv io s m n" "n < 2 ^ 30" "record_request_wf q" "store_append io q s = (st, s')"
  then show "packs_inv io s' (m(req_hash q \<mapsto> req_record q)) (n + 1)"
    using AppendRecord_packs [of io "fst s" "snd s" m n "fst q" "fst (snd q)" "fst (snd (snd q))" "snd (snd (snd q))" st "fst s'" "snd s'"]
    by (simp add: store_append_def req_hash_def split: prod.splits)
next
  fix s m n st s'
  assume "packs_inv io s m n" "store_flush io s = (st, s')" "status_ok st"
  then show "packs_inv io s' m n \<and> (\<forall>hash r. m hash = Some r \<longrightarrow> store_fetch io s' hash = Inr r)"
    using Flush_packs [of io "fst s" "snd s" m n st "fst s'" "snd s'"] by (simp add: store_flush_def store_fetch_def)
qed

section \<open>The store over either place\<close>

locale store_backend = record_backend store_present "store_append io" "store_flush io" "store_fetch io" inv accepts
  for io :: store_io and inv and accepts +
  assumes append_settings: "inv (cs, fs) m n \<Longrightarrow> n < 2 ^ 30 \<Longrightarrow> record_request_wf (hash, pl, codec, ulen) \<Longrightarrow>
      AppendRecordInternal io hash pl codec ulen cs fs = (st, cs', fs') \<Longrightarrow> status_ok st \<Longrightarrow> same_settings cs cs'"
    and flush_settings: "inv (cs, fs) m n \<Longrightarrow> Flush io cs fs = (st, cs', fs') \<Longrightarrow> status_ok st \<Longrightarrow> same_settings cs cs'"

text \<open>A put with its random draws, and a series of puts that all succeed.\<close>

type_synonym put_request_data = "(nat \<Rightarrow> u32) \<times> bytes \<times> ChunkStorePutOptions option"

fun put_all :: "put_env \<Rightarrow> store_io \<Rightarrow> put_request_data list \<Rightarrow> ChunkStore \<Rightarrow> repo_files \<Rightarrow> (ChunkStore \<times> repo_files) option" where
  "put_all env io [] cs fs = Some (cs, fs)"
| "put_all env io ((rd, chunk, options) # qs) cs fs =
     (case Put (env\<lparr>pe_random := rd\<rparr>) io chunk options cs fs of
        Some (hash, Inr newly, caller, cs1, fs1) \<Rightarrow> put_all env io qs cs1 fs1
      | _ \<Rightarrow> None)"

text \<open>The header a put would write is accepted.\<close>

definition put_accepted :: "(ChunkRecordHeader \<Rightarrow> bool) \<Rightarrow> put_env \<Rightarrow> ChunkStore \<Rightarrow> put_request_data \<Rightarrow> bool" where
  "put_accepted accepts env cs q = (case q of (rd, chunk, options) \<Rightarrow>
     (case encode_payload (env\<lparr>pe_random := rd\<rparr>) cs chunk options of
        Some (Inr (stored, codec, ulen), _) \<Rightarrow>
          accepts (append_header (ContentHash (cs_digest_algo cs) chunk) (length stored) ulen (codec_byte codec))
      | _ \<Rightarrow> True))"

text \<open>The chunk fits the LZ4 codec, and the store can read what is stored for it: the same key, and the same dictionary for a Zstandard frame.\<close>

definition put_ok :: "put_env \<Rightarrow> ChunkStore \<Rightarrow> put_request_data \<Rightarrow> bool" where
  "put_ok env cs q = (case q of (rd, chunk, options) \<Rightarrow> length chunk \<le> LZ4_MAX_INPUT_SIZE \<and> same_key cs options \<and>
     (case encode_payload (env\<lparr>pe_random := rd\<rparr>) cs chunk options of
        Some (Inr (stored, codec, ulen), _) \<Rightarrow> same_dict cs options codec
      | _ \<Rightarrow> True))"

text \<open>Everything in the map decodes to one of the given chunks, whose hash it is under.\<close>

definition holds_chunks ::
  "zstd_lib \<Rightarrow> ChunkStore \<Rightarrow> bytes set \<Rightarrow> (bytes \<Rightarrow> (ChunkRecordHeader \<times> bytes) option) \<Rightarrow> bool" where
  "holds_chunks lib cs C m \<longleftrightarrow> (\<forall>hash r. m hash = Some r \<longrightarrow>
     (\<exists>chunk \<in> C. ContentHash (cs_digest_algo cs) chunk = hash \<and> DecodePayload lib cs (fst r) (snd r) = Some (Inr chunk)))"

lemma settings_simps:
  assumes "same_settings cs cs'"
  shows "DecodePayload lib cs' = DecodePayload lib cs" "cs_digest_algo cs' = cs_digest_algo cs"
    "encode_payload env cs' = encode_payload env cs" "same_key cs' = same_key cs" "same_dict cs' = same_dict cs" "tombstones cs' = tombstones cs"
    "cs_zstd_dict cs' = cs_zstd_dict cs"
proof -
  have z: "cs_zstd_dict cs' = cs_zstd_dict cs" "cs_digest_algo cs' = cs_digest_algo cs" "tombstones cs' = tombstones cs"
    using assms by (simp_all add: same_settings_def)
  have k: "cs_content_key cs' = cs_content_key cs" "has_content_key cs' = has_content_key cs"
    using assms by (simp_all add: same_settings_def)
  have d: "decode_decrypt cs' = decode_decrypt cs" using assms by (simp add: fun_eq_iff decode_decrypt_def same_settings_def)
  show "DecodePayload lib cs' = DecodePayload lib cs" by (intro ext) (simp only: DecodePayload_def d z)
  have r: "put_request cs' = put_request cs" unfolding fun_eq_iff put_request_def z by simp
  show "encode_payload env cs' = encode_payload env cs"
    unfolding fun_eq_iff encode_payload_def r k by simp
  show "same_key cs' = same_key cs" unfolding fun_eq_iff same_key_def k by simp
  show "same_dict cs' = same_dict cs" unfolding fun_eq_iff same_dict_def r z by simp
qed (use assms in \<open>simp_all add: same_settings_def\<close>)

lemma put_accepted_settings: "same_settings cs cs' \<Longrightarrow> put_accepted accepts env cs' q = put_accepted accepts env cs q"
  unfolding put_accepted_def settings_simps(2,3) by (rule refl)

lemma put_ok_settings: "same_settings cs cs' \<Longrightarrow> put_ok env cs' q = put_ok env cs q"
  unfolding put_ok_def settings_simps(3,4,5) by (rule refl)

context store_backend
begin

lemma put_step:
  assumes inv: "inv (cs, fs) m n" and n: "n < 2 ^ 30" and c: "holds_chunks (pe_zstd env) cs C m"
    and law: "zstd_law (pe_zstd env)" "zstd_can_decode (pe_zstd env) (cs_zstd_dict cs)"
    and q: "put_ok env cs (rd, chunk, options)" "put_accepted accepts env cs (rd, chunk, options)"
    and p: "Put (env\<lparr>pe_random := rd\<rparr>) io chunk options cs fs = Some (hash, Inr b, caller, cs1, fs1)"
  shows "\<exists>m' n'. inv (cs1, fs1) m' n' \<and> n' \<le> n + 1 \<and> holds_chunks (pe_zstd env) cs1 (insert chunk C) m' \<and> same_settings cs cs1 \<and>
    (\<forall>h. m h \<noteq> None \<longrightarrow> m' h \<noteq> None) \<and> m' (ContentHash (cs_digest_algo cs) chunk) \<noteq> None"
proof -
  let ?hash = "ContentHash (cs_digest_algo cs) chunk" and ?env = "env\<lparr>pe_random := rd\<rparr>"
  have k: "PutKnownHash ?env io chunk ?hash options cs fs = Some (Inr b, caller, cs1, fs1)"
    using p by (auto simp: Put_def Let_def)
  show ?thesis
  proof (cases "Exists cs ?hash")
    case True
    then have "cs1 = cs" "fs1 = fs" "m ?hash \<noteq> None"
      using k present_map [OF inv, of ?hash] by (auto simp: PutKnownHash_def Let_def store_present_def)
    moreover have "holds_chunks (pe_zstd env) cs (insert chunk C) m" using c unfolding holds_chunks_def by blast
    ultimately show ?thesis using inv by (intro exI [of _ m] exI [of _ n]) simp
  next
    case False
    then obtain stored codec ulen c1 st where e: "encode_payload ?env cs chunk options = Some (Inr (stored, codec, ulen), c1)"
      and a: "AppendRecordInternal io ?hash stored codec ulen cs fs = (st, cs1, fs1)" "status_ok st"
      using k by (auto simp: PutKnownHash_def Let_def split: option.splits prod.splits sum.splits if_splits)
    let ?q = "(?hash, stored, codec, ulen)"
    let ?hdr = "append_header ?hash (length stored) ulen (codec_byte codec)"
    have env: "pe_zstd ?env = pe_zstd env" by simp
    have len: "length chunk \<le> LZ4_MAX_INPUT_SIZE" "same_key cs options" "same_dict cs options codec" using q(1) e by (simp_all add: put_ok_def)
    have "rec_codec ?hdr = codec_byte codec" "rec_uncompressed_len ?hdr = ulen" by (simp_all add: append_header_def)
    note d = encode_payload_decodes [OF law(1) [folded env] law(2) [folded env] len e this]
    have wf: "record_request_wf ?q" using d len(1) by (simp add: record_request_wf_def LZ4_MAX_INPUT_SIZE_def)
    have acc: "accepts (fst (req_record ?q))" using q(2) e by (simp add: put_accepted_def req_record_def)
    have "store_append io ?q (cs, fs) = (st, cs1, fs1)" using a(1) by (simp add: store_append_def)
    note i = append_map [OF inv n wf acc this a(2)]
    note ss = append_settings [OF inv n wf a]
    have "holds_chunks (pe_zstd env) cs1 (insert chunk C) (m(req_hash ?q \<mapsto> req_record ?q))"
      using c d settings_simps(1,2) [OF ss] unfolding holds_chunks_def
      by (auto simp: req_hash_def req_record_def split: if_splits)
    then show ?thesis using i ss by (intro exI [of _ "m(req_hash ?q \<mapsto> req_record ?q)"] exI [of _ "n + 1"]) (simp add: req_hash_def)
  qed
qed

lemma put_all_map:
  assumes "zstd_law (pe_zstd env)"
  shows "inv (cs, fs) m n \<Longrightarrow> n + length qs \<le> 2 ^ 30 \<Longrightarrow> holds_chunks (pe_zstd env) cs C m \<Longrightarrow>
    zstd_can_decode (pe_zstd env) (cs_zstd_dict cs) \<Longrightarrow> \<forall>q \<in> set qs. put_ok env cs q \<and> put_accepted accepts env cs q \<Longrightarrow>
    put_all env io qs cs fs = Some (cs1, fs1) \<Longrightarrow>
    \<exists>m' n'. inv (cs1, fs1) m' n' \<and> n' \<le> n + length qs \<and>
      holds_chunks (pe_zstd env) cs1 (C \<union> fst ` snd ` set qs) m' \<and> same_settings cs cs1 \<and>
      (\<forall>h. m h \<noteq> None \<longrightarrow> m' h \<noteq> None) \<and>
      (\<forall>(rd, chunk, options) \<in> set qs. m' (ContentHash (cs_digest_algo cs) chunk) \<noteq> None)"
proof (induction qs arbitrary: cs fs m n C)
  case Nil
  then show ?case by (auto intro!: exI [of _ m] exI [of _ n])
next
  case (Cons q qs)
  obtain rd chunk options where q: "q = (rd, chunk, options)" by (cases q)
  obtain hash b caller cs2 fs2 where p: "Put (env\<lparr>pe_random := rd\<rparr>) io chunk options cs fs = Some (hash, Inr b, caller, cs2, fs2)"
    and r: "put_all env io qs cs2 fs2 = Some (cs1, fs1)"
    using Cons.prems(6) by (auto simp: q split: option.splits prod.splits sum.splits)
  have n: "n < 2 ^ 30" using Cons.prems(2) by simp
  obtain m2 n2 where s: "inv (cs2, fs2) m2 n2" "n2 \<le> n + 1" "holds_chunks (pe_zstd env) cs2 (insert chunk C) m2" "same_settings cs cs2"
      "\<forall>h. m h \<noteq> None \<longrightarrow> m2 h \<noteq> None" "m2 (ContentHash (cs_digest_algo cs) chunk) \<noteq> None"
    using put_step [OF Cons.prems(1) n Cons.prems(3) assms Cons.prems(4) _ _ p] Cons.prems(5) by (auto simp: q)
  note ss = settings_simps [OF s(4)] put_accepted_settings [OF s(4)] put_ok_settings [OF s(4)]
  have "n2 + length qs \<le> 2 ^ 30" "zstd_can_decode (pe_zstd env) (cs_zstd_dict cs2)"
      "\<forall>q \<in> set qs. put_ok env cs2 q \<and> put_accepted accepts env cs2 q"
    using s(2) Cons.prems(2,4,5) ss by auto
  from Cons.IH [OF s(1) this(1) s(3) this(2,3) r] obtain m' n' where f: "inv (cs1, fs1) m' n'"
      "holds_chunks (pe_zstd env) cs1 (insert chunk C \<union> fst ` snd ` set qs) m'" "same_settings cs2 cs1"
      "\<forall>h. m2 h \<noteq> None \<longrightarrow> m' h \<noteq> None"
      "\<forall>(rd, chunk, options) \<in> set qs. m' (ContentHash (cs_digest_algo cs) chunk) \<noteq> None" "n' \<le> n2 + length qs"
    by (auto simp: ss)
  have "holds_chunks (pe_zstd env) cs1 (C \<union> fst ` snd ` set (q # qs)) m'" using f(2) by (simp add: q)
  then show ?case
    using f s same_settings_trans [OF s(4) f(3)] by (intro exI [of _ m'] exI [of _ n']) (auto simp: q)
qed

text \<open>Flushed, every chunk of the series comes back under its hash.\<close>

lemma puts_come_back:
  assumes law: "zstd_law (pe_zstd env)" "zstd_can_decode (pe_zstd env) (cs_zstd_dict cs)"
    and inv: "inv (cs, fs) m n" "n + length qs \<le> 2 ^ 30" "holds_chunks (pe_zstd env) cs C m" "tombstones cs = {}"
    and q: "\<forall>q \<in> set qs. put_ok env cs q \<and> put_accepted accepts env cs q"
    and p: "put_all env io qs cs fs = Some (cs1, fs1)" and f: "Flush io cs1 fs1 = (st, cs2, fs2)" "status_ok st"
    and qq: "(rd, chunk, options) \<in> set qs"
  shows "\<exists>chunk' \<in> C \<union> fst ` snd ` set qs. ContentHash (cs_digest_algo cs) chunk' = ContentHash (cs_digest_algo cs) chunk \<and>
    Get (pe_zstd env) io cs2 fs2 (ContentHash (cs_digest_algo cs) chunk) = Some (Inr chunk')"
proof -
  let ?hash = "ContentHash (cs_digest_algo cs) chunk"
  obtain m' n' where a: "inv (cs1, fs1) m' n'" "holds_chunks (pe_zstd env) cs1 (C \<union> fst ` snd ` set qs) m'" "same_settings cs cs1"
      "\<forall>(rd, chunk, options) \<in> set qs. m' (ContentHash (cs_digest_algo cs) chunk) \<noteq> None"
    using put_all_map [OF law(1) inv(1,2,3) law(2) q p] by blast
  have fl: "store_flush io (cs1, fs1) = (st, cs2, fs2)" using f(1) by (simp add: store_flush_def)
  have r: "m' h = Some r \<Longrightarrow> ReadRecordForHash io cs2 fs2 h = Inr r" for h r
    using flush_map [OF a(1) fl f(2), THEN conjunct2, rule_format, of h r] unfolding store_fetch_def by simp
  obtain hdr pl where hp: "m' ?hash = Some (hdr, pl)" using a(4) qq by fastforce
  have ss: "same_settings cs cs2" by (rule same_settings_trans [OF a(3) flush_settings [OF a(1) f]])
  obtain chunk' where c: "chunk' \<in> C \<union> fst ` snd ` set qs" "ContentHash (cs_digest_algo cs) chunk' = ?hash"
      "DecodePayload (pe_zstd env) cs hdr pl = Some (Inr chunk')"
    using a(2) hp unfolding holds_chunks_def settings_simps(1,2) [OF a(3)] by (metis fst_conv snd_conv)
  then have "Get (pe_zstd env) io cs2 fs2 ?hash = Some (Inr chunk')"
    using r [OF hp] inv(4) settings_simps [OF ss] by (simp add: Get_def)
  then show ?thesis using c by blast
qed

end

interpretation log_store: store_backend io "log_inv io" unambiguous for io
proof unfold_locales
  fix cs fs m n hash pl codec ulen st cs' fs'
  assume inv: "log_inv io (cs, fs) m n" and a: "AppendRecordInternal io hash pl codec ulen cs fs = (st, cs', fs')" "status_ok st"
  have "\<not> use_ebpack cs" using inv by (simp add: log_inv_def)
  from AppendRecord_log_moved [OF this a] show "same_settings cs cs'"
    unfolding moved_def by (meson buffer_record_simps(4) same_settings_trans)
next
  fix cs fs m n st cs' fs'
  assume inv: "log_inv io (cs, fs) m n" and f: "Flush io cs fs = (st, cs', fs')" "status_ok st"
  have "\<not> use_ebpack cs" using inv by (simp add: log_inv_def)
  from Flush_log_moved(1) [OF this f] show "same_settings cs cs'" by (simp add: moved_def)
qed

interpretation packs_store: store_backend io "packs_inv io" "\<lambda>_. True" for io
  by unfold_locales (use AppendRecord_packs Flush_packs in blast)+

end
