(* ===== verification/ChunkReopen.thy ===== *)
theory ChunkReopen
  imports ChunkBackend
begin

text \<open>
  The index of the chunk store over its life: every record that is appended is also entered in the list
  that \<open>SavePersistentIndex\<close> writes, so that a store opened from the files of a flushed one finds every
  chunk where the first one put it. This file also holds the facts a new store starts from, and the
  main properties of the store.
\<close>

section \<open>The names of packs\<close>

lemma hex_chars: "c \<in> set (pad_zeros w (hex_string n)) \<Longrightarrow> c \<in> set ''0123456789abcdef''"
proof -
  assume "c \<in> set (pad_zeros w (hex_string n))"
  then consider "c = CHR ''0''" | "c \<in> set (digits_of 16 n)" unfolding pad_zeros_def hex_string_def by auto
  then show ?thesis
  proof cases
    case 2
    then have "c \<in> digit_char ` {..<16}" by (intro digits_of_chars) simp_all
    then show ?thesis unfolding digit_char_set .
  qed simp
qed

lemma length_pad_hex: "n < 16 ^ k \<Longrightarrow> 0 < k \<Longrightarrow> length (pad_zeros w (hex_string n)) \<le> max w k"
  using length_digits_of [of 16 n k] by (simp add: pad_zeros_def hex_string_def)

lemma MakePackName_chars: "CHR ''/'' \<notin> set (MakePackName txn s shard)" "CHR 0x00 \<notin> set (MakePackName txn s shard)"
proof -
  have h: "CHR ''/'' \<notin> set (pad_zeros w (hex_string n))" "CHR 0x00 \<notin> set (pad_zeros w (hex_string n))" for w n
    using hex_chars [of _ w n] by fastforce+
  show "CHR ''/'' \<notin> set (MakePackName txn s shard)" "CHR 0x00 \<notin> set (MakePackName txn s shard)"
    using h by (simp_all add: MakePackName_def)
qed

lemma length_MakePackName:
  assumes "unat shard < 256"
  shows "length (MakePackName txn s shard) \<le> 46"
proof -
  have "unat txn < 16 ^ 16" using unsigned_less [of txn] by simp
  then have t: "length (pad_zeros 8 (hex_string (unat txn))) \<le> 16" using length_pad_hex [of "unat txn" 16 8] by simp
  have "unat s < 16 ^ 8" using unsigned_less [of s] by simp
  then have s: "length (pad_zeros 4 (hex_string (unat s))) \<le> 8" using length_pad_hex [of "unat s" 8 4] by simp
  have h: "length (pad_zeros 2 (hex_string (unat shard))) \<le> 2" using length_pad_hex [of "unat shard" 2 2] assms by simp
  show ?thesis using t s h by (simp add: MakePackName_def)
qed

lemma path_filename_join: "CHR ''/'' \<notin> set name \<Longrightarrow> path_filename (path_join dir name) = name"
proof (cases "dir = [] \<or> last dir = CHR ''/''")
  case True
  assume n: "CHR ''/'' \<notin> set name"
  then have t: "takeWhile (\<lambda>c. c \<noteq> CHR ''/'') (rev name) = rev name" by (simp add: takeWhile_eq_all_conv) metis
  show ?thesis
    using n True by (cases dir rule: rev_cases) (auto simp: path_filename_def path_join_def t takeWhile_append)
next
  case False
  assume "CHR ''/'' \<notin> set name"
  then show ?thesis using False by (auto simp: path_filename_def path_join_def takeWhile_append)
qed

lemma entry_pack_name_of:
  assumes "CHR 0x00 \<notin> set name" and "length name \<le> 46"
  shows "entry_pack_name (e\<lparr>pack_name := take 46 (string_bytes name) @ zeros (47 - length (take 46 (string_bytes name)))\<rparr>) = name"
proof -
  obtain k where k: "47 - length name = Suc k" using assms(2) by (cases "47 - length name") auto
  have "take 46 (string_bytes name) = string_bytes name" "length (string_bytes name) = length name"
    using assms(2) by (simp_all add: string_bytes_def)
  moreover have "takeWhile (\<lambda>b. b \<noteq> 0) (string_bytes name @ zeros (Suc k)) = string_bytes name"
    using assms(1) by (rule string_until_zero)
  moreover have "map (\<lambda>b. char_of (unat b)) (string_bytes name) = name"
    unfolding string_bytes_def map_map comp_def char_of_byte by simp
  ultimately show ?thesis using k by (simp add: entry_pack_name_def)
qed

section \<open>The list of entries follows the index\<close>

definition log_size :: "repo_files \<Rightarrow> u64" where
  "log_size fs = (case log_file fs of None \<Rightarrow> 0 | Some b \<Rightarrow> word_of_nat (length b))"

text \<open>
  The entries rebuild the index, each of them survives its encoding, and there are at most as many as
  records were appended. With packs the store's size is the size of the log; without, the log exists.
  Nothing has been tombstoned.
\<close>

definition tracked :: "ChunkStore \<Rightarrow> repo_files \<Rightarrow> nat \<Rightarrow> bool" where
  "tracked cs fs n \<longleftrightarrow> shard_index cs = index_of_entries cs (index_entries cs) \<and> (\<forall>e \<in> set (index_entries cs). canonical e) \<and>
     length (index_entries cs) \<le> n \<and> tomb_file fs = None \<and> (if use_ebpack cs then cs_file_size cs = log_size fs else log_file fs \<noteq> None)"

lemma index_of_entries_snoc:
  "index_of_entries cs (es @ [e]) = index_put (ent_hash e) (entry_location cs e) (index_of_entries cs es)"
  by (simp add: index_of_entries_def)

lemma entry_location_path: "cs_path cs' = cs_path cs \<Longrightarrow> entry_location cs' = entry_location cs"
  by (simp add: fun_eq_iff entry_location_def PacksDir_def)

lemma index_of_entries_path: "cs_path cs' = cs_path cs \<Longrightarrow> index_of_entries cs' es = index_of_entries cs es"
  by (simp add: index_of_entries_def entry_location_path [of cs' cs])

lemma tracked_add:
  assumes "tracked cs fs n" and "cs_path cs' = cs_path cs" and "index_entries cs' = index_entries cs @ [e]"
    and "shard_index cs' = index_put (ent_hash e) (entry_location cs e) (shard_index cs)" and "canonical e"
    and "tomb_file fs' = None" and "if use_ebpack cs' then cs_file_size cs' = log_size fs' else log_file fs' \<noteq> None"
  shows "tracked cs' fs' (n + 1)"
  using assms by (simp add: tracked_def index_of_entries_snoc index_of_entries_path [OF assms(2)] entry_location_path [OF assms(2)])

definition log_entry :: "bytes \<Rightarrow> u64 \<Rightarrow> u32 \<Rightarrow> u32 \<Rightarrow> byte \<Rightarrow> ChunkIndexEntry" where
  "log_entry hash offset stored ulen codec =
     empty_entry\<lparr>ent_hash := hash, ent_offset := offset, ent_stored_len := stored, ent_uncompressed_len := ulen, ent_codec := codec\<rparr>"

lemma buffer_record_tracked:
  assumes "tracked cs fs n" and "\<not> use_ebpack cs" and "length hash = 32"
  shows "tracked (buffer_record hash pl codec ulen cs) fs (n + 1)"
proof (rule tracked_add [OF assms(1), where e = "log_entry hash (cs_file_size cs) (word_of_nat (length pl)) ulen (codec_byte codec)"])
  show "canonical (log_entry hash (cs_file_size cs) (word_of_nat (length pl)) ulen (codec_byte codec))"
    using assms(3) by (simp add: canonical_def log_entry_def empty_entry_def entry_wf_def kChunkStorageLegacy_def kChunkStorageEbPack_def)
qed (use assms in \<open>simp_all add: buffer_record_def TrackIndexEntry_def Let_def log_entry_def entry_location_def empty_entry_def
    append_header_def kChunkStorageLegacy_def kChunkStorageEbPack_def tracked_def\<close>)

lemma tracked_moved: "tracked cs fs n \<Longrightarrow> moved cs fs cs' fs' \<Longrightarrow> \<not> use_ebpack cs \<Longrightarrow> tracked cs' fs' n"
  using index_of_entries_path [of cs' cs] by (simp add: tracked_def moved_def same_settings_def)

lemma AppendRecord_log_tracked:
  assumes "tracked cs fs n" and "\<not> use_ebpack cs" and "length hash = 32"
    and a: "AppendRecordInternal io hash pl codec ulen cs fs = (st, cs', fs')" "status_ok st"
  shows "tracked cs' fs' (n + 1)"
  using tracked_moved [OF buffer_record_tracked [OF assms(1-3)] AppendRecord_log_moved [OF assms(2) a]] assms(2)
    buffer_record_simps(4) [of cs hash pl codec ulen] by (simp add: same_settings_def)

text \<open>What the pack writer answers names the record and a pack of its own.\<close>

lemma AppendRecord_ref:
  "AppendRecord io hash pl u c fs w = (Inr ref, w', fs') \<Longrightarrow>
     ref_stored_len ref = word_of_nat (length pl) \<and> ref_uncompressed_len ref = u \<and> ref_codec ref = c"
  unfolding AppendRecord_def Let_def by (auto simp: append_header_def split: prod.splits if_splits option.splits)

definition pack_entry :: "bytes \<Rightarrow> u64 \<Rightarrow> u32 \<Rightarrow> u32 \<Rightarrow> byte \<Rightarrow> string \<Rightarrow> ChunkIndexEntry" where
  "pack_entry hash offset stored ulen codec name =
     (log_entry hash offset stored ulen codec)\<lparr>storage_flags := kChunkStorageEbPack,
        pack_name := take 46 (string_bytes name) @ zeros (47 - length (take 46 (string_bytes name)))\<rparr>"

lemma canonical_pack_entry: "length hash = 32 \<Longrightarrow> canonical (pack_entry hash offset stored ulen codec name)"
  by (simp add: canonical_def pack_entry_def log_entry_def entry_wf_def)

lemma AppendRecord_packs_tracked:
  assumes inv: "packs_inv io (cs, fs) m n" and n: "n < 2 ^ 30" and wf: "record_request_wf (hash, pl, codec, ulen)"
    and t: "tracked cs fs k" and a: "AppendRecordInternal io hash pl codec ulen cs fs = (st, cs', fs')"
  shows "tracked cs' fs' (k + 1)"
proof -
  note si = packs_inv_simps [OF inv]
  obtain ss dir txn xs where ss: "eb_pack_shards cs = Some ss" "shards_ok (pack_files fs) ss dir txn xs n"
    and at: "dir = PacksDir cs" "txn = append_txn_id cs"
    by (rule packs_invD [OF inv])
  let ?hdr = "append_header hash (length pl) ulen (codec_byte codec)" and ?i = "IndexShardForHash hash"
  obtain res ss1 pf where s: "shards_AppendRecord (pk_io io) hash pl ulen (codec_byte codec) (pack_files fs) ss = (res, ss1, pf)"
    by (metis prod_cases3)
  obtain ref where r: "res = Inr ref" "pack_path ref \<noteq> []"
    "shards_ok pf ss1 dir txn (xs(?i := insert (ref, ?hdr, pl) (xs ?i))) (n + 1)"
    using shards_append [OF si(1) ss(2) n _ _ s] wf by (auto simp: record_request_wf_def)
  have i: "?i < 16" by (rule IndexShardForHash_less)
  have inv1: "pack_inv pf (ss1 ! ?i) (insert (ref, ?hdr, pl) (xs ?i)) (n + 1)" "pack_file (ss1 ! ?i) = pack_names dir txn ?i"
    using r(3) i by (auto simp: shards_ok_def)
  obtain s0 where p: "pack_path ref = path_join (PacksDir cs) (MakePackName txn s0 (word_of_nat ?i))"
    using pack_inv_path [OF inv1(1), of "(ref, ?hdr, pl)"] unfolding inv1(2) at(1) pack_names_def by auto
  let ?name = "MakePackName txn s0 (word_of_nat ?i)"
  obtain w where "AppendRecord (pk_io io) hash pl ulen (codec_byte codec) (pack_files fs) (ss ! ShardForHash hash) = (Inr ref, w, pf)"
    using s r(1) by (auto simp: shards_AppendRecord_def Let_def split: prod.splits)
  note f = AppendRecord_ref [OF this]
  define e where "e = pack_entry hash (ref_offset ref) (word_of_nat (length pl)) ulen (codec_byte codec) ?name"
  have name: "path_filename (pack_path ref) = ?name" unfolding p by (rule path_filename_join [OF MakePackName_chars(1)])
  have "unat (word_of_nat ?i :: u32) < 256" using i by (simp add: unat_of_nat)
  then have en: "entry_pack_name e = ?name"
    unfolding e_def pack_entry_def
    using entry_pack_name_of [OF MakePackName_chars(2) length_MakePackName] by simp
  let ?cs = "cs\<lparr>eb_pack_shards := Some ss1\<rparr>"
  let ?loc = "\<lparr>loc_offset = ref_offset ref, loc_pack_path = pack_path ref, loc_stored_len = word_of_nat (length pl),
      loc_uncompressed_len = ulen, loc_codec = codec_byte codec\<rparr>"
  have cs': "cs' = TrackIndexEntry hash (ref_offset ref) ?hdr (pack_path ref)
      (?cs\<lparr>shard_index := index_put hash ?loc (shard_index ?cs)\<rparr>)" and fs': "fs' = fs\<lparr>pack_files := pf\<rparr>"
    using a si(2) ss(1) s r(1) f by (simp_all add: AppendRecordInternal_def AppendRecordEbPack_def Let_def)
  have loc: "entry_location cs e = ?loc"
    unfolding entry_location_def en p by (simp add: e_def pack_entry_def log_entry_def)
  have ee: "index_entries cs' = index_entries cs @ [e]"
    unfolding cs' TrackIndexEntry_def Let_def name using r(2)
    by (simp add: e_def pack_entry_def log_entry_def append_header_def)
  show ?thesis
  proof (rule tracked_add [OF t _ ee])
    show "canonical e" unfolding e_def using wf by (intro canonical_pack_entry) (simp add: record_request_wf_def)
    have "ent_hash e = hash" by (simp add: e_def pack_entry_def log_entry_def)
    then show "shard_index cs' = index_put (ent_hash e) (entry_location cs e) (shard_index cs)"
      unfolding loc by (simp add: cs' TrackIndexEntry_def Let_def)
    show "if use_ebpack cs' then cs_file_size cs' = log_size fs' else log_file fs' \<noteq> None"
      using t si(2) by (simp add: cs' fs' TrackIndexEntry_def Let_def tracked_def log_size_def)
  qed (use t in \<open>simp_all add: cs' fs' TrackIndexEntry_def Let_def tracked_def\<close>)
qed

section \<open>Saving the index and opening it again\<close>

lemma index_Save_ok: "index_Save io path idx sz es = (st, idx') \<Longrightarrow> status_ok st \<Longrightarrow> idx' = Some (index_image sz es)"
  by (auto simp: index_Save_def split: if_splits)

lemma SavePersistentIndex_ok:
  assumes "SavePersistentIndex io cs fs = (st, fs')" and "status_ok st" and "use_persistent_index cs"
  shows "fs' = fs\<lparr>idx_file := Some (index_image (cs_file_size cs) (index_entries cs))\<rparr>"
proof -
  obtain idx where i: "index_Save (idx_io io) (PathForStore (cs_path cs)) (idx_file fs) (cs_file_size cs) (index_entries cs) = (st, idx)"
    and fs': "fs' = fs\<lparr>idx_file := idx\<rparr>"
    using assms(1,3) by (auto simp: SavePersistentIndex_def split: prod.splits)
  show ?thesis unfolding fs' index_Save_ok [OF i assms(2)] ..
qed

lemma Flush_log_saved:
  assumes "\<not> use_ebpack cs" and f: "Flush io cs fs = (st, cs', fs')" "status_ok st"
    and "use_persistent_index cs" and "\<not> defer_persistent_index_save cs"
  shows "idx_file fs' = Some (index_image (cs_file_size cs') (index_entries cs'))"
proof -
  obtain st1 cs1 fs1 where w: "WriteBufferToSession io True cs fs = (st1, cs1, fs1)" by (metis prod_cases3)
  have ok: "status_ok st1" using assms(1) f w by (auto simp: Flush_def split: if_splits)
  have "moved cs fs cs1 fs1" by (rule WriteBuffer_moved [OF w ok])
  then have p: "use_persistent_index cs1" "\<not> defer_persistent_index_save cs1"
    using assms(4,5) by (simp_all add: moved_def same_settings_def)
  obtain st2 fs2 where s: "SavePersistentIndex io cs1 fs1 = (st2, fs2)" by (cases "SavePersistentIndex io cs1 fs1")
  have "st = st2" "cs' = cs1" "fs' = fs2" using assms(1) f(1) w ok p(2) s by (simp_all add: Flush_def)
  then show ?thesis using SavePersistentIndex_ok [OF s _ p(1)] f(2) by simp
qed

lemma Flush_packs_saved:
  assumes "use_ebpack cs" and "eb_pack_shards cs = Some ss" and f: "Flush io cs fs = (st, cs', fs')" "status_ok st"
    and "use_persistent_index cs" and "\<not> defer_persistent_index_save cs"
  shows "idx_file fs' = Some (index_image (cs_file_size cs') (index_entries cs')) \<and> log_file fs' = log_file fs \<and>
    tomb_file fs' = tomb_file fs \<and> (\<exists>ss'. cs' = cs\<lparr>eb_pack_shards := Some ss'\<rparr>)"
proof -
  obtain st1 ss1 pf where p: "FlushAllOpenPacks (pk_io io) True (pack_files fs) ss = (st1, ss1, pf)" by (metis prod_cases3)
  obtain st2 ss2 where y: "shards_FsyncAll (pk_io io) ss1 = (st2, ss2)" by (cases "shards_FsyncAll (pk_io io) ss1")
  let ?cs = "cs\<lparr>eb_pack_shards := Some ss2\<rparr>" and ?fs = "fs\<lparr>pack_files := pf\<rparr>"
  obtain st3 fs3 where s: "SavePersistentIndex io ?cs ?fs = (st3, fs3)" by (cases "SavePersistentIndex io ?cs ?fs")
  have ok: "status_ok st1" "status_ok st2" using assms p y by (auto simp: Flush_def Let_def split: if_splits)
  have "st = st3" "cs' = ?cs" "fs' = fs3" using assms ok p y s by (simp_all add: Flush_def Let_def)
  then show ?thesis using SavePersistentIndex_ok [OF s] f(2) assms(5) by auto
qed

text \<open>A reader of the same repository: the same path, kind, key, digest and dictionary.\<close>

definition same_reader :: "ChunkStore \<Rightarrow> ChunkStore \<Rightarrow> bool" where
  "same_reader cs rd \<longleftrightarrow> cs_path rd = cs_path cs \<and> use_ebpack rd = use_ebpack cs \<and> cs_content_key rd = cs_content_key cs \<and>
     has_content_key rd = has_content_key cs \<and> cs_digest_algo rd = cs_digest_algo cs \<and> cs_zstd_dict rd = cs_zstd_dict cs"

lemma Open_store_tracked:
  assumes t: "tracked cs fs n" and n: "n < 2 ^ 64" and size: "cs_file_size cs = log_size fs"
    and idx: "idx_file fs = Some (index_image (cs_file_size cs) (index_entries cs))"
    and rd: "cs_path rd = cs_path cs" "use_ebpack rd = use_ebpack cs"
  shows "\<exists>ps eb. Open_store io rd fs = (Status_Ok,
     rd\<lparr>shard_index := shard_index cs, index_entries := index_entries cs, cs_file_size := cs_file_size cs,
       use_persistent_index := ps, use_ebpack := eb, tombstones := {}\<rparr>, fs)"
proof -
  have c: "\<forall>e \<in> set (index_entries cs). canonical e" "length (index_entries cs) < 2 ^ 64" "tomb_file fs = None"
      "use_ebpack cs \<or> log_file fs \<noteq> None" "shard_index cs = index_of_entries cs (index_entries cs)"
    using t n by (auto simp: tracked_def split: if_splits)
  note l = index_Load_image [OF c(1,2), of "PathForStore (cs_path cs)" "cs_file_size cs"]
  let ?rd = "rd\<lparr>use_persistent_index := True, shard_index := replicate kIndexShardCount [], index_entries := [],
                cs_file_size := cs_file_size cs\<rparr>"
  have ix: "index_of_entries (rd\<lparr>use_persistent_index := True\<rparr>) (index_entries cs) = shard_index cs"
    unfolding c(5) using rd(1) by (intro index_of_entries_path) simp
  have ld: "LoadIndex io (rd\<lparr>use_persistent_index := True\<rparr>) fs =
      (Status_Ok, ?rd\<lparr>index_entries := index_entries cs, shard_index := shard_index cs\<rparr>, fs)"
    by (cases "use_ebpack cs"; cases "log_file fs")
      (use c(4) l idx rd ix size in \<open>simp_all add: LoadIndex_def Let_def log_size_def\<close>)
  have set: "(if idx_file fs \<noteq> None then rd\<lparr>use_persistent_index := True\<rparr> else rd) = rd\<lparr>use_persistent_index := True\<rparr>"
    using idx by simp
  show ?thesis
    unfolding Open_store_def Let_def set ld prod.case
    by (intro exI [of _ True] exI [of _ "use_ebpack rd \<or> (\<exists>e \<in> set (index_entries cs). storage_flags e = kChunkStorageEbPack) \<or> pack_seen io"])
      (simp add: LoadTombstones_def c(3))
qed

section \<open>A store whose entries are tracked\<close>

locale indexed_store = store_backend +
  assumes append_tracked: "inv (cs, fs) m n \<Longrightarrow> n < 2 ^ 30 \<Longrightarrow> record_request_wf (hash, pl, codec, ulen) \<Longrightarrow> tracked cs fs n \<Longrightarrow>
      AppendRecordInternal io hash pl codec ulen cs fs = (st, cs', fs') \<Longrightarrow> status_ok st \<Longrightarrow> tracked cs' fs' (n + 1)"
    and flush_tracked: "inv (cs, fs) m n \<Longrightarrow> tracked cs fs n \<Longrightarrow> Flush io cs fs = (st, cs', fs') \<Longrightarrow> status_ok st \<Longrightarrow>
      tracked cs' fs' n \<and> cs_file_size cs' = log_size fs'"
    and flush_saved: "inv (cs, fs) m n \<Longrightarrow> Flush io cs fs = (st, cs', fs') \<Longrightarrow> status_ok st \<Longrightarrow>
      use_persistent_index cs \<Longrightarrow> \<not> defer_persistent_index_save cs \<Longrightarrow>
      idx_file fs' = Some (index_image (cs_file_size cs') (index_entries cs'))"

sublocale indexed_store \<subseteq> traced: store_backend io "\<lambda>s m n. inv s m n \<and> tracked (fst s) (snd s) n" accepts
proof unfold_locales
  fix s m n q st s'
  assume a: "inv s m n \<and> tracked (fst s) (snd s) n" "n < 2 ^ 30" "record_request_wf q" "accepts (fst (req_record q))"
    "store_append io q s = (st, s')" "status_ok st"
  obtain hash pl codec ulen where q: "q = (hash, pl, codec, ulen)" by (cases q)
  obtain cs fs cs' fs' where s: "s = (cs, fs)" "s' = (cs', fs')" by fastforce
  have "AppendRecordInternal io hash pl codec ulen cs fs = (st, cs', fs')" using a(5) by (simp add: store_append_def s q)
  with a have "tracked cs' fs' (n + 1)" unfolding s q fst_conv snd_conv using append_tracked by blast
  moreover have "inv s' (m(req_hash q \<mapsto> req_record q)) (n + 1)" using a by (intro append_map) simp_all
  ultimately show "inv s' (m(req_hash q \<mapsto> req_record q)) (n + 1) \<and> tracked (fst s') (snd s') (n + 1)" by (simp add: s)
next
  fix s m n st s'
  assume a: "inv s m n \<and> tracked (fst s) (snd s) n" "store_flush io s = (st, s')" "status_ok st"
  obtain cs fs cs' fs' where s: "s = (cs, fs)" "s' = (cs', fs')" by fastforce
  have "Flush io cs fs = (st, cs', fs')" using a(2) by (simp add: store_flush_def s)
  with a have "tracked cs' fs' n" unfolding s fst_conv snd_conv using flush_tracked by blast
  then show "(inv s' m n \<and> tracked (fst s') (snd s') n) \<and> (\<forall>hash r. m hash = Some r \<longrightarrow> store_fetch io s' hash = Inr r)"
    using flush_map [of s m n st s'] a by (simp add: s)
next
  fix s m n hash
  assume "inv s m n \<and> tracked (fst s) (snd s) n" "store_present s hash"
  then show "m hash \<noteq> None" using present_map by blast
next
  fix cs fs m n hash pl codec ulen st cs' fs'
  assume "inv (cs, fs) m n \<and> tracked (fst (cs, fs)) (snd (cs, fs)) n" "n < 2 ^ 30" "record_request_wf (hash, pl, codec, ulen)"
    "AppendRecordInternal io hash pl codec ulen cs fs = (st, cs', fs')" "status_ok st"
  then show "same_settings cs cs'" using append_settings by blast
next
  fix cs fs m n st cs' fs'
  assume "inv (cs, fs) m n \<and> tracked (fst (cs, fs)) (snd (cs, fs)) n" "Flush io cs fs = (st, cs', fs')" "status_ok st"
  then show "same_settings cs cs'" using flush_settings by blast
qed

lemma reader_decodes:
  assumes "same_reader cs rd" and "same_settings cs cs1"
  shows "DecodePayload lib (rd\<lparr>shard_index := a, index_entries := b, cs_file_size := c, use_persistent_index := d, use_ebpack := e,
      tombstones := t\<rparr>) = DecodePayload lib cs1"
proof -
  let ?rd = "rd\<lparr>shard_index := a, index_entries := b, cs_file_size := c, use_persistent_index := d, use_ebpack := e, tombstones := t\<rparr>"
  have z: "cs_zstd_dict ?rd = cs_zstd_dict cs1" "cs_content_key ?rd = cs_content_key cs1" "has_content_key ?rd = has_content_key cs1"
    using assms by (simp_all add: same_reader_def same_settings_def)
  have d: "decode_decrypt ?rd = decode_decrypt cs1" using z(2,3) by (simp add: fun_eq_iff decode_decrypt_def)
  show ?thesis by (intro ext) (simp only: DecodePayload_def d z(1))
qed

context indexed_store
begin

text \<open>A reader of the flushed files gets every chunk of the series.\<close>

lemma puts_come_back_reopened:
  assumes law: "zstd_law (pe_zstd env)" "zstd_can_decode (pe_zstd env) (cs_zstd_dict cs)"
    and inv: "inv (cs, fs) m n" "tracked cs fs n" "n + length qs \<le> 2 ^ 30" "holds_chunks (pe_zstd env) cs C m"
    and q: "\<forall>q \<in> set qs. put_ok env cs q \<and> put_accepted accepts env cs q"
    and p: "put_all env io qs cs fs = Some (cs1, fs1)" and f: "Flush io cs1 fs1 = (st, cs2, fs2)" "status_ok st"
    and ix: "use_persistent_index cs" "\<not> defer_persistent_index_save cs"
    and rd: "same_reader cs rd" and qq: "(rand, chunk, options) \<in> set qs"
  shows "\<exists>rd'. Open_store io rd fs2 = (Status_Ok, rd', fs2) \<and>
    (\<exists>chunk' \<in> C \<union> fst ` snd ` set qs. ContentHash (cs_digest_algo cs) chunk' = ContentHash (cs_digest_algo cs) chunk \<and>
      Get (pe_zstd env) io rd' fs2 (ContentHash (cs_digest_algo cs) chunk) = Some (Inr chunk'))"
proof -
  let ?hash = "ContentHash (cs_digest_algo cs) chunk"
  have i0: "inv (cs, fs) m n \<and> tracked (fst (cs, fs)) (snd (cs, fs)) n" using inv by simp
  obtain m' n' where a: "inv (cs1, fs1) m' n'" "tracked cs1 fs1 n'" "holds_chunks (pe_zstd env) cs1 (C \<union> fst ` snd ` set qs) m'"
      "same_settings cs cs1" "n' \<le> 2 ^ 30" "\<forall>(rd, chunk, options) \<in> set qs. m' (ContentHash (cs_digest_algo cs) chunk) \<noteq> None"
    using traced.put_all_map [OF law(1) i0 inv(3,4) law(2) q p] inv(3) unfolding fst_conv snd_conv
    by (meson le_trans)
  note fl = flush_map [OF a(1), of st "(cs2, fs2)"] flush_settings [OF a(1) f] flush_tracked [OF a(1,2) f]
  have r: "m' h = Some r \<Longrightarrow> ReadRecordForHash io cs2 fs2 h = Inr r" for h r
    using fl(1) f by (cases r) (simp add: store_flush_def store_fetch_def)
  have ss: "same_settings cs cs2" by (rule same_settings_trans [OF a(4) fl(2)])
  have ix1: "use_persistent_index cs1" "\<not> defer_persistent_index_save cs1" using a(4) ix by (simp_all add: same_settings_def)
  have path: "cs_path rd = cs_path cs2" "use_ebpack rd = use_ebpack cs2" using rd ss by (simp_all add: same_reader_def same_settings_def)
  have "n' < 2 ^ 64" using a(5) by simp
  from Open_store_tracked [OF conjunct1 [OF fl(3)] this conjunct2 [OF fl(3)] flush_saved [OF a(1) f ix1] path]
  obtain ps eb where o: "Open_store io rd fs2 = (Status_Ok, rd\<lparr>shard_index := shard_index cs2, index_entries := index_entries cs2,
      cs_file_size := cs_file_size cs2, use_persistent_index := ps, use_ebpack := eb, tombstones := {}\<rparr>, fs2)" by blast
  define rd' where "rd' = rd\<lparr>shard_index := shard_index cs2, index_entries := index_entries cs2,
      cs_file_size := cs_file_size cs2, use_persistent_index := ps, use_ebpack := eb, tombstones := {}\<rparr>"
  have read: "ReadRecordForHash io rd' fs2 h = ReadRecordForHash io cs2 fs2 h" for h
  proof -
    have "cs_path rd' = cs_path cs2" using path(1) by (simp add: rd'_def)
    then have "ReadRecordAt io rd' fs2 = ReadRecordAt io cs2 fs2" unfolding fun_eq_iff ReadRecordAt_def by metis
    moreover have "find_loc rd' = find_loc cs2" by (simp add: fun_eq_iff find_loc_def rd'_def)
    ultimately show ?thesis unfolding ReadRecordForHash_def by metis
  qed
  have dec: "DecodePayload lib rd' = DecodePayload lib cs" "cs_digest_algo rd' = cs_digest_algo cs" "tombstones rd' = {}" for lib
    using reader_decodes [OF rd same_settings_refl] rd by (simp_all add: rd'_def same_reader_def)
  obtain hdr pl where hp: "m' ?hash = Some (hdr, pl)" using a(6) qq by fastforce
  obtain chunk' where c: "chunk' \<in> C \<union> fst ` snd ` set qs" "ContentHash (cs_digest_algo cs) chunk' = ?hash"
      "DecodePayload (pe_zstd env) cs hdr pl = Some (Inr chunk')"
    using a(3) hp unfolding holds_chunks_def settings_simps(1,2) [OF a(4)] by (metis fst_conv snd_conv)
  then have "Get (pe_zstd env) io rd' fs2 ?hash = Some (Inr chunk')"
    using r [OF hp] by (simp add: Get_def read dec)
  then show ?thesis using c o unfolding rd'_def by blast
qed

end

interpretation indexed_log: indexed_store io "log_inv io" unambiguous for io
proof unfold_locales
  fix cs fs m n hash pl codec ulen st cs' fs'
  assume inv: "log_inv io (cs, fs) m n" and wf: "record_request_wf (hash, pl, codec, ulen)" and t: "tracked cs fs n"
    and a: "AppendRecordInternal io hash pl codec ulen cs fs = (st, cs', fs')" "status_ok st"
  have "\<not> use_ebpack cs" "length hash = 32" using inv wf by (simp_all add: log_inv_def record_request_wf_def)
  then show "tracked cs' fs' (n + 1)" by (rule AppendRecord_log_tracked [OF t _ _ a])
next
  fix cs fs m n st cs' fs'
  assume inv: "log_inv io (cs, fs) m n" and t: "tracked cs fs n" and f: "Flush io cs fs = (st, cs', fs')" "status_ok st"
  have e: "\<not> use_ebpack cs" "unat (cs_file_size cs) = length (log_bytes cs fs)" using inv by (simp_all add: log_inv_def)
  note fl = Flush_log_moved [OF e(1) f]
  have t': "tracked cs' fs' n" by (rule tracked_moved [OF t fl(1) e(1)])
  have "unat (cs_file_size cs') = length (log_bytes cs' fs')" using e(2) fl(1) by (simp add: moved_def)
  then have "cs_file_size cs' = word_of_nat (length (log_bytes cs' fs'))" by (metis of_nat_unat ucast_id)
  moreover have "log_size fs' = word_of_nat (length (log_bytes cs' fs'))"
    using fl(2) by (simp add: log_size_def log_bytes_def split: option.split)
  ultimately show "tracked cs' fs' n \<and> cs_file_size cs' = log_size fs'" using t' by simp
next
  fix cs fs m n st cs' fs'
  assume "log_inv io (cs, fs) m n" "Flush io cs fs = (st, cs', fs')" "status_ok st" "use_persistent_index cs"
    "\<not> defer_persistent_index_save cs"
  then show "idx_file fs' = Some (index_image (cs_file_size cs') (index_entries cs'))"
    by (intro Flush_log_saved [of cs io fs st cs' fs']) (simp_all add: log_inv_def)
qed

lemma Flush_packs_tracked:
  assumes inv: "packs_inv io (cs, fs) m n" and t: "tracked cs fs k" and f: "Flush io cs fs = (st, cs', fs')" "status_ok st"
  shows "tracked cs' fs' k \<and> cs_file_size cs' = log_size fs'"
proof -
  obtain ss dir txn xs where ss: "eb_pack_shards cs = Some ss" by (rule packs_invD [OF inv])
  note si = packs_inv_simps [OF inv]
  obtain st1 ss1 pf where p: "FlushAllOpenPacks (pk_io io) True (pack_files fs) ss = (st1, ss1, pf)" by (metis prod_cases3)
  obtain st2 ss2 where y: "shards_FsyncAll (pk_io io) ss1 = (st2, ss2)" by (cases "shards_FsyncAll (pk_io io) ss1")
  let ?cs = "cs\<lparr>eb_pack_shards := Some ss2\<rparr>" and ?fs = "fs\<lparr>pack_files := pf\<rparr>"
  obtain st3 fs3 where sv: "SavePersistentIndex io ?cs ?fs = (st3, fs3)" by (cases "SavePersistentIndex io ?cs ?fs")
  have ok: "status_ok st1" "status_ok st2" using si(2) ss f p y by (auto simp: Flush_def Let_def split: if_splits)
  have cs': "cs' = ?cs" and fs': "fs' = ?fs \<or> fs' = fs3"
    using si(2) ss ok f(1) p y sv by (auto simp: Flush_def Let_def split: if_splits)
  have "log_file fs' = log_file fs \<and> tomb_file fs' = tomb_file fs" using fs' SaveIndex_log [OF sv] by auto
  then show ?thesis
    using t si(2) index_of_entries_path [of cs' cs] by (simp add: tracked_def cs' log_size_def)
qed

interpretation indexed_packs: indexed_store io "packs_inv io" "\<lambda>_. True" for io
proof unfold_locales
  fix cs fs m n hash pl codec ulen st cs' fs'
  assume "packs_inv io (cs, fs) m n" "n < 2 ^ 30" "record_request_wf (hash, pl, codec, ulen)" "tracked cs fs n"
    "AppendRecordInternal io hash pl codec ulen cs fs = (st, cs', fs')"
  then show "tracked cs' fs' (n + 1)" by (rule AppendRecord_packs_tracked)
next
  fix cs fs m n st cs' fs'
  assume "packs_inv io (cs, fs) m n" "tracked cs fs n" "Flush io cs fs = (st, cs', fs')" "status_ok st"
  then show "tracked cs' fs' n \<and> cs_file_size cs' = log_size fs'" by (rule Flush_packs_tracked)
next
  fix cs fs m n st cs' fs'
  assume inv: "packs_inv io (cs, fs) m n" and f: "Flush io cs fs = (st, cs', fs')" "status_ok st" "use_persistent_index cs"
    "\<not> defer_persistent_index_save cs"
  obtain ss dir txn xs where ss: "eb_pack_shards cs = Some ss" by (rule packs_invD [OF inv])
  show "idx_file fs' = Some (index_image (cs_file_size cs') (index_entries cs'))"
    using Flush_packs_saved [OF packs_inv_simps(2) [OF inv] ss f] by simp
qed

section \<open>A new store\<close>

text \<open>A store that was just made for an empty repository, with any settings.\<close>

definition fresh_store :: "ChunkStore \<Rightarrow> repo_files \<Rightarrow> bool" where
  "fresh_store cs fs \<longleftrightarrow> shard_index cs = replicate kIndexShardCount [] \<and> index_entries cs = [] \<and> tombstones cs = {} \<and>
     cs_file_size cs = 0 \<and> write_buffer cs = [] \<and> \<not> append_fd cs \<and> \<not> append_session_active cs \<and>
     (log_file fs = None \<or> log_file fs = Some []) \<and> tomb_file fs = None"

lemma fresh_find: "shard_index cs = replicate kIndexShardCount [] \<Longrightarrow> find_loc cs hash = None"
  using IndexShardForHash_less [of hash] by (simp add: find_loc_def kIndexShardCount_def)

lemma fresh_begin:
  assumes fr: "fresh_store cs fs" and b: "BeginAppendSession io cs fs = (st, cs1, fs1)" "status_ok st"
  shows "same_settings cs cs1" and "tracked cs1 fs1 0" and "tombstones cs1 = {}"
    and "\<not> use_ebpack cs \<Longrightarrow> log_read_ok io \<Longrightarrow> log_inv io (cs1, fs1) Map.empty 0"
    and "use_ebpack cs \<Longrightarrow> calm_pack (pk_io io) \<Longrightarrow> packs_inv io (cs1, fs1) Map.empty 0"
proof -
  have l: "cs1 = (if use_ebpack cs
      then cs\<lparr>eb_pack_shards := Some (new_shard_set (PacksDir cs) (append_txn_id cs) (PackFlushBytes cs) (PackFlushRecords cs)),
              append_session_active := True\<rparr>
      else cs\<lparr>append_fd := True, append_session_active := True\<rparr>)"
    and f: "fs1 = (if use_ebpack cs then fs else append_log [] fs)"
    using fr b by (auto simp: fresh_store_def BeginAppendSession_def EnsureAppendSession_def split: if_splits)
  show "same_settings cs cs1" "tombstones cs1 = {}" using fr by (simp_all add: l same_settings_def fresh_store_def)
  show "tracked cs1 fs1 0"
    using fr by (auto simp: l f tracked_def fresh_store_def index_of_entries_def append_log_def log_size_def)
  have sc: "shard_index cs = replicate kIndexShardCount []" using fr by (simp add: fresh_store_def)
  then have sh: "shard_index cs1 = replicate kIndexShardCount []" by (simp add: l)
  show "log_inv io (cs1, fs1) Map.empty 0" if "\<not> use_ebpack cs" "log_read_ok io"
    using that fr fresh_find [OF sh] by (auto simp: l f log_inv_def log_bytes_def append_log_def fresh_store_def kIndexShardCount_def)
  let ?ss = "new_shard_set (PacksDir cs) (append_txn_id cs) (PackFlushBytes cs) (PackFlushRecords cs)"
  show "packs_inv io (cs1, fs1) Map.empty 0" if "use_ebpack cs" "calm_pack (pk_io io)"
  proof (rule packs_invI [where ss = ?ss and xs = "\<lambda>_. {}" and dir = "PacksDir cs" and txn = "append_txn_id cs"])
    show "shards_ok (pack_files fs1) ?ss (PacksDir cs) (append_txn_id cs) (\<lambda>_. {}) 0"
      using new_writer_inv by (simp add: shards_ok_def new_shard_set_def kShardCount_def pack_names_def pack_file_def
          SetSpillThresholds_def new_writer_def fun_eq_iff)
  qed (use that fresh_find [OF sh] in \<open>simp_all add: l sc kIndexShardCount_def PacksDir_def packs_found_def\<close>)
qed

section \<open>The store over its life\<close>

text \<open>
  What is asked of a series of puts: at most \<open>2 ^ 30\<close> of them, no chunk beyond LZ4's limit, a payload that the
  store's own key and dictionary can read, and in the log no header that passes for a version 1 header.
\<close>

definition puts_ok :: "put_env \<Rightarrow> ChunkStore \<Rightarrow> put_request_data list \<Rightarrow> bool" where
  "puts_ok env cs qs \<longleftrightarrow> length qs \<le> 2 ^ 30 \<and>
     list_all (\<lambda>q. put_ok env cs q \<and> (use_ebpack cs \<or> put_accepted unambiguous env cs q)) qs"

text \<open>The place the records go to can be read, and creates and fills packs without a fault.\<close>

definition place_ok :: "store_io \<Rightarrow> ChunkStore \<Rightarrow> bool" where
  "place_ok io cs = (if use_ebpack cs then calm_pack (pk_io io) else log_read_ok io)"

text \<open>The library keeps its promise and has what the store's reader needs.\<close>

definition zstd_ok :: "put_env \<Rightarrow> ChunkStore \<Rightarrow> bool" where
  "zstd_ok env cs \<longleftrightarrow> zstd_law (pe_zstd env) \<and> zstd_can_decode (pe_zstd env) (cs_zstd_dict cs)"

lemma holds_none: "holds_chunks lib cs {} Map.empty"
  by (simp add: holds_chunks_def)

lemma puts_ok_settings:
  assumes "puts_ok env cs qs" and "same_settings cs cs0"
  shows "\<forall>q \<in> set qs. put_ok env cs0 q \<and> put_accepted (\<lambda>_. True) env cs0 q"
    and "\<not> use_ebpack cs \<Longrightarrow> \<forall>q \<in> set qs. put_ok env cs0 q \<and> put_accepted unambiguous env cs0 q"
  using assms put_ok_settings [OF assms(2)] put_accepted_settings [OF assms(2)]
  by (auto simp: puts_ok_def list_all_iff put_accepted_def split: option.split sum.split)

text \<open>
  C3. What is put is there. Take a new store, of the log or of packs, and a series of at most \<open>2 ^ 30\<close> puts, each with
  its own compression mode, tier, level and choice of encryption, of chunks no longer than LZ4 takes. Encrypted
  puts use the key of the store, and a put whose payload becomes a Zstandard frame uses the dictionary of the store;
  the others may use any or none. In the log, no record header's first 40 bytes pass by chance as a version 1
  header. Packs are created and written without a failure, and the log can be read. If a session is begun, the series of puts succeeds and the flush at the end
  succeeds, then every chunk of the series is got back under its hash, or another chunk of the series with
  the same hash. The Zstandard library is a parameter whose documented round trip is assumed, and that
  it can create a decompression context and load the dictionary.
\<close>

theorem put_flush_get:
  assumes "fresh_store cs fs" and "place_ok io cs" and "zstd_ok env cs" and "puts_ok env cs qs"
    and "BeginAppendSession io cs fs = (st0, cs0, fs0)" and "status_ok st0"
    and "put_all env io qs cs0 fs0 = Some (cs1, fs1)"
    and "Flush io cs1 fs1 = (st, cs2, fs2)" and "status_ok st"
    and "(rand, chunk, options) \<in> set qs"
  shows "\<exists>chunk' \<in> fst ` snd ` set qs. ContentHash (cs_digest_algo cs) chunk' = ContentHash (cs_digest_algo cs) chunk \<and>
    Get (pe_zstd env) io cs2 fs2 (ContentHash (cs_digest_algo cs) chunk) = Some (Inr chunk')"
proof -
  note b = fresh_begin [OF assms(1,5,6)]
  note k = settings_simps [OF b(1)]
  have z: "zstd_law (pe_zstd env)" "zstd_can_decode (pe_zstd env) (cs_zstd_dict cs0)" "0 + length qs \<le> 2 ^ 30"
    using assms(3,4) k by (simp_all add: zstd_ok_def puts_ok_def)
  have "\<exists>chunk' \<in> {} \<union> fst ` snd ` set qs. ContentHash (cs_digest_algo cs0) chunk' = ContentHash (cs_digest_algo cs0) chunk \<and>
    Get (pe_zstd env) io cs2 fs2 (ContentHash (cs_digest_algo cs0) chunk) = Some (Inr chunk')"
  proof (cases "use_ebpack cs")
    case True
    show ?thesis
      by (rule packs_store.puts_come_back [OF z(1,2) b(5) [OF True] z(3) holds_none b(3) puts_ok_settings(1) [OF assms(4) b(1)] assms(7-10)])
        (use True assms(2) in \<open>simp add: place_ok_def\<close>)
  next
    case False
    show ?thesis
      by (rule log_store.puts_come_back [OF z(1,2) b(4) [OF False] z(3) holds_none b(3) puts_ok_settings(2) [OF assms(4) b(1) False] assms(7-10)])
        (use False assms(2) in \<open>simp add: place_ok_def\<close>)
  qed
  then show ?thesis unfolding k(2) by simp
qed

text \<open>
  C4. What is put is there after a restart. Take a new store and a series of puts as for reading from the store itself: at
  most \<open>2 ^ 30\<close> puts, chunks no longer than LZ4 takes, encryption with the key of the store, the dictionary of the
  store for every payload that becomes a Zstandard frame, in the log no header that passes by chance as
  version 1, packs created and written without a failure, a log that can be read, and a Zstandard library with
  its documented round trip that can load the dictionary. If it keeps a persistent index and saves it with the flush, then another store opened
  on the files that the flush left, with the same path, kind, digest, key and dictionary, opens without an error and
  gets back every chunk of the series under its hash, or another chunk of the series with the same hash.
\<close>

theorem put_flush_open_get:
  assumes "fresh_store cs fs" and "place_ok io cs" and "zstd_ok env cs" and "puts_ok env cs qs"
    and "use_persistent_index cs" and "\<not> defer_persistent_index_save cs" and "same_reader cs rd"
    and "BeginAppendSession io cs fs = (st0, cs0, fs0)" and "status_ok st0"
    and "put_all env io qs cs0 fs0 = Some (cs1, fs1)"
    and "Flush io cs1 fs1 = (st, cs2, fs2)" and "status_ok st"
    and "(rand, chunk, options) \<in> set qs"
  shows "\<exists>rd'. Open_store io rd fs2 = (Status_Ok, rd', fs2) \<and>
    (\<exists>chunk' \<in> fst ` snd ` set qs. ContentHash (cs_digest_algo cs) chunk' = ContentHash (cs_digest_algo cs) chunk \<and>
      Get (pe_zstd env) io rd' fs2 (ContentHash (cs_digest_algo cs) chunk) = Some (Inr chunk'))"
proof -
  note b = fresh_begin [OF assms(1,8,9)]
  note k = settings_simps [OF b(1)]
  have z: "zstd_law (pe_zstd env)" "zstd_can_decode (pe_zstd env) (cs_zstd_dict cs0)" "0 + length qs \<le> 2 ^ 30"
    using assms(3,4) k by (simp_all add: zstd_ok_def puts_ok_def)
  have x: "use_persistent_index cs0" "\<not> defer_persistent_index_save cs0" "same_reader cs0 rd"
    using assms(5-7) b(1) by (simp_all add: same_settings_def same_reader_def)
  have "\<exists>rd'. Open_store io rd fs2 = (Status_Ok, rd', fs2) \<and>
    (\<exists>chunk' \<in> {} \<union> fst ` snd ` set qs. ContentHash (cs_digest_algo cs0) chunk' = ContentHash (cs_digest_algo cs0) chunk \<and>
      Get (pe_zstd env) io rd' fs2 (ContentHash (cs_digest_algo cs0) chunk) = Some (Inr chunk'))"
  proof (cases "use_ebpack cs")
    case True
    show ?thesis
      by (rule indexed_packs.puts_come_back_reopened [OF z(1,2) b(5) [OF True] b(2) z(3) holds_none
            puts_ok_settings(1) [OF assms(4) b(1)] assms(10-12) x assms(13)])
        (use True assms(2) in \<open>simp add: place_ok_def\<close>)
  next
    case False
    show ?thesis
      by (rule indexed_log.puts_come_back_reopened [OF z(1,2) b(4) [OF False] b(2) z(3) holds_none
            puts_ok_settings(2) [OF assms(4) b(1) False] assms(10-12) x assms(13)])
        (use False assms(2) in \<open>simp add: place_ok_def\<close>)
  qed
  then show ?thesis unfolding k(2) by simp
qed

section \<open>With packs and no faults nothing fails\<close>

definition all_synced :: "pack_io \<Rightarrow> bool" where
  "all_synced io \<longleftrightarrow> calm_pack io \<and> (\<forall>p. fsync_path io p = Status_Ok)"

lemma FlushAll_ok: "all_synced io \<Longrightarrow> \<forall>w \<in> set ws. filled fs w \<Longrightarrow> status_ok (fst (FlushAllOpenPacks io b fs ws))"
proof (induction ws arbitrary: fs)
  case (Cons w ws)
  obtain st1 w1 fs1 where f: "FlushOpenPack io b fs w = (st1, w1, fs1)" by (metis prod_cases3)
  have t: "torn_write io = None" "\<forall>p. fsync_path io p = Status_Ok" using Cons.prems(1) by (simp_all add: all_synced_def calm_pack_def)
  have "st1 = Status_Ok" using f FinalizeOpenPack_ok [OF t(1) _ t(2), of fs w b] Cons.prems(2) by (simp add: FlushOpenPack_def)
  moreover have "\<forall>v \<in> set ws. filled fs1 v"
    using FinalizeOpenPack_filled [OF t(1) _ f [unfolded FlushOpenPack_def]] Cons.prems(2) by simp
  ultimately show ?case
    using f Cons.IH [OF Cons.prems(1), of fs1] by (cases "FlushAllOpenPacks io b fs1 ws") simp
qed simp

lemma fsync_written_ok: "all_synced io \<Longrightarrow> fst (fsync_written io ps w) = Status_Ok"
  by (induction ps arbitrary: w) (simp_all add: all_synced_def)

lemma shards_FsyncAll_ok: "all_synced io \<Longrightarrow> status_ok (fst (shards_FsyncAll io ws))"
proof (induction ws)
  case (Cons w ws)
  obtain w0 where "fsync_written io (written_paths w) w = (Status_Ok, w0)"
    using fsync_written_ok [OF Cons.prems, of "written_paths w" w] by (metis prod.collapse)
  then have "fst (FsyncAll io w) = Status_Ok" using Cons.prems by (simp add: FsyncAll_def all_synced_def)
  then obtain w1 where "FsyncAll io w = (Status_Ok, w1)" by (metis prod.collapse)
  then show ?case using Cons.IH [OF Cons.prems] by (cases "shards_FsyncAll io ws") simp
qed simp

lemma Flush_packs_ok:
  assumes "packs_inv io (cs, fs) m n" and "all_synced (pk_io io)" and "idx_io io = calm_save"
  shows "\<exists>cs' fs'. Flush io cs fs = (Status_Ok, cs', fs')"
proof -
  obtain ss dir txn xs where ss: "eb_pack_shards cs = Some ss" and so: "shards_ok (pack_files fs) ss dir txn xs n"
    by (rule packs_invD [OF assms(1)])
  obtain st1 ss1 pf where p: "FlushAllOpenPacks (pk_io io) True (pack_files fs) ss = (st1, ss1, pf)" by (metis prod_cases3)
  obtain st2 ss2 where y: "shards_FsyncAll (pk_io io) ss1 = (st2, ss2)" by (cases "shards_FsyncAll (pk_io io) ss1")
  have "\<forall>w \<in> set ss. filled (pack_files fs) w"
    using so pack_inv_filled by (fastforce simp: shards_ok_def in_set_conv_nth)
  then have "status_ok st1" "status_ok st2" using FlushAll_ok [OF assms(2), of ss "pack_files fs" True] shards_FsyncAll_ok [OF assms(2), of ss1] p y by (metis fst_conv)+
  then show ?thesis
    using packs_inv_simps(2) [OF assms(1)] ss p y assms(3)
    by (auto simp: Flush_def Let_def SavePersistentIndex_def index_Save_def calm_save_def split: prod.split)
qed

definition put_encodes :: "put_env \<Rightarrow> ChunkStore \<Rightarrow> put_request_data \<Rightarrow> bool" where
  "put_encodes env cs q \<longleftrightarrow> (case q of (rd, chunk, options) \<Rightarrow>
     \<exists>stored codec ulen caller. encode_payload (env\<lparr>pe_random := rd\<rparr>) cs chunk options = Some (Inr (stored, codec, ulen), caller) \<and>
       length stored < 2 ^ 32)"

lemma put_all_packs:
  "packs_inv io (cs, fs) m n \<Longrightarrow> n + length qs \<le> 2 ^ 30 \<Longrightarrow> \<forall>q \<in> set qs. put_encodes env cs q \<Longrightarrow>
     \<exists>cs' fs' m' n'. put_all env io qs cs fs = Some (cs', fs') \<and> packs_inv io (cs', fs') m' n'"
proof (induction qs arbitrary: cs fs m n)
  case (Cons q qs)
  obtain rd chunk options where q: "q = (rd, chunk, options)" by (cases q)
  let ?hash = "ContentHash (cs_digest_algo cs) chunk"
  obtain stored codec ulen caller where e: "encode_payload (env\<lparr>pe_random := rd\<rparr>) cs chunk options = Some (Inr (stored, codec, ulen), caller)"
      "length stored < 2 ^ 32"
    using Cons.prems(3) by (auto simp: put_encodes_def q)
  show ?case
  proof (cases "Exists cs ?hash")
    case True
    then show ?thesis using Cons.IH [OF Cons.prems(1)] Cons.prems by (simp add: q Put_def PutKnownHash_def Let_def)
  next
    case False
    obtain st cs1 fs1 where a: "AppendRecordInternal io ?hash stored codec ulen cs fs = (st, cs1, fs1)" by (metis prod_cases3)
    have n: "n < 2 ^ 30" using Cons.prems(2) by simp
    have "record_request_wf (?hash, stored, codec, ulen)" using e(2) by (simp add: record_request_wf_def)
    note s = AppendRecord_packs [OF Cons.prems(1) n this a]
    have "encode_payload v cs1 = encode_payload v cs" for v using s settings_simps(3) by blast
    then have "\<forall>q \<in> set qs. put_encodes env cs1 q" using Cons.prems(3) by (simp add: put_encodes_def)
    then show ?thesis
      using Cons.IH [OF conjunct1 [OF s]] Cons.prems(2) False a e(1) s by (simp add: q Put_def PutKnownHash_def Let_def)
  qed
qed auto

text \<open>A library that only compresses runs of one byte, and forgets the dictionary.\<close>

definition run_lib :: zstd_lib where
  "run_lib = (let enc = (\<lambda>x. if x \<noteq> [] \<and> x = replicate (length x) (hd x) then Some [hd x] else None);
                  dec = (\<lambda>y n. Some (replicate n (hd y)))
     in \<lparr>zstd_bound = \<lambda>n. Some n, zstd_createCCtx = True, zstd_set_level = \<lambda>_. True, zstd_set_ldm = True,
         zstd_load_cdict = \<lambda>_. True, zstd_compress2 = \<lambda>_ _ _ x. enc x, zstd_createCDict = \<lambda>_ _. True,
         zstd_compress_usingCDict = \<lambda>_ x. enc x, zstd_createDCtx = True, zstd_createDDict = \<lambda>_. True,
         zstd_decompress_usingDDict = \<lambda>_ y n. dec y n, zstd_load_ddict = \<lambda>_. True, zstd_decompressDCtx = \<lambda>_ y n. dec y n\<rparr>)"

lemma run_lib_law: "zstd_law run_lib" "zstd_can_decode run_lib dict"
  by (auto simp: zstd_law_def run_lib_def Let_def zstd_can_decode_def split: if_splits)

definition sample_env :: put_env where
  "sample_env = \<lparr>pe_zstd = run_lib, pe_entropy = (\<lambda>_. 0), pe_random = (\<lambda>_. 0)\<rparr>"

definition sample_store :: ChunkStore where
  "sample_store = (new_store ''repo/chunks'')\<lparr>use_ebpack := True, use_persistent_index := True, append_txn_id := 5,
     cs_content_key := replicate 32 7, has_content_key := True, cs_zstd_dict := [5]\<rparr>"

definition sample_files :: repo_files where
  "sample_files = \<lparr>log_file = None, idx_file = None, tomb_file = None, pack_files = Map.empty\<rparr>"

definition sample_io :: store_io where
  "sample_io = \<lparr>log_open_ok = True, log_torn = None, log_fsync = Status_Ok, log_read_ok = True, log_resize_ok = True,
     tomb_read_ok = True, tomb_open_ok = True, tomb_torn = None, tomb_fsync = Status_Ok, pack_seen = True,
     idx_io = calm_save, pk_io = calm_io\<rparr>"

definition sample_options :: ChunkStorePutOptions where
  "sample_options = \<lparr>po_use_lz4 = False, po_use_encryption = True, po_content_key = None, po_compress_mode = kModeZstd,
     po_tier = kTierFast, po_level = 0, po_use_zstd_dict = True, po_budget = 1000, po_path_hint = None, po_stats = None,
     po_zstd_dict = None, po_trainer = None\<rparr>"

text \<open>One put with the dictionary of the store, encrypted, and one of a stored chunk without either.\<close>

definition sample_puts :: "put_request_data list" where
  "sample_puts = [((\<lambda>_. 3), replicate 100 9, Some sample_options), ((\<lambda>_. 4), [1, 2, 3], None)]"

lemma run_block:
  assumes "1 < length x" and "x = replicate (length x) (hd x)"
  shows "\<exists>s'. zstd_block run_lib x level ldm dict cls s = (Status_Ok, True, s') \<and> ce_payload (es_out s') = [hd x]"
proof -
  have "zstd_compress2 run_lib level ldm [] x = Some [hd x]" "zstd_compress_usingCDict run_lib (dict, level) x = Some [hd x]" "x \<noteq> []"
    using assms by (auto simp: run_lib_def Let_def)
  moreover have "zstd_bound run_lib k = Some k" "zstd_createCCtx run_lib" "zstd_set_level run_lib l" "zstd_set_ldm run_lib"
    "zstd_createCDict run_lib d l" for k l d
    by (simp_all add: run_lib_def Let_def)
  ultimately show ?thesis
    using assms(1) by (simp add: zstd_block_def TryZstdEncode_def ZstdCompressEx_def CompressWithCtx_def CompressWithCDict_def Let_def
        zstd_win_def apply_zstd_win_def)
qed

lemma run_encode:
  assumes "1 < length (rq_data req)" and "rq_data req = replicate (length (rq_data req)) (hd (rq_data req))"
    and "rq_mode req = kModeZstd"
  shows "\<exists>s'. ContentClassEncode run_lib entropy req stats trainer = Some (Status_Ok, s') \<and> length (ce_payload (es_out s')) = 1"
proof -
  have "rq_data req \<noteq> []" using assms(1) by auto
  then show ?thesis
    using run_block [OF assms(1,2), where dict = "rq_dict req" and level = "ResolveZstdLevel (ClassifyContent entropy (rq_data req) (rq_path_hint req)) (ResolveTierParams (rq_tier req) (rq_level req))"
        and ldm = "ShouldEnableLdm (length (rq_data req)) (ResolveTierParams (rq_tier req) (rq_level req))"
        and cls = "ClassifyContent entropy (rq_data req) (rq_path_hint req)"
        and s = "\<lparr>es_out = \<lparr>ce_payload = [], ce_codec = kRaw, ce_uncompressed_len = word_of_nat (length (rq_data req))\<rparr>, es_stats = stats, es_trainer = trainer\<rparr>"]
      assms(3)
    by (auto simp: ContentClassEncode_def Let_def ShouldTryZstdFirst_def)
qed

lemma sample_encodes: "q \<in> set sample_puts \<Longrightarrow> put_encodes sample_env sample_store q"
proof -
  have a: "put_encodes sample_env sample_store ((\<lambda>_. 3), replicate 100 9, Some sample_options)"
  proof -
    let ?env = "sample_env\<lparr>pe_random := (\<lambda>_. 3)\<rparr>" and ?x = "replicate 100 (9 :: byte)"
    have o: "po_use_encryption sample_options" "po_content_key sample_options = None" "po_stats sample_options = None"
      "ResolveCompressMode (Some sample_options) = kModeZstd"
      by (simp_all add: sample_options_def ResolveCompressMode_def)
    have r: "rq_data (put_request sample_store ?x (Some sample_options)) = ?x"
      "rq_mode (put_request sample_store ?x (Some sample_options)) = kModeZstd"
      using o by (simp_all add: put_request_def)
    have h: "hd ?x = 9" "pe_zstd ?env = run_lib" "has_content_key sample_store"
      by (simp_all add: hd_replicate sample_env_def sample_store_def)
    obtain s' where "ContentClassEncode run_lib (pe_entropy ?env) (put_request sample_store ?x (Some sample_options)) None
        (put_trainer (Some sample_options)) = Some (Status_Ok, s')" "length (ce_payload (es_out s')) = 1"
      using run_encode [of "put_request sample_store ?x (Some sample_options)"] unfolding r h(1) by fastforce
    then show ?thesis
      unfolding put_encodes_def prod.case encode_payload_def Let_def h(2) option.case o
      using h(3) by (simp add: length_GcmEncrypt)
  qed
  have b: "put_encodes sample_env sample_store ((\<lambda>_. 4), [1, 2, 3], None)"
    by (simp add: put_encodes_def encode_payload_def Let_def put_request_def ResolveCompressMode_def put_trainer_def
        ContentClassEncode_def)
  show "q \<in> set sample_puts \<Longrightarrow> ?thesis" using a b by (auto simp: sample_puts_def)
qed

lemma sample_run:
  "fresh_store sample_store sample_files" "place_ok sample_io sample_store" "zstd_ok sample_env sample_store"
  "puts_ok sample_env sample_store sample_puts"
  "\<exists>cs0 cs1 fs1 cs2 fs2. BeginAppendSession sample_io sample_store sample_files = (Status_Ok, cs0, sample_files) \<and>
     put_all sample_env sample_io sample_puts cs0 sample_files = Some (cs1, fs1) \<and> Flush sample_io cs1 fs1 = (Status_Ok, cs2, fs2)"
proof -
  show fr: "fresh_store sample_store sample_files"
    by (simp add: fresh_store_def sample_store_def new_store_def sample_files_def)
  have sync: "all_synced (pk_io sample_io)" "idx_io sample_io = calm_save"
    by (simp_all add: all_synced_def sample_io_def calm_io_def calm_pack_def)
  have e: "use_ebpack sample_store" by (simp add: sample_store_def)
  show "place_ok sample_io sample_store" using sync e by (simp add: place_ok_def all_synced_def)
  show "zstd_ok sample_env sample_store" by (simp add: zstd_ok_def sample_env_def run_lib_law)
  have "same_dict sample_store (Some sample_options) codec" for codec
    by (simp add: same_dict_def put_request_def sample_options_def)
  then have o: "put_ok sample_env sample_store ((\<lambda>_. 3), replicate 100 9, Some sample_options)"
    by (auto simp: put_ok_def same_key_def sample_options_def sample_store_def LZ4_MAX_INPUT_SIZE_def split: option.splits sum.splits)
  have "put_ok sample_env sample_store ((\<lambda>_. 4), [1, 2, 3], None)"
    by (simp add: put_ok_def same_key_def same_dict_def LZ4_MAX_INPUT_SIZE_def encode_payload_def Let_def put_request_def
        ResolveCompressMode_def put_trainer_def ContentClassEncode_def)
  with o show "puts_ok sample_env sample_store sample_puts"
    using e by (simp add: puts_ok_def sample_puts_def)
  obtain cs0 where b: "BeginAppendSession sample_io sample_store sample_files = (Status_Ok, cs0, sample_files)"
    using e by (simp add: BeginAppendSession_def sample_store_def new_store_def)
  note fb = fresh_begin [OF fr b, simplified]
  have "packs_inv sample_io (cs0, sample_files) Map.empty 0" using fb(5) e sync(1) by (simp add: all_synced_def)
  moreover have "\<forall>q \<in> set sample_puts. put_encodes sample_env cs0 q"
    using sample_encodes settings_simps(3) [OF fb(1)] by (simp add: put_encodes_def)
  ultimately obtain cs1 fs1 m1 n1 where p: "put_all sample_env sample_io sample_puts cs0 sample_files = Some (cs1, fs1)"
      "packs_inv sample_io (cs1, fs1) m1 n1"
    using put_all_packs [of sample_io cs0 sample_files Map.empty 0 sample_puts sample_env] by (auto simp: sample_puts_def)
  show "\<exists>cs0 cs1 fs1 cs2 fs2. BeginAppendSession sample_io sample_store sample_files = (Status_Ok, cs0, sample_files) \<and>
     put_all sample_env sample_io sample_puts cs0 sample_files = Some (cs1, fs1) \<and> Flush sample_io cs1 fs1 = (Status_Ok, cs2, fs2)"
    using b p(1) Flush_packs_ok [OF p(2) sync] by blast
qed

lemma sample_digest: "cs_digest_algo sample_store = kLegacy" "pe_zstd sample_env = run_lib"
  by (simp_all add: sample_store_def new_store_def sample_env_def)

lemma sample_mem: "((\<lambda>_. 3), replicate 100 9, Some sample_options) \<in> set sample_puts"
  by (simp add: sample_puts_def)

theorem put_flush_get_witness:
  "\<exists>cs0 cs1 fs1 cs2 fs2. BeginAppendSession sample_io sample_store sample_files = (Status_Ok, cs0, sample_files) \<and>
     put_all sample_env sample_io sample_puts cs0 sample_files = Some (cs1, fs1) \<and> Flush sample_io cs1 fs1 = (Status_Ok, cs2, fs2) \<and>
     (\<exists>chunk' \<in> fst ` snd ` set sample_puts. ContentHash kLegacy chunk' = ContentHash kLegacy (replicate 100 9) \<and>
        Get run_lib sample_io cs2 fs2 (ContentHash kLegacy (replicate 100 9)) = Some (Inr chunk'))"
proof -
  obtain cs0 cs1 fs1 cs2 fs2 where r: "BeginAppendSession sample_io sample_store sample_files = (Status_Ok, cs0, sample_files)"
    "put_all sample_env sample_io sample_puts cs0 sample_files = Some (cs1, fs1)" "Flush sample_io cs1 fs1 = (Status_Ok, cs2, fs2)"
    using sample_run(5) by blast
  from put_flush_get [OF sample_run(1-4) r(1) _ r(2,3) _ sample_mem] show ?thesis
    unfolding sample_digest using r by (intro exI conjI) simp_all
qed

theorem put_flush_open_get_witness:
  "\<exists>cs0 cs1 fs1 cs2 fs2 rd'. BeginAppendSession sample_io sample_store sample_files = (Status_Ok, cs0, sample_files) \<and>
     put_all sample_env sample_io sample_puts cs0 sample_files = Some (cs1, fs1) \<and> Flush sample_io cs1 fs1 = (Status_Ok, cs2, fs2) \<and>
     Open_store sample_io sample_store fs2 = (Status_Ok, rd', fs2) \<and>
     (\<exists>chunk' \<in> fst ` snd ` set sample_puts. ContentHash kLegacy chunk' = ContentHash kLegacy (replicate 100 9) \<and>
        Get run_lib sample_io rd' fs2 (ContentHash kLegacy (replicate 100 9)) = Some (Inr chunk'))"
proof -
  obtain cs0 cs1 fs1 cs2 fs2 where r: "BeginAppendSession sample_io sample_store sample_files = (Status_Ok, cs0, sample_files)"
    "put_all sample_env sample_io sample_puts cs0 sample_files = Some (cs1, fs1)" "Flush sample_io cs1 fs1 = (Status_Ok, cs2, fs2)"
    using sample_run(5) by blast
  have i: "use_persistent_index sample_store" "\<not> defer_persistent_index_save sample_store" "same_reader sample_store sample_store"
    by (simp_all add: sample_store_def new_store_def same_reader_def)
  from put_flush_open_get [OF sample_run(1-4) i r(1) _ r(2,3) _ sample_mem] obtain rd' where
    "Open_store sample_io sample_store fs2 = (Status_Ok, rd', fs2)"
    "\<exists>chunk' \<in> fst ` snd ` set sample_puts. ContentHash kLegacy chunk' = ContentHash kLegacy (replicate 100 9) \<and>
        Get run_lib sample_io rd' fs2 (ContentHash kLegacy (replicate 100 9)) = Some (Inr chunk')"
    unfolding sample_digest by auto
  then show ?thesis using r by (intro exI conjI)
qed

end
