(* ===== verification/ChunkFaults.thy ===== *)
theory ChunkFaults
  imports ChunkReopen
begin

text \<open>
  What the chunk store does when something went wrong: a put whose write fails, a chunk that is put again
  after it was tombstoned, and a log whose last record was cut by a crash.
\<close>

section \<open>A write that fails\<close>

lemma PutKnownHash_there: "Exists cs hash \<Longrightarrow> \<exists>caller. PutKnownHash env io chunk hash options cs fs = Some (Inr False, caller, cs, fs)"
  by (simp add: PutKnownHash_def Let_def)

lemma Put_there:
  "Exists cs (ContentHash (cs_digest_algo cs) chunk) \<Longrightarrow>
     \<exists>caller. Put env io chunk options cs fs = Some (ContentHash (cs_digest_algo cs) chunk, Inr False, caller, cs, fs)"
  using PutKnownHash_there [of cs "ContentHash (cs_digest_algo cs) chunk" env io chunk options fs] by (auto simp: Put_def Let_def)

lemma buffer_record_log:
  "append_fd (buffer_record hash pl codec ulen cs) = append_fd cs" "use_ebpack (buffer_record hash pl codec ulen cs) = use_ebpack cs"
  "write_buffer (buffer_record hash pl codec ulen cs) =
     write_buffer cs @ v2_bytes (append_header hash (length pl) ulen (codec_byte codec)) @ pl"
  "pending_records (buffer_record hash pl codec ulen cs) = pending_records cs + 1"
  "durability_mode (buffer_record hash pl codec ulen cs) = durability_mode cs"
  "append_session_active (buffer_record hash pl codec ulen cs) = append_session_active cs"
  "tombstones (buffer_record hash pl codec ulen cs) = tombstones cs"
  "cs_digest_algo (buffer_record hash pl codec ulen cs) = cs_digest_algo cs"
  by (simp_all add: buffer_record_def TrackIndexEntry_def Let_def)

lemma find_loc_buffer:
  "length (shard_index cs) = 16 \<Longrightarrow> find_loc (buffer_record hash pl codec ulen cs) hash =
     Some \<lparr>loc_offset = cs_file_size cs, loc_pack_path = [], loc_stored_len = word_of_nat (length pl),
       loc_uncompressed_len = ulen, loc_codec = codec_byte codec\<rparr>"
  using find_loc_put [OF _ buffer_record_simps(1), of cs hash pl codec ulen hash] by simp

lemma MaybeFlush_torn:
  "append_session_active c \<Longrightarrow> append_fd c \<Longrightarrow> \<not> (length (write_buffer c) < PackFlushBytes c \<and> pending_records c < PackFlushRecords c) \<Longrightarrow>
     write_buffer c \<noteq> [] \<Longrightarrow> log_torn io = Some k \<Longrightarrow>
     MaybeFlushPack io c fs = (IoError ''chunk write failed'', c, append_log (take k (write_buffer c)) fs)"
  by (simp add: MaybeFlushPack_def WriteBufferToSession_def Let_def) blast

lemma Flush_log_appends:
  assumes "append_fd c" and "\<not> use_ebpack c" and "write_buffer c \<noteq> []" and "log_torn io = None"
  shows "\<exists>st c2 fs2. Flush io c fs = (st, c2, fs2) \<and> log_file fs2 = log_file (append_log (write_buffer c) fs)"
proof -
  let ?c1 = "c\<lparr>write_buffer := [], pending_records := 0\<rparr>" and ?f1 = "append_log (write_buffer c) fs"
  have w: "WriteBufferToSession io True c fs = (log_fsync io, ?c1, ?f1)"
    using assms by (simp add: WriteBufferToSession_def Let_def)
  obtain st3 f3 where s: "SavePersistentIndex io ?c1 ?f1 = (st3, f3)" by (cases "SavePersistentIndex io ?c1 ?f1")
  have "log_file f3 = log_file ?f1" using SaveIndex_log [OF s] by blast
  then show ?thesis unfolding Flush_def using assms(2) w s by simp
qed

lemma v2_bytes_ne: "v2_bytes h \<noteq> []"
  by (auto simp: v2_bytes_def dest!: arg_cong [of _ _ length])

text \<open>The state in the middle of a session in which the next record makes a write due.\<close>

definition write_due :: "ChunkStore \<Rightarrow> nat \<Rightarrow> bool" where
  "write_due cs len \<longleftrightarrow> append_session_active cs \<and> append_fd cs \<and> \<not> use_ebpack cs \<and> length (shard_index cs) = 16 \<and>
     (length (write_buffer cs) + len \<ge> PackFlushBytes cs \<or> pending_records cs + 1 \<ge> PackFlushRecords cs)"

text \<open>
  C39. A put whose write fails is not undone. The record is indexed before it is written, so after
  the failed put the store says it has the chunk: trying again reports it as already stored and writes
  nothing. And the buffer is kept whole although its first k bytes are in the log: the next flush that
  works writes it again behind them, so that the record lies k bytes behind the place the
  index has for it.
\<close>

theorem failed_put_is_kept:
  assumes "hash = ContentHash (cs_digest_algo cs) chunk" and "hash \<notin> tombstones cs" and "\<not> Exists cs hash"
    and "encode_payload env cs chunk options = Some (Inr (stored, codec, ulen), caller)"
    and "write_due cs (48 + length stored)" and "log_torn io = Some k"
    and "log_file fs = Some old" and "unat (cs_file_size cs) = length old + length (write_buffer cs)"
  shows "\<exists>cs1 fs1 loc. Put env io chunk options cs fs = Some (hash, Inl (IoError ''chunk write failed''), caller, cs1, fs1) \<and>
    (\<forall>env' io' options'. \<exists>caller'. Put env' io' chunk options' cs1 fs1 = Some (hash, Inr False, caller', cs1, fs1)) \<and>
    find_loc cs1 hash = Some loc \<and> unat (loc_offset loc) = length (old @ write_buffer cs) \<and>
    (\<forall>io'. log_torn io' = None \<longrightarrow> (\<exists>st cs2 fs2. Flush io' cs1 fs1 = (st, cs2, fs2) \<and>
       log_file fs2 = Some (old @ take k (write_buffer cs1) @ write_buffer cs @
         v2_bytes (append_header hash (length stored) ulen (codec_byte codec)) @ stored)))"
proof -
  let ?cs = "buffer_record hash stored codec ulen cs"
  have d: "append_session_active cs" "append_fd cs" "\<not> use_ebpack cs" "length (shard_index cs) = 16"
    using assms(5) by (simp_all add: write_due_def)
  have ne: "v2_bytes (append_header hash (length stored) ulen (codec_byte codec)) \<noteq> []"
    by (rule v2_bytes_ne)
  have l: "length (v2_bytes (append_header hash (length stored) ulen (codec_byte codec))) = 48"
    using v2_wf_append_header [of hash] assms(1) by (simp add: v2_layout.enc_length)
  have m: "MaybeFlushPack io ?cs fs = (IoError ''chunk write failed'', ?cs, append_log (take k (write_buffer ?cs)) fs)"
  proof (rule MaybeFlush_torn)
    show "\<not> (length (write_buffer ?cs) < PackFlushBytes ?cs \<and> pending_records ?cs < PackFlushRecords ?cs)"
      using assms(5) l by (auto simp: write_due_def buffer_record_log PackFlushBytes_def PackFlushRecords_def)
  qed (use ne d assms(6) in \<open>simp_all add: buffer_record_log\<close>)
  have p: "Put env io chunk options cs fs = Some (hash, Inl (IoError ''chunk write failed''), caller, ?cs, append_log (take k (write_buffer ?cs)) fs)"
    using assms(1,3,4) d m by (simp add: Put_def PutKnownHash_def Let_def AppendRecordInternal_def buffer_record_log)
  note f = find_loc_buffer [OF d(4), of hash stored codec ulen]
  have "Exists ?cs hash" using f assms(2) by (simp add: Exists_def buffer_record_log)
  then have again: "\<forall>env' io' options'. \<exists>caller'. Put env' io' chunk options' ?cs fs' = Some (hash, Inr False, caller', ?cs, fs')" for fs'
    using Put_there [of ?cs chunk] assms(1) by (simp add: buffer_record_log)
  have fd: "append_fd ?cs" "\<not> use_ebpack ?cs" "write_buffer ?cs \<noteq> []" using d ne by (simp_all add: buffer_record_log)
  have two: "log_file (append_log y (append_log x fs)) = Some (old @ x @ y)" for x y
    using assms(7) by (simp add: append_log_def)
  have flush: "\<exists>st cs2 fs2. Flush io' ?cs (append_log (take k (write_buffer ?cs)) fs) = (st, cs2, fs2) \<and>
      log_file fs2 = Some (old @ take k (write_buffer ?cs) @ write_buffer ?cs)" if t: "log_torn io' = None" for io'
    using Flush_log_appends [OF fd t, of "append_log (take k (write_buffer ?cs)) fs"] unfolding two .
  show ?thesis
    using p again f flush assms(8) by (intro exI [of _ ?cs] exI [of _ "append_log (take k (write_buffer ?cs)) fs"]) (simp add: buffer_record_log)
qed

definition busy_store :: ChunkStore where
  "busy_store = (new_store ''repo/chunks'')\<lparr>append_session_active := True, append_fd := True, pending_records := 31, cs_file_size := 2\<rparr>"

lemma raw_put: "chunk \<noteq> [] \<Longrightarrow> encode_payload env cs chunk None =
    Some (Inr (chunk, kRaw, word_of_nat (length chunk)), Some zero_stats, None)"
  by (simp add: encode_payload_def Let_def put_request_def ResolveCompressMode_def put_trainer_def ContentClassEncode_def)

lemma busy_store_simps:
  "cs_digest_algo busy_store = kLegacy" "tombstones busy_store = {}" "write_buffer busy_store = []" "find_loc busy_store hash = None"
  "write_due busy_store n" "cs_file_size busy_store = 2"
  using fresh_find [of busy_store hash]
  by (simp_all add: busy_store_def new_store_def write_due_def kIndexShardCount_def PackFlushBytes_def PackFlushRecords_def
      kStrictPackFlushRecords_def)

theorem failed_put_is_kept_witness:
  "\<exists>hash cs1 fs1 loc. hash = ContentHash kLegacy [1, 2, 3] \<and>
     Put sample_env (sample_io\<lparr>log_torn := Some 5\<rparr>) [1, 2, 3] None busy_store (sample_files\<lparr>log_file := Some [8, 8]\<rparr>) =
       Some (hash, Inl (IoError ''chunk write failed''), (Some zero_stats, None), cs1, fs1) \<and>
     (\<exists>caller'. Put sample_env sample_io [1, 2, 3] None cs1 fs1 = Some (hash, Inr False, caller', cs1, fs1)) \<and>
     find_loc cs1 hash = Some loc \<and> unat (loc_offset loc) = length ([8, 8] @ write_buffer busy_store) \<and>
     (\<exists>st cs2 fs2. Flush sample_io cs1 fs1 = (st, cs2, fs2) \<and> log_file fs2 = Some ([8, 8] @ take 5 (write_buffer cs1) @
        write_buffer busy_store @ v2_bytes (append_header hash (length [1 :: byte, 2, 3]) 3 (codec_byte kRaw)) @ [1, 2, 3]))"
proof -
  define hash where "hash = ContentHash kLegacy [1, 2, 3]"
  have h: "hash = ContentHash (cs_digest_algo busy_store) [1, 2, 3]" "hash \<notin> tombstones busy_store" "\<not> Exists busy_store hash"
    by (simp_all add: busy_store_simps hash_def Exists_def)
  have e: "encode_payload sample_env busy_store [1, 2, 3] None = Some (Inr ([1, 2, 3], kRaw, 3), Some zero_stats, None)"
    by (simp add: raw_put)
  have l: "log_torn (sample_io\<lparr>log_torn := Some 5\<rparr>) = Some 5" "log_file (sample_files\<lparr>log_file := Some [8, 8]\<rparr>) = Some [8, 8]"
    "unat (cs_file_size busy_store) = length [8 :: byte, 8] + length (write_buffer busy_store)" "log_torn sample_io = None"
    by (simp_all add: busy_store_simps sample_io_def)
  show ?thesis
    using failed_put_is_kept [OF h e busy_store_simps(5) l(1-3)] l(4) unfolding hash_def by metis
qed

section \<open>A chunk that is put again after it was tombstoned\<close>

lemma AppendRecord_tombs:
  assumes "AppendRecordInternal io hash pl codec ulen cs fs = (st, cs', fs')" and "status_ok st"
  shows "tombstones cs' = tombstones cs \<and> tomb_file fs' = tomb_file fs"
proof (cases "use_ebpack cs")
  case True
  then have "AppendRecordEbPack io hash pl codec ulen cs fs = (st, cs', fs')" using assms(1) by (simp add: AppendRecordInternal_def)
  then show ?thesis
    unfolding AppendRecordEbPack_def Let_def
    by (auto simp: TrackIndexEntry_def Let_def split: option.splits prod.splits sum.splits)
next
  case False
  from AppendRecord_log_moved [OF False assms] show ?thesis
    using buffer_record_log(7) [of hash pl codec ulen cs] by (simp add: moved_def same_settings_def)
qed

lemma Put_tombs:
  assumes "Put env io chunk options cs fs = Some (hash, Inr b, caller, cs', fs')"
  shows "tombstones cs' = tombstones cs \<and> tomb_file fs' = tomb_file fs \<and> (b \<longleftrightarrow> \<not> Exists cs (ContentHash (cs_digest_algo cs) chunk))"
  using assms AppendRecord_tombs [of io]
  by (auto simp: Put_def PutKnownHash_def Let_def split: if_splits option.splits prod.splits sum.splits)

lemma text_lines_newline: "text_lines acc (xs @ CHR 0x0A # ys) = text_lines acc (xs @ [CHR 0x0A]) @ text_lines [] ys"
  by (induction xs arbitrary: acc) auto

lemma text_lines_no_newline: "CHR 0x0A \<notin> set xs \<Longrightarrow> text_lines acc (xs @ [CHR 0x0A]) = [acc @ xs]"
  by (induction xs arbitrary: acc) auto

lemma BytesToHex_no_newline: "CHR 0x0A \<notin> set (BytesToHex bs)"
proof -
  have "CHR 0x0A \<notin> set kHex" by code_simp
  then show ?thesis using set_BytesToHex [of bs] by blast
qed

lemma errors_not_ok: "NotFound m \<noteq> Status_Ok" "IoError m \<noteq> Status_Ok"
proof -
  have "\<not> status_ok (NotFound m)" "\<not> status_ok (IoError m)" "status_ok Status_Ok" by simp_all
  then show "NotFound m \<noteq> Status_Ok" "IoError m \<noteq> Status_Ok" by metis+
qed

definition whole_lines :: "string \<Rightarrow> bool" where
  "whole_lines s \<longleftrightarrow> s = [] \<or> last s = CHR 0x0A"

lemma tombstone_line:
  assumes "whole_lines s"
  shows "BytesToHex bs \<in> set (text_lines [] (s @ BytesToHex bs @ [CHR 0x0A]))"
proof -
  have h: "text_lines [] (BytesToHex bs @ [CHR 0x0A]) = [BytesToHex bs]"
    using text_lines_no_newline [of "BytesToHex bs" "[]"] BytesToHex_no_newline [of bs] by simp
  show ?thesis
  proof (cases "s = []")
    case False
    then obtain t where s: "s = t @ [CHR 0x0A]" using assms unfolding whole_lines_def by (metis append_butlast_last_id)
    show ?thesis using text_lines_newline [of "[]" t "BytesToHex bs @ [CHR 0x0A]"] h by (simp add: s)
  qed (use h in simp)
qed

text \<open>
  C40. A tombstone is forever. Once a hash was tombstoned, a chunk with this hash that comes
  back in a later backup is written again and reported as newly stored, but reading it fails, in this
  store and in every store opened on the files later: the tombstone is never taken back.
\<close>

theorem put_after_tombstone_is_lost:
  assumes "hash = ContentHash (cs_digest_algo cs) chunk" and "hash \<notin> tombstones cs"
    and "whole_lines (case tomb_file fs of None \<Rightarrow> [] | Some s \<Rightarrow> s)"
    and "TombstoneHash io hash cs fs = (Status_Ok, cs1, fs1)"
    and "Put env io2 chunk options cs1 fs1 = Some (hash, Inr newly, caller, cs2, fs2)"
  shows "newly \<and> Get lib io3 cs2 fs2 hash = Some (Inl (NotFound ''chunk tombstoned'')) \<and>
    (Open_store io4 rd fs2 = (Status_Ok, rd', fs3) \<longrightarrow> tomb_read_ok io4 \<longrightarrow>
       Get lib io3 rd' fs3 hash = Some (Inl (NotFound ''chunk tombstoned'')))"
proof -
  let ?old = "case tomb_file fs of None \<Rightarrow> [] | Some s \<Rightarrow> s"
  have t: "cs1 = cs\<lparr>tombstones := insert hash (tombstones cs)\<rparr>" "tomb_file fs1 = Some (?old @ BytesToHex hash @ [CHR 0x0A])"
    using assms(2,4) by (auto simp: TombstoneHash_def Let_def errors_not_ok split: if_splits option.splits)
  have k: "tombstones cs2 = tombstones cs1" "tomb_file fs2 = tomb_file fs1" "newly \<longleftrightarrow> \<not> Exists cs1 hash"
    using Put_tombs [OF assms(5)] assms(1) t(1) by simp_all
  have h: "hash \<in> set (List.map_filter (\<lambda>l. HexToBytes l 32) (text_lines [] (?old @ BytesToHex hash @ [CHR 0x0A])))"
    using tombstone_line [OF assms(3), of hash] HexToBytes_BytesToHex [of hash] assms(1) by (force simp: map_filter_def)
  have "hash \<in> tombstones rd'" if o: "Open_store io4 rd fs2 = (Status_Ok, rd', fs3)" "tomb_read_ok io4"
  proof -
    obtain st r1 f1 where l: "LoadIndex io4 (if idx_file fs2 \<noteq> None then rd\<lparr>use_persistent_index := True\<rparr> else rd) fs2 = (st, r1, f1)"
      by (metis prod_cases3)
    have f: "tomb_file f1 = Some (?old @ BytesToHex hash @ [CHR 0x0A])" if "status_ok st"
      using l t(2) k(2) by (auto simp: LoadIndex_def LoadIndex_scan_def Let_def split: if_splits prod.splits sum.splits option.splits)
    have "status_ok st" "\<exists>r2. LoadTombstones io4 r2 f1 = (Status_Ok, rd')" using o(1) l by (auto simp: Open_store_def Let_def split: if_splits prod.splits)
    then show ?thesis using f h o(2) by (auto simp: LoadTombstones_def)
  qed
  then show ?thesis using k t(1) by (simp add: Get_def Exists_def)
qed

text \<open>The sample: a store, in a session, that holds the chunk.\<close>

definition holding_store :: ChunkStore where
  "holding_store = buffer_record (ContentHash kLegacy [1, 2, 3]) [1, 2, 3] kRaw 3
     ((new_store ''repo/chunks'')\<lparr>append_session_active := True, append_fd := True\<rparr>)"

lemma holding_store_simps:
  "find_loc holding_store (ContentHash kLegacy [1, 2, 3]) \<noteq> None" "tombstones holding_store = {}" "cs_digest_algo holding_store = kLegacy"
  "\<not> use_ebpack holding_store" "append_session_active holding_store" "append_fd holding_store"
  using find_loc_buffer [of "(new_store ''repo/chunks'')\<lparr>append_session_active := True, append_fd := True\<rparr>" "ContentHash kLegacy [1, 2, 3]" "[1, 2, 3]" kRaw 3]
  by (simp_all add: holding_store_def buffer_record_log) (simp_all add: new_store_def kIndexShardCount_def)

section \<open>A log with a torn tail\<close>

lemma index_of_entries_length: "length (index_of_entries cs es) = 16"
proof -
  have "length (fold (\<lambda>e shards. index_put (ent_hash e) (entry_location cs e) shards) es ss) = length ss" for ss
    by (induction es arbitrary: ss) simp_all
  then show ?thesis by (simp add: index_of_entries_def kIndexShardCount_def)
qed

lemma scan_end_records:
  assumes "\<forall>r \<in> set rs. record_wf r" and "length pre = off"
  shows "scan_end off (pre @ concat (map record_bytes rs) @ tail) (record_entries off rs @ es) =
    scan_end (off + length (concat (map record_bytes rs))) (pre @ concat (map record_bytes rs) @ tail) es"
  using assms
proof (induction rs arbitrary: pre off)
  case (Cons r rs)
  have wf: "record_wf r" "\<forall>r \<in> set rs. record_wf r" using Cons.prems by auto
  have h: "v2_wf (fst r)" "unambiguous (fst r)" "unat (rec_stored_len (fst r)) = length (snd r)" using wf(1) by (simp_all add: record_wf_def)
  have "ReadParsedHeaderAt (pre @ concat (map record_bytes (r # rs)) @ tail) off = Inr (seal_v2 (fst r), 48)"
    using ReadParsedHeaderAt_record [OF h(1,2) Cons.prems(2), of "snd r @ concat (map record_bytes rs) @ tail"]
    by (simp add: record_bytes_def)
  then have "scan_end off (pre @ concat (map record_bytes (r # rs)) @ tail) (record_entries off (r # rs) @ es) =
      scan_end (off + length (record_bytes r)) (pre @ concat (map record_bytes (r # rs)) @ tail) (record_entries (off + length (record_bytes r)) rs @ es)"
    using h(3) length_record_bytes [OF wf(1)] by (simp add: add.assoc)
  also have "\<dots> = scan_end (off + length (record_bytes r) + length (concat (map record_bytes rs)))
      (pre @ concat (map record_bytes (r # rs)) @ tail) es"
    using Cons.IH [OF wf(2), of "pre @ record_bytes r" "off + length (record_bytes r)"] Cons.prems(2) by simp
  finally show ?case by (simp add: add.assoc)
qed simp

lemma torn_scan:
  assumes "\<forall>r \<in> set rs. record_wf r" and "record_wf (h, pl)" and "n < length pl"
  defines "logb \<equiv> concat (map record_bytes rs) @ v2_bytes (seal_v2 h) @ take n pl"
  shows "scan_records logb 0 = (record_entries 0 (rs @ [(h, pl)]), None)"
    and "scan_end 0 logb (record_entries 0 (rs @ [(h, pl)])) = length logb + (length pl - n)"
    and "logb \<noteq> []"
proof -
  have h: "v2_wf h" "unambiguous h" "unat (rec_stored_len h) = length pl" using assms(2) by (simp_all add: record_wf_def)
  have l: "length (v2_bytes (seal_v2 h)) = 48" using h(1) by (simp add: v2_layout.enc_length)
  show "scan_records logb 0 = (record_entries 0 (rs @ [(h, pl)]), None)"
    unfolding logb_def by (rule scan_torn_payload [OF assms(1-3)])
  have "ReadParsedHeaderAt logb (length (concat (map record_bytes rs))) = Inr (seal_v2 h, 48)"
    unfolding logb_def by (rule ReadParsedHeaderAt_record [OF h(1,2) refl])
  then show "scan_end 0 logb (record_entries 0 (rs @ [(h, pl)])) = length logb + (length pl - n)"
    using scan_end_records [OF assms(1), of "[]" 0 "v2_bytes (seal_v2 h) @ take n pl" "[record_entry (length (concat (map record_bytes rs))) (h, pl)]"]
      h(3) l assms(3) unfolding record_entries_snoc by (simp add: logb_def)
  show "logb \<noteq> []" using l by (auto simp: logb_def)
qed

text \<open>
  A torn tail shifts everything after it. If a crash cut the last payload of the log m bytes short
  and there is no index file, the store opens without an error and takes its size to be m bytes more than
  the log is long. The next record that is stored goes to the end of the log, but is indexed m bytes
  behind it.
\<close>

theorem torn_tail_shifts_records:
  assumes "\<forall>r \<in> set rs. record_wf r" and "record_wf (h, pl)" and "n < length pl"
    and "logb = concat (map record_bytes rs) @ v2_bytes (seal_v2 h) @ take n pl" and "length logb + length pl < 2 ^ 64"
    and "log_file fs = Some logb" and "idx_file fs = None" and "tomb_file fs = None" and "log_read_ok io" and "\<not> pack_seen io"
    and "\<not> use_ebpack cs" and "\<not> use_persistent_index cs" and "write_buffer cs = []"
    and "\<not> append_session_active cs" and "\<not> append_fd cs"
    and "log_open_ok io2" and "log_torn io2 = None" and "log_fsync io2 = Status_Ok"
  shows "\<exists>cs1. Open_store io cs fs = (Status_Ok, cs1, fs) \<and> unat (cs_file_size cs1) = length logb + (length pl - n) \<and>
    (\<exists>st cs2 fs2 loc. AppendRecordInternal io2 hash stored codec ulen cs1 fs = (st, cs2, fs2) \<and> status_ok st \<and>
       find_loc cs2 hash = Some loc \<and> unat (loc_offset loc) = length logb + (length pl - n) \<and>
       log_file fs2 = Some (logb @ v2_bytes (append_header hash (length stored) ulen (codec_byte codec)) @ stored))"
proof -
  let ?es = "record_entries 0 (rs @ [(h, pl)])" and ?sz = "length logb + (length pl - n)"
  let ?c0 = "cs\<lparr>shard_index := replicate kIndexShardCount [], index_entries := [], cs_file_size := word_of_nat (length logb)\<rparr>"
  define cs1 where "cs1 = cs\<lparr>shard_index := index_of_entries ?c0 ?es, index_entries := ?es, cs_file_size := word_of_nat ?sz, tombstones := {}\<rparr>"
  note t = torn_scan [OF assms(1-3), folded assms(4)]
  have "\<forall>e \<in> set ?es. storage_flags e \<noteq> kChunkStorageEbPack"
  proof -
    have "e \<in> set (record_entries off xs) \<Longrightarrow> storage_flags e = kChunkStorageLegacy" for e off xs
      by (induction xs arbitrary: off) (auto simp: record_entry_def empty_entry_def)
    then show ?thesis by (fastforce simp: kChunkStorageEbPack_def kChunkStorageLegacy_def)
  qed
  then have o: "Open_store io cs fs = (Status_Ok, cs1, fs)"
    using assms(6-12) t by (simp add: Open_store_def Let_def LoadIndex_def LoadIndex_scan_def LoadTombstones_def cs1_def)
  have sz: "unat (cs_file_size cs1) = ?sz"
  proof -
    have "cs_file_size cs1 = word_of_nat ?sz" by (simp add: cs1_def)
    moreover have "?sz mod 2 ^ LENGTH(64) = ?sz" using assms(5) by simp
    ultimately show ?thesis by (simp only: unat_of_nat)
  qed
  let ?b = "buffer_record hash stored codec ulen cs1" and ?hdr = "append_header hash (length stored) ulen (codec_byte codec)"
  have b: "append_session_active ?b = False" "append_fd ?b = False" "use_ebpack ?b = False" "write_buffer ?b = v2_bytes ?hdr @ stored"
    "use_persistent_index ?b = False"
    using assms(11-15) buffer_record_simps(4) [of cs1 hash stored codec ulen] by (simp_all add: buffer_record_log cs1_def same_settings_def)
  have ap: "\<exists>st cs2 fs2. AppendRecordInternal io2 hash stored codec ulen cs1 fs = (st, cs2, fs2) \<and> status_ok st \<and>
      shard_index cs2 = shard_index ?b \<and> log_file fs2 = Some (logb @ v2_bytes ?hdr @ stored)"
  proof -
    have "use_ebpack cs1 = False" using assms(11) by (simp add: cs1_def)
    moreover have "EnsureAppendSession io2 ?b fs = (Status_Ok, ?b\<lparr>append_fd := True\<rparr>, append_log [] fs)"
      using b(2) assms(16) by (simp add: EnsureAppendSession_def)
    moreover have "WriteBufferToSession io2 True (?b\<lparr>append_fd := True\<rparr>) (append_log [] fs) =
        (Status_Ok, ?b\<lparr>append_fd := True, write_buffer := [], pending_records := 0\<rparr>, append_log (v2_bytes ?hdr @ stored) (append_log [] fs))"
      using b(4) assms(17,18) v2_bytes_ne [of ?hdr] by (simp add: WriteBufferToSession_def Let_def)
    moreover have "log_file (append_log (v2_bytes ?hdr @ stored) (append_log [] fs)) = Some (logb @ v2_bytes ?hdr @ stored)"
      using assms(6) by (simp add: append_log_def)
    ultimately show ?thesis
      using b(1,5) unfolding AppendRecordInternal_def Let_def by (simp add: SavePersistentIndex_def)
  qed
  have "find_loc ?b hash = Some \<lparr>loc_offset = cs_file_size cs1, loc_pack_path = [], loc_stored_len = word_of_nat (length stored),
       loc_uncompressed_len = ulen, loc_codec = codec_byte codec\<rparr>"
    by (rule find_loc_buffer) (simp add: cs1_def index_of_entries_length)
  then have fl: "find_loc cs2 hash = Some \<lparr>loc_offset = cs_file_size cs1, loc_pack_path = [], loc_stored_len = word_of_nat (length stored),
       loc_uncompressed_len = ulen, loc_codec = codec_byte codec\<rparr>" if "shard_index cs2 = shard_index ?b" for cs2
    using that by (simp add: find_loc_def)
  then show ?thesis using o sz ap by fastforce
qed

theorem torn_tail_shifts_records_witness:
  "\<exists>logb cs1 st cs2 fs2 loc. logb = concat (map record_bytes [sample_record]) @ v2_bytes (seal_v2 (fst sample_record)) @ take 1 (snd sample_record) \<and>
     Open_store (sample_io\<lparr>pack_seen := False\<rparr>) (new_store ''repo/chunks'') (sample_files\<lparr>log_file := Some logb\<rparr>) =
       (Status_Ok, cs1, sample_files\<lparr>log_file := Some logb\<rparr>) \<and>
     AppendRecordInternal sample_io (replicate 32 4) [6, 7] kRaw 2 cs1 (sample_files\<lparr>log_file := Some logb\<rparr>) = (st, cs2, fs2) \<and>
     find_loc cs2 (replicate 32 4) = Some loc \<and> unat (loc_offset loc) = length logb + (length (snd sample_record) - 1) \<and>
     log_file fs2 = Some (logb @ v2_bytes (append_header (replicate 32 4) (length [6 :: byte, 7]) 2 (codec_byte kRaw)) @ [6, 7])"
proof -
  define logb where "logb = concat (map record_bytes [sample_record]) @ v2_bytes (seal_v2 (fst sample_record)) @ take 1 (snd sample_record)"
  have w: "\<forall>r \<in> set [sample_record]. record_wf r" "record_wf (fst sample_record, snd sample_record)" "1 < length (snd sample_record)"
    using sample_record_wf by (simp_all add: sample_record_def)
  have l: "length (snd sample_record) = 3" by (simp add: sample_record_def)
  have "length (v2_bytes (seal_v2 (fst sample_record))) = 48"
    using sample_record_wf by (simp add: record_wf_def v2_layout.enc_length)
  then have len: "length logb + length (snd sample_record) < 2 ^ 64"
    using length_record_bytes [OF sample_record_wf] by (simp add: logb_def l)
  let ?fs = "sample_files\<lparr>log_file := Some logb\<rparr>"
  have "\<exists>cs1. Open_store (sample_io\<lparr>pack_seen := False\<rparr>) (new_store ''repo/chunks'') ?fs = (Status_Ok, cs1, ?fs) \<and>
      unat (cs_file_size cs1) = length logb + (length (snd sample_record) - 1) \<and>
      (\<exists>st cs2 fs2 loc. AppendRecordInternal sample_io (replicate 32 4) [6, 7] kRaw 2 cs1 ?fs = (st, cs2, fs2) \<and> status_ok st \<and>
         find_loc cs2 (replicate 32 4) = Some loc \<and> unat (loc_offset loc) = length logb + (length (snd sample_record) - 1) \<and>
         log_file fs2 = Some (logb @ v2_bytes (append_header (replicate 32 4) (length [6 :: byte, 7]) 2 (codec_byte kRaw)) @ [6, 7]))"
    by (rule torn_tail_shifts_records [OF w logb_def len])
      (simp_all add: sample_files_def sample_io_def new_store_def)
  then show ?thesis unfolding logb_def [symmetric] by blast
qed

theorem put_after_tombstone_is_lost_witness:
  "\<exists>hash cs1 fs1 caller cs2 fs2. hash = ContentHash kLegacy [1, 2, 3] \<and>
     TombstoneHash sample_io hash holding_store sample_files = (Status_Ok, cs1, fs1) \<and>
     Put sample_env sample_io [1, 2, 3] None cs1 fs1 = Some (hash, Inr True, caller, cs2, fs2) \<and>
     Get run_lib sample_io cs2 fs2 hash = Some (Inl (NotFound ''chunk tombstoned''))"
proof -
  define hash where "hash = ContentHash kLegacy [1, 2, 3]"
  define cs1 where "cs1 = holding_store\<lparr>tombstones := {hash}\<rparr>"
  define fs1 where "fs1 = sample_files\<lparr>tomb_file := Some (BytesToHex hash @ [CHR 0x0A])\<rparr>"
  have t: "TombstoneHash sample_io hash holding_store sample_files = (Status_Ok, cs1, fs1)"
    using holding_store_simps(1,2) by (simp add: TombstoneHash_def Let_def hash_def cs1_def fs1_def sample_io_def sample_files_def)
  have h: "hash = ContentHash (cs_digest_algo holding_store) [1, 2, 3]" "hash \<notin> tombstones holding_store"
    "whole_lines (case tomb_file sample_files of None \<Rightarrow> [] | Some s \<Rightarrow> s)"
    by (simp_all add: holding_store_simps hash_def whole_lines_def sample_files_def)
  have e: "encode_payload sample_env cs1 [1, 2, 3] None = Some (Inr ([1, 2, 3], kRaw, 3), Some zero_stats, None)"
    by (simp add: raw_put)
  obtain st cs2 fs2 where a: "AppendRecordInternal sample_io hash [1, 2, 3] kRaw 3 cs1 fs1 = (st, cs2, fs2)" by (metis prod_cases3)
  have "append_session_active (buffer_record hash [1, 2, 3] kRaw 3 cs1)" "append_fd (buffer_record hash [1, 2, 3] kRaw 3 cs1)"
    by (simp_all add: buffer_record_log cs1_def holding_store_simps)
  then have "st = log_fsync sample_io \<or> st = Status_Ok"
    using a holding_store_simps(4) by (auto simp: AppendRecordInternal_def Let_def MaybeFlushPack_def WriteBufferToSession_def
        cs1_def sample_io_def split: if_splits)
  then have "status_ok st" by (auto simp: sample_io_def)
  then have p: "Put sample_env sample_io [1, 2, 3] None cs1 fs1 = Some (hash, Inr True, (Some zero_stats, None), cs2, fs2)"
    using e a holding_store_simps(3) by (simp add: Put_def PutKnownHash_def Let_def Exists_def cs1_def hash_def)
  show ?thesis
    using put_after_tombstone_is_lost [OF h t p] t p unfolding hash_def by metis
qed

end
