(* ===== verification/FastCdc.thy ===== *)
theory FastCdc
  imports Digest
begin

text \<open>
  The content-defined chunker (\<open>chunk/fast_cdc.cc\<close>, \<open>chunk/fast_cdc_simd.cc\<close>): a rolling hash over a
  window decides where a file is cut, within a smallest and a largest chunk size. This theory has
  the chunker of a whole buffer and proves that its chunks partition the buffer within these
  sizes; its resumable variant cuts at the same places. Sizes and offsets (\<open>size_t\<close>) are natural
  numbers; lengths are 32-bit words, as stored. The loop that cuts can run forever for a configuration
  with sizes of zero, so it is a partial function.
\<close>

section \<open>The rolling hash (chunk/fast_cdc_simd.cc)\<close>

record FastCdcConfig =
  min_size :: u32
  avg_size :: u32
  max_size :: u32
  window_size :: u32
  cdc_digest :: DigestAlgo

definition default_cdc_config :: FastCdcConfig where
  "default_cdc_config = \<lparr>min_size = 64 * 1024, avg_size = 256 * 1024, max_size = 1024 * 1024, window_size = 64, cdc_digest = kLegacy\<rparr>"

fun halvings :: "nat \<Rightarrow> nat" where
  "halvings v = (if v > 1 then Suc (halvings (v div 2)) else 0)"

declare halvings.simps [simp del]

definition BuildMask :: "u32 \<Rightarrow> u32" where
  "BuildMask avg = (let bits = halvings (unat avg); bits1 = (if bits = 0 then 1 else bits)
     in push_bit (min bits1 31) 1 - 1)"

definition gear_step :: "u32 \<Rightarrow> u32" where
  "gear_step h = drop_bit 1 h XOR (- (h AND 1) AND 0xD0000001)"

definition gear_table :: "u32 list" where
  "gear_table = map (\<lambda>i. (gear_step ^^ 16) (word_of_nat i)) [0..<256]"

text \<open>If the window would begin before the buffer, its start wraps around and the loop does not run.\<close>

definition InitWindowHash :: "bytes \<Rightarrow> nat \<Rightarrow> nat \<Rightarrow> u32 list \<Rightarrow> u32" where
  "InitWindowHash bs end_pos w gear =
     (if end_pos < w then 0 else foldl (\<lambda>h b. push_bit 1 h + gear ! unat b) 0 (slice_at (end_pos - w) w bs))"

text \<open>
  A number of steps of the scan: \<open>Inl\<close> is the cut that was found, \<open>Inr\<close> the hash so far. \<open>None\<close> is a read
  before the buffer.
\<close>

fun gear_steps :: "bytes \<Rightarrow> nat \<Rightarrow> u32 \<Rightarrow> u32 list \<Rightarrow> nat \<Rightarrow> nat \<Rightarrow> u32 \<Rightarrow> (nat + u32) option" where
  "gear_steps bs w msk gear 0 i h = Some (Inr h)"
| "gear_steps bs w msk gear (Suc n) i h =
     (if h AND msk = 0 then Some (Inl i)
      else if i < w then None
      else gear_steps bs w msk gear n (i + 1) (push_bit 1 h + gear ! unat (bs ! i) - gear ! unat (bs ! (i - w))))"

text \<open>The scan goes in blocks of eight positions while they fit.\<close>

function gear_blocks :: "bytes \<Rightarrow> nat \<Rightarrow> u32 \<Rightarrow> u32 list \<Rightarrow> nat \<Rightarrow> nat \<Rightarrow> u32 \<Rightarrow> (nat + u32) option" where
  "gear_blocks bs w msk gear limit i h =
     (if i + 8 \<le> limit then
        (case gear_steps bs w msk gear 8 i h of
           Some (Inr h') \<Rightarrow> gear_blocks bs w msk gear limit (i + 8) h'
         | r \<Rightarrow> r)
      else gear_steps bs w msk gear (limit - i) i h)"
  by pat_completeness auto
termination by (relation "measure (\<lambda>(bs, w, msk, gear, limit, i, h). limit - i)") auto

declare gear_blocks.simps [simp del]

text \<open>The cut, if there is one before the limit.\<close>

definition found_cut :: "(nat + u32) option \<Rightarrow> nat option option" where
  "found_cut r = map_option (\<lambda>x. case x of Inl c \<Rightarrow> Some c | Inr h \<Rightarrow> None) r"

definition ScanGearCut :: "bytes \<Rightarrow> nat \<Rightarrow> nat \<Rightarrow> nat \<Rightarrow> u32 \<Rightarrow> u32 list \<Rightarrow> nat option option" where
  "ScanGearCut bs scan_start cut_limit w msk gear =
     found_cut (gear_blocks bs w msk gear cut_limit scan_start (InitWindowHash bs scan_start w gear))"

section \<open>The chunker of a whole buffer (chunk/fast_cdc.cc)\<close>

record ChunkDescriptor =
  ck_offset :: u64
  ck_length :: u32
  ck_hash :: bytes
  reused_from_cfi :: bool

definition NextChunkCutEnd :: "bytes \<Rightarrow> nat \<Rightarrow> FastCdcConfig \<Rightarrow> u32 \<Rightarrow> u32 list \<Rightarrow> nat option" where
  "NextChunkCutEnd bs pos cfg msk gear =
     (let len = length bs; remaining = len - pos;
          w = unat (window_size cfg); mn = unat (min_size cfg); mx = unat (max_size cfg)
      in if remaining \<le> mn then Some len
         else
           let scan_start = pos + mn; lim = min (pos + mx) len in
           case (if scan_start \<ge> w \<and> scan_start < lim then ScanGearCut bs scan_start lim w msk gear else Some None) of
             None \<Rightarrow> None
           | Some (Some c) \<Rightarrow> Some c
           | Some None \<Rightarrow> Some (if remaining > mx then pos + mx else len))"

partial_function (option) cut_loop :: "bytes \<Rightarrow> FastCdcConfig \<Rightarrow> u32 \<Rightarrow> u32 list \<Rightarrow> nat \<Rightarrow> (nat \<times> u32) list option" where
  "cut_loop bs cfg msk gear pos =
     (if pos < length bs then
        (case NextChunkCutEnd bs pos cfg msk gear of
           None \<Rightarrow> None
         | Some c \<Rightarrow> Option.bind (cut_loop bs cfg msk gear c) (\<lambda>cs. Some ((pos, word_of_nat (c - pos)) # cs)))
      else Some [])"

text \<open>Reserving room for the cuts divides by the smallest size.\<close>

definition ChunkCuts :: "FastCdcConfig \<Rightarrow> bytes \<Rightarrow> (nat \<times> u32) list option" where
  "ChunkCuts cfg bs =
     (if bs = [] then Some []
      else if length bs \<le> unat (min_size cfg) then Some [(0, word_of_nat (length bs))]
      else if min_size cfg = 0 then None
      else cut_loop bs cfg (BuildMask (avg_size cfg)) gear_table 0)"

text \<open>The digest pool only distributes the regions over threads.\<close>

definition HashChunkRegions :: "DigestAlgo \<Rightarrow> bytes \<Rightarrow> (nat \<times> u32) list \<Rightarrow> ChunkDescriptor list" where
  "HashChunkRegions algo bs cuts =
     map (\<lambda>(off, n). \<lparr>ck_offset = word_of_nat off, ck_length = n, ck_hash = ContentHash algo (slice_at off (unat n) bs),
                       reused_from_cfi = False\<rparr>) cuts"

definition Chunk :: "FastCdcConfig \<Rightarrow> bytes \<Rightarrow> ChunkDescriptor list option" where
  "Chunk cfg bs =
     (if bs = [] then Some []
      else case ChunkCuts cfg bs of
        None \<Rightarrow> None
      | Some cuts \<Rightarrow>
          if length bs \<le> unat (min_size cfg)
          then Some [\<lparr>ck_offset = 0, ck_length = word_of_nat (length bs), ck_hash = ContentHash (cdc_digest cfg) bs, reused_from_cfi = False\<rparr>]
          else Some (HashChunkRegions (cdc_digest cfg) bs cuts))"

text \<open>The resumable variant: the cuts that begin before a given offset, the new position, and whether the end was reached.\<close>

partial_function (option) until_loop ::
  "bytes \<Rightarrow> FastCdcConfig \<Rightarrow> u32 \<Rightarrow> u32 list \<Rightarrow> nat \<Rightarrow> nat \<Rightarrow> ((nat \<times> u32) list \<times> nat \<times> bool) option" where
  "until_loop bs cfg msk gear until pos =
     (if pos < length bs then
        if pos \<ge> until then Some ([], pos, pos \<ge> length bs)
        else
          (case NextChunkCutEnd bs pos cfg msk gear of
             None \<Rightarrow> None
           | Some c \<Rightarrow>
               Option.bind (until_loop bs cfg msk gear until c)
                 (\<lambda>(cs, p, fin). Some ((pos, word_of_nat (c - pos)) # cs, p, fin)))
      else Some ([], pos, True))"

definition ChunkCutsUntil :: "FastCdcConfig \<Rightarrow> bytes \<Rightarrow> nat \<Rightarrow> nat \<Rightarrow> ((nat \<times> u32) list \<times> nat \<times> bool) option" where
  "ChunkCutsUntil cfg bs until pos =
     (if bs = [] then Some ([], pos, True)
      else if length bs \<le> unat (min_size cfg) then
        Some (if pos = 0 \<and> until > 0 then [(0, word_of_nat (length bs))] else [], length bs, True)
      else if pos \<ge> length bs then Some ([], pos, True)
      else until_loop bs cfg (BuildMask (avg_size cfg)) gear_table until pos)"

section \<open>The blocks make no difference\<close>

lemma gear_steps_add:
  "gear_steps bs w msk gear (m + n) i h =
     (case gear_steps bs w msk gear m i h of Some (Inr h') \<Rightarrow> gear_steps bs w msk gear n (i + m) h' | r \<Rightarrow> r)"
  by (induction m arbitrary: i h) (auto split: option.split sum.split)

lemma gear_blocks_steps: "gear_blocks bs w msk gear limit i h = gear_steps bs w msk gear (limit - i) i h"
proof (induction bs w msk gear limit i h rule: gear_blocks.induct)
  case (1 bs w msk gear limit i h)
  show ?case
  proof (cases "i + 8 \<le> limit")
    case True
    then have "limit - i = 8 + (limit - (i + 8))" by simp
    then have "gear_steps bs w msk gear (limit - i) i h = (case gear_steps bs w msk gear 8 i h of
        Some (Inr h') \<Rightarrow> gear_steps bs w msk gear (limit - (i + 8)) (i + 8) h' | r \<Rightarrow> r)"
      by (simp only: gear_steps_add)
    then show ?thesis
      using True 1 by (subst gear_blocks.simps) (auto split: option.split sum.split)
  next
    case False
    then show ?thesis by (subst gear_blocks.simps) simp
  qed
qed

lemma ScanGearCut_steps:
  "ScanGearCut bs start limit w msk gear = found_cut (gear_steps bs w msk gear (limit - start) start (InitWindowHash bs start w gear))"
  by (simp add: ScanGearCut_def gear_blocks_steps)

section \<open>The chunks partition the buffer\<close>

lemma gear_steps_defined: "w \<le> i \<Longrightarrow> gear_steps bs w msk gear n i h \<noteq> None"
  by (induction n arbitrary: i h) auto

lemma gear_steps_range: "gear_steps bs w msk gear n i h = Some (Inl c) \<Longrightarrow> i \<le> c \<and> c < i + n"
  by (induction n arbitrary: i h) (fastforce split: if_splits)+

lemma ScanGearCut_range:
  assumes "w \<le> start"
  shows "\<exists>r. ScanGearCut bs start limit w msk gear = Some r \<and> (\<forall>c. r = Some c \<longrightarrow> start \<le> c \<and> c < limit)"
proof -
  obtain x where x: "gear_steps bs w msk gear (limit - start) start (InitWindowHash bs start w gear) = Some x"
    using gear_steps_defined [OF assms] by blast
  show ?thesis
    using gear_steps_range [of bs w msk gear "limit - start" start] x
    by (cases x) (fastforce simp: ScanGearCut_steps found_cut_def)+
qed

text \<open>Sizes a chunker can work with.\<close>

definition cdc_sizes :: "FastCdcConfig \<Rightarrow> bool" where
  "cdc_sizes cfg \<longleftrightarrow> 0 < unat (min_size cfg) \<and> min_size cfg \<le> max_size cfg"

lemma NextChunkCutEnd_range:
  assumes "cdc_sizes cfg" and "pos < length bs"
  shows "\<exists>c. NextChunkCutEnd bs pos cfg msk gear = Some c \<and> pos < c \<and> c \<le> length bs \<and> c - pos \<le> unat (max_size cfg) \<and>
    (c = length bs \<or> unat (min_size cfg) \<le> c - pos)"
proof -
  let ?w = "unat (window_size cfg)" and ?mn = "unat (min_size cfg)" and ?mx = "unat (max_size cfg)"
  let ?lim = "min (pos + ?mx) (length bs)"
  have s: "0 < ?mn" "?mn \<le> ?mx" using assms(1) by (simp_all add: cdc_sizes_def word_le_nat_alt)
  show ?thesis
  proof (cases "length bs - pos \<le> ?mn")
    case True
    then show ?thesis using assms(2) s by (simp add: NextChunkCutEnd_def Let_def)
  next
    case False
    obtain r where r: "(if pos + ?mn \<ge> ?w \<and> pos + ?mn < ?lim then ScanGearCut bs (pos + ?mn) ?lim ?w msk gear else Some None) = Some r"
      "\<And>c. r = Some c \<Longrightarrow> pos + ?mn \<le> c \<and> c < ?lim"
      using ScanGearCut_range [of ?w "pos + ?mn" bs ?lim msk gear] by (cases "pos + ?mn \<ge> ?w \<and> pos + ?mn < ?lim") auto
    then have "NextChunkCutEnd bs pos cfg msk gear = Some (case r of Some c \<Rightarrow> c | None \<Rightarrow> if length bs - pos > ?mx then pos + ?mx else length bs)"
      using False by (simp add: NextChunkCutEnd_def Let_def split: option.split)
    then show ?thesis using r(2) s assms(2) False by (cases r) (auto split: if_splits)
  qed
qed

text \<open>Cuts that follow each other without a gap up to the end, within the sizes.\<close>

fun tiles :: "nat \<Rightarrow> nat \<Rightarrow> nat \<Rightarrow> (nat \<times> u32) list \<Rightarrow> nat \<Rightarrow> bool" where
  "tiles mn mx pos [] len \<longleftrightarrow> pos = len"
| "tiles mn mx pos ((off, n) # cs) len \<longleftrightarrow> off = pos \<and> 0 < unat n \<and> unat n \<le> mx \<and> (cs \<noteq> [] \<longrightarrow> mn \<le> unat n) \<and>
     pos + unat n \<le> len \<and> tiles mn mx (pos + unat n) cs len"

lemma unat_length: "n \<le> unat (m :: u32) \<Longrightarrow> unat (word_of_nat n :: u32) = n"
proof -
  assume "n \<le> unat m"
  then have "n < 2 ^ 32" using unsigned_less [of m, where ?'a = nat] by simp
  then show ?thesis by (simp add: unat_of_nat)
qed

text \<open>The loop for any choice of the next cut.\<close>

partial_function (option) cuts_by :: "(nat \<Rightarrow> nat option) \<Rightarrow> nat \<Rightarrow> nat \<Rightarrow> (nat \<times> u32) list option" where
  "cuts_by nxt len pos =
     (if pos < len then
        (case nxt pos of
           None \<Rightarrow> None
         | Some c \<Rightarrow> Option.bind (cuts_by nxt len c) (\<lambda>cs. Some ((pos, word_of_nat (c - pos)) # cs)))
      else Some [])"

lemma cuts_by_end: "len \<le> pos \<Longrightarrow> cuts_by nxt len pos = Some []"
  by (subst cuts_by.simps) simp

lemma cuts_by_step:
  "pos < len \<Longrightarrow> nxt pos = Some c \<Longrightarrow>
     cuts_by nxt len pos = map_option ((#) (pos, word_of_nat (c - pos))) (cuts_by nxt len c)"
  by (subst cuts_by.simps) (simp add: map_option_case split: option.split bind_split)

text \<open>A choice that moves forward by at most the largest size, and by at least the smallest before the end.\<close>

definition next_ok :: "FastCdcConfig \<Rightarrow> nat \<Rightarrow> (nat \<Rightarrow> nat option) \<Rightarrow> bool" where
  "next_ok cfg len nxt \<longleftrightarrow> (\<forall>pos < len. \<exists>c. nxt pos = Some c \<and> pos < c \<and> c \<le> len \<and> c - pos \<le> unat (max_size cfg) \<and>
     (c = len \<or> unat (min_size cfg) \<le> c - pos))"

lemma next_okD:
  "next_ok cfg len nxt \<Longrightarrow> pos < len \<Longrightarrow> \<exists>c. nxt pos = Some c \<and> pos < c \<and> c \<le> len \<and> c - pos \<le> unat (max_size cfg) \<and>
     (c = len \<or> unat (min_size cfg) \<le> c - pos)"
  by (simp add: next_ok_def)

lemma cuts_by_tiles:
  assumes "next_ok cfg len nxt"
  shows "pos \<le> len \<Longrightarrow> \<exists>cs. cuts_by nxt len pos = Some cs \<and> tiles (unat (min_size cfg)) (unat (max_size cfg)) pos cs len"
proof (induction "len - pos" arbitrary: pos rule: less_induct)
  case less
  show ?case
  proof (cases "pos < len")
    case False
    then show ?thesis using less.prems by (simp add: cuts_by_end)
  next
    case True
    obtain c where c: "nxt pos = Some c" "pos < c" "c \<le> len" "c - pos \<le> unat (max_size cfg)"
      "c = len \<or> unat (min_size cfg) \<le> c - pos"
      using next_okD [OF assms True] by blast
    obtain cs where cs: "cuts_by nxt len c = Some cs" "tiles (unat (min_size cfg)) (unat (max_size cfg)) c cs len"
    proof -
      have "len - c < len - pos" using True c(2,3) by linarith
      from less.hyps [OF this c(3)] show ?thesis using that by blast
    qed
    have n: "unat (word_of_nat (c - pos) :: u32) = c - pos" by (rule unat_length [OF c(4)])
    have e: "c = len \<Longrightarrow> cs = []" using cs(1) by (simp add: cuts_by_end)
    have "cuts_by nxt len pos = Some ((pos, word_of_nat (c - pos)) # cs)"
      using cuts_by_step [where nxt = nxt, OF True c(1)] cs(1) by simp
    then show ?thesis using n c cs(2) e by auto
  qed
qed

lemma cut_loop_by:
  assumes "next_ok cfg (length bs) (\<lambda>p. NextChunkCutEnd bs p cfg msk gear)"
  shows "cut_loop bs cfg msk gear pos = cuts_by (\<lambda>p. NextChunkCutEnd bs p cfg msk gear) (length bs) pos"
proof (induction "length bs - pos" arbitrary: pos rule: less_induct)
  case less
  show ?case
  proof (cases "pos < length bs")
    case False
    then show ?thesis by (subst cut_loop.simps) (simp add: cuts_by_end)
  next
    case True
    obtain c where c: "NextChunkCutEnd bs pos cfg msk gear = Some c" "pos < c" "c \<le> length bs"
      using next_okD [OF assms True] by blast
    have "length bs - c < length bs - pos" using True c(2) by linarith
    from less [OF this] show ?thesis
      using True c(1) by (subst cut_loop.simps, subst cuts_by.simps) simp
  qed
qed

lemma NextChunkCutEnd_ok: "cdc_sizes cfg \<Longrightarrow> next_ok cfg (length bs) (\<lambda>p. NextChunkCutEnd bs p cfg msk gear)"
  unfolding next_ok_def using NextChunkCutEnd_range by blast

lemma cut_loop_tiles:
  assumes "cdc_sizes cfg" and "pos \<le> length bs"
  shows "\<exists>cs. cut_loop bs cfg msk gear pos = Some cs \<and>
    tiles (unat (min_size cfg)) (unat (max_size cfg)) pos cs (length bs)"
  using cut_loop_by [OF NextChunkCutEnd_ok [OF assms(1)]] cuts_by_tiles [OF NextChunkCutEnd_ok [OF assms(1)] assms(2)] by simp

text \<open>The resumable variant makes the same cuts: what it returned so far and what is cut from where it stopped are all cuts.\<close>

lemma until_loop_cuts:
  assumes "next_ok cfg (length bs) (\<lambda>p. NextChunkCutEnd bs p cfg msk gear)"
  shows "\<exists>cs p. until_loop bs cfg msk gear until pos = Some (cs, p, length bs \<le> p) \<and> (p < length bs \<longrightarrow> until \<le> p) \<and>
    cut_loop bs cfg msk gear pos = map_option (append cs) (cut_loop bs cfg msk gear p)"
proof (induction "length bs - pos" arbitrary: pos rule: less_induct)
  case less
  show ?case
  proof (cases "pos < length bs \<and> pos < until")
    case False
    have "map_option (append []) r = r" for r :: "(nat \<times> u32) list option" by (cases r) simp_all
    then show ?thesis using False by (subst until_loop.simps) auto
  next
    case True
    obtain c where c: "NextChunkCutEnd bs pos cfg msk gear = Some c" "pos < c" "c \<le> length bs"
      using next_okD [OF assms] True by blast
    have "length bs - c < length bs - pos" using True c(2) by linarith
    from less [OF this] obtain cs p where r: "until_loop bs cfg msk gear until c = Some (cs, p, length bs \<le> p)"
      "p < length bs \<longrightarrow> until \<le> p" "cut_loop bs cfg msk gear c = map_option (append cs) (cut_loop bs cfg msk gear p)" by blast
    have "cut_loop bs cfg msk gear pos = map_option (append ((pos, word_of_nat (c - pos)) # cs)) (cut_loop bs cfg msk gear p)"
      using True c(1) r(3) by (subst cut_loop.simps) (cases "cut_loop bs cfg msk gear p"; simp)
    moreover have "until_loop bs cfg msk gear until pos = Some ((pos, word_of_nat (c - pos)) # cs, p, length bs \<le> p)"
      using True c(1) r(1) by (subst until_loop.simps) simp
    ultimately show ?thesis using r(2) by blast
  qed
qed

lemma tiles_concat:
  "tiles mn mx pos cs (length bs) \<Longrightarrow> concat (map (\<lambda>(off, n). slice_at off (unat n) bs) cs) = drop pos bs"
proof (induction mn mx pos cs "length bs" rule: tiles.induct)
  case (2 mn mx pos off n cs)
  then have "concat (map (\<lambda>(off, n). slice_at off (unat n) bs) cs) = drop (pos + unat n) bs" by auto
  then show ?case using 2(2) by (simp add: slice_at_def) (metis append_take_drop_id drop_drop add.commute)
qed simp

lemma tiles_bounds:
  "tiles mn mx pos cs len \<Longrightarrow> (off, n) \<in> set cs \<Longrightarrow> 0 < unat n \<and> unat n \<le> mx \<and> off + unat n \<le> len"
  by (induction mn mx pos cs len rule: tiles.induct) auto

lemma tiles_min: "tiles mn mx pos cs len \<Longrightarrow> (off, n) \<in> set (butlast cs) \<Longrightarrow> mn \<le> unat n"
  by (induction mn mx pos cs len rule: tiles.induct) (auto split: if_splits)

lemma tiles_length: "tiles mn mx pos cs len \<Longrightarrow> mn * (length cs - 1) \<le> len - pos"
proof (induction mn mx pos cs len rule: tiles.induct)
  case (2 mn mx pos off n cs len)
  then show ?case by (cases cs) (auto simp: le_diff_conv algebra_simps)
qed simp

lemma ChunkCuts_tiles:
  assumes "cdc_sizes cfg"
  shows "\<exists>cs. ChunkCuts cfg bs = Some cs \<and> tiles (unat (min_size cfg)) (unat (max_size cfg)) 0 cs (length bs)"
proof -
  have m: "0 < unat (min_size cfg)" "unat (min_size cfg) \<le> unat (max_size cfg)"
    using assms by (simp_all add: cdc_sizes_def word_le_nat_alt)
  have "min_size cfg \<noteq> 0" using m(1) by auto
  then show ?thesis
    using cut_loop_tiles [OF assms, of 0 bs] m unat_length [of "length bs" "min_size cfg"] by (auto simp: ChunkCuts_def)
qed

text \<open>The bytes a descriptor stands for.\<close>

definition chunk_region :: "bytes \<Rightarrow> ChunkDescriptor \<Rightarrow> bytes" where
  "chunk_region bs d = slice_at (unat (ck_offset d)) (unat (ck_length d)) bs"

lemma Chunk_eq:
  assumes "cdc_sizes cfg"
  shows "Chunk cfg bs = map_option (HashChunkRegions (cdc_digest cfg) bs) (ChunkCuts cfg bs)"
  using unat_length [of "length bs" "min_size cfg"]
  by (auto simp: Chunk_def ChunkCuts_def HashChunkRegions_def slice_at_def split: option.split)

lemma region_of_cut:
  "length bs < 2 ^ 64 \<Longrightarrow> off \<le> length bs \<Longrightarrow> chunk_region bs \<lparr>ck_offset = word_of_nat off, ck_length = n, ck_hash = h, reused_from_cfi = r\<rparr> =
     slice_at off (unat n) bs"
  by (simp add: chunk_region_def unat_of_nat)

definition shifted :: "nat \<Rightarrow> (nat \<times> u32) list \<Rightarrow> (nat \<times> u32) list" where
  "shifted A cs = map (\<lambda>(off, n). (A + off, n)) cs"

lemma shifted_simps [simp]:
  "shifted A [] = []" "shifted A ((off, n) # cs) = (A + off, n) # shifted A cs"
  by (simp_all add: shifted_def)

lemma slice_at_split: "k \<le> n \<Longrightarrow> slice_at pos k xs @ slice_at (pos + k) (n - k) xs = slice_at pos n xs"
  using take_add [of k "n - k" "drop pos xs"] by (simp add: slice_at_def add.commute)

lemma slice_of_slice: "off + n \<le> m \<Longrightarrow> slice_at off n (slice_at A m xs) = slice_at (A + off) n xs"
  by (simp add: slice_at_def drop_take take_take min_def add.commute)

lemma HashChunkRegions_append: "HashChunkRegions algo bs (xs @ ys) = HashChunkRegions algo bs xs @ HashChunkRegions algo bs ys"
  by (simp add: HashChunkRegions_def)

lemma HashChunkRegions_Nil [simp]: "HashChunkRegions algo bs [] = []"
  by (simp add: HashChunkRegions_def)

lemma length_HashChunkRegions [simp]: "length (HashChunkRegions algo bs cs) = length cs"
  by (simp add: HashChunkRegions_def)

lemma Chunk_cuts:
  assumes "cdc_sizes cfg"
  shows "\<exists>cs. Chunk cfg bs = Some (HashChunkRegions (cdc_digest cfg) bs cs) \<and>
    tiles (unat (min_size cfg)) (unat (max_size cfg)) 0 cs (length bs)"
  using ChunkCuts_tiles [OF assms, of bs] Chunk_eq [OF assms, of bs] by auto

lemma regions_partition:
  fixes algo
  assumes t: "tiles (unat (min_size cfg)) (unat (max_size cfg)) 0 cs (length bs)" and l: "length bs < 2 ^ 64"
  defines "ds \<equiv> HashChunkRegions algo bs cs"
  shows "concat (map (chunk_region bs) ds) = bs"
    and "list_all (\<lambda>d. 0 < unat (ck_length d) \<and> ck_length d \<le> max_size cfg \<and> ck_hash d = ContentHash algo (chunk_region bs d)) ds"
    and "list_all (\<lambda>d. min_size cfg \<le> ck_length d) (butlast ds)"
proof -
  note b = tiles_bounds [OF t]
  have h: "chunk_region bs \<lparr>ck_offset = word_of_nat off, ck_length = n, ck_hash = h, reused_from_cfi = False\<rparr> =
      slice_at off (unat n) bs" if "(off, n) \<in> set cs" for off n h
    using b [OF that] by (intro region_of_cut [OF l]) simp
  have "map (chunk_region bs) ds = map (\<lambda>(off, n). slice_at off (unat n) bs) cs"
    unfolding ds_def HashChunkRegions_def map_map using h by (intro map_cong refl) auto
  then show "concat (map (chunk_region bs) ds) = bs" using tiles_concat [OF t] by simp
  have "butlast ds = HashChunkRegions algo bs (butlast cs)" by (simp add: ds_def HashChunkRegions_def map_butlast)
  then show "list_all (\<lambda>d. min_size cfg \<le> ck_length d) (butlast ds)"
    using tiles_min [OF t] by (auto simp: HashChunkRegions_def list_all_iff word_le_nat_alt)
  show "list_all (\<lambda>d. 0 < unat (ck_length d) \<and> ck_length d \<le> max_size cfg \<and> ck_hash d = ContentHash algo (chunk_region bs d)) ds"
    unfolding ds_def HashChunkRegions_def list_all_iff
  proof (rule ballI)
    fix d assume "d \<in> set (map (\<lambda>(off, n). \<lparr>ck_offset = word_of_nat off, ck_length = n,
      ck_hash = ContentHash algo (slice_at off (unat n) bs), reused_from_cfi = False\<rparr>) cs)"
    then obtain off n where m: "(off, n) \<in> set cs" and d: "d = \<lparr>ck_offset = word_of_nat off, ck_length = n,
      ck_hash = ContentHash algo (slice_at off (unat n) bs), reused_from_cfi = False\<rparr>" by auto
    have n: "0 < unat n" "n \<le> max_size cfg" using b [OF m] by (auto simp: word_le_nat_alt)
    have "chunk_region bs d = slice_at off (unat n) bs" unfolding d by (rule h [OF m])
    then show "0 < unat (ck_length d) \<and> ck_length d \<le> max_size cfg \<and> ck_hash d = ContentHash algo (chunk_region bs d)"
      using n by (simp add: d)
  qed
qed

text \<open>
  C16. Chunking partitions: for every configuration with a positive smallest size that is at most the
  largest one, the chunker ends, the regions of its chunks put together are the buffer, each is labelled with
  its content hash, none is empty or larger than the largest size, and none but the last is smaller than the
  smallest.
\<close>

theorem chunks_partition:
  assumes "cdc_sizes cfg" and "length bs < 2 ^ 64"
  shows "\<exists>ds. Chunk cfg bs = Some ds \<and> concat (map (chunk_region bs) ds) = bs \<and>
    list_all (\<lambda>d. 0 < unat (ck_length d) \<and> ck_length d \<le> max_size cfg \<and>
      ck_hash d = ContentHash (cdc_digest cfg) (chunk_region bs d)) ds \<and>
    list_all (\<lambda>d. min_size cfg \<le> ck_length d) (butlast ds)"
proof -
  obtain cs where cs: "Chunk cfg bs = Some (HashChunkRegions (cdc_digest cfg) bs cs)"
    "tiles (unat (min_size cfg)) (unat (max_size cfg)) 0 cs (length bs)"
    using Chunk_cuts [OF assms(1)] by blast
  then show ?thesis using regions_partition [OF cs(2) assms(2)] by simp
qed

theorem chunks_partition_witness:
  "let cfg = \<lparr>min_size = 2, avg_size = 2, max_size = 3, window_size = 2, cdc_digest = kStandard\<rparr>; bs = [7, 1, 2, 0, 0, 9, 9 :: byte]
   in cdc_sizes cfg \<and> length bs < 2 ^ 64 \<and>
     (\<exists>ds. Chunk cfg bs = Some ds \<and> concat (map (chunk_region bs) ds) = bs \<and>
       list_all (\<lambda>d. 0 < unat (ck_length d) \<and> ck_length d \<le> 3 \<and>
         ck_hash d = ContentHash kStandard (chunk_region bs d)) ds \<and>
       list_all (\<lambda>d. 2 \<le> ck_length d) (butlast ds))"
proof -
  let ?cfg = "\<lparr>min_size = 2, avg_size = 2, max_size = 3, window_size = 2, cdc_digest = kStandard\<rparr> :: FastCdcConfig"
    and ?bs = "[7, 1, 2, 0, 0, 9, 9 :: byte]"
  have s: "cdc_sizes ?cfg" "length ?bs < 2 ^ 64" by (simp_all add: cdc_sizes_def)
  show ?thesis unfolding Let_def using chunks_partition [OF s] s by simp
qed

end
