(* ===== verification/ChunkProfile.thy ===== *)
theory ChunkProfile
  imports FastCdc
begin

text \<open>
  The chunk sizes the engine works with (\<open>chunk/chunk_profile.cc\<close>): one of three profiles, chosen by the
  size of the file when the profile is automatic. Every profile has sizes the chunker can work with.
\<close>

datatype ChunkProfileMode = kAutoProfile | kSmallProfile | kDefaultProfile | kLargeProfile

definition kChunkProfileSmallMaxBytes :: nat where "kChunkProfileSmallMaxBytes = 256 * 1024"
definition kChunkProfileLargeMinBytes :: nat where "kChunkProfileLargeMinBytes = 64 * 1024 * 1024"

definition SmallProfile :: FastCdcConfig where
  "SmallProfile = default_cdc_config\<lparr>min_size := 4 * 1024, avg_size := 16 * 1024, max_size := 64 * 1024\<rparr>"

definition DefaultProfile :: FastCdcConfig where
  "DefaultProfile = default_cdc_config\<lparr>min_size := 64 * 1024, avg_size := 256 * 1024, max_size := 1024 * 1024\<rparr>"

definition LargeProfile :: FastCdcConfig where
  "LargeProfile = default_cdc_config\<lparr>min_size := 256 * 1024, avg_size := 1024 * 1024, max_size := 4 * 1024 * 1024\<rparr>"

definition ResolveAutoProfile :: "nat \<Rightarrow> ChunkProfileMode" where
  "ResolveAutoProfile file_size =
     (if file_size \<le> kChunkProfileSmallMaxBytes then kSmallProfile
      else if file_size \<ge> kChunkProfileLargeMinBytes then kLargeProfile
      else kDefaultProfile)"

fun FastCdcConfigForProfile :: "ChunkProfileMode \<Rightarrow> FastCdcConfig" where
  "FastCdcConfigForProfile kSmallProfile = SmallProfile"
| "FastCdcConfigForProfile kLargeProfile = LargeProfile"
| "FastCdcConfigForProfile kDefaultProfile = DefaultProfile"
| "FastCdcConfigForProfile kAutoProfile = DefaultProfile"

record EbHcrboConfig =
  fast :: FastCdcConfig
  strong_anchor_bytes :: u32
  rabin_mask :: u64
  hcrbo_digest :: DigestAlgo

definition default_hcrbo_config :: EbHcrboConfig where
  "default_hcrbo_config = \<lparr>fast = default_cdc_config, strong_anchor_bytes = 64 * 1024, rabin_mask = 0xFFFF, hcrbo_digest = kLegacy\<rparr>"

definition EbHcrboConfigForProfile :: "ChunkProfileMode \<Rightarrow> DigestAlgo \<Rightarrow> EbHcrboConfig" where
  "EbHcrboConfigForProfile m algo =
     default_hcrbo_config\<lparr>fast := (FastCdcConfigForProfile m)\<lparr>cdc_digest := algo\<rparr>, hcrbo_digest := algo\<rparr>"

definition EbHcrboConfigForFileSize :: "nat \<Rightarrow> ChunkProfileMode \<Rightarrow> DigestAlgo \<Rightarrow> EbHcrboConfig" where
  "EbHcrboConfigForFileSize file_size m algo =
     EbHcrboConfigForProfile (if m = kAutoProfile then ResolveAutoProfile file_size else m) algo"

text \<open>What the profiles have in common.\<close>

lemma profile_sizes:
  fixes m n algo
  defines "cfg \<equiv> fast (EbHcrboConfigForFileSize n m algo)"
  shows "cdc_sizes cfg" "window_size cfg \<le> min_size cfg" "unat (min_size cfg) + unat (max_size cfg) < 8 * 1024 * 1024"
    "min_size cfg < max_size cfg" "cdc_digest cfg = algo" "hcrbo_digest (EbHcrboConfigForFileSize n m algo) = algo"
proof -
  have c: "FastCdcConfigForProfile p \<in> {SmallProfile, DefaultProfile, LargeProfile}" for p by (cases p) simp_all
  obtain b where b: "cfg = b\<lparr>cdc_digest := algo\<rparr>" "b \<in> {SmallProfile, DefaultProfile, LargeProfile}"
    using c [of "if m = kAutoProfile then ResolveAutoProfile n else m"]
    by (simp add: cfg_def EbHcrboConfigForFileSize_def EbHcrboConfigForProfile_def)
  note d = SmallProfile_def DefaultProfile_def LargeProfile_def default_cdc_config_def
  show "cdc_sizes cfg" "window_size cfg \<le> min_size cfg" "unat (min_size cfg) + unat (max_size cfg) < 8 * 1024 * 1024"
    "min_size cfg < max_size cfg" "cdc_digest cfg = algo"
    using b(2) by (auto simp: b(1) d cdc_sizes_def)
  show "hcrbo_digest (EbHcrboConfigForFileSize n m algo) = algo"
    by (simp add: EbHcrboConfigForFileSize_def EbHcrboConfigForProfile_def)
qed

end
