(* ===== verification/FastCdcStream.thy ===== *)
theory FastCdcStream
  imports ChunkProfile
begin

text \<open>
  The chunker that is fed a file in segments (\<open>chunk/fast_cdc_streaming.cc\<close>) and the loop of the backup
  pipeline that feeds it. Between two segments it carries the bytes behind the last cut; the view of a feed
  are these and the new segment, which it does not copy together. The properties say that the chunks of a
  streamed file partition it, and, unless a scan begins within a window behind the begin of a segment, that they are those
  of the chunker of whole buffers.
\<close>

section \<open>The view (chunk/fast_cdc_carry_buffer.h)\<close>

record StreamSegmentView =
  seg0 :: bytes
  seg1 :: bytes

definition view_size :: "StreamSegmentView \<Rightarrow> nat" where
  "view_size v = length (seg0 v) + length (seg1 v)"

definition view_at :: "StreamSegmentView \<Rightarrow> nat \<Rightarrow> byte" where
  "view_at v i = (if i < length (seg0 v) then seg0 v ! i else seg1 v ! (i - length (seg0 v)))"

text \<open>Copies run up to the end of a segment; a range beyond the view is not copied to its end.\<close>

partial_function (option) copy_range :: "StreamSegmentView \<Rightarrow> nat \<Rightarrow> nat \<Rightarrow> bytes option" where
  "copy_range v pos n =
     (if n = 0 then Some []
      else let l0 = length (seg0 v);
               k = (if pos < l0 then min n (l0 - pos) else min n (view_size v - pos));
               part = (if pos < l0 then slice_at pos k (seg0 v) else slice_at (pos - l0) k (seg1 v))
           in Option.bind (copy_range v (pos + k) (n - k)) (\<lambda>rest. Some (part @ rest)))"

definition region_in_seg1 :: "StreamSegmentView \<Rightarrow> nat \<Rightarrow> nat \<Rightarrow> bool" where
  "region_in_seg1 v off n \<longleftrightarrow> off \<ge> length (seg0 v) \<and> off + n \<le> view_size v"

section \<open>Scanning and hashing a view (chunk/fast_cdc_streaming.cc)\<close>

fun virtual_steps :: "StreamSegmentView \<Rightarrow> nat \<Rightarrow> u32 \<Rightarrow> u32 list \<Rightarrow> nat \<Rightarrow> nat \<Rightarrow> u32 \<Rightarrow> nat option" where
  "virtual_steps v w msk gear 0 i h = None"
| "virtual_steps v w msk gear (Suc n) i h =
     (if h AND msk = 0 then Some i
      else virtual_steps v w msk gear n (i + 1) (push_bit 1 h + gear ! unat (view_at v i) - gear ! unat (view_at v (i - w))))"

definition ScanGearCutVirtual :: "StreamSegmentView \<Rightarrow> nat \<Rightarrow> nat \<Rightarrow> nat \<Rightarrow> u32 \<Rightarrow> u32 list \<Rightarrow> nat option" where
  "ScanGearCutVirtual v scan_start cut_limit w msk gear =
     (if scan_start \<ge> cut_limit then None
      else if scan_start < w then None
      else virtual_steps v w msk gear (cut_limit - scan_start) scan_start
        (foldl (\<lambda>h i. push_bit 1 h + gear ! unat (view_at v i)) 0 [scan_start - w..<scan_start]))"

definition HashVirtualRegion :: "DigestAlgo \<Rightarrow> StreamSegmentView \<Rightarrow> nat \<Rightarrow> nat \<Rightarrow> bytes option" where
  "HashVirtualRegion algo v off n =
     (let l0 = length (seg0 v) in
      if region_in_seg1 v off n then Some (ContentHash algo (slice_at (off - l0) n (seg1 v)))
      else if off + n \<le> l0 then Some (ContentHash algo (slice_at off n (seg0 v)))
      else map_option (ContentHash algo) (copy_range v off n))"

text \<open>
  When the caller has the whole file in memory (\<open>digest_base\<close>), the regions are hashed there. The digest pool
  only distributes the regions over threads.
\<close>

definition HashVirtualRegions ::
  "DigestAlgo \<Rightarrow> StreamSegmentView \<Rightarrow> (nat \<times> u32) list \<Rightarrow> u64 \<Rightarrow> bytes option \<Rightarrow> ChunkDescriptor list option" where
  "HashVirtualRegions algo v cuts base dbase =
     those (map (\<lambda>(off, n).
       map_option (\<lambda>h. \<lparr>ck_offset = word_of_nat off, ck_length = n, ck_hash = h, reused_from_cfi = False\<rparr>)
         (case dbase of
            Some whole \<Rightarrow>
              (let p = unat (base + word_of_nat off) in
               if p + unat n \<le> length whole then Some (ContentHash algo (slice_at p (unat n) whole)) else None)
          | None \<Rightarrow> HashVirtualRegion algo v off (unat n))) cuts)"

record FastCdcStreamState =
  stream_config :: FastCdcConfig
  stream_gear :: "u32 list"
  carry :: bytes
  logical_base :: u64
  stream_offset :: nat
  gear_ready :: bool
  digest_base :: "bytes option"

text \<open>
  The carry is resized before the tail is copied, and the view still points into it. When the tail begins in
  the old carry, growing it may free the bytes the view points to, and a copy onto overlapping bytes is undefined: both are
  \<open>None\<close>.
\<close>

definition SetCarryTail :: "FastCdcStreamState \<Rightarrow> StreamSegmentView \<Rightarrow> nat \<Rightarrow> FastCdcStreamState option" where
  "SetCarryTail st v consumed =
     (let total = view_size v; l0 = length (seg0 v); tail_len = total - consumed in
      if consumed \<ge> total then Some (st\<lparr>carry := []\<rparr>)
      else if consumed < l0 \<and> (tail_len > l0 \<or> consumed < l0 - consumed) then None
      else map_option (\<lambda>bs. st\<lparr>carry := bs\<rparr>) (copy_range v consumed tail_len))"

text \<open>
  One scan of the loop. When the position is behind the carry the source continues in an inner loop of its own;
  as positions only grow it stays there, so the test is made in each round here.
\<close>

definition virtual_scan :: "StreamSegmentView \<Rightarrow> nat \<Rightarrow> nat \<Rightarrow> nat \<Rightarrow> nat \<Rightarrow> u32 \<Rightarrow> u32 list \<Rightarrow> nat option option" where
  "virtual_scan v pos scan_start lim w msk gear =
     (let l0 = length (seg0 v);
          in_seg1 = scan_start \<ge> l0 \<and> lim \<le> view_size v;
          scan1 = map_option (map_option (\<lambda>rel. rel + l0)) (ScanGearCut (seg1 v) (scan_start - l0) (lim - l0) w msk gear)
      in if l0 > 0 \<and> pos \<ge> l0 then
           (if scan_start \<ge> w \<and> scan_start < lim \<and> in_seg1 then scan1 else Some None)
         else if scan_start \<ge> w \<and> scan_start < lim then
           (if l0 = 0 then ScanGearCut (seg1 v) scan_start lim w msk gear
            else if in_seg1 then scan1
            else Some (ScanGearCutVirtual v scan_start lim w msk gear))
         else Some None)"

text \<open>One round of the loop for more than a smallest chunk: the next cut, or the end of the loop (\<open>Some None\<close>).\<close>

definition virtual_cut ::
  "FastCdcConfig \<Rightarrow> StreamSegmentView \<Rightarrow> nat \<Rightarrow> bool \<Rightarrow> u32 \<Rightarrow> u32 list \<Rightarrow> nat \<Rightarrow> nat option option" where
  "virtual_cut cfg v proc_len is_last msk gear pos =
     (let mn = unat (min_size cfg); mx = unat (max_size cfg) in
      case virtual_scan v pos (pos + mn) (min (pos + mx) proc_len) (unat (window_size cfg)) msk gear of
        None \<Rightarrow> None
      | Some (Some c) \<Rightarrow> Some (Some c)
      | Some None \<Rightarrow>
          if proc_len - pos > mx then Some (Some (pos + mx))
          else if is_last then Some (Some proc_len)
          else Some None)"

text \<open>The cuts of a feed, and the position behind the last of them.\<close>

partial_function (option) virtual_loop ::
  "FastCdcConfig \<Rightarrow> StreamSegmentView \<Rightarrow> nat \<Rightarrow> bool \<Rightarrow> u32 \<Rightarrow> u32 list \<Rightarrow> nat \<Rightarrow> ((nat \<times> u32) list \<times> nat) option" where
  "virtual_loop cfg v proc_len is_last msk gear pos =
     (if pos \<ge> proc_len then Some ([], pos)
      else if proc_len - pos \<le> unat (min_size cfg) then
        Some (if is_last then [(pos, word_of_nat (proc_len - pos))] else [], pos)
      else
        (case virtual_cut cfg v proc_len is_last msk gear pos of
           None \<Rightarrow> None
         | Some None \<Rightarrow> Some ([], pos)
         | Some (Some c) \<Rightarrow>
             Option.bind (virtual_loop cfg v proc_len is_last msk gear c)
               (\<lambda>(cs, p). Some ((pos, word_of_nat (c - pos)) # cs, p))))"

definition rebased :: "u64 \<Rightarrow> ChunkDescriptor list \<Rightarrow> ChunkDescriptor list" where
  "rebased base ds = map (\<lambda>d. d\<lparr>ck_offset := ck_offset d + base\<rparr>) ds"

text \<open>Hashing the cuts of a feed and carrying what is behind \<open>consumed\<close>.\<close>

definition emit_cuts ::
  "FastCdcStreamState \<Rightarrow> StreamSegmentView \<Rightarrow> (nat \<times> u32) list \<Rightarrow> nat \<Rightarrow> (FastCdcStreamState \<times> ChunkDescriptor list) option" where
  "emit_cuts st v cuts consumed =
     Option.bind (HashVirtualRegions (cdc_digest (stream_config st)) v cuts (logical_base st) (digest_base st))
       (\<lambda>ds. Option.bind (SetCarryTail (st\<lparr>logical_base := logical_base st + word_of_nat consumed\<rparr>) v consumed)
         (\<lambda>st'. Some (st', rebased (logical_base st) ds)))"

definition ChunkCarryPrefixVirtual ::
  "FastCdcStreamState \<Rightarrow> StreamSegmentView \<Rightarrow> nat \<Rightarrow> bool \<Rightarrow> (FastCdcStreamState \<times> ChunkDescriptor list) option" where
  "ChunkCarryPrefixVirtual st v proc_len is_last =
     (let cfg = stream_config st; mn = unat (min_size cfg) in
      if proc_len = 0 then Some (st, [])
      else if proc_len \<le> mn then
        (if \<not> is_last then Some (st, []) else emit_cuts st v [(0, word_of_nat proc_len)] proc_len)
      else if mn = 0 then None
      else Option.bind (virtual_loop cfg v proc_len is_last (BuildMask (avg_size cfg)) (stream_gear st) 0)
        (\<lambda>(cuts, pos).
           if cuts = [] then Option.bind (SetCarryTail st v pos) (\<lambda>st'. Some (st', []))
           else emit_cuts st v cuts pos))"

definition FastCdcStreamInit :: "FastCdcConfig \<Rightarrow> FastCdcStreamState" where
  "FastCdcStreamInit cfg =
     \<lparr>stream_config = cfg, stream_gear = gear_table, carry = [], logical_base = 0, stream_offset = 0, gear_ready = True,
      digest_base = None\<rparr>"

text \<open>Both return \<open>Ok\<close> for pointers that are not null.\<close>

definition FastCdcStreamFeed ::
  "FastCdcStreamState \<Rightarrow> bytes \<Rightarrow> bool \<Rightarrow> (FastCdcStreamState \<times> ChunkDescriptor list) option" where
  "FastCdcStreamFeed st0 bs is_last =
     (let st = (if gear_ready st0 then st0 else FastCdcStreamInit (stream_config st0)) in
      if bs = [] \<and> \<not> is_last then Some (st, [])
      else
        let v = \<lparr>seg0 = carry st, seg1 = bs\<rparr>; mn = unat (min_size (stream_config st));
            st1 = st\<lparr>stream_offset := stream_offset st + length bs\<rparr>
        in if \<not> is_last then
             (if view_size v \<le> mn then Some (st1, []) else ChunkCarryPrefixVirtual st1 v (view_size v - mn) is_last)
           else ChunkCarryPrefixVirtual st1 v (view_size v) is_last)"

definition FastCdcStreamFinish :: "FastCdcStreamState \<Rightarrow> (FastCdcStreamState \<times> ChunkDescriptor list) option" where
  "FastCdcStreamFinish st =
     (if carry st = [] then Some (st, [])
      else ChunkCarryPrefixVirtual st \<lparr>seg0 = carry st, seg1 = []\<rparr> (length (carry st)) True)"

section \<open>The loop that feeds it (pipeline/backup_pipeline.cc)\<close>

definition kStreamFeedBytes :: nat where "kStreamFeedBytes = 32 * 1024 * 1024"

definition StreamFeedBytesForFile :: "nat \<Rightarrow> nat" where
  "StreamFeedBytesForFile byte_len = (if byte_len \<le> kStreamFeedBytes then byte_len else kStreamFeedBytes)"

text \<open>
  The chunks of a file in the order in which they are queued. \<open>Inl\<close> is the status with which the file is given
  up: more chunks than hash slots.
\<close>

partial_function (option) stream_feed_loop ::
  "bytes \<Rightarrow> nat \<Rightarrow> nat \<Rightarrow> FastCdcStreamState \<Rightarrow> nat \<Rightarrow> nat \<Rightarrow> (Status + ChunkDescriptor list) option" where
  "stream_feed_loop bs feed_bytes slots st pos chunk_index =
     (if pos < length bs then
        (let n = min feed_bytes (length bs - pos) in
         case FastCdcStreamFeed st (slice_at pos n bs) (pos + n \<ge> length bs) of
           None \<Rightarrow> None
         | Some (st', batch) \<Rightarrow>
             if batch \<noteq> [] \<and> chunk_index + length batch > slots then Some (Inl (Internal ''streaming chunk index overflow''))
             else Option.bind (stream_feed_loop bs feed_bytes slots st' (pos + n) (chunk_index + length batch))
               (\<lambda>r. Some (case r of Inl e \<Rightarrow> Inl e | Inr ds \<Rightarrow> Inr (batch @ ds))))
      else Some (Inr []))"

definition ChunkFileStreamingFeed :: "ChunkProfileMode \<Rightarrow> DigestAlgo \<Rightarrow> bytes \<Rightarrow> (Status + ChunkDescriptor list) option" where
  "ChunkFileStreamingFeed profile algo bs =
     (let cfg = fast (EbHcrboConfigForFileSize (length bs) profile algo);
          st = (FastCdcStreamInit cfg)\<lparr>digest_base := Some bs\<rparr>;
          slots = (if bs = [] then 0 else max 1 (length bs div unat (min_size cfg) + 2))
      in stream_feed_loop bs (StreamFeedBytesForFile (length bs)) slots st 0 0)"

section \<open>A view reads like its bytes\<close>

lemma view_at_append: "view_at v i = (seg0 v @ seg1 v) ! i"
  by (simp add: view_at_def nth_append)

lemma view_size_append: "view_size v = length (seg0 v @ seg1 v)"
  by (simp add: view_size_def)

lemma copy_range_eq: "pos + n \<le> view_size v \<Longrightarrow> copy_range v pos n = Some (slice_at pos n (seg0 v @ seg1 v))"
proof (induction n arbitrary: pos rule: less_induct)
  case (less n)
  define l0 where "l0 = length (seg0 v)"
  define k where "k = (if pos < l0 then min n (l0 - pos) else min n (view_size v - pos))"
  define part where "part = (if pos < l0 then slice_at pos k (seg0 v) else slice_at (pos - l0) k (seg1 v))"
  show ?case
  proof (cases "n = 0")
    case True
    then show ?thesis by (subst copy_range.simps) (simp add: slice_at_def)
  next
    case False
    have k: "0 < k" "k \<le> n" using False less.prems by (auto simp: k_def)
    have part: "part = slice_at pos k (seg0 v @ seg1 v)"
      by (auto simp: part_def k_def l0_def slice_at_append)
    have "copy_range v (pos + k) (n - k) = Some (slice_at (pos + k) (n - k) (seg0 v @ seg1 v))"
      using less.IH [of "n - k" "pos + k"] less.prems k by simp
    moreover have "copy_range v pos n = Option.bind (copy_range v (pos + k) (n - k)) (\<lambda>rest. Some (part @ rest))"
      using False by (subst copy_range.simps) (simp add: Let_def k_def part_def l0_def)
    ultimately have "copy_range v pos n = Some (part @ slice_at (pos + k) (n - k) (seg0 v @ seg1 v))" by simp
    then show ?thesis using slice_at_split [OF k(2)] by (simp add: part)
  qed
qed

lemma HashVirtualRegion_eq:
  assumes "off + n \<le> view_size v"
  shows "HashVirtualRegion algo v off n = Some (ContentHash algo (slice_at off n (seg0 v @ seg1 v)))"
proof (cases "region_in_seg1 v off n")
  case True
  then show ?thesis by (simp add: HashVirtualRegion_def region_in_seg1_def slice_at_append)
next
  case False
  then show ?thesis using assms copy_range_eq [OF assms]
    by (auto simp: HashVirtualRegion_def region_in_seg1_def Let_def slice_at_append)
qed

section \<open>Scans of a view and scans of the file\<close>

lemma virtual_steps_eq:
  "found_cut (gear_steps (seg0 v @ seg1 v) w msk gear n i h) = Some (virtual_steps v w msk gear n i h)" if "w \<le> i"
  using that by (induction n arbitrary: i h) (simp_all add: found_cut_def view_at_append)

lemma foldl_window:
  assumes "w \<le> s" "s \<le> length bs"
  shows "InitWindowHash bs s w gear = foldl (\<lambda>h i. push_bit 1 h + gear ! unat (bs ! i)) 0 [s - w..<s]"
proof -
  have "slice_at (s - w) w bs = map ((!) bs) [s - w..<s]"
    using assms by (intro nth_equalityI) (simp_all add: slice_at_def)
  then show ?thesis using assms(1) by (simp add: InitWindowHash_def foldl_map)
qed

lemma ScanGearCutVirtual_eq:
  assumes "w \<le> start" "start < lim" "lim \<le> view_size v"
  shows "ScanGearCut (seg0 v @ seg1 v) start lim w msk gear = Some (ScanGearCutVirtual v start lim w msk gear)"
  using assms foldl_window [of w start "seg0 v @ seg1 v" gear]
  by (simp add: ScanGearCut_steps ScanGearCutVirtual_def virtual_steps_eq view_at_append view_size_def)

lemma gear_steps_shift:
  assumes "\<And>j. j < length bs \<Longrightarrow> bs ! j = whole ! (A + j)"
  shows "w \<le> i \<Longrightarrow> i + n \<le> length bs \<Longrightarrow>
    found_cut (gear_steps whole w msk gear n (A + i) h) = map_option (map_option ((+) A)) (found_cut (gear_steps bs w msk gear n i h))"
proof (induction n arbitrary: i h)
  case 0
  then show ?case by (simp add: found_cut_def)
next
  case (Suc n)
  show ?case
  proof (cases "h AND msk = 0")
    case True
    then show ?thesis by (simp add: found_cut_def)
  next
    case False
    have e: "bs ! i = whole ! (A + i)" "bs ! (i - w) = whole ! (A + i - w)"
      using Suc.prems assms [of i] assms [of "i - w"] by simp_all
    show ?thesis using False Suc.prems Suc.IH [of "i + 1"] by (simp add: e)
  qed
qed

lemma ScanGearCut_shift:
  assumes s: "bs = slice_at A (length bs) whole" and "w \<le> start" "start \<le> lim" "lim \<le> length bs"
  shows "ScanGearCut whole (A + start) (A + lim) w msk gear = map_option (map_option ((+) A)) (ScanGearCut bs start lim w msk gear)"
proof -
  have "length bs \<le> length whole - A" using arg_cong [OF s, of length] by (metis length_slice_at min.cobounded2)
  then have A: "bs = [] \<or> A + length bs \<le> length whole" by (cases bs) auto
  have n: "bs ! j = whole ! (A + j)" if "j < length bs" for j
    using that A by (subst s) (auto simp: slice_at_def)
  have "slice_at (A + start - w) w whole = slice_at (start - w) w bs"
  proof (rule nth_equalityI)
    show "length (slice_at (A + start - w) w whole) = length (slice_at (start - w) w bs)"
      using assms(2-4) A by (auto simp: slice_at_def)
    fix i assume "i < length (slice_at (A + start - w) w whole)"
    then show "slice_at (A + start - w) w whole ! i = slice_at (start - w) w bs ! i"
      using assms(2-4) n [of "start - w + i"] A by (auto simp: slice_at_def add.assoc)
  qed
  then have "InitWindowHash whole (A + start) w gear = InitWindowHash bs start w gear"
    using assms(2) by (simp add: InitWindowHash_def)
  then show ?thesis
    using gear_steps_shift [of bs whole A w start "lim - start" msk gear, OF n] assms(2-4) by (simp add: ScanGearCut_steps)
qed

lemma ScanGearCut_more:
  assumes "ScanGearCut bs start lim w msk gear = Some (Some c)" "lim \<le> lim'"
  shows "ScanGearCut bs start lim' w msk gear = Some (Some c)"
proof -
  let ?h = "InitWindowHash bs start w gear"
  have g: "gear_steps bs w msk gear (lim - start) start ?h = Some (Inl c)"
  proof -
    obtain x where "gear_steps bs w msk gear (lim - start) start ?h = Some x" "(case x of Inl c \<Rightarrow> Some c | Inr h \<Rightarrow> None) = Some c"
      using assms(1) by (auto simp: ScanGearCut_steps found_cut_def)
    then show ?thesis by (cases x) simp_all
  qed
  have "lim' - start = (lim - start) + ((lim' - start) - (lim - start))" using assms(2) by simp
  then have "gear_steps bs w msk gear (lim' - start) start ?h = Some (Inl c)"
    using g gear_steps_add [of bs w msk gear "lim - start" "(lim' - start) - (lim - start)" start ?h] by simp
  then show ?thesis by (simp add: ScanGearCut_steps found_cut_def)
qed

text \<open>
  A scan that begins in the first window of the new segment reads no byte of the carry: its hash stays zero and it
  cuts at once. Every other scan sees the bytes of the file.
\<close>

definition blind :: "StreamSegmentView \<Rightarrow> nat \<Rightarrow> nat \<Rightarrow> bool" where
  "blind v w start \<longleftrightarrow> 0 < length (seg0 v) \<and> length (seg0 v) \<le> start \<and> start < length (seg0 v) + w"

lemma blind_scan:
  assumes "start < w" "start < lim"
  shows "ScanGearCut bs start lim w msk gear = Some (Some start)"
proof -
  obtain n where "lim - start = Suc n" using assms(2) by (metis Suc_diff_Suc)
  then show ?thesis using assms(1) by (simp add: ScanGearCut_steps InitWindowHash_def found_cut_def)
qed

lemma virtual_scan_eq:
  assumes "w \<le> start" "start < lim" "lim \<le> view_size v" "pos \<le> start"
  shows "virtual_scan v pos start lim w msk gear =
    (if blind v w start then Some (Some start) else ScanGearCut (seg0 v @ seg1 v) start lim w msk gear)"
proof -
  let ?l = "length (seg0 v)"
  let ?scan1 = "map_option (map_option (\<lambda>rel. rel + ?l)) (ScanGearCut (seg1 v) (start - ?l) (lim - ?l) w msk gear)"
  have tail: "?scan1 = (if blind v w start then Some (Some start) else ScanGearCut (seg0 v @ seg1 v) start lim w msk gear)"
    if l: "0 < ?l" "?l \<le> start"
  proof (cases "blind v w start")
    case True
    then have "ScanGearCut (seg1 v) (start - ?l) (lim - ?l) w msk gear = Some (Some (start - ?l))"
      using assms(2) l by (intro blind_scan) (auto simp: blind_def)
    then show ?thesis using True l by simp
  next
    case False
    have "ScanGearCut (seg0 v @ seg1 v) (?l + (start - ?l)) (?l + (lim - ?l)) w msk gear =
        map_option (map_option ((+) ?l)) (ScanGearCut (seg1 v) (start - ?l) (lim - ?l) w msk gear)"
      using False l assms by (intro ScanGearCut_shift) (auto simp: blind_def slice_at_def view_size_def)
    moreover have "(\<lambda>rel. rel + ?l) = (+) ?l" by (simp add: fun_eq_iff)
    ultimately show ?thesis using False l assms(2) by simp
  qed
  show ?thesis
  proof (cases "?l \<le> start \<and> 0 < ?l")
    case True
    then show ?thesis using assms tail by (simp add: virtual_scan_def Let_def)
  next
    case False
    then have "\<not> blind v w start" by (auto simp: blind_def)
    then show ?thesis
      using False assms ScanGearCutVirtual_eq [OF assms(1-3), of msk gear] by (auto simp: virtual_scan_def Let_def)
  qed
qed

lemma virtual_scan_none: "lim \<le> start \<Longrightarrow> virtual_scan v pos start lim w msk gear = Some None"
  by (simp add: virtual_scan_def Let_def)

section \<open>The cuts of a streamed file\<close>

text \<open>
  A chunk whose scan begins in the first window of a segment that is not the first is cut at its smallest size;
  every other one is cut as in a whole buffer.
\<close>

definition near_segment :: "nat \<Rightarrow> FastCdcConfig \<Rightarrow> nat \<Rightarrow> bool" where
  "near_segment feed cfg p \<longleftrightarrow>
     feed \<le> p + unat (min_size cfg) \<and> (p + unat (min_size cfg)) mod feed < unat (window_size cfg)"

definition stream_next :: "nat \<Rightarrow> bytes \<Rightarrow> FastCdcConfig \<Rightarrow> u32 \<Rightarrow> u32 list \<Rightarrow> nat \<Rightarrow> nat option" where
  "stream_next feed bs cfg msk gear p =
     (if near_segment feed cfg p \<and> unat (min_size cfg) < length bs - p \<and> min_size cfg < max_size cfg
      then Some (p + unat (min_size cfg)) else NextChunkCutEnd bs p cfg msk gear)"

lemma stream_next_ok:
  assumes "cdc_sizes cfg"
  shows "next_ok cfg (length bs) (stream_next feed bs cfg msk gear)"
  unfolding next_ok_def
proof (intro allI impI)
  fix p assume p: "p < length bs"
  have m: "0 < unat (min_size cfg)" "unat (min_size cfg) \<le> unat (max_size cfg)"
    using assms by (simp_all add: cdc_sizes_def word_le_nat_alt)
  show "\<exists>c. stream_next feed bs cfg msk gear p = Some c \<and> p < c \<and> c \<le> length bs \<and> c - p \<le> unat (max_size cfg) \<and>
      (c = length bs \<or> unat (min_size cfg) \<le> c - p)"
  proof (cases "near_segment feed cfg p \<and> unat (min_size cfg) < length bs - p \<and> min_size cfg < max_size cfg")
    case True
    then have "stream_next feed bs cfg msk gear p = Some (p + unat (min_size cfg))" by (simp add: stream_next_def)
    moreover have "p + unat (min_size cfg) \<le> length bs" using True p by linarith
    ultimately show ?thesis using m by simp
  next
    case False
    then have "stream_next feed bs cfg msk gear p = NextChunkCutEnd bs p cfg msk gear"
      by (simp only: stream_next_def if_False)
    then show ?thesis using NextChunkCutEnd_range [OF assms p] by metis
  qed
qed

lemma NextChunkCutEnd_scan:
  assumes "unat (min_size cfg) < length bs - p" "unat (window_size cfg) \<le> unat (min_size cfg)"
    and "p + unat (min_size cfg) < min (p + unat (max_size cfg)) (length bs)"
    and "ScanGearCut bs (p + unat (min_size cfg)) (min (p + unat (max_size cfg)) (length bs)) (unat (window_size cfg)) msk gear = Some r"
  shows "NextChunkCutEnd bs p cfg msk gear =
    Some (case r of Some c \<Rightarrow> c | None \<Rightarrow> if length bs - p > unat (max_size cfg) then p + unat (max_size cfg) else length bs)"
  using assms by (cases r) (simp_all add: NextChunkCutEnd_def Let_def)

lemma virtual_cut_eq:
  fixes cfg v whole A
  defines "mn \<equiv> unat (min_size cfg)" and "mx \<equiv> unat (max_size cfg)" and "w \<equiv> unat (window_size cfg)"
  assumes v: "seg0 v @ seg1 v = slice_at A (view_size v) whole" "A + view_size v \<le> length whole"
    and s: "cdc_sizes cfg" "w \<le> mn"
    and p: "proc \<le> view_size v" "mn < proc - pos" "is_last \<longrightarrow> A + proc = length whole"
    and b: "blind v w (pos + mn) = near_segment feed cfg (A + pos)"
  shows "\<exists>r. virtual_cut cfg v proc is_last msk gear pos = Some r \<and>
    (case r of None \<Rightarrow> \<not> is_last \<and> proc - pos \<le> mx
     | Some c \<Rightarrow> pos < c \<and> c \<le> proc \<and> c - pos \<le> mx \<and> mn \<le> c - pos \<and> stream_next feed whole cfg msk gear (A + pos) = Some (A + c))"
proof -
  let ?lim = "min (pos + mx) proc" and ?bs = "seg0 v @ seg1 v"
  have m: "0 < mn" "mn \<le> mx" using s(1) by (simp_all add: mn_def mx_def cdc_sizes_def word_le_nat_alt)
  have lt: "min_size cfg < max_size cfg \<longleftrightarrow> mn < mx" by (simp add: mn_def mx_def word_less_nat_alt)
  have rem: "mn < length whole - (A + pos)" "A + (pos + mn) < length whole" using p v(2) by linarith+
  have cut: "virtual_cut cfg v proc is_last msk gear pos =
      (case virtual_scan v pos (pos + mn) ?lim w msk gear of
        None \<Rightarrow> None
      | Some (Some c) \<Rightarrow> Some (Some c)
      | Some None \<Rightarrow> if proc - pos > mx then Some (Some (pos + mx)) else if is_last then Some (Some proc) else Some None)"
    unfolding virtual_cut_def Let_def mn_def mx_def w_def by (rule refl)
  show ?thesis
  proof (cases "mn < mx")
    case False
    then have "virtual_cut cfg v proc is_last msk gear pos = Some (Some (pos + mx))"
      using m p(2) virtual_scan_none [of ?lim "pos + mn"] by (simp add: cut)
    moreover have "stream_next feed whole cfg msk gear (A + pos) = Some (A + (pos + mx))"
      using False lt rem m unfolding stream_next_def NextChunkCutEnd_def Let_def mn_def [symmetric] mx_def [symmetric] by simp
    ultimately show ?thesis using m p(2) False by simp
  next
    case True
    note lims = m True p(1,2)
    have start: "pos + mn < ?lim" "?lim \<le> view_size v" using lims by auto
    have scan: "virtual_scan v pos (pos + mn) ?lim w msk gear =
        (if blind v w (pos + mn) then Some (Some (pos + mn)) else ScanGearCut ?bs (pos + mn) ?lim w msk gear)"
      using s(2) start by (intro virtual_scan_eq) auto
    show ?thesis
    proof (cases "blind v w (pos + mn)")
      case True
      then have "stream_next feed whole cfg msk gear (A + pos) = Some (A + (pos + mn))"
        using b rem lt \<open>mn < mx\<close> unfolding stream_next_def mn_def [symmetric] by simp
      then show ?thesis using True lims by (simp add: cut scan)
    next
      case False
      obtain x where x: "ScanGearCut ?bs (pos + mn) ?lim w msk gear = Some x" "\<And>c. x = Some c \<Longrightarrow> pos + mn \<le> c \<and> c < ?lim"
        using ScanGearCut_range [of w "pos + mn" ?bs ?lim msk gear] s(2) by auto
      have l: "length ?bs = view_size v" by (simp add: view_size_def)
      have sh: "ScanGearCut whole (A + (pos + mn)) (A + ?lim) w msk gear = Some (map_option ((+) A) x)"
      proof -
        have q: "?bs = slice_at A (length ?bs) whole" unfolding l by (rule v(1))
        have "w \<le> pos + mn" "pos + mn \<le> ?lim" "?lim \<le> length ?bs" unfolding l using s(2) start by linarith+
        from ScanGearCut_shift [OF q this, of msk gear] show ?thesis unfolding x(1) option.map .
      qed
      have nx: "stream_next feed whole cfg msk gear (A + pos) = NextChunkCutEnd whole (A + pos) cfg msk gear"
        using False b by (simp add: stream_next_def)
      note next_scan = NextChunkCutEnd_scan [where cfg = cfg and bs = whole and p = "A + pos",
          folded mn_def mx_def w_def, OF rem(1) s(2)]
      show ?thesis
      proof (cases x)
        case (Some c)
        have "ScanGearCut whole (A + pos + mn) (min (A + pos + mx) (length whole)) w msk gear = Some (Some (A + c))"
          using ScanGearCut_more [of whole "A + (pos + mn)" "A + ?lim" w msk gear "A + c" "min (A + pos + mx) (length whole)"]
            sh Some p(1) v(2) by (simp add: add.assoc)
        then have "NextChunkCutEnd whole (A + pos) cfg msk gear = Some (A + c)"
          using next_scan [of msk gear "Some (A + c)"] lims v(2) by simp
        moreover have "pos < c \<and> c \<le> proc \<and> c - pos \<le> mx \<and> mn \<le> c - pos" using x(2) [OF Some] m by auto
        ultimately show ?thesis using Some x(1) False by (simp add: cut scan nx)
      next
        case None
        show ?thesis
        proof (cases "proc - pos > mx \<or> is_last")
          case True
          have e: "min (A + pos + mx) (length whole) = A + ?lim" using True lims v(2) p(3) by auto
          have "NextChunkCutEnd whole (A + pos) cfg msk gear =
              Some (if length whole - (A + pos) > mx then A + pos + mx else length whole)"
            using next_scan [of msk gear None] sh None start e rem by (simp add: add.assoc split: if_splits)
          moreover have "(if length whole - (A + pos) > mx then A + pos + mx else length whole) =
              A + (if proc - pos > mx then pos + mx else proc)"
            using True lims v(2) p(3) by auto
          moreover have "pos < proc" "mx < proc - pos \<longrightarrow> pos + mx \<le> proc" using lims by linarith+
          ultimately show ?thesis using True None x(1) lims False p(3) by (simp add: cut scan nx)
        next
          case notlast: False
          then show ?thesis unfolding cut scan using None x(1) False by simp
        qed
      qed
    qed
  qed
qed

lemma stream_next_end: "length bs - p \<le> unat (min_size cfg) \<Longrightarrow> stream_next feed bs cfg msk gear p = Some (length bs)"
  by (simp add: stream_next_def NextChunkCutEnd_def)

text \<open>
  The loop of a feed makes the next cuts of the file. When the segment is not the last one, it stops at most a largest chunk
  before the end of what it may cut.
\<close>

lemma virtual_loop_eq:
  fixes cfg v whole A msk gear
  defines "mn \<equiv> unat (min_size cfg)" and "mx \<equiv> unat (max_size cfg)" and "w \<equiv> unat (window_size cfg)"
  assumes v: "seg0 v @ seg1 v = slice_at A (view_size v) whole" "A + view_size v \<le> length whole"
    and s: "cdc_sizes cfg" "w \<le> mn"
    and p: "proc \<le> view_size v" "is_last \<longrightarrow> A + proc = length whole"
    and b: "\<And>p. mn < proc - p \<Longrightarrow> blind v w (p + mn) = near_segment feed cfg (A + p)"
  defines "nxt \<equiv> stream_next feed whole cfg msk gear"
  shows "pos \<le> proc \<Longrightarrow> \<exists>cs p. virtual_loop cfg v proc is_last msk gear pos = Some (cs, p) \<and> pos \<le> p \<and> p \<le> proc \<and>
    list_all (\<lambda>(off, n). off + unat n \<le> proc) cs \<and> (cs = [] \<longrightarrow> p = pos) \<and>
    proc - p \<le> (if is_last then mn else mx) \<and> (is_last \<and> mn < proc - pos \<longrightarrow> pos + mn \<le> p) \<and>
    cuts_by nxt (length whole) (A + pos) =
      (if is_last then Some (shifted A cs) else map_option (append (shifted A cs)) (cuts_by nxt (length whole) (A + p)))"
proof (induction "proc - pos" arbitrary: pos rule: less_induct)
  case less
  have m: "0 < mn" "mn \<le> mx" using s(1) by (simp_all add: mn_def mx_def cdc_sizes_def word_le_nat_alt)
  have id: "map_option (append []) r = r" for r :: "(nat \<times> u32) list option" by (cases r) simp_all
  let ?loop = "virtual_loop cfg v proc is_last msk gear"
  consider "pos = proc" | "pos < proc" "proc - pos \<le> mn" "is_last" | "pos < proc" "proc - pos \<le> mn" "\<not> is_last" | "mn < proc - pos"
    using less.prems by linarith
  then show ?case
  proof cases
    case 1
    have "?loop pos = Some ([], pos)" using 1 by (subst virtual_loop.simps) simp
    moreover have "is_last \<longrightarrow> cuts_by nxt (length whole) (A + pos) = Some []" using 1 p(2) cuts_by_end by auto
    ultimately show ?thesis using 1 by (auto simp: id)
  next
    case 2
    have loop: "?loop pos = Some ([(pos, word_of_nat (proc - pos))], pos)"
      using 2 by (subst virtual_loop.simps) (simp add: mn_def)
    have e: "A + pos < length whole" "length whole - (A + pos) = proc - pos" using 2 p by linarith+
    have "nxt (A + pos) = Some (length whole)"
      unfolding nxt_def using 2(2) e(2) by (intro stream_next_end) (simp add: mn_def [symmetric])
    then have cuts: "cuts_by nxt (length whole) (A + pos) = Some (shifted A [(pos, word_of_nat (proc - pos))])"
      using cuts_by_step [where nxt = nxt] cuts_by_end [OF order_refl] e by (metis option.simps(9) shifted_simps)
    have n: "unat (word_of_nat (proc - pos) :: u32) = proc - pos" using 2 by (intro unat_length) (simp add: mn_def)
    show ?thesis
      unfolding loop cuts by (intro exI [of _ "[(pos, word_of_nat (proc - pos))]"] exI [of _ pos]) (use 2 n in simp)
  next
    case 3
    have "?loop pos = Some ([], pos)" using 3 by (subst virtual_loop.simps) (simp add: mn_def)
    then show ?thesis using 3 m by (simp add: id)
  next
    case 4
    obtain r where r: "virtual_cut cfg v proc is_last msk gear pos = Some r"
      "case r of None \<Rightarrow> \<not> is_last \<and> proc - pos \<le> mx
       | Some c \<Rightarrow> pos < c \<and> c \<le> proc \<and> c - pos \<le> mx \<and> mn \<le> c - pos \<and> nxt (A + pos) = Some (A + c)"
      using virtual_cut_eq [OF v s [unfolded w_def mn_def] p(1) 4 [unfolded mn_def] p(2) b [OF 4, unfolded w_def mn_def], of msk gear]
      unfolding mn_def [symmetric] mx_def [symmetric] nxt_def [symmetric] by blast
    have loop: "?loop pos = (case r of None \<Rightarrow> Some ([], pos) | Some c \<Rightarrow>
        Option.bind (?loop c) (\<lambda>(cs, p). Some ((pos, word_of_nat (c - pos)) # cs, p)))"
    proof -
      have "\<not> pos \<ge> proc" "\<not> proc - pos \<le> unat (min_size cfg)" using 4 unfolding mn_def by linarith+
      then show ?thesis using r(1) by (subst virtual_loop.simps) (simp split: option.split)
    qed
    show ?thesis
    proof (cases r)
      case None
      then show ?thesis using loop r(2) less.prems by (auto simp: id)
    next
      case (Some c)
      note c = r(2) [unfolded Some option.case]
      have "proc - c < proc - pos" using c 4 by linarith
      from less.hyps [OF this] c obtain cs p where i: "?loop c = Some (cs, p)" "c \<le> p" "p \<le> proc"
        "list_all (\<lambda>(off, n). off + unat n \<le> proc) cs" "proc - p \<le> (if is_last then mn else mx)"
        "cuts_by nxt (length whole) (A + c) =
          (if is_last then Some (shifted A cs) else map_option (append (shifted A cs)) (cuts_by nxt (length whole) (A + p)))"
        by blast
      have n: "unat (word_of_nat (c - pos) :: u32) = c - pos" using c by (intro unat_length [of _ "max_size cfg"]) (simp add: mx_def)
      have "A + pos < length whole" using 4 p(1) v(2) by linarith
      then have "cuts_by nxt (length whole) (A + pos) =
          map_option ((#) (A + pos, word_of_nat (c - pos))) (cuts_by nxt (length whole) (A + c))"
        using cuts_by_step [where nxt = nxt] c by simp
      then have "cuts_by nxt (length whole) (A + pos) =
          (if is_last then Some (shifted A ((pos, word_of_nat (c - pos)) # cs))
           else map_option (append (shifted A ((pos, word_of_nat (c - pos)) # cs))) (cuts_by nxt (length whole) (A + p)))"
        unfolding i(6) by (cases "cuts_by nxt (length whole) (A + p)") simp_all
      moreover have "?loop pos = Some ((pos, word_of_nat (c - pos)) # cs, p)" by (simp add: loop Some i(1))
      moreover have "pos \<le> p" "pos + mn \<le> p" using c i(2) m by linarith+
      ultimately show ?thesis using i c n by auto
    qed
  qed
qed

text \<open>Copying the tail is defined when the tail lies in the new segment, or fits behind itself in the old carry.\<close>

lemma SetCarryTail_eq:
  assumes "p \<le> view_size v" "length (seg0 v) \<le> p \<or> (view_size v - p \<le> length (seg0 v) \<and> length (seg0 v) \<le> p + p)"
  shows "SetCarryTail st v p = Some (st\<lparr>carry := slice_at p (view_size v - p) (seg0 v @ seg1 v)\<rparr>)"
proof (cases "p = view_size v")
  case True
  then show ?thesis by (simp add: SetCarryTail_def slice_at_def)
next
  case False
  have "p + (view_size v - p) \<le> view_size v" using assms(1) by simp
  then show ?thesis using False assms copy_range_eq [of p "view_size v - p" v] by (auto simp: SetCarryTail_def Let_def)
qed

lemma those_map_Some: "\<forall>x\<in>set xs. f x = Some (g x) \<Longrightarrow> those (map f xs) = Some (map g xs)"
  by (induction xs) auto

lemma HashVirtualRegions_eq:
  assumes v: "seg0 v @ seg1 v = slice_at A (view_size v) whole" "A + view_size v \<le> length whole" "length whole < 2 ^ 64"
    and d: "dbase = None \<or> dbase = Some whole" and c: "list_all (\<lambda>(off, n). off + unat n \<le> view_size v) cs"
  shows "map_option (rebased (word_of_nat A)) (HashVirtualRegions algo v cs (word_of_nat A) dbase) =
    Some (HashChunkRegions algo whole (shifted A cs))"
proof -
  let ?g = "\<lambda>(off, n). \<lparr>ck_offset = word_of_nat off, ck_length = n, ck_hash = ContentHash algo (slice_at (A + off) (unat n) whole),
    reused_from_cfi = False\<rparr>"
  let ?f = "\<lambda>(off, n). map_option (\<lambda>h. \<lparr>ck_offset = word_of_nat off, ck_length = n, ck_hash = h, reused_from_cfi = False\<rparr>)
    (case dbase of None \<Rightarrow> HashVirtualRegion algo v off (unat n)
     | Some whole \<Rightarrow> let p = unat (word_of_nat A + word_of_nat off :: u64)
         in if p + unat n \<le> length whole then Some (ContentHash algo (slice_at p (unat n) whole)) else None)"
  have f: "?f (off, n) = Some (?g (off, n))" if m: "(off, n) \<in> set cs" for off n
  proof -
    have o: "off + unat n \<le> view_size v" using c m by (auto simp: list_all_iff)
    have a: "unat (word_of_nat A + word_of_nat off :: u64) = A + off"
      using o v(2,3) by (simp add: unat_of_nat flip: of_nat_add)
    have "HashVirtualRegion algo v off (unat n) = Some (ContentHash algo (slice_at (A + off) (unat n) whole))"
      unfolding HashVirtualRegion_eq [OF o] v(1) slice_of_slice [OF o] by (rule refl)
    then show ?thesis using d o v(2) by (auto simp: a Let_def)
  qed
  have "\<forall>x\<in>set cs. ?f x = Some (?g x)"
  proof
    fix x assume m: "x \<in> set cs"
    obtain off n where x: "x = (off, n)" by (rule prod.exhaust)
    show "?f x = Some (?g x)" unfolding x by (rule f [OF m [unfolded x]])
  qed
  then have "HashVirtualRegions algo v cs (word_of_nat A) dbase = Some (map ?g cs)"
    unfolding HashVirtualRegions_def by (rule those_map_Some)
  moreover have "rebased (word_of_nat A) (map ?g cs) = HashChunkRegions algo whole (shifted A cs)"
    by (auto simp: rebased_def HashChunkRegions_def shifted_def)
  ultimately show ?thesis by simp
qed

section \<open>One feed\<close>

text \<open>
  The state after the bytes before \<open>F\<close> have been fed and those before \<open>A\<close> have been cut.
\<close>

definition stream_at :: "bytes \<Rightarrow> FastCdcConfig \<Rightarrow> FastCdcStreamState \<Rightarrow> nat \<Rightarrow> nat \<Rightarrow> bool" where
  "stream_at whole cfg st A F \<longleftrightarrow> stream_config st = cfg \<and> stream_gear st = gear_table \<and> gear_ready st \<and>
     carry st = slice_at A (F - A) whole \<and> logical_base st = word_of_nat A \<and>
     (digest_base st = None \<or> digest_base st = Some whole) \<and> A \<le> F \<and> F \<le> length whole"

lemma emit_cuts_eq:
  assumes st: "stream_at whole cfg st A F" and v: "seg0 v = carry st" "seg0 v @ seg1 v = slice_at A (view_size v) whole"
      "A + view_size v \<le> length whole" "length whole < 2 ^ 64"
    and c: "list_all (\<lambda>(off, n). off + unat n \<le> view_size v) cs"
    and p: "p \<le> view_size v" "length (seg0 v) \<le> p \<or> (view_size v - p \<le> length (seg0 v) \<and> length (seg0 v) \<le> p + p)"
  shows "\<exists>st'. emit_cuts st v cs p = Some (st', HashChunkRegions (cdc_digest cfg) whole (shifted A cs)) \<and>
    stream_at whole cfg st' (A + p) (A + view_size v)"
proof -
  let ?st' = "st\<lparr>logical_base := word_of_nat (A + p), carry := slice_at p (view_size v - p) (seg0 v @ seg1 v)\<rparr>"
  note s = st [unfolded stream_at_def]
  have tail: "SetCarryTail (st\<lparr>logical_base := logical_base st + word_of_nat p\<rparr>) v p = Some ?st'"
    using SetCarryTail_eq [OF p] s by simp
  have db: "digest_base st = None \<or> digest_base st = Some whole" using s by simp
  obtain ds where ds: "HashVirtualRegions (cdc_digest cfg) v cs (word_of_nat A) (digest_base st) = Some ds"
    "rebased (word_of_nat A) ds = HashChunkRegions (cdc_digest cfg) whole (shifted A cs)"
    using HashVirtualRegions_eq [OF v(2-4) db c, of "cdc_digest cfg"] by auto
  have "emit_cuts st v cs p = Some (?st', HashChunkRegions (cdc_digest cfg) whole (shifted A cs))"
    unfolding emit_cuts_def using s tail ds by simp
  moreover have "slice_at p (view_size v - p) (seg0 v @ seg1 v) = slice_at (A + p) (A + view_size v - (A + p)) whole"
    using p(1) by (simp add: v(2) slice_of_slice)
  then have "stream_at whole cfg ?st' (A + p) (A + view_size v)"
    using s p(1) v(3) by (simp add: stream_at_def)
  ultimately show ?thesis by blast
qed

lemma ChunkCarryPrefixVirtual_emit:
  assumes "unat (min_size (stream_config st)) < proc" "unat (min_size (stream_config st)) \<noteq> 0"
    and "virtual_loop (stream_config st) v proc is_last (BuildMask (avg_size (stream_config st))) (stream_gear st) 0 = Some (cs, p)"
    and "cs = [] \<longrightarrow> p = 0"
  shows "ChunkCarryPrefixVirtual st v proc is_last = emit_cuts st v cs p"
proof -
  have "emit_cuts st v [] 0 = Option.bind (SetCarryTail st v 0) (\<lambda>st'. Some (st', []))"
    by (simp add: emit_cuts_def HashVirtualRegions_def rebased_def)
  then show ?thesis using assms by (auto simp: ChunkCarryPrefixVirtual_def Let_def)
qed

text \<open>The segments are fed at multiples of their size, and what is carried begins in the segment before.\<close>

definition feed_point :: "nat \<Rightarrow> nat \<Rightarrow> nat \<Rightarrow> bool" where
  "feed_point feed A F \<longleftrightarrow> feed dvd F \<and> (F = 0 \<and> A = 0 \<or> A < F \<and> F \<le> A + feed)"

lemma blind_near:
  fixes cfg
  defines "mn \<equiv> unat (min_size cfg)" and "w \<equiv> unat (window_size cfg)"
  assumes f: "feed_point feed A F" and l: "length (seg0 v) = F - A" and w: "w \<le> mn"
    and p: "A + p + mn < F + feed"
  shows "blind v w (p + mn) = near_segment feed cfg (A + p)"
proof -
  obtain k where k: "F = feed * k" using f by (auto simp: feed_point_def elim: dvdE)
  consider "F = 0" "A = 0" | "A < F" "F \<le> A + feed" "A + p + mn < F" | "A < F" "F \<le> A + p + mn"
    using f by (auto simp: feed_point_def) linarith
  then show ?thesis
  proof cases
    case 1
    then show ?thesis using p l by (simp add: blind_def near_segment_def mn_def)
  next
    case 2
    then obtain j where j: "k = Suc j" using k by (cases k) auto
    define r where "r = A + p + mn - feed * j"
    have r: "A + p + mn = feed * j + r" "r < feed" "w \<le> r" using 2 k j w by (auto simp: r_def)
    then have "(A + p + mn) mod feed = r" by simp
    then show ?thesis using r(3) 2 l by (simp add: blind_def near_segment_def mn_def w_def)
  next
    case 3
    define r where "r = A + p + mn - F"
    have r: "A + p + mn = feed * k + r" "r < feed" using 3 p k by (auto simp: r_def)
    then have m: "(A + p + mn) mod feed = r" by simp
    have "feed \<le> F" using 3 k by (cases k) auto
    then show ?thesis using m 3 l by (auto simp: blind_def near_segment_def mn_def w_def r_def)
  qed
qed

lemma feed_view:
  assumes "stream_at whole cfg st A F" "F + n \<le> length whole"
  defines "v \<equiv> \<lparr>seg0 = carry st, seg1 = slice_at F n whole\<rparr>"
  shows "seg0 v @ seg1 v = slice_at A (view_size v) whole" "view_size v = F + n - A" "length (seg0 v) = F - A"
proof -
  show l: "length (seg0 v) = F - A" "view_size v = F + n - A"
    using assms by (auto simp: stream_at_def view_size_def)
  have "A \<le> F" using assms(1) by (simp add: stream_at_def)
  then have "slice_at A (F - A) whole @ slice_at (A + (F - A)) (F + n - A - (F - A)) whole = slice_at A (F + n - A) whole"
    by (intro slice_at_split) simp
  then show "seg0 v @ seg1 v = slice_at A (view_size v) whole"
    using assms(1) \<open>A \<le> F\<close> unfolding l(2) by (simp add: v_def stream_at_def)
qed

lemma carry_prefix_eq:
  fixes cfg whole feed
  defines "mn \<equiv> unat (min_size cfg)" and "mx \<equiv> unat (max_size cfg)"
    and "nxt \<equiv> stream_next feed whole cfg (BuildMask (avg_size cfg)) gear_table"
  assumes st: "stream_at whole cfg st A F" and f: "feed_point feed A F" and s: "cdc_sizes cfg" "window_size cfg \<le> min_size cfg"
    and n: "n \<le> feed" "F + n \<le> length whole" "length whole < 2 ^ 64"
    and p: "mn < proc" "A + proc \<le> F + n" "if is_last then A + proc = F + n \<and> F + n = length whole else F - A + mx < proc"
  shows "\<exists>st' cs p. ChunkCarryPrefixVirtual st \<lparr>seg0 = carry st, seg1 = slice_at F n whole\<rparr> proc is_last =
      Some (st', HashChunkRegions (cdc_digest cfg) whole (shifted A cs)) \<and>
    stream_at whole cfg st' (A + p) (F + n) \<and> p \<le> proc \<and> (is_last \<or> F < A + p) \<and>
    cuts_by nxt (length whole) A =
      (if is_last then Some (shifted A cs) else map_option (append (shifted A cs)) (cuts_by nxt (length whole) (A + p)))"
proof -
  let ?v = "\<lparr>seg0 = carry st, seg1 = slice_at F n whole\<rparr>"
  note v = feed_view [OF st n(2)]
  have m: "0 < mn" "mn \<le> mx" and w: "unat (window_size cfg) \<le> mn"
    using s by (auto simp: mn_def mx_def cdc_sizes_def word_le_nat_alt)
  have AF: "A \<le> F" using st by (simp add: stream_at_def)
  have size: "A + view_size ?v = F + n" "proc \<le> view_size ?v" using v(2) AF p(2) by linarith+
  have cfg: "stream_config st = cfg" "stream_gear st = gear_table" using st by (simp_all add: stream_at_def)
  have b: "blind ?v (unat (window_size cfg)) (q + mn) = near_segment feed cfg (A + q)" if "mn < proc - q" for q
    unfolding mn_def
    by (rule blind_near [OF f v(3) w [unfolded mn_def]]) (use that p(2) n(1) in \<open>unfold mn_def [symmetric], linarith\<close>)
  have "\<exists>cs p. virtual_loop cfg ?v proc is_last (BuildMask (avg_size cfg)) gear_table 0 = Some (cs, p) \<and> 0 \<le> p \<and> p \<le> proc \<and>
    list_all (\<lambda>(off, n). off + unat n \<le> proc) cs \<and> (cs = [] \<longrightarrow> p = 0) \<and>
    proc - p \<le> (if is_last then mn else mx) \<and> (is_last \<and> mn < proc - 0 \<longrightarrow> 0 + mn \<le> p) \<and>
    cuts_by nxt (length whole) (A + 0) =
      (if is_last then Some (shifted A cs) else map_option (append (shifted A cs)) (cuts_by nxt (length whole) (A + p)))"
    unfolding mn_def mx_def nxt_def
    by (rule virtual_loop_eq [OF v(1) _ s(1)]) (use w b size n(2) p(3) in \<open>auto simp: mn_def split: if_splits\<close>)
  then obtain cs q where lp: "virtual_loop cfg ?v proc is_last (BuildMask (avg_size cfg)) gear_table 0 = Some (cs, q)" "q \<le> proc"
    "list_all (\<lambda>(off, n). off + unat n \<le> proc) cs" "cs = [] \<longrightarrow> q = 0" "proc - q \<le> (if is_last then mn else mx)"
    "is_last \<longrightarrow> mn \<le> q"
    "cuts_by nxt (length whole) A =
      (if is_last then Some (shifted A cs) else map_option (append (shifted A cs)) (cuts_by nxt (length whole) (A + q)))"
    using p(1) by auto
  have safe: "length (seg0 ?v) \<le> q \<or> (view_size ?v - q \<le> length (seg0 ?v) \<and> length (seg0 ?v) \<le> q + q)" "q \<le> view_size ?v"
    using lp(2,5,6) size v(3) p(3) by (auto split: if_splits)
  have c: "list_all (\<lambda>(off, n). off + unat n \<le> view_size ?v) cs" using lp(3) size(2) by (auto simp: list_all_iff)
  have e: "ChunkCarryPrefixVirtual st ?v proc is_last = emit_cuts st ?v cs q"
    by (rule ChunkCarryPrefixVirtual_emit) (use m p(1) lp cfg in \<open>simp_all add: mn_def\<close>)
  have bound: "A + view_size ?v \<le> length whole" using size(1) n(2) by simp
  obtain st2 where st2: "emit_cuts st ?v cs q = Some (st2, HashChunkRegions (cdc_digest cfg) whole (shifted A cs))"
    "stream_at whole cfg st2 (A + q) (A + view_size ?v)"
    using emit_cuts_eq [OF st _ v(1) bound n(3) c safe(2,1)] by auto
  have "is_last \<or> F < A + q" using p(3) lp(2,5) by (auto split: if_splits)
  then show ?thesis using e st2 lp(2,7) unfolding size(1) by auto
qed

lemma stream_at_offset: "stream_at whole cfg (st\<lparr>stream_offset := x\<rparr>) A F = stream_at whole cfg st A F"
  by (simp add: stream_at_def)

lemma feed_eq:
  assumes "stream_at whole cfg st A F" "F + n \<le> length whole" "0 < n"
    and "is_last \<or> unat (min_size cfg) < F + n - A"
  shows "FastCdcStreamFeed st (slice_at F n whole) is_last =
    ChunkCarryPrefixVirtual (st\<lparr>stream_offset := stream_offset st + n\<rparr>)
      \<lparr>seg0 = carry (st\<lparr>stream_offset := stream_offset st + n\<rparr>), seg1 = slice_at F n whole\<rparr>
      (F + n - A - (if is_last then 0 else unat (min_size cfg))) is_last"
proof -
  have "slice_at F n whole \<noteq> []" "length (slice_at F n whole) = n" using assms(2,3) by (auto simp: slice_at_def)
  then show ?thesis
    using assms(1,4) feed_view(2) [OF assms(1,2)] by (auto simp: FastCdcStreamFeed_def Let_def stream_at_def)
qed

text \<open>Feeding a segment that is not the last.\<close>

lemma feed_middle:
  assumes st: "stream_at whole cfg st A F" and f: "feed_point feed A F" and s: "cdc_sizes cfg" "window_size cfg \<le> min_size cfg"
    and l: "unat (min_size cfg) + unat (max_size cfg) < feed" "F + feed \<le> length whole" "length whole < 2 ^ 64"
  defines "nxt \<equiv> stream_next feed whole cfg (BuildMask (avg_size cfg)) gear_table"
  shows "\<exists>st' A' cs. FastCdcStreamFeed st (slice_at F feed whole) False = Some (st', HashChunkRegions (cdc_digest cfg) whole cs) \<and>
    stream_at whole cfg st' A' (F + feed) \<and> feed_point feed A' (F + feed) \<and>
    cuts_by nxt (length whole) A = map_option (append cs) (cuts_by nxt (length whole) A')"
proof -
  let ?st = "st\<lparr>stream_offset := stream_offset st + feed\<rparr>" and ?mn = "unat (min_size cfg)"
  have m: "0 < ?mn" "?mn \<le> unat (max_size cfg)" using s by (auto simp: cdc_sizes_def word_le_nat_alt)
  have AF: "A \<le> F" using st by (simp add: stream_at_def)
  have big: "?mn < F + feed - A" "?mn < F + feed - A - ?mn" "A + (F + feed - A - ?mn) \<le> F + feed"
    "F - A + unat (max_size cfg) < F + feed - A - ?mn" using AF l(1) m by linarith+
  have f2: "FastCdcStreamFeed st (slice_at F feed whole) False =
      ChunkCarryPrefixVirtual ?st \<lparr>seg0 = carry ?st, seg1 = slice_at F feed whole\<rparr> (F + feed - A - ?mn) False"
    using feed_eq [OF st l(2), of False] big(1) l(1) by simp
  obtain st' cs p where r: "ChunkCarryPrefixVirtual ?st \<lparr>seg0 = carry ?st, seg1 = slice_at F feed whole\<rparr> (F + feed - A - ?mn) False =
      Some (st', HashChunkRegions (cdc_digest cfg) whole (shifted A cs))" "stream_at whole cfg st' (A + p) (F + feed)"
    "p \<le> F + feed - A - ?mn" "F < A + p"
    "cuts_by nxt (length whole) A = map_option (append (shifted A cs)) (cuts_by nxt (length whole) (A + p))"
    using carry_prefix_eq [of whole cfg ?st A F feed feed "F + feed - A - ?mn" False] st f s l big
    by (auto simp: stream_at_offset nxt_def)
  have "feed_point feed (A + p) (F + feed)" using f r(3,4) AF m by (auto simp: feed_point_def)
  then show ?thesis using f2 r by auto
qed

text \<open>Feeding the last segment cuts the rest of the file.\<close>

lemma feed_last:
  assumes st: "stream_at whole cfg st A F" and f: "feed_point feed A F" and s: "cdc_sizes cfg" "window_size cfg \<le> min_size cfg"
    and l: "0 < n" "n \<le> feed" "F + n = length whole" "length whole < 2 ^ 64"
  defines "nxt \<equiv> stream_next feed whole cfg (BuildMask (avg_size cfg)) gear_table"
  shows "\<exists>st' cs. FastCdcStreamFeed st (slice_at F n whole) True = Some (st', HashChunkRegions (cdc_digest cfg) whole cs) \<and>
    cuts_by nxt (length whole) A = Some cs"
proof -
  let ?st = "st\<lparr>stream_offset := stream_offset st + n\<rparr>" and ?mn = "unat (min_size cfg)"
  let ?v = "\<lparr>seg0 = carry ?st, seg1 = slice_at F n whole\<rparr>"
  have m: "0 < ?mn" using s by (auto simp: cdc_sizes_def)
  have AF: "A \<le> F" using st by (simp add: stream_at_def)
  have le: "F + n \<le> length whole" using l(3) by simp
  have st': "stream_at whole cfg ?st A F" using st by (simp add: stream_at_offset)
  have f2: "FastCdcStreamFeed st (slice_at F n whole) True = ChunkCarryPrefixVirtual ?st ?v (F + n - A) True"
    using feed_eq [OF st le l(1), of True] by simp
  show ?thesis
  proof (cases "F + n - A \<le> ?mn")
    case True
    note v = feed_view [OF st' le]
    have size: "view_size ?v = F + n - A" by (rule v(2))
    have n: "unat (word_of_nat (F + n - A) :: u32) = F + n - A" by (rule unat_length [OF True])
    have pos: "A < length whole" "length whole - A = F + n - A" "\<not> F + n \<le> A" using AF l by linarith+
    have "ChunkCarryPrefixVirtual ?st ?v (F + n - A) True = emit_cuts ?st ?v [(0, word_of_nat (F + n - A))] (F + n - A)"
      using True pos st by (simp add: ChunkCarryPrefixVirtual_def Let_def stream_at_def)
    moreover have "F - A \<le> F + n - A" "A + (F + n - A) \<le> length whole" using AF l(3) by linarith+
    then obtain st2 where "emit_cuts ?st ?v [(0, word_of_nat (F + n - A))] (F + n - A) =
        Some (st2, HashChunkRegions (cdc_digest cfg) whole (shifted A [(0, word_of_nat (F + n - A))]))"
      using emit_cuts_eq [OF st' _ v(1) _ l(4), of "[(0, word_of_nat (F + n - A))]" "F + n - A"] size n v(3) by auto
    moreover have "nxt A = Some (length whole)" unfolding nxt_def using True pos by (intro stream_next_end) simp
    then have "cuts_by nxt (length whole) A = Some (shifted A [(0, word_of_nat (F + n - A))])"
      using cuts_by_step [where nxt = nxt] cuts_by_end [OF order_refl] pos by (metis add_0_right option.simps(9) shifted_simps)
    ultimately show ?thesis using f2 by auto
  next
    case False
    have "?mn < F + n - A" "A + (F + n - A) \<le> F + n" "A + (F + n - A) = F + n" using False AF by linarith+
    then show ?thesis
      using carry_prefix_eq [OF st' f s l(2) le l(4), of "F + n - A" True] l(3) f2 by (auto simp: nxt_def)
  qed
qed

section \<open>The loop of the pipeline\<close>

lemma stream_feed_loop_eq:
  fixes whole feed cfg
  assumes s: "cdc_sizes cfg" "window_size cfg \<le> min_size cfg" and len: "length whole < 2 ^ 64"
    and feed: "0 < feed" "unat (min_size cfg) + unat (max_size cfg) < feed \<or> length whole \<le> feed"
  defines "nxt \<equiv> stream_next feed whole cfg (BuildMask (avg_size cfg)) gear_table"
  shows "stream_at whole cfg st A F \<Longrightarrow> feed_point feed A F \<Longrightarrow> F < length whole \<Longrightarrow>
    cuts_by nxt (length whole) A = Some cs \<Longrightarrow> idx + length cs \<le> slots \<Longrightarrow>
    stream_feed_loop whole feed slots st F idx = Some (Inr (HashChunkRegions (cdc_digest cfg) whole cs))"
proof (induction "length whole - F" arbitrary: st A F cs idx rule: less_induct)
  case less
  show ?case
  proof (cases "F + feed < length whole")
    case True
    have dvd: "feed dvd F" using less.prems(2) by (simp add: feed_point_def)
    have big: "unat (min_size cfg) + unat (max_size cfg) < feed" using feed(2) True by auto
    obtain st' A' cs1 where r: "FastCdcStreamFeed st (slice_at F feed whole) False = Some (st', HashChunkRegions (cdc_digest cfg) whole cs1)"
      "stream_at whole cfg st' A' (F + feed)" "feed_point feed A' (F + feed)"
      "cuts_by nxt (length whole) A = map_option (append cs1) (cuts_by nxt (length whole) A')"
      using feed_middle [OF less.prems(1,2) s big _ len] True by (auto simp: nxt_def)
    obtain cs2 where cs2: "cuts_by nxt (length whole) A' = Some cs2" "cs = cs1 @ cs2" using r(4) less.prems(4) by (cases "cuts_by nxt (length whole) A'") auto
    have "length whole - (F + feed) < length whole - F" using True feed(1) by linarith
    from less.hyps [OF this r(2,3) True cs2(1), of "idx + length cs1"] less.prems(5)
    have "stream_feed_loop whole feed slots st' (F + feed) (idx + length cs1) = Some (Inr (HashChunkRegions (cdc_digest cfg) whole cs2))"
      by (simp add: cs2(2))
    moreover have "min feed (length whole - F) = feed" "\<not> F + feed \<ge> length whole" using True by linarith+
    ultimately show ?thesis
      using r(1) less.prems(3,5) cs2(2) by (subst stream_feed_loop.simps) (simp add: HashChunkRegions_append)
  next
    case False
    let ?n = "length whole - F"
    have n: "0 < ?n" "?n \<le> feed" "F + ?n = length whole" using False less.prems(3) by linarith+
    obtain st' cs' where r: "FastCdcStreamFeed st (slice_at F ?n whole) True = Some (st', HashChunkRegions (cdc_digest cfg) whole cs')"
      "cuts_by nxt (length whole) A = Some cs'"
      using feed_last [OF less.prems(1,2) s n len] by (auto simp: nxt_def)
    have "stream_feed_loop whole feed slots st' (length whole) (idx + length cs) = Some (Inr [])"
      by (subst stream_feed_loop.simps) simp
    moreover have "min feed ?n = ?n" "F + ?n \<ge> length whole" using n by linarith+
    ultimately show ?thesis
      using r less.prems(3-5) by (subst stream_feed_loop.simps) simp
  qed
qed

lemma cuts_by_agree:
  "cuts_by nxt len pos = Some cs \<Longrightarrow> list_all (\<lambda>(p, n). nxt' p = nxt p) cs \<Longrightarrow> cuts_by nxt' len pos = Some cs"
proof (induction cs arbitrary: pos)
  case Nil
  then have "\<not> pos < len" by (subst (asm) cuts_by.simps) (auto split: if_splits option.splits simp: bind_eq_Some_conv)
  then show ?case by (simp add: cuts_by_end)
next
  case (Cons x cs)
  obtain c where c: "pos < len" "nxt pos = Some c" "cuts_by nxt len c = Some cs" "x = (pos, word_of_nat (c - pos))"
    using Cons.prems(1) by (subst (asm) cuts_by.simps) (auto split: if_splits option.splits simp: bind_eq_Some_conv)
  then have "nxt' pos = Some c" "cuts_by nxt' len c = Some cs" using Cons by auto
  then show ?case using cuts_by_step [where nxt = nxt'] c(1,4) by simp
qed

lemma ChunkFileStreamingFeed_cuts:
  fixes bs profile algo
  defines "cfg \<equiv> fast (EbHcrboConfigForFileSize (length bs) profile algo)"
  defines "nxt \<equiv> stream_next (StreamFeedBytesForFile (length bs)) bs cfg (BuildMask (avg_size cfg)) gear_table"
  assumes len: "length bs < 2 ^ 64"
  shows "\<exists>cs. cuts_by nxt (length bs) 0 = Some cs \<and> tiles (unat (min_size cfg)) (unat (max_size cfg)) 0 cs (length bs) \<and>
    ChunkFileStreamingFeed profile algo bs = Some (Inr (HashChunkRegions algo bs cs))"
proof -
  note prof = profile_sizes [of "length bs" profile algo, folded cfg_def]
  let ?feed = "StreamFeedBytesForFile (length bs)" and ?mn = "unat (min_size cfg)"
  let ?st = "(FastCdcStreamInit cfg)\<lparr>digest_base := Some bs\<rparr>"
  let ?slots = "if bs = [] then 0 else max 1 (length bs div ?mn + 2)"
  obtain cs where cs: "cuts_by nxt (length bs) 0 = Some cs" "tiles ?mn (unat (max_size cfg)) 0 cs (length bs)"
    using cuts_by_tiles [OF stream_next_ok [OF prof(1)], of 0] unfolding nxt_def by blast
  have loop: "ChunkFileStreamingFeed profile algo bs = stream_feed_loop bs ?feed ?slots ?st 0 0"
    by (simp add: ChunkFileStreamingFeed_def cfg_def Let_def)
  show ?thesis
  proof (cases "bs = []")
    case True
    then have "cs = []" using cs(1) by (simp add: cuts_by_end)
    moreover have "ChunkFileStreamingFeed profile algo bs = Some (Inr [])"
      unfolding loop using True by (subst stream_feed_loop.simps) simp
    ultimately show ?thesis using cs by auto
  next
    case False
    have feed: "0 < ?feed" "?mn + unat (max_size cfg) < ?feed \<or> length bs \<le> ?feed"
      using False prof(3) by (auto simp: StreamFeedBytesForFile_def kStreamFeedBytes_def)
    have st: "stream_at bs cfg ?st 0 0" by (simp add: stream_at_def FastCdcStreamInit_def slice_at_def)
    have fp: "feed_point ?feed 0 0" by (simp add: feed_point_def)
    have "0 < ?mn" using prof(1) by (simp add: cdc_sizes_def)
    then have "length cs - 1 \<le> length bs div ?mn"
      using tiles_length [OF cs(2)] by (simp add: less_eq_div_iff_mult_less_eq mult.commute)
    then have "0 + length cs \<le> ?slots" using False by auto
    from stream_feed_loop_eq [OF prof(1,2) len feed st fp _ _ this] cs(1) False
    have "stream_feed_loop bs ?feed ?slots ?st 0 0 = Some (Inr (HashChunkRegions (cdc_digest cfg) bs cs))"
      unfolding nxt_def by blast
    then show ?thesis using cs prof(5) unfolding loop by auto
  qed
qed

section \<open>The chunks of a streamed file\<close>

lemma ChunkCuts_by:
  assumes "cdc_sizes cfg"
  shows "ChunkCuts cfg bs = cuts_by (\<lambda>p. NextChunkCutEnd bs p cfg (BuildMask (avg_size cfg)) gear_table) (length bs) 0"
proof -
  let ?nxt = "\<lambda>p. NextChunkCutEnd bs p cfg (BuildMask (avg_size cfg)) gear_table"
  have mn: "min_size cfg \<noteq> 0" using assms by (auto simp: cdc_sizes_def)
  consider "bs = []" | "bs \<noteq> []" "length bs \<le> unat (min_size cfg)" | "unat (min_size cfg) < length bs" by linarith
  then show ?thesis
  proof cases
    case 1
    then show ?thesis by (simp add: ChunkCuts_def cuts_by_end)
  next
    case 2
    then have "?nxt 0 = Some (length bs)" by (simp add: NextChunkCutEnd_def)
    then show ?thesis using 2 cuts_by_step [where nxt = ?nxt and pos = 0] by (simp add: ChunkCuts_def cuts_by_end)
  next
    case 3
    then show ?thesis using mn cut_loop_by [OF NextChunkCutEnd_ok [OF assms]] by (auto simp: ChunkCuts_def)
  qed
qed

lemma cuts_by_member:
  "cuts_by nxt len pos = Some cs \<Longrightarrow> (p, n) \<in> set cs \<Longrightarrow> p < len \<and> (\<exists>c. nxt p = Some c \<and> n = word_of_nat (c - p))"
proof (induction cs arbitrary: pos)
  case (Cons x cs)
  obtain c where c: "pos < len" "nxt pos = Some c" "cuts_by nxt len c = Some cs" "x = (pos, word_of_nat (c - pos))"
    using Cons.prems(1) by (subst (asm) cuts_by.simps) (auto split: if_splits option.splits simp: bind_eq_Some_conv)
  then show ?case using Cons by auto
qed simp

lemma stream_next_whole:
  assumes "\<not> near_segment kStreamFeedBytes cfg p"
  shows "stream_next (StreamFeedBytesForFile (length bs)) bs cfg msk gear p = NextChunkCutEnd bs p cfg msk gear"
  using assms by (auto simp: stream_next_def StreamFeedBytesForFile_def near_segment_def)

text \<open>A chunk near the begin of a segment is cut at the smallest size whatever its bytes are.\<close>

lemma cut_near_segment:
  fixes bs profile algo
  defines "cfg \<equiv> fast (EbHcrboConfigForFileSize (length bs) profile algo)"
  assumes "kStreamFeedBytes < length bs" "length bs < 2 ^ 64" "ChunkFileStreamingFeed profile algo bs = Some (Inr ds)"
    and d: "d \<in> set ds" "near_segment kStreamFeedBytes cfg (unat (ck_offset d))" "unat (ck_offset d) + unat (min_size cfg) < length bs"
  shows "ck_length d = min_size cfg"
proof -
  obtain cs where cs: "cuts_by (stream_next kStreamFeedBytes bs cfg (BuildMask (avg_size cfg)) gear_table) (length bs) 0 = Some cs"
    "ds = HashChunkRegions algo bs cs"
    using ChunkFileStreamingFeed_cuts [OF assms(3), of profile algo] assms(2,4) by (auto simp: cfg_def StreamFeedBytesForFile_def)
  obtain p n where m: "(p, n) \<in> set cs" "ck_offset d = word_of_nat p" "ck_length d = n"
    using d(1) by (auto simp: cs(2) HashChunkRegions_def)
  have p: "p < length bs" "\<exists>c. stream_next kStreamFeedBytes bs cfg (BuildMask (avg_size cfg)) gear_table p = Some c \<and> n = word_of_nat (c - p)"
    using cuts_by_member [OF cs(1) m(1)] by auto
  have "unat (ck_offset d) = p" using p(1) assms(3) m(2) by (simp add: unat_of_nat)
  then have "stream_next kStreamFeedBytes bs cfg (BuildMask (avg_size cfg)) gear_table p = Some (p + unat (min_size cfg))"
    using d(2,3) profile_sizes(4) [of "length bs" profile algo] unfolding stream_next_def cfg_def by auto
  then show ?thesis using p(2) m(3) by auto
qed

text \<open>
  C17. A streamed file is partitioned: for every file, profile and digest the feeding loop of the pipeline ends without
  an error and without reading what it should not, the regions of the queued chunks put together are the file, each is
  labelled with its content hash, and their sizes are those of the profile.
\<close>

theorem streamed_file_is_partitioned:
  assumes "length bs < 2 ^ 64"
  shows "\<exists>ds. ChunkFileStreamingFeed profile algo bs = Some (Inr ds) \<and> concat (map (chunk_region bs) ds) = bs \<and>
    list_all (\<lambda>d. 0 < unat (ck_length d) \<and> ck_length d \<le> max_size (fast (EbHcrboConfigForFileSize (length bs) profile algo)) \<and>
      ck_hash d = ContentHash algo (chunk_region bs d)) ds \<and>
    list_all (\<lambda>d. min_size (fast (EbHcrboConfigForFileSize (length bs) profile algo)) \<le> ck_length d) (butlast ds)"
proof -
  obtain cs where "tiles (unat (min_size (fast (EbHcrboConfigForFileSize (length bs) profile algo))))
      (unat (max_size (fast (EbHcrboConfigForFileSize (length bs) profile algo)))) 0 cs (length bs)"
    "ChunkFileStreamingFeed profile algo bs = Some (Inr (HashChunkRegions algo bs cs))"
    using ChunkFileStreamingFeed_cuts [OF assms] by blast
  then show ?thesis using regions_partition [OF _ assms] by blast
qed

theorem streamed_file_is_partitioned_witness:
  "length [1, 2, 3 :: byte] < 2 ^ 64 \<and> (\<exists>ds. ChunkFileStreamingFeed kAutoProfile kStandard [1, 2, 3] = Some (Inr ds) \<and>
     concat (map (chunk_region [1, 2, 3]) ds) = [1, 2, 3])"
  using streamed_file_is_partitioned [of "[1, 2, 3]" kAutoProfile kStandard] by auto

text \<open>
  C18. Streaming makes no difference: a file that is fed to the chunker in segments gets the chunks that the chunker of whole
  buffers makes of it, provided no chunk begins so that its scan starts within a window behind the begin of a segment.
\<close>

theorem streamed_chunks_are_whole_chunks:
  assumes "length bs < 2 ^ 64"
    and "ChunkCuts (fast (EbHcrboConfigForFileSize (length bs) profile algo)) bs = Some cs"
    and "list_all (\<lambda>(p, n). \<not> near_segment kStreamFeedBytes (fast (EbHcrboConfigForFileSize (length bs) profile algo)) p) cs"
  shows "ChunkFileStreamingFeed profile algo bs = map_option Inr (Chunk (fast (EbHcrboConfigForFileSize (length bs) profile algo)) bs)"
proof -
  let ?cfg = "fast (EbHcrboConfigForFileSize (length bs) profile algo)"
  let ?whole = "\<lambda>p. NextChunkCutEnd bs p ?cfg (BuildMask (avg_size ?cfg)) gear_table"
  note prof = profile_sizes [of "length bs" profile algo]
  have "cuts_by ?whole (length bs) 0 = Some cs" using assms(2) unfolding ChunkCuts_by [OF prof(1)] .
  then have "cuts_by (stream_next (StreamFeedBytesForFile (length bs)) bs ?cfg (BuildMask (avg_size ?cfg)) gear_table) (length bs) 0 = Some cs"
    using assms(3) stream_next_whole by (elim cuts_by_agree) (auto simp: list_all_iff)
  then have "ChunkFileStreamingFeed profile algo bs = Some (Inr (HashChunkRegions algo bs cs))"
    using ChunkFileStreamingFeed_cuts [OF assms(1), of profile algo] by auto
  then show ?thesis using Chunk_eq [OF prof(1)] assms(2) prof(5) by simp
qed

theorem streamed_chunks_are_whole_chunks_witness:
  "ChunkCuts (fast (EbHcrboConfigForFileSize (length [1, 2, 3 :: byte]) kAutoProfile kStandard)) [1, 2, 3] = Some [(0, 3)] \<and>
   ChunkFileStreamingFeed kAutoProfile kStandard [1, 2, 3] =
     map_option Inr (Chunk (fast (EbHcrboConfigForFileSize (length [1, 2, 3 :: byte]) kAutoProfile kStandard)) [1, 2, 3])"
proof -
  note d = EbHcrboConfigForFileSize_def EbHcrboConfigForProfile_def ResolveAutoProfile_def kChunkProfileSmallMaxBytes_def
    SmallProfile_def default_cdc_config_def default_hcrbo_config_def
  have c: "ChunkCuts (fast (EbHcrboConfigForFileSize (length [1, 2, 3 :: byte]) kAutoProfile kStandard)) [1, 2, 3] = Some [(0, 3)]"
    by (simp add: d ChunkCuts_def)
  have "list_all (\<lambda>(p, n). \<not> near_segment kStreamFeedBytes
      (fast (EbHcrboConfigForFileSize (length [1, 2, 3 :: byte]) kAutoProfile kStandard)) p) [(0, 3 :: u32)]"
    by (simp add: d near_segment_def kStreamFeedBytes_def)
  from streamed_chunks_are_whole_chunks [OF _ c this] show ?thesis using c by simp
qed

text \<open>
  A segment too short to leave more than a smallest chunk is not kept: the feed succeeds, cuts nothing, and carries what it carried
  before. The pipeline feeds no such segment except as the last.
\<close>

lemma small_feed_is_dropped:
  assumes "gear_ready st" "bs \<noteq> []" "length (carry st) + length bs \<le> 2 * unat (min_size (stream_config st))"
  shows "FastCdcStreamFeed st bs False = Some (st\<lparr>stream_offset := stream_offset st + length bs\<rparr>, [])"
  using assms by (auto simp: FastCdcStreamFeed_def ChunkCarryPrefixVirtual_def view_size_def Let_def)

end
