(* ===== verification/EbHcrbo.thy ===== *)
theory EbHcrbo
  imports ChunkProfile RepoFormat
begin

text \<open>
  The incremental chunker (\<open>chunk/eb_hcrbo.cc\<close>): a file that was backed up before is compared with the anchors of its
  last version, the chunks whose bytes are unchanged are taken over, and what lies between is cut anew. With it the
  rolling checksum, the Bloom filter and the Rabin anchors it uses. For every earlier version and every new
  content the chunks partition the new file and carry the right hashes, and so do the anchors that are kept for the next run.
\<close>

section \<open>Rolling checksum (chunk/rolling_checksum.cc)\<close>

definition kRollingBase :: u32 where "kRollingBase = 65521"

definition rolling_step :: "u32 \<times> u32 \<Rightarrow> byte \<Rightarrow> u32 \<times> u32" where
  "rolling_step s x = (let a = (fst s + ucast x) mod kRollingBase in (a, (snd s + a) mod kRollingBase))"

definition RollingChecksum :: "bytes \<Rightarrow> u32" where
  "RollingChecksum bs = (let s = foldl rolling_step (1, 0) bs in push_bit 16 (snd s) OR fst s)"

definition RollingChecksumSlide :: "u32 \<Rightarrow> byte \<Rightarrow> byte \<Rightarrow> nat \<Rightarrow> u32" where
  "RollingChecksumSlide prev out_byte in_byte window_len =
     (let a = prev AND 0xFFFF; b = drop_bit 16 prev;
          a' = (a + kRollingBase - ucast out_byte + ucast in_byte) mod kRollingBase;
          sub = ucast ((word_of_nat window_len * ucast out_byte :: u64) mod ucast kRollingBase);
          b' = (b + kRollingBase - sub + a') mod kRollingBase
      in push_bit 16 b' OR a')"

section \<open>Verification of anchors (chunk/cfi_rolling.cc)\<close>

record CfiRollingVerifier =
  has_prev :: bool
  prev_offset :: nat
  prev_len :: nat
  prev_rc :: u32
  recompute_avoided :: u64

definition new_verifier :: CfiRollingVerifier where
  "new_verifier = \<lparr>has_prev = False, prev_offset = 0, prev_len = 0, prev_rc = 0, recompute_avoided = 0\<rparr>"

text \<open>\<open>None\<close> is a read behind the end of the file.\<close>

definition VerifyAnchor :: "CfiRollingVerifier \<Rightarrow> bytes \<Rightarrow> nat \<Rightarrow> nat \<Rightarrow> u32 \<Rightarrow> (u32 \<times> CfiRollingVerifier) option" where
  "VerifyAnchor v bs off n expected_rc =
     (if expected_rc = 0 then Some (0, v)
      else if has_prev v \<and> prev_offset v = off \<and> prev_len v = n then
        Some (prev_rc v, v\<lparr>recompute_avoided := recompute_avoided v + 1\<rparr>)
      else if off + n > length bs then None
      else
        let rc = RollingChecksum (slice_at off n bs)
        in Some (rc, v\<lparr>has_prev := True, prev_offset := off, prev_len := n, prev_rc := rc\<rparr>))"

section \<open>Bloom filter of the anchors (chunk/cfi_bloom.cc)\<close>

definition Mix64 :: "u64 \<Rightarrow> u64" where
  "Mix64 x =
     (let x1 = (x XOR drop_bit 33 x) * 0xff51afd7ed558ccd;
          x2 = (x1 XOR drop_bit 33 x1) * 0xc4ceb9fe1a85ec53
      in x2 XOR drop_bit 33 x2)"

definition HashSlice :: "bytes \<Rightarrow> u32 \<Rightarrow> u64" where
  "HashSlice hash seed =
     foldl (\<lambda>h i. Mix64 (h XOR Mix64 (word_of_nat (le_dec (slice_at i 8 hash)) + ucast seed + word_of_nat i)))
       (ucast seed) [0, 8, 16, 24]"

record CfiBloomFilter =
  bloom_bits :: "u64 list"
  bit_count :: nat

function bloom_size :: "nat \<Rightarrow> nat \<Rightarrow> nat" where
  "bloom_size k bits = (if 2 ^ k < bits then bloom_size (Suc k) bits else 2 ^ k)"
  by pat_completeness auto
termination by (relation "measure (\<lambda>(k, bits). bits - 2 ^ k)") (auto intro!: diff_less_mono2)

declare bloom_size.simps [simp del]

definition new_bloom :: "nat \<Rightarrow> CfiBloomFilter" where
  "new_bloom expected_entries =
     (let bits = max (if expected_entries > 0 then expected_entries * 10 else 4096) 4096;
          n = bloom_size 0 bits
      in \<lparr>bloom_bits = replicate (n div 64) 0, bit_count = n\<rparr>)"

definition probe :: "CfiBloomFilter \<Rightarrow> bytes \<Rightarrow> u32 \<Rightarrow> nat" where
  "probe f hash p = unat (HashSlice hash (p * 0x9E3779B9 + 1) AND (word_of_nat (bit_count f) - 1))"

definition set_bit_at :: "nat \<Rightarrow> CfiBloomFilter \<Rightarrow> CfiBloomFilter" where
  "set_bit_at i f = f\<lparr>bloom_bits := (bloom_bits f)[i div 64 := bloom_bits f ! (i div 64) OR push_bit (i mod 64) 1]\<rparr>"

definition bloom_Insert :: "CfiBloomFilter \<Rightarrow> bytes \<Rightarrow> CfiBloomFilter" where
  "bloom_Insert f hash =
     (if bit_count f = 0 then f else foldl (\<lambda>f p. set_bit_at (probe f hash p) f) f [0, 1, 2, 3])"

definition MightContain :: "CfiBloomFilter \<Rightarrow> bytes \<Rightarrow> bool" where
  "MightContain f hash \<longleftrightarrow> bit_count f \<noteq> 0 \<and>
     list_all (\<lambda>p. bloom_bits f ! (probe f hash p div 64) AND push_bit (probe f hash p mod 64) 1 \<noteq> 0) [0, 1, 2, 3]"

definition BuildFromCfi :: "CfiIndex \<Rightarrow> CfiBloomFilter" where
  "BuildFromCfi history = foldl (\<lambda>f a. bloom_Insert f (anchor_hash a)) (new_bloom (length history)) history"

section \<open>Rabin anchors (chunk/rabin_anchor.cc)\<close>

definition kRabinPoly :: u64 where "kRabinPoly = 0x3DA3358B4DC173"

definition RabinStep :: "u64 \<Rightarrow> byte \<Rightarrow> u64" where
  "RabinStep fp x = (push_bit 8 fp OR ucast x) XOR (kRabinPoly * (drop_bit 56 fp XOR ucast x))"

function rabin_loop :: "bytes \<Rightarrow> nat \<Rightarrow> u64 \<Rightarrow> nat \<Rightarrow> nat \<Rightarrow> u64 \<Rightarrow> nat option" where
  "rabin_loop bs window msk lim i fp =
     (if i \<le> lim \<and> i \<le> length bs then
        (if fp AND msk = 0 then Some i
         else if i \<ge> length bs then None
         else rabin_loop bs window msk lim (i + 1) (RabinStep fp (bs ! i) XOR RabinStep 0 (bs ! (i - window))))
      else None)"
  by pat_completeness auto
termination by (relation "measure (\<lambda>(bs, window, msk, lim, i, fp). length bs - i)") auto

declare rabin_loop.simps [simp del]

definition RabinFindAnchor :: "bytes \<Rightarrow> nat \<Rightarrow> nat \<Rightarrow> nat \<Rightarrow> u64 \<Rightarrow> nat option" where
  "RabinFindAnchor bs start lim window msk =
     (if lim \<le> start \<or> window = 0 \<or> start + window > length bs then None
      else rabin_loop bs window msk lim (start + window) (foldl RabinStep 0 (slice_at start window bs)))"

section \<open>Cutting a region (chunk/eb_hcrbo.cc)\<close>

record EbHcrboStats =
  chunks_reused_from_cfi :: u64
  cfi_rolling_skip_hits :: u64
  cfi_rolling_recompute_avoided :: u64
  cfi_bloom_skip_hits :: u64
  chunks_cut_fastcdc :: u64
  chunks_cut_rabin :: u64

definition no_stats :: EbHcrboStats where
  "no_stats = \<lparr>chunks_reused_from_cfi = 0, cfi_rolling_skip_hits = 0, cfi_rolling_recompute_avoided = 0,
     cfi_bloom_skip_hits = 0, chunks_cut_fastcdc = 0, chunks_cut_rabin = 0\<rparr>"

definition region_chunk :: "DigestAlgo \<Rightarrow> bytes \<Rightarrow> nat \<Rightarrow> nat \<Rightarrow> ChunkDescriptor" where
  "region_chunk algo bs off n =
     \<lparr>ck_offset = word_of_nat off, ck_length = word_of_nat n, ck_hash = ContentHash algo (slice_at off n bs), reused_from_cfi = False\<rparr>"

definition anchor_of :: "AnchorStrength \<Rightarrow> ChunkDescriptor \<Rightarrow> ChunkAnchor" where
  "anchor_of s d =
     \<lparr>anchor_offset = ck_offset d, anchor_length = ck_length d, anchor_hash = ck_hash d, strength = s, rolling_checksum = 0\<rparr>"

text \<open>
  The chunks of a region, their anchors and the statistics. Every byte of the region is hashed: \<open>None\<close> is a region that does
  not end in the file.
\<close>

definition ChunkRegion ::
  "EbHcrboConfig \<Rightarrow> bytes \<Rightarrow> nat \<Rightarrow> nat \<Rightarrow> bool \<Rightarrow> EbHcrboStats \<Rightarrow> (ChunkDescriptor list \<times> CfiIndex \<times> EbHcrboStats) option" where
  "ChunkRegion cfg bs start lim use_rabin stats =
     (let algo = hcrbo_digest cfg; mn = unat (min_size (fast cfg)); region_len = lim - start in
      if lim \<le> start then Some ([], [], stats)
      else if lim > length bs then None
      else if region_len \<le> mn then
        let d = region_chunk algo bs start region_len
        in Some ([d], [anchor_of (if use_rabin then kStrong else kWeak) d], stats)
      else
        let edge = min (unat (strong_anchor_bytes cfg)) (region_len div 4);
            left_cut = (if use_rabin then RabinFindAnchor bs start (start + edge) 64 (rabin_mask cfg) else None);
            inner_start = (case left_cut of Some c \<Rightarrow> c | None \<Rightarrow> start);
            lefts = (case left_cut of Some c \<Rightarrow> [region_chunk algo bs start (c - start)] | None \<Rightarrow> []);
            right_cut = (if use_rabin \<and> lim > inner_start + mn then RabinFindAnchor bs (lim - edge) lim 64 (rabin_mask cfg) else None);
            inner_end = (case right_cut of Some c \<Rightarrow> c | None \<Rightarrow> lim);
            rights = (if use_rabin \<and> inner_end < lim then [region_chunk algo bs inner_end (lim - inner_end)] else [])
        in case (if inner_end > inner_start
                 then Chunk ((fast cfg)\<lparr>cdc_digest := algo\<rparr>) (slice_at inner_start (inner_end - inner_start) bs) else Some []) of
             None \<Rightarrow> None
           | Some ds \<Rightarrow>
               let inner = map (\<lambda>d. d\<lparr>ck_offset := ck_offset d + word_of_nat inner_start\<rparr>) ds
               in Some (lefts @ inner @ rights,
                    map (anchor_of kStrong) lefts @ map (anchor_of kWeak) inner @ map (anchor_of kStrong) rights,
                    stats\<lparr>chunks_cut_rabin := chunks_cut_rabin stats + word_of_nat (length lefts + length rights),
                      chunks_cut_fastcdc := chunks_cut_fastcdc stats + word_of_nat (length inner)\<rparr>))"

definition ChunkFull :: "EbHcrboConfig \<Rightarrow> bytes \<Rightarrow> EbHcrboStats \<Rightarrow> (ChunkDescriptor list \<times> CfiIndex \<times> EbHcrboStats) option" where
  "ChunkFull cfg bs stats = ChunkRegion cfg bs 0 (length bs) False stats"

section \<open>Chunking against the last version (chunk/eb_hcrbo.cc)\<close>

text \<open>
  The anchors in the order of their offsets. The map from checksums to anchors that the source builds beside it is never
  read.
\<close>

definition BuildCfiAnchorIndex :: "CfiIndex \<Rightarrow> ChunkAnchor list" where
  "BuildCfiAnchorIndex history = sort_key anchor_offset history"

definition LowerBoundAnchorPos :: "ChunkAnchor list \<Rightarrow> nat \<Rightarrow> nat" where
  "LowerBoundAnchorPos anchors pos = length (takeWhile (\<lambda>a. unat (anchor_offset a) < pos) anchors)"

record IncrementalState =
  sorted_pos :: nat
  file_pos :: nat
  verifier :: CfiRollingVerifier
  skip_hits :: u64
  inc_out :: "ChunkDescriptor list"
  inc_cfi :: CfiIndex
  inc_stats :: EbHcrboStats

definition anchor_end :: "ChunkAnchor \<Rightarrow> nat" where
  "anchor_end a = unat (anchor_offset a + ucast (anchor_length a))"

text \<open>Cutting up to \<open>lim\<close>.\<close>

definition cut_up_to :: "EbHcrboConfig \<Rightarrow> bytes \<Rightarrow> nat \<Rightarrow> IncrementalState \<Rightarrow> IncrementalState option" where
  "cut_up_to cfg bs lim st =
     (case ChunkRegion cfg bs (file_pos st) lim False (inc_stats st) of
        None \<Rightarrow> None
      | Some (ds, anchors, stats) \<Rightarrow>
          Some (st\<lparr>file_pos := lim, inc_out := inc_out st @ ds, inc_cfi := inc_cfi st @ anchors, inc_stats := stats\<rparr>))"

text \<open>Whether the bytes at an anchor are unchanged: whether their hash matches, and whether their checksum does not.\<close>

definition compare_anchor ::
  "EbHcrboConfig \<Rightarrow> bytes \<Rightarrow> CfiBloomFilter \<Rightarrow> ChunkAnchor \<Rightarrow> IncrementalState \<Rightarrow> (bool \<times> bool \<times> IncrementalState) option" where
  "compare_anchor cfg bs bloom a st =
     (let off = unat (anchor_offset a); n = unat (anchor_length a);
          same = (ContentHash (hcrbo_digest cfg) (slice_at off n bs) = anchor_hash a)
      in if off + n > length bs then None
         else if rolling_checksum a \<noteq> 0 then
           (case VerifyAnchor (verifier st) bs off n (rolling_checksum a) of
              None \<Rightarrow> None
            | Some (rc, v) \<Rightarrow>
                let st1 = st\<lparr>verifier := v\<rparr> in
                if rc = rolling_checksum a then
                  (if \<not> MightContain bloom (anchor_hash a)
                   then Some (False, False, st1\<lparr>inc_stats := (inc_stats st1)\<lparr>cfi_bloom_skip_hits := cfi_bloom_skip_hits (inc_stats st1) + 1\<rparr>\<rparr>)
                   else Some (same, False, st1))
                else Some (False, True, st1\<lparr>skip_hits := skip_hits st1 + 1\<rparr>))
         else Some (same, False, st))"

definition next_anchor_offset :: "bytes \<Rightarrow> ChunkAnchor list \<Rightarrow> nat \<Rightarrow> nat" where
  "next_anchor_offset bs anchors sp =
     (if sp + 1 < length anchors then unat (anchor_offset (anchors ! (sp + 1))) else length bs)"

text \<open>After a checksum that does not match: the change goes on up to the next anchor whose checksum does.\<close>

function extend_change ::
  "bytes \<Rightarrow> ChunkAnchor list \<Rightarrow> nat \<Rightarrow> nat \<Rightarrow> CfiRollingVerifier \<Rightarrow> u64 \<Rightarrow> (nat \<times> CfiRollingVerifier \<times> u64) option" where
  "extend_change bs anchors sp change_end v hits =
     (if sp + 1 < length anchors then
        (let a = anchors ! (sp + 1); off = unat (anchor_offset a); n = unat (anchor_length a) in
         if off \<ge> length bs then Some (length bs, v, hits)
         else if rolling_checksum a = 0 \<or> anchor_end a > length bs then Some (change_end, v, hits)
         else
           (case VerifyAnchor v bs off n (rolling_checksum a) of
              None \<Rightarrow> None
            | Some (rc, v') \<Rightarrow>
                if rc = rolling_checksum a then Some (off, v', hits)
                else extend_change bs anchors (sp + 1) (next_anchor_offset bs anchors (sp + 1)) v' (hits + 1)))
      else Some (change_end, v, hits))"
  by pat_completeness auto
termination by (relation "measure (\<lambda>(bs, anchors, sp, change_end, v, hits). length anchors - sp)") auto

declare extend_change.simps [simp del]

text \<open>One round of the loop, and whether the function returns in it.\<close>

definition incremental_step ::
  "EbHcrboConfig \<Rightarrow> bytes \<Rightarrow> ChunkAnchor list \<Rightarrow> CfiBloomFilter \<Rightarrow> IncrementalState \<Rightarrow> (IncrementalState \<times> bool) option" where
  "incremental_step cfg bs anchors bloom st =
     (let a = anchors ! sorted_pos st; off = unat (anchor_offset a) in
      if off > file_pos st then map_option (\<lambda>st'. (st', False)) (cut_up_to cfg bs off st)
      else if off < file_pos st then Some (st\<lparr>sorted_pos := sorted_pos st + 1\<rparr>, False)
      else if anchor_end a > length bs then map_option (\<lambda>st'. (st', True)) (cut_up_to cfg bs (length bs) st)
      else
        (case compare_anchor cfg bs bloom a st of
           None \<Rightarrow> None
         | Some (hash_match, rolling_mismatch, st1) \<Rightarrow>
             if hash_match then
               Some (st1\<lparr>inc_out := inc_out st1 @ [\<lparr>ck_offset = anchor_offset a, ck_length = anchor_length a,
                         ck_hash = anchor_hash a, reused_from_cfi = True\<rparr>],
                       inc_cfi := inc_cfi st1 @ [a],
                       inc_stats := (inc_stats st1)\<lparr>chunks_reused_from_cfi := chunks_reused_from_cfi (inc_stats st1) + 1\<rparr>,
                       file_pos := anchor_end a, sorted_pos := sorted_pos st1 + 1\<rparr>, False)
             else if rolling_mismatch then
               (case extend_change bs anchors (sorted_pos st1) (next_anchor_offset bs anchors (sorted_pos st1)) (verifier st1) (skip_hits st1) of
                  None \<Rightarrow> None
                | Some (change_end, v, hits) \<Rightarrow>
                    map_option (\<lambda>st'. (st', False)) (cut_up_to cfg bs change_end
                      (st1\<lparr>verifier := v, skip_hits := hits, sorted_pos := LowerBoundAnchorPos anchors change_end\<rparr>)))
             else
               (let change_end = next_anchor_offset bs anchors (sorted_pos st1) in
                map_option (\<lambda>st'. (st'\<lparr>sorted_pos := LowerBoundAnchorPos anchors change_end\<rparr>, False)) (cut_up_to cfg bs change_end st1))))"

partial_function (option) incremental_loop ::
  "EbHcrboConfig \<Rightarrow> bytes \<Rightarrow> ChunkAnchor list \<Rightarrow> CfiBloomFilter \<Rightarrow> IncrementalState \<Rightarrow> (IncrementalState \<times> bool) option" where
  "incremental_loop cfg bs anchors bloom st =
     (if file_pos st < length bs \<and> sorted_pos st < length anchors then
        Option.bind (incremental_step cfg bs anchors bloom st)
          (\<lambda>(st', return). if return then Some (st', True) else incremental_loop cfg bs anchors bloom st')
      else Some (st, False))"

definition ChunkIncremental ::
  "EbHcrboConfig \<Rightarrow> bytes \<Rightarrow> CfiIndex \<Rightarrow> EbHcrboStats \<Rightarrow> (ChunkDescriptor list \<times> CfiIndex \<times> EbHcrboStats) option" where
  "ChunkIncremental cfg bs history stats =
     (if history = [] then ChunkFull cfg bs stats
      else
        let anchors = BuildCfiAnchorIndex history;
            st0 = \<lparr>sorted_pos = 0, file_pos = 0, verifier = new_verifier, skip_hits = 0, inc_out = [], inc_cfi = [], inc_stats = stats\<rparr>
        in case incremental_loop cfg bs anchors (BuildFromCfi history) st0 of
             None \<Rightarrow> None
           | Some (st, True) \<Rightarrow> Some (inc_out st, inc_cfi st, inc_stats st)
           | Some (st, False) \<Rightarrow>
               (case (if file_pos st < length bs then cut_up_to cfg bs (length bs) st else Some st) of
                  None \<Rightarrow> None
                | Some st' \<Rightarrow> Some (inc_out st', inc_cfi st', (inc_stats st')\<lparr>cfi_rolling_skip_hits := skip_hits st',
                    cfi_rolling_recompute_avoided := recompute_avoided (verifier st')\<rparr>)))"

text \<open>The checksums that the pipeline adds to the anchors of a file (\<open>pipeline/backup_pipeline.cc\<close>).\<close>

definition PopulateAnchorChecksums :: "bytes \<Rightarrow> CfiIndex \<Rightarrow> CfiIndex" where
  "PopulateAnchorChecksums bs anchors =
     map (\<lambda>a. if anchor_end a \<le> length bs
              then a\<lparr>rolling_checksum := RollingChecksum (slice_at (unat (anchor_offset a)) (unat (anchor_length a)) bs)\<rparr> else a) anchors"

section \<open>Chunks that cover a stretch of a file\<close>

fun covers :: "nat \<Rightarrow> (nat \<times> u32) list \<Rightarrow> nat \<Rightarrow> bool" where
  "covers pos [] lim \<longleftrightarrow> pos = lim"
| "covers pos ((off, n) # cs) lim \<longleftrightarrow> off = pos \<and> 0 < unat n \<and> covers (pos + unat n) cs lim"

lemma tiles_covers: "tiles mn mx pos cs len \<Longrightarrow> covers pos cs len"
  by (induction mn mx pos cs len rule: tiles.induct) auto

lemma covers_append: "covers a xs b \<Longrightarrow> covers b ys c \<Longrightarrow> covers a (xs @ ys) c"
  by (induction a xs b rule: covers.induct) auto

lemma covers_shifted: "covers a cs b \<Longrightarrow> covers (A + a) (shifted A cs) (A + b)"
  by (induction a cs b rule: covers.induct) (auto simp: add.assoc)

lemma covers_bounds: "covers a cs b \<Longrightarrow> (off, n) \<in> set cs \<Longrightarrow> a \<le> off \<and> 0 < unat n \<and> off + unat n \<le> b"
  and covers_le: "covers a cs b \<Longrightarrow> a \<le> b"
proof -
  show le: "covers a cs b \<Longrightarrow> a \<le> b" for a cs b by (induction a cs b rule: covers.induct) auto
  show "covers a cs b \<Longrightarrow> (off, n) \<in> set cs \<Longrightarrow> a \<le> off \<and> 0 < unat n \<and> off + unat n \<le> b"
    by (induction a cs b rule: covers.induct) (auto dest: le)
qed

lemma covers_concat:
  "covers pos cs lim \<Longrightarrow> lim \<le> length bs \<Longrightarrow> concat (map (\<lambda>(off, n). slice_at off (unat n) bs) cs) = slice_at pos (lim - pos) bs"
proof (induction pos cs lim rule: covers.induct)
  case (2 pos off n cs lim)
  then have "pos + unat n \<le> lim" using covers_le by auto
  then show ?case using 2 slice_at_split [of "unat n" "lim - pos" pos bs] by auto
qed (simp add: slice_at_def)

lemma covers_length: "covers a cs b \<Longrightarrow> a + length cs \<le> b"
  by (induction a cs b rule: covers.induct) auto

text \<open>Descriptors that cover a stretch, each with the hash of its bytes, whether or not they are marked as reused.\<close>

definition chunks_cover :: "DigestAlgo \<Rightarrow> bytes \<Rightarrow> ChunkDescriptor list \<Rightarrow> nat \<Rightarrow> nat \<Rightarrow> bool" where
  "chunks_cover algo bs ds pos lim \<longleftrightarrow>
     (\<exists>cs. map (\<lambda>d. d\<lparr>reused_from_cfi := False\<rparr>) ds = HashChunkRegions algo bs cs \<and> covers pos cs lim)"

lemma chunks_cover_append:
  "chunks_cover algo bs xs a b \<Longrightarrow> chunks_cover algo bs ys b c \<Longrightarrow> chunks_cover algo bs (xs @ ys) a c"
  unfolding chunks_cover_def using covers_append HashChunkRegions_append by (metis map_append)

lemma chunks_cover_Nil [simp]: "chunks_cover algo bs [] pos pos"
  by (auto simp: chunks_cover_def intro: exI [of _ "[]"])

lemma chunks_cover_single:
  assumes "ck_offset d = word_of_nat pos" "0 < unat (ck_length d)" "ck_hash d = ContentHash algo (slice_at pos (unat (ck_length d)) bs)"
  shows "chunks_cover algo bs [d] pos (pos + unat (ck_length d))"
  unfolding chunks_cover_def HashChunkRegions_def using assms by (intro exI [of _ "[(pos, ck_length d)]"]) simp

lemma chunks_cover_region:
  assumes "0 < n" "n < 2 ^ 32"
  shows "chunks_cover algo bs [region_chunk algo bs pos n] pos (pos + n)"
proof -
  have "unat (word_of_nat n :: u32) = n" using assms(2) by (simp add: unat_of_nat)
  then show ?thesis using chunks_cover_single [of "region_chunk algo bs pos n" pos algo bs] assms by (simp add: region_chunk_def)
qed

lemma chunks_cover_Chunk:
  assumes "cdc_sizes cfg" "start < lim" "lim \<le> length bs"
  shows "\<exists>ds. Chunk (cfg\<lparr>cdc_digest := algo\<rparr>) (slice_at start (lim - start) bs) = Some ds \<and>
    chunks_cover algo bs (map (\<lambda>d. d\<lparr>ck_offset := ck_offset d + word_of_nat start\<rparr>) ds) start lim"
proof -
  let ?s = "slice_at start (lim - start) bs" and ?cfg = "cfg\<lparr>cdc_digest := algo\<rparr>"
  have l: "length ?s = lim - start" using assms(2,3) by simp
  have "cdc_sizes ?cfg" using assms(1) by (simp add: cdc_sizes_def)
  then obtain cs where cs: "Chunk ?cfg ?s = Some (HashChunkRegions algo ?s cs)" "covers 0 cs (lim - start)"
    using Chunk_cuts [of ?cfg ?s] tiles_covers unfolding l by auto
  have "map (\<lambda>d. d\<lparr>ck_offset := ck_offset d + word_of_nat start\<rparr>) (HashChunkRegions algo ?s cs) = HashChunkRegions algo bs (shifted start cs)"
    unfolding HashChunkRegions_def shifted_def map_map
    using covers_bounds [OF cs(2)] by (intro map_cong refl) (auto simp: slice_of_slice add.commute)
  moreover have "chunks_cover algo bs (HashChunkRegions algo bs (shifted start cs)) start lim"
    unfolding chunks_cover_def
  proof (intro exI conjI)
    show "covers start (shifted start cs) lim" using covers_shifted [OF cs(2), of start] assms(2) by simp
    show "map (\<lambda>d. d\<lparr>reused_from_cfi := False\<rparr>) (HashChunkRegions algo bs (shifted start cs)) = HashChunkRegions algo bs (shifted start cs)"
      by (auto simp: HashChunkRegions_def)
  qed
  ultimately show ?thesis using cs(1) by auto
qed

text \<open>What covers the whole file partitions it.\<close>

lemma chunks_cover_partition:
  assumes "chunks_cover algo bs ds 0 (length bs)" "length bs < 2 ^ 64"
  shows "concat (map (chunk_region bs) ds) = bs"
    and "list_all (\<lambda>d. 0 < unat (ck_length d) \<and> ck_hash d = ContentHash algo (chunk_region bs d)) ds"
proof -
  obtain cs where cs: "map (\<lambda>d. d\<lparr>reused_from_cfi := False\<rparr>) ds = HashChunkRegions algo bs cs" "covers 0 cs (length bs)"
    using assms(1) by (auto simp: chunks_cover_def)
  have r: "chunk_region bs (d\<lparr>reused_from_cfi := x\<rparr>) = chunk_region bs d" for d x by (simp add: chunk_region_def)
  have h: "chunk_region bs \<lparr>ck_offset = word_of_nat off, ck_length = n, ck_hash = h, reused_from_cfi = False\<rparr> =
      slice_at off (unat n) bs" if "(off, n) \<in> set cs" for off n h
    using covers_bounds [OF cs(2) that] by (intro region_of_cut [OF assms(2)]) simp
  have "map (chunk_region bs) ds = map (chunk_region bs) (HashChunkRegions algo bs cs)"
    unfolding cs(1) [symmetric] by (simp add: r)
  also have "\<dots> = map (\<lambda>(off, n). slice_at off (unat n) bs) cs"
    unfolding HashChunkRegions_def map_map using h by (intro map_cong refl) auto
  finally show "concat (map (chunk_region bs) ds) = bs" using covers_concat [OF cs(2) order_refl] by (simp add: slice_at_def)
  have "list_all (\<lambda>d. 0 < unat (ck_length d) \<and> ck_hash d = ContentHash algo (chunk_region bs d)) (HashChunkRegions algo bs cs)"
    using covers_bounds [OF cs(2)] h by (auto simp: HashChunkRegions_def list_all_iff)
  then show "list_all (\<lambda>d. 0 < unat (ck_length d) \<and> ck_hash d = ContentHash algo (chunk_region bs d)) ds"
    unfolding cs(1) [symmetric] by (simp add: list_all_iff r)
qed

section \<open>A region\<close>

definition desc_key :: "ChunkDescriptor \<Rightarrow> u64 \<times> u32 \<times> bytes" where
  "desc_key d = (ck_offset d, ck_length d, ck_hash d)"

definition anchor_key :: "ChunkAnchor \<Rightarrow> u64 \<times> u32 \<times> bytes" where
  "anchor_key a = (anchor_offset a, anchor_length a, anchor_hash a)"

lemma anchor_key_of [simp]: "anchor_key (anchor_of s d) = desc_key d"
  by (simp add: anchor_key_def anchor_of_def desc_key_def)

lemma map_anchor_key_of [simp]: "map anchor_key (map (anchor_of s) ds) = map desc_key ds"
  by simp

lemma rabin_loop_range: "rabin_loop bs window msk lim i fp = Some c \<Longrightarrow> i \<le> c \<and> c \<le> lim"
proof (induction bs window msk lim i fp rule: rabin_loop.induct)
  case (1 bs window msk lim i fp)
  have "i \<le> lim \<and> i \<le> length bs" using 1(2) by (subst (asm) rabin_loop.simps) (auto split: if_splits)
  then show ?case using 1 by (subst (asm) (2) rabin_loop.simps) (fastforce split: if_splits)
qed

lemma RabinFindAnchor_range: "RabinFindAnchor bs start lim window msk = Some c \<Longrightarrow> start < c \<and> c \<le> lim"
  using rabin_loop_range [of bs window msk lim "start + window"] by (fastforce simp: RabinFindAnchor_def split: if_splits)

lemma chunk_pieces:
  assumes "cdc_sizes cfg" "start \<le> lim" "lim \<le> length bs"
  shows "\<exists>ds. (if lim > start then Chunk (cfg\<lparr>cdc_digest := algo\<rparr>) (slice_at start (lim - start) bs) else Some []) = Some ds \<and>
    chunks_cover algo bs (map (\<lambda>d. d\<lparr>ck_offset := ck_offset d + word_of_nat start\<rparr>) ds) start lim"
  using chunks_cover_Chunk [OF assms(1) _ assms(3)] assms(2) by (cases "start < lim") auto

lemma ChunkRegion_covers:
  assumes "cdc_sizes (fast cfg)" "start < lim" "lim \<le> length bs"
  shows "\<exists>ds anchors stats'. ChunkRegion cfg bs start lim use_rabin stats = Some (ds, anchors, stats') \<and>
    chunks_cover (hcrbo_digest cfg) bs ds start lim \<and> map anchor_key anchors = map desc_key ds"
proof (cases "lim - start \<le> unat (min_size (fast cfg))")
  case True
  have "unat (min_size (fast cfg)) < 2 ^ 32" using unsigned_less [of "min_size (fast cfg)"] by simp
  then have n: "0 < lim - start" "lim - start < 2 ^ 32" using True assms(2) by linarith+
  show ?thesis
    using chunks_cover_region [OF n, of "hcrbo_digest cfg" bs start] True assms(2,3) by (simp add: ChunkRegion_def Let_def)
next
  case False
  define algo where "algo = hcrbo_digest cfg"
  define edge where "edge = min (unat (strong_anchor_bytes cfg)) ((lim - start) div 4)"
  define left_cut where "left_cut = (if use_rabin then RabinFindAnchor bs start (start + edge) 64 (rabin_mask cfg) else None)"
  define inner_start where "inner_start = (case left_cut of Some c \<Rightarrow> c | None \<Rightarrow> start)"
  define lefts where "lefts = (case left_cut of Some c \<Rightarrow> [region_chunk algo bs start (c - start)] | None \<Rightarrow> [])"
  define right_cut where "right_cut = (if use_rabin \<and> lim > inner_start + unat (min_size (fast cfg))
    then RabinFindAnchor bs (lim - edge) lim 64 (rabin_mask cfg) else None)"
  define inner_end where "inner_end = (case right_cut of Some c \<Rightarrow> c | None \<Rightarrow> lim)"
  define rights where "rights = (if use_rabin \<and> inner_end < lim then [region_chunk algo bs inner_end (lim - inner_end)] else [])"
  have e: "edge < 2 ^ 32" "4 * edge \<le> lim - start"
    using unsigned_less [of "strong_anchor_bytes cfg", where ?'a = nat] by (auto simp: edge_def)
  have l: "start \<le> inner_start" "inner_start \<le> start + edge" "chunks_cover algo bs lefts start inner_start"
  proof -
    have "start \<le> inner_start \<and> inner_start \<le> start + edge \<and> chunks_cover algo bs lefts start inner_start"
    proof (cases left_cut)
      case None
      then show ?thesis by (simp add: inner_start_def lefts_def)
    next
      case (Some c)
      then have c: "start < c" "c \<le> start + edge" using RabinFindAnchor_range by (auto simp: left_cut_def split: if_splits)
      have "0 < c - start" "c - start < 2 ^ 32" "start + (c - start) = c" using c e(1) by linarith+
      then show ?thesis using c Some chunks_cover_region [of "c - start" algo bs start] by (simp add: inner_start_def lefts_def)
    qed
    then show "start \<le> inner_start" "inner_start \<le> start + edge" "chunks_cover algo bs lefts start inner_start" by simp_all
  qed
  have r: "lim - edge \<le> inner_end" "inner_end \<le> lim" "chunks_cover algo bs rights inner_end lim"
  proof -
    have c: "lim - edge \<le> inner_end \<and> inner_end \<le> lim" "\<not> use_rabin \<Longrightarrow> inner_end = lim"
      using RabinFindAnchor_range [of bs "lim - edge" lim 64 "rabin_mask cfg"]
      by (fastforce simp: inner_end_def right_cut_def split: option.splits if_splits)+
    have "chunks_cover algo bs rights inner_end lim"
    proof (cases "use_rabin \<and> inner_end < lim")
      case True
      have "0 < lim - inner_end" "lim - inner_end < 2 ^ 32" "inner_end + (lim - inner_end) = lim" using True c e by linarith+
      then show ?thesis using True chunks_cover_region [of "lim - inner_end" algo bs inner_end] by (simp add: rights_def)
    next
      case False
      then have "inner_end = lim" using c by auto
      then show ?thesis using False by (simp add: rights_def)
    qed
    then show "lim - edge \<le> inner_end" "inner_end \<le> lim" "chunks_cover algo bs rights inner_end lim" using c by simp_all
  qed
  have "inner_start \<le> inner_end" using l(2) r(1) e(2) assms(2) by linarith
  then obtain ds where ds: "(if inner_end > inner_start then Chunk ((fast cfg)\<lparr>cdc_digest := algo\<rparr>) (slice_at inner_start (inner_end - inner_start) bs) else Some []) = Some ds"
    "chunks_cover algo bs (map (\<lambda>d. d\<lparr>ck_offset := ck_offset d + word_of_nat inner_start\<rparr>) ds) inner_start inner_end"
    using chunk_pieces [OF assms(1), of inner_start inner_end bs algo] r(2) assms(3) by auto
  let ?inner = "map (\<lambda>d. d\<lparr>ck_offset := ck_offset d + word_of_nat inner_start\<rparr>) ds"
  have "ChunkRegion cfg bs start lim use_rabin stats = Some (lefts @ ?inner @ rights,
      map (anchor_of kStrong) lefts @ map (anchor_of kWeak) ?inner @ map (anchor_of kStrong) rights,
      stats\<lparr>chunks_cut_rabin := chunks_cut_rabin stats + word_of_nat (length lefts + length rights),
        chunks_cut_fastcdc := chunks_cut_fastcdc stats + word_of_nat (length ?inner)\<rparr>)"
    using False assms(2,3) ds(1) unfolding ChunkRegion_def Let_def algo_def [symmetric] edge_def [symmetric]
      left_cut_def [symmetric] inner_start_def [symmetric] lefts_def [symmetric] right_cut_def [symmetric]
      inner_end_def [symmetric] rights_def [symmetric] by simp
  moreover have "chunks_cover algo bs (lefts @ ?inner @ rights) start lim"
    using chunks_cover_append [OF l(3) chunks_cover_append [OF ds(2) r(3)]] .
  moreover have "map anchor_key (map (anchor_of kStrong) lefts @ map (anchor_of kWeak) ?inner @ map (anchor_of kStrong) rights) =
      map desc_key (lefts @ ?inner @ rights)"
    unfolding map_append map_anchor_key_of by (rule refl)
  ultimately show ?thesis unfolding algo_def by blast
qed

section \<open>The anchors of a version\<close>

text \<open>The anchors of a file of \<open>old\<close> bytes, in order and without a gap.\<close>

definition anchors_cover :: "CfiIndex \<Rightarrow> nat \<Rightarrow> bool" where
  "anchors_cover anchors old \<longleftrightarrow>
     covers 0 (map (\<lambda>a. (unat (anchor_offset a), anchor_length a)) anchors) old \<and> old < 2 ^ 64"

lemma covers_nth:
  "covers a (map f xs) b \<Longrightarrow> i < length xs \<Longrightarrow>
     0 < unat (snd (f (xs ! i))) \<and> fst (f (xs ! i)) + unat (snd (f (xs ! i))) \<le> b \<and>
     (Suc i < length xs \<longrightarrow> fst (f (xs ! Suc i)) = fst (f (xs ! i)) + unat (snd (f (xs ! i)))) \<and> a \<le> fst (f (xs ! i)) \<and>
     (Suc i = length xs \<longrightarrow> fst (f (xs ! i)) + unat (snd (f (xs ! i))) = b)"
proof (induction xs arbitrary: a i)
  case (Cons x xs)
  obtain off n where x: "f x = (off, n)" by (cases "f x")
  have c: "off = a" "0 < unat n" "covers (a + unat n) (map f xs) b" using Cons.prems(1) by (simp_all add: x)
  show ?case
  proof (cases i)
    case 0
    have "Suc 0 < length (x # xs) \<longrightarrow> fst (f ((x # xs) ! Suc 0)) = a + unat n"
    proof (cases xs)
      case (Cons y ys)
      then show ?thesis using c(3) by (cases "f y") simp
    qed simp
    moreover have "Suc 0 = length (x # xs) \<longrightarrow> a + unat n = b" using c(3) by auto
    ultimately show ?thesis using c covers_le [OF c(3)] by (simp add: 0 x)
  next
    case (Suc j)
    then have j: "j < length xs" using Cons.prems(2) by simp
    note IH = Cons.IH [OF c(3) j]
    then have "a \<le> fst (f (xs ! j))" by linarith
    with IH show ?thesis unfolding Suc nth_Cons_Suc length_Cons Suc_less_eq nat.inject by blast
  qed
qed simp

lemma anchors_cover_nth:
  assumes "anchors_cover anchors old" "i < length anchors"
  shows "0 < unat (anchor_length (anchors ! i))"
    and "anchor_end (anchors ! i) = unat (anchor_offset (anchors ! i)) + unat (anchor_length (anchors ! i))"
    and "anchor_end (anchors ! i) \<le> old"
    and "Suc i < length anchors \<Longrightarrow> unat (anchor_offset (anchors ! Suc i)) = anchor_end (anchors ! i)"
    and "Suc i = length anchors \<Longrightarrow> anchor_end (anchors ! i) = old"
proof -
  note c = covers_nth [OF conjunct1 [OF assms(1) [unfolded anchors_cover_def]] assms(2)]
  show "0 < unat (anchor_length (anchors ! i))" using c by simp
  have "unat (anchor_offset (anchors ! i)) + unat (anchor_length (anchors ! i)) < 2 ^ 64"
    using c assms(1) by (auto simp: anchors_cover_def)
  moreover have u: "unat (ucast (anchor_length (anchors ! i)) :: u64) = unat (anchor_length (anchors ! i))"
    using unsigned_less [of "anchor_length (anchors ! i)", where ?'a = nat] by (simp add: unsigned_ucast_eq take_bit_nat_eq_self)
  ultimately show e: "anchor_end (anchors ! i) = unat (anchor_offset (anchors ! i)) + unat (anchor_length (anchors ! i))"
    by (simp add: anchor_end_def unat_word_ariths u)
  show "anchor_end (anchors ! i) \<le> old" using c by (simp add: e)
  show "unat (anchor_offset (anchors ! Suc i)) = anchor_end (anchors ! i)" if "Suc i < length anchors" using c that by (simp add: e)
  show "anchor_end (anchors ! i) = old" if "Suc i = length anchors" using c that by (simp add: e)
qed

lemma anchors_cover_increasing:
  assumes "anchors_cover anchors old"
  shows "j < length anchors \<Longrightarrow> i < j \<Longrightarrow> unat (anchor_offset (anchors ! i)) < unat (anchor_offset (anchors ! j))"
proof (induction j)
  case (Suc j)
  have s: "unat (anchor_offset (anchors ! j)) < unat (anchor_offset (anchors ! Suc j))"
    using anchors_cover_nth [OF assms, of j] Suc.prems(1) by simp
  show ?case
  proof (cases "i = j")
    case True
    then show ?thesis using s by simp
  next
    case False
    then show ?thesis using s Suc by simp
  qed
qed simp

lemma LowerBoundAnchorPos_anchor:
  assumes "anchors_cover anchors old" "j < length anchors"
  shows "LowerBoundAnchorPos anchors (unat (anchor_offset (anchors ! j))) = j"
proof -
  have "takeWhile (\<lambda>a. unat (anchor_offset a) < unat (anchor_offset (anchors ! j))) anchors = take j anchors"
    using anchors_cover_increasing [OF assms] by (intro takeWhile_eq_take_P_nth) auto
  then show ?thesis using assms(2) by (simp add: LowerBoundAnchorPos_def)
qed

lemma BuildCfiAnchorIndex_cover:
  assumes "anchors_cover anchors old"
  shows "BuildCfiAnchorIndex anchors = anchors"
proof -
  have "sorted (map anchor_offset anchors)"
    unfolding sorted_iff_nth_mono_less using anchors_cover_increasing [OF assms]
    by (auto simp: word_le_nat_alt intro: less_imp_le)
  then show ?thesis by (simp add: BuildCfiAnchorIndex_def sort_key_id_if_sorted)
qed

text \<open>Where a change may end: at the end of the file or at an anchor.\<close>

definition boundary :: "bytes \<Rightarrow> ChunkAnchor list \<Rightarrow> nat \<Rightarrow> bool" where
  "boundary bs anchors p \<longleftrightarrow> p = length bs \<or> (p < length bs \<and> (\<exists>j < length anchors. unat (anchor_offset (anchors ! j)) = p))"

lemma next_anchor_boundary:
  assumes "anchors_cover anchors old" "sp < length anchors" "anchor_end (anchors ! sp) \<le> length bs"
  shows "unat (anchor_offset (anchors ! sp)) < next_anchor_offset bs anchors sp" "boundary bs anchors (next_anchor_offset bs anchors sp)"
proof -
  note a = anchors_cover_nth [OF assms(1,2)]
  show "unat (anchor_offset (anchors ! sp)) < next_anchor_offset bs anchors sp"
    using a assms(3) by (auto simp: next_anchor_offset_def)
  show "boundary bs anchors (next_anchor_offset bs anchors sp)"
    using a assms(3) by (auto simp: next_anchor_offset_def boundary_def)
qed

lemma VerifyAnchor_defined: "off + n \<le> length bs \<Longrightarrow> \<exists>rc v'. VerifyAnchor v bs off n x = Some (rc, v')"
  by (auto simp: VerifyAnchor_def Let_def)

lemma extend_change_boundary:
  assumes c: "anchors_cover anchors old"
  shows "sp < length anchors \<Longrightarrow> anchor_end (anchors ! sp) \<le> length bs \<Longrightarrow>
    \<exists>ce v' h'. extend_change bs anchors sp (next_anchor_offset bs anchors sp) v hits = Some (ce, v', h') \<and>
      unat (anchor_offset (anchors ! sp)) < ce \<and> boundary bs anchors ce"
proof (induction "length anchors - sp" arbitrary: sp v hits rule: less_induct)
  case less
  note here = anchors_cover_nth [OF c less.prems(1)] and nb = next_anchor_boundary [OF c less.prems]
  show ?case
  proof (cases "sp + 1 < length anchors")
    case False
    then show ?thesis using nb by (subst extend_change.simps) simp
  next
    case True
    let ?a = "anchors ! (sp + 1)"
    note next_a = anchors_cover_nth [OF c True]
    have off: "unat (anchor_offset ?a) = anchor_end (anchors ! sp)" "next_anchor_offset bs anchors sp = unat (anchor_offset ?a)"
      using here(4) True by (simp_all add: next_anchor_offset_def)
    consider "length bs \<le> unat (anchor_offset ?a)"
      | "unat (anchor_offset ?a) < length bs" "rolling_checksum ?a = 0 \<or> anchor_end ?a > length bs"
      | "unat (anchor_offset ?a) < length bs" "rolling_checksum ?a \<noteq> 0" "anchor_end ?a \<le> length bs" by linarith
    then show ?thesis
    proof cases
      case 1
      then show ?thesis using True here less.prems(2) by (subst extend_change.simps) (simp add: Let_def boundary_def)
    next
      case 2
      then show ?thesis using True nb by (subst extend_change.simps) (simp add: Let_def)
    next
      case 3
      obtain rc v' where v: "VerifyAnchor v bs (unat (anchor_offset ?a)) (unat (anchor_length ?a)) (rolling_checksum ?a) = Some (rc, v')"
        using VerifyAnchor_defined 3(3) next_a(2) by metis
      have step: "extend_change bs anchors sp (next_anchor_offset bs anchors sp) v hits =
          (if rc = rolling_checksum ?a then Some (unat (anchor_offset ?a), v', hits)
           else extend_change bs anchors (sp + 1) (next_anchor_offset bs anchors (sp + 1)) v' (hits + 1))"
        using True 3 v by (subst extend_change.simps) (simp add: Let_def)
      have "length anchors - (sp + 1) < length anchors - sp" using True by simp
      from less.hyps [OF this True 3(3), of v' "hits + 1"] obtain ce v2 h2 where
        "extend_change bs anchors (sp + 1) (next_anchor_offset bs anchors (sp + 1)) v' (hits + 1) = Some (ce, v2, h2)"
        "unat (anchor_offset ?a) < ce" "boundary bs anchors ce" by blast
      then show ?thesis using nb off(2) unfolding step by (cases "rc = rolling_checksum ?a") auto
    qed
  qed
qed

section \<open>The loop over the anchors\<close>

text \<open>What has been put out covers the file up to the position, and its anchors say the same.\<close>

definition cut_so_far :: "EbHcrboConfig \<Rightarrow> bytes \<Rightarrow> IncrementalState \<Rightarrow> bool" where
  "cut_so_far cfg bs st \<longleftrightarrow> file_pos st \<le> length bs \<and> chunks_cover (hcrbo_digest cfg) bs (inc_out st) 0 (file_pos st) \<and>
     map anchor_key (inc_cfi st) = map desc_key (inc_out st)"

text \<open>Between two rounds the position is at the next anchor.\<close>

definition at_anchor :: "bytes \<Rightarrow> ChunkAnchor list \<Rightarrow> IncrementalState \<Rightarrow> bool" where
  "at_anchor bs anchors st \<longleftrightarrow> file_pos st < length bs \<and> sorted_pos st < length anchors \<longrightarrow>
     unat (anchor_offset (anchors ! sorted_pos st)) = file_pos st"

lemma cut_up_to_ok:
  assumes "cdc_sizes (fast cfg)" "cut_so_far cfg bs st" "file_pos st < lim" "lim \<le> length bs"
  shows "\<exists>st'. cut_up_to cfg bs lim st = Some st' \<and> cut_so_far cfg bs st' \<and> file_pos st' = lim \<and> sorted_pos st' = sorted_pos st"
proof -
  obtain ds anchors stats' where r: "ChunkRegion cfg bs (file_pos st) lim False (inc_stats st) = Some (ds, anchors, stats')"
    "chunks_cover (hcrbo_digest cfg) bs ds (file_pos st) lim" "map anchor_key anchors = map desc_key ds"
    using ChunkRegion_covers [OF assms(1,3,4)] by blast
  have "chunks_cover (hcrbo_digest cfg) bs (inc_out st @ ds) 0 lim"
    using chunks_cover_append [OF _ r(2)] assms(2) by (simp add: cut_so_far_def)
  then show ?thesis using assms(2,4) r by (simp add: cut_up_to_def cut_so_far_def)
qed

lemma compare_anchor_ok:
  assumes "unat (anchor_offset a) + unat (anchor_length a) \<le> length bs"
  shows "\<exists>hm rm st'. compare_anchor cfg bs bloom a st = Some (hm, rm, st') \<and> file_pos st' = file_pos st \<and>
    sorted_pos st' = sorted_pos st \<and> inc_out st' = inc_out st \<and> inc_cfi st' = inc_cfi st \<and>
    (hm \<longrightarrow> anchor_hash a = ContentHash (hcrbo_digest cfg) (slice_at (unat (anchor_offset a)) (unat (anchor_length a)) bs))"
proof (cases "rolling_checksum a = 0")
  case True
  then show ?thesis using assms by (auto simp: compare_anchor_def Let_def)
next
  case False
  obtain rc v where v: "VerifyAnchor (verifier st) bs (unat (anchor_offset a)) (unat (anchor_length a)) (rolling_checksum a) = Some (rc, v)"
    using VerifyAnchor_defined [OF assms] by blast
  show ?thesis using assms False by (cases "MightContain bloom (anchor_hash a)") (auto simp: compare_anchor_def Let_def v)
qed

lemma boundary_at_anchor:
  assumes "anchors_cover anchors old" "boundary bs anchors p" "file_pos st = p" "sorted_pos st = LowerBoundAnchorPos anchors p"
  shows "at_anchor bs anchors st"
  using assms(2-4) LowerBoundAnchorPos_anchor [OF assms(1)] unfolding at_anchor_def boundary_def by (metis order_less_irrefl)

lemma incremental_step_ok:
  assumes c: "anchors_cover anchors old" and s: "cdc_sizes (fast cfg)"
    and st: "cut_so_far cfg bs st" "at_anchor bs anchors st" "file_pos st < length bs" "sorted_pos st < length anchors"
  shows "\<exists>st' ret. incremental_step cfg bs anchors bloom st = Some (st', ret) \<and> cut_so_far cfg bs st' \<and> file_pos st < file_pos st' \<and>
    (if ret then file_pos st' = length bs else at_anchor bs anchors st')"
proof -
  let ?a = "anchors ! sorted_pos st"
  note a = anchors_cover_nth [OF c st(4)]
  have pos: "unat (anchor_offset ?a) = file_pos st" using st(2-4) by (simp add: at_anchor_def)
  show ?thesis
  proof (cases "anchor_end ?a > length bs")
    case True
    obtain st' where "cut_up_to cfg bs (length bs) st = Some st'" "cut_so_far cfg bs st'" "file_pos st' = length bs"
      using cut_up_to_ok [OF s st(1,3) order_refl] by blast
    moreover have "incremental_step cfg bs anchors bloom st = Some (st', True)"
      using True pos calculation(1) by (simp add: incremental_step_def Let_def)
    ultimately show ?thesis using st(3) by auto
  next
    case False
    then have le: "unat (anchor_offset ?a) + unat (anchor_length ?a) \<le> length bs" "anchor_end ?a \<le> length bs" using a(2) by simp_all
    obtain hm rm st1 where cmp: "compare_anchor cfg bs bloom ?a st = Some (hm, rm, st1)" "file_pos st1 = file_pos st"
      "sorted_pos st1 = sorted_pos st" "inc_out st1 = inc_out st" "inc_cfi st1 = inc_cfi st"
      "hm \<longrightarrow> anchor_hash ?a = ContentHash (hcrbo_digest cfg) (slice_at (unat (anchor_offset ?a)) (unat (anchor_length ?a)) bs)"
      using compare_anchor_ok [OF le(1), of cfg bloom st] by blast
    have st1: "cut_so_far cfg bs st1" using st(1) cmp by (simp add: cut_so_far_def)
    have sp1: "sorted_pos st1 < length anchors" using st(4) cmp(3) by simp
    let ?next = "next_anchor_offset bs anchors (sorted_pos st1)"
    have nb: "file_pos st1 < ?next" "boundary bs anchors ?next"
      using next_anchor_boundary [OF c st(4) le(2)] pos cmp(2,3) by simp_all
    consider "hm" | "\<not> hm" "rm" | "\<not> hm" "\<not> rm" by blast
    then show ?thesis
    proof cases
      case 1
      let ?d = "\<lparr>ck_offset = anchor_offset ?a, ck_length = anchor_length ?a, ck_hash = anchor_hash ?a, reused_from_cfi = True\<rparr>"
      let ?st' = "st1\<lparr>inc_out := inc_out st1 @ [?d], inc_cfi := inc_cfi st1 @ [?a],
        inc_stats := (inc_stats st1)\<lparr>chunks_reused_from_cfi := chunks_reused_from_cfi (inc_stats st1) + 1\<rparr>,
        file_pos := anchor_end ?a, sorted_pos := sorted_pos st1 + 1\<rparr>"
      have "chunks_cover (hcrbo_digest cfg) bs [?d] (file_pos st) (file_pos st + unat (anchor_length ?a))"
      proof -
        have "anchor_offset ?a = word_of_nat (file_pos st)" unfolding pos [symmetric] by simp
        then show ?thesis using chunks_cover_single [of ?d "file_pos st"] 1 cmp(6) a(1) pos by simp
      qed
      then have "cut_so_far cfg bs ?st'"
        using st1 cmp(2) le(2) a(2) pos chunks_cover_append by (auto simp: cut_so_far_def desc_key_def anchor_key_def)
      moreover have "at_anchor bs anchors ?st'" using a(4) cmp(3) by (auto simp: at_anchor_def)
      moreover have "incremental_step cfg bs anchors bloom st = Some (?st', False)"
        using 1 False pos cmp(1) by (simp add: incremental_step_def Let_def)
      moreover have "file_pos st < anchor_end ?a" using a(1,2) pos by simp
      ultimately show ?thesis by auto
    next
      case 2
      obtain ce v h where ce: "extend_change bs anchors (sorted_pos st1) ?next (verifier st1) (skip_hits st1) = Some (ce, v, h)"
        "file_pos st1 < ce" "boundary bs anchors ce"
        using extend_change_boundary [OF c sp1, of bs "verifier st1" "skip_hits st1"] le(2) cmp(2,3) pos by auto
      let ?st2 = "st1\<lparr>verifier := v, skip_hits := h, sorted_pos := LowerBoundAnchorPos anchors ce\<rparr>"
      have "cut_so_far cfg bs ?st2" using st1 by (simp add: cut_so_far_def)
      moreover have "ce \<le> length bs" using ce(3) by (auto simp: boundary_def)
      ultimately obtain st' where st': "cut_up_to cfg bs ce ?st2 = Some st'" "cut_so_far cfg bs st'" "file_pos st' = ce"
          "sorted_pos st' = LowerBoundAnchorPos anchors ce"
        using cut_up_to_ok [OF s, of bs ?st2 ce] ce(2) by auto
      have "incremental_step cfg bs anchors bloom st = Some (st', False)"
        using 2 False pos cmp(1) ce(1) st'(1) by (simp add: incremental_step_def Let_def)
      then show ?thesis using st' boundary_at_anchor [OF c ce(3)] ce(2) cmp(2) by auto
    next
      case 3
      have "?next \<le> length bs" using nb(2) by (auto simp: boundary_def)
      then obtain st' where st': "cut_up_to cfg bs ?next st1 = Some st'" "cut_so_far cfg bs st'" "file_pos st' = ?next"
        using cut_up_to_ok [OF s st1 nb(1)] by blast
      let ?st2 = "st'\<lparr>sorted_pos := LowerBoundAnchorPos anchors ?next\<rparr>"
      have "incremental_step cfg bs anchors bloom st = Some (?st2, False)"
        using 3 False pos cmp(1) st'(1) by (simp add: incremental_step_def Let_def)
      moreover have "cut_so_far cfg bs ?st2" using st'(2) by (simp add: cut_so_far_def)
      moreover have "at_anchor bs anchors ?st2" using boundary_at_anchor [OF c nb(2)] st'(3) by simp
      ultimately show ?thesis using st'(3) nb(1) cmp(2) by auto
    qed
  qed
qed

lemma incremental_loop_ok:
  assumes c: "anchors_cover anchors old" and s: "cdc_sizes (fast cfg)"
  shows "cut_so_far cfg bs st \<Longrightarrow> at_anchor bs anchors st \<Longrightarrow>
    \<exists>st' ret. incremental_loop cfg bs anchors bloom st = Some (st', ret) \<and> cut_so_far cfg bs st' \<and> (ret \<longrightarrow> file_pos st' = length bs)"
proof (induction "length bs - file_pos st" arbitrary: st rule: less_induct)
  case less
  show ?case
  proof (cases "file_pos st < length bs \<and> sorted_pos st < length anchors")
    case False
    then have "incremental_loop cfg bs anchors bloom st = Some (st, False)" by (subst incremental_loop.simps) auto
    then show ?thesis using less.prems(1) by blast
  next
    case True
    obtain st1 ret where r: "incremental_step cfg bs anchors bloom st = Some (st1, ret)" "cut_so_far cfg bs st1" "file_pos st < file_pos st1"
      "if ret then file_pos st1 = length bs else at_anchor bs anchors st1"
      using incremental_step_ok [OF c s less.prems] True by blast
    show ?thesis
    proof (cases ret)
      case ret: True
      then have "incremental_loop cfg bs anchors bloom st = Some (st1, True)" using True r(1) by (subst incremental_loop.simps) simp
      then show ?thesis using ret r by auto
    next
      case False
      have "length bs - file_pos st1 < length bs - file_pos st" using True r(3) by linarith
      from less.hyps [OF this r(2)] r(4) False obtain st' ret' where i: "incremental_loop cfg bs anchors bloom st1 = Some (st', ret')"
        "cut_so_far cfg bs st'" "ret' \<longrightarrow> file_pos st' = length bs" by auto
      have "incremental_loop cfg bs anchors bloom st = incremental_loop cfg bs anchors bloom st1"
        using True r(1) False by (subst incremental_loop.simps) simp
      then show ?thesis using i by auto
    qed
  qed
qed

lemma ChunkIncremental_covers:
  assumes "anchors_cover history old" "cdc_sizes (fast cfg)" 
  shows "\<exists>ds anchors stats'. ChunkIncremental cfg bs history stats = Some (ds, anchors, stats') \<and>
    chunks_cover (hcrbo_digest cfg) bs ds 0 (length bs) \<and> map anchor_key anchors = map desc_key ds"
proof (cases "history = []")
  case True
  show ?thesis
  proof (cases "bs = []")
    case e: True
    then show ?thesis using True by (simp add: ChunkIncremental_def ChunkFull_def ChunkRegion_def Let_def)
  next
    case False
    then show ?thesis using ChunkRegion_covers [OF assms(2), of 0 "length bs" bs] True by (simp add: ChunkIncremental_def ChunkFull_def)
  qed
next
  case False
  let ?st = "\<lparr>sorted_pos = 0, file_pos = 0, verifier = new_verifier, skip_hits = 0, inc_out = [], inc_cfi = [], inc_stats = stats\<rparr>"
  have idx: "BuildCfiAnchorIndex history = history" by (rule BuildCfiAnchorIndex_cover [OF assms(1)])
  have "unat (anchor_offset (history ! 0)) = 0"
    using assms(1) False by (cases history) (auto simp: anchors_cover_def)
  then have "cut_so_far cfg bs ?st" "at_anchor bs history ?st" by (simp_all add: cut_so_far_def at_anchor_def)
  then obtain st' ret where l: "incremental_loop cfg bs history (BuildFromCfi history) ?st = Some (st', ret)" "cut_so_far cfg bs st'"
    "ret \<longrightarrow> file_pos st' = length bs"
    using incremental_loop_ok [OF assms] by blast
  show ?thesis
  proof (cases "ret \<or> file_pos st' = length bs")
    case True
    then show ?thesis using l False idx by (cases ret) (auto simp: ChunkIncremental_def Let_def cut_so_far_def)
  next
    case tail: False
    then have "file_pos st' < length bs" using l(2) by (auto simp: cut_so_far_def)
    then obtain st2 where "cut_up_to cfg bs (length bs) st' = Some st2" "cut_so_far cfg bs st2" "file_pos st2 = length bs"
      using cut_up_to_ok [OF assms(2) l(2) _ order_refl] by blast
    then show ?thesis using l(1) tail False idx \<open>file_pos st' < length bs\<close> by (auto simp: ChunkIncremental_def Let_def cut_so_far_def)
  qed
qed

section \<open>The new version and its anchors\<close>

text \<open>The anchors of chunks that cover a file are those of the file.\<close>

lemma anchors_of_chunks:
  assumes "chunks_cover algo bs ds 0 (length bs)" "map anchor_key anchors = map desc_key ds" "length bs < 2 ^ 64"
  shows "anchors_cover anchors (length bs)" "length anchors \<le> length bs"
    "list_all (\<lambda>a. anchor_hash a = ContentHash algo (slice_at (unat (anchor_offset a)) (unat (anchor_length a)) bs)) anchors"
    "list_all (\<lambda>a. anchor_end a \<le> length bs) anchors"
proof -
  obtain cs where cs: "map (\<lambda>d. d\<lparr>reused_from_cfi := False\<rparr>) ds = HashChunkRegions algo bs cs" "covers 0 cs (length bs)"
    using assms(1) by (auto simp: chunks_cover_def)
  have "map desc_key ds = map desc_key (map (\<lambda>d. d\<lparr>reused_from_cfi := False\<rparr>) ds)" by (simp add: desc_key_def)
  then have k: "map anchor_key anchors = map (\<lambda>(off, n). (word_of_nat off, n, ContentHash algo (slice_at off (unat n) bs))) cs"
    unfolding assms(2) cs(1) by (auto simp: HashChunkRegions_def desc_key_def)
  have small: "unat (word_of_nat off :: u64) = off" if "(off, n) \<in> set cs" for off n
    using covers_bounds [OF cs(2) that] assms(3) by (simp add: unat_of_nat)
  have "map (\<lambda>a. (unat (anchor_offset a), anchor_length a)) anchors = map (\<lambda>(x, n, h). (unat x, n)) (map anchor_key anchors)"
    by (simp add: anchor_key_def)
  also have "\<dots> = cs" unfolding k map_map using small by (intro map_idI) auto
  finally have c: "map (\<lambda>a. (unat (anchor_offset a), anchor_length a)) anchors = cs" .
  show cover: "anchors_cover anchors (length bs)" using cs(2) assms(3) by (simp add: anchors_cover_def c)
  show "length anchors \<le> length bs" using covers_length [OF cs(2)] arg_cong [OF c, of length] by simp
  show "list_all (\<lambda>a. anchor_hash a = ContentHash algo (slice_at (unat (anchor_offset a)) (unat (anchor_length a)) bs)) anchors"
    unfolding list_all_iff
  proof
    fix a assume "a \<in> set anchors"
    then have "anchor_key a \<in> set (map anchor_key anchors)" by simp
    then obtain off n where "(off, n) \<in> set cs" "anchor_key a = (word_of_nat off, n, ContentHash algo (slice_at off (unat n) bs))"
      unfolding k by auto
    then show "anchor_hash a = ContentHash algo (slice_at (unat (anchor_offset a)) (unat (anchor_length a)) bs)"
      using small by (auto simp: anchor_key_def)
  qed
  show "list_all (\<lambda>a. anchor_end a \<le> length bs) anchors"
    unfolding list_all_length using anchors_cover_nth(3) [OF cover] by blast
qed

lemma PopulateAnchorChecksums_keys: "map anchor_key (PopulateAnchorChecksums bs anchors) = map anchor_key anchors"
  by (simp add: PopulateAnchorChecksums_def anchor_key_def)

text \<open>
  C19. The incremental chunker is right whatever the last version was: for all anchors that cover the last version of a file and
  every new content, it ends without reading outside the file, the regions of its chunks put together are the new content, each
  chunk, reused or not, carries the hash of its bytes, and the anchors it keeps cover the new version with the same hashes.
\<close>

theorem incremental_chunks_partition:
  assumes "cdc_sizes (fast cfg)" "length bs < 2 ^ 64" "anchors_cover history old"
  shows "\<exists>ds anchors stats'. ChunkIncremental cfg bs history stats = Some (ds, anchors, stats') \<and>
    concat (map (chunk_region bs) ds) = bs \<and>
    list_all (\<lambda>d. 0 < unat (ck_length d) \<and> ck_hash d = ContentHash (hcrbo_digest cfg) (chunk_region bs d)) ds \<and>
    anchors_cover anchors (length bs) \<and> map anchor_key anchors = map desc_key ds"
proof -
  obtain ds anchors stats' where r: "ChunkIncremental cfg bs history stats = Some (ds, anchors, stats')"
    "chunks_cover (hcrbo_digest cfg) bs ds 0 (length bs)" "map anchor_key anchors = map desc_key ds"
    using ChunkIncremental_covers [OF assms(3,1)] by blast
  then show ?thesis using chunks_cover_partition [OF r(2) assms(2)] anchors_of_chunks(1) [OF r(2,3) assms(2)] by blast
qed

theorem incremental_chunks_partition_witness:
  "let cfg = default_hcrbo_config; bs = [5, 6, 7 :: byte];
       history = [\<lparr>anchor_offset = 0, anchor_length = 2, anchor_hash = [], strength = kWeak, rolling_checksum = 9\<rparr>,
                  \<lparr>anchor_offset = 2, anchor_length = 2, anchor_hash = [], strength = kWeak, rolling_checksum = 0\<rparr>]
   in anchors_cover history 4 \<and> (\<exists>ds anchors stats'. ChunkIncremental cfg bs history no_stats = Some (ds, anchors, stats') \<and>
        concat (map (chunk_region bs) ds) = bs \<and> anchors_cover anchors 3)"
proof -
  let ?h = "[\<lparr>anchor_offset = 0, anchor_length = 2, anchor_hash = [], strength = kWeak, rolling_checksum = 9\<rparr>,
    \<lparr>anchor_offset = 2, anchor_length = 2, anchor_hash = [], strength = kWeak, rolling_checksum = 0\<rparr>]"
  have c: "cdc_sizes (fast default_hcrbo_config)" by (simp add: cdc_sizes_def default_hcrbo_config_def default_cdc_config_def)
  have h: "anchors_cover ?h 4" by (simp add: anchors_cover_def)
  have l: "length [5, 6, 7 :: byte] < 2 ^ 64" by simp
  have n: "length [5, 6, 7 :: byte] = 3" by simp
  show ?thesis unfolding Let_def using incremental_chunks_partition [OF c l h, of no_stats, unfolded n] h by blast
qed

section \<open>What goes wrong\<close>

text \<open>Sliding the checksum is not recomputing it: the lower sum has one more than it should.\<close>

lemma slide_is_not_checksum: "RollingChecksumSlide (RollingChecksum [1]) 1 2 1 \<noteq> RollingChecksum [2]"
  by (simp add: RollingChecksumSlide_def RollingChecksum_def rolling_step_def kRollingBase_def)

text \<open>An anchor behind the end of the file is not noticed: the region before it is read past the end.\<close>

lemma anchor_behind_end:
  assumes "0 < length bs" "length bs < unat (anchor_offset a)"
  shows "ChunkIncremental cfg bs [a] stats = None"
proof -
  have "ChunkRegion cfg bs 0 (unat (anchor_offset a)) False stats = None" using assms by (simp add: ChunkRegion_def Let_def)
  then show ?thesis
    using assms by (simp add: ChunkIncremental_def BuildCfiAnchorIndex_def, subst incremental_loop.simps)
      (simp add: incremental_step_def cut_up_to_def)
qed

end
