(* ===== verification/CfiReuse.thy ===== *)
theory CfiReuse
  imports EbHcrbo
begin

text \<open>
  What the incremental chunker (\<open>chunk/eb_hcrbo.cc\<close>) does with a file that did not change: the Bloom filter
  (\<open>chunk/cfi_bloom.cc\<close>) never denies an anchor it was built from, the verifier (\<open>chunk/cfi_rolling.cc\<close>) returns the checksum
  also when it remembers it, and so every chunk is reused.
\<close>

section \<open>The Bloom filter has no false negatives\<close>

definition bloom_wf :: "CfiBloomFilter \<Rightarrow> bool" where
  "bloom_wf f \<longleftrightarrow> 0 < bit_count f \<and> bit_count f < 2 ^ 64 \<and> 64 * length (bloom_bits f) = bit_count f"

definition has_bit :: "CfiBloomFilter \<Rightarrow> nat \<Rightarrow> bool" where
  "has_bit f i \<longleftrightarrow> bit (bloom_bits f ! (i div 64)) (i mod 64)"

lemma MightContain_bits: "MightContain f h \<longleftrightarrow> bit_count f \<noteq> 0 \<and> (\<forall>p\<in>{0, 1, 2, 3}. has_bit f (probe f h p))"
  by (simp add: MightContain_def has_bit_def bit_iff_and_push_bit_not_eq_0)

lemma bloom_size_power: "\<exists>j\<ge>k. bloom_size k bits = 2 ^ j \<and> bits \<le> 2 ^ j \<and> (2 ^ j < 2 * bits \<or> j = k)"
proof (induction k bits rule: bloom_size.induct)
  case (1 k bits)
  show ?case
  proof (cases "2 ^ k < bits")
    case True
    then obtain j where "Suc k \<le> j" "bloom_size (Suc k) bits = 2 ^ j" "bits \<le> 2 ^ j" "2 ^ j < 2 * bits \<or> j = Suc k"
      using 1 by blast
    then show ?thesis using True by (subst bloom_size.simps) (auto intro!: exI [of _ j])
  next
    case False
    then show ?thesis by (subst bloom_size.simps) (auto intro!: exI [of _ k])
  qed
qed

lemma new_bloom_wf:
  assumes "n < 2 ^ 59"
  shows "bloom_wf (new_bloom n)"
proof -
  define bits where "bits = max (if n > 0 then n * 10 else 4096) 4096"
  have b: "4096 \<le> bits" "2 * bits < 2 ^ 64" using assms by (auto simp: bits_def)
  obtain j where j: "bloom_size 0 bits = 2 ^ j" "bits \<le> 2 ^ j" "2 ^ j < 2 * bits \<or> j = 0"
    using bloom_size_power [of 0 bits] by auto
  have "6 \<le> j"
  proof (rule ccontr)
    assume "\<not> 6 \<le> j"
    then have "(2::nat) ^ j \<le> 2 ^ 5" by (intro power_increasing) simp_all
    then show False using b(1) j(2) by simp
  qed
  then have "(2::nat) ^ j = 64 * 2 ^ (j - 6)" using power_add [of "2::nat" 6 "j - 6"] by simp
  moreover have "(2::nat) ^ j < 2 ^ 64" using j(3) b(2) \<open>6 \<le> j\<close> by auto
  moreover have "new_bloom n = \<lparr>bloom_bits = replicate (2 ^ j div 64) 0, bit_count = 2 ^ j\<rparr>"
    using j(1) by (simp add: new_bloom_def bits_def Let_def)
  ultimately show ?thesis by (simp add: bloom_wf_def)
qed

lemma probe_less:
  assumes "bloom_wf f"
  shows "probe f h p < bit_count f"
proof -
  obtain k where k: "bit_count f = Suc k" "k < 2 ^ 64" using assms by (cases "bit_count f") (auto simp: bloom_wf_def)
  have "probe f h p \<le> unat (word_of_nat k :: u64)"
    unfolding probe_def k(1) using word_and_le1 [of _ "word_of_nat k :: u64"] by (simp add: word_le_nat_alt)
  also have "\<dots> = k" using k(2) by (simp add: unat_of_nat)
  finally show ?thesis by (simp add: k(1))
qed

lemma set_bit_at_simps [simp]:
  "bit_count (set_bit_at i f) = bit_count f" "probe (set_bit_at i f) h p = probe f h p"
  "bloom_wf (set_bit_at i f) = bloom_wf f"
  by (simp_all add: set_bit_at_def probe_def bloom_wf_def)

lemma has_bit_set_bit_at:
  assumes "bloom_wf f" "i < bit_count f" "has_bit f j \<or> j = i"
  shows "has_bit (set_bit_at i f) j"
proof -
  have i: "i div 64 < length (bloom_bits f)" using assms(1,2) by (auto simp: bloom_wf_def)
  have b: "bit (x OR push_bit m 1) m" if "m < 64" for x :: u64 and m
    using that by (simp add: bit_or_iff bit_exp_iff possible_bit_def)
  show ?thesis
  proof (cases "j div 64 = i div 64")
    case True
    then show ?thesis using assms(3) i b [of "i mod 64"] by (auto simp: has_bit_def set_bit_at_def bit_or_iff)
  next
    case False
    then show ?thesis using assms(3) by (auto simp: has_bit_def set_bit_at_def)
  qed
qed

lemma foldl_set_bits:
  "bloom_wf f \<Longrightarrow> bloom_wf (foldl (\<lambda>f p. set_bit_at (probe f h p) f) f ps) \<and>
     bit_count (foldl (\<lambda>f p. set_bit_at (probe f h p) f) f ps) = bit_count f \<and>
     (\<forall>j. has_bit f j \<longrightarrow> has_bit (foldl (\<lambda>f p. set_bit_at (probe f h p) f) f ps) j) \<and>
     (\<forall>p\<in>set ps. has_bit (foldl (\<lambda>f p. set_bit_at (probe f h p) f) f ps) (probe f h p))"
proof (induction ps arbitrary: f)
  case (Cons p ps)
  let ?f = "set_bit_at (probe f h p) f"
  have wf: "bloom_wf ?f" using Cons.prems by simp
  have "has_bit ?f j" if "has_bit f j \<or> j = probe f h p" for j
    using has_bit_set_bit_at [OF Cons.prems probe_less [OF Cons.prems] that] .
  then show ?case using Cons.IH [OF wf] by auto
qed simp

lemma probe_cong: "bit_count f = bit_count g \<Longrightarrow> probe f h p = probe g h p"
  by (simp add: probe_def)

lemma bloom_Insert_contains:
  assumes "bloom_wf f"
  shows "bloom_wf (bloom_Insert f h)" "MightContain (bloom_Insert f h) h" "MightContain f h' \<Longrightarrow> MightContain (bloom_Insert f h) h'"
proof -
  have n: "bit_count f \<noteq> 0" using assms by (simp add: bloom_wf_def)
  note F = foldl_set_bits [OF assms, of h "[0, 1, 2, 3]"]
  have b: "bloom_Insert f h = foldl (\<lambda>f p. set_bit_at (probe f h p) f) f [0, 1, 2, 3]" using n by (simp add: bloom_Insert_def)
  then show "bloom_wf (bloom_Insert f h)" using F by simp
  have c: "bit_count (bloom_Insert f h) = bit_count f" using F b by simp
  show "MightContain (bloom_Insert f h) h"
    unfolding MightContain_bits using F n b c probe_cong [OF c] by auto
  show "MightContain f h' \<Longrightarrow> MightContain (bloom_Insert f h) h'"
    unfolding MightContain_bits using F n b c probe_cong [OF c] by auto
qed

lemma BuildFromCfi_contains:
  assumes "length history < 2 ^ 59" "a \<in> set history"
  shows "MightContain (BuildFromCfi history) (anchor_hash a)"
proof -
  have "MightContain (foldl (\<lambda>f a. bloom_Insert f (anchor_hash a)) f xs) (anchor_hash a)"
    if "bloom_wf f" "a \<in> set xs \<or> MightContain f (anchor_hash a)" for f xs
    using that
  proof (induction xs arbitrary: f)
    case (Cons x xs)
    note b = bloom_Insert_contains [OF Cons.prems(1)]
    have "a \<in> set xs \<or> MightContain (bloom_Insert f (anchor_hash x)) (anchor_hash a)"
      using Cons.prems(2) b(2,3) by auto
    then show ?case using Cons.IH [OF b(1)] by simp
  qed simp
  then show ?thesis unfolding BuildFromCfi_def using new_bloom_wf [OF assms(1)] assms(2) by blast
qed

section \<open>Chunking an unchanged file\<close>

definition verifier_ok :: "bytes \<Rightarrow> CfiRollingVerifier \<Rightarrow> bool" where
  "verifier_ok bs v \<longleftrightarrow> (has_prev v \<longrightarrow> prev_rc v = RollingChecksum (slice_at (prev_offset v) (prev_len v) bs))"

lemma VerifyAnchor_checksum:
  assumes "verifier_ok bs v" "off + n \<le> length bs" "x \<noteq> 0"
  shows "\<exists>v'. VerifyAnchor v bs off n x = Some (RollingChecksum (slice_at off n bs), v') \<and> verifier_ok bs v'"
  using assms by (auto simp: VerifyAnchor_def verifier_ok_def Let_def)

text \<open>Anchors that say what is in the file.\<close>

definition true_anchor :: "DigestAlgo \<Rightarrow> bytes \<Rightarrow> ChunkAnchor \<Rightarrow> bool" where
  "true_anchor algo bs a \<longleftrightarrow>
     anchor_hash a = ContentHash algo (slice_at (unat (anchor_offset a)) (unat (anchor_length a)) bs) \<and>
     (rolling_checksum a = 0 \<or> rolling_checksum a = RollingChecksum (slice_at (unat (anchor_offset a)) (unat (anchor_length a)) bs))"

definition reuse :: "ChunkAnchor \<Rightarrow> ChunkDescriptor" where
  "reuse a = \<lparr>ck_offset = anchor_offset a, ck_length = anchor_length a, ck_hash = anchor_hash a, reused_from_cfi = True\<rparr>"

lemma compare_true_anchor:
  assumes "verifier_ok bs (verifier st)" "unat (anchor_offset a) + unat (anchor_length a) \<le> length bs"
    and "true_anchor (hcrbo_digest cfg) bs a" "MightContain bloom (anchor_hash a)"
  shows "\<exists>v. compare_anchor cfg bs bloom a st = Some (True, False, st\<lparr>verifier := v\<rparr>) \<and> verifier_ok bs v"
proof (cases "rolling_checksum a = 0")
  case True
  have "st\<lparr>verifier := verifier st\<rparr> = st" by simp
  then show ?thesis using True assms by (intro exI [of _ "verifier st"]) (simp add: compare_anchor_def Let_def true_anchor_def)
next
  case False
  obtain v where "VerifyAnchor (verifier st) bs (unat (anchor_offset a)) (unat (anchor_length a)) (rolling_checksum a) =
      Some (rolling_checksum a, v)" "verifier_ok bs v"
    using VerifyAnchor_checksum [OF assms(1,2) False] assms(3) False by (auto simp: true_anchor_def)
  then show ?thesis using False assms(2-4) by (intro exI [of _ v]) (simp add: compare_anchor_def Let_def true_anchor_def)
qed

lemma incremental_loop_unchanged:
  assumes c: "anchors_cover anchors (length bs)" and t: "list_all (true_anchor (hcrbo_digest cfg) bs) anchors"
    and b: "\<forall>a\<in>set anchors. MightContain bloom (anchor_hash a)"
  shows "sorted_pos st \<le> length anchors \<Longrightarrow> verifier_ok bs (verifier st) \<Longrightarrow>
    file_pos st = (if sorted_pos st < length anchors then unat (anchor_offset (anchors ! sorted_pos st)) else length bs) \<Longrightarrow>
    \<exists>st'. incremental_loop cfg bs anchors bloom st = Some (st', False) \<and> file_pos st' = length bs \<and>
      inc_out st' = inc_out st @ map reuse (drop (sorted_pos st) anchors) \<and> inc_cfi st' = inc_cfi st @ drop (sorted_pos st) anchors"
proof (induction "length anchors - sorted_pos st" arbitrary: st rule: less_induct)
  case less
  show ?case
  proof (cases "sorted_pos st < length anchors")
    case False
    then have "incremental_loop cfg bs anchors bloom st = Some (st, False)" by (subst incremental_loop.simps) simp
    then show ?thesis using False less.prems by auto
  next
    case True
    let ?a = "anchors ! sorted_pos st"
    note a = anchors_cover_nth [OF c True]
    have m: "?a \<in> set anchors" using True by simp
    have pos: "unat (anchor_offset ?a) = file_pos st" using less.prems(3) True by simp
    have le: "unat (anchor_offset ?a) + unat (anchor_length ?a) \<le> length bs" using a(2,3) by simp
    obtain v where v: "compare_anchor cfg bs bloom ?a st = Some (True, False, st\<lparr>verifier := v\<rparr>)" "verifier_ok bs v"
      using compare_true_anchor [OF less.prems(2) le bspec [OF t [unfolded list_all_iff] m] bspec [OF b m]] by blast
    define st1 where "st1 = st\<lparr>verifier := v, inc_out := inc_out st @ [reuse ?a], inc_cfi := inc_cfi st @ [?a],
      inc_stats := (inc_stats st)\<lparr>chunks_reused_from_cfi := chunks_reused_from_cfi (inc_stats st) + 1\<rparr>,
      file_pos := anchor_end ?a, sorted_pos := sorted_pos st + 1\<rparr>"
    have "incremental_step cfg bs anchors bloom st = Some (st1, False)"
      using pos a(3) v(1) by (simp add: incremental_step_def Let_def st1_def reuse_def)
    moreover have "file_pos st < length bs" using a(1) le pos by linarith
    ultimately have loop: "incremental_loop cfg bs anchors bloom st = incremental_loop cfg bs anchors bloom st1"
      using True by (subst incremental_loop.simps) simp
    have "anchor_end ?a = length bs" if "\<not> Suc (sorted_pos st) < length anchors"
      using a(5) that True by linarith
    then have pos1: "file_pos st1 = (if sorted_pos st1 < length anchors then unat (anchor_offset (anchors ! sorted_pos st1)) else length bs)"
      using a(4) by (simp add: st1_def)
    have "length anchors - sorted_pos st1 < length anchors - sorted_pos st" "sorted_pos st1 \<le> length anchors" "verifier_ok bs (verifier st1)"
      using True v(2) by (simp_all add: st1_def)
    from less.hyps [OF this pos1] obtain st' where "incremental_loop cfg bs anchors bloom st1 = Some (st', False)" "file_pos st' = length bs"
      "inc_out st' = inc_out st1 @ map reuse (drop (sorted_pos st1) anchors)" "inc_cfi st' = inc_cfi st1 @ drop (sorted_pos st1) anchors" by blast
    then show ?thesis using True loop by (auto simp: st1_def simp flip: Cons_nth_drop_Suc)
  qed
qed

lemma ChunkIncremental_unchanged:
  assumes "anchors_cover history (length bs)" "list_all (true_anchor (hcrbo_digest cfg) bs) history" "length history < 2 ^ 59"
  shows "\<exists>stats'. ChunkIncremental cfg bs history stats = Some (map reuse history, history, stats')"
proof (cases "history = []")
  case True
  then have "bs = []" using assms(1) by (simp add: anchors_cover_def)
  then show ?thesis using True by (simp add: ChunkIncremental_def ChunkFull_def ChunkRegion_def Let_def)
next
  case False
  let ?st = "\<lparr>sorted_pos = 0, file_pos = 0, verifier = new_verifier, skip_hits = 0, inc_out = [], inc_cfi = [], inc_stats = stats\<rparr>"
  have idx: "BuildCfiAnchorIndex history = history" by (rule BuildCfiAnchorIndex_cover [OF assms(1)])
  have "unat (anchor_offset (history ! 0)) = 0" using assms(1) False by (cases history) (auto simp: anchors_cover_def)
  then obtain st' where "incremental_loop cfg bs history (BuildFromCfi history) ?st = Some (st', False)" "file_pos st' = length bs"
    "inc_out st' = map reuse history" "inc_cfi st' = history"
    using incremental_loop_unchanged [OF assms(1,2), of "BuildFromCfi history" ?st] BuildFromCfi_contains [OF assms(3)] False
    by (auto simp: verifier_ok_def new_verifier_def)
  then show ?thesis using False idx by (simp add: ChunkIncremental_def Let_def)
qed

text \<open>
  C20. An unchanged file is not cut again: when the anchors of a run, with the checksums the pipeline adds to them, meet
  the same bytes in the next run, every chunk is reused as it was and the anchors stay as they are.
\<close>

theorem unchanged_file_is_reused:
  assumes "cdc_sizes (fast cfg)" "length bs < 2 ^ 59" "anchors_cover history old"
    and "ChunkIncremental cfg bs history stats = Some (ds, anchors, stats')" and "hcrbo_digest cfg2 = hcrbo_digest cfg"
  shows "\<exists>stats3. ChunkIncremental cfg2 bs (PopulateAnchorChecksums bs anchors) stats2 =
    Some (map (\<lambda>d. d\<lparr>reused_from_cfi := True\<rparr>) ds, PopulateAnchorChecksums bs anchors, stats3)"
proof -
  let ?h = "PopulateAnchorChecksums bs anchors"
  have len: "length bs < 2 ^ 64" using assms(2) by simp
  have r: "chunks_cover (hcrbo_digest cfg) bs ds 0 (length bs)" "map anchor_key anchors = map desc_key ds"
    using ChunkIncremental_covers [OF assms(3,1), of bs stats] assms(4) by simp_all
  have k: "map anchor_key ?h = map desc_key ds" using r(2) by (simp add: PopulateAnchorChecksums_keys)
  note h = anchors_of_chunks [OF r(1) k len]
  have "list_all (\<lambda>a. rolling_checksum a = RollingChecksum (slice_at (unat (anchor_offset a)) (unat (anchor_length a)) bs)) ?h"
    using anchors_of_chunks(4) [OF r len] by (auto simp: list_all_iff PopulateAnchorChecksums_def)
  then have "list_all (true_anchor (hcrbo_digest cfg2) bs) ?h" using h(3) by (auto simp: list_all_iff true_anchor_def assms(5))
  moreover have "length ?h < 2 ^ 59" using h(2) assms(2) by simp
  moreover have "map reuse ?h = map (\<lambda>d. d\<lparr>reused_from_cfi := True\<rparr>) ds"
  proof -
    have "map reuse ?h = map (\<lambda>(x, n, h). \<lparr>ck_offset = x, ck_length = n, ck_hash = h, reused_from_cfi = True\<rparr>) (map anchor_key ?h)"
      by (simp add: reuse_def anchor_key_def)
    also have "\<dots> = map (\<lambda>d. d\<lparr>reused_from_cfi := True\<rparr>) ds" unfolding k by (simp add: desc_key_def)
    finally show ?thesis .
  qed
  ultimately show ?thesis using ChunkIncremental_unchanged [OF h(1), of cfg2 stats2] by simp
qed

theorem unchanged_file_is_reused_witness:
  "\<exists>ds anchors stats' stats3. ChunkIncremental default_hcrbo_config [5, 6, 7] [] no_stats = Some (ds, anchors, stats') \<and>
     ChunkIncremental default_hcrbo_config [5, 6, 7] (PopulateAnchorChecksums [5, 6, 7] anchors) no_stats =
       Some (map (\<lambda>d. d\<lparr>reused_from_cfi := True\<rparr>) ds, PopulateAnchorChecksums [5, 6, 7] anchors, stats3)"
proof -
  have c: "cdc_sizes (fast default_hcrbo_config)" by (simp add: cdc_sizes_def default_hcrbo_config_def default_cdc_config_def)
  have h: "anchors_cover [] 0" by (simp add: anchors_cover_def)
  have l: "length [5, 6, 7 :: byte] < 2 ^ 59" by simp
  obtain ds anchors stats' where r: "ChunkIncremental default_hcrbo_config [5, 6, 7] [] no_stats = Some (ds, anchors, stats')"
    using ChunkIncremental_covers [OF h c] by blast
  show ?thesis using unchanged_file_is_reused [OF c l h r refl] r by blast
qed

end
