(* ===== verification/ManifestFile.thy ===== *)
theory ManifestFile
  imports RepoFormat Digest "HOL-Library.Monad_Syntax"
begin

text \<open>
  The binary manifest (\<open>engine/manifest.cc\<close>, formats \<open>EBMANIFEST4\<close> and \<open>EBMANIFEST5\<close>): the list of
  files of a backup with their metadata, chunk hashes and anchors. Writers append fields to a buffer;
  the reader moves a cursor through the body. A reader is a function from the bytes left to the value
  read and the bytes behind it, \<open>None\<close> where the code's \<open>ReadU32\<close> and its relatives return false. A
  parse has the result \<open>None\<close> where the code reads behind the end of its buffer or stores an enum value
  that has no name, and \<open>Some (Inl st)\<close> where it returns an error.
\<close>

section \<open>Fields\<close>

type_synonym 'a reader = "bytes \<Rightarrow> ('a \<times> bytes) option"

definition bytes_chars :: "bytes \<Rightarrow> string" where
  "bytes_chars bs = map (\<lambda>b. char_of (unat b)) bs"

definition read_bytes :: "nat \<Rightarrow> bytes reader" where
  "read_bytes n p = (if length p < n then None else Some (take n p, drop n p))"

definition ReadU32 :: "u32 reader" where
  "ReadU32 p = (if length p < 4 then None else Some (get_u32 (take 4 p), drop 4 p))"

definition ReadU64 :: "u64 reader" where
  "ReadU64 p = (if length p < 8 then None else Some (get_u64 (take 8 p), drop 8 p))"

definition read_string :: "string reader" where
  "read_string p = do { (n, p) \<leftarrow> ReadU32 p; (bs, p) \<leftarrow> read_bytes (unat n) p; Some (bytes_chars bs, p) }"

definition read_both :: "'a reader \<Rightarrow> 'b reader \<Rightarrow> ('a \<times> 'b) reader" where
  "read_both ra rb p = do { (a, p) \<leftarrow> ra p; (b, p) \<leftarrow> rb p; Some ((a, b), p) }"

fun read_many :: "nat \<Rightarrow> 'a reader \<Rightarrow> 'a list reader" where
  "read_many 0 rd p = Some ([], p)"
| "read_many (Suc n) rd p = do { (x, p) \<leftarrow> rd p; (xs, p) \<leftarrow> read_many n rd p; Some (x # xs, p) }"

definition read_counted :: "'a reader \<Rightarrow> 'a list reader" where
  "read_counted rd p = do { (n, p) \<leftarrow> ReadU32 p; read_many (unat n) rd p }"

text \<open>A field that is there if its flag is set, and the entry it is stored in.\<close>

definition field :: "bool \<Rightarrow> 'a reader \<Rightarrow> ('a \<Rightarrow> 'e \<Rightarrow> 'e) \<Rightarrow> 'e \<times> bytes \<Rightarrow> ('e \<times> bytes) option" where
  "field c rd upd = (\<lambda>(e, p). if c then do { (x, p) \<leftarrow> rd p; Some (upd x e, p) } else Some (e, p))"

definition write_string :: "string \<Rightarrow> bytes" where
  "write_string s = put_u32 (word_of_nat (length s)) @ string_bytes s"

definition write_counted :: "('a \<Rightarrow> bytes) \<Rightarrow> 'a list \<Rightarrow> bytes" where
  "write_counted w xs = put_u32 (word_of_nat (length xs)) @ concat (map w xs)"

definition write_pair :: "('a \<Rightarrow> bytes) \<Rightarrow> ('b \<Rightarrow> bytes) \<Rightarrow> 'a \<times> 'b \<Rightarrow> bytes" where
  "write_pair wa wb = (\<lambda>(a, b). wa a @ wb b)"

definition write_if :: "bool \<Rightarrow> bytes \<Rightarrow> bytes" where
  "write_if c bs = (if c then bs else [])"

text \<open>The reader of a field against its writer.\<close>

definition reads :: "'a reader \<Rightarrow> ('a \<Rightarrow> bytes) \<Rightarrow> 'a \<Rightarrow> bool" where
  "reads rd w x \<longleftrightarrow> (\<forall>r. rd (w x @ r) = Some (x, r))"

lemma bytes_chars_string [simp]: "bytes_chars (string_bytes s) = s"
  by (simp add: bytes_chars_def string_bytes_def comp_def char_of_byte)

lemma length_string_bytes: "length (string_bytes s) = length s"
  by (simp add: string_bytes_def)

lemma readsD: "reads rd w x \<Longrightarrow> rd (w x @ r) = Some (x, r)"
  by (simp add: reads_def)

lemma ReadU32_put [simp]: "ReadU32 (put_u32 x @ r) = Some (x, r)"
  by (simp add: ReadU32_def)

lemma ReadU64_put [simp]: "ReadU64 (put_u64 x @ r) = Some (x, r)"
  by (simp add: ReadU64_def)

lemma read_bytes_append [simp]: "n = length bs \<Longrightarrow> read_bytes n (bs @ r) = Some (bs, r)"
  by (simp add: read_bytes_def)

lemma reads_u32: "reads ReadU32 put_u32 x"
  by (simp add: reads_def)

lemma reads_u64: "reads ReadU64 put_u64 x"
  by (simp add: reads_def)

lemma reads_string: "length s < 2 ^ 32 \<Longrightarrow> reads read_string write_string s"
  by (simp add: reads_def read_string_def write_string_def unat_of_nat length_string_bytes)

lemma reads_both: "reads ra wa (fst x) \<Longrightarrow> reads rb wb (snd x) \<Longrightarrow>
    reads (read_both ra rb) (write_pair wa wb) x"
  by (cases x) (simp add: reads_def read_both_def write_pair_def)

lemma read_many_concat: "(\<And>x. x \<in> set xs \<Longrightarrow> reads rd w x) \<Longrightarrow>
    read_many (length xs) rd (concat (map w xs) @ r) = Some (xs, r)"
  by (induction xs) (auto simp: reads_def)

lemma reads_counted: "length xs < 2 ^ 32 \<Longrightarrow> (\<And>x. x \<in> set xs \<Longrightarrow> reads rd w x) \<Longrightarrow>
    reads (read_counted rd) (write_counted w) xs"
  by (simp add: reads_def [of "read_counted rd"] read_counted_def write_counted_def read_many_concat unat_of_nat)

lemma field_write:
  "reads rd w x \<Longrightarrow> field c rd upd (e, write_if c (w x) @ r) = Some (if c then upd x e else e, r)"
  by (simp add: field_def write_if_def reads_def)

section \<open>Flags and layout\<close>

definition kManifestV4InnerMagic :: u32 where "kManifestV4InnerMagic = 0xEB4F0001"
definition kManifestV5InnerMagic :: u32 where "kManifestV5InnerMagic = 0xEB4F0002"

definition kMetaMode :: u32 where "kMetaMode = 0x01"
definition kMetaUidGid :: u32 where "kMetaUidGid = 0x02"
definition kMetaTimes :: u32 where "kMetaTimes = 0x04"
definition kMetaSymlink :: u32 where "kMetaSymlink = 0x08"
definition kMetaDevice :: u32 where "kMetaDevice = 0x10"
definition kMetaWinSd :: u32 where "kMetaWinSd = 0x20"
definition kMetaInode :: u32 where "kMetaInode = 0x40"
definition kMetaReparse :: u32 where "kMetaReparse = 0x80"
definition kMetaStream :: u32 where "kMetaStream = 0x100"
definition kMetaReparseTarget :: u32 where "kMetaReparseTarget = 0x200"
definition kMetaSparse :: u32 where "kMetaSparse = 0x400"
definition kMetaEfs :: u32 where "kMetaEfs = 0x800"

lemmas meta_flags = kMetaMode_def kMetaUidGid_def kMetaTimes_def kMetaSymlink_def kMetaDevice_def
  kMetaWinSd_def kMetaInode_def kMetaReparse_def kMetaStream_def kMetaReparseTarget_def
  kMetaSparse_def kMetaEfs_def

definition has_flag :: "u32 \<Rightarrow> u32 \<Rightarrow> bool" where
  "has_flag flags m \<longleftrightarrow> flags AND m \<noteq> 0"

definition BuildV4MetaFlags :: "ManifestFileEntry \<Rightarrow> u32" where
  "BuildV4MetaFlags f =
     (if file_mode f \<noteq> 0 then kMetaMode else 0) OR
     (if uid f \<noteq> 0xFFFFFFFF \<or> gid f \<noteq> 0xFFFFFFFF then kMetaUidGid else 0) OR
     (if mtime_unix f \<noteq> 0 \<or> atime_unix f \<noteq> 0 then kMetaTimes else 0) OR
     (if symlink_target f \<noteq> [] then kMetaSymlink else 0) OR
     (if device_major f \<noteq> 0 \<or> device_minor f \<noteq> 0 then kMetaDevice else 0)"

definition BuildV5MetaFlags :: "ManifestFileEntry \<Rightarrow> u32" where
  "BuildV5MetaFlags f =
     BuildV4MetaFlags f OR
     (if security_descriptor_b64 f \<noteq> [] then kMetaWinSd else 0) OR
     (if inode_id f \<noteq> 0 then kMetaInode else 0) OR
     (if reparse_tag f \<noteq> 0 then kMetaReparse else 0) OR
     (if stream_name f \<noteq> [] then kMetaStream else 0) OR
     (if reparse_target f \<noteq> [] then kMetaReparseTarget else 0) OR
     (if has_sparse_meta f then kMetaSparse else 0) OR
     (if has_efs_meta f then kMetaEfs else 0)"

definition file_type_byte :: "FileType \<Rightarrow> byte" where
  "file_type_byte t = (case t of kRegular \<Rightarrow> 0 | kDirectory \<Rightarrow> 1 | kSymlink \<Rightarrow> 2 | kFifo \<Rightarrow> 3 | kBlock \<Rightarrow> 4 | kChar \<Rightarrow> 5)"

definition file_type_of :: "byte \<Rightarrow> FileType option" where
  "file_type_of b = (if b = 0 then Some kRegular else if b = 1 then Some kDirectory else if b = 2 then Some kSymlink
     else if b = 3 then Some kFifo else if b = 4 then Some kBlock else if b = 5 then Some kChar else None)"

definition strength_byte :: "AnchorStrength \<Rightarrow> byte" where
  "strength_byte s = (case s of kWeak \<Rightarrow> 0 | kStrong \<Rightarrow> 1)"

definition strength_of :: "byte \<Rightarrow> AnchorStrength option" where
  "strength_of b = (if b = 0 then Some kWeak else if b = 1 then Some kStrong else None)"

section \<open>Writing\<close>

definition WriteWinMetaFields :: "u32 \<Rightarrow> ManifestFileEntry \<Rightarrow> bytes" where
  "WriteWinMetaFields flags f =
     write_if (has_flag flags kMetaWinSd) (write_string (security_descriptor_b64 f)) @
     write_if (has_flag flags kMetaInode) (put_u64 (inode_id f)) @
     write_if (has_flag flags kMetaReparse) (put_u32 (reparse_tag f)) @
     write_if (has_flag flags kMetaStream) (write_string (stream_name f)) @
     write_if (has_flag flags kMetaReparseTarget) (write_string (reparse_target f)) @
     write_if (has_flag flags kMetaSparse)
       (write_pair (write_counted (write_pair put_u64 put_u64)) (write_counted put_u64) (sparse_runs f, sparse_chunk_offsets f)) @
     write_if (has_flag flags kMetaEfs)
       (write_pair (\<lambda>e. [if e then 1 else 0]) write_string (efs_encrypted f, efs_key_blob_b64 f))"

definition write_meta :: "u32 \<Rightarrow> ManifestFileEntry \<Rightarrow> bytes" where
  "write_meta flags f =
     write_if (has_flag flags kMetaMode) (put_u32 (file_mode f)) @
     write_if (has_flag flags kMetaUidGid) (write_pair put_u32 put_u32 (uid f, gid f)) @
     write_if (has_flag flags kMetaTimes) (write_pair put_u64 put_u64 (mtime_unix f, atime_unix f)) @
     write_if (has_flag flags kMetaSymlink) (write_string (symlink_target f)) @
     write_if (has_flag flags kMetaDevice) (write_pair put_u32 put_u32 (device_major f, device_minor f))"

text \<open>A chunk hash that is not 64 hex digits is skipped, but the number written before counts it.\<close>

definition write_hashes :: "string list \<Rightarrow> bytes" where
  "write_hashes hs = put_u32 (word_of_nat (length hs)) @ concat (List.map_filter (\<lambda>h. HexToBytes h 32) hs)"

definition write_anchor :: "ChunkAnchor \<Rightarrow> bytes" where
  "write_anchor a = put_u64 (anchor_offset a) @ put_u32 (anchor_length a) @ [strength_byte (strength a), 0, 0, 0] @
     anchor_hash a @ put_u32 (rolling_checksum a)"

definition write_entry :: "bool \<Rightarrow> ManifestFileEntry \<Rightarrow> bytes" where
  "write_entry v5 f =
     (let flags = (if v5 then BuildV5MetaFlags f else BuildV4MetaFlags f) in
      write_string (relative_path f) @ [file_type_byte (file_type f)] @ put_u32 flags @ put_u64 (file_size f) @
      write_meta flags f @ (if v5 then WriteWinMetaFields flags f else []) @
      write_hashes (chunk_hashes_hex f) @ write_counted write_anchor (cfi f))"

definition BuildBodyV4 :: "ManifestDocument \<Rightarrow> bytes" where
  "BuildBodyV4 doc = put_u32 kManifestV4InnerMagic @ put_u64 (doc_txn_id doc) @ write_counted (write_entry False) (doc_files doc)"

definition BuildBodyV5 :: "ManifestDocument \<Rightarrow> bytes" where
  "BuildBodyV5 doc = put_u32 kManifestV5InnerMagic @ put_u64 (doc_txn_id doc) @ write_counted (write_entry True) (doc_files doc)"

definition DocumentUsesV5 :: "ManifestDocument \<Rightarrow> bool" where
  "DocumentUsesV5 doc \<longleftrightarrow> (\<exists>f \<in> set (doc_files doc). has_win_meta f \<or> has_sparse_meta f \<or> has_efs_meta f)"

text \<open>The file is truncated and written in place; a failing write leaves a part of it.\<close>

record manifest_io =
  mf_open_ok :: bool
  mf_torn :: "nat option"
  mf_fsync :: Status

definition write_manifest_file :: "manifest_io \<Rightarrow> string \<Rightarrow> bytes \<Rightarrow> bytes option \<Rightarrow> Status \<times> bytes option" where
  "write_manifest_file io path img old =
     (if \<not> mf_open_ok io then (IoError (''cannot write manifest: '' @ path), old)
      else case mf_torn io of
             Some k \<Rightarrow> (IoError ''manifest write failed'', Some (take k img))
           | None \<Rightarrow> (mf_fsync io, Some img))"

definition manifest_image :: "string \<Rightarrow> bytes \<Rightarrow> bytes" where
  "manifest_image header body = string_bytes header @ [0x0A] @ body @ put_u32 (Crc32 body)"

definition WriteManifestV4 :: "manifest_io \<Rightarrow> string \<Rightarrow> ManifestDocument \<Rightarrow> bytes option \<Rightarrow> Status \<times> bytes option" where
  "WriteManifestV4 io path doc old = write_manifest_file io path (manifest_image ''EBMANIFEST4'' (BuildBodyV4 doc)) old"

definition WriteManifestV5 :: "manifest_io \<Rightarrow> string \<Rightarrow> ManifestDocument \<Rightarrow> bytes option \<Rightarrow> Status \<times> bytes option" where
  "WriteManifestV5 io path doc old = write_manifest_file io path (manifest_image ''EBMANIFEST5'' (BuildBodyV5 doc)) old"

text \<open>\<open>WriteManifestAuto\<close> with \<open>prefer_binary\<close>.\<close>

definition WriteManifestBinary :: "manifest_io \<Rightarrow> string \<Rightarrow> ManifestDocument \<Rightarrow> bytes option \<Rightarrow> Status \<times> bytes option" where
  "WriteManifestBinary io path doc old =
     (if DocumentUsesV5 doc then WriteManifestV5 io path doc old else WriteManifestV4 io path doc old)"

section \<open>Reading\<close>

definition and_then :: "(Status + 'a) option \<Rightarrow> ('a \<Rightarrow> (Status + 'b) option) \<Rightarrow> (Status + 'b) option" where
  "and_then m k = (case m of None \<Rightarrow> None | Some (Inl e) \<Rightarrow> Some (Inl e) | Some (Inr x) \<Rightarrow> k x)"

definition need :: "string \<Rightarrow> 'a option \<Rightarrow> (Status + 'a) option" where
  "need msg r = Some (case r of None \<Rightarrow> Inl (Corrupt msg) | Some x \<Rightarrow> Inr x)"

definition named :: "'a option \<Rightarrow> (Status + 'a) option" where
  "named r = map_option Inr r"

definition read_byte :: "byte reader" where
  "read_byte p = (case p of [] \<Rightarrow> None | b # q \<Rightarrow> Some (b, q))"

definition read_bool :: "bool reader" where
  "read_bool p = (case p of [] \<Rightarrow> None | b # q \<Rightarrow> Some (b \<noteq> 0, q))"

definition set_sparse :: "(u64 \<times> u64) list \<times> u64 list \<Rightarrow> ManifestFileEntry \<Rightarrow> ManifestFileEntry" where
  "set_sparse = (\<lambda>(runs, offs) f. f\<lparr>is_sparse := runs \<noteq> [], sparse_runs := runs, sparse_chunk_offsets := offs\<rparr>)"

definition ReadWinMetaFields :: "u32 \<Rightarrow> ManifestFileEntry \<times> bytes \<Rightarrow> (ManifestFileEntry \<times> bytes) option" where
  "ReadWinMetaFields flags ep =
     field (has_flag flags kMetaWinSd) read_string (\<lambda>s f. f\<lparr>security_descriptor_b64 := s\<rparr>) ep \<bind>
     field (has_flag flags kMetaInode) ReadU64 (\<lambda>i f. f\<lparr>inode_id := i\<rparr>) \<bind>
     field (has_flag flags kMetaReparse) ReadU32 (\<lambda>t f. f\<lparr>reparse_tag := t\<rparr>) \<bind>
     field (has_flag flags kMetaStream) read_string (\<lambda>s f. f\<lparr>stream_name := s\<rparr>) \<bind>
     field (has_flag flags kMetaReparseTarget) read_string (\<lambda>s f. f\<lparr>reparse_target := s\<rparr>) \<bind>
     field (has_flag flags kMetaSparse) (read_both (read_counted (read_both ReadU64 ReadU64)) (read_counted ReadU64)) set_sparse \<bind>
     field (has_flag flags kMetaEfs) (read_both read_bool read_string)
       (\<lambda>(e, s) f. f\<lparr>efs_encrypted := e, efs_key_blob_b64 := s\<rparr>)"

text \<open>The fields of both formats, each with the error it gives when it is cut short.\<close>

definition read_meta :: "u32 \<Rightarrow> ManifestFileEntry \<times> bytes \<Rightarrow> (Status + ManifestFileEntry \<times> bytes) option" where
  "read_meta flags ep =
     and_then (need ''manifest v4 mode missing''
       (field (has_flag flags kMetaMode) ReadU32 (\<lambda>m f. f\<lparr>file_mode := m\<rparr>) ep)) (\<lambda>ep.
     and_then (need ''manifest v4 uid/gid missing''
       (field (has_flag flags kMetaUidGid) (read_both ReadU32 ReadU32) (\<lambda>(u, g) f. f\<lparr>uid := u, gid := g\<rparr>) ep)) (\<lambda>ep.
     and_then (need ''manifest v4 times missing''
       (field (has_flag flags kMetaTimes) (read_both ReadU64 ReadU64) (\<lambda>(m, a) f. f\<lparr>mtime_unix := m, atime_unix := a\<rparr>) ep)) (\<lambda>ep.
     and_then (need ''manifest v4 symlink missing''
       (field (has_flag flags kMetaSymlink) read_string (\<lambda>s f. f\<lparr>symlink_target := s\<rparr>) ep)) (\<lambda>ep.
     need ''manifest v4 device missing''
       (field (has_flag flags kMetaDevice) (read_both ReadU32 ReadU32) (\<lambda>(a, i) f. f\<lparr>device_major := a, device_minor := i\<rparr>) ep)))))"

text \<open>
  The check before the chunk hashes multiplies the count by 32 in 32 bits; the loop behind it reads
  32 bytes for each of the counted hashes.
\<close>

definition read_hash :: "string reader" where
  "read_hash p = map_option (\<lambda>(bs, q). (BytesToHex bs, q)) (read_bytes 32 p)"

definition read_hashes :: "bytes \<Rightarrow> (Status + string list \<times> bytes) option" where
  "read_hashes p =
     (case ReadU32 p of
        None \<Rightarrow> Some (Inl (Corrupt ''manifest v4 chunks missing''))
      | Some (n, q) \<Rightarrow>
          if length q < unat (n * 32) then Some (Inl (Corrupt ''manifest v4 chunks missing''))
          else map_option Inr (read_many (unat n) read_hash q))"

definition read_anchor :: "bytes \<Rightarrow> (Status + ChunkAnchor \<times> bytes) option" where
  "read_anchor p =
     and_then (need ''manifest v4 anchor header missing''
       (do { (off, p) \<leftarrow> ReadU64 p; (len, p) \<leftarrow> ReadU32 p; (h, p) \<leftarrow> read_bytes 4 p; Some (off, len, hd h, p) })) (\<lambda>(off, len, s, p).
     and_then (named (strength_of s)) (\<lambda>st.
     if length p < 36 then Some (Inl (Corrupt ''manifest v4 anchor payload missing''))
     else need ''manifest v4 anchor checksum missing''
       (do { (sum, q) \<leftarrow> ReadU32 (drop 32 p);
             Some (\<lparr>anchor_offset = off, anchor_length = len, anchor_hash = take 32 p, strength = st, rolling_checksum = sum\<rparr>, q) })))"

fun parse_many :: "nat \<Rightarrow> (bytes \<Rightarrow> (Status + 'a \<times> bytes) option) \<Rightarrow> bytes \<Rightarrow> (Status + 'a list \<times> bytes) option" where
  "parse_many 0 rd p = Some (Inr ([], p))"
| "parse_many (Suc n) rd p =
     and_then (rd p) (\<lambda>(x, p). and_then (parse_many n rd p) (\<lambda>(xs, p). Some (Inr (x # xs, p))))"

definition read_head :: "bytes \<Rightarrow> (Status + (string \<times> FileType \<times> u32 \<times> u64) \<times> bytes) option" where
  "read_head p =
     and_then (need ''manifest v4 path missing'' (read_string p)) (\<lambda>(path, p).
     and_then (need ''manifest v4 file_type missing'' (read_byte p)) (\<lambda>(t, p).
     and_then (named (file_type_of t)) (\<lambda>ft.
     and_then (need ''manifest v4 file header incomplete'' (read_both ReadU32 ReadU64 p)) (\<lambda>((flags, size), p).
     Some (Inr ((path, ft, flags, size), p))))))"

definition read_entry :: "bool \<Rightarrow> bytes \<Rightarrow> (Status + ManifestFileEntry \<times> bytes) option" where
  "read_entry v5 p =
     and_then (read_head p) (\<lambda>((path, ft, flags, size), p).
     and_then (read_meta flags (empty_file_entry\<lparr>relative_path := path, file_type := ft, file_size := size\<rparr>, p)) (\<lambda>ep.
     and_then (if v5 then need ''manifest v5 win meta missing'' (ReadWinMetaFields flags ep) else Some (Inr ep)) (\<lambda>(e, p).
     and_then (read_hashes p) (\<lambda>(hs, p).
     and_then (need ''manifest v4 anchor_count missing'' (ReadU32 p)) (\<lambda>(n, p).
     and_then (parse_many (unat n) read_anchor p) (\<lambda>(as, p).
     Some (Inr (e\<lparr>chunk_hashes_hex := hs, cfi := as\<rparr>, p))))))))"

definition read_magic :: "bytes \<Rightarrow> (Status + (bool \<times> u64) \<times> bytes) option" where
  "read_magic body =
     and_then (need ''manifest binary inner magic missing'' (ReadU32 body)) (\<lambda>(magic, p).
     if magic \<noteq> kManifestV4InnerMagic \<and> magic \<noteq> kManifestV5InnerMagic
     then Some (Inl (Corrupt ''manifest binary inner magic mismatch''))
     else and_then (need ''manifest v4 txn_id missing'' (ReadU64 p)) (\<lambda>(txn, p).
       Some (Inr ((magic = kManifestV5InnerMagic, txn), p))))"

definition ParseBodyV4 :: "bytes \<Rightarrow> (Status + ManifestDocument) option" where
  "ParseBodyV4 body =
     and_then (read_magic body) (\<lambda>((v5, txn), p).
     and_then (need ''manifest v4 file_count missing'' (ReadU32 p)) (\<lambda>(n, p).
     and_then (parse_many (unat n) (read_entry v5) p) (\<lambda>(fs, _).
     Some (Inr \<lparr>doc_txn_id = txn, doc_files = fs\<rparr>))))"

text \<open>
  A file: its first line, and for the binary formats the body with its checksum. The line-oriented
  formats are the argument \<open>text\<close>, applied to the header and the rest of the file.
\<close>

definition first_line :: "bytes \<Rightarrow> string \<times> bytes" where
  "first_line bs = (bytes_chars (takeWhile (\<lambda>b. b \<noteq> 0x0A) bs), drop 1 (dropWhile (\<lambda>b. b \<noteq> 0x0A) bs))"

definition binary_body :: "bytes \<Rightarrow> Status + bytes" where
  "binary_body raw =
     (if length raw < 4 then Inl (Corrupt ''manifest binary too short'')
      else let n = length raw - 4; body = take n raw in
           if Crc32 body \<noteq> get_u32 (drop n raw) then Inl (Corrupt ''manifest binary crc mismatch'') else Inr body)"

definition ReadManifestAuto ::
  "(string \<Rightarrow> bytes \<Rightarrow> (Status + ManifestDocument) option) \<Rightarrow> string \<Rightarrow> bytes option \<Rightarrow> (Status + ManifestDocument) option" where
  "ReadManifestAuto text path file =
     (case file of
        None \<Rightarrow> Some (Inl (IoError (''cannot open manifest: '' @ path)))
      | Some bs \<Rightarrow>
          if bs = [] then Some (Inl (Corrupt ''empty manifest''))
          else case first_line bs of
            (header, rest) \<Rightarrow>
              if header = ''EBMANIFEST1'' then text header rest
              else if header = ''EBMANIFEST4'' \<or> header = ''EBMANIFEST5'' then
                (case binary_body rest of Inl e \<Rightarrow> Some (Inl e) | Inr body \<Rightarrow> ParseBodyV4 body)
              else if header \<noteq> ''EBMANIFEST2'' \<and> header \<noteq> ''EBMANIFEST3''
              then Some (Inl (Corrupt ''unknown manifest header''))
              else text header rest)"

section \<open>What is written is read back\<close>

text \<open>
  The entries a binary manifest can hold: every string and list shorter than \<open>2 ^ 32\<close>, the range of its
  counter, chunk hashes of 64 hex digits, and anchors with the 32 bytes of hash the code's array has.
\<close>

definition hash_hex :: "string \<Rightarrow> bool" where
  "hash_hex h \<longleftrightarrow> HexToBytes h 32 \<noteq> None"

definition entry_fits :: "ManifestFileEntry \<Rightarrow> bool" where
  "entry_fits f \<longleftrightarrow>
     list_all (\<lambda>n. n < 2 ^ 32)
       [length (relative_path f), length (symlink_target f), length (security_descriptor_b64 f), length (stream_name f),
        length (reparse_target f), length (efs_key_blob_b64 f), length (sparse_runs f), length (sparse_chunk_offsets f),
        length (chunk_hashes_hex f), length (cfi f)] \<and>
     list_all hash_hex (chunk_hashes_hex f) \<and> list_all (\<lambda>a. length (anchor_hash a) = 32) (cfi f)"

definition manifest_fits :: "ManifestDocument \<Rightarrow> bool" where
  "manifest_fits doc \<longleftrightarrow> length (doc_files doc) < 2 ^ 32 \<and> list_all entry_fits (doc_files doc)"

text \<open>
  What the format keeps of an entry. Sparse data is written only for an entry that is marked sparse and has
  runs, the key blob only for an encrypted one, and the chunk count of a browsed entry never; hex digits
  come back in lower case. The scan marks a file sparse before it asks for its runs and goes on when that
  query fails, so a sparse entry without runs occurs; it comes back as one that is not sparse.
\<close>

definition stored_hash :: "string \<Rightarrow> string" where
  "stored_hash h = (case HexToBytes h 32 of None \<Rightarrow> h | Some bs \<Rightarrow> BytesToHex bs)"

definition stored_entry :: "ManifestFileEntry \<Rightarrow> ManifestFileEntry" where
  "stored_entry f = f\<lparr>chunk_hashes_hex := map stored_hash (chunk_hashes_hex f), browse_chunk_count := 0,
     is_sparse := has_sparse_meta f,
     sparse_runs := (if has_sparse_meta f then sparse_runs f else []),
     sparse_chunk_offsets := (if has_sparse_meta f then sparse_chunk_offsets f else []),
     efs_key_blob_b64 := (if has_efs_meta f then efs_key_blob_b64 f else [])\<rparr>"

definition stored :: "ManifestDocument \<Rightarrow> ManifestDocument" where
  "stored doc = doc\<lparr>doc_files := map stored_entry (doc_files doc)\<rparr>"

definition lossless :: "ManifestFileEntry \<Rightarrow> bool" where
  "lossless f \<longleftrightarrow> list_all (\<lambda>h. stored_hash h = h) (chunk_hashes_hex f) \<and> browse_chunk_count f = 0 \<and>
     (is_sparse f \<longleftrightarrow> sparse_runs f \<noteq> []) \<and> (sparse_runs f = [] \<longrightarrow> sparse_chunk_offsets f = []) \<and>
     (\<not> efs_encrypted f \<longrightarrow> efs_key_blob_b64 f = [])"

lemma stored_eq: "stored doc = \<lparr>doc_txn_id = doc_txn_id doc, doc_files = map stored_entry (doc_files doc)\<rparr>"
  by (simp add: stored_def)

lemma stored_entry_lossless: "lossless f \<Longrightarrow> stored_entry f = f"
  by (cases f) (auto simp: lossless_def stored_entry_def list_all_iff has_sparse_meta_def has_efs_meta_def map_idI)

lemma stored_lossless: "list_all lossless (doc_files doc) \<Longrightarrow> stored doc = doc"
  by (cases doc) (simp add: stored_def list_all_iff map_idI stored_entry_lossless)

lemma stored_hash_idem: "stored_hash (stored_hash h) = stored_hash h"
proof (cases "HexToBytes h 32")
  case (Some bs)
  then have "HexToBytes (BytesToHex bs) 32 = Some bs" using HexToBytes_BytesToHex [of bs] HexToBytes_length [OF Some] by simp
  then show ?thesis by (simp add: stored_hash_def Some)
qed (simp add: stored_hash_def)

lemma lossless_stored: "lossless (stored_entry f)"
  by (simp add: lossless_def stored_entry_def list_all_iff stored_hash_idem has_sparse_meta_def has_efs_meta_def)

lemma has_flag_simps:
  "has_flag (a OR b) m \<longleftrightarrow> has_flag a m \<or> has_flag b m"
  "has_flag (if c then a else 0) m \<longleftrightarrow> c \<and> has_flag a m"
  by (auto simp: has_flag_def bit.conj_disj_distrib2 or_eq_0_iff)

lemma has_flag_v4:
  "has_flag (BuildV4MetaFlags f) kMetaMode \<longleftrightarrow> file_mode f \<noteq> 0"
  "has_flag (BuildV4MetaFlags f) kMetaUidGid \<longleftrightarrow> uid f \<noteq> 0xFFFFFFFF \<or> gid f \<noteq> 0xFFFFFFFF"
  "has_flag (BuildV4MetaFlags f) kMetaTimes \<longleftrightarrow> mtime_unix f \<noteq> 0 \<or> atime_unix f \<noteq> 0"
  "has_flag (BuildV4MetaFlags f) kMetaSymlink \<longleftrightarrow> symlink_target f \<noteq> []"
  "has_flag (BuildV4MetaFlags f) kMetaDevice \<longleftrightarrow> device_major f \<noteq> 0 \<or> device_minor f \<noteq> 0"
  unfolding BuildV4MetaFlags_def has_flag_simps by (simp_all add: has_flag_def meta_flags)

lemma has_flag_v4_win:
  "m \<in> {kMetaWinSd, kMetaInode, kMetaReparse, kMetaStream, kMetaReparseTarget, kMetaSparse, kMetaEfs} \<Longrightarrow>
     \<not> has_flag (BuildV4MetaFlags f) m"
  unfolding BuildV4MetaFlags_def has_flag_simps by (auto simp: has_flag_def meta_flags)

lemma has_flag_v5_meta:
  "m \<in> {kMetaMode, kMetaUidGid, kMetaTimes, kMetaSymlink, kMetaDevice} \<Longrightarrow>
     has_flag (BuildV5MetaFlags f) m = has_flag (BuildV4MetaFlags f) m"
  unfolding BuildV5MetaFlags_def has_flag_simps by (auto simp: has_flag_def meta_flags)

lemma has_flag_v5:
  "has_flag (BuildV5MetaFlags f) kMetaWinSd \<longleftrightarrow> security_descriptor_b64 f \<noteq> []"
  "has_flag (BuildV5MetaFlags f) kMetaInode \<longleftrightarrow> inode_id f \<noteq> 0"
  "has_flag (BuildV5MetaFlags f) kMetaReparse \<longleftrightarrow> reparse_tag f \<noteq> 0"
  "has_flag (BuildV5MetaFlags f) kMetaStream \<longleftrightarrow> stream_name f \<noteq> []"
  "has_flag (BuildV5MetaFlags f) kMetaReparseTarget \<longleftrightarrow> reparse_target f \<noteq> []"
  "has_flag (BuildV5MetaFlags f) kMetaSparse \<longleftrightarrow> has_sparse_meta f"
  "has_flag (BuildV5MetaFlags f) kMetaEfs \<longleftrightarrow> has_efs_meta f"
  unfolding BuildV5MetaFlags_def has_flag_simps by (simp_all add: has_flag_v4_win) (simp_all add: has_flag_def meta_flags)

lemma file_type_roundtrip [simp]: "file_type_of (file_type_byte t) = Some t"
  by (cases t) (simp_all add: file_type_of_def file_type_byte_def)

lemma strength_roundtrip [simp]: "strength_of (strength_byte s) = Some s"
  by (cases s) (simp_all add: strength_of_def strength_byte_def)

lemma reads_bool: "reads read_bool (\<lambda>b. [if b then 1 else 0]) b"
  by (simp add: reads_def read_bool_def)

lemma and_then_simps [simp]:
  "and_then (Some (Inr x)) k = k x" "and_then (Some (Inl e)) k = Some (Inl e)" "and_then None k = None"
  "need msg (Some x) = Some (Inr x)" "named (Some x) = Some (Inr x)"
  by (simp_all add: and_then_def need_def named_def)

lemma read_hash_hex:
  assumes "hash_hex h"
  shows "\<exists>bs. HexToBytes h 32 = Some bs \<and> (\<forall>r. read_hash (bs @ r) = Some (stored_hash h, r))"
  using assms HexToBytes_length [of h 32] by (auto simp: hash_hex_def stored_hash_def read_hash_def split: option.splits)

lemma read_many_hashes: "list_all hash_hex hs \<Longrightarrow>
    read_many (length hs) read_hash (concat (List.map_filter (\<lambda>h. HexToBytes h 32) hs) @ r) = Some (map stored_hash hs, r)"
proof (induction hs)
  case (Cons h hs)
  obtain bs where bs: "HexToBytes h 32 = Some bs" "\<And>r. read_hash (bs @ r) = Some (stored_hash h, r)"
    using read_hash_hex [of h] Cons.prems by auto
  have e: "concat (List.map_filter (\<lambda>h. HexToBytes h 32) (h # hs)) @ r =
      bs @ concat (List.map_filter (\<lambda>h. HexToBytes h 32) hs) @ r"
    by (simp add: bs(1) map_filter_simps)
  show ?case unfolding e using Cons by (simp add: bs(2))
qed (simp add: map_filter_simps)

lemma length_hash_bytes_all: "list_all hash_hex hs \<Longrightarrow>
    length (concat (List.map_filter (\<lambda>h. HexToBytes h 32) hs)) = 32 * length hs"
proof (induction hs)
  case (Cons h hs)
  obtain bs where bs: "HexToBytes h 32 = Some bs" using read_hash_hex [of h] Cons.prems by auto
  have "List.map_filter (\<lambda>h. HexToBytes h 32) (h # hs) = bs # List.map_filter (\<lambda>h. HexToBytes h 32) hs"
    by (simp add: bs map_filter_simps)
  then show ?case using Cons HexToBytes_length [OF bs] by simp
qed (simp add: map_filter_simps)

lemma read_hashes_write:
  assumes "list_all hash_hex hs" and "length hs < 2 ^ 32"
  shows "read_hashes (write_hashes hs @ r) = Some (Inr (map stored_hash hs, r))"
proof -
  have n: "unat (word_of_nat (length hs) :: u32) = length hs" using assms(2) by (simp add: unat_of_nat)
  have "unat ((word_of_nat (length hs) :: u32) * 32) \<le> 32 * length hs"
    using n by (simp add: unat_word_ariths mult.commute)
  then show ?thesis
    using length_hash_bytes_all [OF assms(1)]
    by (simp add: read_hashes_def write_hashes_def n read_many_hashes [OF assms(1)])
qed

lemma read_anchor_write: "length (anchor_hash a) = 32 \<Longrightarrow> read_anchor (write_anchor a @ r) = Some (Inr (a, r))"
  by (cases a) (simp add: read_anchor_def write_anchor_def read_bytes_def)

lemma parse_many_concat: "(\<And>x r. x \<in> set xs \<Longrightarrow> rd (w x @ r) = Some (Inr (g x, r))) \<Longrightarrow>
    parse_many (length xs) rd (concat (map w xs) @ r) = Some (Inr (map g xs, r))"
  by (induction xs) auto

lemma read_head_write: "length (relative_path f) < 2 ^ 32 \<Longrightarrow>
    read_head (write_string (relative_path f) @ [file_type_byte (file_type f)] @ put_u32 fl @ put_u64 (file_size f) @ r) =
      Some (Inr ((relative_path f, file_type f, fl, file_size f), r))"
  by (simp add: read_head_def readsD [OF reads_string] read_byte_def read_both_def)

lemmas reads_fields = reads_u32 reads_u64 reads_bool reads_string reads_both reads_counted

text \<open>The fields as they occur.\<close>

lemmas field_u32 = field_write [OF reads_u32]
lemmas field_u64 = field_write [OF reads_u64]
lemmas field_string = field_write [OF reads_string]

lemma field_u32s: "field c (read_both ReadU32 ReadU32) upd (e, write_if c (write_pair put_u32 put_u32 x) @ r) =
    Some (if c then upd x e else e, r)"
  by (rule field_write) (simp add: reads_fields)

lemma field_u64s: "field c (read_both ReadU64 ReadU64) upd (e, write_if c (write_pair put_u64 put_u64 x) @ r) =
    Some (if c then upd x e else e, r)"
  by (rule field_write) (simp add: reads_fields)

lemma field_sparse: "length (fst x) < 2 ^ 32 \<Longrightarrow> length (snd x) < 2 ^ 32 \<Longrightarrow>
    field c (read_both (read_counted (read_both ReadU64 ReadU64)) (read_counted ReadU64)) upd
      (e, write_if c (write_pair (write_counted (write_pair put_u64 put_u64)) (write_counted put_u64) x) @ r) =
    Some (if c then upd x e else e, r)"
  by (rule field_write) (simp add: reads_fields)

lemma field_efs: "length (snd x) < 2 ^ 32 \<Longrightarrow>
    field c (read_both read_bool read_string) upd (e, write_if c (write_pair (\<lambda>e. [if e then 1 else 0]) write_string x) @ r) =
    Some (if c then upd x e else e, r)"
  by (rule field_write) (simp add: reads_fields)

lemmas field_writes = field_u32 field_u64 field_string field_u32s field_u64s field_sparse field_efs

text \<open>The metadata every version has; the fields without a flag have their defaults.\<close>

definition with_meta :: "ManifestFileEntry \<Rightarrow> ManifestFileEntry \<Rightarrow> ManifestFileEntry" where
  "with_meta f e = e\<lparr>file_mode := file_mode f, uid := uid f, gid := gid f, mtime_unix := mtime_unix f,
     atime_unix := atime_unix f, symlink_target := symlink_target f, device_major := device_major f,
     device_minor := device_minor f\<rparr>"

definition head_of :: "ManifestFileEntry \<Rightarrow> ManifestFileEntry" where
  "head_of f = empty_file_entry\<lparr>relative_path := relative_path f, file_type := file_type f, file_size := file_size f\<rparr>"

lemma read_meta_write:
  assumes fl: "\<And>m. m \<in> {kMetaMode, kMetaUidGid, kMetaTimes, kMetaSymlink, kMetaDevice} \<Longrightarrow>
      has_flag fl m = has_flag (BuildV4MetaFlags f) m"
    and len: "length (symlink_target f) < 2 ^ 32"
  shows "read_meta fl (head_of f, write_meta fl f @ r) = Some (Inr (with_meta f (head_of f), r))"
  using len by (simp add: read_meta_def write_meta_def field_writes fl has_flag_v4 with_meta_def head_of_def empty_file_entry_def)

lemma ReadWinMetaFields_write:
  assumes "entry_fits f"
  shows "ReadWinMetaFields (BuildV5MetaFlags f) (with_meta f (head_of f), WriteWinMetaFields (BuildV5MetaFlags f) f @ r) =
    Some ((stored_entry f)\<lparr>chunk_hashes_hex := [], cfi := []\<rparr>, r)"
  using assms
  by (cases f) (simp add: ReadWinMetaFields_def WriteWinMetaFields_def field_writes entry_fits_def has_flag_v5
      with_meta_def head_of_def empty_file_entry_def has_sparse_meta_def has_efs_meta_def set_sparse_def stored_entry_def)

lemma no_win_meta:
  assumes "\<not> (has_win_meta f \<or> has_sparse_meta f \<or> has_efs_meta f)"
  shows "with_meta f (head_of f) = (stored_entry f)\<lparr>chunk_hashes_hex := [], cfi := []\<rparr>"
  using assms
  by (cases f) (auto simp: stored_entry_def with_meta_def head_of_def empty_file_entry_def has_win_meta_def
      has_sparse_meta_def has_efs_meta_def)

lemma read_entry_write:
  assumes "entry_fits f" and "v5 \<or> \<not> (has_win_meta f \<or> has_sparse_meta f \<or> has_efs_meta f)"
  shows "read_entry v5 (write_entry v5 f @ r) = Some (Inr (stored_entry f, r))"
proof -
  define fl where "fl = (if v5 then BuildV5MetaFlags f else BuildV4MetaFlags f)"
  define tl where "tl = write_hashes (chunk_hashes_hex f) @ write_counted write_anchor (cfi f) @ r"
  have fits: "length (relative_path f) < 2 ^ 32" "length (symlink_target f) < 2 ^ 32" "length (chunk_hashes_hex f) < 2 ^ 32"
      "length (cfi f) < 2 ^ 32" "list_all hash_hex (chunk_hashes_hex f)" "\<And>a. a \<in> set (cfi f) \<Longrightarrow> length (anchor_hash a) = 32"
    using assms(1) by (auto simp: entry_fits_def list_all_iff)
  let ?win = "if v5 then WriteWinMetaFields fl f else []"
  have w: "write_entry v5 f @ r = write_string (relative_path f) @ [file_type_byte (file_type f)] @ put_u32 fl @
      put_u64 (file_size f) @ write_meta fl f @ ?win @ tl"
    by (simp add: write_entry_def fl_def tl_def Let_def)
  have meta: "read_meta fl (head_of f, write_meta fl f @ rest) = Some (Inr (with_meta f (head_of f), rest))" for rest
    by (rule read_meta_write [OF _ fits(2)]) (simp add: fl_def has_flag_v5_meta)
  have win: "(if v5 then need ''manifest v5 win meta missing'' (ReadWinMetaFields fl (with_meta f (head_of f), ?win @ tl))
      else Some (Inr (with_meta f (head_of f), ?win @ tl))) = Some (Inr ((stored_entry f)\<lparr>chunk_hashes_hex := [], cfi := []\<rparr>, tl))"
    using ReadWinMetaFields_write [OF assms(1)] no_win_meta [of f] assms(2) by (auto simp: fl_def)
  have anchors: "parse_many (length (cfi f)) read_anchor (concat (map write_anchor (cfi f)) @ r) = Some (Inr (cfi f, r))"
    using parse_many_concat [where g = "\<lambda>a. a", OF read_anchor_write [OF fits(6)]] by simp
  have hashes: "read_hashes (write_hashes (chunk_hashes_hex f) @ rest) = Some (Inr (map stored_hash (chunk_hashes_hex f), rest))" for rest
    by (rule read_hashes_write) (rule fits)+
  have count: "unat (word_of_nat (length (cfi f)) :: u32) = length (cfi f)" using fits(4) by (simp add: unat_of_nat)
  show ?thesis
    unfolding w read_entry_def read_head_write [OF fits(1)] and_then_simps prod.case head_of_def [symmetric] meta win
    by (simp add: tl_def hashes count write_counted_def anchors) (simp add: stored_entry_def)
qed

lemma read_magic_write:
  "m \<in> {kManifestV4InnerMagic, kManifestV5InnerMagic} \<Longrightarrow>
     read_magic (put_u32 m @ put_u64 t @ r) = Some (Inr ((m = kManifestV5InnerMagic, t), r))"
  by (auto simp: read_magic_def)

lemma ParseBodyV4_write:
  assumes "manifest_fits doc" and "v5 \<or> \<not> DocumentUsesV5 doc"
  shows "ParseBodyV4 (if v5 then BuildBodyV5 doc else BuildBodyV4 doc) = Some (Inr (stored doc))"
proof -
  have len: "length (doc_files doc) < 2 ^ 32" using assms(1) by (simp add: manifest_fits_def)
  have n: "unat (word_of_nat (length (doc_files doc)) :: u32) = length (doc_files doc)"
    using len by (simp add: unat_of_nat)
  have "parse_many (length (doc_files doc)) (read_entry v5) (concat (map (write_entry v5) (doc_files doc)) @ []) =
      Some (Inr (map stored_entry (doc_files doc), []))"
    by (rule parse_many_concat, rule read_entry_write)
      (use assms in \<open>auto simp: manifest_fits_def list_all_iff DocumentUsesV5_def\<close>)
  moreover have "kManifestV4InnerMagic \<noteq> kManifestV5InnerMagic"
    by (simp add: kManifestV4InnerMagic_def kManifestV5InnerMagic_def)
  ultimately show ?thesis
    by (cases v5) (simp_all add: ParseBodyV4_def BuildBodyV4_def BuildBodyV5_def read_magic_write write_counted_def n stored_eq)
qed

lemma first_line_image: "CHR 0x0A \<notin> set header \<Longrightarrow> first_line (string_bytes header @ [0x0A] @ rest) = (header, rest)"
proof -
  assume h: "CHR 0x0A \<notin> set header"
  have "b \<noteq> 0x0A" if "b \<in> set (string_bytes header)" for b
  proof
    assume "b = 0x0A"
    with that obtain c where c: "c \<in> set header" "of_char c = (0x0A :: byte)" by (auto simp: string_bytes_def)
    then have "c = char_of (unat (0x0A :: byte))" using char_of_byte [of c] by simp
    also have "\<dots> = CHR 0x0A" by (simp add: char_of_def bit_iff_odd)
    finally show False using c(1) h by simp
  qed
  then show ?thesis by (auto simp: first_line_def takeWhile_append dropWhile_append)
qed

lemma binary_body_image: "binary_body (body @ put_u32 (Crc32 body)) = Inr body"
  by (simp add: binary_body_def)

lemma ReadManifestAuto_image:
  assumes "header = ''EBMANIFEST4'' \<or> header = ''EBMANIFEST5''"
  shows "ReadManifestAuto text path (Some (string_bytes header @ [0x0A] @ rest)) =
    (case binary_body rest of Inl e \<Rightarrow> Some (Inl e) | Inr body \<Rightarrow> ParseBodyV4 body)"
proof -
  have l: "first_line (string_bytes header @ [0x0A] @ rest) = (header, rest)"
    by (rule first_line_image) (use assms in auto)
  have h: "header \<noteq> ''EBMANIFEST1''" using assms by auto
  show ?thesis
    unfolding ReadManifestAuto_def option.case l prod.case using assms h by simp
qed

lemma manifest_written_loads:
  assumes "manifest_fits doc"
    and "WriteManifestBinary io path doc old = (st, new)" and "status_ok st"
  shows "ReadManifestAuto text path' new = Some (Inr (stored doc))"
proof -
  have new: "new = Some (if DocumentUsesV5 doc then manifest_image ''EBMANIFEST5'' (BuildBodyV5 doc)
      else manifest_image ''EBMANIFEST4'' (BuildBodyV4 doc))"
    using assms(2,3) by (auto simp: WriteManifestBinary_def WriteManifestV4_def WriteManifestV5_def
        write_manifest_file_def split: if_splits option.splits)
  show ?thesis
    using ParseBodyV4_write [OF assms(1), of "DocumentUsesV5 doc"]
    by (simp only: new manifest_image_def if_distrib ReadManifestAuto_image binary_body_image simp_thms if_True if_False
        sum.case split: if_splits)
qed

text \<open>
  C21. The binary manifest round-trips: take a document with fewer than \<open>2 ^ 32\<close> files whose strings and lists
  are all shorter than \<open>2 ^ 32\<close>, whose chunk hashes are 64 hex digits each and whose anchors hold 32 bytes of
  hash. If writing its manifest succeeds, in whichever of the two binary formats the document asks for, reading the
  file gives the document as the format keeps it (\<open>stored\<close>): every entry with its path, type, metadata, anchors
  and chunk hashes (in lower case), its sparse data if it is marked sparse and has runs, and otherwise
  not sparse and without runs and offsets, its key blob if it is encrypted and otherwise none, and the chunk count of a
  browser zero. A document with nothing of that to lose comes back as it is.
\<close>

theorem manifest_binary_roundtrip:
  assumes "manifest_fits doc"
    and "WriteManifestBinary io path doc old = (st, new)" and "status_ok st"
  shows "ReadManifestAuto text path new = Some (Inr (stored doc)) \<and> (list_all lossless (doc_files doc) \<longrightarrow> stored doc = doc)"
  using manifest_written_loads [OF assms] stored_lossless by auto

text \<open>
  The size check on chunk hashes wraps: a count of \<open>2 ^ 27\<close> hashes passes it with no byte behind it, and
  the loop reads outside the buffer.
\<close>

lemma chunk_count_wraps:
  assumes "length q < 32 * unat n" and "unat (n * 32) \<le> length q"
  shows "read_hashes (put_u32 n @ q) = None"
proof -
  have short: "read_many k read_hash p = None" if "length p < 32 * k" for k p
    using that by (induction k arbitrary: p) (auto simp: read_hash_def read_bytes_def)
  show ?thesis using assms short by (simp add: read_hashes_def)
qed

lemma binary_body_residue:
  assumes "4 \<le> length raw"
  shows "(\<exists>b. binary_body raw = Inr b) \<longleftrightarrow> foldl crc_byte 0xFFFFFFFF raw = crc_residue"
proof -
  let ?n = "length raw - 4"
  have "put_u32 (get_u32 (drop ?n raw)) = drop ?n raw" using assms by (simp add: put_get_u32)
  then have "raw = take ?n raw @ put_u32 (get_u32 (drop ?n raw))" by simp
  then show ?thesis
    using crc_residue_iff [of "take ?n raw" "get_u32 (drop ?n raw)"] assms by (simp add: binary_body_def Let_def)
qed

text \<open>
  C35. Damage to a binary manifest is detected: if a manifest file is readable and then up to four adjacent
  bytes behind its first line are overwritten with different ones, in the body or in the stored checksum,
  reading it reports the damage.
\<close>

theorem manifest_damage_detected:
  assumes "ReadManifestAuto text path (Some (string_bytes header @ [0x0A] @ p @ xs @ s)) = Some (Inr doc)"
    and "header \<in> {''EBMANIFEST4'', ''EBMANIFEST5''}"
    and "length xs = length ys" and "length xs \<le> 4" and "xs \<noteq> ys"
  shows "ReadManifestAuto text path (Some (string_bytes header @ [0x0A] @ p @ ys @ s)) =
    Some (Inl (Corrupt ''manifest binary crc mismatch''))"
proof -
  have h: "header = ''EBMANIFEST4'' \<or> header = ''EBMANIFEST5''" using assms(2) by simp
  have ok: "\<exists>b. binary_body (p @ xs @ s) = Inr b"
    using assms(1) unfolding ReadManifestAuto_image [OF h] by (auto split: sum.splits)
  then have len: "4 \<le> length (p @ xs @ s)" by (auto simp: binary_body_def split: if_splits)
  have len': "4 \<le> length (p @ ys @ s)" using len assms(3) by simp
  have "foldl crc_byte 0xFFFFFFFF (p @ xs @ s) = crc_residue" using ok binary_body_residue [OF len] by blast
  then have "foldl crc_byte 0xFFFFFFFF (p @ ys @ s) \<noteq> crc_residue"
    using foldl_crc_burst [OF assms(3,4), of "0xFFFFFFFF" p s] assms(5) by metis
  then have "\<not> (\<exists>b. binary_body (p @ ys @ s) = Inr b)" using binary_body_residue [OF len'] by blast
  then have "binary_body (p @ ys @ s) = Inl (Corrupt ''manifest binary crc mismatch'')"
    using len assms(3) by (auto simp: binary_body_def Let_def)
  then show ?thesis unfolding ReadManifestAuto_image [OF h] by simp
qed

section \<open>Sample entries\<close>

definition plain_entry :: ManifestFileEntry where
  "plain_entry = empty_file_entry\<lparr>relative_path := ''a'', file_size := 3, mtime_unix := 9,
     chunk_hashes_hex := [BytesToHex (zeros 32)]\<rparr>"

definition sparse_entry :: ManifestFileEntry where
  "sparse_entry = empty_file_entry\<lparr>relative_path := ''b'', file_size := 7, inode_id := 4, is_sparse := True,
     sparse_runs := [(0, 7)], sparse_chunk_offsets := [0], efs_encrypted := True, efs_key_blob_b64 := ''k''\<rparr>"

definition anchored_entry :: ManifestFileEntry where
  "anchored_entry = plain_entry\<lparr>cfi :=
     [\<lparr>anchor_offset = 0, anchor_length = 3, anchor_hash = zeros 32, strength = kStrong, rolling_checksum = 0\<rparr>]\<rparr>"

lemma hash_hex_BytesToHex: "length bs = 32 \<Longrightarrow> hash_hex (BytesToHex bs)"
  using HexToBytes_BytesToHex [of bs] by (simp add: hash_hex_def)

lemma stored_hash_BytesToHex: "length bs = 32 \<Longrightarrow> stored_hash (BytesToHex bs) = BytesToHex bs"
  using HexToBytes_BytesToHex [of bs] by (simp add: stored_hash_def)

lemmas sample_entries = plain_entry_def sparse_entry_def anchored_entry_def empty_file_entry_def

lemma sample_entries_fit: "entry_fits plain_entry" "entry_fits sparse_entry" "entry_fits anchored_entry"
  by (simp_all add: entry_fits_def sample_entries hash_hex_BytesToHex)

lemma sample_entries_lossless: "lossless plain_entry" "lossless sparse_entry" "lossless anchored_entry"
  by (simp_all add: lossless_def sample_entries stored_hash_BytesToHex)

text \<open>A file the scan marked sparse without finding its runs, with a hash in upper case.\<close>

definition half_sparse_entry :: ManifestFileEntry where
  "half_sparse_entry = empty_file_entry\<lparr>relative_path := ''c'', is_sparse := True, sparse_chunk_offsets := [0],
     chunk_hashes_hex := [replicate 64 CHR ''A'']\<rparr>"

lemma half_sparse_stored: "entry_fits half_sparse_entry"
  "stored_entry half_sparse_entry = half_sparse_entry\<lparr>is_sparse := False, sparse_chunk_offsets := [],
     chunk_hashes_hex := [replicate 64 CHR ''a'']\<rparr>"
proof -
  have "HexToBytes (replicate 64 CHR ''A'') 32 = Some (replicate 32 0xAA)" by code_simp
  moreover have "BytesToHex (replicate 32 0xAA) = replicate 64 CHR ''a''" by code_simp
  ultimately show "entry_fits half_sparse_entry" "stored_entry half_sparse_entry = half_sparse_entry\<lparr>is_sparse := False,
      sparse_chunk_offsets := [], chunk_hashes_hex := [replicate 64 CHR ''a'']\<rparr>"
    by (simp_all add: entry_fits_def half_sparse_entry_def empty_file_entry_def hash_hex_def stored_entry_def stored_hash_def
        has_sparse_meta_def has_efs_meta_def)
qed

theorem manifest_binary_roundtrip_witness:
  "let doc = \<lparr>doc_txn_id = 5, doc_files = [anchored_entry, sparse_entry]\<rparr>;
       doc' = \<lparr>doc_txn_id = 5, doc_files = [sparse_entry, half_sparse_entry]\<rparr>;
       io = \<lparr>mf_open_ok = True, mf_torn = None, mf_fsync = Status_Ok\<rparr>
   in (\<exists>new. WriteManifestBinary io ''m'' doc None = (Status_Ok, new) \<and>
         ReadManifestAuto (\<lambda>_ _. None) ''m'' new = Some (Inr doc)) \<and>
      (\<exists>new. WriteManifestBinary io ''m'' doc' None = (Status_Ok, new) \<and>
         ReadManifestAuto (\<lambda>_ _. None) ''m'' new = Some (Inr \<lparr>doc_txn_id = 5, doc_files = [sparse_entry,
           half_sparse_entry\<lparr>is_sparse := False, sparse_chunk_offsets := [], chunk_hashes_hex := [replicate 64 CHR ''a'']\<rparr>]\<rparr>))"
proof -
  let ?io = "\<lparr>mf_open_ok = True, mf_torn = None, mf_fsync = Status_Ok\<rparr>"
  let ?doc = "\<lparr>doc_txn_id = 5, doc_files = [anchored_entry, sparse_entry]\<rparr>"
  let ?doc' = "\<lparr>doc_txn_id = 5, doc_files = [sparse_entry, half_sparse_entry]\<rparr>"
  have w: "WriteManifestBinary ?io ''m'' doc None = (Status_Ok, Some (manifest_image ''EBMANIFEST5'' (BuildBodyV5 doc)))"
    if "sparse_entry \<in> set (doc_files doc)" for doc
    using that by (force simp: WriteManifestBinary_def WriteManifestV5_def write_manifest_file_def DocumentUsesV5_def
        has_efs_meta_def sparse_entry_def)
  have f: "manifest_fits ?doc" "list_all lossless (doc_files ?doc)"
    by (simp_all add: manifest_fits_def sample_entries_fit sample_entries_lossless)
  have f': "manifest_fits ?doc'" by (simp add: manifest_fits_def sample_entries_fit half_sparse_stored)
  have s': "stored ?doc' = \<lparr>doc_txn_id = 5, doc_files = [sparse_entry,
      half_sparse_entry\<lparr>is_sparse := False, sparse_chunk_offsets := [], chunk_hashes_hex := [replicate 64 CHR ''a'']\<rparr>]\<rparr>"
    by (simp add: stored_def half_sparse_stored stored_entry_lossless sample_entries_lossless)
  have "ReadManifestAuto (\<lambda>_ _. None) ''m'' (Some (manifest_image ''EBMANIFEST5'' (BuildBodyV5 ?doc))) = Some (Inr ?doc)"
    using manifest_binary_roundtrip [OF f(1) w] f(2) by simp
  moreover have "ReadManifestAuto (\<lambda>_ _. None) ''m'' (Some (manifest_image ''EBMANIFEST5'' (BuildBodyV5 ?doc'))) =
      Some (Inr (stored ?doc'))"
    using manifest_binary_roundtrip [OF f' w] by simp
  ultimately show ?thesis unfolding Let_def s' using w [of ?doc] w [of ?doc'] by simp
qed

theorem manifest_damage_detected_witness:
  "let doc = \<lparr>doc_txn_id = 5, doc_files = [plain_entry]\<rparr>;
       raw = drop 4 (BuildBodyV4 doc) @ put_u32 (Crc32 (BuildBodyV4 doc))
   in ReadManifestAuto (\<lambda>_ _. None) ''m'' (Some (string_bytes ''EBMANIFEST4'' @ [0x0A] @ [] @ [0, 0, 0, 0] @ raw)) =
        Some (Inl (Corrupt ''manifest binary crc mismatch''))"
proof -
  let ?doc = "\<lparr>doc_txn_id = 5, doc_files = [plain_entry]\<rparr>"
  let ?raw = "drop 4 (BuildBodyV4 ?doc) @ put_u32 (Crc32 (BuildBodyV4 ?doc))"
  have split: "[] @ put_u32 kManifestV4InnerMagic @ ?raw = BuildBodyV4 ?doc @ put_u32 (Crc32 (BuildBodyV4 ?doc))"
    by (simp add: BuildBodyV4_def)
  have f: "manifest_fits ?doc" by (simp add: manifest_fits_def sample_entries_fit)
  have "\<not> DocumentUsesV5 ?doc"
    by (simp add: DocumentUsesV5_def has_win_meta_def has_sparse_meta_def has_efs_meta_def sample_entries)
  then have ok: "ReadManifestAuto (\<lambda>_ _. None) ''m''
      (Some (string_bytes ''EBMANIFEST4'' @ [0x0A] @ [] @ put_u32 kManifestV4InnerMagic @ ?raw)) = Some (Inr ?doc)"
    unfolding split ReadManifestAuto_image [OF disjI1, OF refl] binary_body_image
    using ParseBodyV4_write [OF f, of False] stored_lossless [of ?doc] by (simp add: sample_entries_lossless)
  have "kManifestV4InnerMagic \<noteq> get_u32 [0, 0, 0, 0]" by (simp add: kManifestV4InnerMagic_def get_u32_def)
  then have "put_u32 kManifestV4InnerMagic \<noteq> [0, 0, 0, 0]" by (simp add: put_u32_eq_iff)
  then show ?thesis unfolding Let_def by (intro manifest_damage_detected [OF ok]) simp_all
qed

end
