(* ===== verification/ManifestBrowse.thy ===== *)
theory ManifestBrowse
  imports ManifestFile
begin

text \<open>
  Browsing a binary manifest without loading it (\<open>IterateManifestBinaryEntries\<close> of \<open>engine/manifest.cc\<close>):
  a second reader of the same format that skips what it does not show. It is compared with the loader:
  they agree on entries without anchors, and behind an entry with anchors the browser is at the wrong place.
\<close>

section \<open>Browsing without loading\<close>

text \<open>
  \<open>IterateManifestBinaryEntries\<close> walks over the same body and hands each entry's path, size, type, time
  and chunk count to a callback, skipping the rest.
\<close>

record ManifestBrowseEntry =
  br_path :: string
  br_size :: u64
  br_type :: FileType
  br_mtime :: "64 word"
  br_chunk_count :: u32

definition skip :: "nat \<Rightarrow> bytes \<Rightarrow> bytes option" where
  "skip n p = (if length p < n then None else Some (drop n p))"

definition skip_string :: "bytes \<Rightarrow> bytes option" where
  "skip_string p = do { (n, p) \<leftarrow> ReadU32 p; skip (unat n) p }"

fun skip_times :: "nat \<Rightarrow> nat \<Rightarrow> bytes \<Rightarrow> bytes option" where
  "skip_times 0 k p = Some p"
| "skip_times (Suc n) k p = skip k p \<bind> skip_times n k"

definition skip_if :: "bool \<Rightarrow> (bytes \<Rightarrow> bytes option) \<Rightarrow> bytes \<Rightarrow> bytes option" where
  "skip_if c sk p = (if c then sk p else Some p)"

definition skip_sparse :: "bytes \<Rightarrow> bytes option" where
  "skip_sparse p = do { (n, p) \<leftarrow> ReadU32 p; p \<leftarrow> skip_times (unat n) 16 p; (m, p) \<leftarrow> ReadU32 p; skip (unat (m * 8)) p }"

definition SkipWinMetaFields :: "u32 \<Rightarrow> bytes \<Rightarrow> bytes option" where
  "SkipWinMetaFields flags p =
     skip_if (has_flag flags kMetaWinSd) skip_string p \<bind>
     skip_if (has_flag flags kMetaInode) (skip 8) \<bind>
     skip_if (has_flag flags kMetaReparse) (skip 4) \<bind>
     skip_if (has_flag flags kMetaStream) skip_string \<bind>
     skip_if (has_flag flags kMetaReparseTarget) skip_string \<bind>
     skip_if (has_flag flags kMetaSparse) skip_sparse \<bind>
     skip_if (has_flag flags kMetaEfs) (\<lambda>p. skip 1 p \<bind> skip_string)"

definition browse_times :: "bool \<Rightarrow> bytes \<Rightarrow> (64 word \<times> bytes) option" where
  "browse_times c p = (if c then do { (m, p) \<leftarrow> ReadU64 p; (_, p) \<leftarrow> ReadU64 p; Some (m, p) } else Some (0, p))"

definition browse_entry :: "bool \<Rightarrow> bytes \<Rightarrow> (Status + ManifestBrowseEntry \<times> bytes) option" where
  "browse_entry v5 p =
     and_then (read_head p) (\<lambda>((path, ft, flags, size), p).
     and_then (need ''manifest v4 mode missing'' (skip_if (has_flag flags kMetaMode) (skip 4) p)) (\<lambda>p.
     and_then (need ''manifest v4 uid/gid missing'' (skip_if (has_flag flags kMetaUidGid) (skip 8) p)) (\<lambda>p.
     and_then (need ''manifest v4 times missing'' (browse_times (has_flag flags kMetaTimes) p)) (\<lambda>(mtime, p).
     and_then (need ''manifest v4 symlink missing'' (skip_if (has_flag flags kMetaSymlink) skip_string p)) (\<lambda>p.
     and_then (need ''manifest v4 device missing'' (skip_if (has_flag flags kMetaDevice) (skip 8) p)) (\<lambda>p.
     and_then (if v5 then need ''manifest v5 win meta missing'' (SkipWinMetaFields flags p) else Some (Inr p)) (\<lambda>p.
     and_then (need ''manifest v4 chunks missing'' (do { (n, p) \<leftarrow> ReadU32 p; p \<leftarrow> skip (unat (n * 32)) p; Some (n, p) })) (\<lambda>(n, p).
     and_then (need ''manifest v4 anchor_count missing'' (ReadU32 p)) (\<lambda>(m, p).
     and_then (need ''manifest v4 anchor payload missing'' (skip_times (unat m) 48 p)) (\<lambda>p.
     Some (Inr (\<lparr>br_path = path, br_size = size, br_type = ft, br_mtime = mtime, br_chunk_count = n\<rparr>, p))))))))))))"

fun run_callback :: "('s \<Rightarrow> 'e \<Rightarrow> Status \<times> 's) \<Rightarrow> 's \<Rightarrow> 'e list \<Rightarrow> Status \<times> 's" where
  "run_callback fn s [] = (Status_Ok, s)"
| "run_callback fn s (e # es) = (case fn s e of (st, s1) \<Rightarrow> if \<not> status_ok st then (st, s1) else run_callback fn s1 es)"

fun browse_many :: "nat \<Rightarrow> bool \<Rightarrow> ('s \<Rightarrow> ManifestBrowseEntry \<Rightarrow> Status \<times> 's) \<Rightarrow> 's \<Rightarrow> bytes \<Rightarrow> (Status \<times> 's) option" where
  "browse_many 0 v5 fn s p = Some (Status_Ok, s)"
| "browse_many (Suc n) v5 fn s p =
     (case browse_entry v5 p of
        None \<Rightarrow> None
      | Some (Inl e) \<Rightarrow> Some (e, s)
      | Some (Inr (b, q)) \<Rightarrow> (case fn s b of (st, s1) \<Rightarrow> if \<not> status_ok st then Some (st, s1) else browse_many n v5 fn s1 q))"

definition IterateBinaryBody :: "('s \<Rightarrow> ManifestBrowseEntry \<Rightarrow> Status \<times> 's) \<Rightarrow> 's \<Rightarrow> bytes \<Rightarrow> (Status \<times> u64 option \<times> 's) option" where
  "IterateBinaryBody fn s body =
     (case read_magic body of
        None \<Rightarrow> None
      | Some (Inl e) \<Rightarrow> Some (e, None, s)
      | Some (Inr ((v5, txn), p)) \<Rightarrow>
          (case ReadU32 p of
             None \<Rightarrow> Some (Corrupt ''manifest v4 file_count missing'', Some txn, s)
           | Some (n, p) \<Rightarrow> map_option (\<lambda>(st, s1). (st, Some txn, s1)) (browse_many (unat n) v5 fn s p)))"

definition IterateManifestBinaryEntries ::
  "('s \<Rightarrow> ManifestBrowseEntry \<Rightarrow> Status \<times> 's) \<Rightarrow> 's \<Rightarrow> string \<Rightarrow> bytes option \<Rightarrow> (Status \<times> u64 option \<times> 's) option" where
  "IterateManifestBinaryEntries fn s path file =
     (case file of
        None \<Rightarrow> Some (IoError (''cannot open manifest: '' @ path), None, s)
      | Some bs \<Rightarrow>
          if bs = [] then Some (Corrupt ''empty manifest'', None, s)
          else case first_line bs of
            (header, rest) \<Rightarrow>
              if header \<noteq> ''EBMANIFEST4'' \<and> header \<noteq> ''EBMANIFEST5''
              then Some (InvalidArgument ''manifest is not binary v4/v5'', None, s)
              else case binary_body rest of Inl e \<Rightarrow> Some (e, None, s) | Inr body \<Rightarrow> IterateBinaryBody fn s body)"

text \<open>A skipper moves the cursor where the reader of the same field moves it, on bodies below 4 GiB.\<close>

definition body_limit :: nat where "body_limit = 2 ^ 32"

definition follows :: "'a reader \<Rightarrow> (bytes \<Rightarrow> bytes option) \<Rightarrow> bool" where
  "follows rd sk \<longleftrightarrow> (\<forall>p x q. length p < body_limit \<longrightarrow> rd p = Some (x, q) \<longrightarrow> sk p = Some q \<and> length q \<le> length p)"

lemma followsD: "follows rd sk \<Longrightarrow> length p < body_limit \<Longrightarrow> rd p = Some (x, q) \<Longrightarrow> sk p = Some q \<and> length q \<le> length p"
  unfolding follows_def by blast

lemma follows_u32: "follows ReadU32 (skip 4)"
  by (auto simp: follows_def ReadU32_def skip_def)

lemma follows_u64: "follows ReadU64 (skip 8)"
  by (auto simp: follows_def ReadU64_def skip_def)

lemma follows_string: "follows read_string skip_string"
  by (auto simp: follows_def read_string_def skip_string_def read_bytes_def skip_def ReadU32_def bind_eq_Some_conv
      split: if_splits)

lemma skip_add: "skip m p \<bind> skip n = skip (m + n) p"
  by (auto simp: skip_def add.commute)

lemma follows_both: "follows ra sa \<Longrightarrow> follows rb sb \<Longrightarrow> follows (read_both ra rb) (\<lambda>p. sa p \<bind> sb)"
  unfolding follows_def [of "read_both _ _"]
proof (intro allI impI)
  fix p x q assume a: "follows ra sa" "follows rb sb" "length p < body_limit" "read_both ra rb p = Some (x, q)"
  then obtain a b p1 where r: "ra p = Some (a, p1)" "rb p1 = Some (b, q)"
    by (auto simp: read_both_def bind_eq_Some_conv)
  note s = followsD [OF a(1,3) r(1)]
  then show "sa p \<bind> sb = Some q \<and> length q \<le> length p"
    using followsD [OF a(2) _ r(2)] a(3) by auto
qed

lemma follows_u32s: "follows (read_both ReadU32 ReadU32) (skip 8)"
  using follows_both [OF follows_u32 follows_u32] by (simp add: skip_add)

lemma follows_u64s: "follows (read_both ReadU64 ReadU64) (skip 16)"
  using follows_both [OF follows_u64 follows_u64] by (simp add: skip_add)

lemma read_many_follows: "follows rd (skip k) \<Longrightarrow> length p < body_limit \<Longrightarrow> read_many n rd p = Some (xs, q) \<Longrightarrow>
    skip_times n k p = Some q \<and> skip (n * k) p = Some q \<and> length q \<le> length p"
proof (induction n arbitrary: p xs)
  case (Suc n)
  then obtain x p1 ys where r: "rd p = Some (x, p1)" "read_many n rd p1 = Some (ys, q)"
    by (auto simp: bind_eq_Some_conv)
  note s = followsD [OF Suc.prems(1,2) r(1)]
  have "skip_times n k p1 = Some q \<and> skip (n * k) p1 = Some q \<and> length q \<le> length p1"
    using Suc.IH [OF Suc.prems(1) _ r(2)] s Suc.prems(2) by simp
  then show ?case using s by (auto simp: skip_add [symmetric])
qed (auto simp: skip_def)

lemma skip_wrapped:
  fixes n :: u32
  assumes "skip (unat n * k) p = Some q" and "length p < body_limit" and "k < 2 ^ 32"
  shows "skip (unat (n * word_of_nat k)) p = Some q"
proof -
  have "unat n * k < 2 ^ 32" using assms(1,2) by (auto simp: skip_def body_limit_def split: if_splits)
  then have "unat (n * word_of_nat k) = unat n * k"
    using assms(3) by (simp add: unat_word_ariths unat_of_nat)
  then show ?thesis using assms(1) by simp
qed

lemma follows_sparse:
  "follows (read_both (read_counted (read_both ReadU64 ReadU64)) (read_counted ReadU64)) skip_sparse"
  unfolding follows_def
proof (intro allI impI)
  fix p x q assume p: "length p < body_limit"
    and rd: "read_both (read_counted (read_both ReadU64 ReadU64)) (read_counted ReadU64) p = Some (x, q)"
  obtain n p1 xs p2 m p3 ys where r: "ReadU32 p = Some (n, p1)" "read_many (unat n) (read_both ReadU64 ReadU64) p1 = Some (xs, p2)"
      "ReadU32 p2 = Some (m, p3)" "read_many (unat m) ReadU64 p3 = Some (ys, q)"
    using rd by (auto simp: read_both_def [of "read_counted _"] read_counted_def bind_eq_Some_conv)
  have s1: "length p1 \<le> length p" using followsD [OF follows_u32 p r(1)] by simp
  have s2: "skip_times (unat n) 16 p1 = Some p2" "length p2 \<le> length p1"
    using read_many_follows [OF follows_u64s _ r(2)] s1 p by auto
  have s3: "length p3 \<le> length p2" using followsD [OF follows_u32 _ r(3)] s1 s2 p by simp
  have s4: "skip (unat m * 8) p3 = Some q" "length q \<le> length p3"
    using read_many_follows [OF follows_u64 _ r(4)] s1 s2 s3 p by auto
  have "skip (unat (m * 8)) p3 = Some q"
    using skip_wrapped [OF s4(1)] s1 s2 s3 p by simp
  then show "skip_sparse p = Some q \<and> length q \<le> length p"
    using r(1,3) s1 s2 s3 s4 by (simp add: skip_sparse_def)
qed

lemma follows_efs: "follows (read_both read_bool read_string) (\<lambda>p. skip 1 p \<bind> skip_string)"
  by (rule follows_both [OF _ follows_string]) (auto simp: follows_def read_bool_def skip_def split: list.splits)

lemma field_follows:
  assumes "follows rd sk" and "field c rd upd (e, p) = Some (e1, q)" and "length p < body_limit"
  shows "skip_if c sk p = Some q \<and> length q \<le> length p \<and> (\<exists>x. e1 = (if c then upd x e else e))"
  using assms by (auto simp: field_def skip_if_def bind_eq_Some_conv dest: followsD)

text \<open>What the browser sees of an entry.\<close>

definition browse_view :: "ManifestFileEntry \<Rightarrow> string \<times> u64 \<times> FileType \<times> 64 word" where
  "browse_view f = (relative_path f, file_size f, file_type f, mtime_unix f)"

definition browse_of :: "ManifestFileEntry \<Rightarrow> ManifestBrowseEntry" where
  "browse_of f = \<lparr>br_path = relative_path f, br_size = file_size f, br_type = file_type f, br_mtime = mtime_unix f,
     br_chunk_count = word_of_nat (length (chunk_hashes_hex f))\<rparr>"

definition steps_over ::
  "(ManifestFileEntry \<times> bytes \<Rightarrow> (ManifestFileEntry \<times> bytes) option) \<Rightarrow> (bytes \<Rightarrow> bytes option) \<Rightarrow> bool" where
  "steps_over F S \<longleftrightarrow> (\<forall>e p e1 q. length p < body_limit \<longrightarrow> F (e, p) = Some (e1, q) \<longrightarrow>
     S p = Some q \<and> length q \<le> length p \<and> browse_view e1 = browse_view e)"

lemma steps_overD: "steps_over F S \<Longrightarrow> F (e, p) = Some (e1, q) \<Longrightarrow> length p < body_limit \<Longrightarrow>
    S p = Some q \<and> length q \<le> length p \<and> browse_view e1 = browse_view e"
  unfolding steps_over_def by blast

lemma steps_over_field:
  assumes "follows rd sk" and "\<And>x e. browse_view (upd x e) = browse_view e"
  shows "steps_over (field c rd upd) (skip_if c sk)"
  unfolding steps_over_def using field_follows [OF assms(1), of c upd] assms(2) by (metis (full_types))

lemma steps_over_bind:
  assumes "steps_over F S" and "steps_over G T"
  shows "steps_over (\<lambda>ep. F ep \<bind> G) (\<lambda>p. S p \<bind> T)"
  unfolding steps_over_def
proof (intro allI impI)
  fix e p e1 q assume p: "length p < body_limit" and b: "F (e, p) \<bind> G = Some (e1, q)"
  then obtain e2 p2 where r: "F (e, p) = Some (e2, p2)" "G (e2, p2) = Some (e1, q)"
    by (auto simp: bind_eq_Some_conv)
  note s = steps_overD [OF assms(1) r(1) p]
  then show "S p \<bind> T = Some q \<and> length q \<le> length p \<and> browse_view e1 = browse_view e"
    using steps_overD [OF assms(2) r(2)] p by auto
qed

lemma steps_over_win: "steps_over (ReadWinMetaFields flags) (SkipWinMetaFields flags)"
  unfolding ReadWinMetaFields_def [abs_def] SkipWinMetaFields_def [abs_def]
  by (intro steps_over_bind steps_over_field follows_string follows_u64 follows_u32 follows_sparse follows_efs)
    (auto simp: browse_view_def set_sparse_def)

lemma and_then_Inr: "and_then m k = Some (Inr y) \<longleftrightarrow> (\<exists>x. m = Some (Inr x) \<and> k x = Some (Inr y))"
  by (auto simp: and_then_def split: option.splits sum.splits)

lemma need_Inr: "need msg r = Some (Inr x) \<longleftrightarrow> r = Some x"
  by (auto simp: need_def split: option.splits)

lemma times_follow:
  assumes "field c (read_both ReadU64 ReadU64) (\<lambda>(m, a) f. f\<lparr>mtime_unix := m, atime_unix := a\<rparr>) (e, p) = Some (e1, q)"
    and "length p < body_limit" and "mtime_unix e = 0"
  shows "browse_times c p = Some (mtime_unix e1, q) \<and> length q \<le> length p \<and>
    relative_path e1 = relative_path e \<and> file_size e1 = file_size e \<and> file_type e1 = file_type e"
proof (cases c)
  case True
  then obtain m a p1 where r: "ReadU64 p = Some (m, p1)" "ReadU64 p1 = Some (a, q)"
      "e1 = e\<lparr>mtime_unix := m, atime_unix := a\<rparr>"
    using assms(1) by (auto simp: field_def read_both_def bind_eq_Some_conv)
  then show ?thesis
    using True field_follows [OF follows_u64s assms(1,2)] by (simp add: browse_times_def)
qed (use assms in \<open>simp add: field_def browse_times_def\<close>)

text \<open>An anchor takes 52 bytes; the browser skips 48.\<close>

lemma anchor_length: "read_anchor p = Some (Inr (a, q)) \<Longrightarrow> 52 \<le> length p \<and> q = drop 52 p"
  by (auto simp: read_anchor_def and_then_Inr need_Inr bind_eq_Some_conv ReadU64_def ReadU32_def read_bytes_def
      named_def split: if_splits option.splits)

lemma skip_times_drop: "n * k \<le> length p \<Longrightarrow> skip_times n k p = Some (drop (n * k) p)"
  by (induction n arbitrary: p) (auto simp: skip_def add.commute)

lemma anchors_length: "parse_many n read_anchor p = Some (Inr (as, q)) \<Longrightarrow>
    length as = n \<and> n * 52 \<le> length p \<and> q = drop (n * 52) p"
proof (induction n arbitrary: p as)
  case (Suc n)
  then obtain a p1 bs where r: "read_anchor p = Some (Inr (a, p1))" "parse_many n read_anchor p1 = Some (Inr (bs, q))"
      "as = a # bs"
    by (auto simp: and_then_Inr)
  show ?case using Suc.IH [OF r(2)] anchor_length [OF r(1)] r(3) by (auto simp: add.commute)
qed auto

lemma hashes_follow:
  assumes "read_hashes p = Some (Inr (hs, q))" and "length p < body_limit"
  shows "\<exists>n r. ReadU32 p = Some (n, r) \<and> skip (unat (n * 32)) r = Some q \<and> length q \<le> length p \<and> n = word_of_nat (length hs)"
proof -
  obtain n r where r: "ReadU32 p = Some (n, r)" "read_many (unat n) read_hash r = Some (hs, q)"
    using assms(1) by (auto simp: read_hashes_def split: option.splits if_splits)
  have s: "length r \<le> length p" using followsD [OF follows_u32 assms(2) r(1)] by simp
  have "follows read_hash (skip 32)" by (auto simp: follows_def read_hash_def read_bytes_def skip_def split: if_splits)
  then have k: "skip (unat n * 32) r = Some q" "length q \<le> length r"
    using read_many_follows [OF _ _ r(2), of 32] s assms(2) by auto
  have "length xs = m" if "read_many m rd p = Some (xs, q)" for m and rd :: "'b reader" and p q xs
    using that by (induction m arbitrary: p xs) (auto simp: bind_eq_Some_conv)
  then have "n = word_of_nat (length hs)" using r(2) by (metis of_nat_unat ucast_id)
  moreover have "skip (unat (n * 32)) r = Some q" using skip_wrapped [OF k(1)] s assms(2) by simp
  ultimately show ?thesis using r(1) k(2) s by auto
qed

lemma read_head_length:
  assumes "read_head p = Some (Inr (x, q))" and "length p < body_limit"
  shows "length q \<le> length p"
proof -
  obtain path p1 t p2 y where r: "read_string p = Some (path, p1)" "read_byte p1 = Some (t, p2)"
      "read_both ReadU32 ReadU64 p2 = Some (y, q)"
    using assms(1) by (auto simp: read_head_def and_then_Inr need_Inr split: prod.splits)
  have "length p1 \<le> length p" using followsD [OF follows_string assms(2) r(1)] by simp
  moreover have "length p2 \<le> length p1" using r(2) by (auto simp: read_byte_def split: list.splits)
  moreover have "length q \<le> length p2"
    using r(3) by (auto simp: read_both_def ReadU32_def ReadU64_def bind_eq_Some_conv split: if_splits)
  ultimately show ?thesis by simp
qed

lemma read_meta_browse:
  assumes m: "read_meta flags (e, p) = Some (Inr (e1, q))" and p: "length p < body_limit" and "mtime_unix e = 0"
  shows "\<exists>p1 p2 p3 p4. skip_if (has_flag flags kMetaMode) (skip 4) p = Some p1 \<and>
    skip_if (has_flag flags kMetaUidGid) (skip 8) p1 = Some p2 \<and>
    browse_times (has_flag flags kMetaTimes) p2 = Some (mtime_unix e1, p3) \<and>
    skip_if (has_flag flags kMetaSymlink) skip_string p3 = Some p4 \<and>
    skip_if (has_flag flags kMetaDevice) (skip 8) p4 = Some q \<and> length q \<le> length p \<and>
    relative_path e1 = relative_path e \<and> file_size e1 = file_size e \<and> file_type e1 = file_type e"
proof -
  let ?f1 = "field (has_flag flags kMetaMode) ReadU32 (\<lambda>m f. f\<lparr>file_mode := m\<rparr>)"
  let ?f2 = "field (has_flag flags kMetaUidGid) (read_both ReadU32 ReadU32) (\<lambda>(u, g) f. f\<lparr>uid := u, gid := g\<rparr>)"
  let ?f3 = "field (has_flag flags kMetaTimes) (read_both ReadU64 ReadU64) (\<lambda>(m, a) f. f\<lparr>mtime_unix := m, atime_unix := a\<rparr>)"
  let ?f4 = "field (has_flag flags kMetaSymlink) read_string (\<lambda>s f. f\<lparr>symlink_target := s\<rparr>)"
  let ?f5 = "field (has_flag flags kMetaDevice) (read_both ReadU32 ReadU32) (\<lambda>(a, i) f. f\<lparr>device_major := a, device_minor := i\<rparr>)"
  obtain e2 p1 e3 p2 e4 p3 e5 p4 where r: "?f1 (e, p) = Some (e2, p1)" "?f2 (e2, p1) = Some (e3, p2)"
      "?f3 (e3, p2) = Some (e4, p3)" "?f4 (e4, p3) = Some (e5, p4)" "?f5 (e5, p4) = Some (e1, q)"
    using m by (auto simp: read_meta_def and_then_Inr need_Inr)
  have o: "steps_over ?f1 (skip_if (has_flag flags kMetaMode) (skip 4))"
      "steps_over ?f2 (skip_if (has_flag flags kMetaUidGid) (skip 8))"
      "steps_over ?f4 (skip_if (has_flag flags kMetaSymlink) skip_string)"
      "steps_over ?f5 (skip_if (has_flag flags kMetaDevice) (skip 8))"
    by (rule steps_over_field, rule follows_u32 follows_u32s follows_string, simp add: browse_view_def split: prod.split)+
  note s1 = steps_overD [OF o(1) r(1) p]
  have s2: "skip_if (has_flag flags kMetaUidGid) (skip 8) p1 = Some p2 \<and> length p2 \<le> length p1 \<and> browse_view e3 = browse_view e2"
    using steps_overD [OF o(2) r(2)] s1 p by simp
  have s3: "browse_times (has_flag flags kMetaTimes) p2 = Some (mtime_unix e4, p3) \<and> length p3 \<le> length p2 \<and>
      relative_path e4 = relative_path e3 \<and> file_size e4 = file_size e3 \<and> file_type e4 = file_type e3"
    using times_follow [OF r(3)] s1 s2 p assms(3) by (simp add: browse_view_def)
  have s4: "skip_if (has_flag flags kMetaSymlink) skip_string p3 = Some p4 \<and> length p4 \<le> length p3 \<and> browse_view e5 = browse_view e4"
    using steps_overD [OF o(3) r(4)] s1 s2 s3 p by simp
  have s5: "skip_if (has_flag flags kMetaDevice) (skip 8) p4 = Some q \<and> length q \<le> length p4 \<and> browse_view e1 = browse_view e5"
    using steps_overD [OF o(4) r(5)] s1 s2 s3 s4 p by simp
  show ?thesis using s1 s2 s3 s4 s5 by (auto simp: browse_view_def)
qed

lemma browse_entry_cursor:
  assumes rd: "read_entry v5 p = Some (Inr (f, q))" and p: "length p < body_limit"
  shows "\<exists>b. browse_entry v5 p = Some (Inr (browse_of f, b)) \<and> q = drop (4 * length (cfi f)) b \<and> length b \<le> length p \<and>
    length b = length q + 4 * length (cfi f)"
proof -
  obtain path ft flags size p1 e2 p2 e3 p3 hs p4 n p5 as where
    h: "read_head p = Some (Inr ((path, ft, flags, size), p1))"
    and m: "read_meta flags (empty_file_entry\<lparr>relative_path := path, file_type := ft, file_size := size\<rparr>, p1) = Some (Inr (e2, p2))"
    and w: "(if v5 then need ''manifest v5 win meta missing'' (ReadWinMetaFields flags (e2, p2)) else Some (Inr (e2, p2))) = Some (Inr (e3, p3))"
    and hh: "read_hashes p3 = Some (Inr (hs, p4))" and c: "ReadU32 p4 = Some (n, p5)"
    and as: "parse_many (unat n) read_anchor p5 = Some (Inr (as, q))"
    and f: "f = e3\<lparr>chunk_hashes_hex := hs, cfi := as\<rparr>"
    using rd by (auto simp: read_entry_def and_then_Inr need_Inr)
  have l1: "length p1 \<le> length p" by (rule read_head_length [OF h p])
  obtain a1 a2 a3 a4 where b: "skip_if (has_flag flags kMetaMode) (skip 4) p1 = Some a1"
      "skip_if (has_flag flags kMetaUidGid) (skip 8) a1 = Some a2"
      "browse_times (has_flag flags kMetaTimes) a2 = Some (mtime_unix e2, a3)"
      "skip_if (has_flag flags kMetaSymlink) skip_string a3 = Some a4"
      "skip_if (has_flag flags kMetaDevice) (skip 8) a4 = Some p2" "length p2 \<le> length p1"
      "relative_path e2 = path" "file_size e2 = size" "file_type e2 = ft"
    using read_meta_browse [OF m] l1 p by (auto simp: empty_file_entry_def)
  have win: "(if v5 then need ''manifest v5 win meta missing'' (SkipWinMetaFields flags p2) else Some (Inr p2)) = Some (Inr p3)"
      "length p3 \<le> length p2" "browse_view e3 = browse_view e2"
    using w steps_overD [OF steps_over_win, of flags e2 p2 e3 p3] b(6) l1 p by (auto simp: need_Inr split: if_splits)
  obtain k r where ks: "ReadU32 p3 = Some (k, r)" "skip (unat (k * 32)) r = Some p4" "length p4 \<le> length p3"
      "k = word_of_nat (length hs)"
    using hashes_follow [OF hh] win(2) b(6) l1 p by auto
  have l5: "length p5 \<le> length p4" using followsD [OF follows_u32 _ c] ks(3) win(2) b(6) l1 p by simp
  note al = anchors_length [OF as]
  have sk: "skip_times (unat n) 48 p5 = Some (drop (unat n * 48) p5)"
    by (rule skip_times_drop) (use al in simp)
  have "browse_entry v5 p = Some (Inr (browse_of f, drop (unat n * 48) p5))"
    using h b win(1,3) ks c sk f
    by (simp add: browse_entry_def and_then_Inr need_Inr browse_of_def browse_view_def)
  moreover have "q = drop (4 * length (cfi f)) (drop (unat n * 48) p5)"
    and "length (drop (unat n * 48) p5) = length q + 4 * length (cfi f)"
    using al f by (auto simp: mult.commute)
  ultimately show ?thesis using l5 ks(3) win(2) b(6) l1 by fastforce
qed

lemma browse_many_agrees:
  assumes "parse_many n (read_entry v5) p = Some (Inr (fs, q))" and "length p < body_limit"
    and "list_all (\<lambda>f. cfi f = []) (butlast fs)"
  shows "browse_many n v5 fn s p = Some (run_callback fn s (map browse_of fs))"
  using assms
proof (induction n arbitrary: p fs s)
  case (Suc n)
  then obtain f p1 gs where r: "read_entry v5 p = Some (Inr (f, p1))" "parse_many n (read_entry v5) p1 = Some (Inr (gs, q))"
      "fs = f # gs"
    by (auto simp: and_then_Inr)
  obtain b where b: "browse_entry v5 p = Some (Inr (browse_of f, b))" "p1 = drop (4 * length (cfi f)) b" "length b \<le> length p"
    using browse_entry_cursor [OF r(1) Suc.prems(2)] by blast
  show ?case
  proof (cases gs)
    case Nil
    then have "n = 0" using r(2) by (cases n) (auto simp: and_then_Inr)
    then show ?thesis using b(1) r(3) Nil by (auto split: prod.split)
  next
    case (Cons g gs')
    then have "b = p1" using Suc.prems(3) r(3) b(2) by simp
    moreover have "list_all (\<lambda>f. cfi f = []) (butlast gs)" using Suc.prems(3) r(3) Cons by simp
    ultimately show ?thesis
      using Suc.IH [OF r(2)] b(1,3) Suc.prems(2) r(3) by (auto split: prod.split)
  qed
qed auto

text \<open>
  C22. Browsing a manifest agrees with loading it, as long as no entry before the last one has anchors: if
  a body below 4 GiB parses to a document, the iteration hands the callback exactly the entries of that
  document, in order, stops where the callback stops it, and reports the document's transaction.
\<close>

theorem browsing_agrees_with_loading:
  assumes "ParseBodyV4 body = Some (Inr doc)" and "length body < body_limit"
    and "list_all (\<lambda>f. cfi f = []) (butlast (doc_files doc))"
  shows "IterateBinaryBody fn s body =
    (case run_callback fn s (map browse_of (doc_files doc)) of (st, s1) \<Rightarrow> Some (st, Some (doc_txn_id doc), s1))"
proof -
  obtain v5 txn p n p1 fs q where r: "read_magic body = Some (Inr ((v5, txn), p))" "ReadU32 p = Some (n, p1)"
      "parse_many (unat n) (read_entry v5) p1 = Some (Inr (fs, q))" "doc = \<lparr>doc_txn_id = txn, doc_files = fs\<rparr>"
    using assms(1) by (auto simp: ParseBodyV4_def and_then_Inr need_Inr)
  have "length p \<le> length body"
    using r(1) by (auto simp: read_magic_def and_then_Inr need_Inr ReadU32_def ReadU64_def split: if_splits)
  then have "length p1 < body_limit" using followsD [OF follows_u32 _ r(2)] assms(2) by simp
  then have "browse_many (unat n) v5 fn s p1 = Some (run_callback fn s (map browse_of fs))"
    using browse_many_agrees [OF r(3)] assms(3) r(4) by simp
  then show ?thesis using r(1,2,4) by (simp add: IterateBinaryBody_def split: prod.split)
qed

definition collect :: "ManifestBrowseEntry list \<Rightarrow> ManifestBrowseEntry \<Rightarrow> Status \<times> ManifestBrowseEntry list" where
  "collect s e = (Status_Ok, s @ [e])"

lemma length_fields:
  "length (write_string t) = 4 + length t" "length (write_if c bs) = (if c then length bs else 0)"
  "length (write_pair wa wb (a, b)) = length (wa a) + length (wb b)"
  "length (write_counted w xs) = 4 + sum_list (map (length \<circ> w) xs)"
  by (simp_all add: write_string_def length_string_bytes write_if_def write_pair_def write_counted_def length_concat)

lemma length_write_hashes: "list_all hash_hex hs \<Longrightarrow> length (write_hashes hs) = 4 + 32 * length hs"
  by (simp add: write_hashes_def length_hash_bytes_all del: length_concat)

lemma length_sample_entries:
  "length (write_entry True plain_entry) \<le> 1000" "length (write_entry True sparse_entry) \<le> 1000"
  "length (write_entry True anchored_entry) \<le> 1000"
  by (simp_all add: write_entry_def write_meta_def WriteWinMetaFields_def length_fields length_write_hashes has_flag_v5_meta has_flag_v4
      has_flag_v5 has_sparse_meta_def has_efs_meta_def sample_entries hash_hex_BytesToHex write_anchor_def
      split: if_splits)

theorem browsing_agrees_with_loading_witness:
  "IterateBinaryBody collect [] (BuildBodyV5 \<lparr>doc_txn_id = 5, doc_files = [plain_entry, sparse_entry, anchored_entry]\<rparr>) =
     Some (Status_Ok, Some 5, map browse_of [plain_entry, sparse_entry, anchored_entry])"
proof -
  let ?doc = "\<lparr>doc_txn_id = 5, doc_files = [plain_entry, sparse_entry, anchored_entry]\<rparr>"
  have f: "manifest_fits ?doc" by (simp add: manifest_fits_def sample_entries_fit)
  have p: "ParseBodyV4 (BuildBodyV5 ?doc) = Some (Inr ?doc)"
    using ParseBodyV4_write [OF f, of True] stored_lossless [of ?doc] sample_entries_lossless by simp
  have l: "length (BuildBodyV5 ?doc) < body_limit"
    using length_sample_entries by (simp add: BuildBodyV5_def write_counted_def body_limit_def)
  have c: "list_all (\<lambda>f. cfi f = []) (butlast (doc_files ?doc))" by (simp add: sample_entries)
  show ?thesis using browsing_agrees_with_loading [OF p l c, of collect "[]"] by (simp add: collect_def)
qed

text \<open>
  C36. Anchors are skipped with the wrong size: after an entry with anchors the browser's cursor stands four
  bytes per anchor before the next entry. The entry itself is reported correctly, everything behind it is
  read from the wrong place.
\<close>

theorem browsing_loses_its_place:
  assumes "entry_fits f" and "v5 \<or> \<not> (has_win_meta f \<or> has_sparse_meta f \<or> has_efs_meta f)"
    and "length (write_entry v5 f @ rest) < body_limit"
  shows "\<exists>b. browse_entry v5 (write_entry v5 f @ rest) = Some (Inr (browse_of f, b)) \<and>
    length b = length rest + 4 * length (cfi f) \<and> drop (4 * length (cfi f)) b = rest"
  using browse_entry_cursor [OF read_entry_write [OF assms(1,2)] assms(3)]
  by (auto simp: browse_of_def stored_entry_def)


text \<open>
  A listing that goes wrong: behind a file with an anchor, the directory \<open>a\<close> is listed as a directory without
  a name and of size 1.
\<close>

definition dir_entry :: ManifestFileEntry where
  "dir_entry = empty_file_entry\<lparr>relative_path := ''a'', file_type := kDirectory\<rparr>"

definition anchored_empty :: ManifestFileEntry where
  "anchored_empty = empty_file_entry\<lparr>relative_path := ''f'', cfi := cfi anchored_entry\<rparr>"

lemma le_enc_num: "le_enc (numeral n) x = word_of_nat x # le_enc (pred_numeral n) (x div 256)"
  by (simp only: numeral_eq_Suc [of n] le_enc.simps)

lemmas write_sample = write_entry_def BuildV4MetaFlags_def write_meta_def write_if_def has_flag_def empty_file_entry_def
  write_string_def write_hashes_def write_counted_def string_bytes_def file_type_byte_def map_filter_simps

lemma dir_bytes: "put_u32 0 @ write_entry False dir_entry =
    write_string [] @ [file_type_byte kDirectory] @ put_u32 0x61000000 @ put_u64 1 @ write_hashes [] @ put_u32 0 @ [0, 0, 0, 0, 0]"
  by (simp add: write_sample dir_entry_def put_u32_def put_u64_def le_enc_num)

lemma browse_dir: "browse_entry False (put_u32 0 @ write_entry False dir_entry) =
    Some (Inr (\<lparr>br_path = [], br_size = 1, br_type = kDirectory, br_mtime = 0, br_chunk_count = 0\<rparr>, [0, 0, 0, 0, 0]))"
proof -
  have h: "read_head (write_string [] @ [file_type_byte kDirectory] @ put_u32 0x61000000 @ put_u64 1 @ r) =
      Some (Inr (([], kDirectory, 0x61000000, 1), r))" for r
    using read_head_write [of "empty_file_entry\<lparr>file_type := kDirectory, file_size := 1\<rparr>" "0x61000000" r]
    by (simp add: empty_file_entry_def)
  show ?thesis
    unfolding dir_bytes browse_entry_def h
    by (simp add: has_flag_def meta_flags skip_if_def browse_times_def write_hashes_def skip_def map_filter_simps)
qed

lemma browse_anchored: "browse_entry False (write_entry False anchored_empty @ r) =
    Some (Inr (browse_of anchored_empty, put_u32 0 @ r))"
proof -
  have w: "write_entry False anchored_empty @ r =
      write_string (relative_path anchored_empty) @ [file_type_byte (file_type anchored_empty)] @ put_u32 0 @
      put_u64 (file_size anchored_empty) @ write_hashes [] @ put_u32 1 @ (put_u64 0 @ put_u32 3 @ [1, 0, 0, 0] @ zeros 32) @ put_u32 0 @ r"
    by (simp add: write_sample anchored_empty_def anchored_entry_def plain_entry_def write_anchor_def strength_byte_def)
  have "skip 48 ((put_u64 0 @ put_u32 3 @ [1, 0, 0, 0] @ zeros 32) @ put_u32 0 @ r) = Some (put_u32 0 @ r)"
    by (simp add: skip_def)
  moreover have l: "length (relative_path anchored_empty) < 2 ^ 32" by (simp add: anchored_empty_def)
  ultimately show ?thesis
    unfolding w browse_entry_def read_head_write [OF l]
    by (simp add: has_flag_def skip_if_def browse_times_def write_hashes_def skip_def [of "unat _"] map_filter_simps
        browse_of_def anchored_empty_def empty_file_entry_def skip_def [of 0])
qed

theorem browsing_loses_its_place_witness:
  "\<exists>b. browse_entry False (write_entry False anchored_empty @ write_entry False dir_entry) = Some (Inr (browse_of anchored_empty, b)) \<and>
     length b = length (write_entry False dir_entry) + 4 \<and>
     IterateBinaryBody collect [] (BuildBodyV4 \<lparr>doc_txn_id = 5, doc_files = [anchored_empty, dir_entry]\<rparr>) =
       Some (Status_Ok, Some 5, [browse_of anchored_empty,
         \<lparr>br_path = [], br_size = 1, br_type = kDirectory, br_mtime = 0, br_chunk_count = 0\<rparr>])"
proof -
  let ?body = "write_entry False anchored_empty @ write_entry False dir_entry"
  have f: "entry_fits anchored_empty" "\<not> (has_win_meta anchored_empty \<or> has_sparse_meta anchored_empty \<or> has_efs_meta anchored_empty)"
    by (simp_all add: anchored_empty_def sample_entries entry_fits_def has_win_meta_def has_sparse_meta_def has_efs_meta_def)
  have "length (write_entry False anchored_empty) \<le> 1000" "length (write_entry False dir_entry) \<le> 1000"
    by (simp_all add: write_sample anchored_empty_def anchored_entry_def plain_entry_def write_anchor_def dir_entry_def)
  then have l: "length ?body < body_limit" by (simp add: body_limit_def)
  have "browse_many 2 False collect [] ?body =
      Some (Status_Ok, [browse_of anchored_empty, \<lparr>br_path = [], br_size = 1, br_type = kDirectory, br_mtime = 0, br_chunk_count = 0\<rparr>])"
    by (simp add: numeral_2_eq_2 browse_anchored browse_dir collect_def)
  then have "IterateBinaryBody collect [] (BuildBodyV4 \<lparr>doc_txn_id = 5, doc_files = [anchored_empty, dir_entry]\<rparr>) =
       Some (Status_Ok, Some 5, [browse_of anchored_empty,
         \<lparr>br_path = [], br_size = 1, br_type = kDirectory, br_mtime = 0, br_chunk_count = 0\<rparr>])"
    by (simp add: IterateBinaryBody_def BuildBodyV4_def read_magic_write write_counted_def kManifestV4InnerMagic_def kManifestV5InnerMagic_def)
  then show ?thesis
    using browsing_loses_its_place [OF f(1) _ l] f(2) by (auto simp: anchored_empty_def anchored_entry_def)
qed

end
