(* ===== verification/Snapshots.thy ===== *)
theory Snapshots
  imports ManifestFile ChunkFaults JsonField "HOL-Library.Signed_Division"
begin

text \<open>
  Snapshots of a repository: the archive of committed manifests with its index
  (\<open>store/snapshot_store.h\<close>, \<open>store/snapshot_store.cc\<close>), the metadata kept per snapshot
  (\<open>catalog/snapshot_meta.cc\<close>) and the retention policy that prunes them
  (\<open>store/retention_policy.cc\<close>). The files of the repository are a map from paths to contents.
\<close>

section \<open>The snapshot index (store/snapshot_store.h)\<close>

definition kSnapshotIndexMagic :: u32 where "kSnapshotIndexMagic = 0x50414E53"
definition kSnapshotIndexVersion :: u32 where "kSnapshotIndexVersion = 1"
definition kSnapshotPathWidth :: nat where "kSnapshotPathWidth = 64"
definition kBackupFeatureSnapshots :: u32 where "kBackupFeatureSnapshots = 0x80"

definition RepoUsesSnapshots :: "BackupSuperBlock \<Rightarrow> bool" where
  "RepoUsesSnapshots b \<longleftrightarrow> backup_features (ext b) AND kBackupFeatureSnapshots \<noteq> 0"

record SnapshotIndexHeader =
  sx_magic :: u32
  sx_version :: u32
  sx_entry_count :: u64
  sx_header_crc32 :: u32

record SnapshotIndexRecord =
  sr_txn_id :: u64
  sr_created_at_unix :: "64 word"
  sr_manifest_crc32 :: u32
  sr_merkle_root :: bytes
  sr_file_count :: u32
  sr_manifest_rel_path :: bytes

record SnapshotEntry =
  sn_txn_id :: u64
  created_at_unix :: "64 word"
  sn_manifest_crc32 :: u32
  sn_merkle_root :: bytes
  sn_file_count :: u32
  manifest_rel_path :: string

definition snap_header_bytes :: "SnapshotIndexHeader \<Rightarrow> bytes" where
  "snap_header_bytes h = put_u32 (sx_magic h) @ put_u32 (sx_version h) @ put_u64 (sx_entry_count h) @ put_u32 (sx_header_crc32 h)"

definition snap_header_of :: "bytes \<Rightarrow> SnapshotIndexHeader" where
  "snap_header_of bs = \<lparr>sx_magic = get_u32 (slice_at 0 4 bs), sx_version = get_u32 (slice_at 4 4 bs),
     sx_entry_count = get_u64 (slice_at 8 8 bs), sx_header_crc32 = get_u32 (slice_at 16 4 bs)\<rparr>"

definition snap_record_bytes :: "SnapshotIndexRecord \<Rightarrow> bytes" where
  "snap_record_bytes r = put_u64 (sr_txn_id r) @ put_u64 (sr_created_at_unix r) @ put_u32 (sr_manifest_crc32 r) @
     sr_merkle_root r @ put_u32 (sr_file_count r) @ sr_manifest_rel_path r"

definition snap_record_of :: "bytes \<Rightarrow> SnapshotIndexRecord" where
  "snap_record_of bs = \<lparr>sr_txn_id = get_u64 (slice_at 0 8 bs), sr_created_at_unix = get_u64 (slice_at 8 8 bs),
     sr_manifest_crc32 = get_u32 (slice_at 16 4 bs), sr_merkle_root = slice_at 20 32 bs,
     sr_file_count = get_u32 (slice_at 52 4 bs), sr_manifest_rel_path = slice_at 56 64 bs\<rparr>"

definition snap_record_wf :: "SnapshotIndexRecord \<Rightarrow> bool" where
  "snap_record_wf r \<longleftrightarrow> length (sr_merkle_root r) = 32 \<and> length (sr_manifest_rel_path r) = 64"

interpretation snap_header_layout: packed_struct snap_header_bytes snap_header_of 20 "\<lambda>_. True"
  by unfold_locales (simp_all add: snap_header_bytes_def snap_header_of_def record_codec)

interpretation snap_record_layout: packed_struct snap_record_bytes snap_record_of 120 snap_record_wf
  by unfold_locales (simp_all add: snap_record_wf_def snap_record_bytes_def snap_record_of_def record_codec)

definition SnapHeaderCrc :: "SnapshotIndexHeader \<Rightarrow> u32" where
  "SnapHeaderCrc h = Crc32 (snap_header_bytes (h\<lparr>sx_header_crc32 := 0\<rparr>))"

definition SetRecordPath :: "string \<Rightarrow> bytes" where
  "SetRecordPath path =
     (let n = min (length path) (kSnapshotPathWidth - 1) in string_bytes (take n path) @ zeros (kSnapshotPathWidth - n))"

definition FromRecord :: "SnapshotIndexRecord \<Rightarrow> SnapshotEntry" where
  "FromRecord r = \<lparr>sn_txn_id = sr_txn_id r, created_at_unix = sr_created_at_unix r, sn_manifest_crc32 = sr_manifest_crc32 r,
     sn_merkle_root = sr_merkle_root r, sn_file_count = sr_file_count r,
     manifest_rel_path = bytes_chars (takeWhile (\<lambda>b. b \<noteq> 0) (sr_manifest_rel_path r))\<rparr>"

definition ToRecord :: "SnapshotEntry \<Rightarrow> SnapshotIndexRecord" where
  "ToRecord e = \<lparr>sr_txn_id = sn_txn_id e, sr_created_at_unix = created_at_unix e, sr_manifest_crc32 = sn_manifest_crc32 e,
     sr_merkle_root = sn_merkle_root e, sr_file_count = sn_file_count e, sr_manifest_rel_path = SetRecordPath (manifest_rel_path e)\<rparr>"

section \<open>The snapshot store (store/snapshot_store.cc)\<close>

definition SnapshotsDir :: "string \<Rightarrow> string" where
  "SnapshotsDir repo = path_join repo ''snapshots''"

definition SnapshotIndexPath :: "string \<Rightarrow> string" where
  "SnapshotIndexPath repo = path_join (SnapshotsDir repo) ''index''"

definition SnapshotManifestRelPath :: "u64 \<Rightarrow> string" where
  "SnapshotManifestRelPath txn = ''snapshots/'' @ pad_zeros 20 (dec_string (unat txn)) @ ''.manifest''"

definition SnapshotManifestPath :: "string \<Rightarrow> u64 \<Rightarrow> string" where
  "SnapshotManifestPath repo txn = path_join repo (SnapshotManifestRelPath txn)"

text \<open>What the file operations answer; a failing write or copy leaves a part of the temporary file.\<close>

record snap_io =
  sn_read_ok :: bool
  sn_open_ok :: bool
  sn_torn :: "nat option"
  sn_fsync_temp :: Status
  sn_rename_ok :: bool
  sn_fsync_final :: Status
  copy_torn :: "nat option"
  copy_fsync_temp :: Status
  copy_rename_ok :: bool
  copy_fsync_final :: Status
  sn_remove_ok :: bool

text \<open>The index in the order of its transactions.\<close>

definition LoadSnapshotIndex :: "snap_io \<Rightarrow> string \<Rightarrow> files \<Rightarrow> Status + SnapshotEntry list" where
  "LoadSnapshotIndex io repo fs =
     (case fs (SnapshotIndexPath repo) of
        None \<Rightarrow> Inr []
      | Some bs \<Rightarrow>
          if \<not> sn_read_ok io then Inl (IoError (''cannot open snapshot index: '' @ SnapshotIndexPath repo))
          else if length bs < 20 then Inl (Corrupt ''snapshot index header short'')
          else
            let hdr = snap_header_of (take 20 bs) in
            if sx_magic hdr \<noteq> kSnapshotIndexMagic \<or> sx_version hdr \<noteq> kSnapshotIndexVersion
            then Inl (Corrupt ''snapshot index bad magic/version'')
            else if SnapHeaderCrc hdr \<noteq> sx_header_crc32 hdr then Inl (Corrupt ''snapshot index header crc mismatch'')
            else case read_records 120 snap_record_of (unat (sx_entry_count hdr)) (drop 20 bs) of
              None \<Rightarrow> Inl (Corrupt ''snapshot index entry short'')
            | Some (rs, _) \<Rightarrow> Inr (sort_key sn_txn_id (map FromRecord rs)))"

definition snap_index_image :: "SnapshotEntry list \<Rightarrow> bytes" where
  "snap_index_image es =
     (let hdr = \<lparr>sx_magic = kSnapshotIndexMagic, sx_version = kSnapshotIndexVersion,
                 sx_entry_count = word_of_nat (length es), sx_header_crc32 = 0\<rparr>
      in snap_header_bytes (hdr\<lparr>sx_header_crc32 := SnapHeaderCrc hdr\<rparr>) @ concat (map (snap_record_bytes \<circ> ToRecord) es))"

definition SaveSnapshotIndex :: "snap_io \<Rightarrow> string \<Rightarrow> SnapshotEntry list \<Rightarrow> files \<Rightarrow> Status \<times> files" where
  "SaveSnapshotIndex io repo es fs =
     (let path = SnapshotIndexPath repo; temp = path @ ''.new''; img = snap_index_image es in
      if \<not> sn_open_ok io then (IoError (''cannot write snapshot index: '' @ temp), fs)
      else case sn_torn io of
             Some k \<Rightarrow> (IoError ''snapshot index write failed'', fs(temp := Some (take k img)))
           | None \<Rightarrow>
               if \<not> status_ok (sn_fsync_temp io) then (sn_fsync_temp io, fs(temp := Some img))
               else if \<not> sn_rename_ok io then (IoError ''snapshot index rename failed'', fs(temp := Some img))
               else (sn_fsync_final io, fs(temp := None, path := Some img)))"

text \<open>The error number of a failing copy is left out of its message.\<close>

definition ArchiveSnapshot ::
  "snap_io \<Rightarrow> string \<Rightarrow> u64 \<Rightarrow> string \<Rightarrow> 64 word \<Rightarrow> u32 \<Rightarrow> bytes \<Rightarrow> u32 \<Rightarrow> files \<Rightarrow> Status \<times> files" where
  "ArchiveSnapshot io repo txn committed created crc mroot count fs =
     (let dest = SnapshotManifestPath repo txn; temp = dest @ ''.new'' in
      case (case fs committed of None \<Rightarrow> Inl fs
            | Some m \<Rightarrow> (case copy_torn io of Some k \<Rightarrow> Inl (fs(temp := Some (take k m))) | None \<Rightarrow> Inr m)) of
        Inl fs1 \<Rightarrow> (IoError ''snapshot manifest copy failed: '', fs1)
      | Inr m \<Rightarrow>
          if \<not> status_ok (copy_fsync_temp io) then (copy_fsync_temp io, fs(temp := Some m))
          else if \<not> copy_rename_ok io then (IoError ''snapshot manifest rename failed'', fs(temp := Some m))
          else
            let fs1 = fs(temp := None, dest := Some m) in
            if \<not> status_ok (copy_fsync_final io) then (copy_fsync_final io, fs1)
            else case LoadSnapshotIndex io repo fs1 of
              Inl e \<Rightarrow> (e, fs1)
            | Inr es \<Rightarrow>
                let entry = \<lparr>sn_txn_id = txn, created_at_unix = created, sn_manifest_crc32 = crc, sn_merkle_root = mroot,
                             sn_file_count = count, manifest_rel_path = SnapshotManifestRelPath txn\<rparr>
                in SaveSnapshotIndex io repo (sort_key sn_txn_id (filter (\<lambda>e. sn_txn_id e \<noteq> txn) es @ [entry])) fs1)"

definition LoadSnapshotManifest ::
  "(string \<Rightarrow> bytes \<Rightarrow> (Status + ManifestDocument) option) \<Rightarrow> string \<Rightarrow> u64 \<Rightarrow> files \<Rightarrow> (Status + ManifestDocument) option" where
  "LoadSnapshotManifest text repo txn fs =
     (let path = SnapshotManifestPath repo txn in
      if fs path = None then Some (Inl (NotFound ''snapshot manifest not found for txn''))
      else ReadManifestAuto text path (fs path))"

text \<open>The manifest is removed before the index is saved, and removing it may fail silently.\<close>

definition DeleteSnapshot :: "snap_io \<Rightarrow> string \<Rightarrow> u64 \<Rightarrow> files \<Rightarrow> Status \<times> files" where
  "DeleteSnapshot io repo txn fs =
     (case LoadSnapshotIndex io repo fs of
        Inl e \<Rightarrow> (e, fs)
      | Inr es \<Rightarrow>
          (case find (\<lambda>e. sn_txn_id e = txn) es of
             None \<Rightarrow> (NotFound ''snapshot not in index'', fs)
           | Some it \<Rightarrow>
               SaveSnapshotIndex io repo (remove1 it es)
                 (if sn_remove_ok io then fs(path_join repo (manifest_rel_path it) := None) else fs)))"

section \<open>Metadata of snapshots (catalog/snapshot_meta.cc)\<close>

record SnapshotMetaRecord =
  sm_txn_id :: u64
  sm_job_id :: string
  retention_tag :: u32
  immutable_until_unix :: "64 word"

definition signed_string :: "64 word \<Rightarrow> string" where
  "signed_string w = int_string (sint w)"

definition RecordToJsonLine :: "SnapshotMetaRecord \<Rightarrow> string" where
  "RecordToJsonLine r =
     ''{'' @ json_needle ''txn_id'' @ dec_string (unat (sm_txn_id r)) @ '','' @ json_needle ''job_id'' @
     CHR 0x22 # sm_job_id r @ CHR 0x22 # '','' @ json_needle ''retention_tag'' @ dec_string (unat (retention_tag r)) @
     '','' @ json_needle ''immutable_until_unix'' @ signed_string (immutable_until_unix r) @ ''}''"

text \<open>
  Where the 64-bit reader finds no key, neither does the \<open>int\<close> reader the code tries after it, which looks
  for the same text.
\<close>

definition ParseRecordLine :: "string \<Rightarrow> Status + SnapshotMetaRecord" where
  "ParseRecordLine line =
     (case ParseU64Field line ''txn_id'' of
        None \<Rightarrow> Inl (Corrupt ''snapshot meta missing txn_id'')
      | Some txn \<Rightarrow>
          Inr \<lparr>sm_txn_id = txn,
               sm_job_id = (case ReadJsonStringField line ''job_id'' of Inl _ \<Rightarrow> [] | Inr s \<Rightarrow> s),
               retention_tag = (case ParseU64Field line ''retention_tag'' of None \<Rightarrow> 0 | Some t \<Rightarrow> ucast t),
               immutable_until_unix = (case ParseU64Field line ''immutable_until_unix'' of None \<Rightarrow> 0 | Some u \<Rightarrow> u)\<rparr>)"

definition SnapshotMetaPath :: "string \<Rightarrow> string" where
  "SnapshotMetaPath repo = path_join repo ''catalog/snapshot_meta.jsonl''"

record meta_io =
  sm_open_ok :: bool
  sm_torn :: "nat option"
  sm_read_ok :: bool

definition AppendSnapshotMeta :: "meta_io \<Rightarrow> string \<Rightarrow> SnapshotMetaRecord \<Rightarrow> files \<Rightarrow> Status \<times> files" where
  "AppendSnapshotMeta io repo rec fs =
     (let path = SnapshotMetaPath repo; old = (case fs path of None \<Rightarrow> [] | Some b \<Rightarrow> b);
          line = string_bytes (RecordToJsonLine rec @ [CHR 0x0A])
      in if \<not> sm_open_ok io then (IoError ''cannot append snapshot meta'', fs)
         else case sm_torn io of
                Some k \<Rightarrow> (IoError ''snapshot meta append failed'', fs(path := Some (old @ take k line)))
              | None \<Rightarrow> (Status_Ok, fs(path := Some (old @ line))))"

fun parse_meta_lines :: "string list \<Rightarrow> Status + SnapshotMetaRecord list" where
  "parse_meta_lines [] = Inr []"
| "parse_meta_lines (l # ls) =
     (if l = [] then parse_meta_lines ls
      else case ParseRecordLine l of
        Inl e \<Rightarrow> Inl e
      | Inr r \<Rightarrow> map_sum id (Cons r) (parse_meta_lines ls))"

definition LoadSnapshotMeta :: "meta_io \<Rightarrow> string \<Rightarrow> files \<Rightarrow> Status + SnapshotMetaRecord list" where
  "LoadSnapshotMeta io repo fs =
     (case fs (SnapshotMetaPath repo) of
        None \<Rightarrow> Inr []
      | Some bs \<Rightarrow>
          if \<not> sm_read_ok io then Inl (IoError ''cannot read snapshot meta'')
          else parse_meta_lines (text_lines [] (bytes_chars bs)))"

text \<open>The map of the rows, a later row replacing an earlier one; empty when loading fails.\<close>

definition LoadSnapshotMetaMap :: "meta_io \<Rightarrow> string \<Rightarrow> files \<Rightarrow> Status \<times> (u64 \<rightharpoonup> SnapshotMetaRecord)" where
  "LoadSnapshotMetaMap io repo fs =
     (case LoadSnapshotMeta io repo fs of
        Inl e \<Rightarrow> (e, Map.empty)
      | Inr rows \<Rightarrow> (Status_Ok, map_of (rev (map (\<lambda>r. (sm_txn_id r, r)) rows))))"

definition FindSnapshotMeta :: "meta_io \<Rightarrow> string \<Rightarrow> u64 \<Rightarrow> files \<Rightarrow> Status + SnapshotMetaRecord" where
  "FindSnapshotMeta io repo txn fs =
     (case LoadSnapshotMetaMap io repo fs of
        (st, m) \<Rightarrow>
          if \<not> status_ok st then Inl st
          else case m txn of None \<Rightarrow> Inl (NotFound ''snapshot meta not found'') | Some r \<Rightarrow> Inr r)"

section \<open>The retention policy (store/retention_policy.cc)\<close>

record RetentionTier =
  bucket_seconds :: int
  keep_count :: int

record RetentionPolicy =
  tiers :: "RetentionTier list"
  retain_min :: int

record PruneReport =
  kept_count :: u64
  pruned_count :: u64
  pruned_txn_ids :: "u64 list"

definition DefaultRetentionPolicy :: RetentionPolicy where
  "DefaultRetentionPolicy = \<lparr>tiers =
     [\<lparr>bucket_seconds = 3600, keep_count = 24\<rparr>, \<lparr>bucket_seconds = 86400, keep_count = 7\<rparr>,
      \<lparr>bucket_seconds = 604800, keep_count = 4\<rparr>, \<lparr>bucket_seconds = 2592000, keep_count = 6\<rparr>], retain_min = 3\<rparr>"

text \<open>C++ division truncates, so the bucket around the epoch is twice as wide.\<close>

definition bucket_of :: "RetentionTier \<Rightarrow> SnapshotEntry \<Rightarrow> int" where
  "bucket_of t e = sint (created_at_unix e) sdiv bucket_seconds t"

text \<open>The best transaction of each bucket, in the order in which buckets appear.\<close>

definition bucket_insert :: "RetentionTier \<Rightarrow> SnapshotEntry \<Rightarrow> (int \<times> u64) list \<Rightarrow> (int \<times> u64) list" where
  "bucket_insert t e best =
     (case map_of best (bucket_of t e) of
        None \<Rightarrow> AList.update (bucket_of t e) (sn_txn_id e) best
      | Some v \<Rightarrow> if sn_txn_id e > v then AList.update (bucket_of t e) (sn_txn_id e) best else best)"

definition tier_keep :: "SnapshotEntry list \<Rightarrow> RetentionTier \<Rightarrow> u64 set" where
  "tier_keep es t =
     (if bucket_seconds t \<le> 0 \<or> keep_count t \<le> 0 then {}
      else let best = fold (bucket_insert t) es [];
               buckets = rev (sort (map fst best))
           in set (map (\<lambda>b. the (map_of best b)) (take (nat (keep_count t)) buckets)))"

definition min_keep :: "SnapshotEntry list \<Rightarrow> int \<Rightarrow> u64 set" where
  "min_keep es n =
     (if n > 0 then let by_txn = sort (map sn_txn_id es) in set (drop (length by_txn - min (nat n) (length by_txn)) by_txn) else {})"

definition ComputeKeepSet :: "SnapshotEntry list \<Rightarrow> RetentionPolicy \<Rightarrow> u64 set" where
  "ComputeKeepSet es policy =
     (if es = [] then {}
      else insert (sn_txn_id (last es)) (\<Union> (set (map (tier_keep es) (tiers policy))) \<union> min_keep es (retain_min policy)))"

definition IsKeptByPolicy :: "SnapshotEntry list \<Rightarrow> RetentionPolicy \<Rightarrow> u64 \<Rightarrow> bool" where
  "IsKeptByPolicy es policy txn \<longleftrightarrow> txn \<in> ComputeKeepSet es policy"

text \<open>
  The loop that deletes: the report grows before a deletion is tried, and an error ends it. Deletion number
  \<open>n\<close> gets the answers \<open>ios n\<close> of the file system, so each may fail in its own way.
\<close>

fun prune_loop ::
  "(nat \<Rightarrow> snap_io) \<Rightarrow> nat \<Rightarrow> string \<Rightarrow> bool \<Rightarrow> u64 set \<Rightarrow> SnapshotEntry list \<Rightarrow> PruneReport \<Rightarrow> files \<Rightarrow>
     Status \<times> PruneReport \<times> files" where
  "prune_loop ios n repo dry_run keep [] report fs = (Status_Ok, report, fs)"
| "prune_loop ios n repo dry_run keep (e # es) report fs =
     (if sn_txn_id e \<in> keep then prune_loop ios n repo dry_run keep es report fs
      else
        let report1 = report\<lparr>pruned_txn_ids := pruned_txn_ids report @ [sn_txn_id e], pruned_count := pruned_count report + 1\<rparr> in
        if dry_run then prune_loop ios n repo dry_run keep es report1 fs
        else case DeleteSnapshot (ios n) repo (sn_txn_id e) fs of
          (st, fs1) \<Rightarrow> if \<not> status_ok st then (st, report1, fs1) else prune_loop ios (Suc n) repo dry_run keep es report1 fs1)"

text \<open>
  Pruning, given the current time and whether the caller is authorised; \<open>ios 0\<close> answers the reading of the
  index, \<open>ios 1\<close> and so on the deletions. An error of the metadata is ignored.
\<close>

definition PruneSnapshots ::
  "(nat \<Rightarrow> snap_io) \<Rightarrow> meta_io \<Rightarrow> string \<Rightarrow> 64 word \<Rightarrow> RetentionPolicy \<Rightarrow> bool \<Rightarrow> bool \<Rightarrow> files \<Rightarrow>
     Status \<times> PruneReport \<times> files" where
  "PruneSnapshots ios mio repo now policy dry_run authorized fs =
     (let report = \<lparr>kept_count = 0, pruned_count = 0, pruned_txn_ids = []\<rparr>;
          sb_path = path_join repo ''superblock.bin''
      in case Load sb_path (fs sb_path) of
        Inl e \<Rightarrow> (e, report, fs)
      | Inr b \<Rightarrow>
          if RepoUsesImmutable b \<and> \<not> dry_run \<and> \<not> authorized
          then (Conflict ''immutable repo: audit authorization required'', report, fs)
          else case LoadSnapshotIndex (ios 0) repo fs of
            Inl e \<Rightarrow> (e, report, fs)
          | Inr es \<Rightarrow>
              if es = [] then (Status_Ok, report, fs)
              else
                let meta = snd (LoadSnapshotMetaMap mio repo fs);
                    keep = ComputeKeepSet es policy \<union>
                      {t. case meta t of None \<Rightarrow> False | Some m \<Rightarrow> sint (immutable_until_unix m) > sint now}
                in case prune_loop ios 1 repo dry_run keep es report fs of
                     (st, report1, fs1) \<Rightarrow>
                       if \<not> status_ok st then (st, report1, fs1)
                       else (Status_Ok, report1\<lparr>kept_count := word_of_nat (length es - length (pruned_txn_ids report1))\<rparr>, fs1))"

section \<open>Paths\<close>

lemma SnapshotManifestRelPath_inj: "SnapshotManifestRelPath a = SnapshotManifestRelPath b \<Longrightarrow> a = b"
proof -
  assume "SnapshotManifestRelPath a = SnapshotManifestRelPath b"
  then have "digits_value 10 (pad_zeros 20 (dec_string (unat a))) = digits_value 10 (pad_zeros 20 (dec_string (unat b)))"
    by (simp add: SnapshotManifestRelPath_def)
  then have "unat a = unat b" by (simp add: pad_zeros_def digits_value_zeros dec_value)
  then show "a = b" by (rule unsigned_word_eqI)
qed

lemma SnapshotManifestPath_inj: "SnapshotManifestPath repo a = SnapshotManifestPath repo b \<longleftrightarrow> a = b"
  using SnapshotManifestRelPath_inj path_join_inj unfolding SnapshotManifestPath_def by blast

text \<open>Paths of a repository end differently: a manifest, the index, and the temporary files of both.\<close>

lemma path_join_last: "name \<noteq> [] \<Longrightarrow> last (path_join dir name) = last name"
  by (simp add: path_join_def)

lemma snapshot_path_last:
  "last (SnapshotManifestPath repo t) = CHR ''t''" "last (SnapshotIndexPath repo) = CHR ''x''"
  by (simp_all add: SnapshotManifestPath_def SnapshotIndexPath_def SnapshotManifestRelPath_def path_join_last)

lemma snapshot_paths_distinct:
  "SnapshotManifestPath repo t \<noteq> SnapshotIndexPath repo"
  "SnapshotManifestPath repo t \<noteq> SnapshotIndexPath repo @ ''.new''"
  "SnapshotManifestPath repo t \<noteq> SnapshotManifestPath repo u @ ''.new''"
  "SnapshotIndexPath repo \<noteq> SnapshotManifestPath repo t @ ''.new''"
  "SnapshotIndexPath repo \<noteq> SnapshotIndexPath repo @ ''.new''"
  using snapshot_path_last(1) [of repo t] snapshot_path_last(2) [of repo] by (auto dest: arg_cong [of _ _ last])

lemma length_RelPath: "length (SnapshotManifestRelPath t) \<le> 63"
proof -
  have "unat t < 2 ^ 64" using unsigned_less [of t, where ?'a = nat] by simp
  then have "unat t < 10 ^ 20" by simp
  then have "length (dec_string (unat t)) \<le> 20" unfolding dec_string_def by (intro length_digits_of) simp_all
  then show ?thesis by (simp add: SnapshotManifestRelPath_def pad_zeros_def)
qed

lemma RelPath_no_zero: "CHR 0x00 \<notin> set (SnapshotManifestRelPath t)"
proof
  assume "CHR 0x00 \<in> set (SnapshotManifestRelPath t)"
  then have "is_digit (CHR 0x00)"
    by (auto simp: SnapshotManifestRelPath_def pad_zeros_def dest: dec_string_digits split: if_splits)
  then show False by (simp add: is_digit_def)
qed

section \<open>The index round-trips\<close>

text \<open>The entries the store archives, and the lists of them an index holds.\<close>

definition snap_entry_ok :: "SnapshotEntry \<Rightarrow> bool" where
  "snap_entry_ok e \<longleftrightarrow> length (sn_merkle_root e) = 32 \<and> manifest_rel_path e = SnapshotManifestRelPath (sn_txn_id e)"

definition snapshots_ok :: "SnapshotEntry list \<Rightarrow> bool" where
  "snapshots_ok es \<longleftrightarrow> sorted (map sn_txn_id es) \<and> distinct (map sn_txn_id es) \<and> list_all snap_entry_ok es \<and> length es < 2 ^ 64"

lemma FromRecord_ToRecord:
  assumes "snap_entry_ok e"
  shows "FromRecord (ToRecord e) = e" and "snap_record_wf (ToRecord e)"
proof -
  let ?p = "SnapshotManifestRelPath (sn_txn_id e)"
  have p: "manifest_rel_path e = ?p" "length (sn_merkle_root e) = 32" using assms by (simp_all add: snap_entry_ok_def)
  have n: "min (length ?p) (kSnapshotPathWidth - 1) = length ?p"
    using length_RelPath [of "sn_txn_id e"] by (simp add: kSnapshotPathWidth_def)
  obtain k where k: "64 - length ?p = Suc k" using length_RelPath [of "sn_txn_id e"] by (cases "64 - length ?p") auto
  have s: "SetRecordPath ?p = string_bytes ?p @ zeros (Suc k)"
    unfolding SetRecordPath_def n Let_def by (simp add: kSnapshotPathWidth_def k)
  have "bytes_chars (takeWhile (\<lambda>b. b \<noteq> 0) (SetRecordPath ?p)) = ?p"
    unfolding s string_until_zero [OF RelPath_no_zero] by simp
  then show "FromRecord (ToRecord e) = e" using p(1) by (simp add: FromRecord_def ToRecord_def)
  have "length (SetRecordPath ?p) = 64"
    using length_RelPath [of "sn_txn_id e"] by (simp add: SetRecordPath_def Let_def kSnapshotPathWidth_def length_string_bytes)
  then show "snap_record_wf (ToRecord e)" using p by (simp add: snap_record_wf_def ToRecord_def)
qed

lemma snap_index_image_load:
  assumes "list_all snap_entry_ok es" and "length es < 2 ^ 64"
    and "fs (SnapshotIndexPath repo) = Some (snap_index_image es)" and "sn_read_ok io"
  shows "LoadSnapshotIndex io repo fs = Inr (sort_key sn_txn_id es)"
proof -
  define h where "h = \<lparr>sx_magic = kSnapshotIndexMagic, sx_version = kSnapshotIndexVersion,
     sx_entry_count = word_of_nat (length es), sx_header_crc32 = 0\<rparr>"
  define hdr where "hdr = h\<lparr>sx_header_crc32 := SnapHeaderCrc h\<rparr>"
  have img: "snap_index_image es = snap_header_bytes hdr @ concat (map snap_record_bytes (map ToRecord es)) @ []"
    by (simp add: snap_index_image_def hdr_def h_def Let_def comp_def)
  have l: "length (snap_header_bytes hdr) = 20" by (simp add: snap_header_layout.enc_length)
  have d: "snap_header_of (take 20 (snap_index_image es)) = hdr"
    unfolding img using l by (simp add: snap_header_layout.dec_enc)
  have r: "read_records 120 snap_record_of (length (map ToRecord es)) (concat (map snap_record_bytes (map ToRecord es)) @ []) =
      Some (map ToRecord es, [])"
    by (rule snap_record_layout.read_records_enc)
      (use assms(1) in \<open>auto simp: list_all_iff intro: FromRecord_ToRecord(2)\<close>)
  have dr: "drop 20 (snap_index_image es) = concat (map snap_record_bytes (map ToRecord es)) @ []"
    unfolding img using l by simp
  have n: "unat (sx_entry_count hdr) = length es" using assms(2) by (simp add: hdr_def h_def unat_of_nat)
  have b: "map FromRecord (map ToRecord es) = es"
    unfolding map_map using assms(1) by (intro map_idI) (auto simp: list_all_iff FromRecord_ToRecord(1))
  have c: "SnapHeaderCrc hdr = sx_header_crc32 hdr" "sx_magic hdr = kSnapshotIndexMagic" "sx_version hdr = kSnapshotIndexVersion"
    by (simp_all add: hdr_def h_def SnapHeaderCrc_def)
  have "\<not> length (snap_index_image es) < 20" unfolding img using l by simp
  then show ?thesis
    using assms(3,4) r b c n by (simp add: LoadSnapshotIndex_def d dr Let_def del: append_Nil2)
qed

section \<open>Archiving and deleting\<close>

lemma sort_key_ok: "snapshots_ok es \<Longrightarrow> sort_key sn_txn_id es = es"
  by (simp add: snapshots_ok_def sort_key_id_if_sorted)

lemma LoadSnapshotIndex_cong: "fs' (SnapshotIndexPath repo) = fs (SnapshotIndexPath repo) \<Longrightarrow>
    LoadSnapshotIndex io repo fs' = LoadSnapshotIndex io repo fs"
  by (simp add: LoadSnapshotIndex_def)

text \<open>
  A reader that can open the index sees what it holds; any other reading of it gives the same or an error. The
  lemmas below observe the index with such a reader, \<open>rio\<close>, while the operations get any answers.
\<close>

lemma LoadSnapshotIndex_any:
  assumes "sn_read_ok rio"
  shows "LoadSnapshotIndex io repo fs = LoadSnapshotIndex rio repo fs \<or>
    (\<exists>e. LoadSnapshotIndex io repo fs = Inl e \<and> \<not> status_ok e)"
  using assms by (cases "fs (SnapshotIndexPath repo)"; cases "sn_read_ok io") (simp_all add: LoadSnapshotIndex_def status_ok_def)

text \<open>Saving replaces the index or leaves it, and touches no manifest.\<close>

lemma SaveSnapshotIndex_effect:
  assumes "SaveSnapshotIndex io repo es fs = (st, fs')"
  shows "fs' (SnapshotManifestPath repo t) = fs (SnapshotManifestPath repo t)"
    and "fs' (SnapshotIndexPath repo) = fs (SnapshotIndexPath repo) \<and> \<not> status_ok st \<or>
      fs' (SnapshotIndexPath repo) = Some (snap_index_image es)"
  using assms snapshot_paths_distinct [of repo]
  by (auto simp: SaveSnapshotIndex_def Let_def split: if_splits option.splits)

lemma SaveSnapshotIndex_load:
  assumes "SaveSnapshotIndex io repo es fs = (st, fs')" and "snapshots_ok es" and "sn_read_ok rio"
  shows "LoadSnapshotIndex rio repo fs' = Inr es \<or>
    \<not> status_ok st \<and> LoadSnapshotIndex rio repo fs' = LoadSnapshotIndex rio repo fs"
  using SaveSnapshotIndex_effect(2) [OF assms(1)] snap_index_image_load [of es fs' repo rio]
    LoadSnapshotIndex_cong [of fs' repo fs] sort_key_ok [OF assms(2)] assms(2,3)
  by (auto simp: snapshots_ok_def)

lemma remove1_txn:
  assumes "snapshots_ok es" and "find (\<lambda>e. sn_txn_id e = t) es = Some it"
  shows "remove1 it es = filter (\<lambda>e. sn_txn_id e \<noteq> t) es" and "it \<in> set es" and "sn_txn_id it = t"
proof -
  show it: "it \<in> set es" "sn_txn_id it = t"
    using assms(2) by (auto simp: find_Some_iff)
  have d: "distinct (map sn_txn_id es)" using assms(1) by (simp add: snapshots_ok_def)
  then have "remove1 it es = filter (\<lambda>e. e \<noteq> it) es" by (simp add: distinct_map distinct_remove1_removeAll removeAll_filter_not_eq eq_commute)
  also have "\<dots> = filter (\<lambda>e. sn_txn_id e \<noteq> t) es"
    using d it by (intro filter_cong) (auto simp: distinct_map inj_on_def)
  finally show "remove1 it es = filter (\<lambda>e. sn_txn_id e \<noteq> t) es" .
qed

lemma snapshots_ok_filter: "snapshots_ok es \<Longrightarrow> snapshots_ok (filter P es)"
  using order.strict_trans1 [OF length_filter_le [of P es]]
  by (auto simp: snapshots_ok_def list_all_iff sorted_filter distinct_map_filter)

lemma DeleteSnapshot_effect:
  assumes "LoadSnapshotIndex rio repo fs = Inr es" and "snapshots_ok es" and "sn_read_ok rio"
    and "DeleteSnapshot io repo t fs = (st, fs')"
  shows "(\<forall>u. u \<noteq> t \<longrightarrow> fs' (SnapshotManifestPath repo u) = fs (SnapshotManifestPath repo u)) \<and>
    (LoadSnapshotIndex rio repo fs' = Inr (filter (\<lambda>e. sn_txn_id e \<noteq> t) es) \<or>
      \<not> status_ok st \<and> LoadSnapshotIndex rio repo fs' = Inr es)"
proof (cases "LoadSnapshotIndex io repo fs = Inr es")
  case False
  then obtain e where "LoadSnapshotIndex io repo fs = Inl e" "\<not> status_ok e"
    using LoadSnapshotIndex_any [OF assms(3), of io repo fs] assms(1) by auto
  then show ?thesis using assms(1,4) by (simp add: DeleteSnapshot_def)
next
  case ld: True
  show ?thesis
  proof (cases "find (\<lambda>e. sn_txn_id e = t) es")
    case None
    then show ?thesis using ld assms(1,4) by (auto simp: DeleteSnapshot_def)
  next
    case (Some it)
    define fs1 where "fs1 = (if sn_remove_ok io then fs(path_join repo (manifest_rel_path it) := None) else fs)"
    note r = remove1_txn [OF assms(2) Some]
    have sv: "SaveSnapshotIndex io repo (filter (\<lambda>e. sn_txn_id e \<noteq> t) es) fs1 = (st, fs')"
      using ld assms(4) Some by (simp add: DeleteSnapshot_def fs1_def r(1))
    have p: "path_join repo (manifest_rel_path it) = SnapshotManifestPath repo t"
      using r(2,3) assms(2) by (auto simp: snapshots_ok_def list_all_iff snap_entry_ok_def SnapshotManifestPath_def)
    have "LoadSnapshotIndex rio repo fs1 = Inr es"
      using assms(1) p snapshot_paths_distinct(1) [of repo t] LoadSnapshotIndex_cong [of fs1 repo fs] by (simp add: fs1_def)
    then show ?thesis
      using SaveSnapshotIndex_load [OF sv snapshots_ok_filter [OF assms(2)] assms(3)] SaveSnapshotIndex_effect(1) [OF sv] p
      by (auto simp: fs1_def SnapshotManifestPath_inj)
  qed
qed

lemma ArchiveSnapshot_effect:
  assumes "LoadSnapshotIndex rio repo fs = Inr es" and "snapshots_ok es" and "length es + 1 < 2 ^ 64" and "sn_read_ok rio"
    and "length mroot = 32" and "ArchiveSnapshot io repo txn committed created crc mroot count fs = (st, fs')" and "status_ok st"
  shows "\<exists>es' e. LoadSnapshotIndex rio repo fs' = Inr es' \<and> snapshots_ok es' \<and> sn_txn_id e = txn \<and>
      set es' = insert e {x \<in> set es. sn_txn_id x \<noteq> txn} \<and>
      fs' (SnapshotManifestPath repo txn) = fs committed \<and> fs committed \<noteq> None \<and>
      (\<forall>u. u \<noteq> txn \<longrightarrow> fs' (SnapshotManifestPath repo u) = fs (SnapshotManifestPath repo u))"
proof -
  let ?dest = "SnapshotManifestPath repo txn"
  let ?e = "\<lparr>sn_txn_id = txn, created_at_unix = created, sn_manifest_crc32 = crc, sn_merkle_root = mroot,
     sn_file_count = count, manifest_rel_path = SnapshotManifestRelPath txn\<rparr>"
  let ?es = "sort_key sn_txn_id (filter (\<lambda>e. sn_txn_id e \<noteq> txn) es @ [?e])"
  obtain m where m: "fs committed = Some m" "copy_torn io = None" "copy_rename_ok io"
    using assms(6,7) by (auto simp: ArchiveSnapshot_def Let_def split: option.splits if_splits)
  define fs1 where "fs1 = fs(?dest @ ''.new'' := None, ?dest := Some m)"
  have "fs1 (SnapshotIndexPath repo) = fs (SnapshotIndexPath repo)"
    using snapshot_paths_distinct [of repo] by (auto simp: fs1_def eq_commute [of "SnapshotIndexPath repo"])
  then have "LoadSnapshotIndex rio repo fs1 = Inr es"
    using assms(1) LoadSnapshotIndex_cong [of fs1 repo fs] by simp
  then have "LoadSnapshotIndex io repo fs1 = Inr es \<or> (\<exists>e. LoadSnapshotIndex io repo fs1 = Inl e \<and> \<not> status_ok e)"
    using LoadSnapshotIndex_any [OF assms(4), of io repo fs1] by simp
  then have sv: "SaveSnapshotIndex io repo ?es fs1 = (st, fs')"
    using assms(6,7) m by (auto simp: ArchiveSnapshot_def Let_def fs1_def split: if_splits)
  have f: "snapshots_ok (filter (\<lambda>e. sn_txn_id e \<noteq> txn) es)" by (rule snapshots_ok_filter [OF assms(2)])
  have "length (filter (\<lambda>e. sn_txn_id e \<noteq> txn) es) < 2 ^ 64 - 1"
    using order.strict_trans1 [OF length_filter_le [of "\<lambda>e. sn_txn_id e \<noteq> txn" es]] assms(3) by simp
  then have ok: "snapshots_ok ?es"
    using f assms(3,5) by (auto simp: snapshots_ok_def list_all_iff snap_entry_ok_def distinct_map inj_on_insert
        simp flip: set_map)
  have ld: "LoadSnapshotIndex rio repo fs' = Inr ?es" using SaveSnapshotIndex_load [OF sv ok assms(4)] assms(7) by blast
  have mf: "fs' (SnapshotManifestPath repo u) = (if u = txn then Some m else fs (SnapshotManifestPath repo u))" for u
    using SaveSnapshotIndex_effect(1) [OF sv] snapshot_paths_distinct(3) [of repo u txn]
    by (simp add: fs1_def SnapshotManifestPath_inj)
  show ?thesis
    by (intro exI [of _ ?es] exI [of _ ?e]) (use ld ok mf m(1) in auto)
qed

section \<open>What pruning keeps\<close>

lemma prune_loop_effect:
  assumes "LoadSnapshotIndex rio repo fs = Inr es0" and "snapshots_ok es0" and "sn_read_ok rio"
    and "prune_loop ios n repo dry_run keep es report fs = (st, report', fs')"
  shows "\<exists>es1. LoadSnapshotIndex rio repo fs' = Inr es1 \<and> snapshots_ok es1 \<and> set es1 \<subseteq> set es0 \<and>
    (\<forall>e \<in> set es0. sn_txn_id e \<in> keep \<longrightarrow> e \<in> set es1) \<and>
    (\<forall>u \<in> keep. fs' (SnapshotManifestPath repo u) = fs (SnapshotManifestPath repo u)) \<and>
    (dry_run \<longrightarrow> fs' = fs) \<and>
    (status_ok st \<and> \<not> dry_run \<longrightarrow> es1 = filter (\<lambda>e. sn_txn_id e \<in> keep \<or> sn_txn_id e \<notin> sn_txn_id ` set es) es0)"
  using assms
proof (induction es arbitrary: es0 fs report n)
  case (Cons e es)
  show ?case
  proof (cases "sn_txn_id e \<in> keep \<or> dry_run")
    case True
    then obtain report1 where "prune_loop ios n repo dry_run keep es report1 fs = (st, report', fs')"
      using Cons.prems(4) by (auto simp: Let_def split: if_splits)
    note IH = Cons.IH [OF Cons.prems(1-3) this]
    have "filter (\<lambda>x. sn_txn_id x \<in> keep \<or> sn_txn_id x \<notin> sn_txn_id ` set (e # es)) es0 =
        filter (\<lambda>x. sn_txn_id x \<in> keep \<or> sn_txn_id x \<notin> sn_txn_id ` set es) es0" if "sn_txn_id e \<in> keep"
      using that by (intro filter_cong) auto
    then show ?thesis using IH True by auto
  next
    case False
    obtain st1 fs1 where d: "DeleteSnapshot (ios n) repo (sn_txn_id e) fs = (st1, fs1)" by fastforce
    note del = DeleteSnapshot_effect [OF Cons.prems(1-3) d]
    have kp: "\<forall>u \<in> keep. fs1 (SnapshotManifestPath repo u) = fs (SnapshotManifestPath repo u)"
      and ke: "\<forall>x \<in> set es0. sn_txn_id x \<in> keep \<longrightarrow> x \<in> set (filter (\<lambda>x. sn_txn_id x \<noteq> sn_txn_id e) es0)"
      using del False by (metis, auto)
    show ?thesis
    proof (cases "status_ok st1")
      case True
      let ?es1 = "filter (\<lambda>x. sn_txn_id x \<noteq> sn_txn_id e) es0"
      obtain report1 where "prune_loop ios (Suc n) repo dry_run keep es report1 fs1 = (st, report', fs')"
        using Cons.prems(4) False d True by (auto simp: Let_def)
      moreover have l: "LoadSnapshotIndex rio repo fs1 = Inr ?es1" using del True by blast
      ultimately obtain es1 where r: "LoadSnapshotIndex rio repo fs' = Inr es1" "snapshots_ok es1" "set es1 \<subseteq> set ?es1"
          "\<forall>e \<in> set ?es1. sn_txn_id e \<in> keep \<longrightarrow> e \<in> set es1"
          "\<forall>u \<in> keep. fs' (SnapshotManifestPath repo u) = fs1 (SnapshotManifestPath repo u)"
          "status_ok st \<longrightarrow> es1 = filter (\<lambda>e. sn_txn_id e \<in> keep \<or> sn_txn_id e \<notin> sn_txn_id ` set es) ?es1"
        using Cons.IH [OF l snapshots_ok_filter [OF Cons.prems(2)] Cons.prems(3)] False by blast
      have "filter (\<lambda>x. sn_txn_id x \<in> keep \<or> sn_txn_id x \<notin> sn_txn_id ` set es) ?es1 =
          filter (\<lambda>x. sn_txn_id x \<in> keep \<or> sn_txn_id x \<notin> sn_txn_id ` set (e # es)) es0"
        unfolding filter_filter using False by (intro filter_cong) auto
      then show ?thesis using r kp ke False by (intro exI [of _ es1]) (auto simp del: filter_filter)
    next
      case f: False
      then have "fs' = fs1" "st = st1" using Cons.prems(4) False d by (auto simp: Let_def)
      moreover obtain es1 where "LoadSnapshotIndex rio repo fs1 = Inr es1" "es1 = es0 \<or> es1 = filter (\<lambda>x. sn_txn_id x \<noteq> sn_txn_id e) es0"
        using del by blast
      ultimately show ?thesis
        using kp ke False f snapshots_ok_filter [OF Cons.prems(2)] Cons.prems(2) by (intro exI [of _ es1]) auto
    qed
  qed
qed (auto intro!: exI [of _ es0])

text \<open>
  The snapshots under a lock that has not run out, given the rows of the metadata file: the last row of a
  transaction counts. The second definition is what pruning uses, which has no locks when the rows do not load.
\<close>

definition locked :: "SnapshotMetaRecord list \<Rightarrow> 64 word \<Rightarrow> u64 \<Rightarrow> bool" where
  "locked rows now t \<longleftrightarrow>
     (case find (\<lambda>r. sm_txn_id r = t) (rev rows) of None \<Rightarrow> False | Some r \<Rightarrow> sint now < sint (immutable_until_unix r))"

definition honoured_locks :: "meta_io \<Rightarrow> string \<Rightarrow> files \<Rightarrow> 64 word \<Rightarrow> u64 set" where
  "honoured_locks mio repo fs now =
     {t. case snd (LoadSnapshotMetaMap mio repo fs) t of None \<Rightarrow> False | Some m \<Rightarrow> sint (immutable_until_unix m) > sint now}"

lemma map_of_rows: "map_of (map (\<lambda>r. (sm_txn_id r, r)) rs) t = find (\<lambda>r. sm_txn_id r = t) rs"
  by (induction rs) auto

lemma honoured_locks_rows: "LoadSnapshotMeta mio repo fs = Inr rows \<Longrightarrow> t \<in> honoured_locks mio repo fs now \<longleftrightarrow> locked rows now t"
  by (simp add: honoured_locks_def LoadSnapshotMetaMap_def locked_def rev_map map_of_rows)

lemma Load_error: "Load path file = Inl e \<Longrightarrow> \<not> status_ok e"
  by (auto simp: Load_def status_ok_def split: option.splits sum.splits if_splits)

lemma PruneSnapshots_effect:
  assumes "LoadSnapshotIndex rio repo fs = Inr es" and "snapshots_ok es" and "sn_read_ok rio"
    and "PruneSnapshots ios mio repo now policy dry_run authorized fs = (st, report, fs')"
  shows "\<exists>es'. LoadSnapshotIndex rio repo fs' = Inr es' \<and> snapshots_ok es' \<and> set es' \<subseteq> set es \<and>
    (\<forall>e \<in> set es. sn_txn_id e \<in> ComputeKeepSet es policy \<union> honoured_locks mio repo fs now \<longrightarrow>
       e \<in> set es' \<and> fs' (SnapshotManifestPath repo (sn_txn_id e)) = fs (SnapshotManifestPath repo (sn_txn_id e))) \<and>
    (status_ok st \<and> \<not> dry_run \<longrightarrow>
       es' = filter (\<lambda>e. sn_txn_id e \<in> ComputeKeepSet es policy \<union> honoured_locks mio repo fs now) es)"
proof -
  let ?keep = "ComputeKeepSet es policy \<union> honoured_locks mio repo fs now"
  let ?r = "\<lparr>kept_count = 0, pruned_count = 0, pruned_txn_ids = []\<rparr>"
  consider "fs' = fs" "es = [] \<or> \<not> status_ok st"
    | st1 report1 where "prune_loop ios 1 repo dry_run ?keep es ?r fs = (st1, report1, fs')" "status_ok st \<longleftrightarrow> status_ok st1"
    using assms(1,4) LoadSnapshotIndex_any [OF assms(3), of "ios 0" repo fs]
    by (auto simp: PruneSnapshots_def Let_def honoured_locks_def dest: Load_error split: sum.splits if_splits prod.splits)
  then show ?thesis
  proof cases
    case 1
    then show ?thesis using assms(1,2) by (intro exI [of _ es]) auto
  next
    case 2
    have "filter (\<lambda>e. sn_txn_id e \<in> ?keep \<or> sn_txn_id e \<notin> sn_txn_id ` set es) es = filter (\<lambda>e. sn_txn_id e \<in> ?keep) es"
      by (intro filter_cong) auto
    then show ?thesis using prune_loop_effect [OF assms(1-3) 2(1)] 2(2) by auto
  qed
qed

section \<open>The policy, declaratively\<close>

text \<open>The last \<open>n\<close> of a sorted list are the elements with fewer than \<open>n\<close> greater ones.\<close>

lemma last_n_sorted:
  fixes xs :: "'a::linorder list"
  shows "x \<in> set (drop (length xs - min n (length xs)) (sort xs)) \<longleftrightarrow> x \<in> set xs \<and> length (filter (\<lambda>y. x < y) xs) < n"
proof -
  define ys where "ys = sort xs"
  define as bs where "as = take (length xs - min n (length xs)) ys" and "bs = drop (length xs - min n (length xs)) ys"
  have ys: "ys = as @ bs" "length bs = min n (length xs)" "length ys = length xs" by (simp_all add: as_def bs_def ys_def)
  have st: "set ys = set xs" by (simp add: ys_def)
  have "sorted (as @ bs)" using ys(1) by (simp add: ys_def flip: ys(1))
  then have le: "\<forall>a \<in> set as. \<forall>b \<in> set bs. a \<le> b" by (simp add: sorted_append)
  have f: "length (filter (\<lambda>y. x < y) xs) = length (filter (\<lambda>y. x < y) ys)" by (simp add: ys_def filter_sort)
  show ?thesis
  proof (cases "x \<in> set bs")
    case True
    then have "filter (\<lambda>y. x < y) as = []" using le by (fastforce simp: filter_empty_conv)
    moreover have "length (filter (\<lambda>y. x < y) bs) < length bs" using True by (intro length_filter_less) auto
    ultimately have "length (filter (\<lambda>y. x < y) ys) < n" using ys by simp
    moreover have "x \<in> set xs" using True ys(1) st by auto
    ultimately show ?thesis using True f by (simp add: bs_def ys_def)
  next
    case False
    have "\<not> length (filter (\<lambda>y. x < y) ys) < n" if "x \<in> set xs"
    proof -
      have "x \<in> set as" using that False ys(1) st by auto
      then have "\<forall>b \<in> set bs. x < b" using le False by (auto simp: order.strict_iff_order)
      then have "filter (\<lambda>y. x < y) bs = bs" by (simp add: filter_id_conv)
      moreover have "n \<le> length xs" using \<open>x \<in> set as\<close> by (rule contrapos_pp) (simp add: as_def)
      then have "length bs = n" using ys(2) by simp
      ultimately show ?thesis using ys(1) by simp
    qed
    then show ?thesis using False f by (auto simp: bs_def ys_def)
  qed
qed

text \<open>The map of a tier: the keys are the buckets that occur, each with the greatest transaction in it.\<close>

definition tier_best :: "RetentionTier \<Rightarrow> SnapshotEntry list \<Rightarrow> (int \<times> u64) list" where
  "tier_best t es = fold (bucket_insert t) es []"

text \<open>What is invariant of the map when the entries \<open>es\<close> have been seen.\<close>

definition best_ok :: "RetentionTier \<Rightarrow> SnapshotEntry list \<Rightarrow> (int \<times> u64) list \<Rightarrow> bool" where
  "best_ok t es best \<longleftrightarrow> distinct (map fst best) \<and> fst ` set best = bucket_of t ` set es \<and>
     (\<forall>b v. map_of best b = Some v \<longrightarrow>
        (\<exists>e \<in> set es. bucket_of t e = b \<and> sn_txn_id e = v) \<and> (\<forall>e \<in> set es. bucket_of t e = b \<longrightarrow> sn_txn_id e \<le> v))"

lemma best_ok_update:
  assumes ok: "best_ok t es best"
    and new: "\<And>v. map_of best (bucket_of t e) = Some v \<Longrightarrow> v < sn_txn_id e"
  shows "best_ok t (es @ [e]) (AList.update (bucket_of t e) (sn_txn_id e) best)"
  unfolding best_ok_def
proof (intro conjI allI impI)
  show "distinct (map fst (AList.update (bucket_of t e) (sn_txn_id e) best))"
    using ok by (intro distinct_update) (simp add: best_ok_def)
  show "fst ` set (AList.update (bucket_of t e) (sn_txn_id e) best) = bucket_of t ` set (es @ [e])"
    using ok by (simp add: dom_update best_ok_def)
  fix b v assume m: "map_of (AList.update (bucket_of t e) (sn_txn_id e) best) b = Some v"
  show "\<exists>x \<in> set (es @ [e]). bucket_of t x = b \<and> sn_txn_id x = v"
    using m ok by (auto simp: update_conv best_ok_def split: if_splits)
  have "sn_txn_id x \<le> v" if x: "x \<in> set es" "bucket_of t x = b" for x
  proof (cases "b = bucket_of t e")
    case True
    have "b \<in> bucket_of t ` set es" using x by auto
    then have "b \<in> fst ` set best" using ok by (simp add: best_ok_def)
    then obtain w where "map_of best b = Some w" by (metis map_of_eq_None_iff option.exhaust)
    then have "sn_txn_id x \<le> w" "w < sn_txn_id e" using ok x new True by (auto simp: best_ok_def)
    then show ?thesis using m True by (simp add: update_conv)
  qed (use m ok x in \<open>auto simp: update_conv best_ok_def\<close>)
  then show "\<forall>x \<in> set (es @ [e]). bucket_of t x = b \<longrightarrow> sn_txn_id x \<le> v"
    using m by (auto simp: update_conv)
qed

lemma best_okD:
  assumes "best_ok t es best" and "map_of best b = Some v"
  shows "\<exists>e \<in> set es. bucket_of t e = b \<and> sn_txn_id e = v"
    and "\<forall>e \<in> set es. bucket_of t e = b \<longrightarrow> sn_txn_id e \<le> v"
  using assms unfolding best_ok_def by blast+

lemma best_ok_tier_best: "best_ok t es (tier_best t es)"
proof (induction es rule: rev_induct)
  case (snoc e es)
  have s: "tier_best t (es @ [e]) = bucket_insert t e (tier_best t es)" by (simp add: tier_best_def)
  show ?case
  proof (cases "\<exists>v. map_of (tier_best t es) (bucket_of t e) = Some v \<and> \<not> v < sn_txn_id e")
    case True
    then obtain v where v: "map_of (tier_best t es) (bucket_of t e) = Some v" "sn_txn_id e \<le> v" by fastforce
    then have "bucket_of t e \<in> bucket_of t ` set es"
      using snoc map_of_SomeD [OF v(1)] unfolding best_ok_def by force
    moreover have "bucket_insert t e (tier_best t es) = tier_best t es" using v by (auto simp: bucket_insert_def)
    ultimately show ?thesis
      using snoc v unfolding s by (auto simp: best_ok_def insert_absorb simp del: map_of_eq_Some_iff)
  next
    case False
    then show ?thesis
      using best_ok_update [OF snoc, of e] unfolding s by (auto simp: bucket_insert_def split: option.split)
  qed
qed (simp add: tier_best_def best_ok_def)

text \<open>An entry is the best of its bucket; the number of newer buckets in use.\<close>

definition best_of_bucket :: "RetentionTier \<Rightarrow> SnapshotEntry list \<Rightarrow> SnapshotEntry \<Rightarrow> bool" where
  "best_of_bucket t es e \<longleftrightarrow> (\<forall>x \<in> set es. bucket_of t x = bucket_of t e \<longrightarrow> sn_txn_id x \<le> sn_txn_id e)"

definition newer_buckets :: "RetentionTier \<Rightarrow> SnapshotEntry list \<Rightarrow> SnapshotEntry \<Rightarrow> nat" where
  "newer_buckets t es e = card {b \<in> bucket_of t ` set es. bucket_of t e < b}"

lemma tier_keep_iff:
  "u \<in> tier_keep es t \<longleftrightarrow> 0 < bucket_seconds t \<and>
     (\<exists>e \<in> set es. sn_txn_id e = u \<and> best_of_bucket t es e \<and> int (newer_buckets t es e) < keep_count t)"
proof (cases "bucket_seconds t \<le> 0 \<or> keep_count t \<le> 0")
  case False
  let ?best = "tier_best t es" and ?n = "nat (keep_count t)"
  note ok = best_ok_tier_best [of t es]
  define ks where "ks = map fst ?best"
  have ks: "distinct ks" "set ks = bucket_of t ` set es" using ok by (simp_all add: ks_def best_ok_def)
  have "take ?n (rev (sort ks)) = rev (drop (length ks - min ?n (length ks)) (sort ks))"
    by (simp add: take_rev min_def)
  then have tk: "b \<in> set (take ?n (rev (sort ks))) \<longleftrightarrow> b \<in> set ks \<and> length (filter (\<lambda>y. b < y) ks) < ?n" for b
    using last_n_sorted [of b ks ?n] by simp
  have card: "length (filter (\<lambda>y. b < y) ks) = card {y \<in> bucket_of t ` set es. b < y}" for b
    using ks distinct_card [of "filter (\<lambda>y. b < y) ks"] by (simp flip: ks(2))
  have best: "map_of ?best (bucket_of t e) = Some (sn_txn_id e) \<longleftrightarrow> best_of_bucket t es e" if "e \<in> set es" for e
  proof -
    have "bucket_of t e \<in> fst ` set ?best" using that ok by (simp add: best_ok_def)
    then obtain v where v: "map_of ?best (bucket_of t e) = Some v" by (metis map_of_eq_None_iff option.exhaust)
    note m = best_okD [OF ok v]
    obtain x where "x \<in> set es" "bucket_of t x = bucket_of t e" "sn_txn_id x = v" using m(1) by blast
    then have "best_of_bucket t es e \<Longrightarrow> v \<le> sn_txn_id e" by (auto simp: best_of_bucket_def)
    moreover have "sn_txn_id e \<le> v" using m(2) that by blast
    ultimately have "best_of_bucket t es e \<Longrightarrow> v = sn_txn_id e" by (simp add: order.antisym)
    moreover have "v = sn_txn_id e \<Longrightarrow> best_of_bucket t es e" using m(2) by (simp add: best_of_bucket_def)
    ultimately show ?thesis using v by auto
  qed
  have "u \<in> tier_keep es t \<longleftrightarrow> (\<exists>b \<in> set (take ?n (rev (sort ks))). the (map_of ?best b) = u)"
    using False by (auto simp: tier_keep_def Let_def ks_def tier_best_def)
  also have "\<dots> \<longleftrightarrow> (\<exists>b \<in> bucket_of t ` set es. card {y \<in> bucket_of t ` set es. b < y} < ?n \<and> map_of ?best b = Some u)"
  proof -
    have some: "\<exists>v. map_of ?best b = Some v" if "b \<in> bucket_of t ` set es" for b
      using that ks(2) map_of_eq_None_iff [of ?best b] by (cases "map_of ?best b") (auto simp: ks_def)
    have "(\<exists>b \<in> set (take ?n (rev (sort ks))). the (map_of ?best b) = u) \<longleftrightarrow>
        (\<exists>b. (b \<in> bucket_of t ` set es \<and> card {y \<in> bucket_of t ` set es. b < y} < ?n) \<and> the (map_of ?best b) = u)"
      unfolding Bex_def tk card ks(2) by (rule refl)
    moreover have "the (map_of ?best b) = u \<longleftrightarrow> map_of ?best b = Some u" if "b \<in> bucket_of t ` set es" for b
      using some [OF that] by (elim exE) simp
    ultimately show ?thesis by (simp add: Bex_def conj_assoc cong: conj_cong)
  qed
  also have "\<dots> \<longleftrightarrow> (\<exists>e \<in> set es. sn_txn_id e = u \<and> best_of_bucket t es e \<and> newer_buckets t es e < ?n)"
    (is "?l \<longleftrightarrow> ?r")
  proof
    assume ?l
    then obtain b where b: "map_of ?best b = Some u" "card {y \<in> bucket_of t ` set es. b < y} < ?n" by blast
    then obtain e where "e \<in> set es" "bucket_of t e = b" "sn_txn_id e = u" using best_okD(1) [OF ok] by blast
    then show ?r using b best [of e] by (auto simp: newer_buckets_def)
  next
    assume ?r
    then show ?l using best by (auto simp: newer_buckets_def)
  qed
  finally show ?thesis using False by (simp add: zless_nat_eq_int_zless)
qed (auto simp: tier_keep_def)

text \<open>
  C24. What the retention policy keeps: the last snapshot; every snapshot with fewer than \<open>retain_min\<close> newer
  ones; and for each tier with sensible numbers, the newest snapshot of each of its \<open>keep_count\<close> latest
  buckets that hold a snapshot at all. Nothing else.
\<close>

theorem retention_policy_spec:
  "u \<in> ComputeKeepSet es policy \<longleftrightarrow> es \<noteq> [] \<and>
     (u = sn_txn_id (last es) \<or>
      u \<in> sn_txn_id ` set es \<and> int (length (filter (\<lambda>e. u < sn_txn_id e) es)) < retain_min policy \<or>
      (\<exists>t \<in> set (tiers policy). 0 < bucket_seconds t \<and>
         (\<exists>e \<in> set es. sn_txn_id e = u \<and> best_of_bucket t es e \<and> int (newer_buckets t es e) < keep_count t)))"
proof -
  have "u \<in> min_keep es n \<longleftrightarrow> u \<in> sn_txn_id ` set es \<and> int (length (filter (\<lambda>e. u < sn_txn_id e) es)) < n" for n
    using last_n_sorted [of u "map sn_txn_id es" "nat n"] by (auto simp: min_keep_def Let_def filter_map comp_def)
  then show ?thesis by (auto simp: ComputeKeepSet_def tier_keep_iff)
qed

text \<open>
  C11. Pruning is safe. Take a repository whose index reads as the list of entries the store makes (sorted,
  without duplicates, each with its own manifest path) and whose snapshot metadata loads. Pruning may fail in any
  way, and at any deletion after others have succeeded: opening, writing, syncing or renaming the index, removing a
  manifest, or reading the index again. After it the index is readable, lists no snapshot it did not list before,
  and still lists every snapshot that the policy keeps and every snapshot whose last metadata row has a lock that has
  not run out; their manifests are untouched. If it succeeds and is no dry run, the index lists exactly those. The
  metadata must load: otherwise pruning ignores all locks (\<open>damaged_meta_unlocks\<close>).
\<close>

theorem prune_keeps_protected:
  assumes "LoadSnapshotIndex rio repo fs = Inr es" and "snapshots_ok es" and "sn_read_ok rio"
    and "LoadSnapshotMeta mio repo fs = Inr rows"
    and "PruneSnapshots ios mio repo now policy dry_run authorized fs = (st, report, fs')"
  shows "\<exists>es'. LoadSnapshotIndex rio repo fs' = Inr es' \<and> set es' \<subseteq> set es \<and>
    (\<forall>e \<in> set es. IsKeptByPolicy es policy (sn_txn_id e) \<or> locked rows now (sn_txn_id e) \<longrightarrow>
       e \<in> set es' \<and> fs' (SnapshotManifestPath repo (sn_txn_id e)) = fs (SnapshotManifestPath repo (sn_txn_id e))) \<and>
    (status_ok st \<and> \<not> dry_run \<longrightarrow>
       es' = filter (\<lambda>e. IsKeptByPolicy es policy (sn_txn_id e) \<or> locked rows now (sn_txn_id e)) es)"
  using PruneSnapshots_effect [OF assms(1-3,5)] unfolding Un_iff honoured_locks_rows [OF assms(4)] IsKeptByPolicy_def
  by blast

text \<open>
  Locks disappear with a damaged line: if the metadata file cannot be loaded, for one line without a
  transaction id is enough, pruning goes on as if no snapshot had ever been locked.
\<close>

lemma unreadable_meta: "LoadSnapshotMeta mio repo fs = Inl e \<Longrightarrow> honoured_locks mio repo fs now = {}"
  by (simp add: honoured_locks_def LoadSnapshotMetaMap_def)

theorem damaged_meta_unlocks:
  assumes "LoadSnapshotIndex rio repo fs = Inr es" and "snapshots_ok es" and "sn_read_ok rio"
    and "LoadSnapshotMeta mio repo fs = Inl e"
    and "PruneSnapshots ios mio repo now policy False authorized fs = (st, report, fs')" and "status_ok st"
  shows "LoadSnapshotIndex rio repo fs' = Inr (filter (\<lambda>e. IsKeptByPolicy es policy (sn_txn_id e)) es)"
  using PruneSnapshots_effect [OF assms(1-3,5)] assms(6) unreadable_meta [OF assms(4)] by (simp add: IsKeptByPolicy_def)

section \<open>A repository with three snapshots\<close>

definition sample_snapshot :: "u64 \<Rightarrow> SnapshotEntry" where
  "sample_snapshot t = \<lparr>sn_txn_id = t, created_at_unix = 7200 * t, sn_manifest_crc32 = 0, sn_merkle_root = zeros 32,
     sn_file_count = 1, manifest_rel_path = SnapshotManifestRelPath t\<rparr>"

definition sample_snapshots :: "SnapshotEntry list" where
  "sample_snapshots = map sample_snapshot [1, 2, 3]"

definition snapshot_files :: "string \<Rightarrow> files" where
  "snapshot_files meta = [SnapshotIndexPath ''r'' \<mapsto> snap_index_image sample_snapshots,
     SnapshotMetaPath ''r'' \<mapsto> string_bytes meta]"

definition calm_snap :: snap_io where
  "calm_snap = \<lparr>sn_read_ok = True, sn_open_ok = True, sn_torn = None, sn_fsync_temp = Status_Ok, sn_rename_ok = True,
     sn_fsync_final = Status_Ok, copy_torn = None, copy_fsync_temp = Status_Ok, copy_rename_ok = True,
     copy_fsync_final = Status_Ok, sn_remove_ok = True\<rparr>"

definition calm_meta :: meta_io where
  "calm_meta = \<lparr>sm_open_ok = True, sm_torn = None, sm_read_ok = True\<rparr>"

definition keep_one :: RetentionPolicy where
  "keep_one = \<lparr>tiers = [], retain_min = 1\<rparr>"

lemma sample_snapshots_ok: "snapshots_ok sample_snapshots"
  by (simp add: snapshots_ok_def sample_snapshots_def snap_entry_ok_def sample_snapshot_def)

lemma sample_index: "LoadSnapshotIndex calm_snap ''r'' (snapshot_files meta) = Inr sample_snapshots"
proof -
  have "snapshot_files meta (SnapshotIndexPath ''r'') = Some (snap_index_image sample_snapshots)"
    by (simp add: snapshot_files_def SnapshotIndexPath_def SnapshotsDir_def SnapshotMetaPath_def path_join_def)
  moreover have "sn_read_ok calm_snap" by (simp add: calm_snap_def)
  moreover note sample_snapshots_ok
  ultimately show ?thesis
    using snap_index_image_load [of sample_snapshots "snapshot_files meta" "''r''" calm_snap] sort_key_ok
    by (simp add: snapshots_ok_def)
qed

lemma sample_meta: "snapshot_files meta (SnapshotMetaPath ''r'') = Some (string_bytes meta)"
  by (simp add: snapshot_files_def)

lemma keep_one_sample: "IsKeptByPolicy sample_snapshots keep_one t \<longleftrightarrow> t = 3"
  by (auto simp: IsKeptByPolicy_def ComputeKeepSet_def keep_one_def min_keep_def sample_snapshots_def sample_snapshot_def)

lemma Delete_calm:
  assumes "LoadSnapshotIndex calm_snap repo fs = Inr es" and "snapshots_ok es" and "t \<in> sn_txn_id ` set es"
  shows "status_ok (fst (DeleteSnapshot calm_snap repo t fs))"
proof -
  obtain it where "find (\<lambda>e. sn_txn_id e = t) es = Some it"
    using assms(3) by (cases "find (\<lambda>e. sn_txn_id e = t) es") (auto simp: find_None_iff)
  then show ?thesis using assms(1) by (simp add: DeleteSnapshot_def SaveSnapshotIndex_def Let_def calm_snap_def)
qed

lemma prune_loop_calm:
  assumes "LoadSnapshotIndex calm_snap repo fs = Inr es0" and "snapshots_ok es0"
    and "sn_txn_id ` set es \<subseteq> sn_txn_id ` set es0" and "distinct (map sn_txn_id es)"
  shows "status_ok (fst (prune_loop (\<lambda>_. calm_snap) n repo False keep es report fs))"
  using assms
proof (induction es arbitrary: es0 fs report n)
  case (Cons e es)
  obtain st fs1 where d: "DeleteSnapshot calm_snap repo (sn_txn_id e) fs = (st, fs1)" by fastforce
  have ok: "status_ok st" using Delete_calm [OF Cons.prems(1,2), of "sn_txn_id e"] Cons.prems(3) d by simp
  have r: "sn_read_ok calm_snap" by (simp add: calm_snap_def)
  let ?es1 = "filter (\<lambda>x. sn_txn_id x \<noteq> sn_txn_id e) es0"
  have l: "LoadSnapshotIndex calm_snap repo fs1 = Inr ?es1"
    using DeleteSnapshot_effect [OF Cons.prems(1,2) r d] ok by blast
  have "sn_txn_id ` set ?es1 = sn_txn_id ` set es0 - {sn_txn_id e}" by auto
  moreover have "sn_txn_id e \<notin> sn_txn_id ` set es" "sn_txn_id ` set es \<subseteq> sn_txn_id ` set es0" using Cons.prems(3,4) by simp_all
  ultimately have sub: "sn_txn_id ` set es \<subseteq> sn_txn_id ` set ?es1" by (simp only: subset_Diff_insert Diff_empty simp_thms)
  show ?case
  proof (cases "sn_txn_id e \<in> keep")
    case True
    then show ?thesis using Cons.IH [OF Cons.prems(1,2)] Cons.prems(3,4) by simp
  next
    case False
    then show ?thesis using Cons.IH [OF l snapshots_ok_filter [OF Cons.prems(2)] sub] Cons.prems(4) d ok by (simp add: Let_def)
  qed
qed simp

lemma sample_prune: "\<exists>report fs'. PruneSnapshots (\<lambda>_. calm_snap) calm_meta ''r'' 100 keep_one False False (snapshot_files meta) =
    (Status_Ok, report, fs')"
proof -
  have d: "snapshot_files meta (path_join ''r'' ''superblock.bin'') = None"
    by (simp add: snapshot_files_def SnapshotIndexPath_def SnapshotsDir_def SnapshotMetaPath_def path_join_def)
  have l: "Load (path_join ''r'' ''superblock.bin'') None = Inr default_superblock" by (simp add: Load_def)
  have im: "\<not> RepoUsesImmutable default_superblock"
    by (simp add: RepoUsesImmutable_def default_superblock_def default_extension_def)
  have ne: "sample_snapshots \<noteq> []" by (simp add: sample_snapshots_def)
  have "status_ok st" if "prune_loop (\<lambda>_. calm_snap) 1 ''r'' False keep sample_snapshots report (snapshot_files meta) = (st, x)" for keep report st x
    using prune_loop_calm [OF sample_index sample_snapshots_ok, of sample_snapshots 1 keep report meta] sample_snapshots_ok that
    by (simp add: snapshots_ok_def)
  then show ?thesis
    unfolding PruneSnapshots_def Let_def d l sample_index
    by (simp add: im ne) (auto split: prod.split)
qed

theorem damaged_meta_unlocks_witness:
  "\<exists>report fs'. PruneSnapshots (\<lambda>_. calm_snap) calm_meta ''r'' 100 keep_one False False (snapshot_files ''x'') = (Status_Ok, report, fs') \<and>
     LoadSnapshotIndex calm_snap ''r'' fs' = Inr [sample_snapshot 3]"
proof -
  obtain report fs' where p: "PruneSnapshots (\<lambda>_. calm_snap) calm_meta ''r'' 100 keep_one False False (snapshot_files ''x'') = (Status_Ok, report, fs')"
    using sample_prune by blast
  have "ParseU64Field ''x'' ''txn_id'' = None" by code_simp
  then have m: "LoadSnapshotMeta calm_meta ''r'' (snapshot_files ''x'') = Inl (Corrupt ''snapshot meta missing txn_id'')"
    by (simp add: LoadSnapshotMeta_def sample_meta calm_meta_def ParseRecordLine_def)
  have "LoadSnapshotIndex calm_snap ''r'' fs' = Inr (filter (\<lambda>e. IsKeptByPolicy sample_snapshots keep_one (sn_txn_id e)) sample_snapshots)"
    by (rule damaged_meta_unlocks [OF sample_index sample_snapshots_ok _ m p]) (simp_all add: calm_snap_def)
  then show ?thesis using p by (simp add: keep_one_sample) (simp add: sample_snapshots_def sample_snapshot_def)
qed



section \<open>Metadata comes back\<close>

text \<open>
  The records a line can hold. The writer does not escape the job's name, so a quote in it ends the value
  early, and what follows is taken for fields.
\<close>

definition meta_rec_ok :: "SnapshotMetaRecord \<Rightarrow> bool" where
  "meta_rec_ok r \<longleftrightarrow> CHR 0x22 \<notin> set (sm_job_id r) \<and> CHR 0x5C \<notin> set (sm_job_id r) \<and> CHR 0x0A \<notin> set (sm_job_id r)"

lemma signed_string_number: "signed_string w \<noteq> []" "list_all number_char (signed_string w)" "CHR 0x0A \<notin> set (signed_string w)"
proof -
  have d: "CHR 0x0A \<notin> set (dec_string n)" for n
    using dec_string_digits [of "CHR 0x0A" n] by (auto simp: is_digit_def)
  show "signed_string w \<noteq> []" "list_all number_char (signed_string w)" "CHR 0x0A \<notin> set (signed_string w)"
    using d by (auto simp: signed_string_def int_string_def dec_string_ne dec_string_number number_char_def)
qed

lemma strtoull_signed: "strtoull (signed_string w) = w"
proof (cases "sint w < 0")
  case False
  have "nat (sint w) < 2 ^ 64" using sint_lt [of w] by simp
  then show ?thesis using False by (simp add: signed_string_def int_string_def strtoull_dec)
next
  case True
  define n where "n = nat (- sint w)"
  have n: "n < 2 ^ 64" "int n = - sint w" using sint_ge [of w] True by (simp_all add: n_def)
  have t: "takeWhile is_digit (dec_string n) = dec_string n"
    unfolding takeWhile_eq_all_conv using dec_string_digits by blast
  have "- (word_of_nat n :: 64 word) = word_of_int (- int n)" by simp
  then have "- (word_of_nat n :: 64 word) = w" using n(2) by simp
  then show ?thesis
    using True n(1) t by (simp add: signed_string_def int_string_def strtoull_def Let_def dec_value flip: n_def del: takeWhile_eq_all_conv)
qed

lemma ParseRecordLine_write:
  assumes "meta_rec_ok r"
  shows "ParseRecordLine (RecordToJsonLine r) = Inr r"
proof -
  let ?q = "CHR 0x22" and ?t = "RecordToJsonLine r"
  let ?txn = "dec_string (unat (sm_txn_id r))" and ?tag = "dec_string (unat (retention_tag r))" and ?til = "signed_string (immutable_until_unix r)"
  define p1 where "p1 = ''{'' @ (?q # ''txn_id'' @ [?q, CHR '':'']) @ ?txn @ '',''"
  define p2 where "p2 = p1 @ (?q # ''job_id'' @ [?q, CHR '':'']) @ (?q # sm_job_id r @ [?q, CHR '',''])"
  define p3 where "p3 = p2 @ (?q # ''retention_tag'' @ [?q, CHR '':'']) @ ?tag @ '',''"
  have dq: "?q \<notin> set (dec_string n)" for n
    using dec_string_digits [of ?q n] by (auto simp: is_digit_def)
  have pl: "clear_of key ''{''" "clear_of key '',''" "clear_of key (dec_string n)" for key n
    by (rule clear_plain, simp add: dq)+
  have job: "?q \<notin> set (sm_job_id r)" "CHR 0x5C \<notin> set (sm_job_id r)" using assms by (simp_all add: meta_rec_ok_def)
  have c1: "clear_of key p1" if "key \<in> {''job_id'', ''retention_tag'', ''immutable_until_unix''}" for key
    unfolding p1_def by (intro clear_append pl clear_quoted) (use that in auto)
  have c2: "clear_of key p2" if "key \<in> {''retention_tag'', ''immutable_until_unix''}" for key
    unfolding p2_def by (intro clear_append c1 clear_quoted job) (use that in auto)
  have c3: "clear_of ''immutable_until_unix'' p3"
    unfolding p3_def by (intro clear_append pl c2 clear_quoted) simp_all
  define r3 where "r3 = json_needle ''immutable_until_unix'' @ [] @ ?til @ CHR ''}'' # []"
  define r2 where "r2 = json_needle ''retention_tag'' @ [] @ ?tag @ CHR '','' # r3"
  define r1 where "r1 = json_needle ''job_id'' @ [] @ ?q # sm_job_id r @ ?q # CHR '','' # r2"
  have t0: "?t = ''{'' @ json_needle ''txn_id'' @ [] @ ?txn @ CHR '','' # r1"
    and t1: "?t = p1 @ json_needle ''job_id'' @ [] @ ?q # sm_job_id r @ ?q # CHR '','' # r2"
    and t2: "?t = p2 @ json_needle ''retention_tag'' @ [] @ ?tag @ CHR '','' # r3"
    and t3: "?t = p3 @ json_needle ''immutable_until_unix'' @ [] @ ?til @ CHR ''}'' # []"
    by (simp_all add: RecordToJsonLine_def p1_def p2_def p3_def r1_def r2_def r3_def json_needle_def)
  have nc: "\<not> number_char (CHR '','')" "\<not> number_char (CHR ''}'')" by (simp_all add: number_char_def is_digit_def)
  note num = dec_string_ne dec_string_number
  have s0: "ParseU64Field ?t ''txn_id'' = Some (sm_txn_id r)"
    using parse_u64_field [OF pl(1) _ num nc(1) t0] unsigned_less [of "sm_txn_id r", where ?'a = nat] by (simp add: strtoull_dec)
  have s1: "ReadJsonStringField ?t ''job_id'' = Inr (sm_job_id r)"
    by (rule read_string_field [OF c1 _ _ _ job t1]) (simp_all add: p1_def)
  have "unat (retention_tag r) < 2 ^ 64" using unsigned_less [of "retention_tag r", where ?'a = nat] by simp
  then have s2: "ParseU64Field ?t ''retention_tag'' = Some (word_of_nat (unat (retention_tag r)))"
    using parse_u64_field [OF c2 _ num nc(1) t2] by (simp add: strtoull_dec)
  have s3: "ParseU64Field ?t ''immutable_until_unix'' = Some (immutable_until_unix r)"
    using parse_u64_field [OF c3 _ signed_string_number(1,2) nc(2) t3] by (simp add: strtoull_signed)
  have "(ucast (word_of_nat (unat (retention_tag r)) :: u64) :: u32) = retention_tag r"
    unfolding of_nat_unat by (rule bit_word_eqI) (simp add: bit_ucast_iff)
  then show ?thesis by (simp only: ParseRecordLine_def s0 s1 s2 s3 option.case sum.case) (cases r, simp)
qed

lemma RecordToJsonLine_one_line: "meta_rec_ok r \<Longrightarrow> CHR 0x0A \<notin> set (RecordToJsonLine r) \<and> RecordToJsonLine r \<noteq> []"
proof -
  assume "meta_rec_ok r"
  moreover have "CHR 0x0A \<notin> set (dec_string n)" for n
    using dec_string_digits [of "CHR 0x0A" n] by (auto simp: is_digit_def)
  ultimately show ?thesis
    by (simp add: RecordToJsonLine_def json_needle_def meta_rec_ok_def signed_string_number(3))
qed

lemma parse_meta_lines_append: "parse_meta_lines (xs @ ys) =
    (case parse_meta_lines xs of Inl e \<Rightarrow> Inl e | Inr rs \<Rightarrow> map_sum id (\<lambda>ss. rs @ ss) (parse_meta_lines ys))"
  by (cases "parse_meta_lines ys"; induction xs) (auto split: sum.splits)

lemma text_lines_append: "s = [] \<or> last s = CHR 0x0A \<Longrightarrow> text_lines [] (s @ t) = text_lines [] s @ text_lines [] t"
  using text_lines_newline [of "[]" "butlast s" t] append_butlast_last_id [of s] by (cases "s = []") (simp, metis append.assoc append_Cons append_Nil)

lemma last_bytes_chars: "b \<noteq> [] \<Longrightarrow> last b = 0x0A \<Longrightarrow> last (bytes_chars b) = CHR 0x0A"
  by (simp add: bytes_chars_def last_map char_of_def bit_iff_odd)

lemma AppendSnapshotMeta_load:
  assumes "LoadSnapshotMeta io repo fs = Inr rows" and "meta_rec_ok r" and "sm_read_ok io"
    and "case fs (SnapshotMetaPath repo) of None \<Rightarrow> True | Some b \<Rightarrow> b = [] \<or> last b = 0x0A"
    and "AppendSnapshotMeta io repo r fs = (st, fs')" and "status_ok st"
  shows "LoadSnapshotMeta io repo fs' = Inr (rows @ [r])"
proof -
  let ?old = "case fs (SnapshotMetaPath repo) of None \<Rightarrow> [] | Some b \<Rightarrow> b"
  let ?line = "RecordToJsonLine r @ [CHR 0x0A]"
  have rows: "parse_meta_lines (text_lines [] (bytes_chars ?old)) = Inr rows"
    using assms(1,3) by (auto simp: LoadSnapshotMeta_def bytes_chars_def split: option.splits)
  have f: "fs' (SnapshotMetaPath repo) = Some (?old @ string_bytes ?line)"
    using assms(5,6) by (auto simp: AppendSnapshotMeta_def Let_def split: if_splits option.splits)
  have c: "bytes_chars (?old @ string_bytes ?line) = bytes_chars ?old @ ?line"
    using bytes_chars_string [of ?line] by (simp add: bytes_chars_def)
  have "bytes_chars ?old = [] \<or> last (bytes_chars ?old) = CHR 0x0A"
    using assms(4) last_bytes_chars [of ?old] by (cases "?old = []") (auto simp: bytes_chars_def split: option.splits)
  then have l: "text_lines [] (bytes_chars ?old @ ?line) = text_lines [] (bytes_chars ?old) @ [RecordToJsonLine r]"
    using text_lines_no_newline [of "RecordToJsonLine r" "[]"] RecordToJsonLine_one_line [OF assms(2)]
    by (simp add: text_lines_append)
  have "parse_meta_lines [RecordToJsonLine r] = Inr [r]"
    using RecordToJsonLine_one_line [OF assms(2)] by (simp add: ParseRecordLine_write [OF assms(2)])
  then show ?thesis
    using assms(3) rows by (simp add: LoadSnapshotMeta_def f c l parse_meta_lines_append)
qed

text \<open>What was appended last for a transaction is what is found.\<close>

lemma AppendSnapshotMeta_find:
  assumes "LoadSnapshotMeta io repo fs = Inr rows" and "meta_rec_ok r" and "sm_read_ok io"
    and "case fs (SnapshotMetaPath repo) of None \<Rightarrow> True | Some b \<Rightarrow> b = [] \<or> last b = 0x0A"
    and "AppendSnapshotMeta io repo r fs = (st, fs')" and "status_ok st"
  shows "FindSnapshotMeta io repo (sm_txn_id r) fs' = Inr r"
  by (simp add: FindSnapshotMeta_def LoadSnapshotMetaMap_def AppendSnapshotMeta_load [OF assms])

text \<open>Transaction 1 is locked until far in the future.\<close>

definition sample_lock :: SnapshotMetaRecord where
  "sample_lock = \<lparr>sm_txn_id = 1, sm_job_id = ''j'', retention_tag = 0, immutable_until_unix = 1000\<rparr>"

lemma sample_lock_holds:
  "LoadSnapshotMeta calm_meta ''r'' (snapshot_files (RecordToJsonLine sample_lock @ [CHR 0x0A])) = Inr [sample_lock]"
proof -
  have ok: "meta_rec_ok sample_lock" by (simp add: meta_rec_ok_def sample_lock_def)
  show ?thesis
    using text_lines_no_newline [of "RecordToJsonLine sample_lock" "[]"] RecordToJsonLine_one_line [OF ok] ParseRecordLine_write [OF ok]
    by (simp add: LoadSnapshotMeta_def sample_meta calm_meta_def del: bytes_chars_def)
qed

theorem prune_keeps_protected_witness:
  "\<exists>report fs'. PruneSnapshots (\<lambda>_. calm_snap) calm_meta ''r'' 100 keep_one False False
       (snapshot_files (RecordToJsonLine sample_lock @ [CHR 0x0A])) = (Status_Ok, report, fs') \<and>
     LoadSnapshotIndex calm_snap ''r'' fs' = Inr [sample_snapshot 1, sample_snapshot 3]"
proof -
  let ?fs = "snapshot_files (RecordToJsonLine sample_lock @ [CHR 0x0A])"
  obtain report fs' where p: "PruneSnapshots (\<lambda>_. calm_snap) calm_meta ''r'' 100 keep_one False False ?fs = (Status_Ok, report, fs')"
    using sample_prune by blast
  have k: "locked [sample_lock] 100 t \<longleftrightarrow> t = 1" for t
    unfolding locked_def by (simp add: sample_lock_def)
  have r: "sn_read_ok calm_snap" by (simp add: calm_snap_def)
  have "LoadSnapshotIndex calm_snap ''r'' fs' =
      Inr (filter (\<lambda>e. IsKeptByPolicy sample_snapshots keep_one (sn_txn_id e) \<or> locked [sample_lock] 100 (sn_txn_id e)) sample_snapshots)"
    using prune_keeps_protected [OF sample_index sample_snapshots_ok r sample_lock_holds p] by auto
  then show ?thesis using p unfolding k keep_one_sample by (simp add: sample_snapshots_def sample_snapshot_def)
qed


section \<open>From the writer of a manifest to a pruned repository\<close>

lemma newest_is_last:
  assumes "snapshots_ok es" and "e \<in> set es" and "\<forall>x \<in> set es. sn_txn_id x \<le> sn_txn_id e"
  shows "sn_txn_id (last es) = sn_txn_id e"
proof -
  obtain ys l where es: "es = ys @ [l]" using assms(2) by (cases es rule: rev_cases) auto
  have "sn_txn_id e \<le> sn_txn_id l" using assms(1,2) by (auto simp: es snapshots_ok_def sorted_append)
  moreover have "sn_txn_id l \<le> sn_txn_id e" using assms(3) by (simp add: es)
  ultimately show ?thesis by (simp add: es order.antisym)
qed

text \<open>
  C10. A new snapshot survives. Take a repository whose index reads as the list of entries the store makes and
  has room for one more, and a document that a binary manifest can hold (\<open>manifest_fits\<close>: counts and lengths
  below \<open>2 ^ 32\<close>, chunk hashes of 64 hex digits, anchors with 32 bytes of hash). If its manifest is written and archived successfully under a transaction newer than every archived
  one, and the repository is then pruned under any policy, with any failure at any of the deletions, the index is
  readable and lists the transaction, and its manifest loads as the document the format keeps of the one that was
  written (\<open>stored\<close>), which is that document itself if it has nothing to lose.
\<close>

theorem archived_snapshot_survives:
  assumes "LoadSnapshotIndex rio repo fs = Inr es" and "snapshots_ok es" and "length es + 1 < 2 ^ 64"
    and "sn_read_ok rio" and "length mroot = 32" and "\<forall>x \<in> set es. sn_txn_id x < txn"
    and "manifest_fits doc" and "WriteManifestBinary wio committed doc old = (Status_Ok, fs committed)"
    and "ArchiveSnapshot io repo txn committed created crc mroot count fs = (st1, fs1)" and "status_ok st1"
    and "PruneSnapshots ios mio repo now policy dry_run authorized fs1 = (st2, report, fs2)"
  shows "LoadSnapshotManifest text repo txn fs2 = Some (Inr (stored doc)) \<and>
    (list_all lossless (doc_files doc) \<longrightarrow> stored doc = doc) \<and>
    (\<exists>es2. LoadSnapshotIndex rio repo fs2 = Inr es2 \<and> txn \<in> sn_txn_id ` set es2)"
proof -
  obtain es1 e where a: "LoadSnapshotIndex rio repo fs1 = Inr es1" "snapshots_ok es1" "sn_txn_id e = txn"
      "set es1 = insert e {x \<in> set es. sn_txn_id x \<noteq> txn}" "fs1 (SnapshotManifestPath repo txn) = fs committed" "fs committed \<noteq> None"
    using ArchiveSnapshot_effect [OF assms(1-5,9,10)] by auto
  have "sn_txn_id (last es1) = txn"
    using newest_is_last [OF a(2), of e] a(3,4) assms(6) by (simp add: less_imp_le)
  moreover have "es1 \<noteq> []" using a(4) by auto
  ultimately have k: "sn_txn_id e \<in> ComputeKeepSet es1 policy" using a(3) by (simp add: ComputeKeepSet_def)
  obtain es2 where p: "LoadSnapshotIndex rio repo fs2 = Inr es2" "e \<in> set es2"
      "fs2 (SnapshotManifestPath repo txn) = fs1 (SnapshotManifestPath repo txn)"
    using PruneSnapshots_effect [OF a(1,2) assms(4,11)] k a(3,4) by auto
  have "ReadManifestAuto text (SnapshotManifestPath repo txn) (fs committed) = Some (Inr (stored doc))"
    using assms(7,8) by (intro manifest_written_loads) auto
  then show ?thesis using p a(3,5,6) stored_lossless by (auto simp: LoadSnapshotManifest_def Let_def)
qed

theorem archived_snapshot_survives_witness:
  "let doc = \<lparr>doc_txn_id = 1, doc_files = [plain_entry]\<rparr>;
       fs = [''m'' \<mapsto> manifest_image ''EBMANIFEST4'' (BuildBodyV4 doc)];
       fs1 = snd (ArchiveSnapshot calm_snap ''r'' 1 ''m'' 0 0 (zeros 32) 1 fs);
       fs2 = snd (snd (PruneSnapshots (\<lambda>_. calm_snap) calm_meta ''r'' 100 keep_one False False fs1))
   in LoadSnapshotManifest (\<lambda>_ _. None) ''r'' 1 fs2 = Some (Inr doc)"
proof -
  let ?doc = "\<lparr>doc_txn_id = 1, doc_files = [plain_entry]\<rparr>"
  let ?fs = "[''m'' \<mapsto> manifest_image ''EBMANIFEST4'' (BuildBodyV4 ?doc)]"
  obtain st1 fs1 where a: "ArchiveSnapshot calm_snap ''r'' 1 ''m'' 0 0 (zeros 32) 1 ?fs = (st1, fs1)" by fastforce
  obtain st2 report fs2 where p: "PruneSnapshots (\<lambda>_. calm_snap) calm_meta ''r'' 100 keep_one False False fs1 = (st2, report, fs2)"
    by (metis prod.exhaust)
  have nx: "last (SnapshotIndexPath ''r'') = CHR ''x''" by (rule snapshot_path_last)
  then have "SnapshotIndexPath ''r'' \<noteq> ''m''" by auto
  then have l: "LoadSnapshotIndex calm_snap ''r'' ?fs = Inr []" by (simp add: LoadSnapshotIndex_def)
  have "LoadSnapshotIndex calm_snap ''r'' (?fs(SnapshotManifestPath ''r'' 1 @ ''.new'' := None,
      SnapshotManifestPath ''r'' 1 \<mapsto> manifest_image ''EBMANIFEST4'' (BuildBodyV4 ?doc))) = Inr []"
    by (rule trans [OF LoadSnapshotIndex_cong l])
      (simp only: fun_upd_apply snapshot_paths_distinct snapshot_paths_distinct [THEN not_sym] if_False)
  then have st: "status_ok st1"
    using a by (auto simp: ArchiveSnapshot_def SaveSnapshotIndex_def Let_def calm_snap_def)
  have f: "manifest_fits ?doc" by (simp add: manifest_fits_def sample_entries_fit)
  have "\<not> DocumentUsesV5 ?doc"
    by (simp add: DocumentUsesV5_def has_win_meta_def has_sparse_meta_def has_efs_meta_def sample_entries)
  then have w: "WriteManifestBinary \<lparr>mf_open_ok = True, mf_torn = None, mf_fsync = Status_Ok\<rparr> ''m'' ?doc None = (Status_Ok, ?fs ''m'')"
    by (simp add: WriteManifestBinary_def WriteManifestV4_def write_manifest_file_def)
  have ok: "snapshots_ok []" "sn_read_ok calm_snap" by (simp_all add: snapshots_ok_def calm_snap_def)
  have "LoadSnapshotManifest (\<lambda>_ _. None) ''r'' 1 fs2 = Some (Inr ?doc)"
    using archived_snapshot_survives [OF l ok(1) _ ok(2) _ _ f w a st p] sample_entries_lossless by simp
  then show ?thesis by (simp add: Let_def a p)
qed

end
