(* ===== verification/Spec2Isabelle.thy ===== *)
theory Spec2Isabelle
  imports BackupRun Merkle Envelope ChunkFaults FastCdcStream CfiReuse ManifestBrowse Snapshots
begin

text \<open>
  eBackUp is a backup program; this development models its engine (\<open>src/engine_cpp\<close>, C++) and the
  LZ4 library the engine compresses with (\<open>src/lz4-dev/lib\<close>, C), each definition translated from the
  function of the same name. Paths below are relative to \<open>src/engine_cpp/src\<close> unless they say otherwise; a
  header of \<open>src/engine_cpp/include/ebbackup\<close> is named with its \<open>.h\<close>.

  \<^bold>\<open>How the program works.\<close> A repository is a directory. Its superblock, kept in two slots that are written
  in turn, says in which phase of a backup the repository is, and which transaction was committed
  last. A run of the engine scans the files, cuts each into chunks by content, stores each chunk under
  the SHA-256 of its bytes unless the store has it already, publishes a manifest, and commits the
  superblock; each step moves a phase machine that is persisted, so that after a crash the next start
  knows what to roll back or forward. A chunk is compressed with LZ4 or Zstandard when that pays, encrypted
  with AES-256-GCM when the repository is encrypted, and appended as a record to an append-only log or to
  the pack files of the transaction; an index maps hashes to places. The key of an encrypted repository is
  random and kept wrapped under a password and under a recovery key. A Merkle tree over the chunk hashes
  allows a snapshot to be audited.

  \<^bold>\<open>Theories.\<close>
  \<^item> EbPrelude: machine words and bytes, the little-endian codec, the collections of rewrite rules,
    \<open>Status\<close> (\<open>common/status.h\<close>), and the locale \<open>packed_struct\<close>: the contract of a packed record whose image
    is read back. SuperBlock, EbPack and ChunkIndex interpret it on every on-disk record.
  \<^item> Crc32 (\<open>common/crc32.h\<close>): the checksum, and that it detects every burst of at most 32 bits.
  \<^item> Digest (\<open>common/digest_standard.cc\<close>, \<open>common/digest_legacy.cc\<close>, \<open>common/digest.cc\<close>): SHA-256 with its streaming
    context, HMAC, PBKDF2 and hexadecimal text. The streaming digests are proved to be functions of the whole
    message, given by a specification written from the padding rule.
  \<^item> SuperBlock (\<open>state/superblock.cc\<close>): layout, \<open>ReadSlot\<close>, \<open>WriteSlot\<close>, \<open>Load\<close>, \<open>Commit\<close>. A commit may fail before
    the write, fail to sync, or be interrupted in it, which leaves the slot with its old image, with the new one, or with
    one that the checksums refuse (\<open>env_ok\<close>); the store is an atomic register then. It is not when an existing
    file cannot be opened for update: \<open>WriteSlot\<close> creates it anew (\<open>failed_open_erases\<close>).
  \<^item> RepoFormat (\<open>engine/manifest.h\<close>): the feature flags and parameters packed into the superblock.
  \<^item> ManifestFile, ManifestBrowse (\<open>engine/manifest.cc\<close>): the binary manifest, its writer and its two readers. One lemma
    per field relates reader and writer, and the round trip composes them; the second reader, which
    only skips, is compared with the first: they agree until an entry has anchors. \<open>stored\<close> is what the format keeps of
    a document.
  \<^item> BackupRun (\<open>state/backup_phase.h\<close>, \<open>state/sync_executor.cc\<close>, \<open>engine/backup_engine.cc\<close>): the phase machine, the
    rules that synchronise its transitions, \<open>Open\<close>, \<open>StartupSelfCheck\<close> and \<open>RunBackup\<close> as a list of steps over
    the superblock. The work of a part of the run (scanning, storing, publishing) is a parameter
    that may fail at every point and may change the other files of the repository, also when it fails; a crash is a
    prefix of the steps.
  \<^item> Merkle (\<open>audit/merkle.cc\<close>, \<open>audit/merkle_proof.cc\<close>): trees, inclusion proofs and the check of a
    restored file.
  \<^item> AesGcm (\<open>crypto/aes_block.cc\<close>, \<open>crypto/gcm_portable.cc\<close>): the portable cipher; GHASH is proved to be a polynomial over
    the field of 128-bit words.
  \<^item> TextFormat, JsonField (\<open>engine/restore_options_json.cc\<close>), Envelope (\<open>crypto/envelope.cc\<close>, \<open>crypto/aes_gcm.cc\<close>):
    numbers as text, the field readers, the key envelope and its operations over the files of
    the repository.
  \<^item> Lz4Format, Lz4Decompress, Lz4Compress (\<open>lz4-dev/lib/lz4.c\<close>), Lz4Codec (\<open>codec/lz4_codec.cc\<close>): the block
    format as sequences, both directions of the library with their fast loops, wild copies and
    hash table, and the codec of the engine over them.
  \<^item> ContentClass (\<open>codec/content_class.cc\<close>, \<open>codec/compress_policy.cc\<close>, \<open>codec/zstd_codec.cc\<close>): how a chunk is stored.
  \<^item> EbPack (\<open>store/eb_pack.cc\<close>): the writer of pack files and the reader of their records.
  \<^item> ChunkIndex (\<open>store/chunk_index.cc\<close>, \<open>store/chunk_store.h\<close>): record headers in both versions, the
    persistent index, the scan that rebuilds it.
  \<^item> ChunkStore (\<open>store/chunk_store.cc\<close>): the store with its sixteen index shards, its write buffer, tombstones and
    encryption; all operations from \<open>Open\<close> to \<open>TombstoneHash\<close>. ChunkBackend states what the store needs of the place its
    records go to as the locale \<open>record_backend\<close> and what it promises as the locale \<open>store_backend\<close>, and interprets both on the
    log and on the packs; ChunkReopen extends it by \<open>indexed_store\<close> (with the sublocale \<open>traced\<close>): the list
    that \<open>SavePersistentIndex\<close> writes agrees with the index, so a reopened store finds every record.
    ChunkFaults has what the store does after failed writes, tombstones and torn logs.
  \<^item> Snapshots (\<open>store/snapshot_store.cc\<close>, \<open>catalog/snapshot_meta.cc\<close>, \<open>store/retention_policy.cc\<close>): the archive of manifests with
    its index, the lines of metadata with the locks, the retention policy and pruning. The policy is proved equal to a
    declarative one, and pruning to keep what is protected whichever deletion fails, as long as the lines of metadata load.
  \<^item> FastCdc (\<open>chunk/fast_cdc.cc\<close>, \<open>chunk/fast_cdc_simd.cc\<close>): the content-defined chunker of a whole buffer. ChunkProfile
    (\<open>chunk/chunk_profile.cc\<close>): its sizes. FastCdcStream (\<open>chunk/fast_cdc_streaming.cc\<close> and the feeding loop of
    \<open>pipeline/backup_pipeline.cc\<close>): the chunker that is fed in segments, proved to make the cuts of a choice function that
    differs from the one of whole buffers only near the begin of a segment.
  \<^item> EbHcrbo, CfiReuse (\<open>chunk/eb_hcrbo.cc\<close>, \<open>chunk/cfi_bloom.cc\<close>, \<open>chunk/cfi_rolling.cc\<close>, \<open>chunk/rolling_checksum.cc\<close>,
    \<open>chunk/rabin_anchor.cc\<close>): chunking a file against the anchors of its last version.

  \<^bold>\<open>How the code is modelled.\<close> Structs are records, enums datatypes, integers words of their width (\<open>size_t\<close> in the
  chunker and in the file offsets of the store: natural numbers). A function that returns a \<open>Status\<close> returns a sum
  with the status on the left, or the status and the new state where the code changes state before it fails.
  Behaviour that C leaves undefined (an access out of bounds, a dead pointer, an overlapping \<open>memcpy\<close>) is
  \<open>None\<close>, and the LZ4 properties show that it does not happen; one exception is named apart, the \<open>memcpy\<close> of a range
  onto itself that the decoder does for an offset of 0 (\<open>mem_copy_or_same\<close>). The manifest reader's \<open>None\<close> also stands for an enum value
  without a name. The outcome of each file operation is
  a parameter: how many bytes a write stored, whether a sync succeeded. Where a property needs some operations to
  succeed, its text says which. The log and the packs get the same answers throughout one run of the store;
  commits of the superblock and the deletions of a pruning get one set of answers each.

  \<^bold>\<open>Loops.\<close> The decoder of LZ4 has the length of its input as fuel: each sequence reads at least one byte, and
  \<open>LZ4_decompress_safe_sound\<close> rules out that the fuel ends first. The loops of the compressor and the chunker are
  partial functions: \<open>LZ4_compress_fast_total\<close>, \<open>chunks_partition\<close>, \<open>streamed_file_is_partitioned\<close> and
  \<open>incremental_chunks_partition\<close> show that they end. The properties of the pack
  writer and the store bound the number of appends by \<open>2 ^ 30\<close>, so that the sequence number in a pack's name and the
  64-bit offsets do not wrap around.

  \<^bold>\<open>Parameters.\<close> The Zstandard library is a record of functions, with its documented round trip as the hypothesis
  \<open>zstd_law\<close>, which the witnesses instantiate. Others are the estimate of the entropy of a chunk (floating
  point), the random device, the clock, the line-oriented formats of the manifest, and the work of the parts of a run. LZ4 is modelled without a dictionary and
  without the mode that fills a given output, which the engine does not use. The results do not rest on any
  cryptographic hardness: a property about hashes has an explicit collision as an alternative.

  \<^bold>\<open>Not modelled.\<close> The restore engine, scanner, catalogue and reports (walks over the host's file system and
  derived data); the manifest formats 1 to 3 (lines of text read through C++ streams); the pipeline (but its feeding loop), daemon, queue and the mutexes of the store (threads and timing: here each operation is
  one step); the Windows metadata and shadow copies (calls of the Windows API); the C interface and plug-ins (glue); the
  gear-tensor and topological chunkers (the latter compute with floating-point numbers); garbage collection and
  compaction, of which the tombstones are in the store; the parser of a retention policy; the other vendored libraries (zstd, 7-Zip, spdlog).
\<close>

end
